(* ===== verification/Prelude.thy ===== *)
theory Prelude
  imports Main "HOL-Library.Word" "HOL-Library.Multiset"
begin

text \<open>
  Shared ground of the development: names for the machine types of the sources, the
  C++ exceptions that the modelled code throws, \<^verbatim>\<open>std::vector\<close> operations
  (\<open>resize\<close>, checked reads), and the generic lemmas that the component theories rely on.
  Operations that may throw return a value of the sum type \<open>exn + 'a\<close>.
\<close>

section \<open>Machine types\<close>

unbundle bit_operations_syntax

type_synonym u8 = "8 word"
type_synonym u32 = "32 word"
type_synonym u64 = "64 word"

text \<open>Document identifiers (\<^verbatim>\<open>docid_t\<close> is a 32-bit unsigned integer).\<close>

type_synonym docid = u32

section \<open>Exceptions\<close>

datatype exn =
    MiningException string
  | RuntimeError string
  | OverflowError string
  | BadLexicalCast

type_synonym 'a result = "exn + 'a"

section \<open>Collections of facts\<close>

named_theorems wf_intros \<open>introduction rules for well-formedness invariants\<close>
named_theorems op_simps \<open>equations that unfold operations of the model\<close>

section \<open>Vectors\<close>

text \<open>\<^verbatim>\<open>std::vector::resize(n, d)\<close>: truncates or pads with the default value.\<close>

definition vec_resize :: "nat \<Rightarrow> 'a \<Rightarrow> 'a list \<Rightarrow> 'a list" where
  "vec_resize n d xs = take n xs @ replicate (n - length xs) d"

lemma length_vec_resize [simp]: "length (vec_resize n d xs) = n"
  by (simp add: vec_resize_def)

lemma nth_vec_resize:
  "i < n \<Longrightarrow> vec_resize n d xs ! i = (if i < length xs then xs ! i else d)"
  by (auto simp: vec_resize_def nth_append)

lemma vec_resize_id [simp]: "vec_resize (length xs) d xs = xs"
  by (simp add: vec_resize_def)

text \<open>A checked read of a vector: \<open>None\<close> where the C++ read is out of range.\<close>

definition vec_at :: "'a list \<Rightarrow> nat \<Rightarrow> 'a option" where
  "vec_at xs i = (if i < length xs then Some (xs ! i) else None)"

lemma vec_at_Some_iff: "vec_at xs i = Some x \<longleftrightarrow> i < length xs \<and> xs ! i = x"
  by (auto simp: vec_at_def)

lemma vec_at_lt [simp]: "i < length xs \<Longrightarrow> vec_at xs i = Some (xs ! i)"
  by (simp add: vec_at_def)

lemma vec_at_append1 [simp]: "i < length xs \<Longrightarrow> vec_at (xs @ ys) i = Some (xs ! i)"
  by (simp add: vec_at_def nth_append)

lemma vec_at_snoc [simp]: "vec_at (xs @ [x]) (length xs) = Some x"
  by (simp add: vec_at_def)

text \<open>Sub-vectors survive an append at the end.\<close>

lemma take_drop_append_left:
  "i + n \<le> length xs \<Longrightarrow> take n (drop i (xs @ ys)) = take n (drop i xs)"
  by simp

lemma take_drop_conv_map_nth:
  "i + n \<le> length xs \<Longrightarrow> take n (drop i xs) = map (\<lambda>k. xs ! (i + k)) [0..<n]"
  by (rule nth_equalityI) auto

section \<open>Words\<close>

lemma unat_of_nat_u32: "n < 2 ^ 32 \<Longrightarrow> unat (of_nat n :: u32) = n"
  by (simp add: unat_of_nat)

lemma of_nat_u32_eq_0_iff: "n \<le> 2 ^ 32 \<Longrightarrow> (of_nat n :: u32) = 0 \<longleftrightarrow> n = 0 \<or> n = 2 ^ 32"
  by (auto simp: word_of_nat_eq_0_iff elim!: dvdE)

section \<open>Decimal numbers\<close>

text \<open>
  Printing of an unsigned number and the digits-only reading that \<^verbatim>\<open>operator<<\<close>,
  \<^verbatim>\<open>operator>>\<close> and \<^verbatim>\<open>boost::lexical_cast\<close> share.
\<close>

definition digit_char :: "nat \<Rightarrow> char" where
  "digit_char d = char_of (48 + d)"

definition is_digit :: "char \<Rightarrow> bool" where
  "is_digit c \<longleftrightarrow> 48 \<le> (of_char c :: nat) \<and> (of_char c :: nat) \<le> 57"

definition digit_val :: "char \<Rightarrow> nat" where
  "digit_val c = of_char c - 48"

fun show_nat :: "nat \<Rightarrow> string" where
  "show_nat n = (if n < 10 then [digit_char n] else show_nat (n div 10) @ [digit_char (n mod 10)])"

declare show_nat.simps [simp del]

definition digits_val :: "string \<Rightarrow> nat" where
  "digits_val s = foldl (\<lambda>v c. 10 * v + digit_val c) 0 s"

definition read_nat :: "string \<Rightarrow> nat option" where
  "read_nat s = (if s \<noteq> [] \<and> list_all is_digit s then Some (digits_val s) else None)"

lemma digit_val_char [simp]: "d < 10 \<Longrightarrow> digit_val (digit_char d) = d"
  by (simp add: digit_val_def digit_char_def)

lemma is_digit_char [simp]: "d < 10 \<Longrightarrow> is_digit (digit_char d)"
  by (simp add: is_digit_def digit_char_def)

lemma show_nat_not_Nil [simp]: "show_nat n \<noteq> []"
  by (subst show_nat.simps) simp

lemma show_nat_digits: "list_all is_digit (show_nat n)"
proof (induction n rule: show_nat.induct)
  case (1 n)
  then show ?case by (subst show_nat.simps) simp
qed

lemma digits_val_snoc: "digits_val (s @ [c]) = 10 * digits_val s + digit_val c"
  by (simp add: digits_val_def)

lemma digits_val_show_nat [simp]: "digits_val (show_nat n) = n"
proof (induction n rule: show_nat.induct)
  case (1 n)
  show ?case
  proof (cases "n < 10")
    case True
    then show ?thesis by (subst show_nat.simps) (simp add: digits_val_def)
  next
    case False
    then show ?thesis using 1 by (subst show_nat.simps) (simp add: digits_val_snoc)
  qed
qed

lemma read_show_nat [simp]: "read_nat (show_nat n) = Some n"
  by (simp add: read_nat_def show_nat_digits)

text \<open>The first position of a range with a property.\<close>

lemma find_upt_Some: "find P [m..<n] = Some x \<longleftrightarrow> m \<le> x \<and> x < n \<and> P x \<and> (\<forall>y. m \<le> y \<and> y < x \<longrightarrow> \<not> P y)"
proof (induction "n - m" arbitrary: m)
  case (Suc k)
  then have m: "[m..<n] = m # [Suc m..<n]" by (simp add: upt_rec)
  show ?case
  proof (cases "P m")
    case True
    then show ?thesis using Suc.hyps(2) by (auto simp: m)
  next
    case False
    then show ?thesis using Suc by (auto simp: m Suc_le_eq) (metis le_neq_implies_less)+
  qed
qed simp

end
