(* ===== verification/Sharding.thy ===== *)
theory Sharding
  imports Prelude
begin

text \<open>
  Sharding (core/node-manager/sharding: ShardingConfig.h, ShardingStrategy.h, ShardingStrategy.cpp,
  ScdSharder.h, ScdSharder.cpp, RecommendShardStrategy.h, RecommendMatrixSharder.h): which shard a
  document is written to and which shards are asked for it, by hashing and by a saved map.
\<close>

section \<open>Configuration\<close>

type_synonym shardid = u8
type_synonym shard_fields = "string \<rightharpoonup> string"

record sharding_config =
  shardidList :: "shardid list"
  unique_shardkey :: string
  range_shardkeys :: "string \<rightharpoonup> int list"
  attribute_shardkeys :: "string \<rightharpoonup> string list"

definition setUniqueShardKey :: "string \<Rightarrow> sharding_config \<Rightarrow> sharding_config" where
  "setUniqueShardKey prop_key cfg = cfg\<lparr>unique_shardkey := prop_key\<rparr>"

definition isRangeShardKey :: "sharding_config \<Rightarrow> string \<Rightarrow> bool" where
  "isRangeShardKey cfg prop_key \<longleftrightarrow> range_shardkeys cfg prop_key \<noteq> None"

definition isAttributeShardKey :: "sharding_config \<Rightarrow> string \<Rightarrow> bool" where
  "isAttributeShardKey cfg prop_key \<longleftrightarrow> attribute_shardkeys cfg prop_key \<noteq> None"

definition isUniqueShardKey :: "sharding_config \<Rightarrow> string \<Rightarrow> bool" where
  "isUniqueShardKey cfg prop_key \<longleftrightarrow> unique_shardkey cfg = prop_key"

section \<open>Keys\<close>

text \<open>
  The reading of a 32-character key as a 128-bit number, cut to 64 bits, and \<open>boost::lexical_cast\<close>
  are outside of the repository. A \<open>char\<close> is signed: its conversion to \<open>size_t\<close> extends the sign.
  \<open>None\<close> is the read before the start of an empty key.
\<close>

record shard_env =
  uuidToUint128 :: "string \<Rightarrow> u64"
  lexcast_size_t :: "string \<Rightarrow> u64 option"

definition char_to_size_t :: "char \<Rightarrow> u64" where
  "char_to_size_t c = (let n = (of_char c :: int) in of_int (if n < 128 then n else n - 256))"

definition convertUniqueIDForSharding :: "shard_env \<Rightarrow> string \<Rightarrow> u64 option" where
  "convertUniqueIDForSharding env uid =
     (if length uid = 32 then Some (uuidToUint128 env uid)
      else case lexcast_size_t env uid of
             Some v \<Rightarrow> Some v
           | None \<Rightarrow> if uid = [] then None else Some (char_to_size_t (last uid)))"

section \<open>HashShardingStrategy\<close>

definition hash_for_write :: "shard_env \<Rightarrow> sharding_config \<Rightarrow> shard_fields \<Rightarrow> shardid option" where
  "hash_for_write env cfg shardFieldList =
     (if shardidList cfg = [] then Some 0
      else if length (shardidList cfg) = 1 then Some (last (shardidList cfg))
      else
        let range_first = 0; range_second = length (shardidList cfg) in
        case shardFieldList (unique_shardkey cfg) of
          None \<Rightarrow> Some 0
        | Some uid \<Rightarrow>
            (case convertUniqueIDForSharding env uid of
               None \<Rightarrow> None
             | Some i \<Rightarrow>
                 (let shardIndex = range_first + unat i mod (range_second - range_first)
                  in Some (shardidList cfg ! shardIndex))))"

definition hash_for_get :: "shard_env \<Rightarrow> sharding_config \<Rightarrow> shard_fields \<Rightarrow> shardid list option" where
  "hash_for_get env cfg shardFieldList =
     (if shardidList cfg = [] then Some []
      else if length (shardidList cfg) = 1 then Some [last (shardidList cfg)]
      else
        let range_first = 0; range_second = length (shardidList cfg) in
        case shardFieldList (unique_shardkey cfg) of
          Some uid \<Rightarrow>
            (case convertUniqueIDForSharding env uid of
               None \<Rightarrow> None
             | Some i \<Rightarrow>
                 (let shardIndex = range_first + unat i mod (range_second - range_first)
                  in Some [shardidList cfg ! shardIndex]))
        | None \<Rightarrow> Some (shardidList cfg))"

section \<open>MapShardingStrategy\<close>

record map_sharding =
  ms_cfg :: sharding_config
  saved_sharding_map :: "shardid list"
  map_file_path :: string

type_synonym text_files = "string \<rightharpoonup> string"

definition MAX_MAP_SIZE :: nat where "MAX_MAP_SIZE = 0xFFFF"

definition map_write_uid :: "shard_env \<Rightarrow> map_sharding \<Rightarrow> string \<Rightarrow> shardid option" where
  "map_write_uid env st uid =
     (if length (shardidList (ms_cfg st)) = 1 then Some (last (shardidList (ms_cfg st)))
      else if saved_sharding_map st = [] then Some 0
      else map_option (\<lambda>index. saved_sharding_map st ! (unat index mod length (saved_sharding_map st)))
             (convertUniqueIDForSharding env uid))"

definition map_for_write :: "shard_env \<Rightarrow> map_sharding \<Rightarrow> shard_fields \<Rightarrow> shardid option" where
  "map_for_write env st shardFieldList =
     (case shardFieldList (unique_shardkey (ms_cfg st)) of
        None \<Rightarrow> Some 0
      | Some uid \<Rightarrow> map_write_uid env st uid)"

definition map_for_get :: "shard_env \<Rightarrow> map_sharding \<Rightarrow> shard_fields \<Rightarrow> shardid list option" where
  "map_for_get env st shardFieldList =
     (case shardFieldList (unique_shardkey (ms_cfg st)) of
        Some uid \<Rightarrow>
          map_option (\<lambda>selected_id. if selected_id > 0 then [selected_id] else []) (map_write_uid env st uid)
      | None \<Rightarrow> Some (shardidList (ms_cfg st)))"

text \<open>
  Extraction of an unsigned number from a text stream: leading white space is skipped; no digits or a
  number that does not fit sets the fail bit (value 0, or the largest value); reaching the end sets
  the end bit. The result is the value, the rest of the stream and whether the stream is still good.
\<close>

definition is_space :: "char \<Rightarrow> bool" where
  "is_space c \<longleftrightarrow> c \<in> {CHR '' '', CHR 0x09, CHR 0x0A, CHR 0x0B, CHR 0x0C, CHR 0x0D}"

definition extract_u32 :: "string \<Rightarrow> u32 \<times> string \<times> bool" where
  "extract_u32 s0 =
     (let s1 = dropWhile is_space s0 in
      if s1 = [] then (0, [], False)
      else
        let neg = (hd s1 = CHR ''-'');
            s2 = (if neg \<or> hd s1 = CHR ''+'' then tl s1 else s1);
            ds = takeWhile is_digit s2; r = dropWhile is_digit s2 in
        if ds = [] then (0, r, False)
        else if digits_val ds \<ge> 2 ^ 32 then (- 1, r, False)
        else (if neg then - of_nat (digits_val ds) else of_nat (digits_val ds), r, r \<noteq> []))"

lemma extract_u32_shorter:
  assumes "extract_u32 s = (v, r, True)"
  shows "length r < length s"
proof -
  let ?s1 = "dropWhile is_space s"
  let ?s2 = "if hd ?s1 = CHR ''-'' \<or> hd ?s1 = CHR ''+'' then tl ?s1 else ?s1"
  have ne: "takeWhile is_digit ?s2 \<noteq> []" and r: "r = dropWhile is_digit ?s2"
    using assms by (auto simp: extract_u32_def Let_def split: if_splits)
  have "length ?s2 \<le> length s"
    using length_dropWhile_le [of is_space s] by auto
  moreover have "length ?s2 = length (takeWhile is_digit ?s2) + length (dropWhile is_digit ?s2)"
    by (metis length_append takeWhile_dropWhile_id)
  moreover have "0 < length (takeWhile is_digit ?s2)" using ne by blast
  ultimately show ?thesis unfolding r by linarith
qed

text \<open>The reading loop; \<open>sharding_map\<close> holds what has been read, and the argument of the loop is a good stream.\<close>

function read_map_loop :: "string \<Rightarrow> shardid list \<Rightarrow> shardid list" where
  "read_map_loop s sharding_map =
     (let (tmpid, r, good) = extract_u32 s;
          shardid = (ucast tmpid :: u8);
          m = (if shardid \<noteq> 0 then sharding_map @ [shardid] else sharding_map)
      in if length m = MAX_MAP_SIZE then m
         else if good then read_map_loop r m else m)"
  by pat_completeness auto
termination
proof (relation "measure (\<lambda>(s, m). length s)", goal_cases)
  case (2 s m x tmpid y r good shardid m')
  then have "extract_u32 s = (tmpid, r, True)" by simp
  then show ?case using extract_u32_shorter by simp
qed simp

declare read_map_loop.simps [simp del]

text \<open>A file that cannot be opened leaves the map as it is; an open stream is good before the first extraction.\<close>

definition readShardingMapFile :: "string \<Rightarrow> shardid list \<Rightarrow> text_files \<Rightarrow> shardid list" where
  "readShardingMapFile fullpath sharding_map fs =
     (case fs fullpath of
        None \<Rightarrow> sharding_map
      | Some text \<Rightarrow>
          (let m = read_map_loop text [] in if length m \<noteq> MAX_MAP_SIZE then [] else m))"

definition map_text :: "shardid list \<Rightarrow> string" where
  "map_text m = concat (map (\<lambda>s. if s > 0 then show_nat (unat s) @ [CHR 0x0A] else []) m)"

definition saveShardingMapToFile :: "string \<Rightarrow> shardid list \<Rightarrow> text_files \<Rightarrow> text_files" where
  "saveShardingMapToFile fullpath sharding_map fs =
     (if length sharding_map \<noteq> MAX_MAP_SIZE then fs
      else fs(fullpath \<mapsto> map_text sharding_map))"

definition map_save :: "map_sharding \<Rightarrow> text_files \<Rightarrow> text_files" where
  "map_save st fs =
     (if saved_sharding_map st = [] then fs
      else saveShardingMapToFile (map_file_path st) (saved_sharding_map st) fs)"

definition map_init :: "map_sharding \<Rightarrow> text_files \<Rightarrow> bool \<times> map_sharding \<times> text_files" where
  "map_init st fs =
     (if map_file_path st = [] then (False, st, fs)
      else if fs (map_file_path st) = None then
        (let ids = shardidList (ms_cfg st) in
         if length ids \<le> 1 then (True, st, fs)
         else let st' = st\<lparr>saved_sharding_map := map (\<lambda>i. ids ! (i mod length ids)) [0..<MAX_MAP_SIZE]\<rparr>
              in (True, st', map_save st' fs))
      else (True, st\<lparr>saved_sharding_map :=
             readShardingMapFile (map_file_path st) (saved_sharding_map st) fs\<rparr>, fs))"

section \<open>Sharding of SCD documents\<close>

text \<open>The strategy object is a parameter of \<open>ScdSharder\<close>: its configuration and its write function.\<close>

type_synonym scd_doc = "(string \<times> string) list"

fun setShardKeyValues :: "sharding_config \<Rightarrow> scd_doc \<Rightarrow> shard_fields" where
  "setShardKeyValues cfg [] = Map.empty"
| "setShardKeyValues cfg ((propertyName, propertyValue) # doc) =
     (if isUniqueShardKey cfg propertyName then [propertyName \<mapsto> propertyValue]
      else setShardKeyValues cfg doc)"

definition scd_sharding ::
  "(sharding_config \<times> (shard_fields \<Rightarrow> shardid option)) option \<Rightarrow> scd_doc \<Rightarrow> shardid option" where
  "scd_sharding strategy scdDoc =
     (case strategy of
        None \<Rightarrow> Some 0
      | Some (cfg, for_write) \<Rightarrow> for_write (setShardKeyValues cfg scdDoc))"

definition getShardingIdList ::
  "(sharding_config \<times> (shard_fields \<Rightarrow> shardid option)) option \<Rightarrow> shardid list" where
  "getShardingIdList strategy = (case strategy of None \<Rightarrow> [] | Some (cfg, _) \<Rightarrow> shardidList cfg)"

section \<open>Sharding of recommendation items\<close>

definition recommend_getShardId :: "shardid list \<Rightarrow> u32 \<Rightarrow> shardid option" where
  "recommend_getShardId shardids itemId =
     (if shardids = [] then None else Some (shardids ! (unat itemId mod length shardids)))"

text \<open>The shard of a user; \<open>None\<close>: the cast of the user id throws.\<close>

definition recommend_shardingForUser :: "(string \<Rightarrow> u32 option) \<Rightarrow> shardid list \<Rightarrow> string \<Rightarrow> shardid option" where
  "recommend_shardingForUser lexcast_u32 ids user_id = Option.bind (lexcast_u32 user_id) (recommend_getShardId ids)"

definition recommend_testRow :: "shardid \<Rightarrow> shardid list \<Rightarrow> u32 \<Rightarrow> bool option" where
  "recommend_testRow curShardId shardids rowId =
     map_option (\<lambda>s. s = curShardId) (recommend_getShardId shardids rowId)"

section \<open>The contract of a strategy\<close>

text \<open>The documents that a strategy puts on a shard.\<close>

definition placed :: "(shard_fields \<Rightarrow> shardid option) \<Rightarrow> ('d \<Rightarrow> shard_fields) \<Rightarrow> 'd set \<Rightarrow> shardid \<Rightarrow> 'd set" where
  "placed for_write fieldsOf docs s = {d \<in> docs. for_write (fieldsOf d) = Some s}"

locale sharding_strategy =
  fixes for_write :: "'st \<Rightarrow> shard_fields \<Rightarrow> shardid option"
    and for_get :: "'st \<Rightarrow> shard_fields \<Rightarrow> shardid list option"
    and shards :: "'st \<Rightarrow> shardid list"
    and invar :: "'st \<Rightarrow> bool"
  assumes write_get: "invar st \<Longrightarrow> for_write st f = Some s \<Longrightarrow> s \<noteq> 0 \<Longrightarrow>
      \<exists>l. for_get st f = Some l \<and> s \<in> set l"
    and write_shard: "invar st \<Longrightarrow> for_write st f = Some s \<Longrightarrow> s \<noteq> 0 \<Longrightarrow> s \<in> set (shards st)"
    and get_all: "invar st \<Longrightarrow> for_get st Map.empty = Some (shards st)"
begin

lemma key_query_finds:
  assumes "invar st" "d \<in> docs" "for_write st (fieldsOf d) = Some s" "s \<noteq> 0"
  shows "\<exists>l. for_get st (fieldsOf d) = Some l \<and> d \<in> (\<Union>s\<in>set l. placed (for_write st) fieldsOf docs s)"
  using write_get [OF assms(1,3,4)] assms by (auto simp: placed_def)

lemma full_query_finds:
  assumes "invar st" "d \<in> docs" "for_write st (fieldsOf d) = Some s" "s \<noteq> 0"
  shows "\<exists>l. for_get st Map.empty = Some l \<and> d \<in> (\<Union>s\<in>set l. placed (for_write st) fieldsOf docs s)"
  using get_all [OF assms(1)] write_shard [OF assms(1,3,4)] assms by (auto simp: placed_def)

end

lemma last_singleton: "length xs = 1 \<Longrightarrow> [last xs] = xs"
  by (cases xs) auto

interpretation hash: sharding_strategy "hash_for_write env" "hash_for_get env" shardidList "\<lambda>_. True"
  for env
proof
  fix cfg :: sharding_config and f s
  assume w: "hash_for_write env cfg f = Some s" "s \<noteq> 0"
  then show "\<exists>l. hash_for_get env cfg f = Some l \<and> s \<in> set l"
    by (auto simp: hash_for_write_def hash_for_get_def Let_def split: if_splits option.splits)
  show "s \<in> set (shardidList cfg)"
    using w by (auto simp: hash_for_write_def Let_def split: if_splits option.splits)
next
  fix cfg :: sharding_config
  show "hash_for_get env cfg Map.empty = Some (shardidList cfg)"
    by (auto simp: hash_for_get_def last_singleton)
qed

definition map_ok :: "map_sharding \<Rightarrow> bool" where
  "map_ok st \<longleftrightarrow> set (saved_sharding_map st) \<subseteq> set (shardidList (ms_cfg st))"

interpretation mapped: sharding_strategy "map_for_write env" "map_for_get env"
  "\<lambda>st. shardidList (ms_cfg st)" map_ok for env
proof
  fix st :: map_sharding and f s
  assume ok: "map_ok st" and w: "map_for_write env st f = Some s" "s \<noteq> 0"
  then obtain uid where u: "f (unique_shardkey (ms_cfg st)) = Some uid" "map_write_uid env st uid = Some s"
    by (auto simp: map_for_write_def split: option.splits)
  then show "\<exists>l. map_for_get env st f = Some l \<and> s \<in> set l"
    using w(2) by (auto simp: map_for_get_def word_gt_0)
  consider "length (shardidList (ms_cfg st)) = 1" "s = last (shardidList (ms_cfg st))"
    | i where "saved_sharding_map st \<noteq> []" "s = saved_sharding_map st ! (i mod length (saved_sharding_map st))"
    using u(2) w(2) by (auto simp: map_write_uid_def split: if_splits)
  then show "s \<in> set (shardidList (ms_cfg st))"
  proof cases
    case 1
    then show ?thesis by (metis last_singleton list.set_intros(1))
  next
    case 2
    then have "s \<in> set (saved_sharding_map st)" by simp
    then show ?thesis using ok by (auto simp: map_ok_def)
  qed
next
  fix st :: map_sharding assume "map_ok st"
  show "map_for_get env st Map.empty = Some (shardidList (ms_cfg st))" by (simp add: map_for_get_def)
qed

section \<open>The map file\<close>

lemma show_nat_head: "is_digit (hd (show_nat n))"
  using show_nat_digits [of n] by (cases "show_nat n") auto

lemma digit_not_space: "is_digit c \<Longrightarrow> \<not> is_space c \<and> c \<noteq> CHR ''-'' \<and> c \<noteq> CHR ''+''"
  by (auto simp: is_digit_def is_space_def)

lemma extract_show_nat:
  assumes "list_all is_space pre" "n < 2 ^ 32"
  shows "extract_u32 (pre @ show_nat n @ CHR 0x0A # rest) = (of_nat n, CHR 0x0A # rest, True)"
proof -
  let ?t = "show_nat n @ CHR 0x0A # rest"
  obtain c cs where c: "show_nat n = c # cs" by (cases "show_nat n") auto
  have dig: "is_digit c" using show_nat_head [of n] c by simp
  have "dropWhile is_space (pre @ ?t) = ?t"
    using assms(1) digit_not_space [OF dig]
    by (simp add: dropWhile_append2 list_all_iff) (simp add: c)
  moreover have "hd ?t \<noteq> CHR ''-''" "hd ?t \<noteq> CHR ''+''" "?t \<noteq> []"
    using digit_not_space [OF dig] by (simp_all add: c)
  moreover have "takeWhile is_digit ?t = show_nat n" "dropWhile is_digit ?t = CHR 0x0A # rest"
    using show_nat_digits [of n]
    by (simp_all add: takeWhile_append2 dropWhile_append2 list_all_iff is_digit_def)
  ultimately show ?thesis using assms(2) by (simp add: extract_u32_def Let_def)
qed

lemma read_map_text:
  assumes "0 \<notin> set xs" "xs \<noteq> []" "list_all is_space pre" "length acc + length xs = MAX_MAP_SIZE"
  shows "read_map_loop (pre @ map_text xs) acc = acc @ xs"
  using assms
proof (induction xs arbitrary: pre acc)
  case (Cons x xs)
  have x: "x > 0" "x \<noteq> 0" using Cons.prems(1) by (auto simp: word_gt_0)
  have b: "unat x < 2 ^ 8" using unsigned_less [of x] by simp
  then have lt: "unat x < 2 ^ 32" by simp
  have id: "(ucast (ucast x :: u32) :: u8) = x"
    by (rule bit_word_eqI) (simp add: bit_simps)
  have T: "pre @ map_text (x # xs) = pre @ show_nat (unat x) @ CHR 0x0A # map_text xs"
    using x by (simp add: map_text_def)
  have step: "read_map_loop (pre @ map_text (x # xs)) acc =
      (if length acc + 1 = MAX_MAP_SIZE then acc @ [x]
       else read_map_loop ([CHR 0x0A] @ map_text xs) (acc @ [x]))"
    unfolding T by (subst read_map_loop.simps)
      (simp add: extract_show_nat [OF Cons.prems(3) lt] id x(2) Let_def)
  show ?case
  proof (cases "xs = []")
    case True
    then show ?thesis using Cons.prems(4) step by simp
  next
    case False
    then have "read_map_loop ([CHR 0x0A] @ map_text xs) (acc @ [x]) = (acc @ [x]) @ xs"
      using Cons.prems by (intro Cons.IH) (auto simp: is_space_def)
    moreover have "length acc + 1 \<noteq> MAX_MAP_SIZE" using False Cons.prems(4) by (cases xs) auto
    ultimately show ?thesis using step by simp
  qed
qed simp

definition fresh_map :: "shardid list \<Rightarrow> shardid list" where
  "fresh_map ids = map (\<lambda>i. ids ! (i mod length ids)) [0..<MAX_MAP_SIZE]"

lemma MAX_MAP_SIZE_pos: "0 < MAX_MAP_SIZE"
  by (simp add: MAX_MAP_SIZE_def)

lemma fresh_map_props:
  assumes "ids \<noteq> []"
  shows "length (fresh_map ids) = MAX_MAP_SIZE" "set (fresh_map ids) \<subseteq> set ids" "fresh_map ids \<noteq> []"
  using assms MAX_MAP_SIZE_pos by (auto simp: fresh_map_def)

lemma mod_slots:
  assumes "j < n"
  shows "length (filter (\<lambda>i. i mod n = j) [0..<N]) = N div n + (if j < N mod n then 1 else 0)"
proof (induction N)
  case (Suc N)
  show ?case
  proof (cases "Suc (N mod n) = n")
    case True
    then have "Suc N div n = Suc (N div n)" "Suc N mod n = 0" by (simp_all add: div_Suc mod_Suc)
    then show ?thesis using Suc True assms by (auto split: if_splits)
  next
    case False
    then have "Suc N div n = N div n" "Suc N mod n = Suc (N mod n)" by (simp_all add: div_Suc mod_Suc)
    then show ?thesis using Suc by (auto split: if_splits)
  qed
qed simp

section \<open>Properties\<close>

lemma convert_total: "uid \<noteq> [] \<Longrightarrow> \<exists>i. convertUniqueIDForSharding env uid = Some i"
  by (simp add: convertUniqueIDForSharding_def split: option.split)

text \<open>C19: what is written is found. For a list of valid shard ids and a document with a non-empty key,
both strategies (the map one with a non-empty map over the configured shards) choose a configured
shard, a query by the document's key asks that shard, and a query without a key asks all shards.\<close>

theorem sharding_write_then_get:
  assumes "shardidList cfg \<noteq> []" "0 \<notin> set (shardidList cfg)"
    and "f (unique_shardkey cfg) = Some uid" "uid \<noteq> []"
    and "ms_cfg st = cfg" "saved_sharding_map st \<noteq> []" "map_ok st"
  shows "(\<exists>s l. hash_for_write env cfg f = Some s \<and> s \<in> set (shardidList cfg) \<and>
       hash_for_get env cfg f = Some l \<and> s \<in> set l \<and> hash_for_get env cfg Map.empty = Some (shardidList cfg)) \<and>
    (\<exists>s l. map_for_write env st f = Some s \<and> s \<in> set (shardidList cfg) \<and>
       map_for_get env st f = Some l \<and> s \<in> set l \<and> map_for_get env st Map.empty = Some (shardidList cfg))"
proof -
  obtain i where i: "convertUniqueIDForSharding env uid = Some i"
    using convert_total [OF assms(4)] by blast
  have "\<exists>s. hash_for_write env cfg f = Some s \<and> s \<in> set (shardidList cfg)"
    using assms(1,3) i by (auto simp: hash_for_write_def Let_def)
  then obtain s where s: "hash_for_write env cfg f = Some s" "s \<in> set (shardidList cfg)" by blast
  have "s \<noteq> 0" using s(2) assms(2) by auto
  note h = s hash.write_get [OF _ s(1) this] hash.get_all [of env cfg]
  have "\<exists>s. map_for_write env st f = Some s \<and> s \<in> set (shardidList cfg)"
  proof (cases "length (shardidList cfg) = 1")
    case True
    then have "last (shardidList cfg) \<in> set (shardidList cfg)" using assms(1) by simp
    then show ?thesis using True assms(3,5) by (simp add: map_for_write_def map_write_uid_def)
  next
    case False
    let ?m = "saved_sharding_map st"
    have "?m ! (unat i mod length ?m) \<in> set ?m" using assms(6) by simp
    then show ?thesis using False assms(3,5-7) i
      by (auto simp: map_for_write_def map_write_uid_def map_ok_def)
  qed
  then obtain r where r: "map_for_write env st f = Some r" "r \<in> set (shardidList cfg)" by blast
  have "r \<noteq> 0" using r(2) assms(2) by auto
  note m = r mapped.write_get [OF assms(7) r(1) this] mapped.get_all [OF assms(7), of env]
  show ?thesis using h m assms(5) by simp
qed

theorem sharding_write_then_get_witness:
  "let env = \<lparr>uuidToUint128 = (\<lambda>_. 0), lexcast_size_t = (\<lambda>s. map_option of_nat (read_nat s))\<rparr>;
       cfg = \<lparr>shardidList = [1, 2, 3], unique_shardkey = ''DOCID'', range_shardkeys = Map.empty,
              attribute_shardkeys = Map.empty\<rparr>;
       f = [''DOCID'' \<mapsto> ''7'']
   in \<exists>s l. hash_for_write env cfg f = Some s \<and> hash_for_get env cfg f = Some l \<and> s \<in> set l"
proof -
  let ?env = "\<lparr>uuidToUint128 = (\<lambda>_. 0), lexcast_size_t = (\<lambda>s. map_option of_nat (read_nat s))\<rparr>"
  let ?cfg = "\<lparr>shardidList = [1, 2, 3 :: u8], unique_shardkey = ''DOCID'', range_shardkeys = Map.empty,
              attribute_shardkeys = Map.empty\<rparr>"
  let ?st = "\<lparr>ms_cfg = ?cfg, saved_sharding_map = [1, 2], map_file_path = ''m''\<rparr>"
  have h: "shardidList ?cfg \<noteq> []" "0 \<notin> set (shardidList ?cfg)"
    "[''DOCID'' \<mapsto> ''7''] (unique_shardkey ?cfg) = Some ''7''" "''7'' \<noteq> []"
    "ms_cfg ?st = ?cfg" "saved_sharding_map ?st \<noteq> []" "map_ok ?st"
    by (simp_all add: map_ok_def)
  show ?thesis using sharding_write_then_get [where f = "[''DOCID'' \<mapsto> ''7'']", OF h, of ?env] unfolding Let_def by blast
qed

text \<open>a restart keeps the shards. The first \<open>init\<close> without a map file deals the shards out over the
map and saves it; a later \<open>init\<close> with that file, whatever shards are configured then, restores
exactly the same map, so no document moves.\<close>

theorem sharding_map_restart:
  assumes "map_file_path st \<noteq> []" "fs (map_file_path st) = None"
    and "1 < length (shardidList (ms_cfg st))" "0 \<notin> set (shardidList (ms_cfg st))"
  shows "\<exists>st1 fs1. map_init st fs = (True, st1, fs1) \<and> map_ok st1 \<and>
    length (saved_sharding_map st1) = MAX_MAP_SIZE \<and>
    (\<forall>cfg2. map_init (st\<lparr>ms_cfg := cfg2\<rparr>) fs1 = (True, st1\<lparr>ms_cfg := cfg2\<rparr>, fs1))"
proof -
  let ?ids = "shardidList (ms_cfg st)"
  let ?m = "fresh_map ?ids"
  let ?st1 = "st\<lparr>saved_sharding_map := ?m\<rparr>" and ?fs1 = "fs(map_file_path st \<mapsto> map_text (fresh_map ?ids))"
  have ne: "?ids \<noteq> []" using assms(3) by auto
  note F = fresh_map_props [OF ne]
  have "0 \<notin> set ?m" using F(2) assms(4) by auto
  then have rd: "read_map_loop (map_text ?m) [] = ?m"
    using read_map_text [of ?m "[]" "[]"] F by simp
  have "map_init st fs = (True, ?st1, ?fs1)"
    using assms F by (simp add: map_init_def map_save_def saveShardingMapToFile_def fresh_map_def [symmetric] Let_def)
  moreover have "map_ok ?st1" using F(2) by (simp add: map_ok_def)
  moreover have "map_init (st\<lparr>ms_cfg := cfg2\<rparr>) ?fs1 = (True, ?st1\<lparr>ms_cfg := cfg2\<rparr>, ?fs1)" for cfg2
    using assms(1) F(1) rd by (simp add: map_init_def readShardingMapFile_def)
  ultimately show ?thesis using F(1)
    by (intro exI [of _ ?st1] exI [of _ ?fs1]) simp
qed

theorem sharding_map_restart_witness:
  "let cfg = \<lparr>shardidList = [1, 2, 3], unique_shardkey = ''DOCID'', range_shardkeys = Map.empty,
              attribute_shardkeys = Map.empty\<rparr>;
       st = \<lparr>ms_cfg = cfg, saved_sharding_map = [], map_file_path = ''m''\<rparr>
   in \<exists>st1 fs1. map_init st Map.empty = (True, st1, fs1) \<and> map_init st fs1 = (True, st1, fs1)"
proof -
  let ?cfg = "\<lparr>shardidList = [1, 2, 3 :: u8], unique_shardkey = ''DOCID'', range_shardkeys = Map.empty,
              attribute_shardkeys = Map.empty\<rparr>"
  let ?st = "\<lparr>ms_cfg = ?cfg, saved_sharding_map = [], map_file_path = ''m''\<rparr>"
  have h: "map_file_path ?st \<noteq> []" "Map.empty (map_file_path ?st) = None"
    "1 < length (shardidList (ms_cfg ?st))" "0 \<notin> set (shardidList (ms_cfg ?st))" by simp_all
  obtain st1 fs1 where m: "map_init ?st Map.empty = (True, st1, fs1)"
    "map_init (?st\<lparr>ms_cfg := ?cfg\<rparr>) fs1 = (True, st1\<lparr>ms_cfg := ?cfg\<rparr>, fs1)"
    using sharding_map_restart [where fs = Map.empty, OF h] by blast
  have "ms_cfg st1 = ?cfg" using m(1) by (auto simp: map_init_def Let_def)
  then have "st1\<lparr>ms_cfg := ?cfg\<rparr> = st1" by (cases st1) simp
  then show ?thesis using m unfolding Let_def by auto
qed

text \<open>the first map is balanced: with distinct shard ids every shard gets the same number of entries, up
to one.\<close>

theorem sharding_map_balanced:
  assumes "distinct ids" "j < length ids" "map_init st fs = (True, st1, fs1)"
    and "map_file_path st \<noteq> []" "fs (map_file_path st) = None" "shardidList (ms_cfg st) = ids"
    and "1 < length ids"
  shows "length (filter ((=) (ids ! j)) (saved_sharding_map st1)) =
    MAX_MAP_SIZE div length ids + (if j < MAX_MAP_SIZE mod length ids then 1 else 0)"
proof -
  have "saved_sharding_map st1 = fresh_map ids"
    using assms(3-7) by (auto simp: map_init_def Let_def fresh_map_def)
  moreover have "ids ! j = ids ! (i mod length ids) \<longleftrightarrow> i mod length ids = j" for i
  proof -
    have "i mod length ids < length ids" using assms(7) by (intro mod_less_divisor) linarith
    then show ?thesis using assms(1,2) nth_eq_iff_index_eq [of ids j "i mod length ids"] by auto
  qed
  ultimately show ?thesis using mod_slots [OF assms(2), of MAX_MAP_SIZE]
    by (simp add: fresh_map_def filter_map comp_def)
qed

theorem sharding_map_balanced_witness:
  "let cfg = \<lparr>shardidList = [1, 2, 3], unique_shardkey = ''DOCID'', range_shardkeys = Map.empty,
              attribute_shardkeys = Map.empty\<rparr>;
       st = \<lparr>ms_cfg = cfg, saved_sharding_map = [], map_file_path = ''m''\<rparr>
   in length (filter ((=) 2) (saved_sharding_map (fst (snd (map_init st Map.empty))))) = 21845"
proof -
  let ?cfg = "\<lparr>shardidList = [1, 2, 3 :: u8], unique_shardkey = ''DOCID'', range_shardkeys = Map.empty,
              attribute_shardkeys = Map.empty\<rparr>"
  let ?st = "\<lparr>ms_cfg = ?cfg, saved_sharding_map = [], map_file_path = ''m''\<rparr>"
  let ?i = "map_init ?st Map.empty"
  have i: "?i = (True, fst (snd ?i), snd (snd ?i))" by (simp add: map_init_def Let_def)
  have h: "distinct [1, 2, 3 :: u8]" "1 < length [1, 2, 3 :: u8]"
    "map_file_path ?st \<noteq> []" "Map.empty (map_file_path ?st) = None"
    "shardidList (ms_cfg ?st) = [1, 2, 3]" "1 < length [1, 2, 3 :: u8]" by simp_all
  have "length (filter ((=) ([1, 2, 3] ! 1)) (saved_sharding_map (fst (snd ?i)))) =
      MAX_MAP_SIZE div length [1, 2, 3 :: u8] + (if 1 < MAX_MAP_SIZE mod length [1, 2, 3 :: u8] then 1 else 0)"
    by (rule sharding_map_balanced [OF h(1,2) i h(3-6)])
  moreover have "MAX_MAP_SIZE div length [1, 2, 3 :: u8] = 21845" "MAX_MAP_SIZE mod length [1, 2, 3 :: u8] = 0"
    by (simp_all add: MAX_MAP_SIZE_def)
  ultimately show ?thesis by (simp only: Let_def) simp
qed

end
