(* ===== verification/Scd_Dispatch.thy ===== *)
theory Scd_Dispatch
  imports Sharding
begin

text \<open>
  Splitting SCD files over the shards (core/node-manager/sharding/ScdDispatcher.h and
  ScdDispatcher.cpp): \<open>ScdDispatcher::dispatch\<close> with the operations of \<open>BatchScdDispatcher\<close>. Every
  document goes to the output stream of its shard; the streams are reopened for each input file.
\<close>

section \<open>State\<close>

text \<open>An entry of the table of streams: a null pointer, a closed stream or a stream open on a file.\<close>

datatype out_stream = NullStream | ClosedStream | OpenStream string

record batch_dispatcher =
  bd_scdDir :: string
  bd_to_scdDir :: string
  curScdFileName :: string
  is_dfs_enabled :: bool
  shardScdfileMap :: "shardid \<rightharpoonup> string"
  ofList :: "(shardid \<times> out_stream) list"

text \<open>
  What comes from outside: joining of paths and the file name of a path, whether a file can be
  created, the SCD parser, the sharder, the receivers of the shards and the transfer of a directory.
\<close>

record dispatch_env =
  de_join :: "string \<Rightarrow> string \<Rightarrow> string"
  de_filename :: "string \<Rightarrow> string"
  de_can_open :: "string \<Rightarrow> bool"
  de_checkSCDFormat :: "string \<Rightarrow> bool"
  de_load :: "string \<Rightarrow> scd_doc list option"
  de_shardids :: "shardid list"
  de_sharding :: "scd_doc \<Rightarrow> shardid option"
  de_receiver :: "shardid \<Rightarrow> (string \<times> nat) option"
  de_syncSend :: "string \<times> nat \<Rightarrow> string \<Rightarrow> string \<Rightarrow> bool"

definition DISPATCH_TEMP_DIR :: string where
  "DISPATCH_TEMP_DIR = ''dispatch-temp-dir/''"

section \<open>Operations\<close>

text \<open>
  \<open>getScdFileList\<close>: \<open>None\<close> for a missing path, \<open>Some None\<close> for a path that is no directory, otherwise
  the paths of the entries.
\<close>

definition getScdFileList ::
  "dispatch_env \<Rightarrow> string list option option \<Rightarrow> bool \<times> string list" where
  "getScdFileList env dir =
     (case dir of
        None \<Rightarrow> (False, [])
      | Some None \<Rightarrow> (False, [])
      | Some (Some entries) \<Rightarrow>
          (let fileList = filter (\<lambda>p. de_checkSCDFormat env (de_filename env p)) entries
           in (fileList \<noteq> [], fileList)))"

text \<open>A \<open>std::map\<close> as a list sorted by key.\<close>

fun ol_put :: "shardid \<Rightarrow> 'v \<Rightarrow> (shardid \<times> 'v) list \<Rightarrow> (shardid \<times> 'v) list" where
  "ol_put k v [] = [(k, v)]"
| "ol_put k v ((k', v') # xs) =
     (if k < k' then (k, v) # (k', v') # xs
      else if k = k' then (k, v) # xs
      else (k', v') # ol_put k v xs)"

text \<open>
  A shard id is an \<open>uint8_t\<close>, which a stream prints as a character: the directory of shard 1 is named
  by the character with code 1.
\<close>

definition shard_dir :: "string \<Rightarrow> shardid \<Rightarrow> string" where
  "shard_dir tempDir s = tempDir @ [char_of (unat s)]"

fun add_shards :: "string \<Rightarrow> shardid list \<Rightarrow> batch_dispatcher \<Rightarrow> batch_dispatcher" where
  "add_shards tempDir [] st = st"
| "add_shards tempDir (s # ss) st =
     add_shards tempDir ss (st\<lparr>
       shardScdfileMap := (case shardScdfileMap st s of
          None \<Rightarrow> (shardScdfileMap st)(s \<mapsto> shard_dir tempDir s)
        | Some _ \<Rightarrow> shardScdfileMap st),
       ofList := ol_put s ClosedStream (ofList st)\<rparr>)"

fun is_prefix :: "'a list \<Rightarrow> 'a list \<Rightarrow> bool" where
  "is_prefix [] ys = True"
| "is_prefix (x # xs) (y # ys) \<longleftrightarrow> x = y \<and> is_prefix xs ys"
| "is_prefix (x # xs) [] = False"

definition initTempDir ::
  "dispatch_env \<Rightarrow> string \<Rightarrow> batch_dispatcher \<Rightarrow> text_files \<Rightarrow> bool \<times> batch_dispatcher \<times> text_files" where
  "initTempDir env tempDir st fs =
     (let fs' = (\<lambda>p. if is_prefix tempDir p then None else fs p)
      in (True, add_shards tempDir (de_shardids env) st, fs'))"

definition bd_initialize ::
  "dispatch_env \<Rightarrow> batch_dispatcher \<Rightarrow> text_files \<Rightarrow> bool \<times> batch_dispatcher \<times> text_files" where
  "bd_initialize env st fs = initTempDir env (de_join env (bd_scdDir st) DISPATCH_TEMP_DIR) st fs"

definition shard_file :: "batch_dispatcher \<Rightarrow> shardid \<Rightarrow> string" where
  "shard_file st s =
     (case shardScdfileMap st s of None \<Rightarrow> [] | Some p \<Rightarrow> p) @ ''/'' @ curScdFileName st"

text \<open>The loop of \<open>switchFile\<close> stops at the first file that cannot be created.\<close>

fun switch_streams ::
  "dispatch_env \<Rightarrow> (shardid \<Rightarrow> string) \<Rightarrow> (shardid \<times> out_stream) list \<Rightarrow> text_files \<Rightarrow>
   bool \<times> (shardid \<times> out_stream) list \<times> text_files" where
  "switch_streams env path [] fs = (True, [], fs)"
| "switch_streams env path ((s, rof) # xs) fs =
     (if rof = NullStream
      then (let (ok, xs', fs') = switch_streams env path xs fs in (ok, (s, rof) # xs', fs'))
      else if \<not> de_can_open env (path s) then (False, (s, ClosedStream) # xs, fs)
      else (let (ok, xs', fs') = switch_streams env path xs (fs(path s \<mapsto> []))
            in (ok, (s, OpenStream (path s)) # xs', fs')))"

definition switchFile ::
  "dispatch_env \<Rightarrow> batch_dispatcher \<Rightarrow> text_files \<Rightarrow> bool \<times> batch_dispatcher \<times> text_files" where
  "switchFile env st fs =
     (let (ok, xs, fs') = switch_streams env (shard_file st) (ofList st) fs in (ok, st\<lparr>ofList := xs\<rparr>, fs'))"

definition scd_text :: "scd_doc \<Rightarrow> string" where
  "scd_text doc = concat (map (\<lambda>(name, val). ''<'' @ name @ ''>'' @ val @ [CHR 0x0A]) doc)"

text \<open>
  \<open>dispatch_impl\<close>: the table is indexed with the shard id, which enters a null pointer for an id that is
  not there; writing through it is undefined (\<open>None\<close>). A stream that is not open ignores the output.
\<close>

definition dispatch_impl ::
  "shardid \<Rightarrow> scd_doc \<Rightarrow> batch_dispatcher \<Rightarrow> text_files \<Rightarrow> (batch_dispatcher \<times> text_files) option" where
  "dispatch_impl s doc st fs =
     (case map_of (ofList st) s of
        None \<Rightarrow> None
      | Some NullStream \<Rightarrow> None
      | Some ClosedStream \<Rightarrow> Some (st, fs)
      | Some (OpenStream p) \<Rightarrow>
          Some (st, fs(p \<mapsto> (case fs p of None \<Rightarrow> [] | Some t \<Rightarrow> t) @ scd_text doc)))"

text \<open>The loop over the documents of a file.\<close>

fun dispatch_docs ::
  "dispatch_env \<Rightarrow> u32 \<Rightarrow> scd_doc list \<Rightarrow> u32 \<Rightarrow> batch_dispatcher \<Rightarrow> text_files \<Rightarrow>
   (u32 \<times> batch_dispatcher \<times> text_files) option" where
  "dispatch_docs env docNum [] processed st fs = Some (processed, st, fs)"
| "dispatch_docs env docNum (doc # docs) processed st fs =
     Option.bind (de_sharding env doc) (\<lambda>shardId.
     Option.bind (dispatch_impl shardId doc st fs) (\<lambda>(st', fs').
       let processed' = processed + 1 in
       if processed' \<ge> docNum \<and> docNum > 0 then Some (processed', st', fs')
       else dispatch_docs env docNum docs processed' st' fs'))"

text \<open>The loop over the files; the result of \<open>switchFile\<close> is not looked at.\<close>

fun dispatch_files ::
  "dispatch_env \<Rightarrow> u32 \<Rightarrow> string list \<Rightarrow> u32 \<Rightarrow> batch_dispatcher \<Rightarrow> text_files \<Rightarrow>
   (bool \<times> batch_dispatcher \<times> text_files) option" where
  "dispatch_files env docNum [] processed st fs = Some (True, st, fs)"
| "dispatch_files env docNum (path # paths) processed st0 fs0 =
     (let st1 = st0\<lparr>curScdFileName := de_filename env path\<rparr>;
          (_, st, fs) = switchFile env st1 fs0 in
      case de_load env path of
        None \<Rightarrow> Some (False, st, fs)
      | Some docs \<Rightarrow>
          Option.bind (dispatch_docs env docNum docs processed st fs) (\<lambda>(processed', st', fs').
            if processed' \<ge> docNum \<and> docNum > 0 then Some (True, st', fs')
            else dispatch_files env docNum paths processed' st' fs'))"

text \<open>\<open>finish\<close> sends the directory of each shard until the first failure; the transfers tried are returned.\<close>

fun send_shards ::
  "dispatch_env \<Rightarrow> batch_dispatcher \<Rightarrow> shardid list \<Rightarrow> bool \<times> (shardid \<times> string) list" where
  "send_shards env st [] = (True, [])"
| "send_shards env st (s # ss) =
     (case de_receiver env s of
        None \<Rightarrow> (False, [])
      | Some addr \<Rightarrow>
          (let dir = (case shardScdfileMap st s of None \<Rightarrow> [] | Some p \<Rightarrow> p) in
           if \<not> de_syncSend env addr dir (bd_to_scdDir st) then (False, [(s, dir)])
           else let (ok, sent) = send_shards env st ss in (ok, (s, dir) # sent)))"

definition bd_finish :: "dispatch_env \<Rightarrow> batch_dispatcher \<Rightarrow> bool \<times> (shardid \<times> string) list" where
  "bd_finish env st = (if is_dfs_enabled st then (True, []) else send_shards env st (de_shardids env))"

definition scd_dispatch ::
  "dispatch_env \<Rightarrow> string list option option \<Rightarrow> string \<Rightarrow> string \<Rightarrow> u32 \<Rightarrow> batch_dispatcher \<Rightarrow> text_files \<Rightarrow>
   (bool \<times> batch_dispatcher \<times> text_files) option" where
  "scd_dispatch env entries dir to_dir docNum st0 fs0 =
     (let (ok, scdFileList) = getScdFileList env entries in
      if \<not> ok then Some (False, st0, fs0)
      else
        let (ok1, st1, fs1) = bd_initialize env (st0\<lparr>bd_scdDir := dir, bd_to_scdDir := to_dir\<rparr>) fs0 in
        if \<not> ok1 then Some (False, st1, fs1)
        else Option.bind (dispatch_files env docNum scdFileList 0 st1 fs1) (\<lambda>(loaded, st, fs).
          if \<not> loaded then Some (False, st, fs) else Some (fst (bd_finish env st), st, fs)))"

section \<open>The streams\<close>

text \<open>The dispatcher has one stream for each shard and knows its directory.\<close>

definition disp_ok :: "(shardid \<Rightarrow> string) \<Rightarrow> shardid set \<Rightarrow> batch_dispatcher \<Rightarrow> bool" where
  "disp_ok dir ids st \<longleftrightarrow> (\<forall>s\<in>ids. shardScdfileMap st s = Some (dir s)) \<and>
     fst ` set (ofList st) = ids \<and> NullStream \<notin> snd ` set (ofList st)"

lemma ol_put_keys: "fst ` set (ol_put k v xs) = insert k (fst ` set xs)"
  by (induction k v xs rule: ol_put.induct) auto

lemma ol_put_vals: "snd ` set (ol_put k v xs) \<subseteq> insert v (snd ` set xs)"
  by (induction k v xs rule: ol_put.induct) auto

lemma add_shards_ok:
  assumes "disp_ok (shard_dir tempDir) A st" "\<forall>s. s \<notin> A \<longrightarrow> shardScdfileMap st s = None"
  shows "disp_ok (shard_dir tempDir) (A \<union> set ss) (add_shards tempDir ss st)"
  using assms
proof (induction ss arbitrary: A st)
  case (Cons s ss)
  let ?st = "st\<lparr>shardScdfileMap := (case shardScdfileMap st s of
          None \<Rightarrow> (shardScdfileMap st)(s \<mapsto> shard_dir tempDir s) | Some _ \<Rightarrow> shardScdfileMap st),
       ofList := ol_put s ClosedStream (ofList st)\<rparr>"
  have "NullStream \<notin> snd ` set (ol_put s ClosedStream (ofList st))"
    using ol_put_vals [of s ClosedStream "ofList st"] Cons.prems(1) by (auto simp: disp_ok_def)
  then have "disp_ok (shard_dir tempDir) (insert s A) ?st"
    using Cons.prems by (cases "s \<in> A") (auto simp: disp_ok_def ol_put_keys)
  moreover have "\<forall>x. x \<notin> insert s A \<longrightarrow> shardScdfileMap ?st x = None"
    using Cons.prems(2) by (auto split: option.split)
  ultimately show ?case using Cons.IH [of "insert s A" ?st] by simp
qed simp

lemma map_of_key_map:
  "map_of (map (\<lambda>(k, v). (k, g k v)) xs) k = map_option (g k) (map_of xs k)"
  by (induction xs) auto

lemma switch_streams_all:
  assumes "\<forall>p. de_can_open env p" "NullStream \<notin> snd ` set xs"
  shows "switch_streams env path xs fs =
    (True, map (\<lambda>(s, _). (s, OpenStream (path s))) xs,
     (\<lambda>p. if p \<in> path ` fst ` set xs then Some [] else fs p))"
  using assms(2)
proof (induction xs arbitrary: fs)
  case (Cons x xs)
  obtain s r where x: "x = (s, r)" by fastforce
  then show ?case using Cons assms(1) by (auto simp: Let_def fun_eq_iff)
qed simp

lemma switchFile_ok:
  assumes "\<forall>p. de_can_open env p" "disp_ok dir ids st"
  obtains st' fs' where "switchFile env st fs = (True, st', fs')" "disp_ok dir ids st'"
    "\<And>s. s \<in> ids \<Longrightarrow> map_of (ofList st') s = Some (OpenStream (dir s @ ''/'' @ curScdFileName st))"
    "\<And>p. fs' p = (if \<exists>s\<in>ids. p = dir s @ ''/'' @ curScdFileName st then Some [] else fs p)"
proof -
  let ?xs = "map (\<lambda>(s, _). (s, OpenStream (shard_file st s))) (ofList st)"
  let ?fs = "\<lambda>p. if p \<in> shard_file st ` fst ` set (ofList st) then Some [] else fs p"
  have f: "shard_file st s = dir s @ ''/'' @ curScdFileName st" if "s \<in> ids" for s
    using assms(2) that by (simp add: disp_ok_def shard_file_def)
  have k: "fst ` set (ofList st) = ids" and n: "NullStream \<notin> snd ` set (ofList st)"
    using assms(2) by (auto simp: disp_ok_def)
  have sw: "switchFile env st fs = (True, st\<lparr>ofList := ?xs\<rparr>, ?fs)"
    using switch_streams_all [OF assms(1) n] by (simp add: switchFile_def)
  show thesis
  proof (rule that [OF sw])
    have "fst ` set ?xs = ids" using k by force
    then show "disp_ok dir ids (st\<lparr>ofList := ?xs\<rparr>)" using assms(2) by (auto simp: disp_ok_def)
    show "map_of (ofList (st\<lparr>ofList := ?xs\<rparr>)) s = Some (OpenStream (dir s @ ''/'' @ curScdFileName st))"
      if s: "s \<in> ids" for s
    proof -
      have "map_of (ofList st) s \<noteq> None" using s k by (simp add: map_of_eq_None_iff)
      then show ?thesis using map_of_key_map [of "\<lambda>s _. OpenStream (shard_file st s)" "ofList st" s] f [OF s]
        by auto
    qed
    show "?fs p = (if \<exists>s\<in>ids. p = dir s @ ''/'' @ curScdFileName st then Some [] else fs p)" for p
      using k f by (auto simp: image_iff)
  qed
qed

section \<open>The documents\<close>

text \<open>The text of the documents of a list that belong to a shard, in their order.\<close>

definition shard_text :: "dispatch_env \<Rightarrow> shardid \<Rightarrow> scd_doc list \<Rightarrow> string" where
  "shard_text env s docs = concat (map scd_text (filter (\<lambda>d. de_sharding env d = Some s) docs))"

lemma dispatch_docs_ok:
  assumes "\<forall>d\<in>set docs. \<exists>s\<in>ids. de_sharding env d = Some s"
    and "\<And>s. s \<in> ids \<Longrightarrow> map_of (ofList st) s = Some (OpenStream (path s))" "inj_on path ids"
    and "\<And>s. s \<in> ids \<Longrightarrow> fs (path s) = Some (tx s)"
  shows "\<exists>fs'. dispatch_docs env 0 docs n st fs = Some (n + of_nat (length docs), st, fs') \<and>
    (\<forall>s\<in>ids. fs' (path s) = Some (tx s @ shard_text env s docs)) \<and>
    (\<forall>p. p \<notin> path ` ids \<longrightarrow> fs' p = fs p)"
  using assms(1,4)
proof (induction docs arbitrary: n fs tx)
  case Nil
  then show ?case by (auto simp: shard_text_def)
next
  case (Cons d docs)
  obtain s where s: "s \<in> ids" "de_sharding env d = Some s" using Cons.prems(1) by auto
  let ?fs = "fs(path s \<mapsto> tx s @ scd_text d)"
  let ?tx = "\<lambda>r. if r = s then tx s @ scd_text d else tx r"
  have upd: "?fs (path r) = Some (?tx r)" if "r \<in> ids" for r
    using Cons.prems(2) [OF that] assms(3) s(1) that by (auto dest: inj_onD)
  have sh: "\<forall>d\<in>set docs. \<exists>s\<in>ids. de_sharding env d = Some s" using Cons.prems(1) by simp
  obtain fs' where IH: "dispatch_docs env 0 docs (n + 1) st ?fs = Some (n + 1 + of_nat (length docs), st, fs')"
    "\<forall>s\<in>ids. fs' (path s) = Some (?tx s @ shard_text env s docs)" "\<forall>p. p \<notin> path ` ids \<longrightarrow> fs' p = ?fs p"
    using Cons.IH [where fs = ?fs and tx = ?tx and n = "n + 1", OF sh upd] by blast
  have "dispatch_impl s d st fs = Some (st, ?fs)"
    using assms(2) [OF s(1)] Cons.prems(2) [OF s(1)] by (simp add: dispatch_impl_def)
  then have "dispatch_docs env 0 (d # docs) n st fs = Some (n + of_nat (length (d # docs)), st, fs')"
    using IH(1) s(2) by (simp add: Let_def add.assoc)
  moreover have "fs' (path r) = Some (tx r @ shard_text env r (d # docs))" if "r \<in> ids" for r
    using IH(2) that s(2) by (auto simp: shard_text_def)
  moreover have "fs' p = fs p" if "p \<notin> path ` ids" for p
    using IH(3) that s(1) by auto
  ultimately show ?case by blast
qed

lemma shard_path_eq:
  "shard_dir t r @ ''/'' @ n = shard_dir t s @ ''/'' @ m \<longleftrightarrow> r = s \<and> n = m"
proof -
  have "unat r < 256" "unat s < 256" using unsigned_less [of r] unsigned_less [of s] by simp_all
  then have "char_of (unat r) = (char_of (unat s) :: char) \<longleftrightarrow> unat r = unat s"
    by (metis of_char_of mod_less)
  then show ?thesis by (simp add: shard_dir_def word_unat_eq_iff)
qed

text \<open>The output files after the loop over the input files.\<close>

lemma dispatch_files_ok:
  assumes "\<forall>p. de_can_open env p" "disp_ok (shard_dir t) ids st"
    and "distinct (map (de_filename env) paths)"
    and "\<forall>p\<in>set paths. \<exists>docs. de_load env p = Some docs \<and>
           (\<forall>d\<in>set docs. \<exists>s\<in>ids. de_sharding env d = Some s)"
  shows "\<exists>st' fs'. dispatch_files env 0 paths n st fs = Some (True, st', fs') \<and> disp_ok (shard_dir t) ids st' \<and>
    (\<forall>p\<in>set paths. \<forall>s\<in>ids. fs' (shard_dir t s @ ''/'' @ de_filename env p) =
       Some (shard_text env s (the (de_load env p)))) \<and>
    (\<forall>q. (\<forall>p\<in>set paths. \<forall>s\<in>ids. q \<noteq> shard_dir t s @ ''/'' @ de_filename env p) \<longrightarrow> fs' q = fs q)"
  using assms(2-)
proof (induction paths arbitrary: n st fs)
  case Nil
  then show ?case by auto
next
  case (Cons p ps)
  let ?st = "st\<lparr>curScdFileName := de_filename env p\<rparr>"
  let ?path = "\<lambda>s. shard_dir t s @ ''/'' @ de_filename env p"
  have ok: "disp_ok (shard_dir t) ids ?st" using Cons.prems(1) by (simp add: disp_ok_def)
  obtain st1 fs1 where S: "switchFile env ?st fs = (True, st1, fs1)" "disp_ok (shard_dir t) ids st1"
    "\<And>s. s \<in> ids \<Longrightarrow> map_of (ofList st1) s = Some (OpenStream (?path s))"
    "\<And>q. fs1 q = (if \<exists>s\<in>ids. q = ?path s then Some [] else fs q)"
    using switchFile_ok [OF assms(1) ok, of fs] by auto
  obtain docs where D: "de_load env p = Some docs" "\<forall>d\<in>set docs. \<exists>s\<in>ids. de_sharding env d = Some s"
    using Cons.prems(3) by auto
  have inj: "inj_on ?path ids" unfolding inj_on_def using shard_path_eq by blast
  have empty: "fs1 (?path s) = Some []" if "s \<in> ids" for s using S(4) that by auto
  obtain fs2 where E: "dispatch_docs env 0 docs n st1 fs1 = Some (n + of_nat (length docs), st1, fs2)"
    "\<forall>s\<in>ids. fs2 (?path s) = Some ([] @ shard_text env s docs)" "\<forall>q. q \<notin> ?path ` ids \<longrightarrow> fs2 q = fs1 q"
    using dispatch_docs_ok [where path = ?path and fs = fs1 and tx = "\<lambda>_. []" and n = n, OF D(2) S(3) inj empty]
    by auto
  obtain st' fs' where R: "dispatch_files env 0 ps (n + of_nat (length docs)) st1 fs2 = Some (True, st', fs')"
    "disp_ok (shard_dir t) ids st'"
    "\<forall>p\<in>set ps. \<forall>s\<in>ids. fs' (shard_dir t s @ ''/'' @ de_filename env p) =
       Some (shard_text env s (the (de_load env p)))"
    "\<forall>q. (\<forall>p\<in>set ps. \<forall>s\<in>ids. q \<noteq> shard_dir t s @ ''/'' @ de_filename env p) \<longrightarrow> fs' q = fs2 q"
    using Cons.IH [OF S(2), of "n + of_nat (length docs)" fs2] Cons.prems(2,3) by auto
  have run: "dispatch_files env 0 (p # ps) n st fs = Some (True, st', fs')"
    using S(1) D(1) E(1) R(1) by simp
  have here: "fs' (?path s) = Some (shard_text env s docs)" if s: "s \<in> ids" for s
  proof -
    have "\<forall>p'\<in>set ps. de_filename env p' \<noteq> de_filename env p" using Cons.prems(2)
      by (simp add: image_iff) metis
    then have "\<forall>p'\<in>set ps. \<forall>r\<in>ids. ?path s \<noteq> shard_dir t r @ ''/'' @ de_filename env p'"
      using shard_path_eq by metis
    then have "fs' (?path s) = fs2 (?path s)" using R(4) by blast
    then show ?thesis using E(2) s by simp
  qed
  have frame: "fs' q = fs q"
    if q: "\<forall>p'\<in>set (p # ps). \<forall>s\<in>ids. q \<noteq> shard_dir t s @ ''/'' @ de_filename env p'" for q
  proof -
    have "fs' q = fs2 q" using R(4) q by simp
    also have "\<dots> = fs1 q" using E(3) q by auto
    also have "\<dots> = fs q" using S(4) q by auto
    finally show ?thesis .
  qed
  show ?case using run R(2,3) here frame D(1) by (intro exI [of _ st'] exI [of _ fs']) simp
qed

section \<open>Properties\<close>

definition bd_new :: "bool \<Rightarrow> batch_dispatcher" where
  "bd_new dfs = \<lparr>bd_scdDir = [], bd_to_scdDir = [], curScdFileName = [], is_dfs_enabled = dfs,
     shardScdfileMap = Map.empty, ofList = []\<rparr>"

text \<open>C22: splitting. A new dispatcher for shards \<open>ids\<close>, on input files with different names that load and
whose documents all have a configured shard, terminates without touching a null stream, and the file
of each shard for each input file holds exactly the documents of that input that belong to the shard,
in their order.\<close>

theorem scd_dispatch_splits:
  assumes "\<forall>p. de_can_open env p" "filter (\<lambda>p. de_checkSCDFormat env (de_filename env p)) entries = paths"
    and "paths \<noteq> []" "distinct (map (de_filename env) paths)"
    and "\<forall>p\<in>set paths. \<exists>docs. de_load env p = Some docs \<and>
           (\<forall>d\<in>set docs. \<exists>s\<in>set (de_shardids env). de_sharding env d = Some s)"
  shows "\<exists>ok st fs'. scd_dispatch env (Some (Some entries)) dir to_dir 0 (bd_new dfs) fs = Some (ok, st, fs') \<and>
    (\<forall>p\<in>set paths. \<forall>s\<in>set (de_shardids env).
       fs' (shard_dir (de_join env dir DISPATCH_TEMP_DIR) s @ ''/'' @ de_filename env p) =
       Some (shard_text env s (the (de_load env p))))"
proof -
  let ?t = "de_join env dir DISPATCH_TEMP_DIR" and ?ids = "de_shardids env"
  let ?st0 = "(bd_new dfs)\<lparr>bd_scdDir := dir, bd_to_scdDir := to_dir\<rparr>"
  let ?st1 = "add_shards ?t ?ids ?st0" and ?fs1 = "\<lambda>p. if is_prefix ?t p then None else fs p"
  have init: "bd_initialize env ?st0 fs = (True, ?st1, ?fs1)"
    by (simp add: bd_initialize_def initTempDir_def)
  have ok: "disp_ok (shard_dir ?t) (set ?ids) ?st1"
    using add_shards_ok [of ?t "{}" ?st0 ?ids] by (simp add: disp_ok_def bd_new_def)
  obtain st fs' where R: "dispatch_files env 0 paths 0 ?st1 ?fs1 = Some (True, st, fs')"
    "\<forall>p\<in>set paths. \<forall>s\<in>set ?ids. fs' (shard_dir ?t s @ ''/'' @ de_filename env p) =
       Some (shard_text env s (the (de_load env p)))"
    using dispatch_files_ok [OF assms(1) ok assms(4,5), of 0 ?fs1] by blast
  have "scd_dispatch env (Some (Some entries)) dir to_dir 0 (bd_new dfs) fs =
      Some (fst (bd_finish env st), st, fs')"
    using assms(2,3) init R(1) by (simp add: scd_dispatch_def getScdFileList_def Let_def)
  then show ?thesis using R(2) by blast
qed

text \<open>a document without a shard. If the sharder gives a document an id that has no stream (such as 0,
its answer for a document without the key), dispatching the document writes through a null pointer:
the run has no defined result.\<close>

theorem scd_dispatch_unknown_shard:
  assumes "de_sharding env d = Some s" "s \<notin> fst ` set (ofList st)"
  shows "dispatch_docs env docNum (d # docs) n st fs = None"
proof -
  have "map_of (ofList st) s = None" using assms(2) by (simp add: map_of_eq_None_iff)
  then show ?thesis using assms(1) by (simp add: dispatch_impl_def)
qed

text \<open>An environment with one shard and one file of one document.\<close>

definition one_doc :: scd_doc where "one_doc = [(''DOCID'', ''7'')]"

definition one_file_env :: "shardid \<Rightarrow> dispatch_env" where
  "one_file_env s = \<lparr>de_join = (\<lambda>a b. a @ ''/'' @ b), de_filename = (\<lambda>p. p), de_can_open = (\<lambda>_. True),
     de_checkSCDFormat = (\<lambda>_. True), de_load = (\<lambda>_. Some [one_doc]), de_shardids = [1],
     de_sharding = (\<lambda>_. Some s), de_receiver = (\<lambda>_. None), de_syncSend = (\<lambda>_ _ _. False)\<rparr>"

theorem scd_dispatch_splits_witness:
  "\<exists>ok st fs'. scd_dispatch (one_file_env 1) (Some (Some [''a''])) ''d'' ''t'' 0 (bd_new False) Map.empty =
     Some (ok, st, fs') \<and>
   fs' (shard_dir (de_join (one_file_env 1) ''d'' DISPATCH_TEMP_DIR) 1 @ ''/'' @ ''a'') = Some (scd_text one_doc)"
proof -
  have h: "\<forall>p. de_can_open (one_file_env 1) p"
    "filter (\<lambda>p. de_checkSCDFormat (one_file_env 1) (de_filename (one_file_env 1) p)) [''a''] = [''a'']"
    "[''a''] \<noteq> []" "distinct (map (de_filename (one_file_env 1)) [''a''])"
    "\<forall>p\<in>set [''a'']. \<exists>docs. de_load (one_file_env 1) p = Some docs \<and>
       (\<forall>d\<in>set docs. \<exists>s\<in>set (de_shardids (one_file_env 1)). de_sharding (one_file_env 1) d = Some s)"
    by (simp_all add: one_file_env_def)
  have "shard_text (one_file_env 1) 1 [one_doc] = scd_text one_doc"
    by (simp add: shard_text_def one_file_env_def)
  moreover have e: "de_load (one_file_env 1) ''a'' = Some [one_doc]" "set (de_shardids (one_file_env 1)) = {1}"
    "de_filename (one_file_env 1) ''a'' = ''a''" by (simp_all add: one_file_env_def)
  ultimately show ?thesis
    using scd_dispatch_splits [OF h, of "''d''" "''t''" False Map.empty] e by simp
qed

theorem scd_dispatch_unknown_shard_witness:
  "dispatch_docs (one_file_env 0) 0 [one_doc] 0 (add_shards ''t'' [1] (bd_new False)) Map.empty = None"
  by (rule scd_dispatch_unknown_shard [of _ _ 0]) (simp_all add: one_file_env_def bd_new_def)

end
