(* ===== verification/Prop_Id_Table.thy ===== *)
theory Prop_Id_Table
  imports Prelude
begin

text \<open>
  The table that stores the property value ids of every document,
  \<^verbatim>\<open>PropIdTable<valueid_t, index_t>\<close> (core/mining-manager/group-manager/PropIdTable.h),
  at the instance \<open>valueid_t = index_t = uint32_t\<close> that its clients
  \<^verbatim>\<open>PropValueTable\<close> and \<^verbatim>\<open>AttrTable\<close> use. The most significant
  bit of an index entry says whether the entry is the single value id itself or the offset of
  a counted block in \<open>multiValueTable_\<close>. The locale \<open>doc_id_table\<close> is the contract that the
  clients rely on; the end of the theory discharges it for this table.
\<close>

section \<open>Data\<close>

record prop_id_table =
  indexTable :: "u32 list"
  multiValueTable :: "u32 list"

text \<open>
  \<^verbatim>\<open>PropIdList\<close>; its iterator is the position of the first value id in
  \<open>multiValueTable_\<close>.
\<close>

record prop_id_list =
  il_size :: u32
  singleValueId :: u32
  multiValueIter :: nat

definition INDEX_MSB :: u32 where
  "INDEX_MSB = push_bit 31 1"

definition INDEX_MASK :: u32 where
  "INDEX_MASK = NOT INDEX_MSB"

definition prop_id_list_init :: prop_id_list where
  "prop_id_list_init = \<lparr>il_size = 0, singleValueId = 0, multiValueIter = 0\<rparr>"

definition prop_id_list_clear :: "prop_id_list \<Rightarrow> prop_id_list" where
  "prop_id_list_clear l = l\<lparr>il_size := 0, singleValueId := 0\<rparr>"

text \<open>\<open>operator[]\<close>; \<open>None\<close> where the C++ dereferences an iterator past the end.\<close>

definition prop_id_list_at :: "prop_id_table \<Rightarrow> prop_id_list \<Rightarrow> nat \<Rightarrow> u32 option" where
  "prop_id_list_at t l i =
     (if unat (il_size l) \<le> i then Some 0
      else if il_size l = 1 then Some (singleValueId l)
      else vec_at (multiValueTable t) (multiValueIter l + i))"

section \<open>Operations\<close>

definition pid_init :: prop_id_table where
  "pid_init = \<lparr>indexTable = [0], multiValueTable = []\<rparr>"

definition pid_clear :: "prop_id_table \<Rightarrow> prop_id_table" where
  "pid_clear t = t\<lparr>indexTable := vec_resize 1 0 (indexTable t), multiValueTable := []\<rparr>"

definition pid_size :: "prop_id_table \<Rightarrow> nat" where
  "pid_size t = length (indexTable t)"

definition pid_resize :: "nat \<Rightarrow> prop_id_table \<Rightarrow> prop_id_table" where
  "pid_resize num t = t\<lparr>indexTable := vec_resize num 0 (indexTable t)\<rparr>"

definition pid_getIdList ::
  "prop_id_table \<Rightarrow> docid \<Rightarrow> prop_id_list \<Rightarrow> prop_id_list option" where
  "pid_getIdList t docId l0 =
     (let l = prop_id_list_clear l0 in
      if length (indexTable t) \<le> unat docId then Some l
      else let index = indexTable t ! unat docId in
        if index AND INDEX_MSB \<noteq> 0
        then (let p = unat (index AND INDEX_MASK) in
              case vec_at (multiValueTable t) p of
                None \<Rightarrow> None
              | Some n \<Rightarrow> Some (l\<lparr>il_size := n, multiValueIter := Suc p\<rparr>))
        else if index \<noteq> 0 then Some (l\<lparr>il_size := 1, singleValueId := index\<rparr>)
        else Some l)"

definition pid_getIdCount :: "prop_id_table \<Rightarrow> docid \<Rightarrow> nat option" where
  "pid_getIdCount t docId =
     (if length (indexTable t) \<le> unat docId then Some 0
      else let index = indexTable t ! unat docId in
        if index AND INDEX_MSB \<noteq> 0
        then map_option unat (vec_at (multiValueTable t) (unat (index AND INDEX_MASK)))
        else Some (if index \<noteq> 0 then 1 else 0))"

text \<open>
  \<open>setIdList\<close>: the index table is grown first, so a throwing call may leave it grown.
\<close>

definition pid_setIdList ::
  "docid \<Rightarrow> u32 list \<Rightarrow> prop_id_table \<Rightarrow> unit result \<times> prop_id_table" where
  "pid_setIdList docId ids t0 =
     (let d = unat docId;
          t = (if length (indexTable t0) \<le> d
               then t0\<lparr>indexTable := vec_resize (d + 1) 0 (indexTable t0)\<rparr> else t0)
      in case ids of
           [] \<Rightarrow> (Inr (), t\<lparr>indexTable := (indexTable t)[d := 0]\<rparr>)
         | [inputId] \<Rightarrow>
             if INDEX_MSB \<le> inputId
             then (Inl (MiningException ''property value id is out of range''), t)
             else (Inr (), t\<lparr>indexTable := (indexTable t)[d := inputId]\<rparr>)
         | _ \<Rightarrow>
             (let valueTableSize = length (multiValueTable t) in
              if unat INDEX_MSB \<le> valueTableSize
              then (Inl (MiningException ''property value count is out of range''), t)
              else (Inr (), t\<lparr>indexTable := (indexTable t)[d := INDEX_MSB OR of_nat valueTableSize],
                              multiValueTable := multiValueTable t @ of_nat (length ids) # ids\<rparr>)))"

text \<open>
  The ids a client sees when it walks a document's list from \<open>0\<close> to \<open>size() - 1\<close>,
  as every caller in the sources does; \<open>None\<close> when one of the reads is out of range.
\<close>

fun read_ids :: "prop_id_table \<Rightarrow> prop_id_list \<Rightarrow> nat list \<Rightarrow> u32 list option" where
  "read_ids t l [] = Some []"
| "read_ids t l (i # is) =
     (case prop_id_list_at t l i of
        None \<Rightarrow> None
      | Some v \<Rightarrow> map_option ((#) v) (read_ids t l is))"

definition pid_ids :: "prop_id_table \<Rightarrow> docid \<Rightarrow> u32 list option" where
  "pid_ids t docId =
     (case pid_getIdList t docId prop_id_list_init of
        None \<Rightarrow> None
      | Some l \<Rightarrow> read_ids t l [0..<unat (il_size l)])"

section \<open>The contract of a document id table\<close>

text \<open>A sequence of stores, one per document, stopped by the first exception.\<close>

fun store_all ::
  "(docid \<Rightarrow> u32 list \<Rightarrow> 't \<Rightarrow> unit result \<times> 't) \<Rightarrow> (docid \<times> u32 list) list \<Rightarrow> 't \<Rightarrow>
   unit result \<times> 't" where
  "store_all set_ids [] t = (Inr (), t)"
| "store_all set_ids ((d, vs) # rest) t =
     (case set_ids d vs t of
        (Inl e, t') \<Rightarrow> (Inl e, t')
      | (Inr _, t') \<Rightarrow> store_all set_ids rest t')"

text \<open>
  What the property and attribute tables rely on: a successful store is read back, and stores
  leave the other documents alone. \<open>fits\<close> is the provider's condition on the length of an id
  list, \<open>readable\<close> its condition for reading the list back.
\<close>

locale doc_id_table =
  fixes ids :: "'t \<Rightarrow> docid \<Rightarrow> u32 list option"
    and set_ids :: "docid \<Rightarrow> u32 list \<Rightarrow> 't \<Rightarrow> unit result \<times> 't"
    and fits :: "u32 list \<Rightarrow> bool"
    and readable :: "u32 list \<Rightarrow> bool"
    and invar :: "'t \<Rightarrow> bool"
  assumes invar_set: "invar t \<Longrightarrow> fits vs \<Longrightarrow> invar (snd (set_ids d vs t))"
    and ids_total: "invar t \<Longrightarrow> \<exists>vs. ids t d = Some vs"
    and set_same: "invar t \<Longrightarrow> fits vs \<Longrightarrow> readable vs \<Longrightarrow>
      fst (set_ids d vs t) = Inr () \<Longrightarrow> ids (snd (set_ids d vs t)) d = Some vs"
    and set_other: "invar t \<Longrightarrow> fits vs \<Longrightarrow> d' \<noteq> d \<Longrightarrow>
      ids (snd (set_ids d vs t)) d' = ids t d'"
    and set_fail: "invar t \<Longrightarrow> fits vs \<Longrightarrow> fst (set_ids d vs t) = Inl e \<Longrightarrow>
      ids (snd (set_ids d vs t)) d = ids t d"
begin

lemma invar_store_all:
  "invar t \<Longrightarrow> (\<forall>op\<in>set ops. fits (snd op)) \<Longrightarrow> invar (snd (store_all set_ids ops t))"
proof (induction ops arbitrary: t)
  case (Cons op ops)
  obtain d vs where "op = (d, vs)" by fastforce
  with Cons show ?case using invar_set [of t vs d]
    by (cases "set_ids d vs t"; cases "fst (set_ids d vs t)") auto
qed simp

lemma store_all_untouched:
  "invar t \<Longrightarrow> (\<forall>op\<in>set ops. fits (snd op)) \<Longrightarrow> d' \<notin> fst ` set ops \<Longrightarrow>
     ids (snd (store_all set_ids ops t)) d' = ids t d'"
proof (induction ops arbitrary: t)
  case (Cons op ops)
  obtain d vs where "op = (d, vs)" by fastforce
  with Cons show ?case using invar_set [of t vs d] set_other [of t vs d' d]
    by (cases "set_ids d vs t"; cases "fst (set_ids d vs t)") auto
qed simp

lemma store_all_last_wins:
  assumes "invar t" and "(\<forall>op\<in>set ops. fits (snd op))" and "fst (store_all set_ids ops t) = Inr ()"
    and "ops = pre @ (d, vs) # post" and fresh: "d \<notin> fst ` set post"
    and rd: "readable vs"
  shows "ids (snd (store_all set_ids ops t)) d = Some vs"
  using assms(1-4)
proof (induction pre arbitrary: t ops)
  case Nil
  obtain r t' where s: "set_ids d vs t = (r, t')" by fastforce
  with Nil have r: "r = Inr ()" by (cases r) auto
  have f: "fits vs" using Nil by simp
  have "invar t'" using invar_set [OF Nil.prems(1) f, of d] s by simp
  moreover have "ids t' d = Some vs"
    using set_same [OF Nil.prems(1) f rd, of d] s r by simp
  ultimately show ?case using Nil s r store_all_untouched [of t' post d] fresh by simp
next
  case (Cons p pre)
  obtain d0 vs0 where p: "p = (d0, vs0)" by fastforce
  obtain r t' where s: "set_ids d0 vs0 t = (r, t')" by fastforce
  with Cons.prems p have r: "r = Inr ()" by (cases r) auto
  have "invar t'" using invar_set [of t vs0 d0] Cons.prems s p by simp
  with Cons p s r show ?case by auto
qed

end

section \<open>Well-formedness\<close>

text \<open>Every multi-value entry points at a complete block of at least two ids.\<close>

definition pid_entry_ok :: "u32 list \<Rightarrow> u32 \<Rightarrow> bool" where
  "pid_entry_ok mv index \<longleftrightarrow>
     (index AND INDEX_MSB \<noteq> 0 \<longrightarrow>
        (let p = unat (index AND INDEX_MASK) in
         p < length mv \<and> 2 \<le> unat (mv ! p) \<and> p + unat (mv ! p) < length mv))"

definition pid_wf :: "prop_id_table \<Rightarrow> bool" where
  "pid_wf t \<longleftrightarrow> list_all (pid_entry_ok (multiValueTable t)) (indexTable t)"

text \<open>
  The count word of a block is a 32-bit value, so a list must have fewer than \<open>2 ^ 32\<close> ids; the
  one-element list \<open>[0]\<close> is stored as the empty entry, id 0 being reserved.
\<close>

definition pid_fits :: "u32 list \<Rightarrow> bool" where
  "pid_fits ids \<longleftrightarrow> length ids < 2 ^ 32"

definition pid_readable :: "u32 list \<Rightarrow> bool" where
  "pid_readable ids \<longleftrightarrow> ids \<noteq> [0]"

subsection \<open>Bits of an index entry\<close>

lemma INDEX_MASK_eq: "INDEX_MASK = mask 31"
  by (simp add: INDEX_MASK_def INDEX_MSB_def mask_eq_exp_minus_1)

lemma unat_INDEX_MSB [simp]: "unat INDEX_MSB = 2 ^ 31"
  by (simp add: INDEX_MSB_def)

lemma multi_tag [simp]: "(INDEX_MSB OR x) AND INDEX_MSB = INDEX_MSB"
  by (simp add: word_ao_absorbs)

lemma INDEX_MSB_neq_0 [simp]: "INDEX_MSB \<noteq> 0"
  by (simp add: INDEX_MSB_def)

lemma small_and_mask:
  assumes "n < 2 ^ 31"
  shows "(of_nat n :: u32) AND INDEX_MASK = of_nat n"
proof -
  have "(of_nat n :: u32) < 2 ^ 31"
    using assms by (simp add: word_less_nat_alt unat_of_nat)
  then show ?thesis by (simp add: INDEX_MASK_eq less_mask_eq)
qed

lemma multi_offset [simp]:
  "n < 2 ^ 31 \<Longrightarrow> unat ((INDEX_MSB OR of_nat n) AND INDEX_MASK) = n"
proof -
  assume n: "n < 2 ^ 31"
  have "(INDEX_MSB OR of_nat n) AND INDEX_MASK = of_nat n AND INDEX_MASK"
    by (simp add: INDEX_MASK_def word_ao_dist)
  with n show ?thesis by (simp add: small_and_mask unat_of_nat)
qed

lemma single_tag: "x < INDEX_MSB \<Longrightarrow> x AND INDEX_MSB = 0"
proof -
  assume "x < INDEX_MSB"
  then have "x < 2 ^ 31" by (simp add: INDEX_MSB_def)
  then have "x AND INDEX_MASK = x" by (simp add: INDEX_MASK_eq less_mask_eq)
  then have "x AND INDEX_MSB = (x AND INDEX_MASK) AND INDEX_MSB" by simp
  then show ?thesis by (simp add: INDEX_MASK_def and.assoc)
qed


subsection \<open>What a document's list reads as\<close>

definition entry_ids :: "u32 list \<Rightarrow> u32 \<Rightarrow> u32 list" where
  "entry_ids mv index =
     (if index AND INDEX_MSB \<noteq> 0
      then (let p = unat (index AND INDEX_MASK) in take (unat (mv ! p)) (drop (Suc p) mv))
      else if index \<noteq> 0 then [index] else [])"

lemma read_ids_all:
  "(\<And>i. i \<in> set is \<Longrightarrow> prop_id_list_at t l i = Some (f i)) \<Longrightarrow> read_ids t l is = Some (map f is)"
  by (induction "is") auto

lemma read_ids_block:
  assumes "2 \<le> unat n" "p + unat n < length (multiValueTable t)"
  shows "read_ids t \<lparr>il_size = n, singleValueId = v, multiValueIter = Suc p\<rparr> [0..<unat n] =
     Some (take (unat n) (drop (Suc p) (multiValueTable t)))"
proof -
  have n1: "n \<noteq> 1" using assms(1) by auto
  have "read_ids t \<lparr>il_size = n, singleValueId = v, multiValueIter = Suc p\<rparr> [0..<unat n] =
      Some (map (\<lambda>i. multiValueTable t ! (Suc p + i)) [0..<unat n])"
    using assms n1 by (intro read_ids_all) (auto simp: prop_id_list_at_def)
  also have "map (\<lambda>i. multiValueTable t ! (Suc p + i)) [0..<unat n] =
      take (unat n) (drop (Suc p) (multiValueTable t))"
    using assms by (subst take_drop_conv_map_nth) auto
  finally show ?thesis .
qed

lemma pid_ids_wf:
  assumes "pid_wf t"
  shows "pid_ids t d = Some (if unat d < length (indexTable t)
     then entry_ids (multiValueTable t) (indexTable t ! unat d) else [])"
proof (cases "unat d < length (indexTable t)")
  case True
  let ?ix = "indexTable t ! unat d"
  from assms True have ok: "pid_entry_ok (multiValueTable t) ?ix"
    by (simp add: pid_wf_def list_all_length)
  show ?thesis
  proof (cases "?ix AND INDEX_MSB = 0")
    case True
    then show ?thesis using \<open>unat d < _\<close>
      by (auto simp: pid_ids_def pid_getIdList_def Let_def entry_ids_def prop_id_list_clear_def
          prop_id_list_init_def prop_id_list_at_def)
  next
    case False
    then show ?thesis using \<open>unat d < _\<close> ok
      by (simp add: pid_ids_def pid_getIdList_def Let_def entry_ids_def prop_id_list_clear_def
          prop_id_list_init_def pid_entry_ok_def read_ids_block)
  qed
next
  case False
  then show ?thesis
    by (simp add: pid_ids_def pid_getIdList_def prop_id_list_clear_def prop_id_list_init_def)
qed

lemma entry_ids_append:
  "pid_entry_ok mv ix \<Longrightarrow> entry_ids (mv @ ys) ix = entry_ids mv ix"
  by (auto simp: entry_ids_def pid_entry_ok_def Let_def nth_append)

lemma entry_ids_0 [simp]: "entry_ids mv 0 = []"
  by (simp add: entry_ids_def)

lemma entry_ok_0 [simp]: "pid_entry_ok mv 0"
  by (simp add: pid_entry_ok_def)

lemma entry_ok_single [simp]: "x < INDEX_MSB \<Longrightarrow> pid_entry_ok mv x"
  by (simp add: pid_entry_ok_def single_tag)

lemma entry_ok_append: "pid_entry_ok mv ix \<Longrightarrow> pid_entry_ok (mv @ ys) ix"
  by (auto simp: pid_entry_ok_def Let_def nth_append)

lemma entry_ok_multi:
  assumes "length mv < 2 ^ 31" "2 \<le> length ids" "length ids < 2 ^ 32"
  shows "pid_entry_ok (mv @ of_nat (length ids) # ids) (INDEX_MSB OR of_nat (length mv))"
  using assms by (simp add: pid_entry_ok_def Let_def unat_of_nat)

lemma entry_ids_multi:
  assumes "length mv < 2 ^ 31" "length ids < 2 ^ 32"
  shows "entry_ids (mv @ of_nat (length ids) # ids) (INDEX_MSB OR of_nat (length mv)) = ids"
  using assms by (simp add: entry_ids_def Let_def unat_of_nat)

subsection \<open>Growing and updating the index table\<close>

definition pid_grow :: "nat \<Rightarrow> prop_id_table \<Rightarrow> prop_id_table" where
  "pid_grow d t = (if length (indexTable t) \<le> d
     then t\<lparr>indexTable := vec_resize (d + 1) 0 (indexTable t)\<rparr> else t)"

lemma pid_grow_multi [simp]: "multiValueTable (pid_grow d t) = multiValueTable t"
  by (simp add: pid_grow_def)

lemma pid_grow_length: "d < length (indexTable (pid_grow d t))"
  by (simp add: pid_grow_def)

lemma list_all_vec_resize:
  "list_all P xs \<Longrightarrow> P d \<Longrightarrow> list_all P (vec_resize n d xs)"
  by (auto simp: list_all_length nth_vec_resize)

lemma pid_resize_wf [wf_intros]: "pid_wf t \<Longrightarrow> pid_wf (pid_resize n t)"
  by (simp add: pid_wf_def pid_resize_def list_all_vec_resize)

lemma pid_grow_wf [wf_intros]: "pid_wf t \<Longrightarrow> pid_wf (pid_grow d t)"
  by (simp add: pid_wf_def pid_grow_def list_all_vec_resize)

lemma pid_init_wf [wf_intros]: "pid_wf pid_init"
  by (simp add: pid_wf_def pid_init_def)

lemma pid_grow_ids: "pid_wf t \<Longrightarrow> pid_ids (pid_grow d t) d' = pid_ids t d'"
  by (subst pid_ids_wf, erule pid_grow_wf) (auto simp: pid_ids_wf pid_grow_def nth_vec_resize)

text \<open>One update of an entry, with the value table extended at its end.\<close>

definition pid_put :: "nat \<Rightarrow> u32 \<Rightarrow> u32 list \<Rightarrow> prop_id_table \<Rightarrow> prop_id_table" where
  "pid_put d ix ext t = t\<lparr>indexTable := (indexTable t)[d := ix],
     multiValueTable := multiValueTable t @ ext\<rparr>"

lemma pid_put_wf:
  assumes "pid_wf t" "pid_entry_ok (multiValueTable t @ ext) ix"
  shows "pid_wf (pid_put d ix ext t)"
proof -
  have "list_all (pid_entry_ok (multiValueTable t @ ext)) (indexTable t)"
    using assms(1) by (auto simp: pid_wf_def list_all_iff entry_ok_append)
  then show ?thesis using assms(2) set_update_subset_insert [of "indexTable t" d ix]
    by (auto simp: pid_wf_def pid_put_def list_all_iff)
qed

lemma pid_put_ids:
  assumes wf: "pid_wf t" and ok: "pid_entry_ok (multiValueTable t @ ext) ix"
    and d: "unat d < length (indexTable t)"
  shows "pid_ids (pid_put (unat d) ix ext t) d' =
    (if d' = d then Some (entry_ids (multiValueTable t @ ext) ix) else pid_ids t d')"
proof -
  have "pid_entry_ok (multiValueTable t) (indexTable t ! unat d')"
    if "unat d' < length (indexTable t)"
    using wf that by (simp add: pid_wf_def list_all_length)
  moreover have "unat d' = unat d \<longleftrightarrow> d' = d" by (simp add: word_unat_eq_iff)
  ultimately show ?thesis using pid_put_wf [OF wf ok] wf d
    by (auto simp: pid_ids_wf pid_put_def nth_list_update entry_ids_append)
qed

text \<open>\<open>setIdList\<close> is a growth followed by at most one update.\<close>

lemma pid_setIdList_eq:
  "pid_setIdList docId ids t =
     (let d = unat docId; g = pid_grow d t; n = length (multiValueTable t) in
      case ids of
        [] \<Rightarrow> (Inr (), pid_put d 0 [] g)
      | [v] \<Rightarrow> if INDEX_MSB \<le> v
               then (Inl (MiningException ''property value id is out of range''), g)
               else (Inr (), pid_put d v [] g)
      | _ \<Rightarrow> if 2 ^ 31 \<le> n
             then (Inl (MiningException ''property value count is out of range''), g)
             else (Inr (), pid_put d (INDEX_MSB OR of_nat n) (of_nat (length ids) # ids) g))"
  by (auto simp: pid_setIdList_def pid_grow_def pid_put_def Let_def split: list.split)


lemma pid_set_cases:
  assumes "pid_fits ids"
  obtains (reject) e where "pid_setIdList d ids t = (Inl e, pid_grow (unat d) t)"
  | (store) ix ext where "pid_setIdList d ids t = (Inr (), pid_put (unat d) ix ext (pid_grow (unat d) t))"
      "pid_entry_ok (multiValueTable t @ ext) ix"
      "pid_readable ids \<Longrightarrow> entry_ids (multiValueTable t @ ext) ix = ids"
proof (cases ids rule: remdups_adj.cases)
  case 1
  then show ?thesis using store [of 0 "[]"] by (simp add: pid_setIdList_eq Let_def)
next
  case (2 v)
  show ?thesis
  proof (cases "INDEX_MSB \<le> v")
    case True
    with 2 show ?thesis using reject by (simp add: pid_setIdList_eq Let_def)
  next
    case False
    then have "v < INDEX_MSB" by simp
    with 2 show ?thesis using store [of v "[]"]
      by (simp add: pid_setIdList_eq Let_def entry_ids_def single_tag pid_readable_def)
  qed
next
  case (3 v w vs)
  show ?thesis
  proof (cases "2 ^ 31 \<le> length (multiValueTable t)")
    case True
    with 3 show ?thesis using reject by (simp add: pid_setIdList_eq Let_def)
  next
    case False
    have "pid_setIdList d ids t =
        (Inr (), pid_put (unat d) (INDEX_MSB OR of_nat (length (multiValueTable t)))
           (of_nat (length ids) # ids) (pid_grow (unat d) t))"
      using 3 False by (simp add: pid_setIdList_eq Let_def)
    moreover have "pid_entry_ok (multiValueTable t @ of_nat (length ids) # ids)
        (INDEX_MSB OR of_nat (length (multiValueTable t)))"
      using 3 False assms by (intro entry_ok_multi) (auto simp: pid_fits_def)
    moreover have "entry_ids (multiValueTable t @ of_nat (length ids) # ids)
        (INDEX_MSB OR of_nat (length (multiValueTable t))) = ids"
      using False assms by (intro entry_ids_multi) (auto simp: pid_fits_def)
    ultimately show ?thesis using store by blast
  qed
qed

lemma pid_setIdList_wf [wf_intros]:
  "pid_wf t \<Longrightarrow> pid_fits ids \<Longrightarrow> pid_wf (snd (pid_setIdList d ids t))"
  by (cases rule: pid_set_cases [of ids d t]) (auto intro!: pid_put_wf pid_grow_wf)

lemma pid_setIdList_same:
  assumes "pid_wf t" "pid_fits ids" "pid_readable ids" "fst (pid_setIdList d ids t) = Inr ()"
  shows "pid_ids (snd (pid_setIdList d ids t)) d = Some ids"
  by (cases rule: pid_set_cases [OF assms(2), of d t])
    (use assms in \<open>simp_all add: pid_put_ids pid_grow_wf pid_grow_length\<close>)

lemma pid_setIdList_other:
  assumes "pid_wf t" "pid_fits ids" "d' \<noteq> d"
  shows "pid_ids (snd (pid_setIdList d ids t)) d' = pid_ids t d'"
  by (cases rule: pid_set_cases [OF assms(2), of d t])
    (use assms in \<open>simp_all add: pid_put_ids pid_grow_wf pid_grow_length pid_grow_ids\<close>)

lemma pid_setIdList_fail:
  assumes "pid_wf t" "pid_fits ids" "fst (pid_setIdList d ids t) = Inl e"
  shows "pid_ids (snd (pid_setIdList d ids t)) d = pid_ids t d"
  by (cases rule: pid_set_cases [OF assms(2), of d t]) (use assms in \<open>simp_all add: pid_grow_ids\<close>)

interpretation pid: doc_id_table pid_ids pid_setIdList pid_fits pid_readable pid_wf
  using pid_setIdList_wf pid_setIdList_same pid_setIdList_other pid_setIdList_fail pid_ids_wf
  by unfold_locales blast+

lemma pid_getIdCount_ids:
  assumes "pid_wf t"
  shows "pid_getIdCount t d = map_option length (pid_ids t d)"
proof (cases "unat d < length (indexTable t)")
  case True
  with assms have "pid_entry_ok (multiValueTable t) (indexTable t ! unat d)"
    by (simp add: pid_wf_def list_all_length)
  with True assms show ?thesis
    by (auto simp: pid_getIdCount_def pid_ids_wf entry_ids_def pid_entry_ok_def Let_def)
next
  case False
  with assms show ?thesis by (simp add: pid_getIdCount_def pid_ids_wf)
qed

section \<open>Properties\<close>



text \<open>loading a whole collection. When every store of a load succeeds, each document reads the
list of its last store, and documents that the load does not mention keep their lists.\<close>

theorem prop_id_table_load_last_wins:
  assumes "pid_wf t" "\<forall>op\<in>set ops. length (snd op) < 2 ^ 32"
    and "fst (store_all pid_setIdList ops t) = Inr ()"
    and "ops = pre @ (d, ids) # post" "d \<notin> fst ` set post" "ids \<noteq> [0]"
  shows "pid_ids (snd (store_all pid_setIdList ops t)) d = Some ids \<and>
     (\<forall>d'. d' \<notin> fst ` set ops \<longrightarrow>
        pid_ids (snd (store_all pid_setIdList ops t)) d' = pid_ids t d')"
proof -
  have fits: "\<forall>op\<in>set ops. pid_fits (snd op)" using assms(2) by (simp add: pid_fits_def)
  have "pid_readable ids" using assms(6) by (simp add: pid_readable_def)
  then show ?thesis
    using pid.store_all_last_wins [OF assms(1) fits assms(3-5)]
      pid.store_all_untouched [OF assms(1) fits] by simp
qed

theorem prop_id_table_load_last_wins_witness:
  "pid_ids (snd (store_all pid_setIdList [(1, [4]), (2, [5, 6]), (1, [7, 8, 9])] pid_init)) 1 =
     Some [7, 8, 9]"
proof -
  have ok: "fst (store_all pid_setIdList [(1, [4]), (2, [5, 6]), (1, [7, 8, 9])] pid_init) = Inr ()"
    by (simp add: pid_setIdList_def pid_init_def Let_def word_le_nat_alt)
  show ?thesis
    by (rule conjunct1 [OF prop_id_table_load_last_wins [OF pid_init_wf _ ok,
            of "[(1, [4]), (2, [5, 6])]" 1 "[7, 8, 9]" "[]"]]) auto
qed

end
