(* ===== verification/Split_Ustr.thy ===== *)
theory Split_Ustr
  imports Prelude
begin

text \<open>
  The parser of group paths and attribute pairs
  (core/mining-manager/util/split_ustr.cpp). A \<^verbatim>\<open>UString\<close> is the list of its code
  units; a pair of C++ iterators \<open>(it, endIt)\<close> is the rest of the input that is still to be read.
  \<^verbatim>\<open>UString::algo::compact\<close> belongs to izenelib and is the parameter \<open>compact\<close> of
  the definitions. The theorems: quoting a value protects every character of it, splitting is
  the inverse of the quoted form, no empty name, value or path is produced, and the assertions
  on the separators hold.
\<close>

section \<open>Characters\<close>

type_synonym uchar = nat
type_synonym ustring = "uchar list"

definition ustr :: "string \<Rightarrow> ustring" where
  "ustr = map of_char"

definition COLON :: uchar where "COLON = of_char (CHR '':'')"
definition VL :: uchar where "VL = of_char (CHR ''|'')"
definition GT :: uchar where "GT = of_char (CHR ''>'')"
definition COMMA :: uchar where "COMMA = of_char (CHR '','')"
definition SEMI_COLON :: uchar where "SEMI_COLON = of_char (CHR '';'')"
definition QUOTE :: uchar where "QUOTE = of_char (CHR 0x22)"

definition COMMA_VL :: ustring where "COMMA_VL = [COMMA, VL]"
definition COMMA_SEMICOLON_GT :: ustring where "COMMA_SEMICOLON_GT = [COMMA, SEMI_COLON, GT]"

lemmas uchar_defs = COLON_def VL_def GT_def COMMA_def SEMI_COLON_def QUOTE_def
lemmas delim_defs = COMMA_VL_def COMMA_SEMICOLON_GT_def

lemma uchars_distinct [simp]:
  "QUOTE \<noteq> COLON" "QUOTE \<noteq> VL" "QUOTE \<noteq> GT" "QUOTE \<noteq> COMMA" "QUOTE \<noteq> SEMI_COLON"
  "COLON \<noteq> VL" "VL \<noteq> COLON" "COMMA \<noteq> VL" "VL \<noteq> COMMA" "COMMA \<noteq> GT" "GT \<noteq> COMMA"
  "SEMI_COLON \<noteq> GT" "GT \<noteq> SEMI_COLON" "COMMA \<noteq> SEMI_COLON"
  by (simp_all add: uchar_defs)

section \<open>Reading one value\<close>

text \<open>The part after an opening quote, up to the end quote: the text and the rest.\<close>

fun scan_quoted :: "ustring \<Rightarrow> ustring \<times> ustring" where
  "scan_quoted [] = ([], [])"
| "scan_quoted [c] = (if c = QUOTE then ([], []) else ([c], []))"
| "scan_quoted (c # c' # cs) =
     (if c = QUOTE
      then (if c' = QUOTE then (let (out, rest) = scan_quoted cs in (QUOTE # out, rest))
            else ([], c' # cs))
      else (let (out, rest) = scan_quoted (c' # cs) in (c # out, rest)))"

definition parse_ustr ::
  "(ustring \<Rightarrow> ustring) \<Rightarrow> ustring \<Rightarrow> ustring \<Rightarrow> ustring \<times> ustring" where
  "parse_ustr compact delimStr s =
     (if s \<noteq> [] \<and> hd s = QUOTE
      then (let (out, rest) = scan_quoted (tl s) in (out, dropWhile (\<lambda>c. c \<notin> set delimStr) rest))
      else (compact (takeWhile (\<lambda>c. c \<notin> set delimStr) s),
            dropWhile (\<lambda>c. c \<notin> set delimStr) s))"

text \<open>\<open>if (!value.empty()) path.push_back(value)\<close>.\<close>

definition push_nonempty :: "'a list \<Rightarrow> 'a list list \<Rightarrow> 'a list list" where
  "push_nonempty v vs = (if v \<noteq> [] then vs @ [v] else vs)"

lemma scan_quoted_length: "length (snd (scan_quoted s)) \<le> length s"
  by (induction s rule: scan_quoted.induct) (auto split: prod.splits)

lemma parse_ustr_length: "length (snd (parse_ustr compact ds s)) \<le> length s"
proof (cases "s \<noteq> [] \<and> hd s = QUOTE")
  case True
  have "length (dropWhile (\<lambda>c. c \<notin> set ds) (snd (scan_quoted (tl s)))) \<le> length (tl s)"
    using scan_quoted_length [of "tl s"] length_dropWhile_le le_trans by blast
  also have "\<dots> \<le> length s" by simp
  finally show ?thesis using True by (simp add: parse_ustr_def case_prod_beta)
next
  case False
  then show ?thesis by (auto simp: parse_ustr_def length_dropWhile_le)
qed

lemma parse_ustr_length':
  "(v, r) = parse_ustr compact ds s \<Longrightarrow> length r \<le> length s"
  by (metis parse_ustr_length snd_conv)

lemma dropWhile_stops: "dropWhile P xs = [] \<or> \<not> P (hd (dropWhile P xs))"
  by (induction xs) auto

text \<open>Reading stops at a delimiter or at the end.\<close>

lemma parse_ustr_stops:
  "(v, r) = parse_ustr compact ds s \<Longrightarrow> r = [] \<or> hd r \<in> set ds"
  unfolding parse_ustr_def case_prod_beta Let_def
  using dropWhile_stops [of "\<lambda>c. c \<notin> set ds"] by (metis (mono_tags, lifting) snd_conv)

section \<open>Group paths\<close>

text \<open>The inner loop: the values that follow, each after a greater-than sign.\<close>

function group_path_rest ::
  "(ustring \<Rightarrow> ustring) \<Rightarrow> ustring \<Rightarrow> ustring list \<Rightarrow> ustring list \<times> ustring" where
  "group_path_rest compact s path =
     (if s \<noteq> [] \<and> hd s = GT
      then (let (v, r) = parse_ustr compact COMMA_SEMICOLON_GT (tl s)
            in group_path_rest compact r (push_nonempty v path))
      else (path, s))"
  by pat_completeness auto
termination
proof (relation "measure (\<lambda>(c, s, p). length s)", goal_cases)
  case (2 compact s path x v r)
  then have "length r \<le> length (tl s)" using parse_ustr_length' by blast
  with 2 show ?case by (cases s) auto
qed simp

declare group_path_rest.simps [simp del]

lemma group_path_rest_length: "length (snd (group_path_rest compact s path)) \<le> length s"
proof (induction compact s path rule: group_path_rest.induct)
  case (1 compact s path)
  show ?case
  proof (cases "s \<noteq> [] \<and> hd s = GT")
    case True
    obtain v r where p: "parse_ustr compact COMMA_SEMICOLON_GT (tl s) = (v, r)" by fastforce
    have "length (snd (group_path_rest compact r (push_nonempty v path))) \<le> length r"
      using 1 [OF True] p by simp
    moreover have "length r \<le> length s" using parse_ustr_length' [OF p [symmetric]] by simp
    ultimately show ?thesis using True p by (simp add: group_path_rest.simps [of compact s])
  qed (auto simp: group_path_rest.simps [of compact s])
qed

function split_group_path_loop ::
  "(ustring \<Rightarrow> ustring) \<Rightarrow> ustring \<Rightarrow> ustring list list \<Rightarrow> ustring list list" where
  "split_group_path_loop compact s groupPaths =
     (if s = [] then groupPaths
      else let (v, r) = parse_ustr compact COMMA_SEMICOLON_GT s;
               (path, r') = group_path_rest compact r (push_nonempty v [])
           in split_group_path_loop compact (drop 1 r') (push_nonempty path groupPaths))"
  by pat_completeness auto
termination
proof (relation "measure (\<lambda>(c, s, p). length s)", goal_cases)
  case (2 compact s paths x v r xa path r')
  have "length r \<le> length s" using parse_ustr_length' 2(2,3) by blast
  moreover have "length r' \<le> length r"
    using group_path_rest_length [of compact r "push_nonempty v []"] 2 by (metis snd_conv)
  ultimately show ?case using 2(1) by (cases r') (auto simp: Suc_le_eq)
qed simp

declare split_group_path_loop.simps [simp del]

definition split_group_path :: "(ustring \<Rightarrow> ustring) \<Rightarrow> ustring \<Rightarrow> ustring list list" where
  "split_group_path compact src = split_group_path_loop compact src []"

section \<open>Attribute pairs\<close>

type_synonym attr_pair = "ustring \<times> ustring list"

function attr_values_rest ::
  "(ustring \<Rightarrow> ustring) \<Rightarrow> ustring \<Rightarrow> ustring list \<Rightarrow> ustring list \<times> ustring" where
  "attr_values_rest compact s vals =
     (if s \<noteq> [] \<and> hd s = VL
      then (let (v, r) = parse_ustr compact COMMA_VL (tl s)
            in attr_values_rest compact r (push_nonempty v vals))
      else (vals, s))"
  by pat_completeness auto
termination
proof (relation "measure (\<lambda>(c, s, p). length s)", goal_cases)
  case (2 compact s path x v r)
  then have "length r \<le> length (tl s)" using parse_ustr_length' by blast
  with 2 show ?case by (cases s) auto
qed simp

declare attr_values_rest.simps [simp del]

lemma attr_values_rest_length: "length (snd (attr_values_rest compact s vals)) \<le> length s"
proof (induction compact s vals rule: attr_values_rest.induct)
  case (1 compact s vals)
  show ?case
  proof (cases "s \<noteq> [] \<and> hd s = VL")
    case True
    obtain v r where p: "parse_ustr compact COMMA_VL (tl s) = (v, r)" by fastforce
    have "length (snd (attr_values_rest compact r (push_nonempty v vals))) \<le> length r"
      using 1 [OF True] p by simp
    moreover have "length r \<le> length s" using parse_ustr_length' [OF p [symmetric]] by simp
    ultimately show ?thesis using True p by (simp add: attr_values_rest.simps [of compact s])
  qed (auto simp: attr_values_rest.simps [of compact s])
qed

text \<open>The loop ends early at a missing colon or an empty name.\<close>

function split_attr_pair_loop ::
  "(ustring \<Rightarrow> ustring) \<Rightarrow> ustring \<Rightarrow> attr_pair list \<Rightarrow> attr_pair list" where
  "split_attr_pair_loop compact s attrPairs =
     (if s = [] then attrPairs
      else let (name, r) = parse_ustr compact [COLON] s in
        if r = [] \<or> name = [] then attrPairs
        else let (v, r1) = parse_ustr compact COMMA_VL (tl r);
                 (vals, r2) = attr_values_rest compact r1 (push_nonempty v [])
             in split_attr_pair_loop compact (drop 1 r2)
                  (if vals \<noteq> [] then attrPairs @ [(name, vals)] else attrPairs))"
  by pat_completeness auto
termination
proof (relation "measure (\<lambda>(c, s, p). length s)", goal_cases)
  case (2 compact s pairs x name r xa v r1 xb vals r2)
  have "length r \<le> length s" using parse_ustr_length' 2(2,3) by blast
  moreover have "length r1 \<le> length (tl r)" using parse_ustr_length' 2(5,6) by blast
  moreover have "length r2 \<le> length r1"
    using attr_values_rest_length [of compact r1 "push_nonempty v []"] 2 by (metis snd_conv)
  ultimately show ?case using 2(1,4) by (cases r2; cases r) (auto simp: Suc_le_eq)
qed simp

declare split_attr_pair_loop.simps [simp del]

definition split_attr_pair :: "(ustring \<Rightarrow> ustring) \<Rightarrow> ustring \<Rightarrow> attr_pair list" where
  "split_attr_pair compact src = split_attr_pair_loop compact src []"

section \<open>The quoted form\<close>

text \<open>
  The form in which any value can be written: surrounded by quotes, inner quotes doubled.
\<close>

definition escape_quotes :: "ustring \<Rightarrow> ustring" where
  "escape_quotes v = concat (map (\<lambda>c. if c = QUOTE then [QUOTE, QUOTE] else [c]) v)"

definition quote_ustr :: "ustring \<Rightarrow> ustring" where
  "quote_ustr v = QUOTE # escape_quotes v @ [QUOTE]"

lemma escape_quotes_simps [simp]:
  "escape_quotes [] = []"
  "escape_quotes (c # v) = (if c = QUOTE then [QUOTE, QUOTE] else [c]) @ escape_quotes v"
  by (simp_all add: escape_quotes_def)

lemma scan_quoted_plain:
  "c \<noteq> QUOTE \<Longrightarrow> scan_quoted (c # cs) = (c # fst (scan_quoted cs), snd (scan_quoted cs))"
  by (cases cs) (auto simp: case_prod_beta)

lemma scan_quoted_end: "r = [] \<or> hd r \<noteq> QUOTE \<Longrightarrow> scan_quoted (QUOTE # r) = ([], r)"
  by (cases r) auto

lemma scan_quoted_escape:
  "r = [] \<or> hd r \<noteq> QUOTE \<Longrightarrow> scan_quoted (escape_quotes v @ QUOTE # r) = (v, r)"
  by (induction v) (auto simp: scan_quoted_plain scan_quoted_end)

lemma parse_quoted:
  assumes "r = [] \<or> hd r \<in> set ds" "QUOTE \<notin> set ds"
  shows "parse_ustr compact ds (quote_ustr v @ r) = (v, r)"
proof -
  have "r = [] \<or> hd r \<noteq> QUOTE" using assms by auto
  then have "scan_quoted (escape_quotes v @ QUOTE # r) = (v, r)" by (rule scan_quoted_escape)
  moreover have "dropWhile (\<lambda>c. c \<notin> set ds) r = r" using assms by (cases r) auto
  ultimately show ?thesis by (simp add: parse_ustr_def quote_ustr_def)
qed

fun encode_list :: "uchar \<Rightarrow> ustring list \<Rightarrow> ustring" where
  "encode_list sep [] = []"
| "encode_list sep (v # vs) = sep # quote_ustr v @ encode_list sep vs"

definition encode_path :: "ustring list \<Rightarrow> ustring" where
  "encode_path p = tl (encode_list GT p)"

fun encode_paths :: "ustring list list \<Rightarrow> ustring" where
  "encode_paths [] = []"
| "encode_paths (p # ps) = encode_path p @ (if ps = [] then [] else COMMA # encode_paths ps)"

fun encode_attr :: "attr_pair \<Rightarrow> ustring" where
  "encode_attr (name, vals) = quote_ustr name @ COLON # tl (encode_list VL vals)"

fun encode_attrs :: "attr_pair list \<Rightarrow> ustring" where
  "encode_attrs [] = []"
| "encode_attrs (a # as) = encode_attr a @ (if as = [] then [] else COMMA # encode_attrs as)"

lemma encode_list_head: "encode_list sep vs = [] \<or> hd (encode_list sep vs) = sep"
  by (cases vs) auto

lemma hd_encode_append:
  "r = [] \<or> hd r \<in> A \<Longrightarrow> sep \<in> A \<Longrightarrow> encode_list sep vs @ r = [] \<or> hd (encode_list sep vs @ r) \<in> A"
  by (cases vs) auto

lemma group_path_rest_encode:
  assumes "[] \<notin> set vs" "r = [] \<or> hd r = COMMA"
  shows "group_path_rest compact (encode_list GT vs @ r) path = (path @ vs, r)"
  using assms
proof (induction vs arbitrary: path)
  case Nil
  then show ?case by (subst group_path_rest.simps) auto
next
  case (Cons v vs)
  have "encode_list GT vs @ r = [] \<or> hd (encode_list GT vs @ r) \<in> set COMMA_SEMICOLON_GT"
    using Cons.prems by (intro hd_encode_append) (auto simp: delim_defs)
  then have "parse_ustr compact COMMA_SEMICOLON_GT (quote_ustr v @ encode_list GT vs @ r)
      = (v, encode_list GT vs @ r)"
    by (rule parse_quoted) (simp add: delim_defs)
  then show ?case using Cons by (subst group_path_rest.simps) (auto simp: push_nonempty_def)
qed

lemma attr_values_rest_encode:
  assumes "[] \<notin> set vs" "r = [] \<or> hd r = COMMA"
  shows "attr_values_rest compact (encode_list VL vs @ r) acc = (acc @ vs, r)"
  using assms
proof (induction vs arbitrary: acc)
  case Nil
  then show ?case by (subst attr_values_rest.simps) auto
next
  case (Cons v vs)
  have "encode_list VL vs @ r = [] \<or> hd (encode_list VL vs @ r) \<in> set COMMA_VL"
    using Cons.prems by (intro hd_encode_append) (auto simp: delim_defs)
  then have "parse_ustr compact COMMA_VL (quote_ustr v @ encode_list VL vs @ r)
      = (v, encode_list VL vs @ r)"
    by (rule parse_quoted) (simp add: delim_defs)
  then show ?case using Cons by (subst attr_values_rest.simps) (auto simp: push_nonempty_def)
qed

definition good_path :: "ustring list \<Rightarrow> bool" where
  "good_path p \<longleftrightarrow> p \<noteq> [] \<and> [] \<notin> set p"

lemma split_group_path_step:
  assumes "good_path p" "r = [] \<or> hd r = COMMA"
  shows "split_group_path_loop compact (encode_path p @ r) acc =
    split_group_path_loop compact (drop 1 r) (acc @ [p])"
proof -
  obtain v vs where p: "p = v # vs" using assms(1) by (cases p) (auto simp: good_path_def)
  have "encode_list GT vs @ r = [] \<or> hd (encode_list GT vs @ r) \<in> set COMMA_SEMICOLON_GT"
    using assms by (intro hd_encode_append) (auto simp: delim_defs)
  then have "parse_ustr compact COMMA_SEMICOLON_GT (quote_ustr v @ encode_list GT vs @ r)
      = (v, encode_list GT vs @ r)"
    by (rule parse_quoted) (simp add: delim_defs)
  moreover have "group_path_rest compact (encode_list GT vs @ r) [v] = (v # vs, r)"
    using group_path_rest_encode [of vs r compact "[v]"] assms p by (auto simp: good_path_def)
  ultimately show ?thesis using assms p
    by (subst split_group_path_loop.simps)
      (auto simp: encode_path_def good_path_def push_nonempty_def quote_ustr_def)
qed

lemma split_group_path_loop_encode:
  "list_all good_path ps \<Longrightarrow> split_group_path_loop compact (encode_paths ps) acc = acc @ ps"
proof (induction ps arbitrary: acc)
  case Nil
  then show ?case by (simp add: split_group_path_loop.simps)
next
  case (Cons p ps)
  then show ?case
    using split_group_path_step [of p "[]" compact acc]
      split_group_path_step [of p "COMMA # encode_paths ps" compact acc]
    by (simp add: split_group_path_loop.simps [of compact "[]"])
qed

definition good_attr :: "attr_pair \<Rightarrow> bool" where
  "good_attr a \<longleftrightarrow> fst a \<noteq> [] \<and> good_path (snd a)"

lemma split_attr_pair_step:
  assumes "good_attr a" "r = [] \<or> hd r = COMMA"
  shows "split_attr_pair_loop compact (encode_attr a @ r) acc =
    split_attr_pair_loop compact (drop 1 r) (acc @ [a])"
proof -
  obtain name v vs where a: "a = (name, v # vs)" and ne: "name \<noteq> []" "v \<noteq> []" "[] \<notin> set vs"
    using assms(1) by (cases a; cases "snd a") (auto simp: good_attr_def good_path_def)
  have n: "parse_ustr compact [COLON] (quote_ustr name @ COLON # quote_ustr v @ encode_list VL vs @ r)
      = (name, COLON # quote_ustr v @ encode_list VL vs @ r)"
    by (rule parse_quoted) auto
  have "encode_list VL vs @ r = [] \<or> hd (encode_list VL vs @ r) \<in> set COMMA_VL"
    using assms by (intro hd_encode_append) (auto simp: delim_defs)
  then have "parse_ustr compact COMMA_VL (quote_ustr v @ encode_list VL vs @ r)
      = (v, encode_list VL vs @ r)"
    by (rule parse_quoted) (simp add: delim_defs)
  moreover have "attr_values_rest compact (encode_list VL vs @ r) [v] = (v # vs, r)"
    using attr_values_rest_encode [of vs r compact "[v]"] assms ne by auto
  ultimately show ?thesis using assms a ne n
    by (subst split_attr_pair_loop.simps) (simp add: push_nonempty_def quote_ustr_def)
qed

lemma split_attr_pair_loop_encode:
  "list_all good_attr as \<Longrightarrow> split_attr_pair_loop compact (encode_attrs as) acc = acc @ as"
proof (induction as arbitrary: acc)
  case Nil
  then show ?case by (simp add: split_attr_pair_loop.simps)
next
  case (Cons a as)
  then show ?case
    using split_attr_pair_step [of a "[]" compact acc]
      split_attr_pair_step [of a "COMMA # encode_attrs as" compact acc]
    by (simp add: split_attr_pair_loop.simps [of compact "[]"])
qed

section \<open>What is produced\<close>

lemma push_nonempty_set: "set (push_nonempty v vs) = (if v = [] then set vs else insert v (set vs))"
  by (auto simp: push_nonempty_def)

lemma group_path_rest_ok:
  "[] \<notin> set path \<Longrightarrow> [] \<notin> set (fst (group_path_rest compact s path))"
proof (induction compact s path rule: group_path_rest.induct)
  case (1 compact s path)
  then show ?case
    by (subst group_path_rest.simps) (auto simp: push_nonempty_set case_prod_beta)
qed

lemma group_path_rest_stops:
  "s = [] \<or> hd s \<in> set COMMA_SEMICOLON_GT \<Longrightarrow>
   (let r = snd (group_path_rest compact s path) in r = [] \<or> hd r = COMMA \<or> hd r = SEMI_COLON)"
proof (induction compact s path rule: group_path_rest.induct)
  case (1 compact s path)
  show ?case
  proof (cases "s \<noteq> [] \<and> hd s = GT")
    case True
    obtain v r where p: "(v, r) = parse_ustr compact COMMA_SEMICOLON_GT (tl s)"
      by (metis surj_pair)
    show ?thesis
      using 1(1) [OF True refl p parse_ustr_stops [OF p]] True p [symmetric]
      by (subst group_path_rest.simps) simp
  next
    case False
    then show ?thesis using "1.prems" by (subst group_path_rest.simps) (auto simp: delim_defs)
  qed
qed

lemma attr_values_rest_ok:
  "[] \<notin> set vals \<Longrightarrow> [] \<notin> set (fst (attr_values_rest compact s vals))"
proof (induction compact s vals rule: attr_values_rest.induct)
  case (1 compact s vals)
  then show ?case
    by (subst attr_values_rest.simps) (auto simp: push_nonempty_set case_prod_beta)
qed

lemma attr_values_rest_stops:
  "s = [] \<or> hd s \<in> set COMMA_VL \<Longrightarrow>
   (let r = snd (attr_values_rest compact s vals) in r = [] \<or> hd r = COMMA)"
proof (induction compact s vals rule: attr_values_rest.induct)
  case (1 compact s vals)
  show ?case
  proof (cases "s \<noteq> [] \<and> hd s = VL")
    case True
    obtain v r where p: "(v, r) = parse_ustr compact COMMA_VL (tl s)"
      by (metis surj_pair)
    show ?thesis
      using 1(1) [OF True refl p parse_ustr_stops [OF p]] True p [symmetric]
      by (subst attr_values_rest.simps) simp
  next
    case False
    then show ?thesis using "1.prems" by (subst attr_values_rest.simps) (auto simp: delim_defs)
  qed
qed

lemma split_group_path_loop_good:
  "list_all good_path acc \<Longrightarrow> list_all good_path (split_group_path_loop compact s acc)"
proof (induction compact s acc rule: split_group_path_loop.induct)
  case (1 compact s acc)
  show ?case
  proof (cases "s = []")
    case False
    obtain v r where p: "parse_ustr compact COMMA_SEMICOLON_GT s = (v, r)" by fastforce
    obtain path r' where g: "group_path_rest compact r (push_nonempty v []) = (path, r')" by fastforce
    have "[] \<notin> set path"
      using group_path_rest_ok [of "push_nonempty v []" compact r] g
      by (simp add: push_nonempty_set)
    then have "list_all good_path (push_nonempty path acc)"
      using "1.prems" by (auto simp: push_nonempty_def good_path_def list_all_iff)
    then show ?thesis using 1(1) [OF False refl p [symmetric] refl g [symmetric]] False p g
      by (subst split_group_path_loop.simps) simp
  qed (use 1 in \<open>simp add: split_group_path_loop.simps\<close>)
qed

lemma split_attr_pair_loop_good:
  "list_all good_attr acc \<Longrightarrow> list_all good_attr (split_attr_pair_loop compact s acc)"
proof (induction compact s acc rule: split_attr_pair_loop.induct)
  case (1 compact s acc)
  obtain name r where p: "parse_ustr compact [COLON] s = (name, r)" by fastforce
  obtain v r1 where p1: "parse_ustr compact COMMA_VL (tl r) = (v, r1)" by fastforce
  obtain vals r2 where g: "attr_values_rest compact r1 (push_nonempty v []) = (vals, r2)" by fastforce
  show ?case
  proof (cases "s = [] \<or> r = [] \<or> name = []")
    case True
    then show ?thesis using "1.prems" p by (subst split_attr_pair_loop.simps) auto
  next
    case False
    have "[] \<notin> set vals"
      using attr_values_rest_ok [of "push_nonempty v []" compact r1] g
      by (simp add: push_nonempty_set)
    then have "list_all good_attr (if vals \<noteq> [] then acc @ [(name, vals)] else acc)"
      using "1.prems" False by (auto simp: good_attr_def good_path_def list_all_iff)
    then show ?thesis using 1(1) [OF _ refl p [symmetric] _ refl p1 [symmetric] refl g [symmetric]] False p p1 g
      by (subst split_attr_pair_loop.simps) simp
  qed
qed

section \<open>Properties\<close>

text \<open>C24: splitting inverts the quoted form of group paths. Any list of non-empty paths of non-empty
values, whatever characters (delimiters and quotes included) the values hold, is recovered exactly
from its quoted text, for every implementation of the white-space trimming.\<close>

theorem split_group_path_roundtrip:
  assumes "\<forall>p\<in>set ps. p \<noteq> [] \<and> [] \<notin> set p"
  shows "split_group_path compact (encode_paths ps) = ps"
  using assms split_group_path_loop_encode [of ps compact "[]"]
  by (simp add: split_group_path_def list_all_iff good_path_def)

theorem split_group_path_roundtrip_witness:
  "split_group_path id (encode_paths [[ustr ''a>b'', ustr ''c''], [ustr ''d,e;f'']]) =
     [[ustr ''a>b'', ustr ''c''], [ustr ''d,e;f'']]"
  by (rule split_group_path_roundtrip) (simp add: ustr_def)

text \<open>splitting inverts the quoted form of attribute pairs with non-empty names and non-empty
lists of non-empty values.\<close>

theorem split_attr_pair_roundtrip:
  assumes "\<forall>(name, vals)\<in>set as. name \<noteq> [] \<and> vals \<noteq> [] \<and> [] \<notin> set vals"
  shows "split_attr_pair compact (encode_attrs as) = as"
  using assms split_attr_pair_loop_encode [of as compact "[]"]
  by (simp add: case_prod_beta split_attr_pair_def list_all_iff good_attr_def good_path_def)

theorem split_attr_pair_roundtrip_witness:
  "split_attr_pair id (encode_attrs [(ustr ''col:or'', [ustr ''r|d'', ustr ''b'']), (ustr ''s'', [ustr ''1,2''])]) =
     [(ustr ''col:or'', [ustr ''r|d'', ustr ''b'']), (ustr ''s'', [ustr ''1,2''])]"
  by (rule split_attr_pair_roundtrip) (simp add: ustr_def)

text \<open>for any input and any trimming function, every path that \<open>split_group_path\<close> returns is
non-empty and holds no empty value, and every pair that \<open>split_attr_pair\<close> returns has a non-empty
name and a non-empty list of non-empty values; the asserted separators hold: what is left when a
path ends is empty or starts with a comma or a semicolon, and with a comma after attribute values.\<close>

theorem split_results_nonempty:
  "list_all (\<lambda>p. p \<noteq> [] \<and> [] \<notin> set p) (split_group_path compact src) \<and>
   list_all (\<lambda>(name, vals). name \<noteq> [] \<and> vals \<noteq> [] \<and> [] \<notin> set vals) (split_attr_pair compact src) \<and>
   (let r = snd (group_path_rest compact (snd (parse_ustr compact COMMA_SEMICOLON_GT src)) path)
    in r = [] \<or> hd r = COMMA \<or> hd r = SEMI_COLON) \<and>
   (let r = snd (attr_values_rest compact (snd (parse_ustr compact COMMA_VL src)) vs)
    in r = [] \<or> hd r = COMMA)"
proof (intro conjI)
  show "list_all (\<lambda>p. p \<noteq> [] \<and> [] \<notin> set p) (split_group_path compact src)"
    using split_group_path_loop_good [of "[]" compact src]
    by (simp add: split_group_path_def good_path_def list_all_iff)
  show "list_all (\<lambda>(name, vals). name \<noteq> [] \<and> vals \<noteq> [] \<and> [] \<notin> set vals) (split_attr_pair compact src)"
    using split_attr_pair_loop_good [of "[]" compact src]
    by (auto simp: split_attr_pair_def good_attr_def good_path_def list_all_iff)
  show "let r = snd (group_path_rest compact (snd (parse_ustr compact COMMA_SEMICOLON_GT src)) path)
    in r = [] \<or> hd r = COMMA \<or> hd r = SEMI_COLON"
    using parse_ustr_stops [of _ _ compact COMMA_SEMICOLON_GT src]
    by (intro group_path_rest_stops) (metis prod.collapse)
  show "let r = snd (attr_values_rest compact (snd (parse_ustr compact COMMA_VL src)) vs)
    in r = [] \<or> hd r = COMMA"
    using parse_ustr_stops [of _ _ compact COMMA_VL src]
    by (intro attr_values_rest_stops) (metis prod.collapse)
qed

end
