(* ===== verification/File_Container.thy ===== *)
theory File_Container
  imports Prelude
begin

text \<open>
  Saving and loading of containers (core/mining-manager/util/fcontainer_febird.h). Files are
  addressed by directory and file name and hold bytes. The febird serialiser is not part of the
  repository: it is the parameter \<open>archive\<close>, a pair of functions where \<open>None\<close> stands for an
  exception, together with the question whether a file can be opened for writing. The predicate
  \<open>faithful_archive\<close> states what the callers rely on: what was written is read back.
\<close>

type_synonym bytes = "nat list"
type_synonym file_key = "string \<times> string"
type_synonym fstore = "file_key \<rightharpoonup> bytes"

record 'c archive =
  can_write :: "file_key \<Rightarrow> bool"
  arch_save :: "'c list \<Rightarrow> bytes option"
  arch_load :: "bytes \<Rightarrow> 'c list option"

text \<open>
  Opening for writing truncates the file; an exception while writing leaves it truncated.
\<close>

definition save_container :: "'c archive \<Rightarrow> file_key \<Rightarrow> 'c list \<Rightarrow> fstore \<Rightarrow> bool \<times> fstore" where
  "save_container ar key c fs =
     (if \<not> can_write ar key then (False, fs)
      else case arch_save ar c of
             None \<Rightarrow> (False, fs(key \<mapsto> []))
           | Some b \<Rightarrow> (True, fs(key \<mapsto> b)))"

definition save_container_count ::
  "'c archive \<Rightarrow> file_key \<Rightarrow> 'c list \<Rightarrow> u32 \<Rightarrow> fstore \<Rightarrow> bool \<times> u32 \<times> fstore" where
  "save_container_count ar key c cnt fs =
     (let containerSize = (of_nat (length c) :: u32) in
      if containerSize \<le> cnt then (True, cnt, fs)
      else case save_container ar key c fs of
             (True, fs') \<Rightarrow> (True, containerSize, fs')
           | (False, fs') \<Rightarrow> (False, cnt, fs'))"

text \<open>A file that cannot be opened counts as success and leaves the container as it is.\<close>

definition load_container :: "'c archive \<Rightarrow> file_key \<Rightarrow> 'c list \<Rightarrow> fstore \<Rightarrow> bool \<times> 'c list" where
  "load_container ar key c fs =
     (case fs key of
        None \<Rightarrow> (True, c)
      | Some b \<Rightarrow> (case arch_load ar b of None \<Rightarrow> (False, c) | Some c' \<Rightarrow> (True, c')))"

definition load_container_count ::
  "'c archive \<Rightarrow> file_key \<Rightarrow> 'c list \<Rightarrow> u32 \<Rightarrow> fstore \<Rightarrow> bool \<times> 'c list \<times> u32" where
  "load_container_count ar key c cnt fs =
     (case load_container ar key c fs of
        (True, c') \<Rightarrow> (True, c', of_nat (length c'))
      | (False, c') \<Rightarrow> (False, c', cnt))"

section \<open>What the callers rely on\<close>

definition faithful_archive :: "'c archive \<Rightarrow> bool" where
  "faithful_archive ar \<longleftrightarrow> (\<forall>c b. arch_save ar c = Some b \<longrightarrow> arch_load ar b = Some c)"

text \<open>
  \<open>stored\<close>: when the saved count covers the container, loading its file into the initial container
  \<open>c0\<close> returns it. A counted save that reports success establishes that unconditionally.
\<close>

definition stored :: "'c archive \<Rightarrow> file_key \<Rightarrow> 'c list \<Rightarrow> 'c list \<Rightarrow> u32 \<Rightarrow> fstore \<Rightarrow> bool" where
  "stored ar key c0 c cnt fs \<longleftrightarrow>
     (of_nat (length c) \<le> cnt \<longrightarrow> load_container ar key c0 fs = (True, c))"

lemma save_count_stored:
  assumes "save_container_count ar key c cnt fs = (True, cnt', fs')"
    and "stored ar key c0 c cnt fs" "faithful_archive ar"
  shows "load_container ar key c0 fs' = (True, c)"
  using assms
  by (auto simp: save_container_count_def save_container_def stored_def Let_def load_container_def
      faithful_archive_def split: if_splits option.splits)

text \<open>A counted save touches only its own file.\<close>

lemma save_container_count_frame:
  "save_container_count ar key c cnt fs = (ok, cnt', fs') \<Longrightarrow> key' \<noteq> key \<Longrightarrow> fs' key' = fs key'"
  by (auto simp: save_container_count_def save_container_def Let_def
      split: if_splits option.splits)

lemma load_container_frame: "fs' key = fs key \<Longrightarrow> load_container ar key c fs' = load_container ar key c fs"
  by (simp add: load_container_def)

lemma save_container_count_covered:
  "of_nat (length c) \<le> cnt \<Longrightarrow> save_container_count ar key c cnt fs = (True, cnt, fs)"
  by (simp add: save_container_count_def Let_def)

lemma save_container_count_size:
  "save_container_count ar key c cnt fs = (True, cnt', fs') \<Longrightarrow>
     cnt' = max cnt (of_nat (length c))"
  by (auto simp: save_container_count_def save_container_def Let_def max_def
      split: if_splits option.splits)

lemma stored_frame:
  assumes "stored ar key c0 c cnt fs" "fs' key = fs key"
  shows "stored ar key c0 c cnt fs'"
  using assms by (simp add: stored_def load_container_def)

lemma load_count_of_load:
  "load_container ar key c0 fs = (True, c) \<Longrightarrow>
     load_container_count ar key c0 cnt fs = (True, c, of_nat (length c))"
  by (simp add: load_container_count_def)

text \<open>One save in a sequence of saves to different files.\<close>

lemma save_count_chain:
  assumes "save_container_count ar key c cnt fs0 = (True, cnt', fs1)" "stored ar key c0 c cnt fs"
    and "fs0 key = fs key" "fs' key = fs1 key" "faithful_archive ar"
  shows "load_container ar key c0 fs' = (True, c)"
  using save_count_stored [OF assms(1) stored_frame assms(5)] assms(2-4)
  by (simp add: load_container_def)

section \<open>Concrete archives\<close>

text \<open>Two archives that satisfy what the callers rely on: ids one number each, strings with their length.\<close>

definition id_archive :: "u32 archive" where
  "id_archive = \<lparr>can_write = (\<lambda>_. True), arch_save = (\<lambda>c. Some (map unat c)),
     arch_load = (\<lambda>b. Some (map of_nat b))\<rparr>"

fun decode_strs :: "nat list \<Rightarrow> nat list list" where
  "decode_strs [] = []"
| "decode_strs (n # b) = take n b # decode_strs (drop n b)"

definition encode_strs :: "nat list list \<Rightarrow> nat list" where
  "encode_strs ss = concat (map (\<lambda>s. length s # s) ss)"

definition str_archive :: "nat list archive" where
  "str_archive = \<lparr>can_write = (\<lambda>_. True), arch_save = (\<lambda>c. Some (encode_strs c)),
     arch_load = (\<lambda>b. Some (decode_strs b))\<rparr>"

lemma decode_encode_strs [simp]: "decode_strs (encode_strs ss) = ss"
  by (induction ss) (auto simp: encode_strs_def)

lemma faithful_id_archive: "faithful_archive id_archive"
  by (auto simp: faithful_archive_def id_archive_def comp_def)

lemma faithful_str_archive: "faithful_archive str_archive"
  by (auto simp: faithful_archive_def str_archive_def)

end
