(* ===== verification/Prop_Value_Table.thy ===== *)
theory Prop_Value_Table
  imports Prop_Id_Table Split_Ustr File_Container
begin

text \<open>
  The table of hierarchical property values,
  core/mining-manager/group-manager/PropValueTable.h and PropValueTable.cpp: value strings get
  ids in the order of insertion, each id has a parent id (0 for a root), and every document has a
  list of ids. The locks are not part of the model: every public operation holds the table's lock
  for its whole body, so an operation is one step. \<^verbatim>\<open>std::map\<close> is a partial function.
\<close>

section \<open>Data\<close>

type_synonym pvid = u32

record prop_value_table =
  dirPath :: string
  propName :: string
  propStrVec :: "ustring list"
  savePropStrNum :: u32
  parentIdVec :: "pvid list"
  saveParentIdNum :: u32
  childMapTable :: "(ustring \<rightharpoonup> pvid) list"
  valueIdTable :: prop_id_table
  saveIndexNum :: u32
  saveValueNum :: u32

definition pvt_init :: "string \<Rightarrow> string \<Rightarrow> prop_value_table" where
  "pvt_init dir prop =
     \<lparr>dirPath = dir, propName = prop, propStrVec = [[]], savePropStrNum = 0,
      parentIdVec = [0], saveParentIdNum = 0, childMapTable = [Map.empty],
      valueIdTable = pid_init, saveIndexNum = 0, saveValueNum = 0\<rparr>"

section \<open>Operations\<close>

definition pvt_resize :: "nat \<Rightarrow> prop_value_table \<Rightarrow> prop_value_table" where
  "pvt_resize num t = t\<lparr>valueIdTable := pid_resize num (valueIdTable t)\<rparr>"

definition setPropIdList ::
  "docid \<Rightarrow> pvid list \<Rightarrow> prop_value_table \<Rightarrow> unit result \<times> prop_value_table" where
  "setPropIdList docId ids t =
     (let (r, v) = pid_setIdList docId ids (valueIdTable t) in (r, t\<lparr>valueIdTable := v\<rparr>))"

definition propValueStr :: "prop_value_table \<Rightarrow> pvid \<Rightarrow> ustring option" where
  "propValueStr t pvId = vec_at (propStrVec t) (unat pvId)"

text \<open>The loop of \<open>insertPropValueId\<close> over the path, from the node \<open>pvId\<close>.\<close>

fun insert_path ::
  "ustring list \<Rightarrow> pvid \<Rightarrow> prop_value_table \<Rightarrow> pvid result \<times> prop_value_table" where
  "insert_path [] pvId t = (Inr pvId, t)"
| "insert_path (pathNode # rest) pvId t =
     (let propStrMap = childMapTable t ! unat pvId in
      case propStrMap pathNode of
        Some child \<Rightarrow> insert_path rest child t
      | None \<Rightarrow>
          (let new = of_nat (length (propStrVec t)) in
           if new \<noteq> 0
           then insert_path rest new
             (t\<lparr>childMapTable :=
                  (childMapTable t)[unat pvId := propStrMap(pathNode \<mapsto> new)] @ [Map.empty],
                propStrVec := propStrVec t @ [pathNode],
                parentIdVec := parentIdVec t @ [pvId]\<rparr>)
           else (Inl (MiningException (propName t @ '': property value count is out of range'')), t)))"

definition insertPropValueId ::
  "ustring list \<Rightarrow> prop_value_table \<Rightarrow> pvid result \<times> prop_value_table" where
  "insertPropValueId path t = insert_path path 0 t"

fun find_path :: "prop_value_table \<Rightarrow> ustring list \<Rightarrow> pvid \<Rightarrow> pvid" where
  "find_path t [] pvId = pvId"
| "find_path t (pathNode # rest) pvId =
     (case (childMapTable t ! unat pvId) pathNode of
        Some child \<Rightarrow> find_path t rest child
      | None \<Rightarrow> 0)"

definition propValueId :: "prop_value_table \<Rightarrow> ustring list \<Rightarrow> pvid" where
  "propValueId t path = find_path t path 0"

text \<open>
  The walk \<open>for (; pvId; pvId = parentIdVec_[pvId])\<close>: the ids it visits, from the leaf to the
  root; \<open>None\<close> when the walk does not end or leaves the vector.
\<close>

partial_function (option) parent_walk :: "pvid list \<Rightarrow> pvid \<Rightarrow> pvid list option" where
  "parent_walk parents pvId =
     (if pvId = 0 then Some []
      else Option.bind (vec_at parents (unat pvId))
        (\<lambda>p. Option.bind (parent_walk parents p) (\<lambda>ids. Some (pvId # ids))))"

definition getParentIds :: "prop_value_table \<Rightarrow> pvid \<Rightarrow> pvid list option" where
  "getParentIds t pvId = parent_walk (parentIdVec t) pvId"

definition getRootValueId :: "prop_value_table \<Rightarrow> pvid \<Rightarrow> pvid option" where
  "getRootValueId t pvId =
     map_option (\<lambda>ids. foldl (\<lambda>rootId i. i) 0 ids) (parent_walk (parentIdVec t) pvId)"

fun push_strs :: "prop_value_table \<Rightarrow> pvid list \<Rightarrow> ustring list option" where
  "push_strs t [] = Some []"
| "push_strs t (i # is) =
     (case propValueStr t i of
        None \<Rightarrow> None
      | Some s \<Rightarrow> map_option ((#) s) (push_strs t is))"

text \<open>\<open>propValuePath\<close> into an empty \<open>path\<close>: the strings from the leaf to the root, reversed.\<close>

definition propValuePath :: "prop_value_table \<Rightarrow> pvid \<Rightarrow> ustring list option" where
  "propValuePath t pvId =
     Option.bind (parent_walk (parentIdVec t) pvId) (\<lambda>ids. map_option rev (push_strs t ids))"

definition getFirstValueId :: "prop_value_table \<Rightarrow> docid \<Rightarrow> pvid option" where
  "getFirstValueId t docId =
     Option.bind (pid_getIdList (valueIdTable t) docId prop_id_list_init)
       (\<lambda>l. if il_size l = 0 then Some 0 else prop_id_list_at (valueIdTable t) l 0)"

text \<open>\<open>parentIdSet\<close>: the inner walk stops at an id that is already in the set.\<close>

partial_function (option) add_parents :: "pvid list \<Rightarrow> pvid \<Rightarrow> pvid set \<Rightarrow> pvid set option" where
  "add_parents parents pvId S =
     (if pvId = 0 \<or> pvId \<in> S then Some S
      else Option.bind (vec_at parents (unat pvId))
        (\<lambda>p. add_parents parents p (insert pvId S)))"

fun add_all_parents :: "pvid list \<Rightarrow> pvid list \<Rightarrow> pvid set \<Rightarrow> pvid set option" where
  "add_all_parents parents [] S = Some S"
| "add_all_parents parents (i # is) S =
     Option.bind (add_parents parents i S) (add_all_parents parents is)"

definition parentIdSet :: "prop_value_table \<Rightarrow> docid \<Rightarrow> pvid set option" where
  "parentIdSet t docId =
     Option.bind (pid_ids (valueIdTable t) docId)
       (\<lambda>ids. add_all_parents (parentIdVec t) ids {})"

definition testDoc :: "prop_value_table \<Rightarrow> docid \<Rightarrow> pvid \<Rightarrow> bool option" where
  "testDoc t docId labelId = map_option (\<lambda>S. labelId \<in> S) (parentIdSet t docId)"

definition pvt_clear :: "prop_value_table \<Rightarrow> prop_value_table" where
  "pvt_clear t = t\<lparr>propStrVec := vec_resize 1 [] (propStrVec t), savePropStrNum := 0,
     parentIdVec := vec_resize 1 0 (parentIdVec t), saveParentIdNum := 0,
     childMapTable := [Map.empty],
     valueIdTable := pid_clear (valueIdTable t), saveIndexNum := 0, saveValueNum := 0\<rparr>"

section \<open>Files\<close>

text \<open>
  What the table needs from outside: the archives of strings and of ids, whether the text file can
  be opened, and the conversion of a string to UTF-8.
\<close>

record pvt_io =
  io_str :: "ustring archive"
  io_id :: "u32 archive"
  io_text :: "file_key \<Rightarrow> bool"
  io_conv :: "ustring \<Rightarrow> bytes"

definition SUFFIX_PROP_STR :: string where "SUFFIX_PROP_STR = ''.prop_str.bin''"
definition SUFFIX_PARENT_ID :: string where "SUFFIX_PARENT_ID = ''.parent_id.bin''"
definition SUFFIX_INDEX_ID :: string where "SUFFIX_INDEX_ID = ''.index_id.bin''"
definition SUFFIX_VALUE_ID :: string where "SUFFIX_VALUE_ID = ''.value_id.bin''"
definition SUFFIX_PARENT_STR :: string where "SUFFIX_PARENT_STR = ''.parent_str.txt''"

lemmas suffix_defs = SUFFIX_PROP_STR_def SUFFIX_PARENT_ID_def SUFFIX_INDEX_ID_def
  SUFFIX_VALUE_ID_def SUFFIX_PARENT_STR_def

text \<open>The lines of the text file: id, string and parent id of the values \<open>1 \<dots> valueNum - 1\<close>.\<close>

definition parent_str_text :: "pvt_io \<Rightarrow> prop_value_table \<Rightarrow> nat \<Rightarrow> bytes" where
  "parent_str_text io t valueNum = concat (map (\<lambda>valueId.
     map of_char (show_nat valueId @ [CHR 0x09]) @ io_conv io (propStrVec t ! valueId) @
     map of_char (CHR 0x09 # show_nat (unat (parentIdVec t ! valueId)) @ [CHR 0x0A])) [1..<valueNum])"

definition saveParentId :: "pvt_io \<Rightarrow> file_key \<Rightarrow> prop_value_table \<Rightarrow> fstore \<Rightarrow> bool \<times> fstore" where
  "saveParentId io key t fs =
     (let valueNum = (of_nat (length (propStrVec t)) :: u32) in
      if unat valueNum \<noteq> length (parentIdVec t) then (False, fs)
      else if valueNum \<le> savePropStrNum t then (True, fs)
      else if \<not> io_text io key then (False, fs)
      else (True, fs(key \<mapsto> parent_str_text io t (unat valueNum))))"

definition pvt_flush ::
  "pvt_io \<Rightarrow> prop_value_table \<Rightarrow> fstore \<Rightarrow> bool \<times> prop_value_table \<times> fstore" where
  "pvt_flush io t fs =
     (let key = (\<lambda>suffix. (dirPath t, propName t @ suffix));
          (ok0, fs0) = saveParentId io (key SUFFIX_PARENT_STR) t fs in
      if \<not> ok0 then (False, t, fs0) else
      let (ok1, n1, fs1) = save_container_count (io_str io) (key SUFFIX_PROP_STR)
            (propStrVec t) (savePropStrNum t) fs0; t1 = t\<lparr>savePropStrNum := n1\<rparr> in
      if \<not> ok1 then (False, t1, fs1) else
      let (ok2, n2, fs2) = save_container_count (io_id io) (key SUFFIX_PARENT_ID)
            (parentIdVec t) (saveParentIdNum t) fs1; t2 = t1\<lparr>saveParentIdNum := n2\<rparr> in
      if \<not> ok2 then (False, t2, fs2) else
      let (ok3, n3, fs3) = save_container_count (io_id io) (key SUFFIX_INDEX_ID)
            (indexTable (valueIdTable t)) (saveIndexNum t) fs2; t3 = t2\<lparr>saveIndexNum := n3\<rparr> in
      if \<not> ok3 then (False, t3, fs3) else
      let (ok4, n4, fs4) = save_container_count (io_id io) (key SUFFIX_VALUE_ID)
            (multiValueTable (valueIdTable t)) (saveValueNum t) fs3; t4 = t3\<lparr>saveValueNum := n4\<rparr> in
      (ok4, t4, fs4))"

text \<open>The loop of \<open>open\<close> that rebuilds the child maps for the ids \<open>1, 2, \<dots>\<close>.\<close>

definition add_edge ::
  "ustring list \<Rightarrow> pvid list \<Rightarrow> (ustring \<rightharpoonup> pvid) list \<Rightarrow> nat \<Rightarrow> (ustring \<rightharpoonup> pvid) list" where
  "add_edge strs parents ch i =
     (let parentId = unat (parents ! i) in ch[parentId := (ch ! parentId)(strs ! i \<mapsto> of_nat i)])"

definition rebuild_children ::
  "nat \<Rightarrow> ustring list \<Rightarrow> pvid list \<Rightarrow> (ustring \<rightharpoonup> pvid) list" where
  "rebuild_children valueNum strs parents =
     foldl (add_edge strs parents) (replicate valueNum Map.empty) [1..<valueNum]"

definition pvt_open :: "pvt_io \<Rightarrow> prop_value_table \<Rightarrow> fstore \<Rightarrow> bool \<times> prop_value_table" where
  "pvt_open io t fs =
     (let key = (\<lambda>suffix. (dirPath t, propName t @ suffix));
          (ok1, v1, n1) = load_container_count (io_str io) (key SUFFIX_PROP_STR)
            (propStrVec t) (savePropStrNum t) fs;
          t1 = t\<lparr>propStrVec := v1, savePropStrNum := n1\<rparr> in
      if \<not> ok1 then (False, t1) else
      let (ok2, v2, n2) = load_container_count (io_id io) (key SUFFIX_PARENT_ID)
            (parentIdVec t) (saveParentIdNum t) fs;
          t2 = t1\<lparr>parentIdVec := v2, saveParentIdNum := n2\<rparr> in
      if \<not> ok2 then (False, t2) else
      let (ok3, v3, n3) = load_container_count (io_id io) (key SUFFIX_INDEX_ID)
            (indexTable (valueIdTable t)) (saveIndexNum t) fs;
          t3 = t2\<lparr>valueIdTable := (valueIdTable t)\<lparr>indexTable := v3\<rparr>, saveIndexNum := n3\<rparr> in
      if \<not> ok3 then (False, t3) else
      let (ok4, v4, n4) = load_container_count (io_id io) (key SUFFIX_VALUE_ID)
            (multiValueTable (valueIdTable t)) (saveValueNum t) fs;
          t4 = t3\<lparr>valueIdTable := (valueIdTable t3)\<lparr>multiValueTable := v4\<rparr>, saveValueNum := n4\<rparr> in
      if \<not> ok4 then (False, t4) else
      let valueNum = unat (of_nat (length v1) :: u32) in
      if valueNum \<noteq> length v2 then (False, t4)
      else (True, t4\<lparr>childMapTable := rebuild_children valueNum v1 v2\<rparr>))"

section \<open>Well-formedness\<close>

text \<open>
  Ids are dense, every parent has a smaller id than its children, and the child maps hold exactly
  the edges that the string and parent vectors describe.
\<close>

definition tree_wf :: "ustring list \<Rightarrow> pvid list \<Rightarrow> (ustring \<rightharpoonup> pvid) list \<Rightarrow> bool" where
  "tree_wf strs parents children \<longleftrightarrow>
     length parents = length strs \<and> length children = length strs \<and>
     0 < length strs \<and> length strs \<le> 2 ^ 32 \<and>
     (\<forall>i. 0 < i \<and> i < length strs \<longrightarrow> unat (parents ! i) < i) \<and>
     (\<forall>p < length strs. \<forall>s c. (children ! p) s = Some c \<longleftrightarrow>
        0 < unat c \<and> unat c < length strs \<and> unat (parents ! unat c) = p \<and> strs ! unat c = s)"

definition pvt_wf :: "prop_value_table \<Rightarrow> bool" where
  "pvt_wf t \<longleftrightarrow> tree_wf (propStrVec t) (parentIdVec t) (childMapTable t) \<and> pid_wf (valueIdTable t)"

lemma tree_wfD:
  assumes "tree_wf strs parents children"
  shows "length parents = length strs" "length children = length strs"
    "0 < length strs" "length strs \<le> 2 ^ 32"
    "0 < i \<Longrightarrow> i < length strs \<Longrightarrow> unat (parents ! i) < i"
    "p < length strs \<Longrightarrow> (children ! p) s = Some c \<longleftrightarrow>
      0 < unat c \<and> unat c < length strs \<and> unat (parents ! unat c) = p \<and> strs ! unat c = s"
  using assms unfolding tree_wf_def by auto

lemma pvt_init_wf [wf_intros]: "pvt_wf (pvt_init dir prop)"
  by (auto simp: pvt_wf_def pvt_init_def tree_wf_def pid_init_wf)

lemma tree_wf_add_child:
  assumes wf: "tree_wf strs parents children" and pv: "unat pv < length strs"
    and new: "(children ! unat pv) node = None" and n: "length strs < 2 ^ 32"
  shows "tree_wf (strs @ [node]) (parents @ [pv])
    (children[unat pv := (children ! unat pv)(node \<mapsto> of_nat (length strs))] @ [Map.empty])"
proof -
  let ?n = "length strs"
  let ?ch = "children[unat pv := (children ! unat pv)(node \<mapsto> of_nat ?n)] @ [Map.empty]"
  note D = tree_wfD [OF wf]
  have un: "unat (of_nat ?n :: u32) = ?n" using n by (rule unat_of_nat_u32)
  have c_n: "unat c = ?n \<longleftrightarrow> c = of_nat ?n" for c :: u32
    using un by (metis word_unat_eq_iff)
  have small: "unat (parents ! unat c) < ?n" if "0 < unat c" "unat c < ?n" for c :: u32
    using D(5) [OF that] that by simp
  have edge: "(?ch ! p) s = Some c \<longleftrightarrow> 0 < unat c \<and> unat c < Suc ?n \<and>
      unat ((parents @ [pv]) ! unat c) = p \<and> (strs @ [node]) ! unat c = s"
    if "p < Suc ?n" for p s c
  proof (cases "p = ?n")
    case True
    have "unat ((parents @ [pv]) ! unat c) \<noteq> ?n" if "0 < unat c" "unat c < Suc ?n"
      using that small [of c] pv D(1) by (cases "unat c = ?n") (auto simp: nth_append)
    then show ?thesis using True D(2) by (auto simp: nth_append)
  next
    case False
    with that have p: "p < ?n" by simp
    show ?thesis
    proof (cases "unat c = ?n")
      case True
      have c: "c = of_nat ?n" using True c_n by blast
      have "(children ! p) s \<noteq> Some c" using D(6) [OF p] True by simp
      then have "(?ch ! p) s = Some c \<longleftrightarrow> unat pv = p \<and> node = s"
        using p pv D(2) c by (auto simp: nth_append nth_list_update)
      then show ?thesis using True D(1,3) by (simp add: nth_append)
    next
      case False
      then have "c \<noteq> of_nat ?n" using un by auto
      then show ?thesis using False p pv new D(1-3) D(6) [OF p, of s c]
        by (auto simp: nth_append nth_list_update split: if_splits)
    qed
  qed
  have "unat ((parents @ [pv]) ! i) < i" if "0 < i" "i < Suc ?n" for i
    using that D(5) [of i] pv D(1) by (cases "i = ?n") (auto simp: nth_append)
  then show ?thesis
    unfolding tree_wf_def using D(1-3) n edge by simp
qed

section \<open>Paths and ids\<close>

fun lookup_path :: "(ustring \<rightharpoonup> pvid) list \<Rightarrow> ustring list \<Rightarrow> pvid \<Rightarrow> pvid option" where
  "lookup_path ch [] pv = Some pv"
| "lookup_path ch (s # ss) pv = Option.bind ((ch ! unat pv) s) (lookup_path ch ss)"

lemma lookup_path_single [simp]: "lookup_path ch [s] pv = (ch ! unat pv) s"
  by (cases "(ch ! unat pv) s") auto

lemma lookup_path_append:
  "lookup_path ch (ss @ ss') pv = Option.bind (lookup_path ch ss pv) (lookup_path ch ss')"
  by (induction ch ss pv rule: lookup_path.induct) (auto split: bind_splits)

lemma find_path_lookup:
  "find_path t ss pv = (case lookup_path (childMapTable t) ss pv of None \<Rightarrow> 0 | Some r \<Rightarrow> r)"
  by (induction t ss pv rule: find_path.induct) (auto split: option.splits)

lemma lookup_path_range:
  assumes "tree_wf strs parents ch"
  shows "unat pv < length strs \<Longrightarrow> lookup_path ch ss pv = Some r \<Longrightarrow> unat r < length strs"
proof (induction ss arbitrary: pv)
  case (Cons s ss)
  then obtain q where q: "(ch ! unat pv) s = Some q" "lookup_path ch ss q = Some r"
    by (auto simp: bind_eq_Some_conv)
  then have "unat q < length strs" using tree_wfD(6) [OF assms Cons.prems(1)] by blast
  then show ?case using q Cons.IH by blast
qed simp

lemma lookup_path_nonzero:
  assumes "tree_wf strs parents ch" "unat pv < length strs" "lookup_path ch ss pv = Some r" "ss \<noteq> []"
  shows "r \<noteq> 0"
proof -
  obtain ss' s where ss: "ss = ss' @ [s]" using assms(4) by (cases ss rule: rev_cases) auto
  then obtain q where q: "lookup_path ch ss' pv = Some q" "(ch ! unat q) s = Some r"
    using assms(3) by (auto simp: lookup_path_append bind_eq_Some_conv)
  then have "unat q < length strs" using lookup_path_range assms by blast
  then show ?thesis using q tree_wfD(6) [OF assms(1)] by force
qed

lemma propValuePath_0: "propValuePath t 0 = Some []"
  by (simp add: propValuePath_def parent_walk.simps)

lemma parent_walk_total:
  assumes "tree_wf strs parents ch"
  shows "unat r < length strs \<Longrightarrow>
    \<exists>ids. parent_walk parents r = Some ids \<and> (\<forall>i\<in>set ids. i \<noteq> 0 \<and> unat i \<le> unat r)"
proof (induction "unat r" arbitrary: r rule: less_induct)
  case less
  show ?case
  proof (cases "r = 0")
    case True
    then show ?thesis by (simp add: parent_walk.simps)
  next
    case False
    then have pos: "0 < unat r" by (simp add: unat_gt_0)
    let ?p = "parents ! unat r"
    have lt: "unat ?p < unat r" using tree_wfD(5) [OF assms pos less.prems] .
    then obtain ids where "parent_walk parents ?p = Some ids"
      "\<forall>i\<in>set ids. i \<noteq> 0 \<and> unat i \<le> unat ?p" using less by fastforce
    then show ?thesis using False less.prems tree_wfD(1) [OF assms] lt
      by (subst parent_walk.simps) auto
  qed
qed

lemma push_strs_total:
  "\<forall>i\<in>set ids. unat i < length (propStrVec t) \<Longrightarrow>
     push_strs t ids = Some (map (\<lambda>i. propStrVec t ! unat i) ids)"
  by (induction ids) (auto simp: propValueStr_def)

lemma propValuePath_step:
  assumes wf: "pvt_wf t" and r: "r \<noteq> 0" "unat r < length (propStrVec t)"
  shows "propValuePath t r =
    map_option (\<lambda>p. p @ [propStrVec t ! unat r]) (propValuePath t (parentIdVec t ! unat r))"
proof -
  have tw: "tree_wf (propStrVec t) (parentIdVec t) (childMapTable t)"
    using wf by (simp add: pvt_wf_def)
  let ?p = "parentIdVec t ! unat r"
  have "unat ?p < unat r" using tree_wfD(5) [OF tw] r by (simp add: unat_gt_0)
  then obtain ids where ids: "parent_walk (parentIdVec t) ?p = Some ids"
    "\<forall>i\<in>set ids. unat i < length (propStrVec t)"
    using parent_walk_total [OF tw, of ?p] r by fastforce
  have "parent_walk (parentIdVec t) r = Some (r # ids)"
    using r ids tree_wfD(1) [OF tw] by (subst parent_walk.simps) simp
  then show ?thesis using ids r by (simp add: propValuePath_def push_strs_total propValueStr_def)
qed

lemma path_of_id:
  assumes wf: "pvt_wf t"
  shows "unat r < length (propStrVec t) \<Longrightarrow>
    \<exists>path. propValuePath t r = Some path \<and> lookup_path (childMapTable t) path 0 = Some r"
proof (induction "unat r" arbitrary: r rule: less_induct)
  case less
  have tw: "tree_wf (propStrVec t) (parentIdVec t) (childMapTable t)"
    using wf by (simp add: pvt_wf_def)
  show ?case
  proof (cases "r = 0")
    case False
    let ?p = "parentIdVec t ! unat r"
    have lt: "unat ?p < unat r"
      using tree_wfD(5) [OF tw] False less.prems by (simp add: unat_gt_0)
    then obtain path where path: "propValuePath t ?p = Some path"
      "lookup_path (childMapTable t) path 0 = Some ?p" using less by fastforce
    have "(childMapTable t ! unat ?p) (propStrVec t ! unat r) = Some r"
      using tree_wfD(6) [OF tw] lt less.prems False by (simp add: unat_gt_0)
    then show ?thesis using path propValuePath_step [OF wf False less.prems]
      by (auto simp: lookup_path_append)
  qed (auto simp: propValuePath_0)
qed

lemma id_of_path:
  assumes wf: "pvt_wf t"
  shows "lookup_path (childMapTable t) path 0 = Some r \<Longrightarrow> propValuePath t r = Some path"
proof (induction path arbitrary: r rule: rev_induct)
  case Nil
  then show ?case by (simp add: propValuePath_0)
next
  case (snoc s ss)
  have tw: "tree_wf (propStrVec t) (parentIdVec t) (childMapTable t)"
    using wf by (simp add: pvt_wf_def)
  from snoc.prems obtain q where q: "lookup_path (childMapTable t) ss 0 = Some q"
    "(childMapTable t ! unat q) s = Some r"
    by (auto simp: lookup_path_append bind_eq_Some_conv)
  have "unat q < length (propStrVec t)"
    using lookup_path_range [OF tw _ q(1)] tree_wfD(3) [OF tw] by simp
  then have e: "0 < unat r" "unat r < length (propStrVec t)" "unat (parentIdVec t ! unat r) = unat q"
    "propStrVec t ! unat r = s" using tree_wfD(6) [OF tw] q(2) by blast+
  then have "parentIdVec t ! unat r = q" "r \<noteq> 0" by (auto simp: word_unat_eq_iff)
  then show ?case using propValuePath_step [OF wf _ e(2)] snoc.IH [OF q(1)] e by simp
qed

section \<open>Insertion\<close>

text \<open>A table that only grew: ids, strings and parents of old entries are kept.\<close>

definition pvt_extends :: "prop_value_table \<Rightarrow> prop_value_table \<Rightarrow> bool" where
  "pvt_extends t t' \<longleftrightarrow>
     (\<exists>ss ps. propStrVec t' = propStrVec t @ ss \<and> parentIdVec t' = parentIdVec t @ ps) \<and>
     (\<forall>p < length (childMapTable t). childMapTable t ! p \<subseteq>\<^sub>m childMapTable t' ! p) \<and>
     length (childMapTable t) \<le> length (childMapTable t') \<and>
     valueIdTable t' = valueIdTable t \<and> dirPath t' = dirPath t \<and> propName t' = propName t \<and>
     savePropStrNum t' = savePropStrNum t \<and> saveParentIdNum t' = saveParentIdNum t \<and>
     saveIndexNum t' = saveIndexNum t \<and> saveValueNum t' = saveValueNum t"

lemma pvt_extends_refl [simp]: "pvt_extends t t"
  by (simp add: pvt_extends_def)

lemma pvt_extends_trans:
  assumes "pvt_extends t u" "pvt_extends u v"
  shows "pvt_extends t v"
proof -
  have "childMapTable t ! p \<subseteq>\<^sub>m childMapTable v ! p" if "p < length (childMapTable t)" for p
    using assms that unfolding pvt_extends_def by (meson map_le_trans less_le_trans)
  moreover have "\<exists>ss ps. propStrVec v = propStrVec t @ ss \<and> parentIdVec v = parentIdVec t @ ps"
    using assms by (auto simp: pvt_extends_def)
  ultimately show ?thesis using assms by (simp add: pvt_extends_def)
qed

lemma lookup_path_mono:
  assumes "pvt_extends t t'" "tree_wf (propStrVec t) (parentIdVec t) (childMapTable t)"
  shows "unat pv < length (propStrVec t) \<Longrightarrow> lookup_path (childMapTable t) ss pv = Some r \<Longrightarrow>
    lookup_path (childMapTable t') ss pv = Some r"
proof (induction ss arbitrary: pv)
  case (Cons s ss)
  then obtain q where q: "(childMapTable t ! unat pv) s = Some q"
    "lookup_path (childMapTable t) ss q = Some r" by (auto simp: bind_eq_Some_conv)
  have pv: "unat pv < length (childMapTable t)" using Cons.prems tree_wfD(2) [OF assms(2)] by simp
  have "(childMapTable t' ! unat pv) s = Some q"
    using assms(1) pv q(1) by (auto simp: pvt_extends_def map_le_def dom_def)
  moreover have "unat q < length (propStrVec t)"
    using tree_wfD(6) [OF assms(2) Cons.prems(1)] q(1) by blast
  ultimately show ?case using Cons.IH q(2) by simp
qed simp

definition add_node :: "ustring \<Rightarrow> pvid \<Rightarrow> prop_value_table \<Rightarrow> prop_value_table" where
  "add_node node pv t = t\<lparr>
     childMapTable := (childMapTable t)[unat pv := (childMapTable t ! unat pv)
       (node \<mapsto> of_nat (length (propStrVec t)))] @ [Map.empty],
     propStrVec := propStrVec t @ [node], parentIdVec := parentIdVec t @ [pv]\<rparr>"

lemma add_node_extends:
  assumes "unat pv < length (childMapTable t)" "(childMapTable t ! unat pv) node = None"
  shows "pvt_extends t (add_node node pv t)"
  using assms by (auto simp: pvt_extends_def add_node_def nth_append nth_list_update map_le_def)

text \<open>
  The insertion either finds or creates every node of the path; the id it returns is the one the
  lookup then finds, and everything that was in the table stays.
\<close>

lemma insert_path_correct:
  assumes "pvt_wf t" "unat pv < length (propStrVec t)"
  shows "case insert_path path pv t of (r, t') \<Rightarrow> pvt_wf t' \<and> pvt_extends t t' \<and>
    (\<forall>i. r = Inr i \<longrightarrow> lookup_path (childMapTable t') path pv = Some i) \<and>
    (\<forall>e. r = Inl e \<longrightarrow> length (propStrVec t') = 2 ^ 32)"
  using assms
proof (induction path pv t rule: insert_path.induct)
  case (1 pv t)
  then show ?case by simp
next
  case (2 node rest pv t)
  let ?m = "childMapTable t ! unat pv"
  have tw: "tree_wf (propStrVec t) (parentIdVec t) (childMapTable t)"
    using "2.prems"(1) by (simp add: pvt_wf_def)
  note D = tree_wfD [OF tw]
  show ?case
  proof (cases "?m node")
    case (Some child)
    then have c: "unat child < length (propStrVec t)" using D(6) [OF "2.prems"(2)] by blast
    obtain r t' where ins: "insert_path rest child t = (r, t')" by fastforce
    note IH = "2.IH"(2) [OF refl Some "2.prems"(1) c]
    have "pvt_extends t t'" using IH ins by simp
    then have "(childMapTable t' ! unat pv) node = Some child"
      using lookup_path_mono [OF _ tw "2.prems"(2), of t' "[node]" child] Some by (simp del: lookup_path.simps)
    then show ?thesis using IH ins Some by simp
  next
    case None
    let ?new = "of_nat (length (propStrVec t)) :: u32"
    show ?thesis
    proof (cases "?new = 0")
      case True
      then have "length (propStrVec t) = 2 ^ 32"
        using of_nat_u32_eq_0_iff [OF D(4)] D(3) by auto
      then show ?thesis using None True "2.prems" by (simp add: Let_def)
    next
      case False
      then have n: "length (propStrVec t) < 2 ^ 32" using D(4) by (cases "length (propStrVec t) = 2 ^ 32") auto
      let ?u = "add_node node pv t"
      have wu: "pvt_wf ?u"
        using tree_wf_add_child [OF tw "2.prems"(2) None n] "2.prems"(1)
        by (simp add: pvt_wf_def add_node_def)
      have ext: "pvt_extends t ?u" using D(2) None "2.prems"(2) by (intro add_node_extends) simp_all
      have ru: "unat ?new < length (propStrVec ?u)"
        using n by (simp add: add_node_def unat_of_nat_u32)
      obtain r t' where ins: "insert_path rest ?new ?u = (r, t')" by fastforce
      have eq: "insert_path (node # rest) pv t = (r, t')"
        using None False ins by (simp add: Let_def add_node_def)
      note IH = "2.IH"(1) [OF refl None refl False, folded add_node_def, OF wu ru]
      have e2: "pvt_extends ?u t'" using IH unfolding ins by simp
      have "(childMapTable ?u ! unat pv) node = Some ?new"
        using "2.prems"(2) D(2) by (simp add: add_node_def nth_append)
      moreover have "unat pv < length (propStrVec ?u)" using "2.prems"(2) by (simp add: add_node_def)
      ultimately have "(childMapTable t' ! unat pv) node = Some ?new"
        using lookup_path_mono [OF e2, of pv "[node]" ?new] wu
        by (simp add: pvt_wf_def del: lookup_path.simps)
      then have "lookup_path (childMapTable t') (node # rest) pv = lookup_path (childMapTable t') rest ?new"
        by simp
      moreover have "pvt_extends t t'" using ext e2 by (rule pvt_extends_trans)
      ultimately show ?thesis using IH unfolding ins eq by (simp del: lookup_path.simps)
    qed
  qed
qed

lemma insert_path_known:
  "lookup_path (childMapTable t) path pv = Some r \<Longrightarrow> insert_path path pv t = (Inr r, t)"
  by (induction path pv t rule: insert_path.induct) (auto simp: bind_eq_Some_conv)

lemma propValueId_lookup:
  "propValueId t path = (case lookup_path (childMapTable t) path 0 of None \<Rightarrow> 0 | Some r \<Rightarrow> r)"
  by (simp add: propValueId_def find_path_lookup)

lemma pvt_root_in_range: "pvt_wf t \<Longrightarrow> unat (0 :: u32) < length (propStrVec t)"
  using tree_wfD(3) by (auto simp: pvt_wf_def)

section \<open>Ancestors\<close>

text \<open>The ids on the way from a value to its root, as a set.\<close>

definition ancestors :: "prop_value_table \<Rightarrow> pvid \<Rightarrow> pvid set" where
  "ancestors t i = (case parent_walk (parentIdVec t) i of None \<Rightarrow> {} | Some is \<Rightarrow> set is)"

lemma ancestors_0 [simp]: "ancestors t 0 = {}"
  by (simp add: ancestors_def parent_walk.simps)

lemma pvt_wf_tree: "pvt_wf t \<Longrightarrow> tree_wf (propStrVec t) (parentIdVec t) (childMapTable t)"
  by (simp add: pvt_wf_def)

lemma ancestors_step:
  assumes "pvt_wf t" "i \<noteq> 0" "unat i < length (propStrVec t)"
  shows "ancestors t i = insert i (ancestors t (parentIdVec t ! unat i))"
    and "unat (parentIdVec t ! unat i) < unat i"
proof -
  note tw = pvt_wf_tree [OF assms(1)]
  show lt: "unat (parentIdVec t ! unat i) < unat i"
    using tree_wfD(5) [OF tw] assms(2,3) by (simp add: unat_gt_0)
  then obtain ids where "parent_walk (parentIdVec t) (parentIdVec t ! unat i) = Some ids"
    using parent_walk_total [OF tw, of "parentIdVec t ! unat i"] assms(3) by auto
  then show "ancestors t i = insert i (ancestors t (parentIdVec t ! unat i))"
    using assms tree_wfD(1) [OF tw]
    by (simp add: ancestors_def parent_walk.simps [of "parentIdVec t" i])
qed

definition anc_closed :: "prop_value_table \<Rightarrow> pvid set \<Rightarrow> bool" where
  "anc_closed t S \<longleftrightarrow> (\<forall>i\<in>S. ancestors t i \<subseteq> S)"

lemma ancestors_trans:
  assumes "pvt_wf t"
  shows "unat i < length (propStrVec t) \<Longrightarrow> anc_closed t (ancestors t i)"
proof (induction "unat i" arbitrary: i rule: less_induct)
  case less
  show ?case
  proof (cases "i = 0")
    case False
    note st = ancestors_step [OF assms False less.prems]
    have "anc_closed t (ancestors t (parentIdVec t ! unat i))"
      using less st(2) by simp
    then show ?thesis unfolding anc_closed_def st(1) using st(1) by blast
  qed (simp add: anc_closed_def)
qed

text \<open>
  The walk that stops early adds exactly the ancestors: \<open>S\<close> is closed under ancestors, and \<open>C\<close>
  are the ids above the current one that this walk has already inserted.
\<close>

lemma add_parents_correct:
  assumes wf: "pvt_wf t" and closed: "anc_closed t S"
  shows "unat i < length (propStrVec t) \<Longrightarrow> \<forall>c\<in>C. unat i < unat c \<Longrightarrow>
    add_parents (parentIdVec t) i (S \<union> C) = Some (S \<union> C \<union> ancestors t i)"
proof (induction "unat i" arbitrary: i C rule: less_induct)
  case less
  show ?case
  proof (cases "i = 0 \<or> i \<in> S \<union> C")
    case True
    moreover have "i \<notin> C" using less.prems(2) by auto
    ultimately have "i = 0 \<or> i \<in> S" by blast
    then have "ancestors t i \<subseteq> S" using closed by (auto simp: anc_closed_def)
    then show ?thesis using True by (subst add_parents.simps) auto
  next
    case False
    then have nz: "i \<noteq> 0" by simp
    note st = ancestors_step [OF wf nz less.prems(1)]
    let ?p = "parentIdVec t ! unat i"
    have "add_parents (parentIdVec t) ?p (S \<union> insert i C) = Some (S \<union> insert i C \<union> ancestors t ?p)"
      using less.hyps [OF st(2), of "insert i C"] less.prems st(2) by fastforce
    then show ?thesis using False less.prems tree_wfD(1) [OF pvt_wf_tree [OF wf]] st(1)
      by (subst add_parents.simps) simp
  qed
qed

lemma add_all_parents_correct:
  assumes wf: "pvt_wf t"
  shows "anc_closed t S \<Longrightarrow> \<forall>i\<in>set is. unat i < length (propStrVec t) \<Longrightarrow>
    add_all_parents (parentIdVec t) is S = Some (S \<union> (\<Union>i\<in>set is. ancestors t i))"
proof (induction "is" arbitrary: S)
  case (Cons i "is")
  have "add_parents (parentIdVec t) i S = Some (S \<union> ancestors t i)"
    using add_parents_correct [OF wf Cons.prems(1), of i "{}"] Cons.prems(2) by simp
  moreover have "anc_closed t (S \<union> ancestors t i)"
    using Cons.prems ancestors_trans [OF wf, of i] by (auto simp: anc_closed_def)
  ultimately show ?case using Cons by (simp add: Un_assoc)
qed simp

text \<open>A table all of whose documents carry ids of existing values.\<close>

definition docs_valid :: "prop_value_table \<Rightarrow> bool" where
  "docs_valid t \<longleftrightarrow> (\<forall>d ids. pid_ids (valueIdTable t) d = Some ids \<longrightarrow>
     (\<forall>i\<in>set ids. unat i < length (propStrVec t)))"

lemma testDoc_correct:
  assumes "pvt_wf t" "docs_valid t" "pid_ids (valueIdTable t) d = Some ids"
  shows "testDoc t d l = Some (\<exists>i\<in>set ids. l \<in> ancestors t i)"
proof -
  have "\<forall>i\<in>set ids. unat i < length (propStrVec t)" using assms by (auto simp: docs_valid_def)
  then show ?thesis using assms add_all_parents_correct [of t "{}" ids]
    by (simp add: testDoc_def parentIdSet_def anc_closed_def)
qed

text \<open>The ids of the ancestors are those of the prefixes of the value's path.\<close>

lemma ancestors_prefix:
  assumes wf: "pvt_wf t"
  shows "lookup_path (childMapTable t) path 0 = Some i \<Longrightarrow>
    l \<in> ancestors t i \<longleftrightarrow> l \<noteq> 0 \<and> (\<exists>k \<le> length path. lookup_path (childMapTable t) (take k path) 0 = Some l)"
proof (induction path arbitrary: i rule: rev_induct)
  case Nil
  then show ?case by auto
next
  case (snoc s ss)
  note tw = pvt_wf_tree [OF wf]
  from snoc.prems obtain q where q: "lookup_path (childMapTable t) ss 0 = Some q"
    "(childMapTable t ! unat q) s = Some i"
    by (auto simp: lookup_path_append bind_eq_Some_conv)
  have "unat q < length (propStrVec t)"
    using lookup_path_range [OF tw pvt_root_in_range [OF wf] q(1)] .
  then have e: "0 < unat i" "unat i < length (propStrVec t)" "unat (parentIdVec t ! unat i) = unat q"
    using tree_wfD(6) [OF tw] q(2) by blast+
  then have nz: "i \<noteq> 0" and p: "parentIdVec t ! unat i = q" by (auto simp: word_unat_eq_iff)
  have "l \<in> ancestors t i \<longleftrightarrow> l = i \<or> l \<in> ancestors t q"
    using ancestors_step(1) [OF wf nz e(2)] p by simp
  also have "\<dots> \<longleftrightarrow> l = i \<or> l \<noteq> 0 \<and> (\<exists>k \<le> length ss. lookup_path (childMapTable t) (take k ss) 0 = Some l)"
    using snoc.IH [OF q(1)] by simp
  also have "\<dots> \<longleftrightarrow> l \<noteq> 0 \<and> (\<exists>k \<le> length (ss @ [s]). lookup_path (childMapTable t) (take k (ss @ [s])) 0 = Some l)"
    using nz snoc.prems by (auto simp: le_Suc_eq)
  finally show ?case .
qed

section \<open>Saving and reopening\<close>

text \<open>The child maps are a function of the strings and the parents.\<close>

definition edges_upto :: "nat \<Rightarrow> ustring list \<Rightarrow> pvid list \<Rightarrow> nat \<Rightarrow> (ustring \<rightharpoonup> pvid) \<Rightarrow> bool" where
  "edges_upto m strs parents p f \<longleftrightarrow> (\<forall>s c. f s = Some c \<longleftrightarrow>
     0 < unat c \<and> unat c < m \<and> unat (parents ! unat c) = p \<and> strs ! unat c = s)"

lemma edges_upto_step:
  assumes "edges_upto m strs parents p f" "0 < m" "m < 2 ^ 32"
    and uniq: "\<And>i. 0 < i \<Longrightarrow> i < m \<Longrightarrow> unat (parents ! i) = unat (parents ! m) \<Longrightarrow> strs ! i \<noteq> strs ! m"
  shows "edges_upto (Suc m) strs parents p
    (if unat (parents ! m) = p then f(strs ! m \<mapsto> of_nat m) else f)"
proof -
  have um: "unat (of_nat m :: u32) = m" using assms(3) by (rule unat_of_nat_u32)
  have lt: "unat c < Suc m \<longleftrightarrow> unat c < m \<or> c = of_nat m" for c :: u32
    using um by (metis less_Suc_eq word_unat_eq_iff)
  have E: "f s = Some c \<longleftrightarrow> 0 < unat c \<and> unat c < m \<and> unat (parents ! unat c) = p \<and> strs ! unat c = s"
    for s c using assms(1) unfolding edges_upto_def by (elim allE)
  have f1: "f s \<noteq> Some (of_nat m)" for s
    unfolding E um by simp
  have f2: "f (strs ! m) = None" if p: "unat (parents ! m) = p"
  proof (cases "f (strs ! m)")
    case (Some c)
    then show ?thesis using uniq [of "unat c"] p unfolding E by simp
  qed
  let ?g = "if unat (parents ! m) = p then f(strs ! m \<mapsto> of_nat m) else f"
  have "?g s = Some c \<longleftrightarrow>
      0 < unat c \<and> unat c < Suc m \<and> unat (parents ! unat c) = p \<and> strs ! unat c = s" for s c
  proof (cases "c = of_nat m")
    case True
    have "f s \<noteq> Some c" using f1 True by simp
    then show ?thesis unfolding True um using assms(2) True by simp
  next
    case False
    then have "unat c < Suc m \<longleftrightarrow> unat c < m" using lt by simp
    moreover have "?g s = Some c \<longleftrightarrow> f s = Some c" using f2 False by (cases "s = strs ! m") simp_all
    ultimately show ?thesis using E by simp
  qed
  then show ?thesis unfolding edges_upto_def by blast
qed

lemma tree_wf_unique:
  assumes "tree_wf strs parents ch" "0 < i" "i < length strs" "0 < j" "j < length strs"
    and "unat (parents ! i) = unat (parents ! j)" "strs ! i = strs ! j"
  shows "i = j"
proof -
  have b: "length strs \<le> 2 ^ 32" using tree_wfD(4) [OF assms(1)] .
  have ij: "unat (of_nat i :: u32) = i" "unat (of_nat j :: u32) = j"
    using assms b by (auto intro!: unat_of_nat_u32)
  have "unat (parents ! i) < length strs"
    using tree_wfD(5) [OF assms(1-3)] assms(3) by simp
  note E = tree_wfD(6) [OF assms(1) this, of "strs ! i"]
  have "(ch ! unat (parents ! i)) (strs ! i) = Some (of_nat i)"
    using E [of "of_nat i"] ij assms by simp
  moreover have "(ch ! unat (parents ! i)) (strs ! i) = Some (of_nat j)"
    using E [of "of_nat j"] ij assms by simp
  ultimately show ?thesis using ij by (metis option.inject)
qed

lemma length_add_edge [simp]: "length (add_edge strs parents r m) = length r"
  by (simp add: add_edge_def Let_def)

lemma add_edge_nth:
  "unat (parents ! m) < length r \<Longrightarrow> add_edge strs parents r m ! p =
     (if unat (parents ! m) = p then (r ! p)(strs ! m \<mapsto> of_nat m) else r ! p)"
  by (simp add: add_edge_def Let_def nth_list_update)

lemma rebuild_prefix:
  assumes wf: "tree_wf strs parents ch" and n: "length strs < 2 ^ 32"
  shows "0 < m \<Longrightarrow> m \<le> length strs \<Longrightarrow>
    (let r = foldl (add_edge strs parents) (replicate (length strs) Map.empty) [1..<m] in length r = length strs \<and> (\<forall>p < length strs. edges_upto m strs parents p (r ! p)))"
proof (induction m rule: nat_induct_non_zero)
  case 1
  then show ?case by (auto simp: edges_upto_def)
next
  case (Suc m)
  let ?r = "foldl (add_edge strs parents) (replicate (length strs) Map.empty) [1..<m]"
  have IH: "length ?r = length strs" "\<And>p. p < length strs \<Longrightarrow> edges_upto m strs parents p (?r ! p)"
    using Suc by (auto simp: Let_def)
  have pm: "unat (parents ! m) < length strs"
    using tree_wfD(5) [OF wf, of m] Suc by simp
  have "edges_upto (Suc m) strs parents p
      (if unat (parents ! m) = p then (?r ! p)(strs ! m \<mapsto> of_nat m) else ?r ! p)"
    if "p < length strs" for p
  proof (rule edges_upto_step [OF IH(2) [OF that]])
    show "0 < m" "m < 2 ^ 32" using Suc n by auto
    show "strs ! i \<noteq> strs ! m"
      if "0 < i" "i < m" "unat (parents ! i) = unat (parents ! m)" for i
      using tree_wf_unique [OF wf, of i m] that Suc by auto
  qed
  moreover have eq: "foldl (add_edge strs parents) (replicate (length strs) Map.empty) [1..<Suc m] =
      add_edge strs parents ?r m" using Suc.hyps by simp
  ultimately show ?case using pm unfolding eq Let_def
    by (simp only: add_edge_nth length_add_edge IH(1)) simp
qed

lemma rebuild_children_eq:
  assumes wf: "tree_wf strs parents ch" and n: "length strs < 2 ^ 32"
  shows "rebuild_children (length strs) strs parents = ch"
proof -
  note D = tree_wfD [OF wf]
  have R: "length (rebuild_children (length strs) strs parents) = length strs"
    "\<forall>p < length strs. edges_upto (length strs) strs parents p (rebuild_children (length strs) strs parents ! p)"
    using rebuild_prefix [OF wf n D(3) order_refl] by (auto simp: rebuild_children_def Let_def)
  have "rebuild_children (length strs) strs parents ! p = ch ! p" if p: "p < length strs" for p
  proof (rule ext)
    fix s
    have "(rebuild_children (length strs) strs parents ! p) s = Some c \<longleftrightarrow> (ch ! p) s = Some c" for c
      using R(2) p D(6) [OF p] by (auto simp: edges_upto_def)
    then show "(rebuild_children (length strs) strs parents ! p) s = (ch ! p) s"
      by (metis not_Some_eq)
  qed
  then show ?thesis using R(1) D(2) by (auto intro: nth_equalityI)
qed

text \<open>
  The files agree with the table wherever the saved counts say so (the state of a table that was
  created empty or opened, and then only extended).
\<close>

definition pvt_stored :: "pvt_io \<Rightarrow> prop_value_table \<Rightarrow> fstore \<Rightarrow> bool" where
  "pvt_stored io t fs \<longleftrightarrow>
     stored (io_str io) (dirPath t, propName t @ SUFFIX_PROP_STR) [[]] (propStrVec t) (savePropStrNum t) fs \<and>
     stored (io_id io) (dirPath t, propName t @ SUFFIX_PARENT_ID) [0] (parentIdVec t) (saveParentIdNum t) fs \<and>
     stored (io_id io) (dirPath t, propName t @ SUFFIX_INDEX_ID) [0] (indexTable (valueIdTable t)) (saveIndexNum t) fs \<and>
     stored (io_id io) (dirPath t, propName t @ SUFFIX_VALUE_ID) [] (multiValueTable (valueIdTable t)) (saveValueNum t) fs"

lemma saveParentId_frame:
  "saveParentId io key t fs = (ok, fs') \<Longrightarrow> key' \<noteq> key \<Longrightarrow> fs' key' = fs key'"
  by (auto simp: saveParentId_def Let_def split: if_splits)

lemma flush_steps:
  assumes "pvt_flush io t fs = (True, t', fs')"
  obtains fs0 n1 fs1 n2 fs2 n3 fs3 n4 where
    "saveParentId io (dirPath t, propName t @ SUFFIX_PARENT_STR) t fs = (True, fs0)"
    "save_container_count (io_str io) (dirPath t, propName t @ SUFFIX_PROP_STR)
       (propStrVec t) (savePropStrNum t) fs0 = (True, n1, fs1)"
    "save_container_count (io_id io) (dirPath t, propName t @ SUFFIX_PARENT_ID)
       (parentIdVec t) (saveParentIdNum t) fs1 = (True, n2, fs2)"
    "save_container_count (io_id io) (dirPath t, propName t @ SUFFIX_INDEX_ID)
       (indexTable (valueIdTable t)) (saveIndexNum t) fs2 = (True, n3, fs3)"
    "save_container_count (io_id io) (dirPath t, propName t @ SUFFIX_VALUE_ID)
       (multiValueTable (valueIdTable t)) (saveValueNum t) fs3 = (True, n4, fs')"
proof -
  let ?key = "\<lambda>suffix. (dirPath t, propName t @ suffix)"
  obtain ok0 fs0 where 0: "saveParentId io (?key SUFFIX_PARENT_STR) t fs = (ok0, fs0)" by fastforce
  obtain ok1 n1 fs1 where 1: "save_container_count (io_str io) (?key SUFFIX_PROP_STR)
      (propStrVec t) (savePropStrNum t) fs0 = (ok1, n1, fs1)" by (metis surj_pair)
  obtain ok2 n2 fs2 where 2: "save_container_count (io_id io) (?key SUFFIX_PARENT_ID)
      (parentIdVec t) (saveParentIdNum t) fs1 = (ok2, n2, fs2)" by (metis surj_pair)
  obtain ok3 n3 fs3 where 3: "save_container_count (io_id io) (?key SUFFIX_INDEX_ID)
      (indexTable (valueIdTable t)) (saveIndexNum t) fs2 = (ok3, n3, fs3)" by (metis surj_pair)
  obtain ok4 n4 fs4 where 4: "save_container_count (io_id io) (?key SUFFIX_VALUE_ID)
      (multiValueTable (valueIdTable t)) (saveValueNum t) fs3 = (ok4, n4, fs4)" by (metis surj_pair)
  have "ok0 \<and> ok1 \<and> ok2 \<and> ok3 \<and> ok4 \<and> fs4 = fs'"
    using assms by (simp add: pvt_flush_def Let_def 0 1 2 3 4 split: if_splits)
  then show thesis using that 0 1 2 3 4 by simp
qed

lemma flush_files:
  assumes fl: "pvt_flush io t fs = (True, t', fs')" and st: "pvt_stored io t fs"
    and ar: "faithful_archive (io_str io)" "faithful_archive (io_id io)"
  shows "load_container (io_str io) (dirPath t, propName t @ SUFFIX_PROP_STR) [[]] fs' = (True, propStrVec t)"
    "load_container (io_id io) (dirPath t, propName t @ SUFFIX_PARENT_ID) [0] fs' = (True, parentIdVec t)"
    "load_container (io_id io) (dirPath t, propName t @ SUFFIX_INDEX_ID) [0] fs' = (True, indexTable (valueIdTable t))"
    "load_container (io_id io) (dirPath t, propName t @ SUFFIX_VALUE_ID) [] fs' = (True, multiValueTable (valueIdTable t))"
proof -
  from fl obtain fs0 n1 fs1 n2 fs2 n3 fs3 n4 where
    s: "saveParentId io (dirPath t, propName t @ SUFFIX_PARENT_STR) t fs = (True, fs0)"
      "save_container_count (io_str io) (dirPath t, propName t @ SUFFIX_PROP_STR)
         (propStrVec t) (savePropStrNum t) fs0 = (True, n1, fs1)"
      "save_container_count (io_id io) (dirPath t, propName t @ SUFFIX_PARENT_ID)
         (parentIdVec t) (saveParentIdNum t) fs1 = (True, n2, fs2)"
      "save_container_count (io_id io) (dirPath t, propName t @ SUFFIX_INDEX_ID)
         (indexTable (valueIdTable t)) (saveIndexNum t) fs2 = (True, n3, fs3)"
      "save_container_count (io_id io) (dirPath t, propName t @ SUFFIX_VALUE_ID)
         (multiValueTable (valueIdTable t)) (saveValueNum t) fs3 = (True, n4, fs')"
    by (rule flush_steps)
  let ?key = "\<lambda>suffix. (dirPath t, propName t @ suffix)"
  note S = conjunct1 [OF st [unfolded pvt_stored_def]]
    conjunct1 [OF conjunct2 [OF st [unfolded pvt_stored_def]]]
    conjunct1 [OF conjunct2 [OF conjunct2 [OF st [unfolded pvt_stored_def]]]]
    conjunct2 [OF conjunct2 [OF conjunct2 [OF st [unfolded pvt_stored_def]]]]
  note F0 = saveParentId_frame [OF s(1)]
  note F1 = save_container_count_frame [OF s(2)]
  note F2 = save_container_count_frame [OF s(3)]
  note F3 = save_container_count_frame [OF s(4)]
  note F4 = save_container_count_frame [OF s(5)]
  have e1: "fs0 (?key SUFFIX_PROP_STR) = fs (?key SUFFIX_PROP_STR)"
    by (rule F0) (simp add: suffix_defs)
  have e2: "fs1 (?key SUFFIX_PARENT_ID) = fs (?key SUFFIX_PARENT_ID)"
    by (subst F1, simp add: suffix_defs, rule F0) (simp add: suffix_defs)
  have e3: "fs2 (?key SUFFIX_INDEX_ID) = fs (?key SUFFIX_INDEX_ID)"
    by (subst F2, simp add: suffix_defs, subst F1, simp add: suffix_defs, rule F0)
      (simp add: suffix_defs)
  have e4: "fs3 (?key SUFFIX_VALUE_ID) = fs (?key SUFFIX_VALUE_ID)"
    by (subst F3, simp add: suffix_defs, subst F2, simp add: suffix_defs,
        subst F1, simp add: suffix_defs, rule F0) (simp add: suffix_defs)
  have g1: "fs' (?key SUFFIX_PROP_STR) = fs1 (?key SUFFIX_PROP_STR)"
    by (subst F4, simp add: suffix_defs, subst F3, simp add: suffix_defs, rule F2)
      (simp add: suffix_defs)
  have g2: "fs' (?key SUFFIX_PARENT_ID) = fs2 (?key SUFFIX_PARENT_ID)"
    by (subst F4, simp add: suffix_defs, rule F3) (simp add: suffix_defs)
  have g3: "fs' (?key SUFFIX_INDEX_ID) = fs3 (?key SUFFIX_INDEX_ID)"
    by (rule F4) (simp add: suffix_defs)
  show "load_container (io_str io) (?key SUFFIX_PROP_STR) [[]] fs' = (True, propStrVec t)"
    by (rule save_count_chain [OF s(2) S(1) _ _ ar(1)], rule e1, rule g1)
  show "load_container (io_id io) (?key SUFFIX_PARENT_ID) [0] fs' = (True, parentIdVec t)"
    by (rule save_count_chain [OF s(3) S(2) _ _ ar(2)], rule e2, rule g2)
  show "load_container (io_id io) (?key SUFFIX_INDEX_ID) [0] fs' = (True, indexTable (valueIdTable t))"
    by (rule save_count_chain [OF s(4) S(3) _ _ ar(2)], rule e3, rule g3)
  show "load_container (io_id io) (?key SUFFIX_VALUE_ID) [] fs' = (True, multiValueTable (valueIdTable t))"
    by (rule save_count_chain [OF s(5) S(4) _ _ ar(2)], rule e4, rule refl)
qed

lemma testDoc_prefix:
  assumes "pvt_wf t" "docs_valid t" "propValueId t label \<noteq> 0"
  shows "\<exists>ids. pid_ids (valueIdTable t) d = Some ids \<and>
    testDoc t d (propValueId t label) =
      Some (\<exists>i\<in>set ids. \<exists>path k. propValuePath t i = Some path \<and> take k path = label)"
proof -
  obtain ids where ids: "pid_ids (valueIdTable t) d = Some ids"
    using assms(1) by (auto simp: pvt_wf_def pid_ids_wf)
  obtain l where l: "lookup_path (childMapTable t) label 0 = Some l" "propValueId t label = l"
    using assms(3) by (auto simp: propValueId_lookup split: option.splits)
  have "l \<in> ancestors t i \<longleftrightarrow> (\<exists>path k. propValuePath t i = Some path \<and> take k path = label)"
    if "i \<in> set ids" for i
  proof -
    have "unat i < length (propStrVec t)" using assms(2) ids that by (auto simp: docs_valid_def)
    then obtain path where p: "propValuePath t i = Some path"
      "lookup_path (childMapTable t) path 0 = Some i" using path_of_id [OF assms(1)] by blast
    have "l \<in> ancestors t i \<longleftrightarrow> (\<exists>k \<le> length path. lookup_path (childMapTable t) (take k path) 0 = Some l)"
      using ancestors_prefix [OF assms(1) p(2), of l] l assms(3) by simp
    also have "\<dots> \<longleftrightarrow> (\<exists>k \<le> length path. take k path = label)"
      using id_of_path [OF assms(1)] l(1) by (metis option.inject)
    also have "\<dots> \<longleftrightarrow> (\<exists>k. take k path = label)"
      by (metis nat_le_linear order_refl take_all)
    finally show ?thesis using p(1) by simp
  qed
  then show ?thesis using testDoc_correct [OF assms(1,2) ids, of l] ids l(2) by auto
qed

section \<open>Properties\<close>



text \<open>C25: ids and paths correspond one to one. In a well-formed table every id has a path (the
walks to the root always end), and the id of that path is the id itself; two paths with the same
non-zero id are equal.\<close>

theorem prop_value_ids_paths:
  assumes "pvt_wf t"
  shows "(\<forall>i :: u32. unat i < length (propStrVec t) \<longrightarrow>
      (\<exists>path ids root. propValuePath t i = Some path \<and> propValueId t path = i \<and>
         getParentIds t i = Some ids \<and> getRootValueId t i = Some root \<and>
         length ids = length path)) \<and>
    (\<forall>p q. propValueId t p = propValueId t q \<longrightarrow> propValueId t p \<noteq> 0 \<longrightarrow> p = q)"
proof (intro conjI allI impI)
  fix i :: u32 assume i: "unat i < length (propStrVec t)"
  obtain path where p: "propValuePath t i = Some path" "lookup_path (childMapTable t) path 0 = Some i"
    using path_of_id [OF assms i] by blast
  obtain ids where ids: "parent_walk (parentIdVec t) i = Some ids"
    using parent_walk_total [OF pvt_wf_tree [OF assms] i] by blast
  have "push_strs t is = Some ss \<Longrightarrow> length ss = length is" for "is" ss
    by (induction "is" arbitrary: ss) (auto split: option.splits)
  then have "length ids = length path" using p(1) ids by (auto simp: propValuePath_def)
  then show "\<exists>path ids root. propValuePath t i = Some path \<and> propValueId t path = i \<and>
         getParentIds t i = Some ids \<and> getRootValueId t i = Some root \<and> length ids = length path"
    using p ids by (simp add: propValueId_lookup getParentIds_def getRootValueId_def)
next
  fix p q assume "propValueId t p = propValueId t q" "propValueId t p \<noteq> 0"
  then have "\<exists>i. lookup_path (childMapTable t) p 0 = Some i \<and> lookup_path (childMapTable t) q 0 = Some i"
    by (auto simp: propValueId_lookup split: option.splits)
  then show "p = q" using id_of_path [OF assms] by (metis option.inject)
qed

theorem prop_value_ids_paths_witness:
  "\<exists>path. propValuePath (pvt_init ''d'' ''p'') 0 = Some path \<and> propValueId (pvt_init ''d'' ''p'') path = 0"
  using prop_value_ids_paths [OF pvt_init_wf, of "''d''" "''p''"]
  by (metis pvt_root_in_range pvt_init_wf)

text \<open>\<open>testDoc\<close> with the early stop of \<open>parentIdSet\<close> answers exactly whether the label is one of
the document's values or an ancestor of one, and it always answers: for a label given by its path,
the document has a value whose path starts with the label's path.\<close>

theorem test_doc_is_prefix_membership:
  assumes "pvt_wf t" "docs_valid t" "propValueId t label \<noteq> 0"
  shows "\<exists>ids. pid_ids (valueIdTable t) d = Some ids \<and>
    testDoc t d (propValueId t label) =
      Some (\<exists>i\<in>set ids. \<exists>path k. propValuePath t i = Some path \<and> take k path = label)"
  using testDoc_prefix [OF assms] .

theorem test_doc_is_prefix_membership_witness:
  "let t = snd (setPropIdList 1 [2] (snd (insertPropValueId [ustr ''a'', ustr ''b''] (pvt_init ''d'' ''p''))))
   in testDoc t 1 (propValueId t [ustr ''a'']) = Some True"
proof -
  let ?t = "snd (setPropIdList 1 [2] (snd (insertPropValueId [ustr ''a'', ustr ''b''] (pvt_init ''d'' ''p''))))"
  define f where "f = (\<lambda>x. if x = ustr ''a'' then Some (1 :: u32) else None)"
  define g where "g = (\<lambda>x. if x = ustr ''b'' then Some (2 :: u32) else None)"
  have t: "?t = \<lparr>dirPath = ''d'', propName = ''p'', propStrVec = [[], ustr ''a'', ustr ''b''],
      savePropStrNum = 0, parentIdVec = [0, 0, 1], saveParentIdNum = 0,
      childMapTable = [f, g, Map.empty],
      valueIdTable = \<lparr>indexTable = [0, 2], multiValueTable = []\<rparr>, saveIndexNum = 0, saveValueNum = 0\<rparr>"
    by (simp add: f_def g_def setPropIdList_def insertPropValueId_def pvt_init_def Let_def
        pid_setIdList_def pid_init_def vec_resize_def word_le_nat_alt fun_eq_iff)
  have wf: "pvt_wf ?t"
  proof -
    have "pvt_wf (snd (insertPropValueId [ustr ''a'', ustr ''b''] (pvt_init ''d'' ''p'')))"
      using insert_path_correct [OF pvt_init_wf pvt_root_in_range [OF pvt_init_wf],
          of "''d''" "''p''" "[ustr ''a'', ustr ''b'']"]
      by (auto simp: insertPropValueId_def split: prod.splits)
    then show ?thesis
      by (auto simp: setPropIdList_def pvt_wf_def pid_fits_def case_prod_beta
          intro!: pid_setIdList_wf)
  qed
  have ids: "pid_ids (valueIdTable ?t) e = Some (if e = 1 then [2] else [])" for e
  proof -
    have "pid_wf (valueIdTable ?t)" using wf by (simp add: pvt_wf_def)
    moreover have "unat e < 2 \<Longrightarrow> e = 0 \<or> e = 1"
      by (metis One_nat_def less_2_cases unat_0 unat_1 word_unat_eq_iff)
    moreover have "entry_ids [] 2 = [2 :: u32]"
      by (simp add: entry_ids_def single_tag word_less_nat_alt)
    ultimately show ?thesis
      by (subst pid_ids_wf) (auto simp: t)
  qed
  have valid: "docs_valid ?t"
    unfolding docs_valid_def ids by (auto simp: t split: if_splits)
  have lab: "propValueId ?t [ustr ''a''] = 1" "propValuePath ?t 2 = Some [ustr ''a'', ustr ''b'']"
    by (simp_all add: t propValueId_def f_def propValuePath_def parent_walk.simps propValueStr_def)
  have "\<exists>k. take k [ustr ''a'', ustr ''b''] = [ustr ''a'']" by (rule exI [of _ 1]) simp
  then show ?thesis
    using test_doc_is_prefix_membership [OF wf valid, of "[ustr ''a'']" 1] lab ids [of 1]
    by (auto simp: Let_def)
qed

text \<open>C26: a table survives a flush and a reopen. If the files agree with the table wherever the saved
counts say so, the archives read back what they wrote and \<open>flush\<close> reports success, then opening an
empty table of the same directory and property restores the strings, the parents, the documents'
ids and, rebuilt from the first two, exactly the child maps.\<close>

theorem prop_value_flush_open:
  assumes "pvt_wf t" "length (propStrVec t) < 2 ^ 32" "pvt_stored io t fs"
    and "faithful_archive (io_str io)" "faithful_archive (io_id io)"
    and "pvt_flush io t fs = (True, t', fs')"
  shows "\<exists>u. pvt_open io (pvt_init (dirPath t) (propName t)) fs' = (True, u) \<and>
    propStrVec u = propStrVec t \<and> parentIdVec u = parentIdVec t \<and>
    childMapTable u = childMapTable t \<and> valueIdTable u = valueIdTable t"
proof -
  note L = flush_files [OF assms(6,3-5), THEN load_count_of_load]
  note tw = pvt_wf_tree [OF assms(1)]
  have "rebuild_children (length (propStrVec t)) (propStrVec t) (parentIdVec t) = childMapTable t"
    using rebuild_children_eq [OF tw assms(2)] .
  then show ?thesis using L tree_wfD(1) [OF tw] assms(2)
    by (simp add: pvt_open_def pvt_init_def pid_init_def Let_def unat_of_nat_u32)
qed

theorem prop_value_flush_open_witness:
  "let io = \<lparr>io_str = str_archive, io_id = id_archive, io_text = (\<lambda>_. True), io_conv = (\<lambda>s. s)\<rparr>;
       t = snd (insertPropValueId [ustr ''a''] (pvt_init ''d'' ''p''));
       fs = snd (snd (pvt_flush io t Map.empty))
   in \<exists>u. pvt_open io (pvt_init ''d'' ''p'') fs = (True, u) \<and>
        propStrVec u = [[], ustr ''a''] \<and> childMapTable u = childMapTable t"
proof -
  let ?io = "\<lparr>io_str = str_archive, io_id = id_archive, io_text = (\<lambda>_. True), io_conv = (\<lambda>s. s)\<rparr>"
  let ?t = "snd (insertPropValueId [ustr ''a''] (pvt_init ''d'' ''p''))"
  have t: "?t = \<lparr>dirPath = ''d'', propName = ''p'', propStrVec = [[], ustr ''a''], savePropStrNum = 0,
      parentIdVec = [0, 0], saveParentIdNum = 0, childMapTable = [[ustr ''a'' \<mapsto> 1], Map.empty],
      valueIdTable = \<lparr>indexTable = [0], multiValueTable = []\<rparr>, saveIndexNum = 0, saveValueNum = 0\<rparr>"
    by (simp add: insertPropValueId_def pvt_init_def Let_def pid_init_def)
  have wf: "pvt_wf ?t"
    using insert_path_correct [OF pvt_init_wf pvt_root_in_range [OF pvt_init_wf], of "''d''" "''p''" "[ustr ''a'']"]
    by (auto simp: insertPropValueId_def split: prod.splits)
  have st: "pvt_stored ?io ?t Map.empty"
    unfolding t by (simp add: pvt_stored_def stored_def load_container_def)
  have fl: "fst (pvt_flush ?io ?t Map.empty)"
    unfolding t by (simp add: pvt_flush_def Let_def saveParentId_def save_container_count_def
        save_container_def str_archive_def id_archive_def)
  obtain t' fs' where f: "pvt_flush ?io ?t Map.empty = (True, t', fs')"
    using fl by (metis prod.collapse)
  have n: "length (propStrVec ?t) < 2 ^ 32" by (simp add: t)
  have ar: "faithful_archive (io_str ?io)" "faithful_archive (io_id ?io)"
    by (simp_all add: faithful_str_archive faithful_id_archive)
  show ?thesis using prop_value_flush_open [OF wf n st ar f] f
    by (simp add: Let_def) (auto simp: t)
qed

text \<open>\<open>flush\<close> compares sizes only. When the saved counts cover the current sizes it reports success
and touches neither a file nor the table, whatever the vectors hold; in particular the files then do
not see a new single value that \<open>setPropIdList\<close> writes over the value of an existing document.\<close>

theorem prop_value_flush_sizes_only:
  assumes "length (propStrVec t) < 2 ^ 32" "length (parentIdVec t) = length (propStrVec t)"
    and "of_nat (length (propStrVec t)) \<le> savePropStrNum t"
    and "of_nat (length (parentIdVec t)) \<le> saveParentIdNum t"
    and "of_nat (length (indexTable (valueIdTable t))) \<le> saveIndexNum t"
    and "of_nat (length (multiValueTable (valueIdTable t))) \<le> saveValueNum t"
    and "unat d < length (indexTable (valueIdTable t))" "i < INDEX_MSB"
  shows "\<exists>t'. setPropIdList d [i] t = (Inr (), t') \<and>
    indexTable (valueIdTable t') = (indexTable (valueIdTable t))[unat d := i] \<and>
    pvt_flush io t' fs = (True, t', fs)"
proof -
  have "indexTable (valueIdTable t) \<noteq> []" using assms(7) by auto
  then show ?thesis using assms
    by (simp add: setPropIdList_def pid_setIdList_def vec_resize_def pvt_flush_def Let_def
      save_container_count_covered saveParentId_def unat_of_nat_u32)
qed

theorem prop_value_flush_sizes_only_witness:
  "let io = \<lparr>io_str = str_archive, io_id = id_archive, io_text = (\<lambda>_. True), io_conv = (\<lambda>s. s)\<rparr>;
       t = (pvt_init ''d'' ''p'')\<lparr>savePropStrNum := 1, saveParentIdNum := 1, saveIndexNum := 1\<rparr>
   in \<exists>t'. setPropIdList 0 [5] t = (Inr (), t') \<and> indexTable (valueIdTable t') = [5] \<and>
        pvt_flush io t' Map.empty = (True, t', Map.empty)"
proof -
  let ?t = "(pvt_init ''d'' ''p'')\<lparr>savePropStrNum := 1, saveParentIdNum := 1, saveIndexNum := 1\<rparr>"
  have h: "length (propStrVec ?t) < 2 ^ 32" "length (parentIdVec ?t) = length (propStrVec ?t)"
    "of_nat (length (propStrVec ?t)) \<le> savePropStrNum ?t"
    "of_nat (length (parentIdVec ?t)) \<le> saveParentIdNum ?t"
    "of_nat (length (indexTable (valueIdTable ?t))) \<le> saveIndexNum ?t"
    "of_nat (length (multiValueTable (valueIdTable ?t))) \<le> saveValueNum ?t"
    "unat 0 < length (indexTable (valueIdTable ?t))" "(5 :: u32) < INDEX_MSB"
    by (simp_all add: pvt_init_def pid_init_def INDEX_MSB_def word_less_nat_alt)
  have ix: "(indexTable (valueIdTable ?t))[unat (0 :: u32) := 5] = [5]" by (simp add: pvt_init_def pid_init_def)
  show ?thesis using prop_value_flush_sizes_only [OF h] unfolding ix Let_def by blast
qed

end
