(* ===== verification/Attr_Table.thy ===== *)
theory Attr_Table
  imports Prop_Id_Table Split_Ustr File_Container
begin

text \<open>
  The attribute table (core/mining-manager/attr-manager/AttrTable.h and AttrTable.cpp): ids for
  attribute names, ids for pairs of an attribute name and a value, and the value ids of each
  document. The vectors map ids to strings and the maps invert them. Locks are not modelled.
\<close>

section \<open>State\<close>

record attr_table =
  at_dirPath :: string
  at_propName :: string
  nameStrVec :: "ustring list"
  saveNameStrNum :: u32
  nameStrMap :: "ustring \<rightharpoonup> u32"
  valueStrVec :: "ustring list"
  saveValueStrNum :: u32
  nameIdVec :: "u32 list"
  saveNameIdNum :: u32
  valueStrTable :: "(ustring \<rightharpoonup> u32) list"
  at_valueIdTable :: prop_id_table
  at_saveIndexNum :: u32
  at_saveValueNum :: u32

text \<open>The constructor. Only \<open>open\<close> enters the reserved id 0 into the maps.\<close>

definition at_init :: attr_table where
  "at_init = \<lparr>at_dirPath = [], at_propName = [], nameStrVec = [[]], saveNameStrNum = 0,
     nameStrMap = Map.empty, valueStrVec = [[]], saveValueStrNum = 0, nameIdVec = [0],
     saveNameIdNum = 0, valueStrTable = [], at_valueIdTable = pid_init, at_saveIndexNum = 0,
     at_saveValueNum = 0\<rparr>"

section \<open>Operations\<close>

definition at_resize :: "nat \<Rightarrow> attr_table \<Rightarrow> attr_table" where
  "at_resize num t = t\<lparr>at_valueIdTable := pid_resize num (at_valueIdTable t)\<rparr>"

definition setValueIdList :: "docid \<Rightarrow> u32 list \<Rightarrow> attr_table \<Rightarrow> unit result \<times> attr_table" where
  "setValueIdList docId ids t =
     (let (r, v) = pid_setIdList docId ids (at_valueIdTable t) in (r, t\<lparr>at_valueIdTable := v\<rparr>))"

text \<open>
  \<open>insertNameId\<close> and \<open>insertValueId\<close> insert into the map before they look for an overflow: the
  exception leaves the key mapped to 0.
\<close>

definition insertNameId :: "ustring \<Rightarrow> attr_table \<Rightarrow> u32 result \<times> attr_table" where
  "insertNameId name t =
     (let nameId = (of_nat (length (nameStrVec t)) :: u32) in
      case nameStrMap t name of
        Some n \<Rightarrow> (Inr n, t)
      | None \<Rightarrow>
          (let t1 = t\<lparr>nameStrMap := (nameStrMap t)(name \<mapsto> nameId)\<rparr> in
           if nameId \<noteq> 0
           then (Inr nameId, t1\<lparr>nameStrVec := nameStrVec t @ [name],
                                valueStrTable := valueStrTable t @ [Map.empty]\<rparr>)
           else (Inl (MiningException ''attribute name count is out of range''), t1)))"

definition nameId :: "attr_table \<Rightarrow> ustring \<Rightarrow> u32" where
  "nameId t name = (case nameStrMap t name of None \<Rightarrow> 0 | Some n \<Rightarrow> n)"

definition insertValueId :: "u32 \<Rightarrow> ustring \<Rightarrow> attr_table \<Rightarrow> u32 result \<times> attr_table" where
  "insertValueId name value t =
     (let valueId = (of_nat (length (valueStrVec t)) :: u32);
          valueStrMap = valueStrTable t ! unat name in
      case valueStrMap value of
        Some v \<Rightarrow> (Inr v, t)
      | None \<Rightarrow>
          (let t1 = t\<lparr>valueStrTable := (valueStrTable t)[unat name := valueStrMap(value \<mapsto> valueId)]\<rparr> in
           if valueId \<noteq> 0
           then (Inr valueId, t1\<lparr>valueStrVec := valueStrVec t @ [value],
                                 nameIdVec := nameIdVec t @ [name]\<rparr>)
           else (Inl (MiningException ''attribute value count is out of range''), t1)))"

definition valueId :: "attr_table \<Rightarrow> u32 \<Rightarrow> ustring \<Rightarrow> u32" where
  "valueId t name value =
     (case (valueStrTable t ! unat name) value of None \<Rightarrow> 0 | Some v \<Rightarrow> v)"

definition nameStr :: "attr_table \<Rightarrow> u32 \<Rightarrow> ustring option" where
  "nameStr t n = vec_at (nameStrVec t) (unat n)"

definition valueStr :: "attr_table \<Rightarrow> u32 \<Rightarrow> ustring option" where
  "valueStr t v = vec_at (valueStrVec t) (unat v)"

definition valueId2NameId :: "attr_table \<Rightarrow> u32 \<Rightarrow> u32 option" where
  "valueId2NameId t v = vec_at (nameIdVec t) (unat v)"

section \<open>Files\<close>

text \<open>
  From outside: the archives, whether the text file can be opened, the conversion to UTF-8 and the
  order in which a \<open>std::map\<close> keyed by \<open>UString\<close> is traversed.
\<close>

record attr_io =
  ai_str :: "ustring archive"
  ai_id :: "u32 archive"
  ai_text :: "file_key \<Rightarrow> bool"
  ai_conv :: "ustring \<Rightarrow> bytes"
  ai_entries :: "(ustring \<rightharpoonup> u32) \<Rightarrow> (ustring \<times> u32) list"

definition SUFFIX_NAME_STR :: string where "SUFFIX_NAME_STR = ''.name_str.bin''"
definition SUFFIX_VALUE_STR :: string where "SUFFIX_VALUE_STR = ''.value_str.bin''"
definition SUFFIX_NAME_ID :: string where "SUFFIX_NAME_ID = ''.name_id.bin''"
definition AT_SUFFIX_INDEX_ID :: string where "AT_SUFFIX_INDEX_ID = ''.index_id.bin''"
definition AT_SUFFIX_VALUE_ID :: string where "AT_SUFFIX_VALUE_ID = ''.value_id.bin''"
definition SUFFIX_NAME_VALUE :: string where "SUFFIX_NAME_VALUE = ''.name_value.txt''"

lemmas attr_suffix_defs = SUFFIX_NAME_STR_def SUFFIX_VALUE_STR_def SUFFIX_NAME_ID_def
  AT_SUFFIX_INDEX_ID_def AT_SUFFIX_VALUE_ID_def SUFFIX_NAME_VALUE_def

definition name_value_text :: "attr_io \<Rightarrow> attr_table \<Rightarrow> nat \<Rightarrow> bytes" where
  "name_value_text io t nameNum = concat (map (\<lambda>n.
     map of_char (show_nat n @ ''  '') @ ai_conv io (nameStrVec t ! n) @ map of_char [CHR 0x0A] @
     concat (map (\<lambda>(s, v). map of_char ''    '' @ ai_conv io s @
       map of_char (''  '' @ show_nat (unat v) @ [CHR 0x0A])) (ai_entries io (valueStrTable t ! n))))
     [1..<nameNum])"

definition saveNameValuePair :: "attr_io \<Rightarrow> file_key \<Rightarrow> attr_table \<Rightarrow> fstore \<Rightarrow> bool \<times> fstore" where
  "saveNameValuePair io key t fs =
     (let nameNum = (of_nat (length (valueStrTable t)) :: u32);
          valueNum = (of_nat (length (valueStrVec t)) :: u32) in
      if unat nameNum \<noteq> length (nameStrVec t) then (False, fs)
      else if nameNum \<le> saveNameStrNum t \<and> valueNum \<le> saveValueStrNum t then (True, fs)
      else if \<not> ai_text io key then (False, fs)
      else (True, fs(key \<mapsto> name_value_text io t (unat nameNum))))"

definition at_flush :: "attr_io \<Rightarrow> attr_table \<Rightarrow> fstore \<Rightarrow> bool \<times> attr_table \<times> fstore" where
  "at_flush io t fs =
     (let key = (\<lambda>suffix. (at_dirPath t, at_propName t @ suffix));
          (ok0, fs0) = saveNameValuePair io (key SUFFIX_NAME_VALUE) t fs in
      if \<not> ok0 then (False, t, fs0) else
      let (ok1, n1, fs1) = save_container_count (ai_str io) (key SUFFIX_NAME_STR)
            (nameStrVec t) (saveNameStrNum t) fs0; t1 = t\<lparr>saveNameStrNum := n1\<rparr> in
      if \<not> ok1 then (False, t1, fs1) else
      let (ok2, n2, fs2) = save_container_count (ai_str io) (key SUFFIX_VALUE_STR)
            (valueStrVec t) (saveValueStrNum t) fs1; t2 = t1\<lparr>saveValueStrNum := n2\<rparr> in
      if \<not> ok2 then (False, t2, fs2) else
      let (ok3, n3, fs3) = save_container_count (ai_id io) (key SUFFIX_NAME_ID)
            (nameIdVec t) (saveNameIdNum t) fs2; t3 = t2\<lparr>saveNameIdNum := n3\<rparr> in
      if \<not> ok3 then (False, t3, fs3) else
      let (ok4, n4, fs4) = save_container_count (ai_id io) (key AT_SUFFIX_INDEX_ID)
            (indexTable (at_valueIdTable t)) (at_saveIndexNum t) fs3; t4 = t3\<lparr>at_saveIndexNum := n4\<rparr> in
      if \<not> ok4 then (False, t4, fs4) else
      let (ok5, n5, fs5) = save_container_count (ai_id io) (key AT_SUFFIX_VALUE_ID)
            (multiValueTable (at_valueIdTable t)) (at_saveValueNum t) fs4; t5 = t4\<lparr>at_saveValueNum := n5\<rparr> in
      (ok5, t5, fs5))"

text \<open>The two loops of \<open>open\<close> that rebuild the maps from the vectors.\<close>

definition add_name :: "ustring list \<Rightarrow> (ustring \<rightharpoonup> u32) \<Rightarrow> nat \<Rightarrow> (ustring \<rightharpoonup> u32)" where
  "add_name names m i = m(names ! i \<mapsto> of_nat i)"

definition name_map_of :: "ustring list \<Rightarrow> (ustring \<rightharpoonup> u32)" where
  "name_map_of names = foldl (add_name names) Map.empty [0..<length names]"

definition add_value :: "ustring list \<Rightarrow> u32 list \<Rightarrow> (ustring \<rightharpoonup> u32) list \<Rightarrow> nat \<Rightarrow> (ustring \<rightharpoonup> u32) list" where
  "add_value vals nids tab i =
     (let n = unat (nids ! i) in tab[n := (tab ! n)(vals ! i \<mapsto> of_nat i)])"

definition value_table_of :: "nat \<Rightarrow> ustring list \<Rightarrow> u32 list \<Rightarrow> (ustring \<rightharpoonup> u32) list" where
  "value_table_of nameNum vals nids =
     foldl (add_value vals nids) (replicate nameNum Map.empty) [0..<length vals]"

definition at_open :: "attr_io \<Rightarrow> string \<Rightarrow> string \<Rightarrow> attr_table \<Rightarrow> fstore \<Rightarrow> bool \<times> attr_table" where
  "at_open io dir prop t fs =
     (let key = (\<lambda>suffix. (dir, prop @ suffix));
          t0 = t\<lparr>at_dirPath := dir, at_propName := prop\<rparr>;
          (ok1, v1, n1) = load_container_count (ai_str io) (key SUFFIX_NAME_STR)
            (nameStrVec t) (saveNameStrNum t) fs;
          t1 = t0\<lparr>nameStrVec := v1, saveNameStrNum := n1\<rparr> in
      if \<not> ok1 then (False, t1) else
      let (ok2, v2, n2) = load_container_count (ai_str io) (key SUFFIX_VALUE_STR)
            (valueStrVec t) (saveValueStrNum t) fs;
          t2 = t1\<lparr>valueStrVec := v2, saveValueStrNum := n2\<rparr> in
      if \<not> ok2 then (False, t2) else
      let (ok3, v3, n3) = load_container_count (ai_id io) (key SUFFIX_NAME_ID)
            (nameIdVec t) (saveNameIdNum t) fs;
          t3 = t2\<lparr>nameIdVec := v3, saveNameIdNum := n3\<rparr> in
      if \<not> ok3 then (False, t3) else
      let (ok4, v4, n4) = load_container_count (ai_id io) (key AT_SUFFIX_INDEX_ID)
            (indexTable (at_valueIdTable t)) (at_saveIndexNum t) fs;
          t4 = t3\<lparr>at_valueIdTable := (at_valueIdTable t)\<lparr>indexTable := v4\<rparr>, at_saveIndexNum := n4\<rparr> in
      if \<not> ok4 then (False, t4) else
      let (ok5, v5, n5) = load_container_count (ai_id io) (key AT_SUFFIX_VALUE_ID)
            (multiValueTable (at_valueIdTable t)) (at_saveValueNum t) fs;
          t5 = t4\<lparr>at_valueIdTable := (at_valueIdTable t4)\<lparr>multiValueTable := v5\<rparr>, at_saveValueNum := n5\<rparr> in
      if \<not> ok5 then (False, t5)
      else (True, t5\<lparr>nameStrMap := name_map_of v1, valueStrTable := value_table_of (length v1) v2 v3\<rparr>))"

section \<open>Well-formedness\<close>

text \<open>\<open>inverts n xs m\<close>: the map \<open>m\<close> sends exactly the first \<open>n\<close> strings of \<open>xs\<close> to their positions.\<close>

definition inverts :: "nat \<Rightarrow> ustring list \<Rightarrow> (ustring \<rightharpoonup> u32) \<Rightarrow> bool" where
  "inverts n xs m \<longleftrightarrow> (\<forall>s v. m s = Some v \<longleftrightarrow> unat v < n \<and> xs ! unat v = s)"

definition value_edges :: "nat \<Rightarrow> ustring list \<Rightarrow> u32 list \<Rightarrow> nat \<Rightarrow> (ustring \<rightharpoonup> u32) \<Rightarrow> bool" where
  "value_edges n vals nids p m \<longleftrightarrow>
     (\<forall>s v. m s = Some v \<longleftrightarrow> unat v < n \<and> unat (nids ! unat v) = p \<and> vals ! unat v = s)"

definition names_wf :: "ustring list \<Rightarrow> (ustring \<rightharpoonup> u32) \<Rightarrow> bool" where
  "names_wf names m \<longleftrightarrow> 0 < length names \<and> length names \<le> 2 ^ 32 \<and> inverts (length names) names m"

definition values_wf :: "nat \<Rightarrow> ustring list \<Rightarrow> u32 list \<Rightarrow> (ustring \<rightharpoonup> u32) list \<Rightarrow> bool" where
  "values_wf nn vals nids tab \<longleftrightarrow>
     0 < length vals \<and> vals ! 0 = [] \<and> length vals \<le> 2 ^ 32 \<and> length nids = length vals \<and> length tab = nn \<and>
     (\<forall>v < length vals. unat (nids ! v) < nn) \<and>
     (\<forall>p < nn. value_edges (length vals) vals nids p (tab ! p))"

definition at_wf :: "attr_table \<Rightarrow> bool" where
  "at_wf t \<longleftrightarrow> names_wf (nameStrVec t) (nameStrMap t) \<and>
     values_wf (length (nameStrVec t)) (valueStrVec t) (nameIdVec t) (valueStrTable t) \<and>
     pid_wf (at_valueIdTable t)"

lemma unat_u32_eq_iff: "n < 2 ^ 32 \<Longrightarrow> unat (v :: u32) = n \<longleftrightarrow> v = of_nat n"
  by (metis unat_of_nat_u32 word_unat_eq_iff)

lemma inverts_push:
  assumes "inverts (length xs) xs m" "m x = None" "length xs < 2 ^ 32"
  shows "inverts (Suc (length xs)) (xs @ [x]) (m(x \<mapsto> of_nat (length xs)))"
  unfolding inverts_def
proof (intro allI)
  fix s :: ustring and v :: u32
  have E: "m s = Some v \<longleftrightarrow> unat v < length xs \<and> xs ! unat v = s" for s v
    using assms(1) unfolding inverts_def by blast
  have new: "unat v < length xs \<Longrightarrow> xs ! unat v \<noteq> x"
    using E [of x v] assms(2) by auto
  note u = unat_u32_eq_iff [OF assms(3), of v]
  show "(m(x \<mapsto> of_nat (length xs))) s = Some v \<longleftrightarrow>
      unat v < Suc (length xs) \<and> (xs @ [x]) ! unat v = s"
  proof (cases "unat v = length xs")
    case True
    then have "m s \<noteq> Some v" using E [of s v] by simp
    then show ?thesis using True u by auto
  next
    case False
    then have "v \<noteq> of_nat (length xs)" using u by simp
    then show ?thesis using False E [of s v] new by (auto simp: nth_append)
  qed
qed

lemma value_edges_push:
  assumes "value_edges (length vals) vals nids p m" "length nids = length vals" "length vals < 2 ^ 32"
    and "unat n = p \<Longrightarrow> m x = None"
  shows "value_edges (Suc (length vals)) (vals @ [x]) (nids @ [n]) p
    (if unat n = p then m(x \<mapsto> of_nat (length vals)) else m)"
  unfolding value_edges_def
proof (intro allI)
  fix s :: ustring and v :: u32
  have E: "m s = Some v \<longleftrightarrow> unat v < length vals \<and> unat (nids ! unat v) = p \<and> vals ! unat v = s" for s v
    using assms(1) unfolding value_edges_def by blast
  have new: "unat n = p \<Longrightarrow> unat v < length vals \<Longrightarrow> unat (nids ! unat v) = p \<Longrightarrow> vals ! unat v \<noteq> x"
    using E [of x v] assms(4) by auto
  note u = unat_u32_eq_iff [OF assms(3), of v]
  show "((if unat n = p then m(x \<mapsto> of_nat (length vals)) else m) s = Some v) \<longleftrightarrow>
      unat v < Suc (length vals) \<and> unat ((nids @ [n]) ! unat v) = p \<and> (vals @ [x]) ! unat v = s"
  proof (cases "unat v = length vals")
    case True
    then have "m s \<noteq> Some v" using E [of s v] by simp
    moreover have "(nids @ [n]) ! unat v = n" "(vals @ [x]) ! unat v = x"
      using True assms(2) by (simp_all add: nth_append)
    ultimately show ?thesis using True u by auto
  next
    case False
    then have "v \<noteq> of_nat (length vals)" using u by simp
    then show ?thesis using False E [of s v] new assms(2) by (auto simp: nth_append)
  qed
qed

lemma value_edges_empty:
  "\<forall>v < n. unat (nids ! v) \<noteq> p \<Longrightarrow> value_edges n vals nids p Map.empty"
  by (auto simp: value_edges_def)

lemma values_wf_new_name:
  assumes "values_wf nn vals nids tab"
  shows "values_wf (Suc nn) vals nids (tab @ [Map.empty])"
proof -
  have "value_edges (length vals) vals nids nn Map.empty"
    using assms by (intro value_edges_empty) (auto simp: values_wf_def)
  then show ?thesis using assms by (auto simp: values_wf_def nth_append less_Suc_eq)
qed

lemma values_wf_push:
  assumes "values_wf nn vals nids tab" "unat n < nn" "(tab ! unat n) x = None" "length vals < 2 ^ 32"
  shows "values_wf nn (vals @ [x]) (nids @ [n])
    (tab[unat n := (tab ! unat n)(x \<mapsto> of_nat (length vals))])"
proof -
  have W: "length nids = length vals" "length tab = nn" "vals ! 0 = []" "vals \<noteq> []" "\<And>v. v < length vals \<Longrightarrow> unat (nids ! v) < nn"
    "\<And>p. p < nn \<Longrightarrow> value_edges (length vals) vals nids p (tab ! p)"
    using assms(1) by (auto simp: values_wf_def)
  have "value_edges (Suc (length vals)) (vals @ [x]) (nids @ [n]) p
      (tab[unat n := (tab ! unat n)(x \<mapsto> of_nat (length vals))] ! p)" if "p < nn" for p
    using value_edges_push [OF W(6) [OF that] W(1) assms(4), of n x] assms(2,3) W(2) that
    by (auto simp: nth_list_update split: if_splits)
  then show ?thesis using W assms(2,4) by (auto simp: values_wf_def nth_append less_Suc_eq)
qed

lemma at_wfD:
  assumes "at_wf t"
  shows "names_wf (nameStrVec t) (nameStrMap t)"
    "values_wf (length (nameStrVec t)) (valueStrVec t) (nameIdVec t) (valueStrTable t)"
    "pid_wf (at_valueIdTable t)"
  using assms by (auto simp: at_wf_def)

text \<open>What an insertion keeps: every id and string that was there.\<close>

definition at_extends :: "attr_table \<Rightarrow> attr_table \<Rightarrow> bool" where
  "at_extends t t' \<longleftrightarrow>
     (\<exists>ns. nameStrVec t' = nameStrVec t @ ns) \<and> (\<exists>vs. valueStrVec t' = valueStrVec t @ vs) \<and>
     (\<exists>is. nameIdVec t' = nameIdVec t @ is) \<and> at_valueIdTable t' = at_valueIdTable t"

lemma at_extends_refl [simp]: "at_extends t t"
  by (simp add: at_extends_def)

lemma at_extends_trans: "at_extends t u \<Longrightarrow> at_extends u w \<Longrightarrow> at_extends t w"
  by (auto simp: at_extends_def)

lemma insertNameId_ok:
  assumes wf: "at_wf t" and ins: "insertNameId name t = (Inr n, t')"
  shows "at_wf t'" "at_extends t t'" "nameStrMap t' name = Some n"
proof -
  let ?n = "length (nameStrVec t)"
  have le: "?n \<le> 2 ^ 32" using wf by (simp add: at_wf_def names_wf_def)
  have all: "at_wf t' \<and> at_extends t t' \<and> nameStrMap t' name = Some n"
  proof (cases "nameStrMap t name")
    case None
    then have z: "(of_nat ?n :: u32) \<noteq> 0" and t': "t' = t\<lparr>nameStrMap := (nameStrMap t)(name \<mapsto> of_nat ?n),
        nameStrVec := nameStrVec t @ [name], valueStrTable := valueStrTable t @ [Map.empty]\<rparr>"
      and n: "n = of_nat ?n"
      using ins by (auto simp: insertNameId_def Let_def split: if_splits)
    have lt: "?n < 2 ^ 32" using z le by (cases "?n = 2 ^ 32") auto
    show ?thesis using None lt n at_wfD [OF wf] inverts_push [of "nameStrVec t" "nameStrMap t" name]
      by (simp add: t' at_wf_def names_wf_def values_wf_new_name at_extends_def)
  qed (use wf ins in \<open>auto simp: insertNameId_def Let_def\<close>)
  then show "at_wf t'" "at_extends t t'" "nameStrMap t' name = Some n" by blast+
qed

lemma insertValueId_ok:
  assumes wf: "at_wf t" and n: "unat n < length (nameStrVec t)"
    and ins: "insertValueId n value t = (Inr v, t')"
  shows "at_wf t'" "at_extends t t'" "(valueStrTable t' ! unat n) value = Some v"
    "nameStrMap t' = nameStrMap t" "nameStrVec t' = nameStrVec t"
proof -
  let ?n = "length (valueStrVec t)"
  have le: "?n \<le> 2 ^ 32" and tab: "length (valueStrTable t) = length (nameStrVec t)"
    using wf by (auto simp: at_wf_def values_wf_def)
  have all: "at_wf t' \<and> at_extends t t' \<and> (valueStrTable t' ! unat n) value = Some v \<and>
      nameStrMap t' = nameStrMap t \<and> nameStrVec t' = nameStrVec t"
  proof (cases "(valueStrTable t ! unat n) value")
    case None
    then have z: "(of_nat ?n :: u32) \<noteq> 0" and t': "t' = t\<lparr>valueStrTable := (valueStrTable t)
        [unat n := (valueStrTable t ! unat n)(value \<mapsto> of_nat ?n)],
        valueStrVec := valueStrVec t @ [value], nameIdVec := nameIdVec t @ [n]\<rparr>"
      and v: "v = of_nat ?n"
      using ins by (auto simp: insertValueId_def Let_def split: if_splits)
    have lt: "?n < 2 ^ 32" using z le by (cases "?n = 2 ^ 32") auto
    show ?thesis using None lt v n tab at_wfD [OF wf]
        values_wf_push [OF at_wfD(2) [OF wf] n None lt]
      by (simp add: t' at_wf_def at_extends_def)
  qed (use wf ins in \<open>auto simp: insertValueId_def Let_def\<close>)
  then show "at_wf t'" "at_extends t t'" "(valueStrTable t' ! unat n) value = Some v"
    "nameStrMap t' = nameStrMap t" "nameStrVec t' = nameStrVec t" by blast+
qed

text \<open>Reading the ids back.\<close>

lemma name_lookup:
  assumes "at_wf t"
  shows "nameStrMap t s = Some n \<longleftrightarrow> nameStr t n = Some s"
  using at_wfD(1) [OF assms] by (auto simp: names_wf_def inverts_def nameStr_def vec_at_def)

lemma value_lookup:
  assumes "at_wf t" "unat n < length (nameStrVec t)"
  shows "(valueStrTable t ! unat n) s = Some v \<longleftrightarrow>
    valueStr t v = Some s \<and> valueId2NameId t v = Some n"
  using at_wfD(2) [OF assms(1)] assms(2)
  by (auto simp: values_wf_def value_edges_def valueStr_def valueId2NameId_def vec_at_def
      word_unat_eq_iff)

lemma at_extends_reads:
  assumes "at_extends t t'"
  shows "nameStr t n = Some s \<Longrightarrow> nameStr t' n = Some s"
    "valueStr t v = Some x \<Longrightarrow> valueStr t' v = Some x"
    "valueId2NameId t v = Some n \<Longrightarrow> valueId2NameId t' v = Some n"
  using assms by (auto simp: at_extends_def nameStr_def valueStr_def valueId2NameId_def vec_at_def
      nth_append split: if_splits)

section \<open>Rebuilding the maps\<close>

lemma inverts_take: "inverts m (take m xs) f \<longleftrightarrow> inverts m xs f"
  by (simp add: inverts_def cong: conj_cong)

lemma value_edges_take:
  "value_edges m (take m vals) (take m nids) p f \<longleftrightarrow> value_edges m vals nids p f"
  by (simp add: value_edges_def cong: conj_cong)

lemma name_map_prefix:
  assumes "distinct names" "length names \<le> 2 ^ 32"
  shows "n \<le> length names \<Longrightarrow> inverts n names (foldl (add_name names) Map.empty [0..<n])"
proof (induction n)
  case 0
  then show ?case by (simp add: inverts_def)
next
  case (Suc n)
  let ?m = "foldl (add_name names) Map.empty [0..<n]"
  have IH: "inverts n names ?m" using Suc by simp
  have E: "?m s = Some v \<longleftrightarrow> unat v < n \<and> names ! unat v = s" for s v
    using IH unfolding inverts_def by blast
  have "?m (names ! n) = None"
  proof (rule ccontr)
    assume "?m (names ! n) \<noteq> None"
    then obtain v where "?m (names ! n) = Some v" by blast
    then have "unat v < n" "names ! unat v = names ! n" using E by blast+
    then show False using assms(1) Suc.prems by (simp add: nth_eq_iff_index_eq)
  qed
  then have "inverts (Suc n) (take n names @ [names ! n]) (?m(names ! n \<mapsto> of_nat n))"
    using inverts_push [of "take n names" ?m "names ! n"] IH Suc.prems assms(2)
    by (simp add: inverts_take)
  then have "inverts (Suc n) names (?m(names ! n \<mapsto> of_nat n))"
    using Suc.prems inverts_take [of "Suc n" names] by (simp add: take_Suc_conv_app_nth)
  moreover have "foldl (add_name names) Map.empty [0..<Suc n] = ?m(names ! n \<mapsto> of_nat n)"
    by (simp add: add_name_def [of _ ?m])
  ultimately show ?case by (simp only:)
qed

lemma inverts_unique:
  assumes "inverts n xs m" "inverts n xs m'"
  shows "m = m'"
proof (rule ext)
  fix s
  have "m s = Some v \<longleftrightarrow> m' s = Some v" for v using assms unfolding inverts_def by blast
  then show "m s = m' s" by (metis not_Some_eq)
qed

lemma names_wf_distinct:
  assumes "names_wf names m"
  shows "distinct names"
  unfolding distinct_conv_nth
proof (intro allI impI notI)
  fix i j assume ij: "i < length names" "j < length names" "i \<noteq> j" "names ! i = names ! j"
  have "length names \<le> 2 ^ 32" using assms by (simp add: names_wf_def)
  then have u: "unat (of_nat i :: u32) = i" "unat (of_nat j :: u32) = j"
    using ij by (auto intro!: unat_of_nat_u32)
  have E: "m s = Some v \<longleftrightarrow> unat v < length names \<and> names ! unat v = s" for s v
    using assms unfolding names_wf_def inverts_def by blast
  have "m (names ! i) = Some (of_nat i)" "m (names ! i) = Some (of_nat j)"
    using E ij u by auto
  then show False using u ij by (metis option.inject)
qed

lemma name_map_of_eq:
  assumes "names_wf names m"
  shows "name_map_of names = m"
proof -
  have w: "length names \<le> 2 ^ 32" "inverts (length names) names m" using assms by (auto simp: names_wf_def)
  show ?thesis unfolding name_map_of_def
    by (rule inverts_unique [OF name_map_prefix [OF names_wf_distinct [OF assms] w(1) order_refl] w(2)])
qed

lemma value_edges_unique:
  assumes "value_edges n vals nids p m" "value_edges n vals nids p m'"
  shows "m = m'"
proof (rule ext)
  fix s
  have "m s = Some v \<longleftrightarrow> m' s = Some v" for v using assms unfolding value_edges_def by blast
  then show "m s = m' s" by (metis not_Some_eq)
qed

lemma values_wf_pairs:
  assumes "values_wf nn vals nids tab" "i < length vals" "j < length vals"
    "nids ! i = nids ! j" "vals ! i = vals ! j"
  shows "i = j"
proof -
  have "length vals \<le> 2 ^ 32" using assms by (simp add: values_wf_def)
  then have u: "unat (of_nat i :: u32) = i" "unat (of_nat j :: u32) = j"
    using assms by (auto intro!: unat_of_nat_u32)
  let ?m = "tab ! unat (nids ! i)"
  have "value_edges (length vals) vals nids (unat (nids ! i)) ?m"
    using assms(1,2) by (simp add: values_wf_def)
  then have E: "?m s = Some v \<longleftrightarrow> unat v < length vals \<and> unat (nids ! unat v) = unat (nids ! i) \<and>
      vals ! unat v = s" for s v unfolding value_edges_def by blast
  have "?m (vals ! i) = Some (of_nat i)" "?m (vals ! i) = Some (of_nat j)"
    using E assms u by auto
  then show ?thesis using u by (metis option.inject)
qed

lemma value_table_prefix:
  assumes wf: "values_wf nn vals nids tab"
  shows "n \<le> length vals \<Longrightarrow>
    (let r = foldl (add_value vals nids) (replicate nn Map.empty) [0..<n]
     in length r = nn \<and> (\<forall>p < nn. value_edges n vals nids p (r ! p)))"
proof (induction n)
  case 0
  then show ?case by (simp add: value_edges_def)
next
  case (Suc n)
  let ?r = "foldl (add_value vals nids) (replicate nn Map.empty) [0..<n]"
  let ?k = "unat (nids ! n)"
  have W: "length nids = length vals" "length vals \<le> 2 ^ 32" "?k < nn"
    using wf Suc.prems by (auto simp: values_wf_def)
  have IH: "length ?r = nn" "\<And>p. p < nn \<Longrightarrow> value_edges n vals nids p (?r ! p)"
    using Suc by (auto simp: Let_def)
  have T: "take (Suc n) vals = take n vals @ [vals ! n]" "take (Suc n) nids = take n nids @ [nids ! n]"
    using Suc.prems W by (simp_all add: take_Suc_conv_app_nth)
  have "value_edges (Suc n) vals nids p (if ?k = p then (?r ! p)(vals ! n \<mapsto> of_nat n) else ?r ! p)"
    if p: "p < nn" for p
  proof -
    have "(?r ! p) (vals ! n) = None" if kp: "?k = p"
    proof (rule ccontr)
      assume "(?r ! p) (vals ! n) \<noteq> None"
      then obtain v where "(?r ! p) (vals ! n) = Some v" by blast
      then have "unat v < n" "unat (nids ! unat v) = p" "vals ! unat v = vals ! n"
        using IH(2) [OF p] unfolding value_edges_def by blast+
      then have "unat v = n"
        using values_wf_pairs [OF wf, of "unat v" n] kp Suc.prems by (simp add: word_unat_eq_iff)
      then show False using \<open>unat v < n\<close> by simp
    qed
    moreover have n: "length (take n vals) = n" "length (take n nids) = n" using W Suc.prems by auto
    ultimately have "value_edges (Suc n) (take (Suc n) vals) (take (Suc n) nids) p
        (if ?k = p then (?r ! p)(vals ! n \<mapsto> of_nat n) else ?r ! p)"
      using value_edges_push [of "take n vals" "take n nids" p "?r ! p" "nids ! n" "vals ! n"]
        IH(2) [OF p] W(2) Suc.prems unfolding T n by (simp add: value_edges_take)
    then show ?thesis by (simp only: value_edges_take)
  qed
  moreover have "foldl (add_value vals nids) (replicate nn Map.empty) [0..<Suc n] =
      ?r[?k := (?r ! ?k)(vals ! n \<mapsto> of_nat n)]" by (simp add: add_value_def Let_def)
  moreover have "?r[?k := (?r ! ?k)(vals ! n \<mapsto> of_nat n)] ! p =
      (if ?k = p then (?r ! p)(vals ! n \<mapsto> of_nat n) else ?r ! p)" for p
    using IH(1) W(3) by (cases "?k = p") auto
  ultimately show ?case using IH(1) by (simp only: Let_def length_list_update) blast
qed

lemma value_table_of_eq:
  assumes wf: "values_wf nn vals nids tab"
  shows "value_table_of nn vals nids = tab"
proof (rule nth_equalityI)
  note P = value_table_prefix [OF wf order_refl]
  show "length (value_table_of nn vals nids) = length tab"
    using P wf by (simp add: value_table_of_def Let_def values_wf_def)
  show "value_table_of nn vals nids ! p = tab ! p" if "p < length (value_table_of nn vals nids)" for p
    using P wf that value_edges_unique
    by (auto simp: value_table_of_def Let_def values_wf_def)
qed

section \<open>Flush and open\<close>

definition at_stored :: "attr_io \<Rightarrow> attr_table \<Rightarrow> fstore \<Rightarrow> bool" where
  "at_stored io t fs \<longleftrightarrow>
     stored (ai_str io) (at_dirPath t, at_propName t @ SUFFIX_NAME_STR) [[]] (nameStrVec t) (saveNameStrNum t) fs \<and>
     stored (ai_str io) (at_dirPath t, at_propName t @ SUFFIX_VALUE_STR) [[]] (valueStrVec t) (saveValueStrNum t) fs \<and>
     stored (ai_id io) (at_dirPath t, at_propName t @ SUFFIX_NAME_ID) [0] (nameIdVec t) (saveNameIdNum t) fs \<and>
     stored (ai_id io) (at_dirPath t, at_propName t @ AT_SUFFIX_INDEX_ID) [0] (indexTable (at_valueIdTable t)) (at_saveIndexNum t) fs \<and>
     stored (ai_id io) (at_dirPath t, at_propName t @ AT_SUFFIX_VALUE_ID) [] (multiValueTable (at_valueIdTable t)) (at_saveValueNum t) fs"

lemma saveNameValuePair_frame:
  "saveNameValuePair io key t fs = (ok, fs') \<Longrightarrow> key' \<noteq> key \<Longrightarrow> fs' key' = fs key'"
  by (auto simp: saveNameValuePair_def Let_def split: if_splits)

lemma at_flush_steps:
  assumes "at_flush io t fs = (True, t', fs')"
  obtains fs0 n1 fs1 n2 fs2 n3 fs3 n4 fs4 n5 where
    "saveNameValuePair io (at_dirPath t, at_propName t @ SUFFIX_NAME_VALUE) t fs = (True, fs0)"
    "save_container_count (ai_str io) (at_dirPath t, at_propName t @ SUFFIX_NAME_STR)
       (nameStrVec t) (saveNameStrNum t) fs0 = (True, n1, fs1)"
    "save_container_count (ai_str io) (at_dirPath t, at_propName t @ SUFFIX_VALUE_STR)
       (valueStrVec t) (saveValueStrNum t) fs1 = (True, n2, fs2)"
    "save_container_count (ai_id io) (at_dirPath t, at_propName t @ SUFFIX_NAME_ID)
       (nameIdVec t) (saveNameIdNum t) fs2 = (True, n3, fs3)"
    "save_container_count (ai_id io) (at_dirPath t, at_propName t @ AT_SUFFIX_INDEX_ID)
       (indexTable (at_valueIdTable t)) (at_saveIndexNum t) fs3 = (True, n4, fs4)"
    "save_container_count (ai_id io) (at_dirPath t, at_propName t @ AT_SUFFIX_VALUE_ID)
       (multiValueTable (at_valueIdTable t)) (at_saveValueNum t) fs4 = (True, n5, fs')"
proof -
  let ?key = "\<lambda>suffix. (at_dirPath t, at_propName t @ suffix)"
  obtain ok0 fs0 where 0: "saveNameValuePair io (?key SUFFIX_NAME_VALUE) t fs = (ok0, fs0)" by fastforce
  obtain ok1 n1 fs1 where 1: "save_container_count (ai_str io) (?key SUFFIX_NAME_STR)
      (nameStrVec t) (saveNameStrNum t) fs0 = (ok1, n1, fs1)" by (metis surj_pair)
  obtain ok2 n2 fs2 where 2: "save_container_count (ai_str io) (?key SUFFIX_VALUE_STR)
      (valueStrVec t) (saveValueStrNum t) fs1 = (ok2, n2, fs2)" by (metis surj_pair)
  obtain ok3 n3 fs3 where 3: "save_container_count (ai_id io) (?key SUFFIX_NAME_ID)
      (nameIdVec t) (saveNameIdNum t) fs2 = (ok3, n3, fs3)" by (metis surj_pair)
  obtain ok4 n4 fs4 where 4: "save_container_count (ai_id io) (?key AT_SUFFIX_INDEX_ID)
      (indexTable (at_valueIdTable t)) (at_saveIndexNum t) fs3 = (ok4, n4, fs4)" by (metis surj_pair)
  obtain ok5 n5 fs5 where 5: "save_container_count (ai_id io) (?key AT_SUFFIX_VALUE_ID)
      (multiValueTable (at_valueIdTable t)) (at_saveValueNum t) fs4 = (ok5, n5, fs5)" by (metis surj_pair)
  have "ok0 \<and> ok1 \<and> ok2 \<and> ok3 \<and> ok4 \<and> ok5 \<and> fs5 = fs'"
    using assms by (simp add: at_flush_def Let_def 0 1 2 3 4 5 split: if_splits)
  then show thesis using that 0 1 2 3 4 5 by simp
qed

lemma at_flush_files:
  assumes fl: "at_flush io t fs = (True, t', fs')" and st: "at_stored io t fs"
    and ar: "faithful_archive (ai_str io)" "faithful_archive (ai_id io)"
  shows "load_container (ai_str io) (at_dirPath t, at_propName t @ SUFFIX_NAME_STR) [[]] fs' = (True, nameStrVec t)"
    "load_container (ai_str io) (at_dirPath t, at_propName t @ SUFFIX_VALUE_STR) [[]] fs' = (True, valueStrVec t)"
    "load_container (ai_id io) (at_dirPath t, at_propName t @ SUFFIX_NAME_ID) [0] fs' = (True, nameIdVec t)"
    "load_container (ai_id io) (at_dirPath t, at_propName t @ AT_SUFFIX_INDEX_ID) [0] fs' = (True, indexTable (at_valueIdTable t))"
    "load_container (ai_id io) (at_dirPath t, at_propName t @ AT_SUFFIX_VALUE_ID) [] fs' = (True, multiValueTable (at_valueIdTable t))"
proof -
  from fl obtain fs0 n1 fs1 n2 fs2 n3 fs3 n4 fs4 n5 where s:
    "saveNameValuePair io (at_dirPath t, at_propName t @ SUFFIX_NAME_VALUE) t fs = (True, fs0)"
    "save_container_count (ai_str io) (at_dirPath t, at_propName t @ SUFFIX_NAME_STR)
       (nameStrVec t) (saveNameStrNum t) fs0 = (True, n1, fs1)"
    "save_container_count (ai_str io) (at_dirPath t, at_propName t @ SUFFIX_VALUE_STR)
       (valueStrVec t) (saveValueStrNum t) fs1 = (True, n2, fs2)"
    "save_container_count (ai_id io) (at_dirPath t, at_propName t @ SUFFIX_NAME_ID)
       (nameIdVec t) (saveNameIdNum t) fs2 = (True, n3, fs3)"
    "save_container_count (ai_id io) (at_dirPath t, at_propName t @ AT_SUFFIX_INDEX_ID)
       (indexTable (at_valueIdTable t)) (at_saveIndexNum t) fs3 = (True, n4, fs4)"
    "save_container_count (ai_id io) (at_dirPath t, at_propName t @ AT_SUFFIX_VALUE_ID)
       (multiValueTable (at_valueIdTable t)) (at_saveValueNum t) fs4 = (True, n5, fs')"
    by (rule at_flush_steps)
  let ?key = "\<lambda>suffix. (at_dirPath t, at_propName t @ suffix)"
  note F = saveNameValuePair_frame [OF s(1)] save_container_count_frame [OF s(2)]
    save_container_count_frame [OF s(3)] save_container_count_frame [OF s(4)]
    save_container_count_frame [OF s(5)] save_container_count_frame [OF s(6)]
  have S: "stored (ai_str io) (?key SUFFIX_NAME_STR) [[]] (nameStrVec t) (saveNameStrNum t) fs"
    "stored (ai_str io) (?key SUFFIX_VALUE_STR) [[]] (valueStrVec t) (saveValueStrNum t) fs"
    "stored (ai_id io) (?key SUFFIX_NAME_ID) [0] (nameIdVec t) (saveNameIdNum t) fs"
    "stored (ai_id io) (?key AT_SUFFIX_INDEX_ID) [0] (indexTable (at_valueIdTable t)) (at_saveIndexNum t) fs"
    "stored (ai_id io) (?key AT_SUFFIX_VALUE_ID) [] (multiValueTable (at_valueIdTable t)) (at_saveValueNum t) fs"
    using st by (simp_all add: at_stored_def)
  have e1: "fs0 (?key SUFFIX_NAME_STR) = fs (?key SUFFIX_NAME_STR)"
    by (simp add: F(1) attr_suffix_defs)
  have g1: "fs' (?key SUFFIX_NAME_STR) = fs1 (?key SUFFIX_NAME_STR)"
    by (simp add: F(6) F(5) F(4) F(3) attr_suffix_defs)
  have e2: "fs1 (?key SUFFIX_VALUE_STR) = fs (?key SUFFIX_VALUE_STR)"
    by (simp add: F(2) F(1) attr_suffix_defs)
  have g2: "fs' (?key SUFFIX_VALUE_STR) = fs2 (?key SUFFIX_VALUE_STR)"
    by (simp add: F(6) F(5) F(4) attr_suffix_defs)
  have e3: "fs2 (?key SUFFIX_NAME_ID) = fs (?key SUFFIX_NAME_ID)"
    by (simp add: F(3) F(2) F(1) attr_suffix_defs)
  have g3: "fs' (?key SUFFIX_NAME_ID) = fs3 (?key SUFFIX_NAME_ID)"
    by (simp add: F(6) F(5) attr_suffix_defs)
  have e4: "fs3 (?key AT_SUFFIX_INDEX_ID) = fs (?key AT_SUFFIX_INDEX_ID)"
    by (simp add: F(4) F(3) F(2) F(1) attr_suffix_defs)
  have g4: "fs' (?key AT_SUFFIX_INDEX_ID) = fs4 (?key AT_SUFFIX_INDEX_ID)"
    by (simp add: F(6) attr_suffix_defs)
  have e5: "fs4 (?key AT_SUFFIX_VALUE_ID) = fs (?key AT_SUFFIX_VALUE_ID)"
    by (simp add: F(5) F(4) F(3) F(2) F(1) attr_suffix_defs)
  show "load_container (ai_str io) (?key SUFFIX_NAME_STR) [[]] fs' = (True, nameStrVec t)"
    by (rule save_count_chain [OF s(2) S(1) _ _ ar(1)], rule e1, rule g1)
  show "load_container (ai_str io) (?key SUFFIX_VALUE_STR) [[]] fs' = (True, valueStrVec t)"
    by (rule save_count_chain [OF s(3) S(2) _ _ ar(1)], rule e2, rule g2)
  show "load_container (ai_id io) (?key SUFFIX_NAME_ID) [0] fs' = (True, nameIdVec t)"
    by (rule save_count_chain [OF s(4) S(3) _ _ ar(2)], rule e3, rule g3)
  show "load_container (ai_id io) (?key AT_SUFFIX_INDEX_ID) [0] fs' = (True, indexTable (at_valueIdTable t))"
    by (rule save_count_chain [OF s(5) S(4) _ _ ar(2)], rule e4, rule g4)
  show "load_container (ai_id io) (?key AT_SUFFIX_VALUE_ID) [] fs' = (True, multiValueTable (at_valueIdTable t))"
    by (rule save_count_chain [OF s(6) S(5) _ _ ar(2)], rule e5, rule refl)
qed

section \<open>Opening an empty directory\<close>

definition at_fresh :: "string \<Rightarrow> string \<Rightarrow> attr_table" where
  "at_fresh dir prop = at_init\<lparr>at_dirPath := dir, at_propName := prop, saveNameStrNum := 1,
     nameStrMap := [[] \<mapsto> 0], saveValueStrNum := 1, saveNameIdNum := 1, valueStrTable := [[[] \<mapsto> 0]],
     at_saveIndexNum := 1, at_saveValueNum := 0\<rparr>"

lemma at_open_fresh: "at_open io dir prop at_init Map.empty = (True, at_fresh dir prop)"
  by (simp add: at_open_def at_init_def at_fresh_def load_container_count_def load_container_def
      Let_def name_map_of_def add_name_def value_table_of_def add_value_def pid_init_def)

lemma unat_eq_0_u32: "unat (v :: u32) = 0 \<longleftrightarrow> v = 0"
  using word_unat_eq_iff [of v 0] by simp

lemma at_fresh_wf [wf_intros]: "at_wf (at_fresh dir prop)"
proof -
  have n: "inverts 1 [[]] [[] \<mapsto> 0]" by (auto simp: inverts_def unat_eq_0_u32)
  have v: "value_edges 1 [[]] [0] 0 [[] \<mapsto> 0]" by (auto simp: value_edges_def unat_eq_0_u32)
  show ?thesis using n v
    by (simp add: at_wf_def names_wf_def values_wf_def at_fresh_def at_init_def pid_init_wf)
qed

section \<open>Properties\<close>

text \<open>attribute names. \<open>insertNameId\<close> returns the id that \<open>nameId\<close> finds afterwards and whose string is
the name, keeps the table well-formed with everything it had, and is idempotent. It throws only when
all ids are used; since the key is inserted before the check, the same call made again after the
exception succeeds with the reserved id 0.\<close>

theorem attr_name_insert_lookup:
  assumes "at_wf t"
  shows "case insertNameId name t of
      (Inr n, t') \<Rightarrow> at_wf t' \<and> at_extends t t' \<and> nameId t' name = n \<and> nameStr t' n = Some name \<and>
        insertNameId name t' = (Inr n, t') \<and>
        (\<forall>s. nameId t s \<noteq> 0 \<longrightarrow> nameId t' s = nameId t s)
    | (Inl e, t') \<Rightarrow> length (nameStrVec t) = 2 ^ 32 \<and> insertNameId name t' = (Inr 0, t')"
proof -
  obtain r t' where ins: "insertNameId name t = (r, t')" by fastforce
  show ?thesis
  proof (cases r)
    case (Inl e)
    then have "(of_nat (length (nameStrVec t)) :: u32) = 0" "nameStrMap t' name = Some 0"
      using ins by (auto simp: insertNameId_def Let_def split: option.splits if_splits)
    moreover have "0 < length (nameStrVec t)" "length (nameStrVec t) \<le> 2 ^ 32"
      using assms by (auto simp: at_wf_def names_wf_def)
    ultimately show ?thesis using ins Inl of_nat_u32_eq_0_iff [of "length (nameStrVec t)"]
      by (auto simp: insertNameId_def [of name t'] Let_def)
  next
    case (Inr n)
    note I = insertNameId_ok [OF assms ins [unfolded Inr]]
    have "nameId t' s = nameId t s" if nz: "nameId t s \<noteq> 0" for s
    proof -
      obtain m where m: "nameStrMap t s = Some m"
        using nz by (cases "nameStrMap t s") (auto simp: nameId_def)
      then have "nameStr t' m = Some s" using name_lookup [OF assms] at_extends_reads(1) [OF I(2)] by blast
      then have "nameStrMap t' s = Some m" using name_lookup [OF I(1)] by blast
      then show ?thesis using m by (simp add: nameId_def)
    qed
    then show ?thesis using ins Inr I name_lookup [OF I(1), of name n]
      by (simp add: nameId_def insertNameId_def [of name t'] Let_def)
  qed
qed

theorem attr_name_insert_lookup_witness:
  "let t = snd (insertNameId (ustr ''color'') (at_fresh ''d'' ''p''))
   in fst (insertNameId (ustr ''color'') (at_fresh ''d'' ''p'')) = Inr 1 \<and>
      nameId t (ustr ''color'') = 1 \<and> nameStr t 1 = Some (ustr ''color'')"
proof -
  have "fst (insertNameId (ustr ''color'') (at_fresh ''d'' ''p'')) = Inr 1"
    by (simp add: insertNameId_def at_fresh_def at_init_def Let_def ustr_def)
  then show ?thesis
    using attr_name_insert_lookup [OF at_fresh_wf [of "''d''" "''p''"], where name = "ustr ''color''"]
    by (auto simp: Let_def split: prod.splits)
qed



text \<open>an attribute table survives a flush and a reopen: both maps are rebuilt from the saved
vectors exactly as they were, and the documents keep their ids.\<close>

theorem attr_flush_open:
  assumes "at_wf t" "at_stored io t fs" "faithful_archive (ai_str io)" "faithful_archive (ai_id io)"
    and "at_flush io t fs = (True, t', fs')"
  shows "\<exists>u. at_open io (at_dirPath t) (at_propName t) at_init fs' = (True, u) \<and> at_wf u \<and>
    nameStrVec u = nameStrVec t \<and> nameStrMap u = nameStrMap t \<and> valueStrVec u = valueStrVec t \<and>
    nameIdVec u = nameIdVec t \<and> valueStrTable u = valueStrTable t \<and>
    at_valueIdTable u = at_valueIdTable t"
proof -
  note L = at_flush_files [OF assms(5,2-4), THEN load_count_of_load]
  note W = at_wfD [OF assms(1)]
  obtain iv mv where "at_valueIdTable t = \<lparr>indexTable = iv, multiValueTable = mv\<rparr>"
    by (cases "at_valueIdTable t") simp
  then show ?thesis using L name_map_of_eq [OF W(1)] value_table_of_eq [OF W(2)] W
    by (simp add: at_open_def at_init_def pid_init_def Let_def at_wf_def)
qed

theorem attr_flush_open_witness:
  "let io = \<lparr>ai_str = str_archive, ai_id = id_archive, ai_text = (\<lambda>_. True), ai_conv = (\<lambda>s. s),
         ai_entries = (\<lambda>_. [])\<rparr>;
       t = snd (insertNameId (ustr ''color'') (at_fresh ''d'' ''p''));
       fs = snd (snd (at_flush io t Map.empty))
   in \<exists>u. at_open io ''d'' ''p'' at_init fs = (True, u) \<and> nameId u (ustr ''color'') = 1"
proof -
  let ?io = "\<lparr>ai_str = str_archive, ai_id = id_archive, ai_text = (\<lambda>_. True), ai_conv = (\<lambda>s. s),
         ai_entries = (\<lambda>_. [])\<rparr>"
  let ?t = "snd (insertNameId (ustr ''color'') (at_fresh ''d'' ''p''))"
  have ins: "insertNameId (ustr ''color'') (at_fresh ''d'' ''p'') = (Inr 1, ?t)"
    and nm: "nameStrMap ?t (ustr ''color'') = Some 1" "at_dirPath ?t = ''d''" "at_propName ?t = ''p''"
    by (simp_all add: insertNameId_def at_fresh_def at_init_def Let_def ustr_def)
  have wf: "at_wf ?t" by (rule insertNameId_ok(1) [OF at_fresh_wf ins])
  have st: "at_stored ?io ?t Map.empty"
    by (simp add: insertNameId_def at_fresh_def at_init_def Let_def ustr_def at_stored_def stored_def
        load_container_def pid_init_def word_le_nat_alt)
  have "fst (at_flush ?io ?t Map.empty)"
    by (simp add: at_flush_def Let_def saveNameValuePair_def save_container_count_def save_container_def
        str_archive_def id_archive_def insertNameId_def at_fresh_def at_init_def ustr_def pid_init_def)
  then obtain t' fs' where f: "at_flush ?io ?t Map.empty = (True, t', fs')"
    by (metis prod.collapse)
  have ar: "faithful_archive (ai_str ?io)" "faithful_archive (ai_id ?io)"
    by (simp_all add: faithful_str_archive faithful_id_archive)
  obtain u where "at_open ?io ''d'' ''p'' at_init fs' = (True, u)" "nameStrMap u = nameStrMap ?t"
    using attr_flush_open [OF wf st ar f] unfolding nm by blast
  then show ?thesis using f nm(1) by (simp add: Let_def nameId_def)
qed

end
