(* ===== verification/Date_Group.thy ===== *)
theory Date_Group
  imports Prop_Id_Table File_Container
begin

text \<open>
  Dates as group values (core/mining-manager/group-manager: DateGroupTable, DateStrFormat,
  DateStrParser). A date packs year, month and day into one 32-bit word; the table stores a set of
  dates for each document; the parsers translate between dates and the strings of the API
  (\<^verbatim>\<open>YYYY\<close>, \<^verbatim>\<open>YYYY-MM\<close>, \<^verbatim>\<open>YYYY-MM-DD\<close>) and of the SCD files (\<^verbatim>\<open>YYYYMMDDhhmmss\<close>).
\<close>

unbundle bit_operations_syntax

type_synonym date_t = u32
type_synonym date_vec = "date_t list"

section \<open>Masks\<close>

definition MASK_YEAR :: u32 where "MASK_YEAR = 0x7FFE0000"
definition MASK_MONTH :: u32 where "MASK_MONTH = 0x1E000"
definition MASK_DAY :: u32 where "MASK_DAY = 0x1F00"
definition MASK_YEAR_MONTH :: u32 where "MASK_YEAR_MONTH = MASK_YEAR OR MASK_MONTH"
definition MASK_YEAR_MONTH_DAY :: u32 where "MASK_YEAR_MONTH_DAY = MASK_YEAR_MONTH OR MASK_DAY"

section \<open>DateStrFormat\<close>

text \<open>
  Boost is outside of the repository: its tokenizers (by the separator \<^verbatim>\<open>-\<close> with empty tokens kept,
  and by offsets), \<open>lexical_cast\<close> and one \<^verbatim>\<open>%|0w|\<close> item of \<open>boost::format\<close> are parameters.
\<close>

record date_boost =
  db_split :: "string \<Rightarrow> string list"
  db_offsets :: "nat list \<Rightarrow> string \<Rightarrow> string list"
  db_lexcast :: "string \<Rightarrow> u32 option"
  db_pad :: "nat \<Rightarrow> u32 \<Rightarrow> string"

definition DATE_INDEX_NUM :: nat where "DATE_INDEX_NUM = 3"

text \<open>Mask and shift of each part of a date.\<close>

definition dateValueParsers :: "(u32 \<times> nat) list" where
  "dateValueParsers = [(MASK_YEAR, 17), (MASK_MONTH, 13), (MASK_DAY, 8)]"

definition parser_extract :: "u32 \<times> nat \<Rightarrow> date_t \<Rightarrow> date_t" where
  "parser_extract = (\<lambda>(m, shift) date. drop_bit shift (date AND m))"

definition parser_create :: "u32 \<times> nat \<Rightarrow> date_t \<Rightarrow> date_t" where
  "parser_create = (\<lambda>(m, shift) date. push_bit shift date)"

definition dateRanges :: "(u32 \<times> u32) list" where
  "dateRanges = [(0, 9999), (1, 12), (1, 31)]"

definition scdDateOffsets :: "nat list" where
  "scdDateOffsets = [4, 2, 2]"

definition SCD_DATE_STR_SIZE :: nat where
  "SCD_DATE_STR_SIZE = length ''YYYYMMDDhhmmss''"

text \<open>The widths of the items of the API formats; the items are separated by \<^verbatim>\<open>-\<close>.\<close>

definition apiDateStrFormats :: "nat list list" where
  "apiDateStrFormats = [[4], [4, 2], [4, 2, 2]]"

definition checkDateRange :: "date_vec \<Rightarrow> bool" where
  "checkDateRange dateVec =
     (let tokNum = length dateVec in
      if tokNum < 1 \<or> tokNum > DATE_INDEX_NUM then False
      else list_all (\<lambda>i. let date = dateVec ! i; range = dateRanges ! i
                        in \<not> (date < fst range \<or> date > snd range)) [0..<tokNum])"

text \<open>The first token that is no number ends the loop with \<open>None\<close> (the caught exception).\<close>

fun cast_tokens :: "date_boost \<Rightarrow> string list \<Rightarrow> date_vec \<Rightarrow> date_vec option" where
  "cast_tokens db [] dateVec = Some dateVec"
| "cast_tokens db (tok # toks) dateVec =
     (case db_lexcast db tok of
        None \<Rightarrow> None
      | Some date \<Rightarrow> cast_tokens db toks (dateVec @ [date]))"

definition tokenizeDate :: "date_boost \<Rightarrow> string list \<Rightarrow> date_vec option" where
  "tokenizeDate db toks =
     (case cast_tokens db toks [] of
        None \<Rightarrow> None
      | Some dateVec \<Rightarrow> if checkDateRange dateVec then Some dateVec else None)"

definition apiDateStrToDateVec :: "date_boost \<Rightarrow> string \<Rightarrow> date_vec option" where
  "apiDateStrToDateVec db dateStr = tokenizeDate db (db_split db dateStr)"

definition scdDateStrToDateVec :: "date_boost \<Rightarrow> string \<Rightarrow> date_vec option" where
  "scdDateStrToDateVec db dateStr =
     (if length dateStr \<noteq> SCD_DATE_STR_SIZE then None
      else tokenizeDate db (db_offsets db scdDateOffsets dateStr))"

definition createDate :: "date_vec \<Rightarrow> date_t" where
  "createDate dateVec =
     foldl (\<lambda>date i. date OR parser_create (dateValueParsers ! i) (dateVec ! i)) 0 [0..<length dateVec]"

definition extractDate :: "date_t \<Rightarrow> date_vec" where
  "extractDate date = map (\<lambda>i. parser_extract (dateValueParsers ! i) date) [0..<DATE_INDEX_NUM]"

definition last_index :: "date_vec \<Rightarrow> nat" where
  "last_index dateVec = length (takeWhile (\<lambda>i. dateVec ! i \<noteq> 0) [0..<DATE_INDEX_NUM])"

fun join_dash :: "string list \<Rightarrow> string" where
  "join_dash [] = []"
| "join_dash [s] = s"
| "join_dash (s # ss) = s @ CHR ''-'' # join_dash ss"

definition formatAPIDateStr :: "date_boost \<Rightarrow> date_vec \<Rightarrow> string" where
  "formatAPIDateStr db dateVec =
     (let n = last_index dateVec; lastIndex = (if n \<noteq> 0 then n - 1 else n);
          fmt = apiDateStrFormats ! lastIndex
      in join_dash (map (\<lambda>i. db_pad db (fmt ! i) (dateVec ! i)) [0..<Suc lastIndex]))"

section \<open>DateStrParser\<close>

definition unitStrToMask :: "string \<Rightarrow> u32 option" where
  "unitStrToMask unitStr =
     (if unitStr = ''Y'' then Some MASK_YEAR
      else if unitStr = ''M'' then Some MASK_YEAR_MONTH
      else if unitStr = ''D'' then Some MASK_YEAR_MONTH_DAY
      else None)"

definition dateMasks :: "u32 list" where
  "dateMasks = [MASK_YEAR, MASK_YEAR_MONTH, MASK_YEAR_MONTH_DAY]"

definition apiStrToDateMask :: "date_boost \<Rightarrow> string \<Rightarrow> (date_t \<times> u32) option" where
  "apiStrToDateMask db dateStr =
     (case apiDateStrToDateVec db dateStr of
        None \<Rightarrow> None
      | Some dateVec \<Rightarrow> Some (createDate dateVec, dateMasks ! (length dateVec - 1)))"

definition scdStrToDate :: "date_boost \<Rightarrow> string \<Rightarrow> date_t option" where
  "scdStrToDate db scdStr =
     (case scdDateStrToDateVec db scdStr of
        None \<Rightarrow> None
      | Some dateVec \<Rightarrow> if length dateVec \<noteq> DATE_INDEX_NUM then None else Some (createDate dateVec))"

definition dateToAPIStr :: "date_boost \<Rightarrow> date_t \<Rightarrow> string" where
  "dateToAPIStr db date = formatAPIDateStr db (extractDate date)"

section \<open>DateGroupTable\<close>

record date_group_table =
  dg_dirPath :: string
  dg_propName :: string
  dateValueTable :: prop_id_table
  dg_saveIndexNum :: u32
  dg_saveValueNum :: u32

definition dg_init :: "string \<Rightarrow> string \<Rightarrow> date_group_table" where
  "dg_init dir prop = \<lparr>dg_dirPath = dir, dg_propName = prop, dateValueTable = pid_init,
     dg_saveIndexNum = 0, dg_saveValueNum = 0\<rparr>"

definition DG_SUFFIX_INDEX_ID :: string where "DG_SUFFIX_INDEX_ID = ''.index_id.bin''"
definition DG_SUFFIX_VALUE_ID :: string where "DG_SUFFIX_VALUE_ID = ''.value_id.bin''"

definition dg_open :: "u32 archive \<Rightarrow> date_group_table \<Rightarrow> fstore \<Rightarrow> bool \<times> date_group_table" where
  "dg_open ar t fs =
     (let key = (\<lambda>suffix. (dg_dirPath t, dg_propName t @ suffix));
          (ok1, v1, n1) = load_container_count ar (key DG_SUFFIX_INDEX_ID)
            (indexTable (dateValueTable t)) (dg_saveIndexNum t) fs;
          t1 = t\<lparr>dateValueTable := (dateValueTable t)\<lparr>indexTable := v1\<rparr>, dg_saveIndexNum := n1\<rparr> in
      if \<not> ok1 then (False, t1) else
      let (ok2, v2, n2) = load_container_count ar (key DG_SUFFIX_VALUE_ID)
            (multiValueTable (dateValueTable t)) (dg_saveValueNum t) fs;
          t2 = t1\<lparr>dateValueTable := (dateValueTable t1)\<lparr>multiValueTable := v2\<rparr>, dg_saveValueNum := n2\<rparr> in
      (ok2, t2))"

definition dg_flush ::
  "u32 archive \<Rightarrow> date_group_table \<Rightarrow> fstore \<Rightarrow> bool \<times> date_group_table \<times> fstore" where
  "dg_flush ar t fs =
     (let key = (\<lambda>suffix. (dg_dirPath t, dg_propName t @ suffix));
          (ok1, n1, fs1) = save_container_count ar (key DG_SUFFIX_INDEX_ID)
            (indexTable (dateValueTable t)) (dg_saveIndexNum t) fs; t1 = t\<lparr>dg_saveIndexNum := n1\<rparr> in
      if \<not> ok1 then (False, t1, fs1) else
      let (ok2, n2, fs2) = save_container_count ar (key DG_SUFFIX_VALUE_ID)
            (multiValueTable (dateValueTable t)) (dg_saveValueNum t) fs1; t2 = t1\<lparr>dg_saveValueNum := n2\<rparr> in
      (ok2, t2, fs2))"

definition dg_clear :: "date_group_table \<Rightarrow> date_group_table" where
  "dg_clear t = t\<lparr>dateValueTable := pid_clear (dateValueTable t), dg_saveIndexNum := 0, dg_saveValueNum := 0\<rparr>"

definition dg_resize :: "nat \<Rightarrow> date_group_table \<Rightarrow> date_group_table" where
  "dg_resize num t = t\<lparr>dateValueTable := pid_resize num (dateValueTable t)\<rparr>"

text \<open>A \<open>std::set\<close> is traversed in ascending order.\<close>

definition setDateSet :: "docid \<Rightarrow> date_t set \<Rightarrow> date_group_table \<Rightarrow> unit result \<times> date_group_table" where
  "setDateSet docId dateSet t =
     (let (r, v) = pid_setIdList docId (sorted_list_of_set dateSet) (dateValueTable t)
      in (r, t\<lparr>dateValueTable := v\<rparr>))"

definition getDateSet :: "date_group_table \<Rightarrow> docid \<Rightarrow> u32 \<Rightarrow> date_t set option" where
  "getDateSet t docId m =
     map_option (\<lambda>dateList. set (map (\<lambda>date. date AND m) dateList)) (pid_ids (dateValueTable t) docId)"

section \<open>Packing\<close>

lemma mask_shapes:
  "MASK_YEAR = push_bit 17 (mask 14)" "MASK_MONTH = push_bit 13 (mask 4)" "MASK_DAY = push_bit 8 (mask 5)"
  by (simp_all add: MASK_YEAR_def MASK_MONTH_def MASK_DAY_def mask_eq_exp_minus_1 push_bit_eq_mult)

lemma low_bits:
  fixes x :: u32
  assumes "x < 2 ^ k" "bit x j"
  shows "j < k"
proof -
  have "bit (x AND mask k) j" using assms by (simp add: less_mask_eq)
  then show ?thesis by (simp add: bit_simps)
qed

lemma extract_parts:
  assumes "y < 2 ^ 14" "m < 2 ^ 4" "d < 2 ^ 5"
  defines "date \<equiv> push_bit 17 y OR push_bit 13 m OR push_bit 8 (d :: u32)"
  shows "drop_bit 17 (date AND MASK_YEAR) = y" "drop_bit 13 (date AND MASK_MONTH) = m"
    "drop_bit 8 (date AND MASK_DAY) = d"
proof -
  note B = low_bits [OF assms(1)] low_bits [OF assms(2)] low_bits [OF assms(3)]
  show "drop_bit 17 (date AND MASK_YEAR) = y"
    by (rule bit_word_eqI) (auto simp: date_def mask_shapes bit_simps dest: B)
  show "drop_bit 13 (date AND MASK_MONTH) = m"
    by (rule bit_word_eqI) (auto simp: date_def mask_shapes bit_simps dest: B)
  show "drop_bit 8 (date AND MASK_DAY) = d"
    by (rule bit_word_eqI) (auto simp: date_def mask_shapes bit_simps dest: B)
qed

lemma range_bounds:
  "(y :: u32) \<le> 9999 \<Longrightarrow> y < 2 ^ 14" "(m :: u32) \<le> 12 \<Longrightarrow> m < 2 ^ 4" "(d :: u32) \<le> 31 \<Longrightarrow> d < 2 ^ 5"
  by (auto simp: word_le_nat_alt word_less_nat_alt)

lemma checkDateRange_cases:
  assumes "checkDateRange v"
  obtains (year) y where "v = [y]" "y \<le> 9999"
  | (month) y m where "v = [y, m]" "y \<le> 9999" "1 \<le> m" "m \<le> 12"
  | (day) y m d where "v = [y, m, d]" "y \<le> 9999" "1 \<le> m" "m \<le> 12" "1 \<le> d" "d \<le> 31"
proof -
  have "length v = 1 \<or> length v = 2 \<or> length v = 3"
    using assms by (auto simp: checkDateRange_def Let_def DATE_INDEX_NUM_def le_Suc_eq numeral_3_eq_3 not_less split: if_splits)
  then consider y where "v = [y]" | y m where "v = [y, m]" | y m d where "v = [y, m, d]"
    by (auto simp: length_Suc_conv numeral_eq_Suc)
  then show thesis
  proof cases
    case 1
    then show thesis using assms year by (simp add: checkDateRange_def dateRanges_def not_less DATE_INDEX_NUM_def)
  next
    case 2
    then show thesis using assms month
      by (simp add: checkDateRange_def dateRanges_def not_less DATE_INDEX_NUM_def)
  next
    case 3
    then show thesis using assms day
      by (simp add: checkDateRange_def dateRanges_def not_less DATE_INDEX_NUM_def upt_rec)
  qed
qed

lemma upt_numerals: "[0..<2] = [0, 1]" "[0..<3] = [0, 1, 2]"
  by (simp_all add: upt_rec)

lemma extractDate_eq:
  "extractDate date = [drop_bit 17 (date AND MASK_YEAR), drop_bit 13 (date AND MASK_MONTH),
     drop_bit 8 (date AND MASK_DAY)]"
  by (simp add: extractDate_def DATE_INDEX_NUM_def upt_numerals dateValueParsers_def parser_extract_def
      del: drop_bit_and)

lemma createDate_eq:
  "createDate [y] = push_bit 17 y OR push_bit 13 0 OR push_bit 8 0"
  "createDate [y, m] = push_bit 17 y OR push_bit 13 m OR push_bit 8 0"
  "createDate [y, m, d] = push_bit 17 y OR push_bit 13 m OR push_bit 8 d"
  by (simp_all add: createDate_def dateValueParsers_def parser_create_def or.assoc)

lemma extract_create:
  assumes "checkDateRange v"
  shows "extractDate (createDate v) = v @ replicate (3 - length v) 0"
  using assms
proof (cases rule: checkDateRange_cases)
  case (year y)
  have "extractDate (createDate v) = [y, 0, 0]"
    unfolding year(1) extractDate_eq createDate_eq
    using extract_parts [OF range_bounds(1) [OF year(2)], of 0 0] by simp
  then show ?thesis using year by (simp add: numeral_2_eq_2)
next
  case (month y m)
  have "extractDate (createDate v) = [y, m, 0]"
    unfolding month(1) extractDate_eq createDate_eq
    using extract_parts [OF range_bounds(1) [OF month(2)] range_bounds(2) [OF month(4)], of 0] by simp
  then show ?thesis using month by simp
next
  case (day y m d)
  have "extractDate (createDate v) = [y, m, d]"
    unfolding day(1) extractDate_eq createDate_eq
    by (simp only: extract_parts [OF range_bounds(1) [OF day(2)] range_bounds(2) [OF day(4)]
        range_bounds(3) [OF day(6)]])
  then show ?thesis using day by simp
qed

section \<open>Strings\<close>

text \<open>What the code relies on of Boost, as documented.\<close>

fun pieces :: "nat list \<Rightarrow> string \<Rightarrow> string list" where
  "pieces [] s = []"
| "pieces (n # ns) s = take n s # pieces ns (drop n s)"

definition zero_pad :: "nat \<Rightarrow> nat \<Rightarrow> string" where
  "zero_pad w n = replicate (w - length (show_nat n)) CHR ''0'' @ show_nat n"

definition boost_laws :: "date_boost \<Rightarrow> bool" where
  "boost_laws db \<longleftrightarrow>
     (\<forall>ts. ts \<noteq> [] \<and> (\<forall>t\<in>set ts. CHR ''-'' \<notin> set t) \<longrightarrow> db_split db (join_dash ts) = ts) \<and>
     (\<forall>offs s. sum_list offs \<le> length s \<longrightarrow> db_offsets db offs s = pieces offs s) \<and>
     (\<forall>s. s \<noteq> [] \<and> list_all is_digit s \<and> digits_val s < 2 ^ 32 \<longrightarrow>
        db_lexcast db s = Some (of_nat (digits_val s))) \<and>
     (\<forall>w v. db_pad db w v = zero_pad w (unat v))"

lemma digits_val_zeros: "digits_val (replicate k CHR ''0'' @ s) = digits_val s"
  by (induction k) (auto simp: digits_val_def digit_val_def)

lemma zero_pad_digits: "list_all is_digit (zero_pad w n)" "zero_pad w n \<noteq> []"
  by (auto simp: zero_pad_def show_nat_digits list_all_iff is_digit_def)
    (metis Ball_set is_digit_def show_nat_digits)+

lemma digits_val_zero_pad [simp]: "digits_val (zero_pad w n) = n"
  by (simp add: zero_pad_def digits_val_zeros)

lemma zero_pad_no_dash: "CHR ''-'' \<notin> set (zero_pad w n)"
proof
  assume "CHR ''-'' \<in> set (zero_pad w n)"
  then have "is_digit CHR ''-''" using zero_pad_digits(1) by (auto simp: list_all_iff)
  then show False by (simp add: is_digit_def)
qed

lemma lexcast_pad:
  assumes "boost_laws db"
  shows "db_lexcast db (zero_pad w (unat v)) = Some v"
proof -
  have "unat v < 2 ^ 32" using unsigned_less [of v] by simp
  then show ?thesis using assms zero_pad_digits [of w "unat v"] by (simp add: boost_laws_def)
qed

lemma cast_padded:
  assumes "boost_laws db"
  shows "cast_tokens db (map (\<lambda>(w, v). zero_pad w (unat v)) wvs) acc = Some (acc @ map snd wvs)"
  by (induction wvs arbitrary: acc) (auto simp: lexcast_pad [OF assms])

lemma api_parse_padded:
  assumes "boost_laws db" "wvs \<noteq> []" "checkDateRange (map snd wvs)"
  shows "apiDateStrToDateVec db (join_dash (map (\<lambda>(w, v). zero_pad w (unat v)) wvs)) = Some (map snd wvs)"
proof -
  have "db_split db (join_dash (map (\<lambda>(w, v). zero_pad w (unat v)) wvs)) = map (\<lambda>(w, v). zero_pad w (unat v)) wvs"
    using assms(1,2) zero_pad_no_dash by (auto simp: boost_laws_def)
  then show ?thesis using assms(3) cast_padded [OF assms(1), of wvs "[]"]
    by (simp add: apiDateStrToDateVec_def tokenizeDate_def)
qed

lemma format_widths:
  assumes "checkDateRange v" "v ! 0 \<noteq> 0" "boost_laws db"
  shows "\<exists>wvs. map snd wvs = v \<and>
    formatAPIDateStr db (v @ replicate (3 - length v) 0) = join_dash (map (\<lambda>(w, v). zero_pad w (unat v)) wvs)"
proof -
  have pad: "db_pad db w x = zero_pad w (unat x)" for w x using assms(3) by (simp add: boost_laws_def)
  have nz: "(m :: u32) \<noteq> 0" if "1 \<le> m" for m using that by auto
  from assms(1) show ?thesis
  proof (cases rule: checkDateRange_cases)
    case (year y)
    then have "formatAPIDateStr db (v @ replicate (3 - length v) 0) = zero_pad 4 (unat y)"
      using assms(2) by (simp add: formatAPIDateStr_def last_index_def DATE_INDEX_NUM_def upt_numerals
          apiDateStrFormats_def pad Let_def numeral_2_eq_2)
    then show ?thesis using year by (intro exI [of _ "[(4, y)]"]) simp
  next
    case (month y m)
    then have "formatAPIDateStr db (v @ replicate (3 - length v) 0) =
        join_dash [zero_pad 4 (unat y), zero_pad 2 (unat m)]"
      using assms(2) nz [of m] by (simp add: formatAPIDateStr_def last_index_def DATE_INDEX_NUM_def
          upt_numerals apiDateStrFormats_def pad Let_def numeral_2_eq_2)
    then show ?thesis using month by (intro exI [of _ "[(4, y), (2, m)]"]) simp
  next
    case (day y m d)
    then have "formatAPIDateStr db (v @ replicate (3 - length v) 0) =
        join_dash [zero_pad 4 (unat y), zero_pad 2 (unat m), zero_pad 2 (unat d)]"
      using assms(2) nz [of m] nz [of d] by (simp add: formatAPIDateStr_def last_index_def
          DATE_INDEX_NUM_def upt_numerals apiDateStrFormats_def pad Let_def)
    then show ?thesis using day by (intro exI [of _ "[(4, y), (2, m), (2, d)]"]) simp
  qed
qed

section \<open>Properties\<close>

text \<open>packing. Every vector of year, month and day that passes the range check is recovered from the
packed 32-bit date; missing parts are read as 0.\<close>

theorem date_pack_roundtrip:
  assumes "checkDateRange v"
  shows "extractDate (createDate v) = v @ replicate (DATE_INDEX_NUM - length v) 0"
  using extract_create [OF assms] by (simp add: DATE_INDEX_NUM_def)

theorem date_pack_roundtrip_witness:
  "extractDate (createDate [2012, 7, 4]) = [2012, 7, 4]"
proof -
  have "checkDateRange [2012, 7, 4]"
    by (simp add: checkDateRange_def DATE_INDEX_NUM_def dateRanges_def upt_numerals)
  from date_pack_roundtrip [OF this] show ?thesis by (simp add: DATE_INDEX_NUM_def)
qed

text \<open>C28: API dates. A date made of a vector in range with a non-zero year is printed to a string that
parses back to the same date with the mask of the parts given.\<close>

theorem api_date_roundtrip:
  assumes "boost_laws db" "checkDateRange v" "v ! 0 \<noteq> 0"
  shows "apiStrToDateMask db (dateToAPIStr db (createDate v)) =
    Some (createDate v, dateMasks ! (length v - 1))"
proof -
  obtain wvs where w: "map snd wvs = v"
    "formatAPIDateStr db (v @ replicate (3 - length v) 0) = join_dash (map (\<lambda>(w, v). zero_pad w (unat v)) wvs)"
    using format_widths [OF assms(2,3,1)] by blast
  have "wvs \<noteq> []" using w assms(2) by (auto simp: checkDateRange_def)
  then show ?thesis using api_parse_padded [OF assms(1), of wvs] w assms(2)
    by (simp add: apiStrToDateMask_def dateToAPIStr_def extract_create)
qed

text \<open>Concrete tokenizers and casts that satisfy the laws.\<close>

fun split_dash :: "string \<Rightarrow> string list" where
  "split_dash [] = [[]]"
| "split_dash (c # s) = (if c = CHR ''-'' then [] # split_dash s
     else case split_dash s of [] \<Rightarrow> [[c]] | t # ts \<Rightarrow> (c # t) # ts)"

definition plain_boost :: date_boost where
  "plain_boost = \<lparr>db_split = split_dash, db_offsets = pieces,
     db_lexcast = (\<lambda>s. if s \<noteq> [] \<and> list_all is_digit s \<and> digits_val s < 2 ^ 32
                     then Some (of_nat (digits_val s)) else None),
     db_pad = (\<lambda>w v. zero_pad w (unat v))\<rparr>"

lemma split_dash_plain: "CHR ''-'' \<notin> set t \<Longrightarrow> split_dash t = [t]"
  by (induction t) auto

lemma split_dash_cons: "CHR ''-'' \<notin> set t \<Longrightarrow> split_dash (t @ CHR ''-'' # s) = t # split_dash s"
  by (induction t) auto

lemma split_join_dash:
  "ts \<noteq> [] \<Longrightarrow> \<forall>t\<in>set ts. CHR ''-'' \<notin> set t \<Longrightarrow> split_dash (join_dash ts) = ts"
  by (induction ts rule: join_dash.induct) (auto simp: split_dash_plain split_dash_cons)

lemma plain_boost_laws: "boost_laws plain_boost"
  by (simp add: boost_laws_def plain_boost_def split_join_dash)

theorem api_date_roundtrip_witness:
  "apiStrToDateMask plain_boost (dateToAPIStr plain_boost (createDate [2012, 7])) =
     Some (createDate [2012, 7], MASK_YEAR_MONTH)"
proof -
  have "checkDateRange [2012, 7]"
    by (simp add: checkDateRange_def DATE_INDEX_NUM_def dateRanges_def upt_numerals)
  from api_date_roundtrip [OF plain_boost_laws this] show ?thesis by (simp add: dateMasks_def)
qed

text \<open>SCD dates. A string of the SCD length whose first eight characters are digits is accepted
exactly when year, month and day are in range, and gives the packed date; the time of day is not
looked at.\<close>

theorem scd_date_parse:
  assumes "boost_laws db" "length s = SCD_DATE_STR_SIZE" "list_all is_digit (take 8 s)"
  shows "scdStrToDate db s =
    (let v = map (\<lambda>t. of_nat (digits_val t)) (pieces [4, 2, 2] s)
     in if checkDateRange v then Some (createDate v) else None)"
proof -
  have small: "digits_val t < 10 ^ length t" if "list_all is_digit t" for t
    using that
  proof (induction t rule: rev_induct)
    case (snoc c t)
    then have "digits_val t < 10 ^ length t" "digit_val c \<le> 9"
      by (auto simp: is_digit_def digit_val_def)
    then have "10 * digits_val t + digit_val c < 10 * 10 ^ length t" by linarith
    then show ?case by (simp add: digits_val_snoc)
  qed (simp add: digits_val_def)
  have piece: "db_lexcast db t = Some (of_nat (digits_val t))"
    if "t \<in> set (pieces [4, 2, 2] s)" for t
  proof -
    have "set t \<subseteq> set (take 8 s)" and ne: "t \<noteq> []" and l: "length t \<le> 4"
      using that assms(2) set_take_subset_set_take [of 4 8 s] set_take_subset_set_take [of 6 8 s]
      by (auto simp: SCD_DATE_STR_SIZE_def take_drop dest: in_set_dropD in_set_takeD)
    then have d: "list_all is_digit t" using assms(3) by (auto simp: list_all_iff)
    have "digits_val t < 10 ^ 4"
      by (rule order_less_le_trans [OF small [OF d] power_increasing [OF l]]) simp
    then show ?thesis using assms(1) d ne by (simp add: boost_laws_def)
  qed
  have "db_offsets db scdDateOffsets s = pieces [4, 2, 2] s"
    using assms(1,2) by (simp add: boost_laws_def scdDateOffsets_def SCD_DATE_STR_SIZE_def)
  then show ?thesis using assms(2) piece
    by (simp add: scdStrToDate_def scdDateStrToDateVec_def tokenizeDate_def Let_def DATE_INDEX_NUM_def)
qed

theorem scd_date_parse_witness:
  "scdStrToDate plain_boost ''20120704143015'' = Some (createDate [2012, 7, 4])"
proof -
  have "length ''20120704143015'' = SCD_DATE_STR_SIZE" "list_all is_digit (take 8 ''20120704143015'')"
    by (simp_all add: SCD_DATE_STR_SIZE_def is_digit_def)
  from scd_date_parse [OF plain_boost_laws this] show ?thesis
    by (simp add: digits_val_def digit_val_def checkDateRange_def DATE_INDEX_NUM_def dateRanges_def
        upt_numerals)
qed

text \<open>year 0 passes the range check, but a date of year 0 is always printed as \<^verbatim>\<open>0000\<close>: month and
day are lost.\<close>

theorem year_zero_prints_no_month:
  "checkDateRange [0, m, d] \<Longrightarrow> dateToAPIStr db (createDate [0, m, d]) = db_pad db 4 0"
  using extract_create [of "[0, m, d]"]
  by (simp add: dateToAPIStr_def formatAPIDateStr_def last_index_def DATE_INDEX_NUM_def upt_numerals
      apiDateStrFormats_def)

theorem year_zero_prints_no_month_witness:
  "dateToAPIStr plain_boost (createDate [0, 7, 4]) = ''0000''"
proof -
  have "checkDateRange [0, 7, 4]"
    by (simp add: checkDateRange_def DATE_INDEX_NUM_def dateRanges_def upt_numerals)
  moreover have "show_nat 0 = ''0''" by (subst show_nat.simps) (simp add: digit_char_def char_of_def bit_0)
  ultimately show ?thesis using year_zero_prints_no_month [of 7 4 plain_boost]
    by (simp add: plain_boost_def zero_pad_def numeral_3_eq_3)
qed

text \<open>the dates of a document. After \<open>setDateSet\<close> has accepted a set, reading it with a mask gives the
masked dates of exactly that set; other documents keep theirs.\<close>

theorem date_set_masked_read:
  assumes "pid_wf (dateValueTable t)" "card S < 2 ^ 32" "S \<noteq> {0}" "setDateSet d S t = (Inr (), t')"
  shows "getDateSet t' d m = Some ((\<lambda>date. date AND m) ` S) \<and>
    (\<forall>e. e \<noteq> d \<longrightarrow> getDateSet t' e m = getDateSet t e m)"
proof -
  let ?ids = "sorted_list_of_set S"
  have set: "set ?ids = S" "length ?ids = card S" by simp_all
  have rd: "pid_readable ?ids" using assms(3) set(1) unfolding pid_readable_def by (metis list.set(1) list.simps(15))
  have fits: "pid_fits ?ids" using assms(2) set(2) by (simp add: pid_fits_def)
  have s: "fst (pid_setIdList d ?ids (dateValueTable t)) = Inr ()"
    "dateValueTable t' = snd (pid_setIdList d ?ids (dateValueTable t))"
    using assms(4) by (auto simp: setDateSet_def Let_def split: prod.splits)
  show ?thesis
    using pid_setIdList_same [OF assms(1) fits rd s(1)] pid_setIdList_other [OF assms(1) fits] set(1)
    by (simp add: getDateSet_def s(2))
qed

theorem date_set_masked_read_witness:
  "let d = createDate [2012, 7, 4]; t' = snd (setDateSet 1 {d} (dg_init ''d'' ''p''))
   in getDateSet t' 1 MASK_YEAR = Some {createDate [2012]}"
proof -
  let ?d = "createDate [2012, 7, 4]"
  have d: "?d = 0x0FB8E400" "?d AND MASK_YEAR = createDate [2012]"
    by (simp_all add: createDate_def dateValueParsers_def parser_create_def MASK_YEAR_def upt_numerals)
  have s: "setDateSet 1 {?d} (dg_init ''d'' ''p'') = (Inr (), snd (setDateSet 1 {?d} (dg_init ''d'' ''p'')))"
    by (simp add: setDateSet_def pid_setIdList_def d(1) INDEX_MSB_def dg_init_def Let_def word_le_nat_alt)
  have "{?d} \<noteq> {0}" by (simp add: d(1))
  then show ?thesis
    using date_set_masked_read [of "dg_init ''d'' ''p''" "{?d}", OF _ _ _ s, of MASK_YEAR] d(2)
    by (simp add: dg_init_def pid_init_wf Let_def)
qed

end
