(* ===== verification/Mining_Task.thy ===== *)
theory Mining_Task
  imports Prop_Value_Table Attr_Table Date_Group
begin

text \<open>
  The mining tasks that fill the tables from documents: \<open>GroupMiningTask\<close> for string groups and
  for dates (core/mining-manager/group-manager/GroupMiningTask.h) and \<open>AttrMiningTask\<close>
  (core/mining-manager/attr-manager/AttrMiningTask.cpp), with the pair of tables they work on
  (core/common/TableSwapper.h) and the parts of the configuration they read (GroupConfig.h,
  AttrConfig.h). A task copies the reader's table, builds documents into the copy, flushes it and
  swaps it in.
\<close>

section \<open>TableSwapper\<close>

record 't swapper =
  reader :: 't
  "writer" :: 't

text \<open>The operations of the table type that the templates use.\<close>

record 't table_ops =
  op_docIdNum :: "'t \<Rightarrow> nat"
  op_resize :: "nat \<Rightarrow> 't \<Rightarrow> 't"
  op_flush :: "'t \<Rightarrow> fstore \<Rightarrow> bool \<times> 't \<times> fstore"
  op_dirPath :: "'t \<Rightarrow> string"
  op_make :: "string \<Rightarrow> string \<Rightarrow> 't"
  op_default :: 't

definition swapper_copy :: "'t table_ops \<Rightarrow> nat \<Rightarrow> 't swapper \<Rightarrow> 't swapper" where
  "swapper_copy ops newSize s = s\<lparr>writer := op_resize ops newSize (reader s)\<rparr>"

definition swapper_swap :: "'t table_ops \<Rightarrow> 't swapper \<Rightarrow> 't swapper" where
  "swapper_swap ops s = \<lparr>reader = writer s, writer = op_default ops\<rparr>"

definition pvt_ops :: "pvt_io \<Rightarrow> prop_value_table table_ops" where
  "pvt_ops io = \<lparr>op_docIdNum = (\<lambda>t. pid_size (valueIdTable t)), op_resize = pvt_resize,
     op_flush = pvt_flush io, op_dirPath = dirPath, op_make = pvt_init, op_default = pvt_init [] []\<rparr>"

definition dg_ops :: "u32 archive \<Rightarrow> date_group_table table_ops" where
  "dg_ops ar = \<lparr>op_docIdNum = (\<lambda>t. pid_size (dateValueTable t)), op_resize = dg_resize,
     op_flush = dg_flush ar, op_dirPath = dg_dirPath, op_make = dg_init, op_default = dg_init [] []\<rparr>"

text \<open>\<open>AttrTable\<close> has no constructor from a path; the attribute task never rebuilds.\<close>

definition at_ops :: "attr_io \<Rightarrow> attr_table table_ops" where
  "at_ops io = \<lparr>op_docIdNum = (\<lambda>t. length (indexTable (at_valueIdTable t))), op_resize = at_resize,
     op_flush = at_flush io, op_dirPath = at_dirPath, op_make = (\<lambda>_ _. at_init), op_default = at_init\<rparr>"

section \<open>Configuration\<close>

datatype prop_data_type =
    STRING_PROPERTY_TYPE | INT8_PROPERTY_TYPE | INT16_PROPERTY_TYPE | INT32_PROPERTY_TYPE | INT64_PROPERTY_TYPE
  | FLOAT_PROPERTY_TYPE | DOUBLE_PROPERTY_TYPE | DATETIME_PROPERTY_TYPE | NOMINAL_PROPERTY_TYPE | UNKNOWN_DATA_PROPERTY_TYPE
  | FORWARD_INDEX_PROPERTY_TYPE | CBIT_ARRAY_PROPERTY_TYPE | USTRING_PROPERTY_TYPE | USTRING_ARRAY_PROPERTY_TYPE
  | VECTOR_UNSIGNED_INT_TYPE | VECTOR_VECTOR_UNSIGNED_INT_TYPE | CUSTOM_RANKING_PROPERTY_TYPE | SUBDOC_PROPERTY_TYPE
  | GEOLOCATION_PROPERTY_TYPE

record group_config =
  propType :: prop_data_type
  isConfigAsRebuild :: bool
  isRTypeStr :: bool

definition isStringType :: "group_config \<Rightarrow> bool" where
  "isStringType c \<longleftrightarrow> propType c = STRING_PROPERTY_TYPE"

definition isNumericType :: "group_config \<Rightarrow> bool" where
  "isNumericType c \<longleftrightarrow> propType c \<in> {INT32_PROPERTY_TYPE, FLOAT_PROPERTY_TYPE, INT8_PROPERTY_TYPE, INT16_PROPERTY_TYPE,
     INT64_PROPERTY_TYPE, DOUBLE_PROPERTY_TYPE}"

definition isDateTimeType :: "group_config \<Rightarrow> bool" where
  "isDateTimeType c \<longleftrightarrow> propType c = DATETIME_PROPERTY_TYPE"

definition isRebuild :: "group_config \<Rightarrow> bool" where
  "isRebuild c \<longleftrightarrow> isConfigAsRebuild c \<or> isRTypeStr c"

text \<open>The set of excluded names compares case-insensitively.\<close>

definition to_lower :: "char \<Rightarrow> char" where
  "to_lower c = (let n = (of_char c :: nat) in if 65 \<le> n \<and> n \<le> 90 then char_of (n + 32) else c)"

definition isExcludeAttrName :: "(ustring \<Rightarrow> string) \<Rightarrow> string list \<Rightarrow> ustring \<Rightarrow> bool" where
  "isExcludeAttrName conv excludeAttrNames attrName =
     list_ex (\<lambda>n. map to_lower n = map to_lower (conv attrName)) excludeAttrNames"

section \<open>GroupMiningTask\<close>

record 't group_task =
  gt_groupConfigMap :: "string \<rightharpoonup> group_config"
  gt_propName :: string
  gt_swapper :: "'t swapper"
  gt_startDocId :: docid

definition isRebuildProp :: "'t group_task \<Rightarrow> string \<Rightarrow> bool" where
  "isRebuildProp task prop =
     (case gt_groupConfigMap task prop of None \<Rightarrow> False | Some c \<Rightarrow> isRebuild c)"

definition gt_preProcess :: "'t table_ops \<Rightarrow> docid \<Rightarrow> 't group_task \<Rightarrow> bool \<times> 't group_task" where
  "gt_preProcess ops endDocId task0 =
     (let sw = gt_swapper task0;
          rebuild = isRebuildProp task0 (gt_propName task0);
          start = (if rebuild then 1 else of_nat (op_docIdNum ops (reader sw)));
          task = task0\<lparr>gt_startDocId := start\<rparr> in
      if start > endDocId then (False, task)
      else let newSize = unat (endDocId + 1) in
        if rebuild
        then (True, task\<lparr>gt_swapper := sw\<lparr>writer :=
               op_resize ops newSize (op_make ops (op_dirPath ops (reader sw)) (gt_propName task))\<rparr>\<rparr>)
        else (True, task\<lparr>gt_swapper := swapper_copy ops newSize sw\<rparr>))"

definition gt_postProcess ::
  "'t table_ops \<Rightarrow> 't group_task \<Rightarrow> fstore \<Rightarrow> bool \<times> 't group_task \<times> fstore" where
  "gt_postProcess ops task fs =
     (let (ok, w, fs') = op_flush ops (writer (gt_swapper task)) fs;
          sw = (gt_swapper task)\<lparr>writer := w\<rparr> in
      if \<not> ok then (False, task\<lparr>gt_swapper := sw\<rparr>, fs')
      else (True, task\<lparr>gt_swapper := swapper_swap ops sw\<rparr>, fs'))"

definition gt_getLastDocId :: "'t group_task \<Rightarrow> docid" where
  "gt_getLastDocId task = gt_startDocId task"

text \<open>
  \<open>buildDoc_\<close> for string groups: the ids of the paths up to the first exception, which is caught;
  an exception of \<open>setPropIdList\<close> is caught as well.
\<close>

fun insert_all_paths ::
  "ustring list list \<Rightarrow> pvid list \<Rightarrow> prop_value_table \<Rightarrow> pvid list \<times> prop_value_table" where
  "insert_all_paths [] ids t = (ids, t)"
| "insert_all_paths (path # paths) ids t =
     (case insertPropValueId path t of
        (Inl e, t') \<Rightarrow> (ids, t')
      | (Inr pvId, t') \<Rightarrow> insert_all_paths paths (ids @ [pvId]) t')"

definition buildDoc_values ::
  "(ustring \<Rightarrow> ustring) \<Rightarrow> docid \<Rightarrow> ustring \<Rightarrow> prop_value_table \<Rightarrow> prop_value_table" where
  "buildDoc_values compact docId propValue t =
     (let (propIdList, t1) = insert_all_paths (split_group_path compact propValue) [] t
      in snd (setPropIdList docId propIdList t1))"

text \<open>\<open>buildDoc_\<close> for dates: strings that are no dates are skipped.\<close>

fun collect_dates ::
  "date_boost \<Rightarrow> (ustring \<Rightarrow> string) \<Rightarrow> ustring list list \<Rightarrow> date_t set \<Rightarrow> date_t set" where
  "collect_dates db conv [] S = S"
| "collect_dates db conv ([] # paths) S = collect_dates db conv paths S"
| "collect_dates db conv ((front # _) # paths) S =
     (case scdStrToDate db (conv front) of
        Some date \<Rightarrow> collect_dates db conv paths (insert date S)
      | None \<Rightarrow> collect_dates db conv paths S)"

definition buildDoc_dates ::
  "(ustring \<Rightarrow> ustring) \<Rightarrow> date_boost \<Rightarrow> (ustring \<Rightarrow> string) \<Rightarrow> docid \<Rightarrow> ustring \<Rightarrow>
   date_group_table \<Rightarrow> date_group_table" where
  "buildDoc_dates compact db conv docId propValue t =
     snd (setDateSet docId (collect_dates db conv (split_group_path compact propValue) {}) t)"

text \<open>\<open>buildDocument\<close>: a document without the property is built with the empty string.\<close>

definition gt_buildDocument ::
  "(docid \<Rightarrow> ustring \<Rightarrow> 't \<Rightarrow> 't) \<Rightarrow> docid \<Rightarrow> (string \<rightharpoonup> ustring) \<Rightarrow> 't group_task \<Rightarrow> bool \<times> 't group_task" where
  "gt_buildDocument buildDoc docID doc task =
     (let propValue = (case doc (gt_propName task) of None \<Rightarrow> [] | Some v \<Rightarrow> v);
          sw = gt_swapper task
      in (True, task\<lparr>gt_swapper := sw\<lparr>writer := buildDoc docID propValue (writer sw)\<rparr>\<rparr>))"

section \<open>AttrMiningTask\<close>

record attr_task =
  am_propName :: string
  am_swapper :: "attr_table swapper"
  am_excludeAttrNames :: "string list"

definition am_preProcess :: "attr_io \<Rightarrow> docid \<Rightarrow> attr_task \<Rightarrow> bool \<times> attr_task" where
  "am_preProcess io endDocId task =
     (let startDocId = (of_nat (op_docIdNum (at_ops io) (reader (am_swapper task))) :: docid) in
      if startDocId > endDocId then (False, task)
      else (True, task\<lparr>am_swapper := swapper_copy (at_ops io) (unat (endDocId + 1)) (am_swapper task)\<rparr>))"

definition am_getLastDocId :: "attr_io \<Rightarrow> attr_task \<Rightarrow> docid" where
  "am_getLastDocId io task = of_nat (op_docIdNum (at_ops io) (reader (am_swapper task)))"

definition am_postProcess :: "attr_io \<Rightarrow> attr_task \<Rightarrow> fstore \<Rightarrow> bool \<times> attr_task \<times> fstore" where
  "am_postProcess io task fs =
     (let (ok, w, fs') = at_flush io (writer (am_swapper task)) fs;
          sw = (am_swapper task)\<lparr>writer := w\<rparr> in
      if \<not> ok then (False, task\<lparr>am_swapper := sw\<rparr>, fs')
      else (True, task\<lparr>am_swapper := swapper_swap (at_ops io) sw\<rparr>, fs'))"

fun insert_values :: "u32 \<Rightarrow> ustring list \<Rightarrow> u32 list \<Rightarrow> attr_table \<Rightarrow> unit result \<times> u32 list \<times> attr_table" where
  "insert_values nid [] ids t = (Inr (), ids, t)"
| "insert_values nid (v # vs) ids t =
     (case insertValueId nid v t of
        (Inl e, t') \<Rightarrow> (Inl e, ids, t')
      | (Inr vid, t') \<Rightarrow> insert_values nid vs (ids @ [vid]) t')"

fun insert_pairs ::
  "(ustring \<Rightarrow> bool) \<Rightarrow> attr_pair list \<Rightarrow> u32 list \<Rightarrow> attr_table \<Rightarrow> unit result \<times> u32 list \<times> attr_table" where
  "insert_pairs excluded [] ids t = (Inr (), ids, t)"
| "insert_pairs excluded ((attrName, vs) # pairs) ids t =
     (if excluded attrName then insert_pairs excluded pairs ids t
      else case insertNameId attrName t of
        (Inl e, t1) \<Rightarrow> (Inl e, ids, t1)
      | (Inr nid, t1) \<Rightarrow>
          (case insert_values nid vs ids t1 of
             (Inl e, ids', t2) \<Rightarrow> (Inl e, ids', t2)
           | (Inr _, ids', t2) \<Rightarrow> insert_pairs excluded pairs ids' t2))"

definition am_build_table ::
  "(ustring \<Rightarrow> ustring) \<Rightarrow> (ustring \<Rightarrow> bool) \<Rightarrow> docid \<Rightarrow> ustring option \<Rightarrow> attr_table \<Rightarrow> attr_table" where
  "am_build_table compact excluded docID propValue t =
     (let (_, valueIdList, t1) = (case propValue of
            None \<Rightarrow> (Inr (), [], t)
          | Some v \<Rightarrow> insert_pairs excluded (split_attr_pair compact v) [] t)
      in snd (setValueIdList docID valueIdList t1))"

definition am_buildDocument ::
  "(ustring \<Rightarrow> ustring) \<Rightarrow> (ustring \<Rightarrow> string) \<Rightarrow> docid \<Rightarrow> (string \<rightharpoonup> ustring) \<Rightarrow> attr_task \<Rightarrow> bool \<times> attr_task" where
  "am_buildDocument compact conv docID doc task =
     (let sw = am_swapper task;
          excluded = isExcludeAttrName conv (am_excludeAttrNames task)
      in (True, task\<lparr>am_swapper := sw\<lparr>writer :=
           am_build_table compact excluded docID (doc (am_propName task)) (writer sw)\<rparr>\<rparr>))"

section \<open>Copy, build, swap\<close>

text \<open>
  What the tasks need of a table: resizing upwards and flushing do not change what a reader sees.
\<close>

locale mining_table =
  fixes ops :: "'t table_ops" and view :: "'t \<Rightarrow> 'v"
  assumes resize_view: "op_docIdNum ops t \<le> n \<Longrightarrow> view (op_resize ops n t) = view t"
    and flush_view: "op_flush ops t fs = (ok, t', fs') \<Longrightarrow> view t' = view t"
begin

lemma preProcess_reader: "reader (gt_swapper (snd (gt_preProcess ops e task))) = reader (gt_swapper task)"
  by (simp add: gt_preProcess_def swapper_copy_def Let_def)

lemma preProcess_writer:
  assumes "gt_preProcess ops e task = (True, task')" "\<not> isRebuildProp task (gt_propName task)"
    and "op_docIdNum ops (reader (gt_swapper task)) < 2 ^ 32" "unat e < 2 ^ 32 - 1"
  shows "view (writer (gt_swapper task')) = view (reader (gt_swapper task))"
proof -
  let ?n = "op_docIdNum ops (reader (gt_swapper task))"
  have "\<not> (of_nat ?n :: docid) > e" and t': "task' = (task\<lparr>gt_startDocId := of_nat ?n\<rparr>)
      \<lparr>gt_swapper := swapper_copy ops (unat (e + 1)) (gt_swapper task)\<rparr>"
    using assms(1,2) by (auto simp: gt_preProcess_def Let_def split: if_splits)
  then have "?n \<le> unat e" using assms(3) by (simp add: word_less_nat_alt unat_of_nat_u32)
  moreover have "unat (e + 1) = unat e + 1"
    using assms(4) by (subst unat_plus_if') simp
  ultimately show ?thesis by (simp add: t' swapper_copy_def resize_view)
qed

lemma postProcess_commit:
  assumes "gt_postProcess ops task fs = (ok, task', fs')"
  shows "view (reader (gt_swapper task')) =
    (if ok then view (writer (gt_swapper task)) else view (reader (gt_swapper task)))"
proof -
  obtain ok' w fs2 where f: "op_flush ops (writer (gt_swapper task)) fs = (ok', w, fs2)"
    by (metis surj_pair)
  show ?thesis using assms flush_view [OF f]
    by (auto simp: gt_postProcess_def f swapper_swap_def Let_def split: if_splits)
qed

end

definition pvt_view ::
  "prop_value_table \<Rightarrow> ustring list \<times> pvid list \<times> (ustring \<rightharpoonup> pvid) list \<times> (docid \<Rightarrow> pvid list option)" where
  "pvt_view t = (propStrVec t, parentIdVec t, childMapTable t, pid_ids (valueIdTable t))"

lemma read_ids_multi_cong:
  "multiValueTable t = multiValueTable t' \<Longrightarrow> read_ids t l is = read_ids t' l is"
  by (induction "is") (simp_all add: prop_id_list_at_def split: option.split)

lemma pid_resize_ids:
  assumes "length (indexTable t) \<le> n"
  shows "pid_ids (pid_resize n t) = pid_ids t"
proof (rule ext)
  fix d
  have "pid_getIdList (pid_resize n t) d l = pid_getIdList t d l" for l
    using assms by (simp add: pid_getIdList_def pid_resize_def nth_vec_resize Let_def)
  moreover have "read_ids (pid_resize n t) l is = read_ids t l is" for l "is"
    by (rule read_ids_multi_cong) (simp add: pid_resize_def)
  ultimately show "pid_ids (pid_resize n t) d = pid_ids t d" by (simp add: pid_ids_def split: option.split)
qed

lemma pvt_flush_tables:
  assumes "pvt_flush io t fs = (ok, t', fs')"
  shows "propStrVec t' = propStrVec t \<and> parentIdVec t' = parentIdVec t \<and>
    childMapTable t' = childMapTable t \<and> valueIdTable t' = valueIdTable t"
  using assms by (auto simp: pvt_flush_def Let_def split: prod.splits if_splits)

interpretation pvt_mining: mining_table "pvt_ops io" pvt_view for io
  by unfold_locales (auto simp: pvt_ops_def pvt_view_def pid_size_def pvt_resize_def pid_resize_ids
      dest: pvt_flush_tables)

lemma dg_flush_tables:
  "dg_flush ar t fs = (ok, t', fs') \<Longrightarrow> dateValueTable t' = dateValueTable t"
  by (auto simp: dg_flush_def Let_def split: prod.splits if_splits)

definition dg_view :: "date_group_table \<Rightarrow> docid \<Rightarrow> u32 \<Rightarrow> date_t set option" where
  "dg_view = getDateSet"

interpretation dg_mining: mining_table "dg_ops ar" dg_view for ar
  by unfold_locales (auto simp: dg_ops_def dg_view_def getDateSet_def fun_eq_iff pid_size_def
      dg_resize_def pid_resize_ids dest: dg_flush_tables)

lemma at_flush_tables:
  assumes "at_flush io t fs = (ok, t', fs')"
  shows "nameStrVec t' = nameStrVec t \<and> nameStrMap t' = nameStrMap t \<and> valueStrVec t' = valueStrVec t \<and>
    nameIdVec t' = nameIdVec t \<and> valueStrTable t' = valueStrTable t \<and> at_valueIdTable t' = at_valueIdTable t"
  using assms by (auto simp: at_flush_def Let_def split: prod.splits if_splits)

definition at_view ::
  "attr_table \<Rightarrow> ustring list \<times> (ustring \<rightharpoonup> u32) \<times> ustring list \<times> u32 list \<times>
     (ustring \<rightharpoonup> u32) list \<times> (docid \<Rightarrow> u32 list option)" where
  "at_view t = (nameStrVec t, nameStrMap t, valueStrVec t, nameIdVec t, valueStrTable t,
     pid_ids (at_valueIdTable t))"

interpretation at_mining: mining_table "at_ops io" at_view for io
  by unfold_locales (auto simp: at_ops_def at_view_def at_resize_def pid_resize_ids
      dest: at_flush_tables)

section \<open>Building a document of string groups\<close>

lemma insert_path_length:
  "length (propStrVec (snd (insert_path path pv t))) \<le> length (propStrVec t) + length path"
proof (induction path pv t rule: insert_path.induct)
  case (2 node rest pv t)
  show ?case
  proof (cases "(childMapTable t ! unat pv) node")
    case None
    then show ?thesis using "2.IH"(1) [OF refl None refl] by (auto simp: Let_def)
  next
    case (Some child)
    then show ?thesis using "2.IH"(2) [OF refl Some] by simp
  qed
qed simp

lemma insertPropValueId_ok:
  assumes "pvt_wf t" "length (propStrVec t) + length path < 2 ^ 32"
  obtains i t' where "insertPropValueId path t = (Inr i, t')" "pvt_wf t'" "pvt_extends t t'"
    "lookup_path (childMapTable t') path 0 = Some i"
    "length (propStrVec t') \<le> length (propStrVec t) + length path"
proof -
  obtain r t' where ins: "insert_path path 0 t = (r, t')" by fastforce
  note C = insert_path_correct [OF assms(1) pvt_root_in_range [OF assms(1)], of path, unfolded ins]
  have len: "length (propStrVec t') \<le> length (propStrVec t) + length path"
    using insert_path_length [of path 0 t] ins by simp
  have "r \<noteq> Inl e" for e using C len assms(2) by auto
  then obtain i where "r = Inr i" by (cases r) auto
  then show thesis using that [of i t'] ins C len by (simp add: insertPropValueId_def)
qed

lemma insert_all_paths_ok:
  assumes "pvt_wf t" "length (propStrVec t) + sum_list (map length paths) < 2 ^ 32"
  obtains js t' where "insert_all_paths paths ids t = (ids @ js, t')" "pvt_wf t'" "pvt_extends t t'"
    "list_all2 (\<lambda>p i. lookup_path (childMapTable t') p 0 = Some i) paths js"
    "length (propStrVec t') \<le> length (propStrVec t) + sum_list (map length paths)"
  using assms
proof (induction paths arbitrary: t ids thesis)
  case Nil
  then show ?case by auto
next
  case (Cons p ps)
  have b: "length (propStrVec t) + length p < 2 ^ 32" using Cons.prems(3) by simp
  obtain i t1 where I: "insertPropValueId p t = (Inr i, t1)" "pvt_wf t1" "pvt_extends t t1"
    "lookup_path (childMapTable t1) p 0 = Some i"
    "length (propStrVec t1) \<le> length (propStrVec t) + length p"
    using insertPropValueId_ok [OF Cons.prems(2) b] .
  have b1: "length (propStrVec t1) + sum_list (map length ps) < 2 ^ 32" using I(5) Cons.prems(3) by simp
  obtain js t' where J: "insert_all_paths ps (ids @ [i]) t1 = ((ids @ [i]) @ js, t')" "pvt_wf t'"
    "pvt_extends t1 t'" "list_all2 (\<lambda>p i. lookup_path (childMapTable t') p 0 = Some i) ps js"
    "length (propStrVec t') \<le> length (propStrVec t1) + sum_list (map length ps)"
    using Cons.IH [OF _ I(2) b1] by metis
  have "lookup_path (childMapTable t') p 0 = Some i"
    using lookup_path_mono [OF J(3) pvt_wf_tree [OF I(2)] pvt_root_in_range [OF I(2)] I(4)] .
  then show ?case using Cons.prems(1) [of "i # js" t'] I(1,3,5) J pvt_extends_trans by auto
qed

lemma pid_setIdList_ok:
  assumes "\<forall>i\<in>set ids. i < INDEX_MSB" "length (multiValueTable t) < 2 ^ 31"
  shows "fst (pid_setIdList d ids t) = Inr ()"
  using assms by (cases ids rule: remdups_adj.cases) (auto simp: pid_setIdList_eq Let_def not_le)

lemma lookup_ids_nonzero:
  assumes "pvt_wf t" "lookup_path (childMapTable t) p 0 = Some i" "p \<noteq> []"
  shows "i \<noteq> 0" "unat i < length (propStrVec t)"
  using lookup_path_nonzero [OF pvt_wf_tree [OF assms(1)] pvt_root_in_range [OF assms(1)] assms(2,3)]
    lookup_path_range [OF pvt_wf_tree [OF assms(1)] pvt_root_in_range [OF assms(1)] assms(2)] by auto

lemma list_all2_in2: "list_all2 R xs ys \<Longrightarrow> y \<in> set ys \<Longrightarrow> \<exists>x\<in>set xs. R x y"
  by (induction rule: list_all2_induct) auto

lemma list_all2_in1: "list_all2 R xs ys \<Longrightarrow> x \<in> set xs \<Longrightarrow> \<exists>y\<in>set ys. R x y"
  by (induction rule: list_all2_induct) auto

lemma split_group_path_nonempty: "p \<in> set (split_group_path compact v) \<Longrightarrow> p \<noteq> []"
  using split_group_path_loop_good [of "[]" compact v]
  by (auto simp: split_group_path_def good_path_def list_all_iff)

text \<open>The state after \<open>buildDoc_\<close>: the document has exactly the ids of its paths.\<close>

lemma buildDoc_values_ids:
  fixes t :: prop_value_table and v :: ustring and compact :: "ustring \<Rightarrow> ustring"
  defines "paths \<equiv> split_group_path compact v"
  assumes wf: "pvt_wf t"
    and size: "length (propStrVec t) + sum_list (map length paths) < 2 ^ 31" "length paths < 2 ^ 32"
      "length (multiValueTable (valueIdTable t)) < 2 ^ 31"
  obtains js where "pvt_wf (buildDoc_values compact d v t)"
    "pid_ids (valueIdTable (buildDoc_values compact d v t)) d = Some js"
    "\<And>e. e \<noteq> d \<Longrightarrow> pid_ids (valueIdTable (buildDoc_values compact d v t)) e = pid_ids (valueIdTable t) e"
    "list_all2 (\<lambda>p i. lookup_path (childMapTable (buildDoc_values compact d v t)) p 0 = Some i) paths js"
    "length (propStrVec t) \<le> length (propStrVec (buildDoc_values compact d v t))"
proof -
  have b: "length (propStrVec t) + sum_list (map length paths) < 2 ^ 32" using size(1) by simp
  obtain js t1 where J: "insert_all_paths paths [] t = ([] @ js, t1)" "pvt_wf t1" "pvt_extends t t1"
    "list_all2 (\<lambda>p i. lookup_path (childMapTable t1) p 0 = Some i) paths js"
    "length (propStrVec t1) \<le> length (propStrVec t) + sum_list (map length paths)"
    using insert_all_paths_ok [OF wf b] by blast
  have v: "valueIdTable t1 = valueIdTable t" "pid_wf (valueIdTable t1)"
    using J(2,3) by (auto simp: pvt_extends_def pvt_wf_def)
  have ids: "i \<noteq> 0 \<and> unat i < length (propStrVec t1)" if i: "i \<in> set js" for i
  proof -
    obtain p where "p \<in> set paths" "lookup_path (childMapTable t1) p 0 = Some i"
      using list_all2_in2 [OF J(4) i] by blast
    then show ?thesis using lookup_ids_nonzero [OF J(2)] split_group_path_nonempty
      unfolding paths_def by blast
  qed
  have fits: "pid_fits js" using list_all2_lengthD [OF J(4)] size(2) by (simp add: pid_fits_def)
  have rd: "pid_readable js" using ids by (auto simp: pid_readable_def)
  have "\<forall>i\<in>set js. i < INDEX_MSB" using ids J(5) size(1) by (fastforce simp: word_less_nat_alt)
  then have s: "fst (pid_setIdList d js (valueIdTable t1)) = Inr ()"
    using size(3) v(1) by (intro pid_setIdList_ok) simp_all
  have B: "buildDoc_values compact d v t = t1\<lparr>valueIdTable := snd (pid_setIdList d js (valueIdTable t1))\<rparr>"
    using J(1) by (simp add: buildDoc_values_def paths_def setPropIdList_def case_prod_beta Let_def)
  show thesis
  proof (rule that)
    show "pvt_wf (buildDoc_values compact d v t)"
      using J(2) pid_setIdList_wf [OF v(2) fits] by (simp add: B pvt_wf_def)
    show "pid_ids (valueIdTable (buildDoc_values compact d v t)) d = Some js"
      using pid_setIdList_same [OF v(2) fits rd s] by (simp add: B)
    show "pid_ids (valueIdTable (buildDoc_values compact d v t)) e = pid_ids (valueIdTable t) e"
      if "e \<noteq> d" for e using pid_setIdList_other [OF v(2) fits that] v(1) by (simp add: B)
    show "list_all2 (\<lambda>p i. lookup_path (childMapTable (buildDoc_values compact d v t)) p 0 = Some i) paths js"
      using J(4) by (simp add: B)
    show "length (propStrVec t) \<le> length (propStrVec (buildDoc_values compact d v t))"
      using J(3) by (auto simp: B pvt_extends_def)
  qed
qed

lemma zero_not_ancestor:
  assumes "pvt_wf t" "unat i < length (propStrVec t)"
  shows "0 \<notin> ancestors t i"
  using parent_walk_total [OF pvt_wf_tree [OF assms(1)] assms(2)] by (auto simp: ancestors_def)

lemma lookup_take:
  assumes "lookup_path ch p pv = Some i"
  shows "\<exists>j. lookup_path ch (take k p) pv = Some j"
  using assms lookup_path_append [of ch "take k p" "drop k p" pv]
  by (cases "lookup_path ch (take k p) pv") simp_all

lemma docs_valid_init: "docs_valid (pvt_init dir prop)"
proof -
  have "pid_ids pid_init d = Some []" for d
    by (subst pid_ids_wf [OF pid_init_wf]) (simp add: pid_init_def nth_Cons split: nat.split)
  then show ?thesis by (simp add: docs_valid_def pvt_init_def)
qed

section \<open>Building a document of attributes\<close>

text \<open>\<open>at_entry t i (n, v)\<close>: the value id \<open>i\<close> stands for the attribute \<open>n\<close> with value \<open>v\<close>.\<close>

definition at_entry :: "attr_table \<Rightarrow> u32 \<Rightarrow> ustring \<times> ustring \<Rightarrow> bool" where
  "at_entry t i = (\<lambda>(n, v). valueStr t i = Some v \<and> Option.bind (valueId2NameId t i) (nameStr t) = Some n)"

lemma at_entry_mono: "at_extends t t' \<Longrightarrow> at_entry t i nv \<Longrightarrow> at_entry t' i nv"
  by (auto simp: at_entry_def bind_eq_Some_conv dest: at_extends_reads split: prod.splits)

lemma insertNameId_total:
  assumes "at_wf t" "length (nameStrVec t) < 2 ^ 32"
  obtains n t' where "insertNameId name t = (Inr n, t')" "at_wf t'" "at_extends t t'"
    "nameStr t' n = Some name" "unat n < length (nameStrVec t')"
    "length (nameStrVec t') \<le> Suc (length (nameStrVec t))" "valueStrVec t' = valueStrVec t"
proof -
  have "0 < length (nameStrVec t)" using assms(1) by (simp add: at_wf_def names_wf_def)
  then have nz: "(of_nat (length (nameStrVec t)) :: u32) \<noteq> 0"
    using assms(2) of_nat_u32_eq_0_iff [of "length (nameStrVec t)"] by simp
  obtain n t' where ins: "insertNameId name t = (Inr n, t')"
    "length (nameStrVec t') \<le> Suc (length (nameStrVec t))" "valueStrVec t' = valueStrVec t"
    using nz by (cases "nameStrMap t name") (auto simp: insertNameId_def Let_def)
  note I = insertNameId_ok [OF assms(1) ins(1)]
  then have "nameStr t' n = Some name" using name_lookup by blast
  then show thesis using that [OF ins(1) I(1,2)] ins by (simp add: nameStr_def vec_at_Some_iff)
qed

lemma insertValueId_total:
  assumes "at_wf t" "unat n < length (nameStrVec t)" "length (valueStrVec t) < 2 ^ 32"
    "nameStr t n = Some name"
  obtains i t' where "insertValueId n x t = (Inr i, t')" "at_wf t'" "at_extends t t'"
    "at_entry t' i (name, x)" "nameStrVec t' = nameStrVec t"
    "length (valueStrVec t') \<le> Suc (length (valueStrVec t))"
proof -
  have "0 < length (valueStrVec t)" using assms(1) by (simp add: at_wf_def values_wf_def)
  then have nz: "(of_nat (length (valueStrVec t)) :: u32) \<noteq> 0"
    using assms(3) of_nat_u32_eq_0_iff [of "length (valueStrVec t)"] by simp
  obtain i t' where ins: "insertValueId n x t = (Inr i, t')"
    "length (valueStrVec t') \<le> Suc (length (valueStrVec t))"
    using nz by (cases "(valueStrTable t ! unat n) x") (auto simp: insertValueId_def Let_def)
  note I = insertValueId_ok [OF assms(1,2) ins(1)]
  have "valueStr t' i = Some x" "valueId2NameId t' i = Some n"
    using value_lookup [OF I(1)] I(3,5) assms(2) by metis+
  then have "at_entry t' i (name, x)"
    using at_extends_reads(1) [OF I(2) assms(4)] by (simp add: at_entry_def)
  then show thesis using that [OF ins(1) I(1,2)] I(5) ins(2) by simp
qed

lemma insert_values_ok:
  assumes "at_wf t" "unat n < length (nameStrVec t)" "length (valueStrVec t) + length vs < 2 ^ 32"
    "nameStr t n = Some name"
  obtains js t' where "insert_values n vs ids t = (Inr (), ids @ js, t')" "at_wf t'" "at_extends t t'"
    "list_all2 (at_entry t') js (map (Pair name) vs)" "nameStrVec t' = nameStrVec t"
    "length (valueStrVec t') \<le> length (valueStrVec t) + length vs"
  using assms
proof (induction vs arbitrary: t ids thesis)
  case Nil
  then show ?case by auto
next
  case (Cons x vs)
  have b: "length (valueStrVec t) < 2 ^ 32" using Cons.prems(4) by simp
  obtain i t1 where I: "insertValueId n x t = (Inr i, t1)" "at_wf t1" "at_extends t t1"
    "at_entry t1 i (name, x)" "nameStrVec t1 = nameStrVec t"
    "length (valueStrVec t1) \<le> Suc (length (valueStrVec t))"
    using insertValueId_total [OF Cons.prems(2,3) b Cons.prems(5)] .
  have h: "unat n < length (nameStrVec t1)" "length (valueStrVec t1) + length vs < 2 ^ 32"
    "nameStr t1 n = Some name" using I(5,6) Cons.prems by (simp_all add: nameStr_def)
  obtain js t' where J: "insert_values n vs (ids @ [i]) t1 = (Inr (), (ids @ [i]) @ js, t')" "at_wf t'"
    "at_extends t1 t'" "list_all2 (at_entry t') js (map (Pair name) vs)" "nameStrVec t' = nameStrVec t1"
    "length (valueStrVec t') \<le> length (valueStrVec t1) + length vs"
    using Cons.IH [OF _ I(2) h] by metis
  then show ?case using Cons.prems(1) [of "i # js" t'] I at_entry_mono [OF J(3)] at_extends_trans
    by auto
qed

text \<open>The pairs of name and value that are entered, in order.\<close>

definition attr_entries :: "(ustring \<Rightarrow> bool) \<Rightarrow> attr_pair list \<Rightarrow> (ustring \<times> ustring) list" where
  "attr_entries excluded pairs =
     concat (map (\<lambda>(n, vs). map (Pair n) vs) (filter (\<lambda>(n, vs). \<not> excluded n) pairs))"

lemma insert_pairs_ok:
  assumes "at_wf t" "length (nameStrVec t) + length pairs < 2 ^ 32"
    "length (valueStrVec t) + length (attr_entries excluded pairs) < 2 ^ 32"
  obtains js t' where "insert_pairs excluded pairs ids t = (Inr (), ids @ js, t')" "at_wf t'"
    "at_extends t t'" "list_all2 (at_entry t') js (attr_entries excluded pairs)"
    "length (valueStrVec t') \<le> length (valueStrVec t) + length (attr_entries excluded pairs)"
  using assms
proof (induction pairs arbitrary: t ids thesis)
  case Nil
  then show ?case by (auto simp: attr_entries_def)
next
  case (Cons pr pairs)
  obtain name vs where pr: "pr = (name, vs)" by fastforce
  show ?case
  proof (cases "excluded name")
    case True
    then have E: "attr_entries excluded (pr # pairs) = attr_entries excluded pairs"
      and I: "insert_pairs excluded (pr # pairs) ids t = insert_pairs excluded pairs ids t"
      by (simp_all add: pr attr_entries_def)
    have b: "length (nameStrVec t) + length pairs < 2 ^ 32" using Cons.prems(3) by simp
    show ?thesis
      by (rule Cons.IH [OF Cons.prems(1) [unfolded E I] Cons.prems(2) b Cons.prems(4) [unfolded E]])
  next
    case False
    have E: "attr_entries excluded (pr # pairs) = map (Pair name) vs @ attr_entries excluded pairs"
      using False by (simp add: pr attr_entries_def)
    have b: "length (nameStrVec t) < 2 ^ 32" using Cons.prems(3) by simp
    obtain n t1 where I: "insertNameId name t = (Inr n, t1)" "at_wf t1" "at_extends t t1"
      "nameStr t1 n = Some name" "unat n < length (nameStrVec t1)"
      "length (nameStrVec t1) \<le> Suc (length (nameStrVec t))" "valueStrVec t1 = valueStrVec t"
      using insertNameId_total [OF Cons.prems(2) b] .
    have b1: "length (valueStrVec t1) + length vs < 2 ^ 32" using I(7) Cons.prems(4) by (simp add: E)
    obtain ks t2 where V: "insert_values n vs ids t1 = (Inr (), ids @ ks, t2)" "at_wf t2" "at_extends t1 t2"
      "list_all2 (at_entry t2) ks (map (Pair name) vs)" "nameStrVec t2 = nameStrVec t1"
      "length (valueStrVec t2) \<le> length (valueStrVec t1) + length vs"
      using insert_values_ok [OF I(2,5) b1 I(4)] .
    have b2: "length (nameStrVec t2) + length pairs < 2 ^ 32"
      "length (valueStrVec t2) + length (attr_entries excluded pairs) < 2 ^ 32"
      using V(5,6) I(6,7) Cons.prems(3,4) by (simp_all add: E)
    obtain js t' where J: "insert_pairs excluded pairs (ids @ ks) t2 = (Inr (), (ids @ ks) @ js, t')"
      "at_wf t'" "at_extends t2 t'" "list_all2 (at_entry t') js (attr_entries excluded pairs)"
      "length (valueStrVec t') \<le> length (valueStrVec t2) + length (attr_entries excluded pairs)"
      using Cons.IH [OF _ V(2) b2] by metis
    have "list_all2 (at_entry t') ks (map (Pair name) vs)"
      using V(4) at_entry_mono [OF J(3)] by (rule list_all2_mono)
    moreover have "at_extends t t'" using I(3) V(3) J(3) at_extends_trans by blast
    ultimately show ?thesis using Cons.prems(1) [of "ks @ js" t'] False I(1,7) V(1,6) J
      by (simp add: pr [symmetric] E list_all2_appendI) (simp add: pr)
  qed
qed

lemma attr_entries_nonempty: "nx \<in> set (attr_entries excluded (split_attr_pair compact v)) \<Longrightarrow> snd nx \<noteq> []"
  using split_attr_pair_loop_good [of "[]" compact v]
  by (fastforce simp: attr_entries_def split_attr_pair_def good_attr_def good_path_def list_all_iff)

section \<open>Building a document of dates\<close>

lemma createDate_bounds:
  assumes "checkDateRange v" "length v = 3"
  shows "createDate v \<noteq> 0" "createDate v < INDEX_MSB"
proof -
  obtain y m d where v: "v = [y, m, d]" "y \<le> 9999" "1 \<le> m" "m \<le> 12" "1 \<le> d" "d \<le> 31"
    using assms by (cases rule: checkDateRange_cases) auto
  have "m \<noteq> 0" using v(3) by auto
  then show "createDate v \<noteq> 0" using extract_create [OF assms(1)]
    by (auto simp: v(1) extractDate_eq)
  note B = low_bits [OF range_bounds(1) [OF v(2)]] low_bits [OF range_bounds(2) [OF v(4)]]
    low_bits [OF range_bounds(3) [OF v(6)]]
  have "createDate v AND mask 31 = createDate v"
    unfolding v(1) createDate_eq by (rule bit_word_eqI) (auto simp: bit_simps dest: B)
  moreover have "createDate v AND mask 31 < 2 ^ 31" by (rule and_mask_less') simp
  ultimately show "createDate v < INDEX_MSB" by (simp add: INDEX_MSB_def)
qed

lemma scdStrToDate_bounds:
  assumes "scdStrToDate db s = Some date"
  shows "date \<noteq> 0" "date < INDEX_MSB"
proof -
  obtain v where "checkDateRange v" "length v = 3" "date = createDate v"
    using assms by (auto simp: scdStrToDate_def scdDateStrToDateVec_def tokenizeDate_def
        DATE_INDEX_NUM_def split: option.splits if_splits)
  then show "date \<noteq> 0" "date < INDEX_MSB" using createDate_bounds by auto
qed

definition path_dates :: "date_boost \<Rightarrow> (ustring \<Rightarrow> string) \<Rightarrow> ustring list list \<Rightarrow> date_t set" where
  "path_dates db conv paths = {date. \<exists>p\<in>set paths. p \<noteq> [] \<and> scdStrToDate db (conv (hd p)) = Some date}"

lemma collect_dates_eq: "collect_dates db conv paths S = S \<union> path_dates db conv paths"
  by (induction db conv paths S rule: collect_dates.induct)
    (auto simp: path_dates_def split: option.splits)

lemma card_path_dates: "card (path_dates db conv paths) \<le> length paths"
proof -
  have "path_dates db conv paths \<subseteq> (\<lambda>p. the (scdStrToDate db (conv (hd p)))) ` set paths"
    by (force simp: path_dates_def)
  then have "card (path_dates db conv paths) \<le> card (set paths)" by (meson card_mono card_image_le finite_imageI finite_set le_trans)
  then show ?thesis using card_length le_trans by blast
qed

lemma map_char_of_ustr: "map char_of (ustr s) = s"
  by (simp add: ustr_def comp_def)

section \<open>Properties\<close>



text \<open>from the property string to the attribute table. After \<open>buildDocument\<close> (with room for the
new ids) the table is well-formed and the ids of the document are, in order, exactly those of the
non-excluded pairs of name and value in its property string; every other document has the ids it
had.\<close>

theorem attr_build_document:
  assumes wf: "at_wf t"
    and size: "length (nameStrVec t) + length (split_attr_pair compact v) < 2 ^ 32"
      "length (valueStrVec t) + length (attr_entries excluded (split_attr_pair compact v)) < 2 ^ 31"
      "length (multiValueTable (at_valueIdTable t)) < 2 ^ 31"
  shows "let t' = am_build_table compact excluded d (Some v) t in at_wf t' \<and>
    (\<exists>ids. pid_ids (at_valueIdTable t') d = Some ids \<and>
       list_all2 (at_entry t') ids (attr_entries excluded (split_attr_pair compact v))) \<and>
    (\<forall>e. e \<noteq> d \<longrightarrow> pid_ids (at_valueIdTable t') e = pid_ids (at_valueIdTable t) e)"
proof -
  let ?pairs = "split_attr_pair compact v" and ?t = "am_build_table compact excluded d (Some v) t"
  let ?es = "attr_entries excluded ?pairs"
  have b: "length (valueStrVec t) + length ?es < 2 ^ 32" using size(2) by simp
  obtain js t1 where J: "insert_pairs excluded ?pairs [] t = (Inr (), [] @ js, t1)" "at_wf t1"
    "at_extends t t1" "list_all2 (at_entry t1) js ?es"
    "length (valueStrVec t1) \<le> length (valueStrVec t) + length ?es"
    using insert_pairs_ok [OF wf size(1) b] .
  have v: "at_valueIdTable t1 = at_valueIdTable t" "pid_wf (at_valueIdTable t1)"
    using J(2,3) by (auto simp: at_extends_def at_wf_def)
  have range: "i \<noteq> 0 \<and> unat i < length (valueStrVec t1)" if i: "i \<in> set js" for i
  proof -
    obtain nx where nx: "nx \<in> set ?es" "at_entry t1 i nx" using list_all2_in1 [OF J(4) i] by blast
    then have "valueStr t1 i = Some (snd nx)" by (auto simp: at_entry_def split: prod.splits)
    moreover have "snd nx \<noteq> []" using attr_entries_nonempty nx(1) by blast
    moreover have "valueStr t1 0 = Some []" using J(2) by (simp add: at_wf_def values_wf_def valueStr_def)
    ultimately show ?thesis by (auto simp: valueStr_def vec_at_def split: if_splits)
  qed
  have fits: "pid_fits js" using list_all2_lengthD [OF J(4)] b by (simp add: pid_fits_def)
  have rd: "pid_readable js" using range by (auto simp: pid_readable_def)
  have "\<forall>i\<in>set js. i < INDEX_MSB" using range J(5) size(2) by (fastforce simp: word_less_nat_alt)
  then have s: "fst (pid_setIdList d js (at_valueIdTable t1)) = Inr ()"
    using size(3) v(1) by (intro pid_setIdList_ok) simp_all
  have B: "?t = t1\<lparr>at_valueIdTable := snd (pid_setIdList d js (at_valueIdTable t1))\<rparr>"
    using J(1) by (simp add: am_build_table_def setValueIdList_def case_prod_beta Let_def)
  have "at_entry ?t = at_entry t1"
    by (simp add: B at_entry_def valueStr_def valueId2NameId_def nameStr_def fun_eq_iff cong: bind_option_cong)
  then show ?thesis
    using J(2,4) pid_setIdList_wf [OF v(2) fits] pid_setIdList_same [OF v(2) fits rd s]
      pid_setIdList_other [OF v(2) fits] v(1) by (simp add: Let_def) (simp add: B at_wf_def)
qed

theorem attr_build_document_witness:
  "let v = encode_attrs [(ustr ''color'', [ustr ''red''])];
       t' = am_build_table (\<lambda>s. s) (\<lambda>_. False) 1 (Some v) (at_fresh ''d'' ''p'')
   in \<exists>i. pid_ids (at_valueIdTable t') 1 = Some [i] \<and> at_entry t' i (ustr ''color'', ustr ''red'')"
proof -
  let ?v = "encode_attrs [(ustr ''color'', [ustr ''red''])]"
  have p: "split_attr_pair (\<lambda>s. s) ?v = [(ustr ''color'', [ustr ''red''])]"
    using split_attr_pair_loop_encode [of "[(ustr ''color'', [ustr ''red''])]" "\<lambda>s. s" "[]"]
    by (simp add: split_attr_pair_def good_attr_def good_path_def ustr_def)
  have e: "attr_entries (\<lambda>_. False) (split_attr_pair (\<lambda>s. s) ?v) = [(ustr ''color'', ustr ''red'')]"
    unfolding p by (simp add: attr_entries_def)
  have size: "length (nameStrVec (at_fresh ''d'' ''p'')) + length (split_attr_pair (\<lambda>s. s) ?v) < 2 ^ 32"
    "length (valueStrVec (at_fresh ''d'' ''p'')) + length (attr_entries (\<lambda>_. False) (split_attr_pair (\<lambda>s. s) ?v)) < 2 ^ 31"
    "length (multiValueTable (at_valueIdTable (at_fresh ''d'' ''p''))) < 2 ^ 31"
    unfolding e unfolding p by (simp_all add: at_fresh_def at_init_def pid_init_def)
  show ?thesis using attr_build_document [OF at_fresh_wf size, of 1] unfolding e
    by (auto simp: Let_def list_all2_Cons2)
qed

text \<open>dates of a document. After \<open>buildDoc_\<close> the document has exactly the dates that the first nodes
of its paths spell, read under any mask; strings that are no dates are skipped, and every other
document keeps its dates.\<close>

theorem date_build_document:
  assumes "pid_wf (dateValueTable t)" "length (split_group_path compact v) < 2 ^ 32"
    and "length (multiValueTable (dateValueTable t)) < 2 ^ 31"
  shows "let t' = buildDoc_dates compact db conv d v t in
    getDateSet t' d m = Some ((\<lambda>x. x AND m) ` path_dates db conv (split_group_path compact v)) \<and>
    (\<forall>e. e \<noteq> d \<longrightarrow> getDateSet t' e m = getDateSet t e m)"
proof -
  let ?S = "path_dates db conv (split_group_path compact v)"
  let ?ids = "sorted_list_of_set ?S"
  have set: "set ?ids = ?S" "length ?ids = card ?S" by simp_all
  have D: "x \<noteq> 0 \<and> x < INDEX_MSB" if "x \<in> ?S" for x
    using that scdStrToDate_bounds by (auto simp: path_dates_def)
  have fits: "pid_fits ?ids"
    using card_path_dates [of db conv "split_group_path compact v"] assms(2) by (simp add: pid_fits_def)
  have rd: "pid_readable ?ids"
    using D [of 0] set(1) unfolding pid_readable_def by (metis list.set_intros(1))
  have s: "fst (pid_setIdList d ?ids (dateValueTable t)) = Inr ()"
    using D assms(3) by (intro pid_setIdList_ok) simp_all
  have B: "buildDoc_dates compact db conv d v t =
      t\<lparr>dateValueTable := snd (pid_setIdList d ?ids (dateValueTable t))\<rparr>"
    by (simp add: buildDoc_dates_def setDateSet_def collect_dates_eq case_prod_beta Let_def)
  show ?thesis
    using pid_setIdList_same [OF assms(1) fits rd s] pid_setIdList_other [OF assms(1) fits] set(1)
    by (simp add: B getDateSet_def Let_def)
qed

theorem date_build_document_witness:
  "let v = encode_paths [[ustr ''20120704143015'']];
       t' = buildDoc_dates (\<lambda>s. s) plain_boost (map char_of) 1 v (dg_init ''d'' ''p'')
   in getDateSet t' 1 MASK_YEAR = Some {createDate [2012, 7, 4] AND MASK_YEAR}"
proof -
  let ?v = "encode_paths [[ustr ''20120704143015'']]"
  have p: "split_group_path (\<lambda>s. s) ?v = [[ustr ''20120704143015'']]"
    using split_group_path_loop_encode [of "[[ustr ''20120704143015'']]" "\<lambda>s. s" "[]"]
    by (simp add: split_group_path_def good_path_def ustr_def)
  have c: "map char_of (ustr ''20120704143015'') = ''20120704143015''" by (rule map_char_of_ustr)
  have "scdStrToDate plain_boost ''20120704143015'' = Some (createDate [2012, 7, 4])"
    by (simp add: scdStrToDate_def scdDateStrToDateVec_def SCD_DATE_STR_SIZE_def scdDateOffsets_def
        tokenizeDate_def plain_boost_def is_digit_def digits_val_def digit_val_def checkDateRange_def
        DATE_INDEX_NUM_def dateRanges_def upt_numerals)
  then have d: "path_dates plain_boost (map char_of) [[ustr ''20120704143015'']] = {createDate [2012, 7, 4]}"
    by (auto simp: path_dates_def c)
  have h: "pid_wf (dateValueTable (dg_init ''d'' ''p''))" "length (split_group_path (\<lambda>s. s) ?v) < 2 ^ 32"
    "length (multiValueTable (dateValueTable (dg_init ''d'' ''p''))) < 2 ^ 31"
    unfolding p by (simp_all add: dg_init_def pid_init_wf) (simp add: pid_init_def)
  show ?thesis using date_build_document [OF h, of plain_boost "map char_of" 1 MASK_YEAR]
    unfolding p d by (simp add: Let_def)
qed



end
