(* ===== verification/Group_Param.thy ===== *)
theory Group_Param
  imports Mining_Task
begin

text \<open>
  The parameters of a search for groups and labels and their validation against the configuration
  (core/mining-manager/group-manager: GroupParam.h, GroupParam.cpp). A \<open>std::map\<close> is the list of its entries in the order
  of the keys. A check that fails returns an error for the message of the source.
\<close>

section \<open>Parameters\<close>

record group_prop_param =
  gp_property :: string
  gp_subProperty :: string
  gp_isRange :: bool
  gp_unit :: string
  gp_group_top :: int

definition gpp_init :: group_prop_param where
  "gpp_init = \<lparr>gp_property = [], gp_subProperty = [], gp_isRange = False, gp_unit = [], gp_group_top = 0\<rparr>"

definition gpp_eq :: "group_prop_param \<Rightarrow> group_prop_param \<Rightarrow> bool" where
  "gpp_eq a b \<longleftrightarrow> gp_property a = gp_property b \<and> gp_subProperty a = gp_subProperty b \<and> gp_isRange a = gp_isRange b \<and>
     gp_unit a = gp_unit b \<and> gp_group_top a = gp_group_top b"

type_synonym group_path = "string list"

record group_param =
  groupProps :: "group_prop_param list"
  groupLabels :: "(string \<times> group_path list) list"
  autoSelectLimits :: "(string \<times> int) list"
  boostGroupLabels :: "group_path list"
  isAttrGroup :: bool
  attrGroupNum :: int
  attrIterDocNum :: int
  attrLabels :: "(string \<times> string list) list"
  searchMode :: int
  isAttrToken :: bool

text \<open>\<open>defaultMode\<close> is \<open>SearchingMode::DefaultSearchingMode\<close>.\<close>

definition gparam_init :: "int \<Rightarrow> group_param" where
  "gparam_init defaultMode =
     \<lparr>groupProps = [], groupLabels = [], autoSelectLimits = [], boostGroupLabels = [], isAttrGroup = False, attrGroupNum = 0,
      attrIterDocNum = 0, attrLabels = [], searchMode = defaultMode, isAttrToken = False\<rparr>"

definition isGroupEmpty :: "group_param \<Rightarrow> bool" where
  "isGroupEmpty p \<longleftrightarrow> groupProps p = [] \<and> groupLabels p = [] \<and> autoSelectLimits p = []"

definition isAttrEmpty :: "group_param \<Rightarrow> bool" where
  "isAttrEmpty p \<longleftrightarrow> \<not> isAttrGroup p \<and> attrLabels p = []"

definition isEmpty :: "group_param \<Rightarrow> bool" where
  "isEmpty p \<longleftrightarrow> isGroupEmpty p \<and> isAttrEmpty p"

text \<open>The comparison that the search cache uses; it does not look at \<open>isAttrToken_\<close>.\<close>

definition gparam_eq :: "group_param \<Rightarrow> group_param \<Rightarrow> bool" where
  "gparam_eq a b \<longleftrightarrow> list_all2 gpp_eq (groupProps a) (groupProps b) \<and> groupLabels a = groupLabels b \<and>
     autoSelectLimits a = autoSelectLimits b \<and> boostGroupLabels a = boostGroupLabels b \<and> isAttrGroup a = isAttrGroup b \<and>
     attrGroupNum a = attrGroupNum b \<and> attrIterDocNum a = attrIterDocNum b \<and> attrLabels a = attrLabels b \<and> searchMode a = searchMode b"

section \<open>Validation\<close>

datatype param_error =
    Empty_Property | Not_Configured string | Duplicate_Sub_Property string | Datetime_Sub_Property string
  | Range_With_Sub_Property | Range_Not_Numeric string | Unit_Not_Empty string | Unit_Empty string | Invalid_Unit string
  | Empty_Label_Value | Invalid_Date string | Group_Not_Enabled | Range_Label_And_Group string | Limit_Not_String string
  | Attr_Not_Enabled

text \<open>A check returns \<open>None\<close> for true and the error for false; the next check runs when this one is true.\<close>

definition and_then :: "param_error option \<Rightarrow> param_error option \<Rightarrow> param_error option" where
  "and_then a b = (case a of None \<Rightarrow> b | Some e \<Rightarrow> Some e)"

fun check_all :: "('a \<Rightarrow> param_error option) \<Rightarrow> 'a list \<Rightarrow> param_error option" where
  "check_all f [] = None"
| "check_all f (x # xs) = and_then (f x) (check_all f xs)"

definition checkSubProperty :: "group_prop_param \<Rightarrow> (string \<rightharpoonup> group_config) \<Rightarrow> param_error option" where
  "checkSubProperty param configMap =
     (let subPropName = gp_subProperty param in
      if subPropName = [] then None
      else case configMap subPropName of
        None \<Rightarrow> Some (Not_Configured subPropName)
      | Some subConfig \<Rightarrow>
          if subPropName = gp_property param then Some (Duplicate_Sub_Property subPropName)
          else if isDateTimeType subConfig then Some (Datetime_Sub_Property subPropName)
          else None)"

definition checkGroupPropParam :: "group_prop_param \<Rightarrow> (string \<rightharpoonup> group_config) \<Rightarrow> param_error option" where
  "checkGroupPropParam param configMap =
     (let propName = gp_property param in
      if propName = [] then Some Empty_Property
      else case configMap propName of
        None \<Rightarrow> Some (Not_Configured propName)
      | Some groupConfig \<Rightarrow>
          and_then (checkSubProperty param configMap) (
          if gp_isRange param \<and> gp_subProperty param \<noteq> [] then Some Range_With_Sub_Property
          else if gp_isRange param \<and> \<not> isNumericType groupConfig then Some (Range_Not_Numeric propName)
          else if \<not> isDateTimeType groupConfig \<and> gp_unit param \<noteq> [] then Some (Unit_Not_Empty propName)
          else if isDateTimeType groupConfig then
            (if gp_unit param = [] then Some (Unit_Empty propName)
             else case unitStrToMask (gp_unit param) of None \<Rightarrow> Some (Invalid_Unit (gp_unit param)) | Some _ \<Rightarrow> None)
          else None))"

definition checkDateLabel :: "date_boost \<Rightarrow> group_path list \<Rightarrow> param_error option" where
  "checkDateLabel db groupPathVec =
     check_all (\<lambda>path. case path of
         [] \<Rightarrow> Some Empty_Label_Value
       | front # _ \<Rightarrow> (case apiStrToDateMask db front of None \<Rightarrow> Some (Invalid_Date front) | Some _ \<Rightarrow> None)) groupPathVec"

definition isRangeLabel :: "group_param \<Rightarrow> string \<Rightarrow> bool" where
  "isRangeLabel p prop =
     (case map_of (groupLabels p) prop of
        None \<Rightarrow> False
      | Some paths \<Rightarrow> list_ex (\<lambda>path. path \<noteq> [] \<and> CHR ''-'' \<in> set (hd path)) paths)"

definition checkGroupProps :: "(string \<rightharpoonup> group_config) \<Rightarrow> group_param \<Rightarrow> param_error option" where
  "checkGroupProps configMap p =
     check_all (\<lambda>param. and_then (checkGroupPropParam param configMap)
         (if gp_isRange param \<and> isRangeLabel p (gp_property param) then Some (Range_Label_And_Group (gp_property param)) else None))
       (groupProps p)"

definition checkGroupLabels :: "date_boost \<Rightarrow> (string \<rightharpoonup> group_config) \<Rightarrow> group_param \<Rightarrow> param_error option" where
  "checkGroupLabels db configMap p =
     check_all (\<lambda>(propName, paths). case configMap propName of
         None \<Rightarrow> Some (Not_Configured propName)
       | Some groupConfig \<Rightarrow> if isDateTimeType groupConfig then checkDateLabel db paths else None) (groupLabels p)"

definition checkAutoSelectLimits :: "(string \<rightharpoonup> group_config) \<Rightarrow> group_param \<Rightarrow> param_error option" where
  "checkAutoSelectLimits configMap p =
     check_all (\<lambda>(propName, _). case configMap propName of
         None \<Rightarrow> Some (Not_Configured propName)
       | Some c \<Rightarrow> if isStringType c then None else Some (Limit_Not_String propName)) (autoSelectLimits p)"

record mining_schema =
  group_enable :: bool
  group_config_map :: "string \<rightharpoonup> group_config"
  attr_enable :: bool

definition checkGroupParam :: "date_boost \<Rightarrow> mining_schema \<Rightarrow> group_param \<Rightarrow> param_error option" where
  "checkGroupParam db schema p =
     (if isGroupEmpty p then None
      else if \<not> group_enable schema then Some Group_Not_Enabled
      else and_then (checkGroupProps (group_config_map schema) p)
        (and_then (checkGroupLabels db (group_config_map schema) p) (checkAutoSelectLimits (group_config_map schema) p)))"

definition checkAttrParam :: "mining_schema \<Rightarrow> group_param \<Rightarrow> param_error option" where
  "checkAttrParam schema p = (if isAttrEmpty p then None else if \<not> attr_enable schema then Some Attr_Not_Enabled else None)"

definition checkParam :: "date_boost \<Rightarrow> mining_schema \<Rightarrow> group_param \<Rightarrow> param_error option" where
  "checkParam db schema p = and_then (checkGroupParam db schema p) (checkAttrParam schema p)"

section \<open>Accepted parameters\<close>

lemma and_then_None [simp]: "and_then a b = None \<longleftrightarrow> a = None \<and> b = None"
  by (simp add: and_then_def split: option.splits)

lemma check_all_None [simp]: "check_all f xs = None \<longleftrightarrow> (\<forall>x\<in>set xs. f x = None)"
  by (induction xs) auto

text \<open>What the accepted parameters of a group property say of its configuration.\<close>

lemma checkGroupPropParam_None:
  assumes "checkGroupPropParam param m = None"
  obtains c where "m (gp_property param) = Some c" "gp_isRange param \<Longrightarrow> isNumericType c \<and> gp_subProperty param = []"
    "isDateTimeType c \<Longrightarrow> unitStrToMask (gp_unit param) \<noteq> None"
    "gp_subProperty param \<noteq> [] \<Longrightarrow> \<exists>sc. m (gp_subProperty param) = Some sc \<and> \<not> isDateTimeType sc \<and> gp_subProperty param \<noteq> gp_property param"
proof -
  obtain c where c: "m (gp_property param) = Some c" using assms
    by (auto simp: checkGroupPropParam_def Let_def split: if_splits option.splits)
  have "checkSubProperty param m = None" using assms c by (auto simp: checkGroupPropParam_def Let_def split: if_splits)
  then have "gp_subProperty param \<noteq> [] \<Longrightarrow> \<exists>sc. m (gp_subProperty param) = Some sc \<and> \<not> isDateTimeType sc \<and> gp_subProperty param \<noteq> gp_property param"
    by (auto simp: checkSubProperty_def Let_def split: if_splits option.splits)
  moreover have "gp_isRange param \<Longrightarrow> isNumericType c \<and> gp_subProperty param = []" "isDateTimeType c \<Longrightarrow> unitStrToMask (gp_unit param) \<noteq> None"
    using assms c by (auto simp: checkGroupPropParam_def Let_def split: if_splits option.splits)
  ultimately show thesis using that c by blast
qed

end
