(* ===== verification/Ordered_Map.thy ===== *)
theory Ordered_Map
  imports Prelude "HOL-Library.Multiset"
begin

text \<open>
  The ordered containers that the counters use. A \<open>std::map\<close> is the list of its entries in the order of iteration, by ascending
  key; a \<open>std::multimap\<close> is the list of its entries, equal keys in the order of insertion.
\<close>

section \<open>\<open>std::map\<close>\<close>

definition keys_ordered :: "('k :: linorder \<times> 'v) list \<Rightarrow> bool" where
  "keys_ordered m \<longleftrightarrow> sorted_wrt (<) (map fst m)"

text \<open>The value of a key, or a default value: what \<open>m[k]\<close> reads.\<close>

definition map_get :: "'v \<Rightarrow> 'k \<Rightarrow> ('k \<times> 'v) list \<Rightarrow> 'v" where
  "map_get d k m = (case map_of m k of None \<Rightarrow> d | Some v \<Rightarrow> v)"

fun map_put :: "'k :: linorder \<Rightarrow> 'v \<Rightarrow> ('k \<times> 'v) list \<Rightarrow> ('k \<times> 'v) list" where
  "map_put k v [] = [(k, v)]"
| "map_put k v ((a, b) # m) =
     (if k < a then (k, v) # (a, b) # m else if k = a then (k, v) # m else (a, b) # map_put k v m)"

text \<open>\<open>++m[k]\<close>.\<close>

definition map_bump :: "'k :: linorder \<Rightarrow> ('k \<times> 'n :: {zero, one, plus}) list \<Rightarrow> ('k \<times> 'n) list" where
  "map_bump k m = map_put k (map_get 0 k m + 1) m"

lemma keys_ordered_Nil [simp, wf_intros]: "keys_ordered []"
  by (simp add: keys_ordered_def)

lemma keys_ordered_Cons: "keys_ordered ((a, b) # m) \<longleftrightarrow> (\<forall>x\<in>set m. a < fst x) \<and> keys_ordered m"
  by (auto simp: keys_ordered_def)

lemma keys_ordered_distinct: "keys_ordered m \<Longrightarrow> distinct (map fst m)"
  by (simp add: keys_ordered_def strict_sorted_iff)

lemma map_of_less: "keys_ordered ((a, b) # m) \<Longrightarrow> k \<le> a \<Longrightarrow> map_of m k = None"
  by (auto simp: keys_ordered_Cons map_of_eq_None_iff)

lemma map_of_put [simp]: "keys_ordered m \<Longrightarrow> map_of (map_put k v m) = (map_of m)(k \<mapsto> v)"
proof (induction m)
  case (Cons x m)
  obtain a b where x: "x = (a, b)" by fastforce
  then have "map_of m k = None" if "k \<le> a" using Cons.prems that by (auto intro: map_of_less)
  then show ?case using Cons x by (auto simp: fun_eq_iff keys_ordered_Cons)
qed simp

lemma set_map_put: "fst ` set (map_put k v m) = insert k (fst ` set m)"
  by (induction k v m rule: map_put.induct) auto

lemma keys_ordered_put [simp, wf_intros]: "keys_ordered m \<Longrightarrow> keys_ordered (map_put k v m)"
proof (induction m)
  case (Cons x m)
  obtain a b where x: "x = (a, b)" by fastforce
  have "\<forall>y\<in>set (map_put k v m). a < fst y" if "a < k"
  proof -
    have "\<forall>y\<in>fst ` set (map_put k v m). a < y" using Cons.prems x that unfolding set_map_put by (auto simp: keys_ordered_Cons)
    then show ?thesis by blast
  qed
  then show ?case using Cons x by (auto simp: keys_ordered_Cons)
qed (simp add: keys_ordered_def)

lemma map_get_put [simp]: "keys_ordered m \<Longrightarrow> map_get d k' (map_put k v m) = (if k' = k then v else map_get d k' m)"
  by (simp add: map_get_def)

text \<open>Maps with ordered keys are equal when they have the same keys and values.\<close>

lemma keys_ordered_eqI:
  assumes "keys_ordered m" "keys_ordered m'" "fst ` set m = fst ` set m'" "\<And>k. k \<in> fst ` set m \<Longrightarrow> map_get d k m = map_get d k m'"
  shows "m = m'"
proof -
  have "map_of m k = map_of m' k" for k
  proof (cases "k \<in> fst ` set m")
    case True
    then obtain v v' where "map_of m k = Some v" "map_of m' k = Some v'"
      using assms(3) by (metis map_of_eq_None_iff not_None_eq)
    then show ?thesis using assms(4) [OF True] by (simp add: map_get_def)
  next
    case False
    then show ?thesis using assms(3) by (metis map_of_eq_None_iff)
  qed
  then have "map_of m = map_of m'" by (rule ext)
  then have "set m = set m'"
    using map_of_inject_set [OF keys_ordered_distinct [OF assms(1)] keys_ordered_distinct [OF assms(2)]] by simp
  moreover have "sorted (map fst m)" "sorted (map fst m')" "distinct (map fst m)" "distinct (map fst m')"
    using assms(1,2) by (simp_all add: keys_ordered_def strict_sorted_iff)
  moreover have "inj_on fst (set m \<union> set m')" using calculation by (simp add: distinct_map)
  ultimately show ?thesis using map_sorted_distinct_set_unique by blast
qed

section \<open>Counting\<close>

text \<open>
  What a client of a table of counts relies on: incrementing the count of a key changes this count only. The counts are elements of
  a semiring, words or integers.
\<close>

locale count_table =
  fixes bump :: "'k \<Rightarrow> 'm \<Rightarrow> 'm" and look :: "'m \<Rightarrow> 'k \<Rightarrow> 'n :: semiring_1" and keys :: "'m \<Rightarrow> 'k set" and ok :: "'m \<Rightarrow> bool"
  assumes look_bump: "ok m \<Longrightarrow> look (bump k m) k' = look m k' + (if k' = k then 1 else 0)"
    and keys_bump: "ok m \<Longrightarrow> keys (bump k m) = insert k (keys m)"
    and ok_bump: "ok m \<Longrightarrow> ok (bump k m)"
begin

lemma bumps:
  assumes "ok m"
  shows "ok (fold bump ks m) \<and> keys (fold bump ks m) = set ks \<union> keys m \<and> look (fold bump ks m) k = look m k + of_nat (count_list ks k)"
  using assms
proof (induction ks arbitrary: m)
  case (Cons x ks)
  then show ?case using Cons.IH [OF ok_bump [OF Cons.prems, of x]] by (auto simp: look_bump keys_bump add.assoc)
qed simp

end

interpretation om: count_table "map_bump :: 'k :: linorder \<Rightarrow> ('k \<times> 'n :: semiring_1) list \<Rightarrow> ('k \<times> 'n) list"
  "\<lambda>m k. map_get 0 k m" "\<lambda>m. fst ` set m" keys_ordered
  by unfold_locales (simp_all add: map_bump_def set_map_put)

text \<open>The table of counts of a list of keys is determined by how often each key occurs.\<close>

definition tally :: "'k :: linorder list \<Rightarrow> ('k \<times> 'n :: semiring_1) list" where
  "tally ks = fold map_bump ks []"

lemma tally_spec:
  "keys_ordered (tally ks :: ('k :: linorder \<times> 'n :: semiring_1) list)" "fst ` set (tally ks :: ('k \<times> 'n) list) = set ks"
  "map_get 0 k (tally ks :: ('k \<times> 'n) list) = of_nat (count_list ks k)"
  using om.bumps [of "[] :: ('k \<times> 'n) list" ks k] by (simp_all add: tally_def map_get_def)

lemma tally_eqI:
  assumes "keys_ordered (m :: ('k :: linorder \<times> 'n :: semiring_1) list)" "fst ` set m = set ks" "\<And>k. k \<in> set ks \<Longrightarrow> map_get 0 k m = of_nat (count_list ks k)"
  shows "m = tally ks"
  using assms by (intro keys_ordered_eqI [where d = 0]) (simp_all add: tally_spec)

text \<open>Adding a list of documents to a counter one after the other.\<close>

fun add_list :: "('a \<Rightarrow> 'c \<Rightarrow> 'c option) \<Rightarrow> 'a list \<Rightarrow> 'c \<Rightarrow> 'c option" where
  "add_list add [] c = Some c"
| "add_list add (d # ds) c = Option.bind (add d c) (add_list add ds)"

lemma add_list_append: "add_list add (ds @ es) c = Option.bind (add_list add ds c) (add_list add es)"
  by (induction ds arbitrary: c) (auto split: Option.bind_split)

lemma tally_append: "fold map_bump ks (tally js) = tally (js @ ks)"
  by (simp add: tally_def)

text \<open>The keys of a table in order.\<close>

lemma keys_ordered_map:
  assumes "keys_ordered m" "fst ` set m = A" "\<And>k. k \<in> A \<Longrightarrow> map_get d k m = f k"
  shows "m = map (\<lambda>k. (k, f k)) (sorted_list_of_set A)"
proof -
  have fin: "finite A" using assms(2) by auto
  let ?m = "map (\<lambda>k. (k, f k)) (sorted_list_of_set A)"
  have k: "map fst ?m = sorted_list_of_set A" by (simp add: comp_def)
  have "keys_ordered ?m" unfolding keys_ordered_def k by (rule strict_sorted_list_of_set)
  moreover have "fst ` set ?m = A" using fin by (simp add: image_image)
  moreover have "map_get d k ?m = f k" if "k \<in> A" for k
    using map_of_map_restrict [of f "sorted_list_of_set A"] that fin by (simp add: map_get_def restrict_map_def)
  ultimately show ?thesis using assms by (intro keys_ordered_eqI [where d = d]) simp_all
qed

section \<open>\<open>std::multimap\<close>\<close>

text \<open>An entry is inserted after the entries with an equal key.\<close>

fun multi_insert :: "'k :: linorder \<Rightarrow> 'v \<Rightarrow> ('k \<times> 'v) list \<Rightarrow> ('k \<times> 'v) list" where
  "multi_insert k v [] = [(k, v)]"
| "multi_insert k v ((a, b) # m) = (if k < a then (k, v) # (a, b) # m else (a, b) # multi_insert k v m)"

lemma mset_multi_insert [simp]: "mset (multi_insert k v m) = add_mset (k, v) (mset m)"
  by (induction k v m rule: multi_insert.induct) auto

lemma set_multi_insert [simp]: "set (multi_insert k v m) = insert (k, v) (set m)"
  by (metis mset_multi_insert set_mset_add_mset_insert set_mset_mset)

lemma sorted_multi_insert: "sorted (map fst m) \<Longrightarrow> sorted (map fst (multi_insert k v m))"
  by (induction k v m rule: multi_insert.induct) auto

end
