(* ===== verification/Group_Rep.thy ===== *)
theory Group_Rep
  imports Split_Ustr "HOL-Library.Multiset"
begin

text \<open>
  Group results and their merging (core/mining-manager/group-manager/GroupRep.h and GroupRep.cpp,
  ontology_rep_item.h) and the counter of numeric ranges (NumericRangeGroupCounter.h and
  NumericRangeGroupCounter.cpp). Values of C++ type \<open>double\<close> are elements of a linear order \<open>'d\<close> (no
  NaN); the comparison of strings is the parameter \<open>cmp\<close>, a negative, zero or positive integer.
\<close>

section \<open>State\<close>

record 'd rep_item =
  ri_level :: u8
  ri_text :: ustring
  ri_id :: u32
  ri_doc_count :: u32
  ri_score :: 'd

type_synonym 'd string_group_rep = "'d rep_item list"
type_synonym 'd numeric_group_rep = "(string \<times> ('d \<times> u32) list) list"
type_synonym numeric_range_group_rep = "(string \<times> u32 list) list"

record 'd group_rep =
  stringGroupRep :: "'d string_group_rep"
  numericGroupRep :: "'d numeric_group_rep"
  numericRangeGroupRep :: numeric_range_group_rep

definition gr_empty :: "'d group_rep \<Rightarrow> bool" where
  "gr_empty rep \<longleftrightarrow> stringGroupRep rep = [] \<and> numericGroupRep rep = [] \<and> numericRangeGroupRep rep = []"

definition gr_clear :: "'d group_rep \<Rightarrow> 'd group_rep" where
  "gr_clear rep = \<lparr>stringGroupRep = [], numericGroupRep = [], numericRangeGroupRep = []\<rparr>"

definition gr_eq :: "'d group_rep \<Rightarrow> 'd group_rep \<Rightarrow> bool" where
  "gr_eq rep other \<longleftrightarrow>
     length (stringGroupRep rep) = length (stringGroupRep other) \<and>
     length (numericGroupRep rep) = length (numericGroupRep other) \<and>
     length (numericRangeGroupRep rep) = length (numericRangeGroupRep other) \<and>
     list_all2 (\<lambda>a b. a = b) (stringGroupRep rep) (stringGroupRep other) \<and>
     list_all2 (\<lambda>a b. fst a = fst b \<and> length (snd a) = length (snd b) \<and>
         list_all2 (\<lambda>x y. fst x = fst y \<and> snd x = snd y) (snd a) (snd b))
       (numericGroupRep rep) (numericGroupRep other) \<and>
     list_all2 (\<lambda>a b. fst a = fst b \<and> length (snd a) = length (snd b) \<and> list_all2 (=) (snd a) (snd b))
       (numericRangeGroupRep rep) (numericRangeGroupRep other)"

section \<open>Merging string groups\<close>

text \<open>
  \<open>recurseStringGroup\<close> on the items still ahead of both iterators: the items it passes (own ones,
  merged ones and inserted ones) and what is ahead of the iterators afterwards. Items are in preorder
  with their level.
\<close>

function recurseStringGroup ::
  "(ustring \<Rightarrow> ustring \<Rightarrow> int) \<Rightarrow> u8 \<Rightarrow> 'd string_group_rep \<Rightarrow> 'd string_group_rep \<Rightarrow>
   'd string_group_rep \<times> 'd string_group_rep \<times> 'd string_group_rep" where
  "recurseStringGroup cmp level it oit =
     (if it \<noteq> [] \<and> level \<le> ri_level (hd it) \<and> oit \<noteq> [] \<and> level \<le> ri_level (hd oit) then
        (let comp = cmp (ri_text (hd it)) (ri_text (hd oit)) in
         if comp < 0 then
           (let (out, it', oit') =
              recurseStringGroup cmp level (dropWhile (\<lambda>i. level < ri_level i) (tl it)) oit
            in (hd it # takeWhile (\<lambda>i. level < ri_level i) (tl it) @ out, it', oit'))
         else if comp > 0 then
           (let (out, it', oit') =
              recurseStringGroup cmp level it (dropWhile (\<lambda>i. level < ri_level i) (tl oit))
            in (hd oit # takeWhile (\<lambda>i. level < ri_level i) (tl oit) @ out, it', oit'))
         else
           (let item = (hd it)\<lparr>ri_doc_count := ri_doc_count (hd it) + ri_doc_count (hd oit)\<rparr>;
                (out1, it1, oit1) = recurseStringGroup cmp (level + 1) (tl it) (tl oit);
                (out2, it2, oit2) = recurseStringGroup cmp level it1 oit1
            in (item # out1 @ out2, it2, oit2)))
      else if it \<noteq> [] \<and> level \<le> ri_level (hd it) then
        (hd it # takeWhile (\<lambda>i. level \<le> ri_level i) (tl it), dropWhile (\<lambda>i. level \<le> ri_level i) (tl it), oit)
      else if oit \<noteq> [] \<and> level \<le> ri_level (hd oit) then
        (hd oit # takeWhile (\<lambda>i. level \<le> ri_level i) (tl oit), it, dropWhile (\<lambda>i. level \<le> ri_level i) (tl oit))
      else ([], it, oit))"
  by pat_completeness auto

lemma dropWhile_tl_less: "xs \<noteq> [] \<Longrightarrow> length (dropWhile P (tl xs)) < length xs"
  using length_dropWhile_le [of P "tl xs"] by (cases xs) auto

lemma recurseStringGroup_shrinks:
  assumes "recurseStringGroup_dom (cmp, level, it, oit)"
  shows "case recurseStringGroup cmp level it oit of (out, it', oit') \<Rightarrow>
    length it' + length oit' \<le> length it + length oit"
  using assms
proof (induction rule: recurseStringGroup.pinduct)
  case (1 cmp level it oit)
  let ?main = "it \<noteq> [] \<and> level \<le> ri_level (hd it) \<and> oit \<noteq> [] \<and> level \<le> ri_level (hd oit)"
  let ?c = "cmp (ri_text (hd it)) (ri_text (hd oit))"
  note [simp] = recurseStringGroup.psimps [OF 1(1)]
  show ?case
  proof (cases ?main)
    case True
    consider "?c < 0" | "?c > 0" | "?c = 0" by linarith
    then show ?thesis
    proof cases
      case a: 1
      show ?thesis using 1(2) [OF True refl a] True a dropWhile_tl_less [of it "\<lambda>i. level < ri_level i"]
        by (auto simp: Let_def split: prod.splits)
    next
      case a: 2
      show ?thesis using 1(3) [OF True refl _ a] True a dropWhile_tl_less [of oit "\<lambda>i. level < ri_level i"]
        by (auto simp: Let_def split: prod.splits)
    next
      case a: 3
      obtain o1 i1 j1 where r1: "recurseStringGroup cmp (level + 1) (tl it) (tl oit) = (o1, i1, j1)"
        by (metis surj_pair)
      obtain o2 i2 j2 where r2: "recurseStringGroup cmp level i1 j1 = (o2, i2, j2)" by (metis surj_pair)
      have "length i1 + length j1 \<le> length (tl it) + length (tl oit)"
        using 1(4) [OF True refl] a r1 by auto
      moreover have "length i2 + length j2 \<le> length i1 + length j1"
        using 1(5) [OF True refl _ _ refl r1 [symmetric] refl] a r2 by auto
      ultimately show ?thesis using True a r1 r2 by (simp add: Let_def)
    qed
  next
    case False
    then show ?thesis using dropWhile_tl_less [of it "\<lambda>i. level \<le> ri_level i"]
        dropWhile_tl_less [of oit "\<lambda>i. level \<le> ri_level i"] by auto
  qed
qed

termination recurseStringGroup
proof (relation "measure (\<lambda>(cmp, level, it, oit). length it + length oit)", goal_cases)
  case (5 cmp level it oit comp item x o1 y i1 j1)
  then have "length i1 + length j1 \<le> length (tl it) + length (tl oit)"
    using recurseStringGroup_shrinks [of cmp "level + 1" "tl it" "tl oit"] by auto
  then show ?case using 5(1) by (cases it; cases oit) auto
qed (auto simp: dropWhile_tl_less neq_Nil_conv)

declare recurseStringGroup.simps [simp del]

text \<open>
  Merging. When the receiver has no items it takes those of the other object, which is left without.
\<close>

definition mergeStringGroup ::
  "(ustring \<Rightarrow> ustring \<Rightarrow> int) \<Rightarrow> 'd group_rep \<Rightarrow> 'd group_rep \<Rightarrow> 'd group_rep \<times> 'd group_rep" where
  "mergeStringGroup cmp rep other =
     (if stringGroupRep other = [] then (rep, other)
      else if stringGroupRep rep = []
      then (rep\<lparr>stringGroupRep := stringGroupRep other\<rparr>, other\<lparr>stringGroupRep := stringGroupRep rep\<rparr>)
      else let (out, it, oit) = recurseStringGroup cmp 0 (stringGroupRep rep) (stringGroupRep other)
           in (rep\<lparr>stringGroupRep := out @ it\<rparr>, other))"

section \<open>Merging numeric groups\<close>

fun add_equal :: "('d :: linorder \<times> u32) list \<Rightarrow> ('d \<times> u32) list \<Rightarrow>
    ('d \<times> u32) list \<times> ('d \<times> u32) list \<times> ('d \<times> u32) list" where
  "add_equal ((k, n) # lit) ((k', n') # olit) =
     (if k = k' then let (out, l, ol) = add_equal lit olit in ((k, n + n') # out, l, ol)
      else ([], (k, n) # lit, (k', n') # olit))"
| "add_equal lit olit = ([], lit, olit)"

lemma add_equal_shrinks:
  "add_equal lit olit = (out, l, ol) \<Longrightarrow> length l \<le> length lit \<and> length ol \<le> length olit"
  by (induction lit olit arbitrary: out l ol rule: add_equal.induct)
    (fastforce split: if_splits prod.splits)+

text \<open>One round of the loop of \<open>mergeNumericGroup\<close> for a property, and the loop.\<close>

function merge_numeric_list ::
  "('d :: linorder \<times> u32) list \<Rightarrow> ('d \<times> u32) list \<Rightarrow> ('d \<times> u32) list" where
  "merge_numeric_list lit olit =
     (if olit = [] then lit
      else
        let pre = takeWhile (\<lambda>x. fst x < fst (hd olit)) lit;
            lit1 = dropWhile (\<lambda>x. fst x < fst (hd olit)) lit in
        if lit1 = [] then pre @ olit
        else
          let ins = takeWhile (\<lambda>x. fst (hd lit1) > fst x) olit;
              olit1 = dropWhile (\<lambda>x. fst (hd lit1) > fst x) olit;
              (out, lit2, olit2) = add_equal lit1 olit1
          in pre @ ins @ out @ merge_numeric_list lit2 olit2)"
  by pat_completeness auto
termination
proof (relation "measure (\<lambda>(lit, olit). length lit + length olit)", goal_cases)
  case (2 lit olit pre lit1 ins olit1 x out y lit2 olit2)
  have ne: "olit \<noteq> []" "lit1 \<noteq> []" using 2 by auto
  have l1: "length lit1 \<le> length lit" using 2(3) length_dropWhile_le by auto
  have l2: "length olit1 \<le> length olit" using 2(6) length_dropWhile_le by auto
  have sh: "length lit2 \<le> length lit1" "length olit2 \<le> length olit1"
    using add_equal_shrinks [of lit1 olit1 out lit2 olit2] 2(7-) by auto
  have hd1: "\<not> fst (hd lit1) < fst (hd olit)" using 2(3) ne(2) hd_dropWhile by blast
  show ?case
  proof (cases "fst (hd lit1) > fst (hd olit)")
    case True
    then have "length olit1 < length olit"
      using 2(6) ne(1) dropWhile_tl_less [of olit] by (cases olit) auto
    then show ?thesis using l1 l2 sh by simp
  next
    case False
    then have eq: "fst (hd lit1) = fst (hd olit)" using hd1 by simp
    then have "olit1 = olit" using 2(6) ne(1) by (cases olit) auto
    then have "length lit2 < length lit1"
      using eq ne 2(7-) add_equal_shrinks [of "tl lit1" "tl olit"]
      by (cases lit1; cases olit) (auto simp: Let_def le_imp_less_Suc split: prod.splits)
    then show ?thesis using l1 l2 sh by simp
  qed
qed simp

declare merge_numeric_list.simps [simp del]

text \<open>
  The properties are taken pairwise in order; \<open>None\<close> when the other object has fewer.
\<close>

fun merge_numeric_props ::
  "('d :: linorder) numeric_group_rep \<Rightarrow> 'd numeric_group_rep \<Rightarrow> 'd numeric_group_rep option" where
  "merge_numeric_props [] others = Some []"
| "merge_numeric_props (x # xs) [] = None"
| "merge_numeric_props ((name, l) # xs) ((oname, ol) # others) =
     map_option ((#) (name, merge_numeric_list l ol)) (merge_numeric_props xs others)"

definition mergeNumericGroup ::
  "('d :: linorder) group_rep \<Rightarrow> 'd group_rep \<Rightarrow> ('d group_rep \<times> 'd group_rep) option" where
  "mergeNumericGroup rep other =
     (if numericGroupRep other = [] then Some (rep, other)
      else if numericGroupRep rep = []
      then Some (rep\<lparr>numericGroupRep := numericGroupRep other\<rparr>, other\<lparr>numericGroupRep := numericGroupRep rep\<rparr>)
      else map_option (\<lambda>l. (rep\<lparr>numericGroupRep := l\<rparr>, other))
             (merge_numeric_props (numericGroupRep rep) (numericGroupRep other)))"

section \<open>Numeric ranges\<close>

text \<open>
  A segment tree is a vector of 778 counters: 7 times 100 leaves, 70 nodes of ten leaves each from
  position 700, 7 nodes of ten of those from position 770, and the root at 777.
\<close>

definition LEVEL_1_OF_SEGMENT_TREE :: nat where "LEVEL_1_OF_SEGMENT_TREE = 7"

definition range_bound :: "int list" where
  "range_bound = [0, 1000, 10000, 100000, 1000000, 10000000, 100000000, 1000000000]"

definition seg_init :: "u32 list" where
  "seg_init = replicate (111 * LEVEL_1_OF_SEGMENT_TREE + 1) 0"

text \<open>The leaf that \<open>addDoc\<close> increments for a positive value: block \<open>exponent\<close> and position in the block.\<close>

definition range_leaf :: "int \<Rightarrow> nat \<times> int" where
  "range_leaf value0 =
     (let val = min value0 (range_bound ! LEVEL_1_OF_SEGMENT_TREE - 1);
          exponent = 1 + length (takeWhile (\<lambda>e. range_bound ! e \<le> val) [1..<LEVEL_1_OF_SEGMENT_TREE + 1])
      in (exponent - 1, val div (range_bound ! exponent div 100)))"

definition range_addDoc :: "int option \<Rightarrow> u32 list \<Rightarrow> u32 list" where
  "range_addDoc val tree =
     (case val of
        None \<Rightarrow> tree
      | Some v \<Rightarrow>
          if v > 0 then (let (e, q) = range_leaf v; i = 100 * e + nat q in tree[i := tree ! i + 1])
          else tree)"

definition seg_sum_step :: "u32 list \<Rightarrow> nat \<Rightarrow> u32 list" where
  "seg_sum_step t i =
     (let n = 100 * LEVEL_1_OF_SEGMENT_TREE + i
      in t[n := t ! n + sum_list (map (\<lambda>j. t ! (10 * i + j)) [0..<10])])"

text \<open>The result takes the vector over: the counter is left with an empty one.\<close>

definition range_getGroupRep :: "string \<Rightarrow> u32 list \<Rightarrow> 'd group_rep \<Rightarrow> u32 list \<times> 'd group_rep" where
  "range_getGroupRep prop tree rep =
     (let t = foldl seg_sum_step tree [0..<LEVEL_1_OF_SEGMENT_TREE * 11];
          root = 111 * LEVEL_1_OF_SEGMENT_TREE;
          t' = t[root := t ! root + sum_list (map (\<lambda>i. t ! (110 * LEVEL_1_OF_SEGMENT_TREE + i)) [0..<LEVEL_1_OF_SEGMENT_TREE])]
      in ([], rep\<lparr>numericRangeGroupRep := numericRangeGroupRep rep @ [(prop, t')]\<rparr>))"

text \<open>Merging two trees skips the subtrees whose node is zero in the other tree.\<close>

definition add_at :: "u32 list \<Rightarrow> u32 list \<Rightarrow> nat \<Rightarrow> u32 list" where
  "add_at ov v p = v[p := v ! p + ov ! p]"

definition merge_level2 :: "u32 list \<Rightarrow> nat \<Rightarrow> u32 list \<Rightarrow> nat \<Rightarrow> u32 list" where
  "merge_level2 ov i v j =
     (if ov ! (700 + 10 * i + j) \<noteq> 0
      then add_at ov (foldl (add_at ov) v (map (\<lambda>k. 100 * i + 10 * j + k) [0..<10])) (700 + 10 * i + j)
      else v)"

definition merge_level1 :: "u32 list \<Rightarrow> u32 list \<Rightarrow> nat \<Rightarrow> u32 list" where
  "merge_level1 ov v i =
     (if ov ! (770 + i) \<noteq> 0
      then add_at ov (foldl (merge_level2 ov i) v [0..<10]) (770 + i)
      else v)"

definition merge_range :: "u32 list \<Rightarrow> u32 list \<Rightarrow> u32 list" where
  "merge_range v ov =
     (if last ov = 0 then v
      else foldl (merge_level1 ov) (v[length v - 1 := last v + last ov]) [0..<LEVEL_1_OF_SEGMENT_TREE])"

fun merge_range_props :: "numeric_range_group_rep \<Rightarrow> numeric_range_group_rep \<Rightarrow> numeric_range_group_rep option" where
  "merge_range_props [] others = Some []"
| "merge_range_props (x # xs) [] = None"
| "merge_range_props ((name, v) # xs) ((oname, ov) # others) =
     map_option ((#) (name, merge_range v ov)) (merge_range_props xs others)"

definition mergeNumericRangeGroup :: "'d group_rep \<Rightarrow> 'd group_rep \<Rightarrow> ('d group_rep \<times> 'd group_rep) option" where
  "mergeNumericRangeGroup rep other =
     (if numericRangeGroupRep other = [] then Some (rep, other)
      else if numericRangeGroupRep rep = []
      then Some (rep\<lparr>numericRangeGroupRep := numericRangeGroupRep other\<rparr>,
                 other\<lparr>numericRangeGroupRep := numericRangeGroupRep rep\<rparr>)
      else map_option (\<lambda>l. (rep\<lparr>numericRangeGroupRep := l\<rparr>, other))
             (merge_range_props (numericRangeGroupRep rep) (numericRangeGroupRep other)))"

definition gr_merge ::
  "(ustring \<Rightarrow> ustring \<Rightarrow> int) \<Rightarrow> ('d :: linorder) group_rep \<Rightarrow> 'd group_rep \<Rightarrow>
   ('d group_rep \<times> 'd group_rep) option" where
  "gr_merge cmp rep other =
     (let (rep1, other1) = mergeStringGroup cmp rep other in
      Option.bind (mergeNumericGroup rep1 other1) (\<lambda>(rep2, other2). mergeNumericRangeGroup rep2 other2))"

section \<open>Keeping the largest groups\<close>

text \<open>
  The two passes of \<open>ResizeTo\<close> over the items once the numeric parts have become items. The first pass
  keeps a min-heap of at most \<open>grouptop\<close> counts for each property; a heap is a multiset of counts
  whose top is its minimum.
\<close>

definition heap_top :: "u32 multiset \<Rightarrow> u32" where
  "heap_top q = Min_mset q"

definition heap_pop :: "u32 multiset \<Rightarrow> u32 multiset" where
  "heap_pop q = q - {#heap_top q#}"

definition to_size_t :: "int \<Rightarrow> nat" where
  "to_size_t i = nat (if i < 0 then 2 ^ 64 + i else i)"

text \<open>
  First pass: the heaps so far and the limit of the current property. \<open>None\<close>: an item before the first
  property, or the top of an empty heap is read (for the message when the next property starts).
\<close>

fun resize_heaps ::
  "(ustring \<Rightarrow> string) \<Rightarrow> (string \<rightharpoonup> int) \<Rightarrow> int \<Rightarrow> 'd string_group_rep \<Rightarrow> u32 multiset list \<Rightarrow> int \<Rightarrow>
   u32 multiset list option" where
  "resize_heaps conv tops n [] queues grouptop = Some queues"
| "resize_heaps conv tops n (it # items) queues grouptop =
     (if ri_level it = 0 \<and> queues \<noteq> [] \<and> last queues = {#} then None
      else
        let qg = (if ri_level it = 0
            then (queues @ [{#}], (case tops (conv (ri_text it)) of Some k \<Rightarrow> k | None \<Rightarrow> n))
            else if ri_level it = 1 \<and> queues \<noteq> []
            then (butlast queues @ [add_mset (ri_doc_count it) (last queues)], grouptop)
            else (queues, grouptop))
        in if fst qg = [] then None
           else let q = last (fst qg);
                    q' = (if size q > to_size_t (snd qg) then heap_pop q else q)
                in resize_heaps conv tops n items (butlast (fst qg) @ [q']) (snd qg))"

text \<open>
  Second pass: a group whose count is below the top of its property's heap is erased together with
  the deeper items that follow it. \<open>None\<close>: the heap is missing or empty.
\<close>

fun resize_erase ::
  "u32 multiset list \<Rightarrow> nat \<Rightarrow> bool \<Rightarrow> 'd string_group_rep \<Rightarrow> 'd string_group_rep option" where
  "resize_erase queues prop_num need_remove_last [] = Some []"
| "resize_erase queues prop_num need_remove_last (it # items) =
     (if ri_level it = 0 then map_option ((#) it) (resize_erase queues (Suc prop_num) False items)
      else if ri_level it = 1 then
        (if prop_num = 0 \<or> length queues < prop_num \<or> queues ! (prop_num - 1) = {#} then None
         else if ri_doc_count it < heap_top (queues ! (prop_num - 1))
         then resize_erase queues prop_num True items
         else map_option ((#) it) (resize_erase queues prop_num False items))
      else if need_remove_last then resize_erase queues prop_num need_remove_last items
      else map_option ((#) it) (resize_erase queues prop_num need_remove_last items))"

definition resize_items ::
  "(ustring \<Rightarrow> string) \<Rightarrow> (string \<rightharpoonup> int) \<Rightarrow> 'd string_group_rep \<Rightarrow> 'd string_group_rep option" where
  "resize_items conv tops items =
     Option.bind (resize_heaps conv tops (int (length items)) items [] (int (length items)))
       (\<lambda>queues. resize_erase queues 0 False items)"

section \<open>String groups as forests\<close>

datatype 'd gtree = GNode "'d rep_item" "'d gtree list"

fun flat_tree :: "nat \<Rightarrow> 'd gtree \<Rightarrow> 'd rep_item list" where
  "flat_tree l (GNode i ch) = i\<lparr>ri_level := of_nat l\<rparr> # concat (map (flat_tree (Suc l)) ch)"

definition flat_forest :: "nat \<Rightarrow> 'd gtree list \<Rightarrow> 'd rep_item list" where
  "flat_forest l f = concat (map (flat_tree l) f)"

fun tree_height :: "'d gtree \<Rightarrow> nat" where
  "tree_height (GNode i ch) = Suc (fold max (map tree_height ch) 0)"

definition forest_height :: "'d gtree list \<Rightarrow> nat" where
  "forest_height f = fold max (map tree_height f) 0"

function merge_forest :: "(ustring \<Rightarrow> ustring \<Rightarrow> int) \<Rightarrow> 'd gtree list \<Rightarrow> 'd gtree list \<Rightarrow> 'd gtree list" where
  "merge_forest cmp [] g = g"
| "merge_forest cmp (t # f) [] = t # f"
| "merge_forest cmp (GNode i cs # f) (GNode j ds # g) =
     (if cmp (ri_text i) (ri_text j) < 0 then GNode i cs # merge_forest cmp f (GNode j ds # g)
      else if cmp (ri_text i) (ri_text j) > 0 then GNode j ds # merge_forest cmp (GNode i cs # f) g
      else GNode (i\<lparr>ri_doc_count := ri_doc_count i + ri_doc_count j\<rparr>) (merge_forest cmp cs ds) #
        merge_forest cmp f g)"
  by pat_completeness auto
termination
  by (relation "measure (\<lambda>(_, f, g). size_list size f + size_list size g)") simp_all

text \<open>The count at a path: the sum over all nodes with that path.\<close>

fun tree_count :: "ustring list \<Rightarrow> 'd gtree \<Rightarrow> u32" where
  "tree_count [] t = 0"
| "tree_count (x # p) (GNode i ch) =
     (if ri_text i \<noteq> x then 0
      else if p = [] then ri_doc_count i
      else sum_list (map (tree_count p) ch))"

definition forest_count :: "ustring list \<Rightarrow> 'd gtree list \<Rightarrow> u32" where
  "forest_count p f = sum_list (map (tree_count p) f)"

lemma merge_forest_count:
  assumes "\<forall>x y. cmp x y = 0 \<longrightarrow> x = y"
  shows "forest_count p (merge_forest cmp f g) = forest_count p f + forest_count p g"
  using assms
proof (induction cmp f g arbitrary: p rule: merge_forest.induct)
  case (3 cmp i cs f j ds g)
  show ?case
  proof (cases "cmp (ri_text i) (ri_text j) = 0")
    case True
    then have t: "ri_text i = ri_text j" using "3.prems" by blast
    have c: "sum_list (map (tree_count q) (merge_forest cmp cs ds)) =
        sum_list (map (tree_count q) cs) + sum_list (map (tree_count q) ds)" for q
      using 3(3) [of q] True "3.prems" by (simp add: forest_count_def)
    have "forest_count p (merge_forest cmp f g) = forest_count p f + forest_count p g"
      using 3(4) [of p] True "3.prems" by simp
    then show ?thesis using True t c by (cases p) (auto simp: forest_count_def algebra_simps)
  next
    case False
    then show ?thesis using 3 by (auto simp: forest_count_def algebra_simps)
  qed
qed (simp_all add: forest_count_def)

lemma fold_max_le: "fold max xs (a :: nat) \<le> b \<longleftrightarrow> a \<le> b \<and> (\<forall>x\<in>set xs. x \<le> b)"
  by (induction xs arbitrary: a) auto

lemma flat_tree_levels:
  "it \<in> set (flat_tree l t) \<Longrightarrow> l + tree_height t \<le> 256 \<Longrightarrow> l \<le> unat (ri_level it)"
proof (induction l t arbitrary: it rule: flat_tree.induct)
  case (1 l i ch)
  show ?case
  proof (cases "it = i\<lparr>ri_level := of_nat l\<rparr>")
    case True
    then show ?thesis using "1.prems"(2) by (simp add: unat_of_nat)
  next
    case False
    then obtain c where c: "c \<in> set ch" "it \<in> set (flat_tree (Suc l) c)" using "1.prems"(1) by auto
    then have "tree_height c \<le> fold max (map tree_height ch) 0"
      using fold_max_le [of "map tree_height ch" 0 "fold max (map tree_height ch) 0"] by auto
    then show ?thesis using "1.IH" [OF c] "1.prems"(2) by simp
  qed
qed

lemma tree_height_le: "t \<in> set f \<Longrightarrow> tree_height t \<le> forest_height f"
  using fold_max_le [of "map tree_height f" 0 "forest_height f"] by (auto simp: forest_height_def)

lemma flat_forest_levels:
  "it \<in> set (flat_forest l f) \<Longrightarrow> l + forest_height f \<le> 256 \<Longrightarrow> l \<le> unat (ri_level it)"
  using flat_tree_levels tree_height_le by (fastforce simp: flat_forest_def)

lemma flat_forest_Cons:
  "flat_forest l (GNode i cs # f) = i\<lparr>ri_level := of_nat l\<rparr> # flat_forest (Suc l) cs @ flat_forest l f"
  by (simp add: flat_forest_def)

lemma forest_height_Cons: "forest_height (GNode i cs # f) \<le> n \<longleftrightarrow> Suc (forest_height cs) \<le> n \<and> forest_height f \<le> n"
  by (simp add: forest_height_def fold_max_le)

text \<open>What follows a forest of level \<open>l\<close> is empty or belongs to a smaller level.\<close>

definition ends :: "nat \<Rightarrow> 'd rep_item list \<Rightarrow> bool" where
  "ends l r \<longleftrightarrow> r = [] \<or> unat (ri_level (hd r)) < l"

lemma ends_flat: "ends l r \<Longrightarrow> l < 256 \<Longrightarrow> ends (Suc l) (flat_forest l f @ r)"
  by (cases f rule: list.exhaust; cases "hd f")
    (auto simp: ends_def flat_forest_def unat_of_nat hd_append split: if_splits)

lemma level_le: "l < 256 \<Longrightarrow> (of_nat l :: u8) \<le> x \<longleftrightarrow> l \<le> unat x"
  by (simp add: word_le_nat_alt unat_of_nat)

lemma level_less: "l < 256 \<Longrightarrow> (of_nat l :: u8) < x \<longleftrightarrow> Suc l \<le> unat x"
  by (simp add: word_less_nat_alt unat_of_nat Suc_le_eq)

lemma split_levels:
  assumes "\<forall>it\<in>set xs. m \<le> unat (ri_level it)" "ends m r" "\<And>it. P it \<longleftrightarrow> m \<le> unat (ri_level it)"
  shows "takeWhile P (xs @ r) = xs" "dropWhile P (xs @ r) = r"
proof -
  have "takeWhile P r = []" "dropWhile P r = r"
    using assms(2,3) by (cases r; auto simp: ends_def)+
  then show "takeWhile P (xs @ r) = xs" "dropWhile P (xs @ r) = r"
    using assms(1,3) by (simp_all add: takeWhile_append2 dropWhile_append2)
qed

lemma flat_forest_merge_rest:
  assumes "ends l r" "l + forest_height f \<le> 255" "f \<noteq> []"
  shows "hd (flat_forest l f @ r) # takeWhile (\<lambda>i. of_nat l \<le> ri_level i) (tl (flat_forest l f @ r)) = flat_forest l f"
    "dropWhile (\<lambda>i. of_nat l \<le> ri_level i) (tl (flat_forest l f @ r)) = r"
    "flat_forest l f @ r \<noteq> []" "of_nat l \<le> ri_level (hd (flat_forest l f @ r))"
proof -
  obtain i cs f' where f: "f = GNode i cs # f'" using assms(3) by (metis gtree.exhaust neq_Nil_conv)
  have l: "l < 256" using assms(2) by simp
  have lv: "\<forall>it\<in>set (flat_forest l f). l \<le> unat (ri_level it)"
    using flat_forest_levels assms(2) by fastforce
  let ?t = "flat_forest (Suc l) cs @ flat_forest l f'"
  have "\<forall>it\<in>set ?t. l \<le> unat (ri_level it)" using lv by (simp add: f flat_forest_Cons)
  note S = split_levels [OF this assms(1), of "\<lambda>i. of_nat l \<le> ri_level i", OF level_le [OF l]]
  show "hd (flat_forest l f @ r) # takeWhile (\<lambda>i. of_nat l \<le> ri_level i) (tl (flat_forest l f @ r)) = flat_forest l f"
    "dropWhile (\<lambda>i. of_nat l \<le> ri_level i) (tl (flat_forest l f @ r)) = r"
    "flat_forest l f @ r \<noteq> []" "of_nat l \<le> ri_level (hd (flat_forest l f @ r))"
    using S by (simp_all add: f flat_forest_Cons)
qed

lemma ends_no_more: "ends l r \<Longrightarrow> l < 256 \<Longrightarrow> \<not> (r \<noteq> [] \<and> of_nat l \<le> ri_level (hd r))"
  by (auto simp: ends_def level_le)

lemma recurse_flat:
  assumes "ends l r" "ends l r'" "l + forest_height f \<le> 255" "l + forest_height g \<le> 255"
  shows "recurseStringGroup cmp (of_nat l) (flat_forest l f @ r) (flat_forest l g @ r') =
    (flat_forest l (merge_forest cmp f g), r, r')"
  using assms
proof (induction cmp f g arbitrary: l r r' rule: merge_forest.induct)
  case (1 cmp g)
  have l: "l < 256" using 1 by simp
  have e: "flat_forest l [] @ r = r" by (simp add: flat_forest_def)
  show ?case
  proof (cases "g = []")
    case True
    then show ?thesis using ends_no_more [OF 1(1) l] ends_no_more [OF 1(2) l]
      by (subst recurseStringGroup.simps) (auto simp: flat_forest_def)
  next
    case False
    note R = flat_forest_merge_rest [OF 1(2,4) False]
    show ?thesis unfolding e using ends_no_more [OF 1(1) l] R
      by (subst recurseStringGroup.simps) auto
  qed
next
  case (2 cmp t f)
  have l: "l < 256" using 2 by simp
  have e: "flat_forest l [] @ r' = r'" by (simp add: flat_forest_def)
  note R = flat_forest_merge_rest [OF 2(1,3), simplified]
  show ?case unfolding e using ends_no_more [OF 2(2) l] R
    by (subst recurseStringGroup.simps) auto
next
  case (3 cmp i cs f j ds g)
  let ?it = "flat_forest l (GNode i cs # f) @ r" and ?oit = "flat_forest l (GNode j ds # g) @ r'"
  have h: "l + forest_height f \<le> 255" "l + forest_height g \<le> 255"
    "Suc l + forest_height cs \<le> 255" "Suc l + forest_height ds \<le> 255"
    using "3.prems"(3,4) forest_height_Cons [of i cs f "forest_height (GNode i cs # f)"]
      forest_height_Cons [of j ds g "forest_height (GNode j ds # g)"] by auto
  then have l: "l < 256" by simp
  have it: "?it = i\<lparr>ri_level := of_nat l\<rparr> # flat_forest (Suc l) cs @ flat_forest l f @ r"
    and oit: "?oit = j\<lparr>ri_level := of_nat l\<rparr> # flat_forest (Suc l) ds @ flat_forest l g @ r'"
    by (simp_all add: flat_forest_Cons)
  have e1: "ends (Suc l) (flat_forest l f @ r)" "ends (Suc l) (flat_forest l g @ r')"
    using ends_flat "3.prems"(1,2) l by blast+
  have lv: "\<forall>x\<in>set (flat_forest (Suc l) cs). Suc l \<le> unat (ri_level x)"
    "\<forall>x\<in>set (flat_forest (Suc l) ds). Suc l \<le> unat (ri_level x)"
    using flat_forest_levels h(3,4) by fastforce+
  note S1 = split_levels [OF lv(1) e1(1), of "\<lambda>i. of_nat l < ri_level i", OF level_less [OF l]]
  note S2 = split_levels [OF lv(2) e1(2), of "\<lambda>i. of_nat l < ri_level i", OF level_less [OF l]]
  consider (lt) "cmp (ri_text i) (ri_text j) < 0" | (gt) "cmp (ri_text i) (ri_text j) > 0"
    | (eq) "cmp (ri_text i) (ri_text j) = 0" by linarith
  then show ?case
  proof cases
    case lt
    have "recurseStringGroup cmp (of_nat l) (flat_forest l f @ r) ?oit =
        (flat_forest l (merge_forest cmp f (GNode j ds # g)), r, r')"
      using 3(1) [OF lt "3.prems"(1,2) h(1) "3.prems"(4)] .
    then show ?thesis using lt S1 unfolding it
      by (subst recurseStringGroup.simps) (simp add: oit Let_def flat_forest_Cons)
  next
    case gt
    have "recurseStringGroup cmp (of_nat l) ?it (flat_forest l g @ r') =
        (flat_forest l (merge_forest cmp (GNode i cs # f) g), r, r')"
      using 3(2) [OF _ gt "3.prems"(1-3) h(2)] gt by simp
    then show ?thesis using gt S2 unfolding oit
      by (subst recurseStringGroup.simps) (simp add: it Let_def flat_forest_Cons)
  next
    case eq
    have r1: "recurseStringGroup cmp (of_nat (Suc l)) (flat_forest (Suc l) cs @ flat_forest l f @ r)
        (flat_forest (Suc l) ds @ flat_forest l g @ r') =
        (flat_forest (Suc l) (merge_forest cmp cs ds), flat_forest l f @ r, flat_forest l g @ r')"
      using 3(3) [OF _ _ e1 h(3,4)] eq by simp
    have r2: "recurseStringGroup cmp (of_nat l) (flat_forest l f @ r) (flat_forest l g @ r') =
        (flat_forest l (merge_forest cmp f g), r, r')"
      using 3(4) [OF _ _ "3.prems"(1,2) h(1,2)] eq by simp
    have lp: "(of_nat l :: u8) + 1 = of_nat (Suc l)" by simp
    show ?thesis unfolding it oit using eq r1 r2
      by (subst recurseStringGroup.simps) (simp add: Let_def flat_forest_Cons lp del: of_nat_Suc)
  qed
qed

section \<open>Numeric lists\<close>

definition num_count :: "'d \<Rightarrow> ('d \<times> u32) list \<Rightarrow> u32" where
  "num_count k xs = sum_list (map snd (filter (\<lambda>x. fst x = k) xs))"

definition num_sorted :: "('d :: linorder \<times> u32) list \<Rightarrow> bool" where
  "num_sorted xs \<longleftrightarrow> sorted_wrt (<) (map fst xs)"

lemma num_count_append: "num_count k (xs @ ys) = num_count k xs + num_count k ys"
  by (simp add: num_count_def)

lemma num_count_split: "num_count k (takeWhile P xs) + num_count k (dropWhile P xs) = num_count k xs"
  by (metis num_count_append takeWhile_dropWhile_id)

lemma num_sorted_append:
  "num_sorted (xs @ ys) \<longleftrightarrow> num_sorted xs \<and> num_sorted ys \<and> (\<forall>x\<in>fst ` set xs. \<forall>y\<in>fst ` set ys. x < y)"
  by (simp add: num_sorted_def sorted_wrt_append)

lemma num_sorted_split:
  "num_sorted xs \<Longrightarrow> num_sorted (takeWhile P xs) \<and> num_sorted (dropWhile P xs) \<and>
     (\<forall>x\<in>fst ` set (takeWhile P xs). \<forall>y\<in>fst ` set (dropWhile P xs). x < y)"
  by (metis num_sorted_append takeWhile_dropWhile_id)

lemma num_sorted_hd: "num_sorted xs \<Longrightarrow> \<forall>y\<in>fst ` set xs. fst (hd xs) \<le> y"
  by (cases xs) (auto simp: num_sorted_def less_imp_le)

lemma sum_regroup:
  "p + l + m = b + d \<Longrightarrow> a + b = x \<Longrightarrow> c + d = y \<Longrightarrow> a + (c + (p + (l + m))) = x + (y :: u32)"
  by (auto simp: algebra_simps)

lemma keys_split: "fst ` set (takeWhile P xs) \<union> fst ` set (dropWhile P xs) = fst ` set xs"
  by (metis image_Un set_append takeWhile_dropWhile_id)

lemma add_equal_count:
  "add_equal lit olit = (out, l, ol) \<Longrightarrow>
     num_count k out + num_count k l + num_count k ol = num_count k lit + num_count k olit"
proof (induction lit olit arbitrary: out l ol rule: add_equal.induct)
  case (1 k1 n lit k2 n' olit)
  show ?case
  proof (cases "k1 = k2")
    case True
    then obtain out' where a: "add_equal lit olit = (out', l, ol)" "out = (k1, n + n') # out'"
      using "1.prems" by (auto simp: Let_def split: prod.splits)
    have "num_count k out' + num_count k l + num_count k ol = num_count k lit + num_count k olit"
      using "1.IH" True a(1) by blast
    then show ?thesis using True a(2) by (simp add: num_count_def algebra_simps)
  qed (use "1.prems" in \<open>auto simp: num_count_def\<close>)
qed (auto simp: num_count_def)

lemma add_equal_keys:
  "add_equal lit olit = (out, l, ol) \<Longrightarrow>
     fst ` set out \<union> fst ` set l \<union> fst ` set ol = fst ` set lit \<union> fst ` set olit"
proof (induction lit olit arbitrary: out l ol rule: add_equal.induct)
  case (1 k1 n lit k2 n' olit)
  show ?case
  proof (cases "k1 = k2")
    case True
    then obtain out' where a: "add_equal lit olit = (out', l, ol)" "out = (k1, n + n') # out'"
      using "1.prems" by (auto simp: Let_def split: prod.splits)
    have "fst ` set out' \<union> fst ` set l \<union> fst ` set ol = fst ` set lit \<union> fst ` set olit"
      using "1.IH" True a(1) by blast
    then show ?thesis using True a(2) by auto
  qed (use "1.prems" in auto)
qed auto

lemma add_equal_sorted:
  "add_equal lit olit = (out, l, ol) \<Longrightarrow> num_sorted lit \<Longrightarrow> num_sorted olit \<Longrightarrow>
     num_sorted out \<and> num_sorted l \<and> num_sorted ol \<and>
     (\<forall>x\<in>fst ` set out. \<forall>y\<in>fst ` set l \<union> fst ` set ol. x < y)"
proof (induction lit olit arbitrary: out l ol rule: add_equal.induct)
  case (1 k1 n lit k2 n' olit)
  show ?case
  proof (cases "k1 = k2")
    case True
    then obtain out' where a: "add_equal lit olit = (out', l, ol)" "out = (k1, n + n') # out'"
      using "1.prems"(1) by (auto simp: Let_def split: prod.splits)
    have s: "num_sorted lit" "num_sorted olit" "\<forall>x\<in>fst ` set lit \<union> fst ` set olit. k1 < x"
      using "1.prems"(2,3) True by (auto simp: num_sorted_def)
    have "num_sorted out' \<and> num_sorted l \<and> num_sorted ol \<and>
        (\<forall>x\<in>fst ` set out'. \<forall>y\<in>fst ` set l \<union> fst ` set ol. x < y)"
      using "1.IH" True a(1) s(1,2) by blast
    moreover have "\<forall>x\<in>fst ` set out' \<union> fst ` set l \<union> fst ` set ol. k1 < x"
      using add_equal_keys [OF a(1)] s(3) by simp
    ultimately show ?thesis using a(2) by (auto simp: num_sorted_def)
  qed (use "1.prems" in \<open>auto simp: num_sorted_def\<close>)
qed (auto simp: num_sorted_def)

lemma merge_numeric_count:
  "num_count k (merge_numeric_list lit olit) = num_count k lit + num_count k olit"
proof (induction lit olit rule: merge_numeric_list.induct)
  case (1 lit olit)
  let ?P = "\<lambda>x. fst x < fst (hd olit)"
  let ?lit1 = "dropWhile ?P lit"
  let ?Q = "\<lambda>x. fst (hd ?lit1) > fst x"
  obtain out lit2 olit2 where a: "add_equal ?lit1 (dropWhile ?Q olit) = (out, lit2, olit2)"
    by (metis surj_pair)
  show ?case
  proof (cases "olit = [] \<or> ?lit1 = []")
    case True
    then show ?thesis
      by (subst merge_numeric_list.simps)
        (auto simp: num_count_append takeWhile_eq_all_conv [THEN iffD2] num_count_def [of k "[]"])
  next
    case False
    have eq: "merge_numeric_list lit olit =
        takeWhile ?P lit @ takeWhile ?Q olit @ out @ merge_numeric_list lit2 olit2"
      using False a by (subst merge_numeric_list.simps) (auto simp: Let_def)
    have IH: "num_count k (merge_numeric_list lit2 olit2) = num_count k lit2 + num_count k olit2"
      using 1 [OF _ refl refl _ refl refl a [symmetric] refl] False by simp
    show ?thesis unfolding eq num_count_append IH
      using add_equal_count [OF a, of k] num_count_split [of k ?P lit] num_count_split [of k ?Q olit]
      by (rule sum_regroup)
  qed
qed

lemma merge_numeric_sorted:
  "num_sorted lit \<Longrightarrow> num_sorted olit \<Longrightarrow> num_sorted (merge_numeric_list lit olit) \<and>
     fst ` set (merge_numeric_list lit olit) = fst ` set lit \<union> fst ` set olit"
proof (induction lit olit rule: merge_numeric_list.induct)
  case (1 lit olit)
  let ?P = "\<lambda>x. fst x < fst (hd olit)"
  let ?pre = "takeWhile ?P lit" and ?lit1 = "dropWhile ?P lit"
  let ?Q = "\<lambda>x. fst (hd ?lit1) > fst x"
  let ?ins = "takeWhile ?Q olit" and ?olit1 = "dropWhile ?Q olit"
  obtain out lit2 olit2 where a: "add_equal ?lit1 ?olit1 = (out, lit2, olit2)" by (metis surj_pair)
  have s1: "num_sorted ?pre" "num_sorted ?lit1" "\<forall>x\<in>fst ` set ?pre. \<forall>y\<in>fst ` set ?lit1. x < y"
    using num_sorted_split [OF "1.prems"(1), of ?P] by blast+
  have s2: "num_sorted ?ins" "num_sorted ?olit1" "\<forall>x\<in>fst ` set ?ins. \<forall>y\<in>fst ` set ?olit1. x < y"
    using num_sorted_split [OF "1.prems"(2), of ?Q] by blast+
  have pre: "\<forall>x\<in>fst ` set ?pre. x < fst (hd olit)" by (auto dest: set_takeWhileD)
  have ins: "\<forall>x\<in>fst ` set ?ins. x < fst (hd ?lit1)" by (auto dest: set_takeWhileD)
  have ge: "\<forall>y\<in>fst ` set olit. fst (hd olit) \<le> y"
    by (rule num_sorted_hd [OF "1.prems"(2)])
  have ge1: "\<forall>y\<in>fst ` set ?lit1. fst (hd ?lit1) \<le> y"
    by (rule num_sorted_hd [OF s1(2)])
  show ?case
  proof (cases "olit = [] \<or> ?lit1 = []")
    case True
    show ?thesis
    proof (cases "olit = []")
      case True
      then show ?thesis using "1.prems"(1) by (subst (1 2) merge_numeric_list.simps) simp
    next
      case False
      with \<open>olit = [] \<or> ?lit1 = []\<close> have "?lit1 = []" by blast
      then have p: "?pre = lit" by (metis append_Nil2 takeWhile_dropWhile_id)
      have m: "merge_numeric_list lit olit = lit @ olit"
        using False \<open>?lit1 = []\<close> p by (subst merge_numeric_list.simps) (auto simp: Let_def)
      have "\<forall>x\<in>fst ` set lit. \<forall>y\<in>fst ` set olit. x < y"
        using pre ge unfolding p by (blast intro: order_less_le_trans)
      then show ?thesis using "1.prems" by (simp only: m num_sorted_append set_append image_Un)
    qed
  next
    case False
    have eq: "merge_numeric_list lit olit = ?pre @ ?ins @ out @ merge_numeric_list lit2 olit2"
      using False a by (subst merge_numeric_list.simps) (auto simp: Let_def)
    note A = add_equal_sorted [OF a s1(2) s2(2)] and K = add_equal_keys [OF a]
    have IH: "num_sorted (merge_numeric_list lit2 olit2)"
      "fst ` set (merge_numeric_list lit2 olit2) = fst ` set lit2 \<union> fst ` set olit2"
      using 1(1) [OF _ refl refl _ refl refl a [symmetric] refl] False A by auto
    have keys: "fst ` set out \<union> fst ` set (merge_numeric_list lit2 olit2) = fst ` set ?lit1 \<union> fst ` set ?olit1"
      unfolding IH(2) using K by (simp only: Un_assoc)
    have tail: "num_sorted (out @ merge_numeric_list lit2 olit2)"
      using A IH by (auto simp: num_sorted_append)
    have "\<forall>x\<in>fst ` set ?ins. \<forall>y\<in>fst ` set ?lit1 \<union> fst ` set ?olit1. x < y"
    proof (intro ballI)
      fix x y assume x: "x \<in> fst ` set ?ins" and "y \<in> fst ` set ?lit1 \<union> fst ` set ?olit1"
      then consider "y \<in> fst ` set ?lit1" | "y \<in> fst ` set ?olit1" by blast
      then show "x < y"
      proof cases
        case 1
        then show ?thesis using order_less_le_trans [OF ins [rule_format, OF x]] ge1 by blast
      next
        case 2
        then show ?thesis using s2(3) x by blast
      qed
    qed
    then have mid: "num_sorted (?ins @ out @ merge_numeric_list lit2 olit2)"
      unfolding num_sorted_append [of ?ins] set_append image_Un keys using tail s2(1) by blast
    have "\<forall>x\<in>fst ` set ?pre. \<forall>y\<in>fst ` set ?ins \<union> (fst ` set ?lit1 \<union> fst ` set ?olit1). x < y"
    proof (intro ballI)
      fix x y assume x: "x \<in> fst ` set ?pre" and "y \<in> fst ` set ?ins \<union> (fst ` set ?lit1 \<union> fst ` set ?olit1)"
      then consider "y \<in> fst ` set ?lit1" | "y \<in> fst ` set olit" using keys_split [of ?Q olit] by blast
      then show "x < y"
      proof cases
        case 1
        then show ?thesis using s1(3) x by blast
      next
        case 2
        then show ?thesis using order_less_le_trans [OF pre [rule_format, OF x]] ge by blast
      qed
    qed
    then have "num_sorted (merge_numeric_list lit olit)"
      unfolding eq num_sorted_append [of ?pre] set_append image_Un keys using mid s1(1) by blast
    moreover have "fst ` set (merge_numeric_list lit olit) = fst ` set lit \<union> fst ` set olit"
      unfolding eq set_append image_Un keys keys_split [of ?P lit, symmetric] keys_split [of ?Q olit, symmetric]
      by (simp only: Un_ac)
    ultimately show ?thesis by blast
  qed
qed

end
