(* ===== verification/Group_Range.thy ===== *)
theory Group_Range
  imports Group_Rep
begin

text \<open>
  Lemmas on the segment trees of numeric ranges and on the selection of the largest groups, and the
  properties of group results.
\<close>

section \<open>Segment trees\<close>

lemma level1_const [simp]: "LEVEL_1_OF_SEGMENT_TREE = 7"
  by (simp add: LEVEL_1_OF_SEGMENT_TREE_def)

text \<open>The positions that the merge of two trees visits.\<close>

definition visit3 :: "nat \<Rightarrow> nat \<Rightarrow> nat list" where
  "visit3 i j = map (\<lambda>k. 100 * i + 10 * j + k) [0..<10] @ [700 + 10 * i + j]"

definition visit2 :: "u32 list \<Rightarrow> nat \<Rightarrow> nat \<Rightarrow> nat list" where
  "visit2 ov i j = (if ov ! (700 + 10 * i + j) \<noteq> 0 then visit3 i j else [])"

definition visit1 :: "u32 list \<Rightarrow> nat \<Rightarrow> nat list" where
  "visit1 ov i = (if ov ! (770 + i) \<noteq> 0 then concat (map (visit2 ov i) [0..<10]) @ [770 + i] else [])"

lemma foldl_concat_map:
  "foldl (\<lambda>v i. foldl f v (g i)) v is = foldl f v (concat (map g is))"
  by (induction "is" arbitrary: v) simp_all

lemma merge_level2_visit: "merge_level2 ov i v j = foldl (add_at ov) v (visit2 ov i j)"
  by (simp add: merge_level2_def visit2_def visit3_def)

lemma merge_level1_visit: "merge_level1 ov v i = foldl (add_at ov) v (visit1 ov i)"
proof -
  have "foldl (merge_level2 ov i) v [0..<10] = foldl (add_at ov) v (concat (map (visit2 ov i) [0..<10]))"
    unfolding foldl_concat_map [symmetric] by (simp add: merge_level2_visit [abs_def])
  then show ?thesis by (simp add: merge_level1_def visit1_def)
qed

lemma distinct_concat_map:
  "distinct xs \<Longrightarrow> (\<And>x. x \<in> set xs \<Longrightarrow> distinct (f x)) \<Longrightarrow>
   (\<And>x y. x \<in> set xs \<Longrightarrow> y \<in> set xs \<Longrightarrow> x \<noteq> y \<Longrightarrow> set (f x) \<inter> set (f y) = {}) \<Longrightarrow>
   distinct (concat (map f xs))"
  by (induction xs) auto

lemma visit3_set: "i < 7 \<Longrightarrow> j < 10 \<Longrightarrow> p \<in> set (visit3 i j) \<longleftrightarrow> p = 700 + 10 * i + j \<or> (p < 700 \<and> p div 10 = 10 * i + j)"
  by (auto simp: visit3_def image_iff)

lemma visit3_distinct: "i < 7 \<Longrightarrow> j < 10 \<Longrightarrow> distinct (visit3 i j)"
  by (auto simp: visit3_def distinct_map inj_on_def)

lemma visit1_set:
  assumes "i < 7" "p \<in> set (visit1 ov i)"
  shows "p = 770 + i \<or> (\<exists>j<10. p = 700 + 10 * i + j) \<or> (p < 700 \<and> p div 100 = i)"
proof -
  have "p = 770 + i \<or> (\<exists>j<10. p \<in> set (visit3 i j))"
    using assms(2) by (auto simp: visit1_def visit2_def split: if_splits)
  then show ?thesis
  proof
    assume "\<exists>j<10. p \<in> set (visit3 i j)"
    then obtain j where "j < 10" "p = 700 + 10 * i + j \<or> (p < 700 \<and> p div 10 = 10 * i + j)"
      using visit3_set [OF assms(1)] by blast
    then show ?thesis by auto
  qed simp
qed

lemma visit1_distinct:
  assumes "i < 7"
  shows "distinct (visit1 ov i)"
proof -
  have "distinct (concat (map (visit2 ov i) [0..<10]))"
  proof (rule distinct_concat_map)
    show "distinct (visit2 ov i j)" if "j \<in> set [0..<10]" for j
      using that visit3_distinct [OF assms] by (simp add: visit2_def)
    show "set (visit2 ov i j) \<inter> set (visit2 ov i k) = {}"
      if "j \<in> set [0..<10]" "k \<in> set [0..<10]" "j \<noteq> k" for j k
      using that visit3_set [OF assms] assms by (fastforce simp: visit2_def)
  qed simp
  moreover have "770 + i \<notin> set (concat (map (visit2 ov i) [0..<10]))"
    using visit3_set [OF assms] assms by (auto simp: visit2_def split: if_splits)
  ultimately show ?thesis by (simp add: visit1_def)
qed

lemma visits_distinct: "distinct (777 # concat (map (visit1 ov) [0..<7]))"
proof -
  have "distinct (concat (map (visit1 ov) [0..<7]))"
  proof (rule distinct_concat_map)
    show "distinct (visit1 ov i)" if "i \<in> set [0..<7]" for i using that visit1_distinct by simp
    show "set (visit1 ov i) \<inter> set (visit1 ov k) = {}"
      if "i \<in> set [0..<7]" "k \<in> set [0..<7]" "i \<noteq> k" for i k
      using visit1_set [of i _ ov] visit1_set [of k _ ov] that by fastforce
  qed simp
  moreover have "777 \<notin> set (concat (map (visit1 ov) [0..<7]))"
  proof
    assume "777 \<in> set (concat (map (visit1 ov) [0..<7]))"
    then obtain i where "i < 7" "777 \<in> set (visit1 ov i)" by auto
    then obtain j where "j < 10" "10 * i + j = 77" using visit1_set by fastforce
    then show False using \<open>i < 7\<close> by presburger
  qed
  ultimately show ?thesis by simp
qed

lemma foldl_add_at:
  assumes "distinct ps" "\<forall>p\<in>set ps. p < length v"
  shows "length (foldl (add_at ov) v ps) = length v \<and>
    (\<forall>p < length v. foldl (add_at ov) v ps ! p = (if p \<in> set ps then v ! p + ov ! p else v ! p))"
  using assms
proof (induction ps arbitrary: v)
  case (Cons q ps)
  have "length (add_at ov v q) = length v" by (simp add: add_at_def)
  then show ?case using Cons.IH [of "add_at ov v q"] Cons.prems by (auto simp: add_at_def nth_list_update)
qed simp

text \<open>A node that is zero has only zeros below it.\<close>

definition seg_ok :: "u32 list \<Rightarrow> bool" where
  "seg_ok ov \<longleftrightarrow> length ov = 778 \<and>
     (ov ! 777 = 0 \<longrightarrow> (\<forall>i<7. ov ! (770 + i) = 0)) \<and>
     (\<forall>i<7. ov ! (770 + i) = 0 \<longrightarrow> (\<forall>j<10. ov ! (700 + 10 * i + j) = 0)) \<and>
     (\<forall>m<70. ov ! (700 + m) = 0 \<longrightarrow> (\<forall>k<10. ov ! (10 * m + k) = 0))"

lemma leaf_zero:
  assumes "seg_ok ov" "p < 700" "ov ! (700 + p div 10) = 0"
  shows "ov ! p = 0"
proof -
  have "p div 10 < 70" "p mod 10 < 10" using assms(2) by simp_all
  moreover have "\<forall>m<70. ov ! (700 + m) = 0 \<longrightarrow> (\<forall>k<10. ov ! (10 * m + k) = 0)"
    using assms(1) by (simp add: seg_ok_def)
  ultimately have "ov ! (10 * (p div 10) + p mod 10) = 0" using assms(3) by blast
  then show ?thesis by simp
qed

lemma mid_zero:
  assumes "seg_ok ov" "m < 70" "ov ! (770 + m div 10) = 0"
  shows "ov ! (700 + m) = 0"
proof -
  have b: "m div 10 < 7" "m mod 10 < 10" using assms(2) by simp_all
  have "\<forall>i<7. ov ! (770 + i) = 0 \<longrightarrow> (\<forall>j<10. ov ! (700 + 10 * i + j) = 0)"
    using assms(1) by (simp add: seg_ok_def)
  then have "ov ! (700 + 10 * (m div 10) + m mod 10) = 0" using b assms(3) by blast
  moreover have "700 + 10 * (m div 10) + m mod 10 = 700 + m" by simp
  ultimately show ?thesis by simp
qed

lemma unvisited_zero:
  assumes "seg_ok ov" "p < 777" "p \<notin> set (concat (map (visit1 ov) [0..<7]))"
  shows "ov ! p = 0"
proof -
  have V: "p \<notin> set (visit1 ov i)" if "i < 7" for i using assms(3) that by auto
  consider "770 \<le> p" | "700 \<le> p" "p < 770" | "p < 700" using assms(2) by linarith
  then show ?thesis
  proof cases
    case 1
    then have "p = 770 + (p - 770)" "p - 770 < 7" using assms(2) by auto
    then show ?thesis using V [of "p - 770"] by (auto simp: visit1_def split: if_splits)
  next
    case 2
    let ?m = "p - 700"
    have m: "?m < 70" "p = 700 + ?m" "?m div 10 < 7" using 2 by auto
    have j: "?m mod 10 \<in> set [0..<10]" "700 + 10 * (?m div 10) + ?m mod 10 = p" using 2 by auto
    show ?thesis
    proof (cases "ov ! (770 + ?m div 10) = 0")
      case True
      then show ?thesis using mid_zero [OF assms(1) m(1)] m(2) by simp
    next
      case False
      then have "p \<notin> set (visit2 ov (?m div 10) (?m mod 10))"
        using V [OF m(3)] j(1) unfolding visit1_def by auto
      then show ?thesis using j(2) by (simp add: visit2_def visit3_def split: if_splits)
    qed
  next
    case 3
    let ?m = "p div 10"
    have m: "?m < 70" "?m div 10 < 7" "?m mod 10 < 10" using 3 by auto
    show ?thesis
    proof (cases "ov ! (770 + ?m div 10) = 0 \<or> ov ! (700 + ?m) = 0")
      case True
      then show ?thesis using mid_zero [OF assms(1) m(1)] leaf_zero [OF assms(1) 3] by blast
    next
      case False
      have e: "700 + 10 * (?m div 10) + ?m mod 10 = 700 + ?m" by simp
      have "p \<notin> set (visit2 ov (?m div 10) (?m mod 10))"
        using V [OF m(2)] False m(3) unfolding visit1_def by auto
      then have "p \<notin> set (visit3 (?m div 10) (?m mod 10))" using False by (simp add: visit2_def e)
      then show ?thesis using visit3_set [OF m(2,3), of p] 3 by simp
    qed
  qed
qed

lemma merge_range_sum:
  assumes ok: "seg_ok ov" and v: "length v = 778"
  shows "merge_range v ov = map2 (+) v ov"
proof -
  have ov: "length ov = 778" using ok by (simp add: seg_ok_def)
  then have "ov \<noteq> []" "v \<noteq> []" using v by auto
  then have lst: "last ov = ov ! 777" "last v = v ! 777" using ov v by (simp_all add: last_conv_nth)
  let ?ps = "concat (map (visit1 ov) [0..<7])"
  have range: "\<forall>p\<in>set (777 # ?ps). p < length v" using visit1_set [of _ _ ov] v by fastforce
  show ?thesis
  proof (cases "last ov = 0")
    case True
    then have "visit1 ov i = []" if "i < 7" for i
      using ok that lst by (simp add: seg_ok_def visit1_def)
    then have "?ps = []" by simp
    then have "ov ! p = 0" if "p < 778" for p
      using unvisited_zero [OF ok, of p] True lst that by (cases "p = 777") auto
    then show ?thesis using True v ov by (intro nth_equalityI) (auto simp: merge_range_def)
  next
    case False
    have e: "v[length v - 1 := last v + last ov] = add_at ov v 777" using v lst by (simp add: add_at_def)
    have m: "merge_range v ov = foldl (add_at ov) v (777 # ?ps)"
      using False unfolding merge_range_def e
      by (simp add: foldl_concat_map [symmetric] merge_level1_visit [abs_def])
    note F = foldl_add_at [OF visits_distinct range, of ov]
    show ?thesis
    proof (rule nth_equalityI)
      show "length (merge_range v ov) = length (map2 (+) v ov)" using F m v ov by simp
      show "merge_range v ov ! p = map2 (+) v ov ! p" if "p < length (merge_range v ov)" for p
      proof -
        have p: "p < 778" using that F m v by simp
        then show ?thesis using F m v ov unvisited_zero [OF ok, of p] by (cases "p = 777") auto
      qed
    qed
  qed
qed

section \<open>What a counter of a segment tree counts\<close>

text \<open>Values in the interval of a node, block \<open>e\<close> covering the values from \<open>bound e\<close> to \<open>bound (e + 1)\<close>.\<close>

definition clamp_value :: "int \<Rightarrow> int" where
  "clamp_value v = min v 999999999"

definition in_cell :: "nat \<Rightarrow> int \<Rightarrow> int \<Rightarrow> int \<Rightarrow> bool" where
  "in_cell e width q w \<longleftrightarrow> range_bound ! e \<le> w \<and> w < range_bound ! Suc e \<and> width * q \<le> w \<and> w < width * (q + 1)"

definition in_node :: "nat \<Rightarrow> int \<Rightarrow> bool" where
  "in_node p v \<longleftrightarrow> 0 < v \<and>
     (if p < 700 then
        in_cell (p div 100) (range_bound ! Suc (p div 100) div 100) (int (p mod 100)) (clamp_value v)
      else if p < 770 then
        in_cell ((p - 700) div 10) (range_bound ! Suc ((p - 700) div 10) div 10) (int ((p - 700) mod 10)) (clamp_value v)
      else if p < 777 then in_cell (p - 770) (range_bound ! Suc (p - 770)) 0 (clamp_value v)
      else True)"

definition node_docs :: "int option list \<Rightarrow> nat \<Rightarrow> nat" where
  "node_docs vals p = length (filter (\<lambda>v. \<exists>x. v = Some x \<and> in_node p x) vals)"

definition leaf_index :: "int \<Rightarrow> nat" where
  "leaf_index v = 100 * fst (range_leaf v) + nat (snd (range_leaf v))"

lemma block_cases:
  assumes "0 < w" "w < 1000000000"
  obtains e where "e < 7" "range_bound ! e \<le> w" "w < range_bound ! Suc e"
proof -
  consider "w < 1000" | "1000 \<le> w" "w < 10000" | "10000 \<le> w" "w < 100000" | "100000 \<le> w" "w < 1000000"
    | "1000000 \<le> w" "w < 10000000" | "10000000 \<le> w" "w < 100000000" | "100000000 \<le> w"
    by linarith
  then show ?thesis
    by cases (insert that [of 0] that [of 1] that [of 2] that [of 3] that [of 4] that [of 5] that [of 6] assms,
        simp_all add: range_bound_def)
qed

lemma range_bound_mono: "i \<le> j \<Longrightarrow> j < 8 \<Longrightarrow> range_bound ! i \<le> range_bound ! j"
proof -
  assume a: "i \<le> j" "j < 8"
  have "sorted range_bound" "length range_bound = 8" by (simp_all add: range_bound_def)
  then show ?thesis using a by (simp add: sorted_iff_nth_mono)
qed

lemma block_unique:
  assumes "e < 7" "e' < 7" "range_bound ! e \<le> w" "w < range_bound ! Suc e"
    "range_bound ! e' \<le> w" "w < range_bound ! Suc e'"
  shows "e = e'"
proof (rule ccontr)
  assume "e \<noteq> e'"
  then consider "Suc e \<le> e'" | "Suc e' \<le> e" by linarith
  then show False using range_bound_mono [of "Suc e" e'] range_bound_mono [of "Suc e'" e] assms by cases auto
qed

lemma takeWhile_upt:
  assumes "\<And>i. a \<le> i \<Longrightarrow> i < m \<Longrightarrow> P i" "m < n" "\<not> P m" "a \<le> m"
  shows "takeWhile P [a..<n] = [a..<m]"
proof -
  have "[a..<n] = [a..<m] @ m # [Suc m..<n]"
    using assms(2,4) by (metis less_imp_le_nat upt_add_eq_append upt_conv_Cons le_add_diff_inverse)
  moreover have "takeWhile P ([a..<m] @ m # [Suc m..<n]) = [a..<m] @ takeWhile P (m # [Suc m..<n])"
    using assms(1) by (intro takeWhile_append2) simp
  ultimately show ?thesis using assms(3) by simp
qed

lemma range_leaf_block:
  assumes "0 < v" "e < 7" "range_bound ! e \<le> clamp_value v" "clamp_value v < range_bound ! Suc e"
  shows "range_leaf v = (e, clamp_value v div (range_bound ! Suc e div 100))"
proof -
  let ?w = "clamp_value v"
  have w: "min v (range_bound ! LEVEL_1_OF_SEGMENT_TREE - 1) = ?w"
    by (simp add: clamp_value_def range_bound_def)
  have "takeWhile (\<lambda>e. range_bound ! e \<le> ?w) [1..<8] = [1..<Suc e]"
  proof (rule takeWhile_upt)
    show "range_bound ! i \<le> ?w" if "1 \<le> i" "i < Suc e" for i
      using range_bound_mono [of i e] that assms by simp
  qed (use assms in auto)
  then have "length (takeWhile (\<lambda>e. range_bound ! e \<le> ?w) [1..<LEVEL_1_OF_SEGMENT_TREE + 1]) = e" by simp
  then show ?thesis unfolding range_leaf_def w by (simp only: Let_def) simp
qed

lemma cell_width: "e < 7 \<Longrightarrow> \<exists>a>0. range_bound ! Suc e div 100 = a \<and> range_bound ! Suc e = 100 * a \<and>
    range_bound ! Suc e div 10 = 10 * a"
proof -
  assume "e < 7"
  then consider "e = 0" | "e = 1" | "e = 2" | "e = 3" | "e = 4" | "e = 5" | "e = 6" by linarith
  then show ?thesis by cases (simp_all add: range_bound_def)
qed

lemma in_interval_div:
  assumes "0 < (a :: int)"
  shows "a * q \<le> w \<and> w < a * (q + 1) \<longleftrightarrow> w div a = q"
proof
  assume i: "a * q \<le> w \<and> w < a * (q + 1)"
  then have "0 \<le> w - a * q" "w - a * q < a" by (simp_all add: algebra_simps)
  then have "(w - a * q) div a = 0" by (rule div_pos_pos_trivial)
  moreover have "w div a = (w - a * q) div a + q"
    using assms div_mult_self2 [of a "w - a * q" q] by (simp add: algebra_simps)
  ultimately show "w div a = q" by simp
next
  assume "w div a = q"
  moreover have "w = a * (w div a) + w mod a" by simp
  moreover have "0 \<le> w mod a" "w mod a < a" using assms by simp_all
  ultimately show "a * q \<le> w \<and> w < a * (q + 1)" by (auto simp: algebra_simps)
qed

lemma in_cell_block:
  assumes "e < 7" "range_bound ! e \<le> w" "w < range_bound ! Suc e" "e' < 7" "0 < a"
  shows "in_cell e' a q w \<longleftrightarrow> e' = e \<and> w div a = q"
  unfolding in_cell_def in_interval_div [OF assms(5)] using block_unique [OF assms(4,1) _ _ assms(2,3)] assms
  by blast

lemma mid_index:
  assumes "(n :: nat) < 100"
  shows "r div 10 = e \<and> n div 10 = r mod 10 \<longleftrightarrow> r = (100 * e + n) div 10"
proof -
  obtain k where k: "n div 10 = k" "k < 10" using assms by simp
  have e: "(100 * e + n) div 10 = 10 * e + k" using k(1) by simp
  have r: "10 * (r div 10) + r mod 10 = r" by simp
  have "(10 * e + k) div 10 = e" "(10 * e + k) mod 10 = k" using k(2) by simp_all
  then show ?thesis unfolding e k(1) using r by metis
qed

lemma in_node_leaf:
  assumes "0 < v"
  shows "leaf_index v < 700"
    "in_node p v \<longleftrightarrow> (if p < 700 then p = leaf_index v else if p < 770 then p - 700 = leaf_index v div 10
       else if p < 777 then p - 770 = leaf_index v div 100 else True)"
proof -
  let ?w = "clamp_value v"
  have w: "0 < ?w" "?w < 1000000000" using assms by (simp_all add: clamp_value_def)
  obtain e where e: "e < 7" "range_bound ! e \<le> ?w" "?w < range_bound ! Suc e" by (rule block_cases [OF w])
  obtain a where a: "0 < a" "range_bound ! Suc e div 100 = a" "range_bound ! Suc e = 100 * a"
    "range_bound ! Suc e div 10 = 10 * a" using cell_width [OF e(1)] by blast
  let ?q = "?w div a"
  have "a * ?q \<le> ?w" using in_interval_div [OF a(1), of ?q ?w] by simp
  then have "a * ?q < a * 100" using a(3) e(3) by simp
  then have q: "0 \<le> ?q" "?q < 100" using w a(1) by (simp_all add: pos_imp_zdiv_nonneg_iff)
  have q10: "?w div (10 * a) = ?q div 10" using zdiv_zmult2_eq [of 10 ?w a] by (simp add: mult.commute)
  have q100: "?w div (100 * a) = 0" using e(3) a(3) w(1) by (intro div_pos_pos_trivial) simp_all
  have L: "leaf_index v = 100 * e + nat ?q" using range_leaf_block [OF assms e] a(2) by (simp add: leaf_index_def)
  show "leaf_index v < 700" using L q e(1) by simp
  have C: "in_cell e' (range_bound ! Suc e' div k) x ?w \<longleftrightarrow> e' = e \<and> ?w div (range_bound ! Suc e div k) = x"
    if "e' < 7" "0 < range_bound ! Suc e' div k" for e' k x
    using in_cell_block [OF e that] by auto
  have pos: "0 < range_bound ! Suc e' div 100" "0 < range_bound ! Suc e' div 10" "0 < range_bound ! Suc e' div 1"
    if "e' < 7" for e' using cell_width [OF that] by auto
  show "in_node p v \<longleftrightarrow> (if p < 700 then p = leaf_index v else if p < 770 then p - 700 = leaf_index v div 10
       else if p < 777 then p - 770 = leaf_index v div 100 else True)"
  proof -
    consider "p < 700" | "700 \<le> p" "p < 770" | "770 \<le> p" "p < 777" | "777 \<le> p" by linarith
    then show ?thesis
    proof cases
      case 1
      then have "p div 100 < 7" by simp
      then have "in_node p v \<longleftrightarrow> p div 100 = e \<and> ?q = int (p mod 100)"
        unfolding in_node_def using 1 assms C [OF _ pos(1)] a(2) by simp
      also have "\<dots> \<longleftrightarrow> p = 100 * e + nat ?q" using q by auto
      finally show ?thesis using 1 L by simp
    next
      case 2
      then have "(p - 700) div 10 < 7" by auto
      then have "in_node p v \<longleftrightarrow> (p - 700) div 10 = e \<and> ?q div 10 = int ((p - 700) mod 10)"
        unfolding in_node_def using 2 assms C [OF _ pos(2)] a(4) q10 by simp
      also have "\<dots> \<longleftrightarrow> p - 700 = (100 * e + nat ?q) div 10"
      proof -
        obtain n where n: "?q = int n" using zero_le_imp_eq_int [OF q(1)] by blast
        have n100: "n < 100" using q(2) unfolding n by simp
        have i: "int n div 10 = int (n div 10)" by simp
        show ?thesis unfolding n i of_nat_eq_iff nat_int by (rule mid_index [OF n100])
      qed
      finally show ?thesis using 2 L by simp
    next
      case 3
      then have "p - 770 < 7" by auto
      then have "in_node p v \<longleftrightarrow> p - 770 = e"
        unfolding in_node_def using 3 assms C [OF _ pos(3)] a(3) q100 by simp
      also have "\<dots> \<longleftrightarrow> p - 770 = (100 * e + nat ?q) div 100" using q by auto
      finally show ?thesis using 3 L by simp
    qed (simp add: in_node_def assms)
  qed
qed

section \<open>Trees whose nodes are the sums of their children\<close>

declare upt_rec_numeral [simp del]

definition seg_closed :: "u32 list \<Rightarrow> bool" where
  "seg_closed t \<longleftrightarrow> length t = 778 \<and>
     (\<forall>i<77. t ! (700 + i) = sum_list (map (\<lambda>j. t ! (10 * i + j)) [0..<10])) \<and>
     t ! 777 = sum_list (map (\<lambda>i. t ! (770 + i)) [0..<7])"

lemma seg_closed_eq:
  assumes "seg_closed t" "seg_closed u" "\<And>p. p < 700 \<Longrightarrow> t ! p = u ! p"
  shows "t = u"
proof (rule nth_equalityI)
  have len: "length t = 778" "length u = 778"
    and T: "\<And>i. i < 77 \<Longrightarrow> t ! (700 + i) = sum_list (map (\<lambda>j. t ! (10 * i + j)) [0..<10])"
      "t ! 777 = sum_list (map (\<lambda>i. t ! (770 + i)) [0..<7])"
    and U: "\<And>i. i < 77 \<Longrightarrow> u ! (700 + i) = sum_list (map (\<lambda>j. u ! (10 * i + j)) [0..<10])"
      "u ! 777 = sum_list (map (\<lambda>i. u ! (770 + i)) [0..<7])"
    using assms(1,2) unfolding seg_closed_def by blast+
  then show "length t = length u" by simp
  have "t ! p = u ! p" if "p < 777" for p
    using that
  proof (induction p rule: less_induct)
    case (less p)
    show ?case
    proof (cases "p < 700")
      case False
      then have i: "p - 700 < 77" "700 + (p - 700) = p" using less.prems by auto
      have "map (\<lambda>j. t ! (10 * (p - 700) + j)) [0..<10] = map (\<lambda>j. u ! (10 * (p - 700) + j)) [0..<10]"
        using less False by (intro map_cong refl) auto
      then show ?thesis using T(1) [OF i(1)] U(1) [OF i(1)] unfolding i(2) by (simp only:)
    qed (use assms(3) in simp)
  qed
  moreover from this have "map (\<lambda>i. t ! (770 + i)) [0..<7] = map (\<lambda>i. u ! (770 + i)) [0..<7]"
    by (intro map_cong refl) auto
  then have "t ! 777 = u ! 777" unfolding T(2) U(2) by (rule arg_cong)
  ultimately show "t ! p = u ! p" if "p < length t" for p using that len by (cases "p = 777") auto
qed

lemma seg_sum_length: "length (seg_sum_step t i) = length t"
  by (simp add: seg_sum_step_def Let_def)

lemma seg_sum_fold:
  assumes "length t = 778" "n \<le> 77"
  shows "length (foldl seg_sum_step t [0..<n]) = 778 \<and>
    (\<forall>p<778. (p < 700 \<or> 700 + n \<le> p) \<longrightarrow> foldl seg_sum_step t [0..<n] ! p = t ! p) \<and>
    (\<forall>i<n. foldl seg_sum_step t [0..<n] ! (700 + i) =
       t ! (700 + i) + sum_list (map (\<lambda>j. foldl seg_sum_step t [0..<n] ! (10 * i + j)) [0..<10]))"
  using assms(2)
proof (induction n)
  case (Suc n)
  let ?t = "foldl seg_sum_step t [0..<n]" and ?u = "foldl seg_sum_step t [0..<Suc n]"
  have IH: "length ?t = 778" "\<And>p. p < 778 \<Longrightarrow> p < 700 \<or> 700 + n \<le> p \<Longrightarrow> ?t ! p = t ! p"
    "\<And>i. i < n \<Longrightarrow> ?t ! (700 + i) = t ! (700 + i) + sum_list (map (\<lambda>j. ?t ! (10 * i + j)) [0..<10])"
    using Suc.IH Suc.prems by auto
  have u: "?u = ?t[700 + n := ?t ! (700 + n) + sum_list (map (\<lambda>j. ?t ! (10 * n + j)) [0..<10])]"
    by (simp add: seg_sum_step_def Let_def)
  have nth: "?u ! p = (if p = 700 + n then ?t ! (700 + n) + sum_list (map (\<lambda>j. ?t ! (10 * n + j)) [0..<10]) else ?t ! p)"
    if "p < 778" for p unfolding u using IH(1) Suc.prems by (simp add: nth_list_update)
  have below: "map (\<lambda>j. ?u ! (10 * i + j)) [0..<10] = map (\<lambda>j. ?t ! (10 * i + j)) [0..<10]" if "i \<le> n" for i
  proof (intro map_cong refl)
    fix j assume "j \<in> set [0..<10]"
    then have "10 * i + j < 778" "10 * i + j \<noteq> 700 + n" using that Suc.prems by auto
    then show "?u ! (10 * i + j) = ?t ! (10 * i + j)" using nth by simp
  qed
  have "?u ! (700 + i) = t ! (700 + i) + sum_list (map (\<lambda>j. ?u ! (10 * i + j)) [0..<10])" if "i < Suc n" for i
  proof -
    have "700 + i < 778" "i \<le> n" using that Suc.prems by auto
    then show ?thesis unfolding below [OF \<open>i \<le> n\<close>] nth [OF \<open>700 + i < 778\<close>]
      using IH(2) [of "700 + n"] IH(3) [of i] that by (cases "i = n") auto
  qed
  moreover have "?u ! p = t ! p" if "p < 778" "p < 700 \<or> 700 + Suc n \<le> p" for p
    using nth [OF that(1)] IH(2) [OF that(1)] that(2) by auto
  moreover have "length ?u = 778" using IH(1) u by simp
  ultimately show ?case by blast
qed (simp add: assms(1))

lemma range_getGroupRep_closed:
  assumes "length t = 778" "\<And>p. 700 \<le> p \<Longrightarrow> p < 778 \<Longrightarrow> t ! p = 0"
  obtains u where "seg_closed u" "\<And>p. p < 700 \<Longrightarrow> u ! p = t ! p"
    "range_getGroupRep prop t rep = ([], rep\<lparr>numericRangeGroupRep := numericRangeGroupRep rep @ [(prop, u)]\<rparr>)"
proof
  let ?t = "foldl seg_sum_step t [0..<77]"
  let ?u = "?t[777 := ?t ! 777 + sum_list (map (\<lambda>i. ?t ! (770 + i)) [0..<7])]"
  have F: "length ?t = 778" "\<And>p. p < 778 \<Longrightarrow> p < 700 \<or> 777 \<le> p \<Longrightarrow> ?t ! p = t ! p"
    "\<And>i. i < 77 \<Longrightarrow> ?t ! (700 + i) = t ! (700 + i) + sum_list (map (\<lambda>j. ?t ! (10 * i + j)) [0..<10])"
    using seg_sum_fold [OF assms(1), of 77] by (simp, force, simp)
  have nth: "?u ! p = (if p = 777 then sum_list (map (\<lambda>i. ?t ! (770 + i)) [0..<7]) else ?t ! p)" if "p < 778" for p
    using F(1,2) assms(2) [of 777] that by (simp add: nth_list_update)
  show "?u ! p = t ! p" if "p < 700" for p using nth [of p] F(2) that by simp
  have kids: "map (\<lambda>j. ?u ! (10 * i + j)) [0..<10] = map (\<lambda>j. ?t ! (10 * i + j)) [0..<10]" if "i < 77" for i
    using nth that by (intro map_cong refl) auto
  have tops: "map (\<lambda>i. ?u ! (770 + i)) [0..<7] = map (\<lambda>i. ?t ! (770 + i)) [0..<7]"
    using nth by (intro map_cong refl) auto
  have "?u ! (700 + i) = sum_list (map (\<lambda>j. ?u ! (10 * i + j)) [0..<10])" if "i < 77" for i
    unfolding kids [OF that] using nth [of "700 + i"] F(3) [OF that] assms(2) [of "700 + i"] that by simp
  moreover have "?u ! 777 = sum_list (map (\<lambda>i. ?u ! (770 + i)) [0..<7])" unfolding tops using nth [of 777] by simp
  moreover have "length ?u = 778" using F(1) by simp
  ultimately show "seg_closed ?u" unfolding seg_closed_def by blast
  show "range_getGroupRep prop t rep = ([], rep\<lparr>numericRangeGroupRep := numericRangeGroupRep rep @ [(prop, ?u)]\<rparr>)"
    by (simp only: range_getGroupRep_def level1_const Let_def) simp
qed

definition range_counter :: "int option list \<Rightarrow> u32 list" where
  "range_counter vals = foldl (\<lambda>t v. range_addDoc v t) seg_init vals"

definition count_tree :: "int option list \<Rightarrow> u32 list" where
  "count_tree vals = map (\<lambda>p. of_nat (node_docs vals p)) [0..<778]"

lemma count_tree_nth: "p < 778 \<Longrightarrow> count_tree vals ! p = of_nat (node_docs vals p)"
  by (simp add: count_tree_def)

lemma node_docs_append: "node_docs (xs @ ys) p = node_docs xs p + node_docs ys p"
  by (simp add: node_docs_def)

lemma node_docs_le: "node_docs vals p \<le> length vals"
  by (simp add: node_docs_def)

lemma node_docs_Cons:
  "node_docs (v # vals) p = (case v of Some x \<Rightarrow> of_bool (in_node p x) | None \<Rightarrow> 0) + node_docs vals p"
  by (cases v) (simp_all add: node_docs_def)

lemma range_addDoc_leaf:
  assumes "length t = 778"
  shows "length (range_addDoc v t) = 778" "p < 700 \<Longrightarrow> range_addDoc v t ! p = t ! p + of_nat (node_docs [v] p)"
    "700 \<le> p \<Longrightarrow> p < 778 \<Longrightarrow> range_addDoc v t ! p = t ! p"
proof -
  consider (none) "v = None \<or> (\<exists>x. v = Some x \<and> x \<le> 0)" | (pos) x where "v = Some x" "0 < x"
    by (cases v) force+
  then have "length (range_addDoc v t) = 778 \<and>
    (p < 700 \<longrightarrow> range_addDoc v t ! p = t ! p + of_nat (node_docs [v] p)) \<and>
    (700 \<le> p \<longrightarrow> p < 778 \<longrightarrow> range_addDoc v t ! p = t ! p)"
  proof cases
    case none
    then show ?thesis using assms by (auto simp: range_addDoc_def node_docs_def in_node_def)
  next
    case pos
    then have "range_addDoc v t = t[leaf_index x := t ! leaf_index x + 1]"
      by (simp add: range_addDoc_def leaf_index_def Let_def split_beta)
    then show ?thesis using assms in_node_leaf [OF pos(2)] pos by (auto simp: nth_list_update node_docs_Cons node_docs_def)
  qed
  then show "length (range_addDoc v t) = 778" "p < 700 \<Longrightarrow> range_addDoc v t ! p = t ! p + of_nat (node_docs [v] p)"
    "700 \<le> p \<Longrightarrow> p < 778 \<Longrightarrow> range_addDoc v t ! p = t ! p" by blast+
qed

lemma range_counter_leaf:
  "length (range_counter vals) = 778 \<and>
   (\<forall>p<700. range_counter vals ! p = of_nat (node_docs vals p)) \<and>
   (\<forall>p. 700 \<le> p \<longrightarrow> p < 778 \<longrightarrow> range_counter vals ! p = 0)"
proof (induction vals rule: rev_induct)
  case Nil
  show ?case by (simp add: range_counter_def seg_init_def node_docs_def)
next
  case (snoc v vals)
  let ?t = "range_counter vals"
  have r: "range_counter (vals @ [v]) = range_addDoc v ?t" by (simp add: range_counter_def)
  have "length ?t = 778" using snoc by blast
  note A = range_addDoc_leaf [OF this, where v = v]
  show ?case unfolding r node_docs_append using A snoc by (simp add: node_docs_Cons)
qed

lemma digit_sum: "sum_list (map (\<lambda>j. of_bool (x = 10 * i + j)) [0..<10]) = (of_bool (x div 10 = i) :: nat)"
proof (cases "x div 10 = i")
  case True
  then have "x = 10 * i + x mod 10" by auto
  then have "(x = 10 * i + j) = (x mod 10 = j)" for j by linarith
  then show ?thesis using True by (simp add: interv_sum_list_conv_sum_set_nat of_bool_def)
next
  case False
  then have "of_bool (x = 10 * i + j) = (0 :: nat)" if "j \<in> set [0..<10]" for j using that by auto
  then have "map (\<lambda>j. of_bool (x = 10 * i + j)) [0..<10] = map (\<lambda>j. 0 :: nat) [0..<10]" by (intro map_cong refl)
  then have "sum_list (map (\<lambda>j. of_bool (x = 10 * i + j)) [0..<10]) = sum_list (map (\<lambda>j. 0 :: nat) [0..<10])"
    by (rule arg_cong)
  then show ?thesis using False by (simp add: sum_list_0)
qed

lemma in_node_children:
  assumes "i < 77"
  shows "sum_list (map (\<lambda>j. of_bool (in_node (10 * i + j) v)) [0..<10]) = (of_bool (in_node (700 + i) v) :: nat)"
proof (cases "0 < v")
  case False
  then show ?thesis by (simp add: in_node_def sum_list_0)
next
  case True
  let ?L = "leaf_index v"
  note N = in_node_leaf [OF True]
  show ?thesis
  proof (cases "i < 70")
    case True
    then have "map (\<lambda>j. of_bool (in_node (10 * i + j) v)) [0..<10] = map (\<lambda>j. of_bool (?L = 10 * i + j) :: nat) [0..<10]"
      using N(2) by (intro map_cong refl) auto
    then show ?thesis unfolding digit_sum [symmetric] using True N(2) [of "700 + i"] digit_sum [of ?L i]
      by (simp only: if_True if_False add_less_cancel_left) (auto simp: of_bool_def)
  next
    case False
    have "in_node (10 * i + j) v \<longleftrightarrow> ?L div 10 = 10 * (i - 70) + j" if "j \<in> set [0..<10]" for j
      using N(2) [of "10 * i + j"] that False assms by auto
    then have "map (\<lambda>j. of_bool (in_node (10 * i + j) v)) [0..<10] =
        map (\<lambda>j. of_bool (?L div 10 = 10 * (i - 70) + j) :: nat) [0..<10]"
      by (intro map_cong refl) auto
    moreover have "in_node (700 + i) v \<longleftrightarrow> ?L div 10 div 10 = i - 70"
      using N(2) [of "700 + i"] False assms by auto
    ultimately show ?thesis using digit_sum [of "?L div 10" "i - 70"] by (simp only:)
  qed
qed

lemma in_node_root:
  "sum_list (map (\<lambda>i. of_bool (in_node (770 + i) v)) [0..<7]) = (of_bool (in_node 777 v) :: nat)"
proof (cases "0 < v")
  case False
  then show ?thesis by (simp add: in_node_def sum_list_0)
next
  case True
  note N = in_node_leaf [OF True]
  have "map (\<lambda>i. of_bool (in_node (770 + i) v)) [0..<7] = map (\<lambda>i. of_bool (leaf_index v div 100 = i) :: nat) [0..<7]"
    using N(2) by (intro map_cong refl) auto
  moreover have "leaf_index v div 100 < 7" using N(1) by simp
  ultimately show ?thesis using N(2) [of 777] by (simp add: interv_sum_list_conv_sum_set_nat of_bool_def)
qed

lemma node_docs_sum:
  assumes "\<And>v. sum_list (map (\<lambda>j. of_bool (in_node (c j) v)) js) = (of_bool (in_node p v) :: nat)"
  shows "sum_list (map (\<lambda>j. node_docs vals (c j)) js) = node_docs vals p"
proof (induction vals)
  case Nil
  then show ?case by (simp add: node_docs_def sum_list_0)
next
  case (Cons v vals)
  show ?case
    by (cases v) (simp_all add: node_docs_Cons sum_list_addf Cons.IH assms)
qed

lemma of_nat_sum_list: "of_nat (sum_list xs) = sum_list (map of_nat xs)"
  by (induction xs) simp_all

lemma count_tree_closed: "seg_closed (count_tree vals)"
proof -
  have "sum_list (map (\<lambda>j. count_tree vals ! (c j)) js) = count_tree vals ! p"
    if "\<And>v. sum_list (map (\<lambda>j. of_bool (in_node (c j) v)) js) = (of_bool (in_node p v) :: nat)"
      "p < 778" "\<And>j. j \<in> set js \<Longrightarrow> c j < 778" for c js p
  proof -
    have m: "map (\<lambda>j. count_tree vals ! (c j)) js = map (\<lambda>j. of_nat (node_docs vals (c j))) js"
      using that(3) count_tree_nth by (intro map_cong refl) blast
    have "sum_list (map (\<lambda>j. count_tree vals ! (c j)) js) = of_nat (sum_list (map (\<lambda>j. node_docs vals (c j)) js))"
      unfolding m of_nat_sum_list map_map o_def ..
    then show ?thesis unfolding node_docs_sum [OF that(1)] count_tree_nth [OF that(2)] .
  qed
  note S = this
  show ?thesis unfolding seg_closed_def
  proof (intro conjI allI impI)
    show "length (count_tree vals) = 778" by (simp add: count_tree_def)
    show "count_tree vals ! (700 + i) = sum_list (map (\<lambda>j. count_tree vals ! (10 * i + j)) [0..<10])" if "i < 77" for i
      by (rule S [OF in_node_children [OF that], symmetric]) (use that in auto)
    show "count_tree vals ! 777 = sum_list (map (\<lambda>i. count_tree vals ! (770 + i)) [0..<7])"
      by (rule S [OF in_node_root, symmetric]) auto
  qed
qed

lemma range_getGroupRep_counts:
  "range_getGroupRep prop (range_counter vals) rep =
     ([], rep\<lparr>numericRangeGroupRep := numericRangeGroupRep rep @ [(prop, count_tree vals)]\<rparr>)"
proof -
  note C = range_counter_leaf [of vals]
  obtain u where u: "seg_closed u" "\<And>p. p < 700 \<Longrightarrow> u ! p = range_counter vals ! p"
    "range_getGroupRep prop (range_counter vals) rep =
      ([], rep\<lparr>numericRangeGroupRep := numericRangeGroupRep rep @ [(prop, u)]\<rparr>)"
    using range_getGroupRep_closed [of "range_counter vals"] C by blast
  have "u = count_tree vals"
    by (rule seg_closed_eq [OF u(1) count_tree_closed]) (simp add: u(2) C count_tree_nth)
  then show ?thesis using u(3) by blast
qed

lemma sum_list_zero: "sum_list (map f xs) = (0 :: nat) \<Longrightarrow> x \<in> set xs \<Longrightarrow> f x = 0"
  by (induction xs) auto

lemma count_tree_seg_ok:
  assumes "length vals < 2 ^ 32"
  shows "seg_ok (count_tree vals)"
proof -
  have z: "count_tree vals ! p = 0 \<longleftrightarrow> node_docs vals p = 0" if "p < 778" for p
  proof -
    have "node_docs vals p < 2 ^ 32" using node_docs_le [of vals p] assms by simp
    then show ?thesis unfolding count_tree_nth [OF that] by (auto simp: word_of_nat_eq_0_iff dest: dvd_imp_le)
  qed
  have K: "node_docs vals (10 * i + j) = 0" if "i < 77" "node_docs vals (700 + i) = 0" "j < 10" for i j
    using sum_list_zero [OF node_docs_sum [OF in_node_children [OF that(1)], of vals, unfolded that(2)], of j] that(3) by simp
  have R: "node_docs vals (770 + i) = 0" if "node_docs vals 777 = 0" "i < 7" for i
    using sum_list_zero [OF node_docs_sum [OF in_node_root, of vals, unfolded that(1)], of i] that(2) by simp
  show ?thesis unfolding seg_ok_def
  proof (intro conjI allI impI)
    show "length (count_tree vals) = 778" by (simp add: count_tree_def)
    show "count_tree vals ! (770 + i) = 0" if "count_tree vals ! 777 = 0" "i < 7" for i
      using that R z by simp
    show "count_tree vals ! (700 + 10 * i + j) = 0" if "i < 7" "count_tree vals ! (770 + i) = 0" "j < 10" for i j
    proof -
      have "700 + 10 * i + j = 10 * (70 + i) + j" "770 + i = 700 + (70 + i)" by simp_all
      then show ?thesis using K [of "70 + i" j] z [of "770 + i"] z [of "700 + 10 * i + j"] that by simp
    qed
    show "count_tree vals ! (10 * m + k) = 0" if "m < 70" "count_tree vals ! (700 + m) = 0" "k < 10" for m k
      using K [of m k] z [of "700 + m"] z [of "10 * m + k"] that by simp
  qed
qed

lemma merge_count_trees:
  assumes "length ws < 2 ^ 32"
  shows "merge_range (count_tree vs) (count_tree ws) = count_tree (vs @ ws)"
proof -
  have "merge_range (count_tree vs) (count_tree ws) = map2 (+) (count_tree vs) (count_tree ws)"
    by (rule merge_range_sum [OF count_tree_seg_ok [OF assms]]) (simp add: count_tree_def)
  also have "\<dots> = count_tree (vs @ ws)"
    by (rule nth_equalityI) (simp_all add: count_tree_def node_docs_append)
  finally show ?thesis .
qed

section \<open>Sorted forests\<close>

fun node_text :: "'d gtree \<Rightarrow> ustring" where
  "node_text (GNode i ch) = ri_text i"

fun tree_sorted :: "(ustring \<Rightarrow> ustring \<Rightarrow> int) \<Rightarrow> 'd gtree \<Rightarrow> bool" where
  "tree_sorted cmp (GNode i ch) \<longleftrightarrow>
     sorted_wrt (\<lambda>s t. cmp (node_text s) (node_text t) < 0) ch \<and> (\<forall>c\<in>set ch. tree_sorted cmp c)"

definition forest_sorted :: "(ustring \<Rightarrow> ustring \<Rightarrow> int) \<Rightarrow> 'd gtree list \<Rightarrow> bool" where
  "forest_sorted cmp f \<longleftrightarrow>
     sorted_wrt (\<lambda>s t. cmp (node_text s) (node_text t) < 0) f \<and> (\<forall>c\<in>set f. tree_sorted cmp c)"

text \<open>What a three-way comparison of strings provides.\<close>

definition is_compare :: "(ustring \<Rightarrow> ustring \<Rightarrow> int) \<Rightarrow> bool" where
  "is_compare cmp \<longleftrightarrow> (\<forall>x y. cmp x y = 0 \<longleftrightarrow> x = y) \<and> (\<forall>x y. cmp x y > 0 \<longleftrightarrow> cmp y x < 0) \<and>
     (\<forall>x y z. cmp x y < 0 \<longrightarrow> cmp y z < 0 \<longrightarrow> cmp x z < 0)"

lemma merge_forest_texts:
  "is_compare cmp \<Longrightarrow>
   node_text ` set (merge_forest cmp f g) = node_text ` set f \<union> node_text ` set g"
proof (induction cmp f g rule: merge_forest.induct)
  case (3 cmp i cs f j ds g)
  have e: "cmp (ri_text i) (ri_text j) = 0 \<longleftrightarrow> ri_text i = ri_text j" using "3.prems" by (simp add: is_compare_def)
  consider "cmp (ri_text i) (ri_text j) < 0" | "cmp (ri_text i) (ri_text j) > 0"
    | "cmp (ri_text i) (ri_text j) = 0" by linarith
  then show ?case
  proof cases
    case a: 1
    show ?thesis using 3(1) [OF a "3.prems"] a by (simp add: insert_commute)
  next
    case a: 2
    show ?thesis using 3(2) [OF _ a "3.prems"] a by simp
  next
    case a: 3
    then show ?thesis using 3(4) [OF _ _ "3.prems"] e by simp
  qed
qed auto

lemma forest_sorted_Cons:
  "forest_sorted cmp (GNode i cs # f) \<longleftrightarrow>
     forest_sorted cmp cs \<and> forest_sorted cmp f \<and> (\<forall>x\<in>node_text ` set f. cmp (ri_text i) x < 0)"
  by (auto simp: forest_sorted_def)

lemma merge_forest_sorted:
  "is_compare cmp \<Longrightarrow> forest_sorted cmp f \<Longrightarrow> forest_sorted cmp g \<Longrightarrow> forest_sorted cmp (merge_forest cmp f g)"
proof (induction cmp f g rule: merge_forest.induct)
  case (3 cmp i cs f j ds g)
  have trans: "cmp x z < 0" if "cmp x y < 0" "cmp y z < 0" for x y z
    using "3.prems"(1) that unfolding is_compare_def by blast
  note f = "3.prems"(2) [unfolded forest_sorted_Cons] and g = "3.prems"(3) [unfolded forest_sorted_Cons]
  note T = merge_forest_texts [OF "3.prems"(1)]
  consider (lt) "cmp (ri_text i) (ri_text j) < 0" | (gt) "cmp (ri_text i) (ri_text j) > 0"
    | (eq) "cmp (ri_text i) (ri_text j) = 0" by linarith
  then show ?case
  proof cases
    case lt
    have "\<forall>x\<in>node_text ` set (GNode j ds # g). cmp (ri_text i) x < 0" using lt g trans by fastforce
    then have "\<forall>x\<in>node_text ` set (merge_forest cmp f (GNode j ds # g)). cmp (ri_text i) x < 0"
      unfolding T using f by blast
    moreover have "forest_sorted cmp (merge_forest cmp f (GNode j ds # g))" using 3(1) [OF lt "3.prems"(1)] f "3.prems"(3) by blast
    ultimately show ?thesis using lt f by (simp add: forest_sorted_Cons)
  next
    case gt
    have lt: "cmp (ri_text j) (ri_text i) < 0" using gt "3.prems"(1) by (simp add: is_compare_def)
    have "\<forall>x\<in>node_text ` set (GNode i cs # f). cmp (ri_text j) x < 0" using lt f trans by fastforce
    then have "\<forall>x\<in>node_text ` set (merge_forest cmp (GNode i cs # f) g). cmp (ri_text j) x < 0"
      unfolding T using g by blast
    moreover have "forest_sorted cmp (merge_forest cmp (GNode i cs # f) g)"
      using 3(2) [OF _ gt "3.prems"(1,2)] g gt by simp
    ultimately show ?thesis using gt g by (simp add: forest_sorted_Cons)
  next
    case eq
    have e: "ri_text i = ri_text j" using eq "3.prems"(1) by (simp add: is_compare_def)
    have "\<forall>x\<in>node_text ` set (merge_forest cmp f g). cmp (ri_text i) x < 0" unfolding T using f g e by auto
    moreover have "forest_sorted cmp (merge_forest cmp cs ds)" "forest_sorted cmp (merge_forest cmp f g)"
      using 3(3,4) [OF _ _ "3.prems"(1)] f g eq by simp_all
    ultimately show ?thesis using eq by (simp add: forest_sorted_Cons)
  qed
qed simp_all

section \<open>Properties\<close>

text \<open>Merging numeric groups: for lists in strictly increasing order of value, the merged list is in
strictly increasing order, has the values of both, and its count for every value is the sum of both counts.
\<close>

theorem numeric_group_merge:
  assumes "num_sorted lit" "num_sorted olit"
  shows "mergeNumericGroup (rep\<lparr>numericGroupRep := [(name, lit)]\<rparr>) (other\<lparr>numericGroupRep := [(oname, olit)]\<rparr>) =
      Some (rep\<lparr>numericGroupRep := [(name, merge_numeric_list lit olit)]\<rparr>, other\<lparr>numericGroupRep := [(oname, olit)]\<rparr>) \<and>
    num_sorted (merge_numeric_list lit olit) \<and>
    fst ` set (merge_numeric_list lit olit) = fst ` set lit \<union> fst ` set olit \<and>
    (\<forall>k. num_count k (merge_numeric_list lit olit) = num_count k lit + num_count k olit)"
  using merge_numeric_sorted [OF assms] by (simp add: mergeNumericGroup_def merge_numeric_count)

text \<open>An instance of \<open>numeric_group_merge\<close>.\<close>

theorem numeric_group_merge_witness:
  "num_sorted [(1 :: nat, 3), (4, 2)] \<and> num_sorted [(0 :: nat, 7), (4, 5)] \<and>
   num_count 4 (merge_numeric_list [(1 :: nat, 3), (4, 2)] [(0, 7), (4, 5)]) = 7"
proof -
  have s: "num_sorted [(1 :: nat, 3), (4, 2)]" "num_sorted [(0 :: nat, 7), (4, 5)]" by (simp_all add: num_sorted_def)
  have "num_count 4 (merge_numeric_list [(1 :: nat, 3), (4, 2)] [(0, 7), (4, 5)]) =
      num_count 4 [(1 :: nat, 3), (4, 2)] + num_count (4 :: nat) [(0, 7), (4, 5)]"
    using numeric_group_merge [OF s] by blast
  then show ?thesis using s by (simp add: num_count_def)
qed

text \<open>A segment tree counts intervals: after \<open>addDoc\<close> on a sequence of documents, \<open>getGroupRep\<close> yields the tree
whose counter at every node is the number of documents (modulo \<open>2 ^ 32\<close>) whose value, cut off at 999999999,
lies in the interval of the node; values that are absent or not positive are in no interval.
\<close>

theorem range_tree_counts:
  "range_getGroupRep prop (foldl (\<lambda>t v. range_addDoc v t) seg_init vals) rep =
     ([], rep\<lparr>numericRangeGroupRep := numericRangeGroupRep rep @
        [(prop, map (\<lambda>p. of_nat (length (filter (\<lambda>v. \<exists>x. v = Some x \<and> in_node p x) vals))) [0..<778])]\<rparr>)"
  using range_getGroupRep_counts [where vals = vals]
  unfolding range_counter_def count_tree_def node_docs_def .

text \<open>C31: Counting is compatible with sharding: merging the segment trees counted on two sets of documents
gives the tree counted on all of them, although the merge skips the parts of the other tree below a zero. Fewer
than \<open>2 ^ 32\<close> documents are counted on the other side.
\<close>

theorem range_merge_is_count_of_all:
  assumes "length ws < 2 ^ 32"
  shows "map_option fst (mergeNumericRangeGroup
      (snd (range_getGroupRep prop (foldl (\<lambda>t v. range_addDoc v t) seg_init vs) (gr_clear rep)))
      (snd (range_getGroupRep prop (foldl (\<lambda>t v. range_addDoc v t) seg_init ws) (gr_clear rep)))) =
    Some (snd (range_getGroupRep prop (foldl (\<lambda>t v. range_addDoc v t) seg_init (vs @ ws)) (gr_clear rep)))"
  using merge_count_trees [OF assms, of vs]
  unfolding range_counter_def [symmetric] range_getGroupRep_counts
  by (simp add: mergeNumericRangeGroup_def gr_clear_def)

definition no_groups :: "nat group_rep" where
  "no_groups = \<lparr>stringGroupRep = [], numericGroupRep = [], numericRangeGroupRep = []\<rparr>"

text \<open>An instance of \<open>range_merge_is_count_of_all\<close>.\<close>

theorem range_merge_is_count_of_all_witness:
  "length [Some 2000, None] < 2 ^ 32 \<and>
   map_option fst (mergeNumericRangeGroup
      (snd (range_getGroupRep ''Price'' (foldl (\<lambda>t v. range_addDoc v t) seg_init [Some 5]) (gr_clear no_groups)))
      (snd (range_getGroupRep ''Price'' (foldl (\<lambda>t v. range_addDoc v t) seg_init [Some 2000, None]) (gr_clear no_groups)))) =
    Some (snd (range_getGroupRep ''Price'' (foldl (\<lambda>t v. range_addDoc v t) seg_init ([Some 5] @ [Some 2000, None])) (gr_clear no_groups)))"
  by (intro conjI) (simp, rule range_merge_is_count_of_all, simp)

end
