(* ===== verification/Group_Resize.thy ===== *)
theory Group_Resize
  imports Group_Range
begin

text \<open>
  Keeping the largest groups of each property (\<open>ResizeTo\<close> of GroupRep.cpp): the heap of counts and what
  the second pass keeps.
\<close>

section \<open>The heap of the largest counts\<close>

definition heap_add :: "nat \<Rightarrow> u32 multiset \<Rightarrow> u32 \<Rightarrow> u32 multiset" where
  "heap_add k q c = (if size (add_mset c q) > k then heap_pop (add_mset c q) else add_mset c q)"

definition heap_of :: "nat \<Rightarrow> u32 list \<Rightarrow> u32 multiset" where
  "heap_of k cs = foldl (heap_add k) {#} cs"

definition largest :: "nat \<Rightarrow> u32 multiset \<Rightarrow> u32 multiset \<Rightarrow> bool" where
  "largest k cs q \<longleftrightarrow> q \<subseteq># cs \<and> size q = min k (size cs) \<and> (\<forall>x\<in>#cs - q. \<forall>y\<in>#q. x \<le> y)"

lemma heap_top_in: "q \<noteq> {#} \<Longrightarrow> heap_top q \<in># q"
  by (simp add: heap_top_def)

lemma heap_top_le: "x \<in># q \<Longrightarrow> heap_top q \<le> x"
  by (simp add: heap_top_def)

lemma heap_add_largest:
  assumes "largest k cs q"
  shows "largest k (add_mset c cs) (heap_add k q c)"
proof (cases "size (add_mset c q) > k")
  case False
  then have "size q < k" by simp
  then have "size q = size cs" using assms by (auto simp: largest_def)
  then have "q = cs" using assms by (metis largest_def mset_subset_size nat_neq_iff subset_mset.le_imp_less_or_eq)
  then show ?thesis using False by (simp add: largest_def heap_add_def)
next
  case True
  let ?q = "add_mset c q"
  let ?m = "heap_top ?q"
  have m: "?m \<in># ?q" by (rule heap_top_in) simp
  have sub: "q \<subseteq># cs" and sz: "size q = k" "k \<le> size cs"
    using assms True by (auto simp: largest_def)
  have h: "heap_add k q c = ?q - {#?m#}" using True by (simp add: heap_add_def heap_pop_def)
  have "?q - {#?m#} \<subseteq># add_mset c cs" using sub by (meson diff_subset_eq_self mset_subset_eq_add_mset_cancel subset_mset.order_trans)
  moreover have "size (?q - {#?m#}) = min k (size (add_mset c cs))" using m sz by (simp add: size_Diff_singleton)
  moreover have "x \<le> y" if x: "x \<in># add_mset c cs - (?q - {#?m#})" and y: "y \<in># ?q - {#?m#}" for x y
  proof -
    have "add_mset c cs = ?q + (cs - q)" using sub by simp
    also have "\<dots> = add_mset ?m (?q - {#?m#}) + (cs - q)" by (simp only: insert_DiffM [OF m])
    also have "\<dots> = (?q - {#?m#}) + add_mset ?m (cs - q)"
      by (simp only: union_mset_add_mset_left union_mset_add_mset_right)
    finally have "add_mset c cs - (?q - {#?m#}) = add_mset ?m (cs - q)" by (metis add_diff_cancel_left')
    then consider "x = ?m" | "x \<in># cs - q" using x by auto
    moreover have "?m \<le> y" using y heap_top_le by (meson in_diffD)
    ultimately show ?thesis
    proof cases
      case 2
      have le: "\<forall>z\<in>#q. x \<le> z" using assms 2 by (simp add: largest_def)
      show ?thesis
      proof (cases "?m = c")
        case True
        then show ?thesis using y le by simp
      next
        case False
        then have "?m \<in># q" using m by simp
        then show ?thesis using le \<open>?m \<le> y\<close> by (meson order_trans)
      qed
    qed simp
  qed
  ultimately show ?thesis unfolding largest_def h by blast
qed

lemma heap_of_largest: "largest k (mset cs) (heap_of k cs)"
proof (induction cs rule: rev_induct)
  case (snoc c cs)
  have "heap_of k (cs @ [c]) = heap_add k (heap_of k cs) c" by (simp add: heap_of_def)
  then show ?case using heap_add_largest [OF snoc, of c] by simp
qed (simp add: heap_of_def largest_def)

lemma heap_top_threshold:
  assumes L: "largest k cs q" and k: "0 < k" and c: "c \<in># cs"
  shows "heap_top q \<le> c \<longleftrightarrow> size (filter_mset (\<lambda>x. c < x) cs) < k"
proof -
  have "size cs \<noteq> 0" using c by auto
  then have q: "q \<noteq> {#}" using L k by (auto simp: largest_def min_def split: if_splits)
  have cs: "cs = q + (cs - q)" using L by (simp add: largest_def)
  have sq: "size q \<le> k" using L by (simp add: largest_def)
  show ?thesis
  proof
    assume le: "heap_top q \<le> c"
    have "\<not> c < x" if "x \<in># cs - q" for x
    proof -
      have "x \<le> heap_top q" using L that heap_top_in [OF q] unfolding largest_def by blast
      then show ?thesis using le by simp
    qed
    then have "filter_mset (\<lambda>x. c < x) (cs - q) = {#}" unfolding filter_mset_eq_mempty_iff by blast
    then have "size (filter_mset (\<lambda>x. c < x) (q + (cs - q))) = size (filter_mset (\<lambda>x. c < x) q)"
      by (simp only: filter_union_mset add_0_right)
    then have "size (filter_mset (\<lambda>x. c < x) cs) = size (filter_mset (\<lambda>x. c < x) q)"
      by (simp only: cs [symmetric])
    also have "\<dots> < size q"
    proof -
      have "heap_top q \<notin># filter_mset (\<lambda>x. c < x) q" using le by (simp add: not_less)
      then have "filter_mset (\<lambda>x. c < x) q \<noteq> q" using heap_top_in [OF q] by metis
      then have "filter_mset (\<lambda>x. c < x) q \<subset># q" by (simp add: subset_mset.less_le)
      then show ?thesis by (rule mset_subset_size)
    qed
    finally show "size (filter_mset (\<lambda>x. c < x) cs) < k" using sq by simp
  next
    assume "size (filter_mset (\<lambda>x. c < x) cs) < k"
    show "heap_top q \<le> c"
    proof (rule ccontr)
      assume "\<not> heap_top q \<le> c"
      then have all: "\<forall>y\<in>#q. c < y" using heap_top_le by (meson leI order_less_le_trans)
      then have "filter_mset (\<lambda>x. c < x) q = q" by (simp add: filter_mset_eq_conv)
      then have "size q \<le> size (filter_mset (\<lambda>x. c < x) (q + (cs - q)))"
        by (simp only: filter_union_mset size_union le_add1)
      then have "size q \<le> size (filter_mset (\<lambda>x. c < x) cs)" by (simp only: cs [symmetric])
      then have "size q < k" using \<open>size (filter_mset (\<lambda>x. c < x) cs) < k\<close> by simp
      then have "size q = size cs" using L by (auto simp: largest_def)
      then have "cs - q = {#}" using cs by (metis add_cancel_right_right size_eq_0_iff_empty size_union)
      then have "c \<in># q" using c cs by simp
      then show False using all by blast
    qed
  qed
qed

section \<open>The two passes\<close>

text \<open>A property: its item and its groups, each with the items below it.\<close>

type_synonym 'd block = "'d rep_item \<times> ('d rep_item \<times> 'd rep_item list) list"

definition flat_groups :: "('d rep_item \<times> 'd rep_item list) list \<Rightarrow> 'd rep_item list" where
  "flat_groups gs = concat (map (\<lambda>(g, ds). g # ds) gs)"

definition flat_blocks :: "'d block list \<Rightarrow> 'd rep_item list" where
  "flat_blocks bs = concat (map (\<lambda>(p, gs). p # flat_groups gs) bs)"

definition block_ok :: "'d block \<Rightarrow> bool" where
  "block_ok b \<longleftrightarrow> ri_level (fst b) = 0 \<and> snd b \<noteq> [] \<and>
     (\<forall>g\<in>set (snd b). ri_level (fst g) = 1 \<and> (\<forall>d\<in>set (snd g). ri_level d \<noteq> 0 \<and> ri_level d \<noteq> 1))"

definition group_counts :: "('d rep_item \<times> 'd rep_item list) list \<Rightarrow> u32 list" where
  "group_counts gs = map (\<lambda>g. ri_doc_count (fst g)) gs"

definition block_limit :: "(ustring \<Rightarrow> string) \<Rightarrow> (string \<rightharpoonup> int) \<Rightarrow> int \<Rightarrow> 'd block \<Rightarrow> int" where
  "block_limit conv tops n b = (case tops (conv (ri_text (fst b))) of Some k \<Rightarrow> k | None \<Rightarrow> n)"

definition keep_groups :: "nat \<Rightarrow> ('d rep_item \<times> 'd rep_item list) list \<Rightarrow> ('d rep_item \<times> 'd rep_item list) list" where
  "keep_groups k gs =
     filter (\<lambda>g. length (filter (\<lambda>h. ri_doc_count (fst g) < ri_doc_count (fst h)) gs) < k) gs"

lemma flat_groups_Cons: "flat_groups ((g, ds) # gs) = g # ds @ flat_groups gs"
  by (simp add: flat_groups_def)

lemma flat_blocks_Cons: "flat_blocks ((p, gs) # bs) = p # flat_groups gs @ flat_blocks bs"
  by (simp add: flat_blocks_def)

lemma resize_heaps_deep:
  assumes "\<forall>d\<in>set ds. ri_level d \<noteq> 0 \<and> ri_level d \<noteq> 1" "size q \<le> to_size_t k"
  shows "resize_heaps conv tops n (ds @ rest) (qs @ [q]) k = resize_heaps conv tops n rest (qs @ [q]) k"
  using assms by (induction ds) (simp_all add: Let_def)

lemma heap_add_size: "size q \<le> k \<Longrightarrow> size (heap_add k q c) \<le> k"
  using size_Diff_singleton [OF heap_top_in [of "add_mset c q"]] by (auto simp: heap_add_def heap_pop_def)

lemma resize_heaps_groups:
  assumes "\<forall>g\<in>set gs. ri_level (fst g) = 1 \<and> (\<forall>d\<in>set (snd g). ri_level d \<noteq> 0 \<and> ri_level d \<noteq> 1)"
    "size q \<le> to_size_t k"
  shows "resize_heaps conv tops n (flat_groups gs @ rest) (qs @ [q]) k =
    resize_heaps conv tops n rest (qs @ [foldl (heap_add (to_size_t k)) q (group_counts gs)]) k"
  using assms
proof (induction gs arbitrary: q)
  case Nil
  then show ?case by (simp add: flat_groups_def group_counts_def)
next
  case (Cons gd gs)
  obtain g ds where gd: "gd = (g, ds)" by fastforce
  let ?q = "heap_add (to_size_t k) q (ri_doc_count g)"
  have step: "resize_heaps conv tops n (g # ds @ flat_groups gs @ rest) (qs @ [q]) k =
      resize_heaps conv tops n (ds @ flat_groups gs @ rest) (qs @ [?q]) k"
    using Cons.prems gd by (simp add: Let_def heap_add_def)
  have "size ?q \<le> to_size_t k" by (rule heap_add_size [OF Cons.prems(2)])
  then show ?case using Cons.IH [of ?q] Cons.prems(1) gd step
      resize_heaps_deep [of ds ?q k conv tops n "flat_groups gs @ rest" qs]
    by (simp add: flat_groups_Cons group_counts_def)
qed

lemma heap_of_nonempty:
  assumes "0 < k" "cs \<noteq> []"
  shows "heap_of k cs \<noteq> {#}"
  using heap_of_largest [of k cs] assms by (auto simp: largest_def min_def split: if_splits)

lemma resize_heaps_blocks:
  assumes "\<forall>b\<in>set bs. block_ok b \<and> 0 < block_limit conv tops n b" "qs = [] \<or> last qs \<noteq> {#}"
  shows "resize_heaps conv tops n (flat_blocks bs) qs k0 =
    Some (qs @ map (\<lambda>b. heap_of (nat (block_limit conv tops n b)) (group_counts (snd b))) bs)"
  using assms
proof (induction bs arbitrary: qs k0)
  case (Cons b bs)
  obtain p gs where b: "b = (p, gs)" by fastforce
  let ?k = "block_limit conv tops n b"
  let ?h = "heap_of (nat ?k) (group_counts gs)"
  have ok: "block_ok b" "0 < ?k" using Cons.prems by simp_all
  have k: "to_size_t ?k = nat ?k" using ok(2) by (simp add: to_size_t_def)
  have "resize_heaps conv tops n (flat_blocks (b # bs)) qs k0 =
      resize_heaps conv tops n (flat_groups gs @ flat_blocks bs) (qs @ [{#}]) ?k"
    using ok Cons.prems(2) b by (auto simp: flat_blocks_Cons block_ok_def block_limit_def Let_def)
  also have "\<dots> = resize_heaps conv tops n (flat_blocks bs) (qs @ [?h]) ?k"
    using resize_heaps_groups [of gs "{#}" ?k] ok(1) b k by (simp add: block_ok_def heap_of_def)
  also have "\<dots> = Some ((qs @ [?h]) @ map (\<lambda>b. heap_of (nat (block_limit conv tops n b)) (group_counts (snd b))) bs)"
  proof (rule Cons.IH)
    have "?h \<noteq> {#}" using heap_of_nonempty [of "nat ?k" "group_counts gs"] ok b by (simp add: block_ok_def group_counts_def)
    then show "qs @ [?h] = [] \<or> last (qs @ [?h]) \<noteq> {#}" by simp
  qed (use Cons.prems in simp)
  finally show ?case using b by simp
qed (simp add: flat_blocks_def)

lemma resize_erase_deep:
  assumes "\<forall>d\<in>set ds. ri_level d \<noteq> 0 \<and> ri_level d \<noteq> 1"
  shows "resize_erase qs i rm (ds @ rest) = map_option ((@) (if rm then [] else ds)) (resize_erase qs i rm rest)"
  using assms
proof (induction ds)
  case Nil
  then show ?case by (cases "resize_erase qs i rm rest") simp_all
next
  case (Cons d ds)
  then show ?case by (cases "resize_erase qs i rm rest"; cases rm) simp_all
qed

lemma resize_erase_groups:
  assumes "\<forall>g\<in>set gs. ri_level (fst g) = 1 \<and> (\<forall>d\<in>set (snd g). ri_level d \<noteq> 0 \<and> ri_level d \<noteq> 1)"
    "0 < i" "i \<le> length qs" "qs ! (i - 1) \<noteq> {#}" "\<And>rm'. resize_erase qs i rm' rest = Some out"
  shows "resize_erase qs i rm (flat_groups gs @ rest) =
    Some (flat_groups (filter (\<lambda>g. \<not> ri_doc_count (fst g) < heap_top (qs ! (i - 1))) gs) @ out)"
  using assms(1)
proof (induction gs arbitrary: rm)
  case (Cons gd gs)
  obtain g ds where gd: "gd = (g, ds)" by fastforce
  have ds: "\<forall>d\<in>set ds. ri_level d \<noteq> 0 \<and> ri_level d \<noteq> 1" "ri_level g = 1" using Cons.prems gd by auto
  show ?case using Cons.IH Cons.prems gd ds(2) assms(2-4) resize_erase_deep [OF ds(1)]
    by (simp add: flat_groups_Cons)
qed (simp add: flat_groups_def assms(5))

lemma resize_erase_blocks:
  assumes "\<forall>b\<in>set bs. block_ok b \<and> h b \<noteq> {#}" "length qs = i"
  shows "resize_erase (qs @ map h bs) i rm (flat_blocks bs) =
    Some (flat_blocks (map (\<lambda>b. (fst b, filter (\<lambda>g. \<not> ri_doc_count (fst g) < heap_top (h b)) (snd b))) bs))"
  using assms
proof (induction bs arbitrary: qs i rm)
  case (Cons b bs)
  obtain p gs where b: "b = (p, gs)" by fastforce
  have ok: "block_ok b" "h b \<noteq> {#}" using Cons.prems by simp_all
  have IH: "resize_erase (qs @ map h (b # bs)) (Suc i) rm' (flat_blocks bs) =
      Some (flat_blocks (map (\<lambda>b. (fst b, filter (\<lambda>g. \<not> ri_doc_count (fst g) < heap_top (h b)) (snd b))) bs))" for rm'
    using Cons.IH [of "qs @ [h b]" "Suc i"] Cons.prems by simp
  have "resize_erase (qs @ map h (b # bs)) (Suc i) False (flat_groups gs @ flat_blocks bs) =
      Some (flat_groups (filter (\<lambda>g. \<not> ri_doc_count (fst g) < heap_top (h b)) gs) @
        flat_blocks (map (\<lambda>b. (fst b, filter (\<lambda>g. \<not> ri_doc_count (fst g) < heap_top (h b)) (snd b))) bs))"
    using resize_erase_groups [of gs "Suc i" "qs @ map h (b # bs)", OF _ _ _ _ IH] ok b Cons.prems(2)
    by (simp add: block_ok_def nth_append)
  then show ?case using ok(1) b by (simp add: flat_blocks_Cons block_ok_def)
qed (simp add: flat_blocks_def)

lemma keep_groups_heap:
  assumes "0 < k"
  shows "filter (\<lambda>g. \<not> ri_doc_count (fst g) < heap_top (heap_of k (group_counts gs))) gs = keep_groups k gs"
  unfolding keep_groups_def
proof (rule filter_cong [OF refl])
  fix g assume g: "g \<in> set gs"
  let ?c = "ri_doc_count (fst g)"
  have "?c \<in># mset (group_counts gs)" using g by (simp add: group_counts_def)
  note T = heap_top_threshold [OF heap_of_largest assms this]
  have "size (filter_mset (\<lambda>x. ?c < x) (mset (group_counts gs))) = length (filter (\<lambda>x. ?c < x) (group_counts gs))"
    by (metis mset_filter size_mset)
  also have "\<dots> = length (filter (\<lambda>h. ?c < ri_doc_count (fst h)) gs)"
    by (simp add: group_counts_def filter_map o_def)
  finally show "(\<not> ?c < heap_top (heap_of k (group_counts gs))) = (length (filter (\<lambda>h. ?c < ri_doc_count (fst h)) gs) < k)"
    using T by (simp add: not_less)
qed

lemma resize_items_blocks:
  assumes "\<forall>b\<in>set bs. block_ok b \<and> 0 < block_limit conv tops (int (length (flat_blocks bs))) b"
  shows "resize_items conv tops (flat_blocks bs) =
    Some (flat_blocks (map (\<lambda>b.
      (fst b, keep_groups (nat (block_limit conv tops (int (length (flat_blocks bs))) b)) (snd b))) bs))"
proof -
  let ?n = "int (length (flat_blocks bs))"
  let ?h = "\<lambda>b. heap_of (nat (block_limit conv tops ?n b)) (group_counts (snd b))"
  have q: "resize_heaps conv tops ?n (flat_blocks bs) [] ?n = Some (map ?h bs)"
    using resize_heaps_blocks [OF assms, of "[]"] by simp
  have ne: "\<forall>b\<in>set bs. block_ok b \<and> ?h b \<noteq> {#}"
    using assms heap_of_nonempty by (fastforce simp: block_ok_def group_counts_def)
  have e: "resize_erase (map ?h bs) 0 False (flat_blocks bs) =
      Some (flat_blocks (map (\<lambda>b. (fst b, filter (\<lambda>g. \<not> ri_doc_count (fst g) < heap_top (?h b)) (snd b))) bs))"
    using resize_erase_blocks [OF ne, of "[]" 0] by simp
  have keep: "filter (\<lambda>g. \<not> ri_doc_count (fst g) < heap_top (?h b)) (snd b) =
      keep_groups (nat (block_limit conv tops ?n b)) (snd b)" if "b \<in> set bs" for b
    by (rule keep_groups_heap) (use assms that in simp)
  have "map (\<lambda>b. (fst b, filter (\<lambda>g. \<not> ri_doc_count (fst g) < heap_top (?h b)) (snd b))) bs =
      map (\<lambda>b. (fst b, keep_groups (nat (block_limit conv tops ?n b)) (snd b))) bs"
    by (intro map_cong refl) (simp only: keep)
  from e [unfolded this] show ?thesis unfolding resize_items_def q by (simp only: bind.bind_lunit)
qed

text \<open>C21: Keeping the largest groups: when every property has at least one group and a positive limit \<open>k\<close>
(the number of all items for a property without a limit), \<open>ResizeTo\<close> keeps, with the items below them, exactly the groups
for which fewer than \<open>k\<close> groups of their property have a greater count, in their order.
\<close>

theorem resize_keeps_largest:
  assumes "\<forall>b\<in>set bs. block_ok b \<and> 0 < block_limit conv tops (int (length (flat_blocks bs))) b"
  shows "resize_items conv tops (flat_blocks bs) =
    Some (flat_blocks (map (\<lambda>b.
      (fst b, keep_groups (nat (block_limit conv tops (int (length (flat_blocks bs))) b)) (snd b))) bs))"
  using assms by (rule resize_items_blocks)

text \<open>An instance of \<open>resize_keeps_largest\<close>: of two groups the smaller one goes, with its items.\<close>

definition sample_item :: "u8 \<Rightarrow> u32 \<Rightarrow> nat rep_item" where
  "sample_item l n = \<lparr>ri_level = l, ri_text = ustr ''x'', ri_id = 0, ri_doc_count = n, ri_score = 0\<rparr>"

definition sample_blocks :: "nat block list" where
  "sample_blocks = [(sample_item 0 5, [(sample_item 1 2, [sample_item 2 2]), (sample_item 1 3, [])])]"

theorem resize_keeps_largest_witness:
  "list_all block_ok sample_blocks \<and>
   resize_items (\<lambda>_. ''Price'') [''Price'' \<mapsto> 1] (flat_blocks sample_blocks) =
     Some [sample_item 0 5, sample_item 1 3]"
proof -
  have h: "\<forall>b\<in>set sample_blocks. block_ok b \<and>
      0 < block_limit (\<lambda>_. ''Price'') [''Price'' \<mapsto> 1] (int (length (flat_blocks sample_blocks))) b"
    by (simp add: sample_blocks_def sample_item_def block_ok_def block_limit_def)
  then have "list_all block_ok sample_blocks" by (simp add: list_all_iff)
  then show ?thesis using resize_keeps_largest [OF h]
    by (simp add: sample_blocks_def sample_item_def block_limit_def keep_groups_def flat_blocks_def flat_groups_def)
qed

text \<open>A property without groups: \<open>ResizeTo\<close> on results in which a property that is not the last
one has no groups reads the top of an empty heap, whatever the limits are.
\<close>

theorem resize_empty_property:
  assumes "ri_level p = 0" "ri_level p' = 0"
  shows "resize_items conv tops (p # p' # items) = None"
  using assms by (simp add: resize_items_def Let_def)

text \<open>An instance of \<open>resize_empty_property\<close>.\<close>

theorem resize_empty_property_witness:
  "resize_items (\<lambda>_. ''Price'') (\<lambda>_. None) [sample_item 0 0, sample_item 0 5, sample_item 1 5] = None"
  using resize_empty_property [of "sample_item 0 0" "sample_item 0 5" "\<lambda>_. ''Price''" "\<lambda>_. None" "[sample_item 1 5]"]
  by (simp add: sample_item_def)

section \<open>An instance of the merge of string groups\<close>

fun lex_compare :: "ustring \<Rightarrow> ustring \<Rightarrow> int" where
  "lex_compare [] [] = 0"
| "lex_compare [] (y # ys) = -1"
| "lex_compare (x # xs) [] = 1"
| "lex_compare (x # xs) (y # ys) = (if x < y then -1 else if y < x then 1 else lex_compare xs ys)"

lemma lex_compare_eq: "lex_compare x y = 0 \<longleftrightarrow> x = y"
  by (induction x y rule: lex_compare.induct) auto

lemma lex_compare_flip: "lex_compare x y > 0 \<longleftrightarrow> lex_compare y x < 0"
  by (induction x y rule: lex_compare.induct) auto

lemma lex_compare_trans: "lex_compare x y < 0 \<Longrightarrow> lex_compare y z < 0 \<Longrightarrow> lex_compare x z < 0"
proof (induction x y arbitrary: z rule: lex_compare.induct)
  case (2 y ys)
  then show ?case by (cases z) simp_all
next
  case (4 x xs y ys)
  show ?case
  proof (cases z)
    case (Cons w ws)
    have xy: "x < y \<or> x = y \<and> lex_compare xs ys < 0" using "4.prems"(1) by (simp split: if_splits)
    have yw: "y < w \<or> y = w \<and> lex_compare ys ws < 0" using "4.prems"(2) Cons by (simp split: if_splits)
    have "x < w \<or> x = w \<and> lex_compare xs ws < 0"
      using xy yw "4.IH" [of ws] by (metis order_less_trans order_less_irrefl order_less_asym)
    then show ?thesis using Cons by auto
  qed (use 4 in simp)
qed simp_all

lemma is_compare_lex: "is_compare lex_compare"
  unfolding is_compare_def using lex_compare_eq lex_compare_flip lex_compare_trans by blast

definition sample_forest :: "string \<Rightarrow> u32 \<Rightarrow> nat gtree list" where
  "sample_forest name n = [GNode (sample_item 0 n) [GNode ((sample_item 1 n)\<lparr>ri_text := ustr name\<rparr>) []]]"

lemma mergeStringGroup_flat:
  assumes "is_compare cmp" "forest_sorted cmp f" "forest_sorted cmp g"
    and "forest_height f \<le> 255" "forest_height g \<le> 255"
    and "stringGroupRep rep = flat_forest 0 f" "stringGroupRep other = flat_forest 0 g"
  shows "\<exists>h. stringGroupRep (fst (mergeStringGroup cmp rep other)) = flat_forest 0 h \<and> forest_sorted cmp h \<and>
    node_text ` set h = node_text ` set f \<union> node_text ` set g \<and>
    (\<forall>path. forest_count path h = forest_count path f + forest_count path g)"
proof (intro exI conjI allI)
  let ?h = "merge_forest cmp f g"
  have r: "recurseStringGroup cmp 0 (flat_forest 0 f) (flat_forest 0 g) = (flat_forest 0 ?h, [], [])"
    using recurse_flat [of 0 "[]" "[]" f g cmp] assms(4,5) by (simp add: ends_def)
  have e: "flat_forest 0 x = [] \<longleftrightarrow> x = []" for x :: "'a gtree list"
    by (cases x; cases "hd x") (auto simp: flat_forest_def)
  have m: "merge_forest cmp f [] = f" by (cases f) simp_all
  show "stringGroupRep (fst (mergeStringGroup cmp rep other)) = flat_forest 0 ?h"
    using r e m assms(6,7) by (auto simp: mergeStringGroup_def)
  show "forest_sorted cmp ?h" by (rule merge_forest_sorted [OF assms(1-3)])
  show "node_text ` set ?h = node_text ` set f \<union> node_text ` set g" by (rule merge_forest_texts [OF assms(1)])
  show "forest_count path ?h = forest_count path f + forest_count path g" for path
    by (rule merge_forest_count) (use assms(1) in \<open>simp add: is_compare_def\<close>)
qed

text \<open>C15: Merging the string groups of two results (refinement of the merge of sorted forests). Let the
items of both results be sorted forests in preorder, of at most 255 levels. The items of the receiver
afterwards are those of the merged forest, which is sorted, and its document count for every path of group names
is the sum of both results' counts for the path (modulo \<open>2 ^ 32\<close>).
\<close>

theorem string_group_merge:
  assumes "is_compare cmp" "forest_sorted cmp f" "forest_sorted cmp g"
    and "forest_height f \<le> 255" "forest_height g \<le> 255"
    and "stringGroupRep rep = flat_forest 0 f" "stringGroupRep other = flat_forest 0 g"
  shows "\<exists>h. stringGroupRep (fst (mergeStringGroup cmp rep other)) = flat_forest 0 h \<and> forest_sorted cmp h \<and>
    node_text ` set h = node_text ` set f \<union> node_text ` set g \<and>
    (\<forall>path. forest_count path h = forest_count path f + forest_count path g)"
  by (rule mergeStringGroup_flat [OF assms])

text \<open>An instance of \<open>string_group_merge\<close>.\<close>

theorem string_group_merge_witness:
  "is_compare lex_compare \<and> forest_sorted lex_compare (sample_forest ''a'' 2) \<and>
   (\<exists>h. stringGroupRep (fst (mergeStringGroup lex_compare
       (no_groups\<lparr>stringGroupRep := flat_forest 0 (sample_forest ''a'' 2)\<rparr>)
       (no_groups\<lparr>stringGroupRep := flat_forest 0 (sample_forest ''b'' 3)\<rparr>))) = flat_forest 0 h \<and>
     forest_count [ustr ''x''] h = 5 \<and> forest_count [ustr ''x'', ustr ''b''] h = 3)"
proof -
  have s: "forest_sorted lex_compare (sample_forest name n)" "forest_height (sample_forest name n) \<le> 255" for name n
    by (simp_all add: sample_forest_def forest_sorted_def forest_height_def)
  have c: "forest_count [ustr ''x''] (sample_forest ''a'' 2) = 2" "forest_count [ustr ''x''] (sample_forest ''b'' 3) = 3"
    "forest_count [ustr ''x'', ustr ''b''] (sample_forest ''a'' 2) = 0"
    "forest_count [ustr ''x'', ustr ''b''] (sample_forest ''b'' 3) = 3"
    by (simp_all add: sample_forest_def sample_item_def forest_count_def ustr_def)
  show ?thesis
    using string_group_merge [OF is_compare_lex s(1) s(1) s(2) s(2),
        of "no_groups\<lparr>stringGroupRep := flat_forest 0 (sample_forest ''a'' 2)\<rparr>" "''a''" 2
          "no_groups\<lparr>stringGroupRep := flat_forest 0 (sample_forest ''b'' 3)\<rparr>" "''b''" 3]
      is_compare_lex s(1) [of "''a''" 2] c by (simp only: group_rep.simps group_rep.update_convs simp_thms) force
qed

end
