(* ===== verification/String_Counter.thy ===== *)
theory String_Counter
  imports Prop_Value_Table Group_Resize
begin

text \<open>
  Counting documents for the values of a string property (core/mining-manager/group-manager: StringGroupCounter.h,
  SubGroupCounter.h): the counters of a query on a table of property values, the addition of the counts to the ancestors of
  a value and the list of groups in preorder. The counter that holds a second counter per value has the inner counter
  as a parameter, because its class is not known to it.
\<close>

section \<open>Items\<close>

text \<open>The constructors of \<open>OntologyRepItem\<close>; the conversion of a level to 8 bits drops higher bits.\<close>

definition make_item :: "int \<Rightarrow> ustring \<Rightarrow> u32 \<Rightarrow> u32 \<Rightarrow> 'd :: zero rep_item" where
  "make_item level txt i n = \<lparr>ri_level = of_int level, ri_text = txt, ri_id = i, ri_doc_count = n, ri_score = 0\<rparr>"

section \<open>Counting\<close>

record string_counter =
  sc_table :: prop_value_table
  sc_count :: "u32 list"

definition sc_new :: "prop_value_table \<Rightarrow> string_counter" where
  "sc_new t = \<lparr>sc_table = t, sc_count = replicate (length (propStrVec t)) 0\<rparr>"

text \<open>\<open>None\<close>: an access outside the vector.\<close>

fun add_count :: "u32 \<Rightarrow> pvid list \<Rightarrow> u32 list \<Rightarrow> u32 list option" where
  "add_count n [] cs = Some cs"
| "add_count n (i # is) cs =
     (if unat i < length cs then add_count n is (cs[unat i := cs ! unat i + n]) else None)"

definition sc_addDoc :: "docid \<Rightarrow> string_counter \<Rightarrow> string_counter option" where
  "sc_addDoc doc c =
     Option.bind (pid_ids (valueIdTable (sc_table c)) doc) (\<lambda>ids.
       if ids = [] then Some c
       else map_option (\<lambda>cs. c\<lparr>sc_count := cs\<rparr>) (add_count 1 (ids @ [0]) (sc_count c)))"

fun sc_addDocs :: "docid list \<Rightarrow> string_counter \<Rightarrow> string_counter option" where
  "sc_addDocs [] c = Some c"
| "sc_addDocs (d # ds) c = Option.bind (sc_addDoc d c) (sc_addDocs ds)"

text \<open>The loop of \<open>addCountForParentId\<close> over the ids.\<close>

fun parent_counts :: "prop_value_table \<Rightarrow> u32 list \<Rightarrow> nat list \<Rightarrow> u32 list \<Rightarrow> u32 list option" where
  "parent_counts t old [] new = Some new"
| "parent_counts t old (i # is) new =
     (if old ! i = 0 then parent_counts t old is new
      else Option.bind (getParentIds t (of_nat i)) (\<lambda>ps.
        Option.bind (add_count (old ! i) ps new) (parent_counts t old is)))"

definition addCountForParentId :: "string_counter \<Rightarrow> string_counter option" where
  "addCountForParentId c =
     (let n = length (sc_count c) in
      if n = 0 then Some c
      else map_option (\<lambda>new. c\<lparr>sc_count := new\<rparr>)
        (parent_counts (sc_table c) (sc_count c) [1..<n] ((replicate n 0)[0 := sc_count c ! 0])))"

section \<open>The list of groups\<close>

text \<open>
  The entries of a child map in the order in which \<open>std::map\<close> iterates, by ascending key. The keys of the child maps are among the
  strings of the table.
\<close>

fun insert_entry :: "(ustring \<Rightarrow> ustring \<Rightarrow> int) \<Rightarrow> ustring \<times> pvid \<Rightarrow> (ustring \<times> pvid) list \<Rightarrow> (ustring \<times> pvid) list" where
  "insert_entry cmp e [] = [e]"
| "insert_entry cmp e (x # xs) = (if cmp (fst e) (fst x) < 0 then e # x # xs else x # insert_entry cmp e xs)"

definition child_entries :: "(ustring \<Rightarrow> ustring \<Rightarrow> int) \<Rightarrow> prop_value_table \<Rightarrow> pvid \<Rightarrow> (ustring \<times> pvid) list" where
  "child_entries cmp t pvId =
     foldr (insert_entry cmp)
       (map (\<lambda>i. (propStrVec t ! i, of_nat i))
         (filter (\<lambda>i. (childMapTable t ! unat pvId) (propStrVec t ! i) = Some (of_nat i)) [1..<length (propStrVec t)])) []"

text \<open>
  \<open>appendGroupRep\<close> and its loop over the children. The first argument bounds the depth of the recursion; as the id of a child is
  greater than that of its parent, the number of ids is enough.
\<close>

fun appendGroupRep :: "nat \<Rightarrow> (ustring \<Rightarrow> ustring \<Rightarrow> int) \<Rightarrow> prop_value_table \<Rightarrow> u32 list \<Rightarrow> pvid \<Rightarrow> int \<Rightarrow> ustring \<Rightarrow>
    'd :: zero rep_item list option"
  and append_children :: "nat \<Rightarrow> (ustring \<Rightarrow> ustring \<Rightarrow> int) \<Rightarrow> prop_value_table \<Rightarrow> u32 list \<Rightarrow> int \<Rightarrow> (ustring \<times> pvid) list \<Rightarrow>
    'd rep_item list option" where
  "appendGroupRep 0 cmp t cs pvId level valueStr = None"
| "appendGroupRep (Suc n) cmp t cs pvId level valueStr =
     (if unat pvId < length cs
      then map_option ((#) (make_item level valueStr 0 (cs ! unat pvId)))
             (append_children n cmp t cs (level + 1) (child_entries cmp t pvId))
      else None)"
| "append_children n cmp t cs level [] = Some []"
| "append_children n cmp t cs level ((str, childId) # es) =
     (if unat childId < length cs then
        (if cs ! unat childId \<noteq> 0 then
           Option.bind (appendGroupRep n cmp t cs childId level str) (\<lambda>items.
             map_option ((@) items) (append_children n cmp t cs level es))
         else append_children n cmp t cs level es)
      else None)"

definition sc_getGroupRep :: "(string \<Rightarrow> ustring) \<Rightarrow> (ustring \<Rightarrow> ustring \<Rightarrow> int) \<Rightarrow> string_counter \<Rightarrow> 'd :: zero group_rep \<Rightarrow>
    (string_counter \<times> 'd group_rep) option" where
  "sc_getGroupRep conv cmp c rep =
     Option.bind (addCountForParentId c) (\<lambda>c'.
       map_option (\<lambda>items. (c', rep\<lparr>stringGroupRep := stringGroupRep rep @ items\<rparr>))
         (appendGroupRep (length (sc_count c') + 1) cmp (sc_table c') (sc_count c') 0 0 (conv (propName (sc_table c')))))"

definition sc_getStringRep :: "(ustring \<Rightarrow> ustring \<Rightarrow> int) \<Rightarrow> int \<Rightarrow> string_counter \<Rightarrow> 'd :: zero rep_item list \<Rightarrow>
    (string_counter \<times> 'd rep_item list) option" where
  "sc_getStringRep cmp level c strRep =
     Option.bind (addCountForParentId c) (\<lambda>c'.
       map_option (\<lambda>items. (c', strRep @ items))
         (append_children (length (sc_count c') + 1) cmp (sc_table c') (sc_count c') level (child_entries cmp (sc_table c') 0)))"

section \<open>Counting on two properties\<close>

text \<open>
  \<open>StringGroupCounter<SubGroupCounter>\<close>: every value id has a count and a counter of the second property, an object with the
  operations \<open>addDoc\<close> and \<open>getStringRep\<close>. Copying a counter copies its value.
\<close>

record ('s, 'd) counter_ops =
  co_addDoc :: "docid \<Rightarrow> 's \<Rightarrow> 's option"
  co_getStringRep :: "int \<Rightarrow> 's \<Rightarrow> 'd rep_item list option"

record 's string_sub_counter =
  ss_table :: prop_value_table
  ss_count :: "(u32 \<times> 's) list"

definition ss_new :: "prop_value_table \<Rightarrow> 's \<Rightarrow> 's string_sub_counter" where
  "ss_new t sub = \<lparr>ss_table = t, ss_count = replicate (length (propStrVec t)) (0, sub)\<rparr>"

fun sub_add_ids :: "('s, 'd) counter_ops \<Rightarrow> docid \<Rightarrow> pvid list \<Rightarrow> (u32 \<times> 's) list \<Rightarrow> (u32 \<times> 's) list option" where
  "sub_add_ids ops doc [] cs = Some cs"
| "sub_add_ids ops doc (i # is) cs =
     (if unat i < length cs then
        Option.bind (co_addDoc ops doc (snd (cs ! unat i))) (\<lambda>s.
          sub_add_ids ops doc is (cs[unat i := (fst (cs ! unat i) + 1, s)]))
      else None)"

definition ss_addDoc :: "('s, 'd) counter_ops \<Rightarrow> docid \<Rightarrow> 's string_sub_counter \<Rightarrow> 's string_sub_counter option" where
  "ss_addDoc ops doc c =
     Option.bind (pid_ids (valueIdTable (ss_table c)) doc) (\<lambda>ids.
       if ids = [] then Some c
       else Option.bind (sub_add_ids ops doc ids (ss_count c)) (\<lambda>cs.
         if cs = [] then None
         else Some (c\<lparr>ss_count := cs[0 := (fst (cs ! 0) + 1, snd (cs ! 0))]\<rparr>)))"

text \<open>The items of the second property come before the child values; there is no addition to ancestors.\<close>

fun sub_appendGroupRep :: "('s, 'd :: zero) counter_ops \<Rightarrow> nat \<Rightarrow> (ustring \<Rightarrow> ustring \<Rightarrow> int) \<Rightarrow> prop_value_table \<Rightarrow> (u32 \<times> 's) list \<Rightarrow>
    pvid \<Rightarrow> int \<Rightarrow> ustring \<Rightarrow> 'd rep_item list option"
  and sub_append_children :: "('s, 'd) counter_ops \<Rightarrow> nat \<Rightarrow> (ustring \<Rightarrow> ustring \<Rightarrow> int) \<Rightarrow> prop_value_table \<Rightarrow> (u32 \<times> 's) list \<Rightarrow>
    int \<Rightarrow> (ustring \<times> pvid) list \<Rightarrow> 'd rep_item list option" where
  "sub_appendGroupRep ops 0 cmp t cs pvId level valueStr = None"
| "sub_appendGroupRep ops (Suc n) cmp t cs pvId level valueStr =
     (if unat pvId < length cs then
        Option.bind (if pvId \<noteq> 0 then co_getStringRep ops (level + 1) (snd (cs ! unat pvId)) else Some []) (\<lambda>subItems.
          map_option (\<lambda>items. make_item level valueStr 0 (fst (cs ! unat pvId)) # subItems @ items)
            (sub_append_children ops n cmp t cs (level + 1) (child_entries cmp t pvId)))
      else None)"
| "sub_append_children ops n cmp t cs level [] = Some []"
| "sub_append_children ops n cmp t cs level ((str, childId) # es) =
     (if unat childId < length cs then
        (if fst (cs ! unat childId) \<noteq> 0 then
           Option.bind (sub_appendGroupRep ops n cmp t cs childId level str) (\<lambda>items.
             map_option ((@) items) (sub_append_children ops n cmp t cs level es))
         else sub_append_children ops n cmp t cs level es)
      else None)"

definition ss_getGroupRep :: "('s, 'd :: zero) counter_ops \<Rightarrow> (string \<Rightarrow> ustring) \<Rightarrow> (ustring \<Rightarrow> ustring \<Rightarrow> int) \<Rightarrow>
    's string_sub_counter \<Rightarrow> 'd group_rep \<Rightarrow> 'd group_rep option" where
  "ss_getGroupRep ops conv cmp c rep =
     map_option (\<lambda>items. rep\<lparr>stringGroupRep := stringGroupRep rep @ items\<rparr>)
       (sub_appendGroupRep ops (length (ss_count c) + 1) cmp (ss_table c) (ss_count c) 0 0 (conv (propName (ss_table c))))"

definition ss_getStringRep :: "('s, 'd :: zero) counter_ops \<Rightarrow> (ustring \<Rightarrow> ustring \<Rightarrow> int) \<Rightarrow> int \<Rightarrow> 's string_sub_counter \<Rightarrow>
    'd rep_item list \<Rightarrow> 'd rep_item list option" where
  "ss_getStringRep ops cmp level c strRep =
     map_option ((@) strRep)
       (sub_append_children ops (length (ss_count c) + 1) cmp (ss_table c) (ss_count c) level (child_entries cmp (ss_table c) 0))"


section \<open>What is counted\<close>

definition ids_of :: "prop_value_table \<Rightarrow> docid \<Rightarrow> pvid list" where
  "ids_of t d = (case pid_ids (valueIdTable t) d of Some ids \<Rightarrow> ids | None \<Rightarrow> [])"

text \<open>The documents' values are values of the table, and not the root.\<close>

definition docs_ok :: "prop_value_table \<Rightarrow> docid list \<Rightarrow> bool" where
  "docs_ok t ds \<longleftrightarrow> list_all (\<lambda>d. list_all (\<lambda>i. 0 < unat i \<and> unat i < length (propStrVec t)) (ids_of t d)) ds"

text \<open>How many values of the documents are \<open>v\<close> or below it.\<close>

definition value_hits :: "prop_value_table \<Rightarrow> docid list \<Rightarrow> pvid \<Rightarrow> nat" where
  "value_hits t ds v = sum_list (map (\<lambda>d. length (filter (\<lambda>i. v \<in> ancestors t i) (ids_of t d))) ds)"

definition docs_with_value :: "prop_value_table \<Rightarrow> docid list \<Rightarrow> nat" where
  "docs_with_value t ds = length (filter (\<lambda>d. ids_of t d \<noteq> []) ds)"

lemma pid_ids_of: "pvt_wf t \<Longrightarrow> pid_ids (valueIdTable t) d = Some (ids_of t d)"
  by (simp add: ids_of_def pvt_wf_def pid_ids_wf)

lemma add_count_nth:
  "\<forall>i\<in>set is. unat i < length cs \<Longrightarrow>
   \<exists>cs'. add_count n is cs = Some cs' \<and> length cs' = length cs \<and>
     (\<forall>j<length cs. cs' ! j = cs ! j + of_nat (length (filter (\<lambda>i. unat i = j) is)) * n)"
proof (induction "is" arbitrary: cs)
  case (Cons i "is")
  obtain cs' where "add_count n is (cs[unat i := cs ! unat i + n]) = Some cs'" "length cs' = length cs"
    "\<forall>j<length cs. cs' ! j = cs[unat i := cs ! unat i + n] ! j + of_nat (length (filter (\<lambda>i. unat i = j) is)) * n"
    using Cons.IH [of "cs[unat i := cs ! unat i + n]"] Cons.prems by auto
  then show ?case using Cons.prems by (auto simp: nth_list_update algebra_simps)
qed simp

lemma sc_addDocs_nth:
  assumes "pvt_wf t" "sc_table c = t" "length (sc_count c) = length (propStrVec t)" "docs_ok t ds"
  shows "\<exists>cs. sc_addDocs ds c = Some (c\<lparr>sc_count := cs\<rparr>) \<and> length cs = length (propStrVec t) \<and>
    cs ! 0 = sc_count c ! 0 + of_nat (docs_with_value t ds) \<and>
    (\<forall>j<length (propStrVec t). 0 < j \<longrightarrow>
       cs ! j = sc_count c ! j + of_nat (sum_list (map (\<lambda>d. length (filter (\<lambda>i. unat i = j) (ids_of t d))) ds)))"
  using assms(2-)
proof (induction ds arbitrary: c)
  case Nil
  then show ?case by (auto simp: docs_with_value_def intro!: exI [of _ "sc_count c"])
next
  case (Cons d ds)
  let ?n = "length (propStrVec t)"
  have n0: "0 < ?n" using tree_wfD(3) [OF pvt_wf_tree [OF assms(1)]] .
  have ok: "\<forall>i\<in>set (ids_of t d). 0 < unat i \<and> unat i < ?n" "docs_ok t ds"
    using Cons.prems(3) by (auto simp: docs_ok_def list_all_iff)
  have "\<exists>c1. sc_addDoc d c = Some c1 \<and> sc_table c1 = t \<and> length (sc_count c1) = ?n \<and> c1 = c\<lparr>sc_count := sc_count c1\<rparr> \<and>
      sc_count c1 ! 0 = sc_count c ! 0 + of_nat (if ids_of t d = [] then 0 else 1) \<and>
      (\<forall>j<?n. 0 < j \<longrightarrow> sc_count c1 ! j = sc_count c ! j + of_nat (length (filter (\<lambda>i. unat i = j) (ids_of t d))))"
  proof (cases "ids_of t d = []")
    case True
    then show ?thesis using Cons.prems pid_ids_of [OF assms(1), of d] by (auto simp: sc_addDoc_def)
  next
    case False
    obtain cs' where cs': "add_count 1 (ids_of t d @ [0]) (sc_count c) = Some cs'" "length cs' = ?n"
      "\<forall>j<?n. cs' ! j = sc_count c ! j + of_nat (length (filter (\<lambda>i. unat i = j) (ids_of t d @ [0]))) * 1"
      using add_count_nth [of "ids_of t d @ [0]" "sc_count c" 1] ok(1) Cons.prems(2) n0 by auto
    have "filter (\<lambda>i. unat i = 0) (ids_of t d) = []" using ok(1) by (auto simp: filter_empty_conv)
    then show ?thesis using cs' False Cons.prems(1) pid_ids_of [OF assms(1), of d] n0
      by (auto simp: sc_addDoc_def intro!: exI [of _ "c\<lparr>sc_count := cs'\<rparr>"])
  qed
  then obtain c1 where c1: "sc_addDoc d c = Some c1" "sc_table c1 = t" "length (sc_count c1) = ?n" "c1 = c\<lparr>sc_count := sc_count c1\<rparr>"
      "sc_count c1 ! 0 = sc_count c ! 0 + of_nat (if ids_of t d = [] then 0 else 1)"
      "\<forall>j<?n. 0 < j \<longrightarrow> sc_count c1 ! j = sc_count c ! j + of_nat (length (filter (\<lambda>i. unat i = j) (ids_of t d)))" by blast
  obtain cs where cs: "sc_addDocs ds c1 = Some (c1\<lparr>sc_count := cs\<rparr>)" "length cs = ?n"
    "cs ! 0 = sc_count c1 ! 0 + of_nat (docs_with_value t ds)"
    "\<forall>j<?n. 0 < j \<longrightarrow> cs ! j = sc_count c1 ! j + of_nat (sum_list (map (\<lambda>d. length (filter (\<lambda>i. unat i = j) (ids_of t d))) ds))"
    using Cons.IH [OF c1(2,3) ok(2)] by blast
  have "c1\<lparr>sc_count := cs\<rparr> = c\<lparr>sc_count := cs\<rparr>" by (subst c1(4)) simp
  then show ?case using c1 cs by (auto simp: docs_with_value_def)
qed

section \<open>Counts of the ancestors\<close>

lemma parent_walk_distinct:
  assumes "tree_wf strs parents ch"
  shows "unat r < length strs \<Longrightarrow> parent_walk parents r = Some ids \<Longrightarrow> distinct ids"
proof (induction "unat r" arbitrary: r ids rule: less_induct)
  case less
  show ?case
  proof (cases "r = 0")
    case True
    then show ?thesis using less.prems by (simp add: parent_walk.simps)
  next
    case False
    let ?p = "parents ! unat r"
    have lt: "unat ?p < unat r" using tree_wfD(5) [OF assms] False less.prems(1) by (simp add: unat_gt_0)
    obtain js where js: "parent_walk parents ?p = Some js" "\<forall>i\<in>set js. i \<noteq> 0 \<and> unat i \<le> unat ?p"
      using parent_walk_total [OF assms, of ?p] lt less.prems(1) by auto
    have "parent_walk parents r = Some (r # js)"
      using less.prems(1) False js(1) tree_wfD(1) [OF assms] by (subst parent_walk.simps) simp
    then have "ids = r # js" using less.prems(2) by simp
    moreover have "distinct js" using less.hyps [OF lt _ js(1)] lt less.prems(1) by simp
    ultimately show ?thesis using js(2) lt by auto
  qed
qed

lemma getParentIds_spec:
  assumes "pvt_wf t" "unat i < length (propStrVec t)"
  shows "\<exists>ps. getParentIds t i = Some ps \<and> distinct ps \<and> set ps = ancestors t i \<and> (\<forall>p\<in>set ps. unat p < length (propStrVec t))"
proof -
  note tw = pvt_wf_tree [OF assms(1)]
  obtain ps where ps: "parent_walk (parentIdVec t) i = Some ps" "\<forall>p\<in>set ps. p \<noteq> 0 \<and> unat p \<le> unat i"
    using parent_walk_total [OF tw assms(2)] by blast
  then show ?thesis using parent_walk_distinct [OF tw assms(2) ps(1)] assms(2)
    by (auto simp: getParentIds_def ancestors_def intro: le_less_trans)
qed

lemma distinct_filter_unat:
  assumes "distinct ps" "j < 2 ^ 32"
  shows "length (filter (\<lambda>p :: u32. unat p = j) ps) = (if of_nat j \<in> set ps then 1 else 0)"
proof -
  have eq: "unat p = j \<longleftrightarrow> p = of_nat j" for p :: u32 using assms(2) unat_of_nat_u32 [of j] by (metis word_unat_eq_iff)
  show ?thesis unfolding eq using assms(1) by (induction ps) auto
qed

lemma parent_counts_nth:
  assumes wf: "pvt_wf t"
  shows "\<forall>i\<in>set is. i < length (propStrVec t) \<Longrightarrow> length new = length (propStrVec t) \<Longrightarrow>
    \<exists>new'. parent_counts t old is new = Some new' \<and> length new' = length new \<and>
      (\<forall>j<length new. new' ! j = new ! j + sum_list (map (\<lambda>i. if of_nat j \<in> ancestors t (of_nat i) then old ! i else 0) is))"
proof (induction "is" arbitrary: new)
  case (Cons i "is")
  let ?n = "length (propStrVec t)"
  have n: "?n \<le> 2 ^ 32" using tree_wfD(4) [OF pvt_wf_tree [OF wf]] .
  show ?case
  proof (cases "old ! i = 0")
    case True
    then have "(\<lambda>j. if of_nat j \<in> ancestors t (of_nat i) then old ! i else 0) = (\<lambda>j. 0)" by auto
    then show ?thesis using True Cons by (simp add: fun_eq_iff)
  next
    case False
    have "unat (of_nat i :: u32) < ?n" using Cons.prems(1) n unat_of_nat_u32 [of i] by simp
    then obtain ps where ps: "getParentIds t (of_nat i) = Some ps" "distinct ps" "set ps = ancestors t (of_nat i)"
      "\<forall>p\<in>set ps. unat p < length new" using getParentIds_spec [OF wf] Cons.prems(2) by metis
    obtain new1 where new1: "add_count (old ! i) ps new = Some new1" "length new1 = length new"
      "\<forall>j<length new. new1 ! j = new ! j + of_nat (length (filter (\<lambda>i. unat i = j) ps)) * old ! i"
      using add_count_nth [OF ps(4)] by blast
    obtain new' where new': "parent_counts t old is new1 = Some new'" "length new' = length new"
      "\<forall>j<length new. new' ! j = new1 ! j + sum_list (map (\<lambda>i. if of_nat j \<in> ancestors t (of_nat i) then old ! i else 0) is)"
      using Cons.IH [of new1] Cons.prems new1(2) by auto
    have "new' ! j = new ! j + sum_list (map (\<lambda>i. if of_nat j \<in> ancestors t (of_nat i) then old ! i else 0) (i # is))"
      if "j < length new" for j
    proof -
      have j: "j < 2 ^ 32" using that Cons.prems(2) n by simp
      show ?thesis using new'(3) new1(3) that distinct_filter_unat [OF ps(2) j] ps(3) by simp
    qed
    then show ?thesis using False ps(1) new1(1) new' by simp
  qed
qed simp

lemma sum_list_0_map: "\<forall>i\<in>set is. f i = (0 :: 'a :: comm_monoid_add) \<Longrightarrow> sum_list (map f is) = 0"
  by (induction "is") simp_all

lemma sum_by_id:
  assumes "\<forall>x\<in>set ids. 0 < unat x \<and> unat x < n"
  shows "sum_list (map (\<lambda>i. if P i then length (filter (\<lambda>x. unat x = i) ids) else 0) [1..<n]) = length (filter (\<lambda>x. P (unat x)) ids)"
  using assms
proof (induction ids)
  case (Cons x ids)
  have "sum_list (map (\<lambda>i. if P i then length (filter (\<lambda>x. unat x = i) (x # ids)) else 0) [1..<n]) =
      sum_list (map (\<lambda>i. (if i = unat x \<and> P i then 1 else 0) + (if P i then length (filter (\<lambda>x. unat x = i) ids) else 0)) [1..<n])"
    by (intro arg_cong [where f = sum_list] map_cong) auto
  also have "\<dots> = sum_list (map (\<lambda>i. if i = unat x \<and> P i then 1 else 0) [1..<n]) +
      sum_list (map (\<lambda>i. if P i then length (filter (\<lambda>x. unat x = i) ids) else 0) [1..<n])"
    by (simp add: sum_list_addf)
  also have "sum_list (map (\<lambda>i. if i = unat x \<and> P i then 1 else (0 :: nat)) [1..<n]) = (if P (unat x) then 1 else 0)"
  proof -
    have "sum_list (map (\<lambda>i. if i = unat x \<and> P i then 1 else (0 :: nat)) [1..<n]) = (\<Sum>i\<in>{1..<n}. if i = unat x \<and> P i then 1 else 0)"
      by (simp add: interv_sum_list_conv_sum_set_nat)
    also have "\<dots> = (\<Sum>i\<in>{1..<n}. if i = unat x then (if P (unat x) then 1 else 0) else 0)" by (intro sum.cong) auto
    also have "\<dots> = (if P (unat x) then 1 else 0)" using Cons.prems by (subst sum.delta) auto
    finally show ?thesis .
  qed
  finally show ?case using Cons by simp
qed (auto simp: sum_list_0_map)

lemma value_hits_sum:
  assumes "docs_ok t ds"
  shows "sum_list (map (\<lambda>i. if v \<in> ancestors t (of_nat i) then sum_list (map (\<lambda>d. length (filter (\<lambda>x. unat x = i) (ids_of t d))) ds) else 0)
      [1..<length (propStrVec t)]) = value_hits t ds v"
  using assms
proof (induction ds)
  case Nil
  then show ?case by (auto simp: value_hits_def sum_list_0_map)
next
  case (Cons d ds)
  let ?n = "length (propStrVec t)" and ?P = "\<lambda>i. v \<in> ancestors t (of_nat i)"
  have ok: "\<forall>x\<in>set (ids_of t d). 0 < unat x \<and> unat x < ?n" "docs_ok t ds" using Cons.prems by (auto simp: docs_ok_def list_all_iff)
  have "sum_list (map (\<lambda>i. if ?P i then sum_list (map (\<lambda>d. length (filter (\<lambda>x. unat x = i) (ids_of t d))) (d # ds)) else 0) [1..<?n]) =
      sum_list (map (\<lambda>i. (if ?P i then length (filter (\<lambda>x. unat x = i) (ids_of t d)) else 0) +
        (if ?P i then sum_list (map (\<lambda>d. length (filter (\<lambda>x. unat x = i) (ids_of t d))) ds) else 0)) [1..<?n])"
    by (intro arg_cong [where f = sum_list] map_cong) auto
  also have "\<dots> = length (filter (\<lambda>x. v \<in> ancestors t x) (ids_of t d)) + value_hits t ds v"
    unfolding sum_list_addf sum_by_id [OF ok(1)] Cons.IH [OF ok(2)] by simp
  finally show ?case by (simp add: value_hits_def)
qed

text \<open>The counts after \<open>addCountForParentId\<close>.\<close>

lemma counts_spec:
  assumes wf: "pvt_wf t" and ok: "docs_ok t ds"
  shows "\<exists>c cs. sc_addDocs ds (sc_new t) = Some c \<and> addCountForParentId c = Some \<lparr>sc_table = t, sc_count = cs\<rparr> \<and>
    length cs = length (propStrVec t) \<and> cs ! 0 = of_nat (docs_with_value t ds) \<and>
    (\<forall>j<length (propStrVec t). 0 < j \<longrightarrow> cs ! j = of_nat (value_hits t ds (of_nat j)))"
proof -
  let ?n = "length (propStrVec t)"
  have n0: "0 < ?n" "?n \<le> 2 ^ 32" using tree_wfD(3,4) [OF pvt_wf_tree [OF wf]] .
  obtain old where old: "sc_addDocs ds (sc_new t) = Some ((sc_new t)\<lparr>sc_count := old\<rparr>)" "length old = ?n"
    "old ! 0 = of_nat (docs_with_value t ds)"
    "\<forall>j<?n. 0 < j \<longrightarrow> old ! j = of_nat (sum_list (map (\<lambda>d. length (filter (\<lambda>i. unat i = j) (ids_of t d))) ds))"
    using sc_addDocs_nth [OF wf, of "sc_new t" ds] ok n0 by (auto simp: sc_new_def)
  let ?z = "(replicate ?n 0)[0 := old ! 0]"
  obtain cs where cs: "parent_counts t old [1..<?n] ?z = Some cs" "length cs = ?n"
    "\<forall>j<?n. cs ! j = ?z ! j + sum_list (map (\<lambda>i. if of_nat j \<in> ancestors t (of_nat i) then old ! i else 0) [1..<?n])"
    using parent_counts_nth [OF wf, of "[1..<?n]" ?z old] by auto
  have nz: "(0 :: u32) \<notin> ancestors t (of_nat i)" if "i < ?n" for i
    using parent_walk_total [OF pvt_wf_tree [OF wf], of "of_nat i"] that n0 unat_of_nat_u32 [of i]
    by (auto simp: ancestors_def)
  have "sum_list (map (\<lambda>i. if of_nat 0 \<in> ancestors t (of_nat i) then old ! i else 0) [1..<?n]) = 0"
    by (rule sum_list_0_map) (use nz in auto)
  then have c0: "cs ! 0 = of_nat (docs_with_value t ds)" using cs(3) n0 old(3) by simp
  have cj: "cs ! j = of_nat (value_hits t ds (of_nat j))" if j: "j < ?n" "0 < j" for j
  proof -
    have "sum_list (map (\<lambda>i. if of_nat j \<in> ancestors t (of_nat i) then old ! i else 0) [1..<?n]) =
        sum_list (map of_nat (map (\<lambda>i. if of_nat j \<in> ancestors t (of_nat i)
          then sum_list (map (\<lambda>d. length (filter (\<lambda>x. unat x = i) (ids_of t d))) ds) else 0) [1..<?n]))"
      using old(4) by (auto simp: comp_def intro!: arg_cong [where f = sum_list])
    also have "\<dots> = of_nat (value_hits t ds (of_nat j))"
      unfolding of_nat_sum_list [symmetric] value_hits_sum [OF ok] ..
    finally show ?thesis using cs(3) j by simp
  qed
  show ?thesis using old cs c0 cj n0 by (auto simp: addCountForParentId_def sc_new_def Let_def)
qed

end
