(* ===== verification/String_Facets.thy ===== *)
theory String_Facets
  imports String_Counter
begin

text \<open>
  The list of groups that a counter of string values produces: it is a sorted tree in preorder, the input that the merge of results
  expects, and its counts are numbers of values under a path.
\<close>

section \<open>Entries of a child map\<close>

lemma insert_entry_set [simp]: "set (insert_entry cmp e xs) = insert e (set xs)"
  by (induction xs) auto

lemma insert_entry_sorted:
  assumes "is_compare cmp" "sorted_wrt (\<lambda>a b. cmp (fst a) (fst b) < 0) xs" "fst e \<notin> fst ` set xs"
  shows "sorted_wrt (\<lambda>a b. cmp (fst a) (fst b) < 0) (insert_entry cmp e xs)"
  using assms(2,3)
proof (induction xs)
  case (Cons x xs)
  have tr: "cmp a b < 0 \<Longrightarrow> cmp b c < 0 \<Longrightarrow> cmp a c < 0" "cmp a b = 0 \<longleftrightarrow> a = b" "cmp a b > 0 \<longleftrightarrow> cmp b a < 0" for a b c
    using assms(1) unfolding is_compare_def by blast+
  have "\<not> cmp (fst e) (fst x) < 0 \<Longrightarrow> cmp (fst x) (fst e) < 0"
    using Cons.prems(2) tr(2,3) by (metis image_eqI list.set_intros(1) linorder_neqE_linordered_idom)
  then show ?case using Cons tr(1) by auto
qed simp

lemma entries_sorted:
  assumes "is_compare cmp" "distinct (map fst es)"
  shows "set (foldr (insert_entry cmp) es []) = set es" "sorted_wrt (\<lambda>a b. cmp (fst a) (fst b) < 0) (foldr (insert_entry cmp) es [])"
proof -
  show s: "set (foldr (insert_entry cmp) es []) = set es" for es :: "(ustring \<times> pvid) list" by (induction es) auto
  show "sorted_wrt (\<lambda>a b. cmp (fst a) (fst b) < 0) (foldr (insert_entry cmp) es [])"
    using assms(2) by (induction es) (auto intro!: insert_entry_sorted [OF assms(1)] simp: s)
qed

lemma child_entries_spec:
  assumes "is_compare cmp" "pvt_wf t" "unat v < length (propStrVec t)"
  shows "(s, c) \<in> set (child_entries cmp t v) \<longleftrightarrow> (childMapTable t ! unat v) s = Some c"
    and "sorted_wrt (\<lambda>a b. cmp (fst a) (fst b) < 0) (child_entries cmp t v)"
    and "(s, c) \<in> set (child_entries cmp t v) \<Longrightarrow> unat v < unat c \<and> unat c < length (propStrVec t)"
proof -
  let ?n = "length (propStrVec t)" and ?m = "childMapTable t ! unat v"
  let ?is = "filter (\<lambda>i. ?m (propStrVec t ! i) = Some (of_nat i)) [1..<?n]"
  let ?es = "map (\<lambda>i. (propStrVec t ! i, of_nat i :: u32)) ?is"
  note tw = pvt_wf_tree [OF assms(2)]
  note edge = tree_wfD(6) [OF tw assms(3)]
  have n: "?n \<le> 2 ^ 32" using tree_wfD(4) [OF tw] .
  have inj: "inj_on (\<lambda>i. propStrVec t ! i) (set ?is)"
  proof (rule inj_onI)
    fix i j assume ij: "i \<in> set ?is" "j \<in> set ?is" "propStrVec t ! i = propStrVec t ! j"
    then have "(of_nat i :: u32) = of_nat j" by auto
    moreover have "i < 2 ^ 32" "j < 2 ^ 32" using ij(1,2) n by auto
    ultimately show "i = j" using unat_of_nat_u32 by metis
  qed
  have "distinct (map fst ?es)" using inj by (simp add: comp_def distinct_map)
  note E = entries_sorted [OF assms(1) this, folded child_entries_def]
  show "sorted_wrt (\<lambda>a b. cmp (fst a) (fst b) < 0) (child_entries cmp t v)" by (rule E(2))
  show iff: "(s, c) \<in> set (child_entries cmp t v) \<longleftrightarrow> ?m s = Some c"
  proof
    assume "(s, c) \<in> set (child_entries cmp t v)"
    then show "?m s = Some c" unfolding E(1) by auto
  next
    assume m: "?m s = Some c"
    then have "0 < unat c" "unat c < ?n" "propStrVec t ! unat c = s" using edge by blast+
    then show "(s, c) \<in> set (child_entries cmp t v)" unfolding E(1) using m by (auto intro!: image_eqI [of _ _ "unat c"])
  qed
  show "unat v < unat c \<and> unat c < ?n" if "(s, c) \<in> set (child_entries cmp t v)"
  proof -
    have "0 < unat c" "unat c < ?n" "unat (parentIdVec t ! unat c) = unat v" using that iff edge by blast+
    then show ?thesis using tree_wfD(5) [OF tw, of "unat c"] by simp
  qed
qed

section \<open>The tree of groups\<close>

text \<open>The value that a path from \<open>v\<close> reaches through values with a count.\<close>

fun live_path :: "(ustring \<rightharpoonup> pvid) list \<Rightarrow> u32 list \<Rightarrow> ustring list \<Rightarrow> pvid \<Rightarrow> pvid option" where
  "live_path ch cs [] v = Some v"
| "live_path ch cs (s # ss) v =
     (case (ch ! unat v) s of
        None \<Rightarrow> None
      | Some c \<Rightarrow> if cs ! unat c = 0 then None else live_path ch cs ss c)"

definition live_count :: "prop_value_table \<Rightarrow> u32 list \<Rightarrow> ustring list \<Rightarrow> pvid \<Rightarrow> u32" where
  "live_count t cs path v = (case live_path (childMapTable t) cs path v of None \<Rightarrow> 0 | Some i \<Rightarrow> cs ! unat i)"

definition depth_le :: "prop_value_table \<Rightarrow> pvid \<Rightarrow> nat \<Rightarrow> bool" where
  "depth_le t v k \<longleftrightarrow> (\<forall>path i. lookup_path (childMapTable t) path v = Some i \<longrightarrow> length path \<le> k)"

definition group_tree :: "(ustring \<Rightarrow> ustring \<Rightarrow> int) \<Rightarrow> prop_value_table \<Rightarrow> u32 list \<Rightarrow> ustring \<times> pvid \<Rightarrow> 'd gtree \<Rightarrow> bool" where
  "group_tree cmp t cs e tr \<longleftrightarrow> node_text tr = fst e \<and> tree_sorted cmp tr \<and>
     (\<forall>path. tree_count (fst e # path) tr = live_count t cs path (snd e)) \<and>
     (\<forall>k. depth_le t (snd e) k \<longrightarrow> tree_height tr \<le> Suc k)"

lemma append_children_trees:
  assumes "\<forall>(s, c)\<in>set es. unat c < length cs \<and>
    (\<exists>tr :: 'd :: zero gtree. appendGroupRep n cmp t cs c (int l) s = Some (flat_tree l tr) \<and> group_tree cmp t cs (s, c) tr)"
  shows "\<exists>trs :: 'd gtree list. append_children n cmp t cs (int l) es = Some (flat_forest l trs) \<and>
    list_all2 (group_tree cmp t cs) (filter (\<lambda>(s, c). cs ! unat c \<noteq> 0) es) trs"
  using assms
proof (induction es)
  case Nil
  then show ?case by (auto simp: flat_forest_def)
next
  case (Cons e es)
  obtain s c where e: "e = (s, c)" by (cases e)
  obtain trs :: "'d gtree list" where trs: "append_children n cmp t cs (int l) es = Some (flat_forest l trs)"
    "list_all2 (group_tree cmp t cs) (filter (\<lambda>(s, c). cs ! unat c \<noteq> 0) es) trs"
  proof -
    have "\<forall>(s, c)\<in>set es. unat c < length cs \<and>
        (\<exists>tr :: 'd gtree. appendGroupRep n cmp t cs c (int l) s = Some (flat_tree l tr) \<and> group_tree cmp t cs (s, c) tr)"
      using Cons.prems by simp
    then show thesis using Cons.IH that by blast
  qed
  obtain tr :: "'d gtree" where tr: "unat c < length cs" "appendGroupRep n cmp t cs c (int l) s = Some (flat_tree l tr)" "group_tree cmp t cs (s, c) tr"
    using Cons.prems e by auto
  show ?case
  proof (cases "cs ! unat c = 0")
    case True
    then show ?thesis using trs tr(1) e by auto
  next
    case False
    have "flat_tree l tr @ flat_forest l trs = flat_forest l (tr # trs)" by (simp add: flat_forest_def)
    then show ?thesis using False trs tr e by (intro exI [of _ "tr # trs"]) simp
  qed
qed

lemma sum_trees:
  assumes "list_all2 (group_tree cmp t cs) es trs" "distinct (map fst es)"
  shows "sum_list (map (tree_count (x # p)) trs) = (case map_of es x of None \<Rightarrow> 0 | Some c \<Rightarrow> live_count t cs p c)"
  using assms
proof (induction rule: list_all2_induct)
  case (Cons e es tr trs)
  obtain s c where e: "e = (s, c)" by (cases e)
  have g: "node_text tr = s" "tree_count (s # p) tr = live_count t cs p c" using Cons.hyps(1) e by (simp_all add: group_tree_def)
  have one: "tree_count (x # p) tr = (if s = x then live_count t cs p c else 0)"
  proof (cases "s = x")
    case False
    then show ?thesis using g(1) by (cases tr) simp
  qed (use g(2) in simp)
  have "s = x \<Longrightarrow> map_of es x = None" using Cons.prems e by (auto simp: map_of_eq_None_iff)
  then show ?case using Cons.IH Cons.prems e one by (auto split: option.splits)
qed simp

lemma entries_distinct: "is_compare cmp \<Longrightarrow> sorted_wrt (\<lambda>a b. cmp (fst a) (fst b) < 0) es \<Longrightarrow> distinct (map fst es)"
proof (induction es)
  case (Cons e es)
  have "cmp (fst e) (fst e) = 0" using Cons.prems(1) unfolding is_compare_def by blast
  then show ?case using Cons by force
qed simp

lemma trees_sorted:
  "list_all2 (group_tree cmp t cs) es trs \<Longrightarrow> sorted_wrt (\<lambda>a b. cmp (fst a) (fst b) < 0) es \<Longrightarrow>
   sorted_wrt (\<lambda>a b. cmp (node_text a) (node_text b) < 0) trs \<and> (\<forall>tr\<in>set trs. tree_sorted cmp tr)"
proof (induction rule: list_all2_induct)
  case (Cons e es tr trs)
  have "\<exists>e'\<in>set es. node_text tr' = fst e'" if m: "tr' \<in> set trs" for tr'
  proof -
    obtain i where i: "i < length trs" "tr' = trs ! i" using m by (auto simp: in_set_conv_nth)
    then have "group_tree cmp t cs (es ! i) tr'" "i < length es"
      using list_all2_nthD2 [OF Cons.hyps(2)] list_all2_lengthD [OF Cons.hyps(2)] by auto
    then show ?thesis by (auto simp: group_tree_def)
  qed
  then show ?case using Cons by (fastforce simp: group_tree_def)
qed simp


lemma live_count_step:
  assumes cmp: "is_compare cmp" and wf: "pvt_wf t" and v: "unat v < length (propStrVec t)"
    and trs: "list_all2 (group_tree cmp t cs) (filter (\<lambda>(s, c). cs ! unat c \<noteq> 0) (child_entries cmp t v)) trs"
  shows "sum_list (map (tree_count (x # p)) trs) = live_count t cs (x # p) v"
proof -
  let ?es = "child_entries cmp t v" and ?P = "\<lambda>(s :: ustring, c). cs ! unat c \<noteq> 0"
  note E = child_entries_spec [OF cmp wf v]
  have d: "distinct (map fst ?es)" by (rule entries_distinct [OF cmp E(2)])
  then have df: "distinct (map fst (filter ?P ?es))" by (simp add: distinct_map_filter)
  have "map_of (filter ?P ?es) x = (case (childMapTable t ! unat v) x of None \<Rightarrow> None | Some c \<Rightarrow> if cs ! unat c = 0 then None else Some c)"
  proof (cases "(childMapTable t ! unat v) x")
    case None
    then have "x \<notin> fst ` set (filter ?P ?es)" using E(1) by fastforce
    then show ?thesis using None by (simp add: map_of_eq_None_iff)
  next
    case (Some c)
    then have m: "(x, c) \<in> set ?es" using E(1) by blast
    show ?thesis
    proof (cases "cs ! unat c = 0")
      case True
      have "x \<notin> fst ` set (filter ?P ?es)"
      proof
        assume "x \<in> fst ` set (filter ?P ?es)"
        then obtain c' where "(x, c') \<in> set ?es" "cs ! unat c' \<noteq> 0" by auto
        moreover have "c' = c" using E(1) m \<open>(x, c') \<in> set ?es\<close> by (metis option.inject)
        ultimately show False using True by simp
      qed
      then show ?thesis using Some True by (simp add: map_of_eq_None_iff)
    next
      case False
      then have "(x, c) \<in> set (filter ?P ?es)" using m by simp
      then show ?thesis using Some False map_of_is_SomeI [OF df] by simp
    qed
  qed
  then show ?thesis unfolding sum_trees [OF trs df] by (simp add: live_count_def split: option.splits)
qed

lemma group_tree_height:
  assumes cmp: "is_compare cmp" and wf: "pvt_wf t" and v: "unat v < length (propStrVec t)" and k: "depth_le t v k"
    and trs: "list_all2 (group_tree cmp t cs) (filter (\<lambda>(s, c). cs ! unat c \<noteq> 0) (child_entries cmp t v)) trs"
  shows "tree_height (GNode item trs) \<le> Suc k"
proof -
  have "tree_height tr \<le> k" if tr: "tr \<in> set trs" for tr
  proof -
    obtain i where i: "i < length trs" "tr = trs ! i" using tr by (auto simp: in_set_conv_nth)
    define e where "e = filter (\<lambda>(s, c). cs ! unat c \<noteq> 0) (child_entries cmp t v) ! i"
    have g: "group_tree cmp t cs e tr" using list_all2_nthD2 [OF trs i(1)] i(2) by (simp add: e_def)
    have "e \<in> set (child_entries cmp t v)"
      using i(1) list_all2_lengthD [OF trs] nth_mem [of i "filter (\<lambda>(s, c). cs ! unat c \<noteq> 0) (child_entries cmp t v)"]
      by (auto simp: e_def)
    then have c: "(childMapTable t ! unat v) (fst e) = Some (snd e)" using child_entries_spec(1) [OF cmp wf v, of "fst e" "snd e"] by simp
    have "1 \<le> k" using k c lookup_path_single unfolding depth_le_def by (metis One_nat_def length_Cons list.size(3))
    moreover have "depth_le t (snd e) (k - 1)" unfolding depth_le_def
    proof (intro allI impI)
      fix path j assume "lookup_path (childMapTable t) path (snd e) = Some j"
      then have "lookup_path (childMapTable t) (fst e # path) v = Some j" using c by simp
      then have "length (fst e # path) \<le> k" using k unfolding depth_le_def by blast
      then show "length path \<le> k - 1" by simp
    qed
    ultimately show ?thesis using g unfolding group_tree_def by fastforce
  qed
  then show ?thesis using fold_max_le [of "map tree_height trs" 0 k] by simp
qed

lemma append_tree:
  assumes cmp: "is_compare cmp" and wf: "pvt_wf t" and len: "length cs = length (propStrVec t)"
  shows "unat v < length (propStrVec t) \<Longrightarrow> length (propStrVec t) - unat v < n \<Longrightarrow>
    \<exists>tr :: 'd :: zero gtree. appendGroupRep n cmp t cs v (int l) s = Some (flat_tree l tr) \<and> group_tree cmp t cs (s, v) tr"
proof (induction n arbitrary: v l s)
  case (Suc n)
  let ?N = "length (propStrVec t)" and ?es = "child_entries cmp t v"
  note E = child_entries_spec [OF cmp wf Suc.prems(1)]
  have "\<forall>(s, c)\<in>set ?es. unat c < length cs \<and>
      (\<exists>tr :: 'd gtree. appendGroupRep n cmp t cs c (int (Suc l)) s = Some (flat_tree (Suc l) tr) \<and> group_tree cmp t cs (s, c) tr)"
  proof clarify
    fix s c assume "(s, c) \<in> set ?es"
    then have c: "unat v < unat c" "unat c < ?N" using E(3) by blast+
    then have "?N - unat c < n" using Suc.prems by linarith
    then show "unat c < length cs \<and>
        (\<exists>tr :: 'd gtree. appendGroupRep n cmp t cs c (int (Suc l)) s = Some (flat_tree (Suc l) tr) \<and> group_tree cmp t cs (s, c) tr)"
      using Suc.IH [OF c(2), of "Suc l" s] c(2) len by metis
  qed
  then obtain trs :: "'d gtree list" where trs: "append_children n cmp t cs (int (Suc l)) ?es = Some (flat_forest (Suc l) trs)"
    "list_all2 (group_tree cmp t cs) (filter (\<lambda>(s, c). cs ! unat c \<noteq> 0) ?es) trs"
    using append_children_trees by blast
  define tr :: "'d gtree" where "tr = GNode (make_item (int l) s 0 (cs ! unat v)) trs"
  have "flat_tree l tr = make_item (int l) s 0 (cs ! unat v) # flat_forest (Suc l) trs"
    by (simp add: tr_def flat_forest_def make_item_def)
  moreover have "int (Suc l) = int l + 1" by simp
  ultimately have r: "appendGroupRep (Suc n) cmp t cs v (int l) s = Some (flat_tree l tr)"
    using trs(1) Suc.prems(1) len by (simp only: appendGroupRep.simps) simp
  have so: "sorted_wrt (\<lambda>a b. cmp (fst a) (fst b) < 0) (filter (\<lambda>(s, c). cs ! unat c \<noteq> 0) ?es)" using E(2) by (rule sorted_wrt_filter)
  have cnt: "tree_count (s # path) tr = live_count t cs path v" for path
    using live_count_step [OF cmp wf Suc.prems(1) trs(2)]
    by (cases path) (simp_all add: tr_def make_item_def live_count_def)
  have "group_tree cmp t cs (s, v) tr"
    using trees_sorted [OF trs(2) so] cnt group_tree_height [OF cmp wf Suc.prems(1) _ trs(2)]
    by (simp add: group_tree_def tr_def make_item_def)
  then show ?case using r by blast
qed simp


section \<open>Counts by path\<close>

definition has_prefix :: "prop_value_table \<Rightarrow> ustring list \<Rightarrow> pvid \<Rightarrow> bool" where
  "has_prefix t path i = (case propValuePath t i of None \<Rightarrow> False | Some p \<Rightarrow> take (length path) p = path)"

text \<open>How many values of the documents have a path that starts with \<open>path\<close>.\<close>

definition path_hits :: "prop_value_table \<Rightarrow> docid list \<Rightarrow> ustring list \<Rightarrow> nat" where
  "path_hits t ds path = sum_list (map (\<lambda>d. length (filter (has_prefix t path) (ids_of t d))) ds)"

definition total_values :: "prop_value_table \<Rightarrow> docid list \<Rightarrow> nat" where
  "total_values t ds = sum_list (map (\<lambda>d. length (ids_of t d)) ds)"

lemma has_prefix_ancestor:
  assumes wf: "pvt_wf t" and i: "unat i < length (propStrVec t)"
  shows "lookup_path (childMapTable t) path 0 = Some v \<Longrightarrow> v \<noteq> 0 \<Longrightarrow> has_prefix t path i \<longleftrightarrow> v \<in> ancestors t i"
    and "lookup_path (childMapTable t) path 0 = None \<Longrightarrow> \<not> has_prefix t path i"
proof -
  obtain p where p: "propValuePath t i = Some p" "lookup_path (childMapTable t) p 0 = Some i" using path_of_id [OF wf i] by blast
  have pre: "has_prefix t path i \<longleftrightarrow> take (length path) p = path" using p(1) by (simp add: has_prefix_def)
  show "has_prefix t path i \<longleftrightarrow> v \<in> ancestors t i" if v: "lookup_path (childMapTable t) path 0 = Some v" "v \<noteq> 0"
  proof -
    have "v \<in> ancestors t i \<longleftrightarrow> (\<exists>k\<le>length p. lookup_path (childMapTable t) (take k p) 0 = Some v)"
      using ancestors_prefix [OF wf p(2), of v] v(2) by simp
    also have "\<dots> \<longleftrightarrow> (\<exists>k\<le>length p. take k p = path)" using id_of_path [OF wf] v(1) by (metis option.inject)
    also have "\<dots> \<longleftrightarrow> take (length path) p = path"
      by (metis length_take min.absorb2 nat_le_linear take_all)
    finally show ?thesis using pre by simp
  qed
  show "\<not> has_prefix t path i" if n: "lookup_path (childMapTable t) path 0 = None"
  proof
    assume "has_prefix t path i"
    then have "p = path @ drop (length path) p" using pre by (metis append_take_drop_id)
    then have "lookup_path (childMapTable t) (path @ drop (length path) p) 0 = Some i" using p(2) by simp
    then show False using n by (simp add: lookup_path_append)
  qed
qed

lemma hits_of_path:
  assumes wf: "pvt_wf t" and ok: "docs_ok t ds"
  shows "lookup_path (childMapTable t) path 0 = Some v \<Longrightarrow> v \<noteq> 0 \<Longrightarrow> path_hits t ds path = value_hits t ds v"
    and "lookup_path (childMapTable t) path 0 = None \<Longrightarrow> path_hits t ds path = 0"
proof -
  have i: "unat i < length (propStrVec t)" if "d \<in> set ds" "i \<in> set (ids_of t d)" for d i
    using ok that by (auto simp: docs_ok_def list_all_iff)
  show "path_hits t ds path = value_hits t ds v" if v: "lookup_path (childMapTable t) path 0 = Some v" "v \<noteq> 0"
    unfolding path_hits_def value_hits_def
    by (intro arg_cong [where f = sum_list] map_cong arg_cong [where f = length] filter_cong refl has_prefix_ancestor(1) [OF wf i v])
  show "path_hits t ds path = 0" if n: "lookup_path (childMapTable t) path 0 = None"
    unfolding path_hits_def by (rule sum_list_0_map) (use has_prefix_ancestor(2) [OF wf i n] in \<open>auto simp: filter_empty_conv\<close>)
qed

lemma length_filter_mono: "\<forall>x\<in>set xs. P x \<longrightarrow> Q x \<Longrightarrow> length (filter P xs) \<le> length (filter Q xs)"
  by (induction xs) auto

lemma value_hits_mono:
  assumes wf: "pvt_wf t" and ok: "docs_ok t ds" and v: "v \<noteq> 0" "unat v < length (propStrVec t)" and q: "parentIdVec t ! unat v \<noteq> 0"
  shows "value_hits t ds v \<le> value_hits t ds (parentIdVec t ! unat v)"
proof -
  let ?q = "parentIdVec t ! unat v"
  have lt: "unat ?q < unat v" by (rule ancestors_step(2) [OF wf v])
  have "?q \<in> ancestors t v"
    using ancestors_step(1) [OF wf v] ancestors_step(1) [OF wf q] lt v(2) by auto
  then have sub: "v \<in> ancestors t i \<Longrightarrow> ?q \<in> ancestors t i" if "unat i < length (propStrVec t)" for i
    using ancestors_trans [OF wf that] by (auto simp: anc_closed_def)
  show ?thesis unfolding value_hits_def
  proof (rule sum_list_mono)
    fix d assume "d \<in> set ds"
    then have "\<forall>i\<in>set (ids_of t d). unat i < length (propStrVec t)" using ok by (auto simp: docs_ok_def list_all_iff)
    then show "length (filter (\<lambda>i. v \<in> ancestors t i) (ids_of t d)) \<le> length (filter (\<lambda>i. ?q \<in> ancestors t i) (ids_of t d))"
      using sub by (intro length_filter_mono) blast
  qed
qed


lemma live_path_snoc:
  "live_path ch cs (p @ [s]) v = Option.bind (live_path ch cs p v) (\<lambda>q. case (ch ! unat q) s of
     None \<Rightarrow> None | Some c \<Rightarrow> if cs ! unat c = 0 then None else Some c)"
  by (induction ch cs p v rule: live_path.induct) (auto split: option.splits)

lemma live_path_lookup: "live_path ch cs p v = Some i \<Longrightarrow> lookup_path ch p v = Some i"
  by (induction ch cs p v rule: live_path.induct) (auto split: option.splits if_splits)

definition counts_ok :: "prop_value_table \<Rightarrow> docid list \<Rightarrow> u32 list \<Rightarrow> bool" where
  "counts_ok t ds cs \<longleftrightarrow> length cs = length (propStrVec t) \<and> cs ! 0 = of_nat (docs_with_value t ds) \<and>
     (\<forall>j<length (propStrVec t). 0 < j \<longrightarrow> cs ! j = of_nat (value_hits t ds (of_nat j)))"

lemma value_hits_le: "value_hits t ds v \<le> total_values t ds"
  unfolding value_hits_def total_values_def by (rule sum_list_mono) simp

lemma counts_nonzero:
  assumes "counts_ok t ds cs" "total_values t ds < 2 ^ 32" "v \<noteq> 0" "unat v < length (propStrVec t)"
  shows "cs ! unat v = of_nat (value_hits t ds v)" "cs ! unat v = 0 \<longleftrightarrow> value_hits t ds v = 0"
proof -
  show c: "cs ! unat v = of_nat (value_hits t ds v)" using assms(1,3,4) by (simp add: counts_ok_def unat_gt_0)
  have "value_hits t ds v < 2 ^ 32" using value_hits_le [of t ds v] assms(2) by linarith
  then show "cs ! unat v = 0 \<longleftrightarrow> value_hits t ds v = 0" unfolding c using of_nat_u32_eq_0_iff [of "value_hits t ds v"] by simp
qed

lemma live_path_of_hits:
  assumes wf: "pvt_wf t" and ok: "docs_ok t ds" and cs: "counts_ok t ds cs" and tot: "total_values t ds < 2 ^ 32"
  shows "lookup_path (childMapTable t) path 0 = Some v \<Longrightarrow> path = [] \<or> value_hits t ds v \<noteq> 0 \<Longrightarrow>
    live_path (childMapTable t) cs path 0 = Some v"
proof (induction path arbitrary: v rule: rev_induct)
  case (snoc s p)
  note tw = pvt_wf_tree [OF wf]
  obtain q where q: "lookup_path (childMapTable t) p 0 = Some q" "(childMapTable t ! unat q) s = Some v"
    using snoc.prems(1) by (auto simp: lookup_path_append bind_eq_Some_conv)
  have qn: "unat q < length (propStrVec t)" by (rule lookup_path_range [OF tw pvt_root_in_range [OF wf] q(1)])
  have e: "0 < unat v" "unat v < length (propStrVec t)" "unat (parentIdVec t ! unat v) = unat q"
    using tree_wfD(6) [OF tw qn] q(2) by blast+
  then have v: "v \<noteq> 0" "parentIdVec t ! unat v = q" by (auto simp: word_unat_eq_iff)
  have hv: "value_hits t ds v \<noteq> 0" using snoc.prems(2) by simp
  have "p = [] \<or> value_hits t ds q \<noteq> 0"
  proof (cases "q = 0")
    case True
    then show ?thesis using lookup_path_nonzero [OF tw pvt_root_in_range [OF wf] q(1)] by blast
  next
    case False
    then show ?thesis using value_hits_mono [OF wf ok v(1) e(2)] v(2) hv by simp
  qed
  then have "live_path (childMapTable t) cs p 0 = Some q" using snoc.IH [OF q(1)] by blast
  moreover have "cs ! unat v \<noteq> 0" using counts_nonzero(2) [OF cs tot v(1) e(2)] hv by simp
  ultimately show ?case using q(2) by (simp add: live_path_snoc)
qed simp

lemma live_count_hits:
  assumes wf: "pvt_wf t" and ok: "docs_ok t ds" and cs: "counts_ok t ds cs" and tot: "total_values t ds < 2 ^ 32" and p: "path \<noteq> []"
  shows "live_count t cs path 0 = of_nat (path_hits t ds path)"
proof (cases "lookup_path (childMapTable t) path 0")
  case None
  then have "live_path (childMapTable t) cs path 0 = None" using live_path_lookup by (metis not_None_eq)
  then show ?thesis using hits_of_path(2) [OF wf ok None] by (simp add: live_count_def)
next
  case (Some v)
  note tw = pvt_wf_tree [OF wf]
  have v: "v \<noteq> 0" by (rule lookup_path_nonzero [OF tw pvt_root_in_range [OF wf] Some p])
  have vn: "unat v < length (propStrVec t)" by (rule lookup_path_range [OF tw pvt_root_in_range [OF wf] Some])
  note h = hits_of_path(1) [OF wf ok Some v] and c = counts_nonzero [OF cs tot v vn]
  show ?thesis
  proof (cases "value_hits t ds v = 0")
    case True
    have "live_count t cs path 0 = 0"
    proof (cases "live_path (childMapTable t) cs path 0")
      case (Some w)
      then have "w = v" using live_path_lookup \<open>lookup_path (childMapTable t) path 0 = Some v\<close> by (metis option.inject)
      then show ?thesis using Some c True by (simp add: live_count_def)
    qed (simp add: live_count_def)
    then show ?thesis using h True by simp
  next
    case False
    then show ?thesis using live_path_of_hits [OF wf ok cs tot Some] c h by (simp add: live_count_def)
  qed
qed

lemma counter_groups:
  assumes cmp: "is_compare cmp" and wf: "pvt_wf t" and ok: "docs_ok t ds" and tot: "total_values t ds < 2 ^ 32"
  shows "\<exists>c c' tr. sc_addDocs ds (sc_new t) = Some c \<and>
    sc_getGroupRep conv cmp c rep = Some (c', rep\<lparr>stringGroupRep := stringGroupRep rep @ flat_forest 0 [tr]\<rparr>) \<and>
    node_text tr = conv (propName t) \<and> tree_sorted cmp tr \<and> (\<forall>k. depth_le t 0 k \<longrightarrow> tree_height tr \<le> Suc k) \<and>
    tree_count [conv (propName t)] tr = of_nat (docs_with_value t ds) \<and>
    (\<forall>path. path \<noteq> [] \<longrightarrow> tree_count (conv (propName t) # path) tr = of_nat (path_hits t ds path))"
proof -
  obtain c cs where c: "sc_addDocs ds (sc_new t) = Some c" "addCountForParentId c = Some \<lparr>sc_table = t, sc_count = cs\<rparr>" "counts_ok t ds cs"
    using counts_spec [OF wf ok] unfolding counts_ok_def by blast
  have len: "length cs = length (propStrVec t)" using c(3) by (simp add: counts_ok_def)
  obtain tr :: "'a gtree" where tr: "appendGroupRep (length cs + 1) cmp t cs 0 (int 0) (conv (propName t)) = Some (flat_tree 0 tr)"
    "group_tree cmp t cs (conv (propName t), 0) tr"
    using append_tree [OF cmp wf len, of 0 "length cs + 1" 0 "conv (propName t)"] pvt_root_in_range [OF wf] len by auto
  have "tree_count [conv (propName t)] tr = of_nat (docs_with_value t ds)"
    using tr(2) c(3) by (simp add: group_tree_def live_count_def counts_ok_def)
  moreover have "tree_count (conv (propName t) # path) tr = of_nat (path_hits t ds path)" if "path \<noteq> []" for path
    using tr(2) live_count_hits [OF wf ok c(3) tot that] by (simp add: group_tree_def)
  moreover have "sc_getGroupRep conv cmp c rep =
      Some (\<lparr>sc_table = t, sc_count = cs\<rparr>, rep\<lparr>stringGroupRep := stringGroupRep rep @ flat_forest 0 [tr]\<rparr>)"
    using c(2) tr(1) by (simp add: sc_getGroupRep_def flat_forest_def del: appendGroupRep.simps)
  moreover have "node_text tr = conv (propName t)" "tree_sorted cmp tr" "\<forall>k. depth_le t 0 k \<longrightarrow> tree_height tr \<le> Suc k"
    using tr(2) by (simp_all add: group_tree_def)
  ultimately show ?thesis using c(1) by (intro exI conjI) blast+
qed


section \<open>Results of shards\<close>

text \<open>The groups of one shard: a new counter, its documents, the list of groups in an empty result.\<close>

definition shard_groups :: "(string \<Rightarrow> ustring) \<Rightarrow> (ustring \<Rightarrow> ustring \<Rightarrow> int) \<Rightarrow> prop_value_table \<Rightarrow> docid list \<Rightarrow> 'd :: zero group_rep option" where
  "shard_groups conv cmp t ds =
     Option.bind (sc_addDocs ds (sc_new t)) (\<lambda>c.
       map_option snd (sc_getGroupRep conv cmp c \<lparr>stringGroupRep = [], numericGroupRep = [], numericRangeGroupRep = []\<rparr>))"

definition shallow :: "prop_value_table \<Rightarrow> bool" where
  "shallow t \<longleftrightarrow> list_all (\<lambda>i. case propValuePath t (of_nat i) of None \<Rightarrow> True | Some p \<Rightarrow> length p \<le> 254) [0..<length (propStrVec t)]"

lemma shallow_depth: "pvt_wf t \<Longrightarrow> shallow t \<Longrightarrow> depth_le t 0 254"
  unfolding depth_le_def
proof (intro allI impI)
  fix path i assume t: "pvt_wf t" "shallow t" "lookup_path (childMapTable t) path 0 = Some i"
  have "unat i < length (propStrVec t)" by (rule lookup_path_range [OF pvt_wf_tree [OF t(1)] pvt_root_in_range [OF t(1)] t(3)])
  then have "unat i \<in> set [0..<length (propStrVec t)]" by simp
  then have "case propValuePath t (of_nat (unat i)) of None \<Rightarrow> True | Some p \<Rightarrow> length p \<le> 254"
    using t(2) unfolding shallow_def list_all_iff by blast
  then show "length path \<le> 254" using id_of_path [OF t(1,3)] by simp
qed

lemma shard_groups_tree:
  assumes "is_compare cmp" "pvt_wf t" "docs_ok t ds" "total_values t ds < 2 ^ 32" "shallow t"
  shows "\<exists>(rep :: 'd :: zero group_rep) tr. shard_groups conv cmp t ds = Some rep \<and> stringGroupRep rep = flat_forest 0 [tr] \<and>
    node_text tr = conv (propName t) \<and> forest_sorted cmp [tr] \<and> forest_height [tr] \<le> 255 \<and>
    forest_count [conv (propName t)] [tr] = of_nat (docs_with_value t ds) \<and>
    (\<forall>path. path \<noteq> [] \<longrightarrow> forest_count (conv (propName t) # path) [tr] = of_nat (path_hits t ds path))"
proof -
  let ?e = "\<lparr>stringGroupRep = [], numericGroupRep = [], numericRangeGroupRep = []\<rparr> :: 'd group_rep"
  obtain c c' tr where c: "sc_addDocs ds (sc_new t) = Some c"
    "sc_getGroupRep conv cmp c ?e = Some (c', ?e\<lparr>stringGroupRep := stringGroupRep ?e @ flat_forest 0 [tr]\<rparr>)"
    "node_text tr = conv (propName t)" "tree_sorted cmp tr" "\<forall>k. depth_le t 0 k \<longrightarrow> tree_height tr \<le> Suc k"
    "tree_count [conv (propName t)] tr = of_nat (docs_with_value t ds)"
    "\<forall>path. path \<noteq> [] \<longrightarrow> tree_count (conv (propName t) # path) tr = of_nat (path_hits t ds path)"
    using counter_groups [OF assms(1-4), of conv ?e] by blast
  have "tree_height tr \<le> 255" using c(5) shallow_depth [OF assms(2,5)] by fastforce
  then have "forest_height [tr] \<le> 255" "forest_sorted cmp [tr]" using c(4) by (simp_all add: forest_height_def forest_sorted_def)
  moreover have "shard_groups conv cmp t ds = Some (?e\<lparr>stringGroupRep := flat_forest 0 [tr]\<rparr>)"
    using c(1,2) by (simp add: shard_groups_def)
  ultimately show ?thesis using c(3,6,7)
    by (intro exI [of _ "?e\<lparr>stringGroupRep := flat_forest 0 [tr]\<rparr>"] exI [of _ tr]) (simp add: forest_count_def)
qed


section \<open>Properties\<close>

text \<open>C17: Counting a set of documents with a new counter and asking for the groups succeeds and appends, in preorder, a
tree sorted at every node whose root is the property with the number of documents that have a value; the count at a
path is the number of the documents' values whose path starts with it, and paths without values are absent.
\<close>

theorem string_counter_groups:
  assumes "is_compare cmp" "pvt_wf t" "docs_ok t ds" "total_values t ds < 2 ^ 32"
  shows "\<exists>c c' tr. sc_addDocs ds (sc_new t) = Some c \<and>
    sc_getGroupRep conv cmp c rep = Some (c', rep\<lparr>stringGroupRep := stringGroupRep rep @ flat_forest 0 [tr]\<rparr>) \<and>
    node_text tr = conv (propName t) \<and> tree_sorted cmp tr \<and>
    tree_count [conv (propName t)] tr = of_nat (docs_with_value t ds) \<and>
    (\<forall>path. path \<noteq> [] \<longrightarrow> tree_count (conv (propName t) # path) tr = of_nat (path_hits t ds path))"
  using counter_groups [OF assms, of conv rep] by blast

text \<open>C11: Two shards with tables of their own (of at most 254 levels) for the same property: merging the groups of their
documents gives a sorted forest whose counts are the sums over both shards, path by path.
\<close>

theorem shard_groups_merge:
  assumes "is_compare cmp" "pvt_wf t1" "docs_ok t1 ds1" "total_values t1 ds1 < 2 ^ 32" "shallow t1"
    and "pvt_wf t2" "docs_ok t2 ds2" "total_values t2 ds2 < 2 ^ 32" "shallow t2" "propName t2 = propName t1"
  shows "\<exists>(r1 :: 'd :: zero group_rep) r2 h. shard_groups conv cmp t1 ds1 = Some r1 \<and> shard_groups conv cmp t2 ds2 = Some r2 \<and>
    stringGroupRep (fst (mergeStringGroup cmp r1 r2)) = flat_forest 0 h \<and> forest_sorted cmp h \<and>
    forest_count [conv (propName t1)] h = of_nat (docs_with_value t1 ds1 + docs_with_value t2 ds2) \<and>
    (\<forall>path. path \<noteq> [] \<longrightarrow> forest_count (conv (propName t1) # path) h = of_nat (path_hits t1 ds1 path + path_hits t2 ds2 path))"
proof -
  obtain r1 :: "'d group_rep" and f where f: "shard_groups conv cmp t1 ds1 = Some r1" "stringGroupRep r1 = flat_forest 0 [f]"
    "forest_sorted cmp [f]" "forest_height [f] \<le> 255" "forest_count [conv (propName t1)] [f] = of_nat (docs_with_value t1 ds1)"
    "\<forall>path. path \<noteq> [] \<longrightarrow> forest_count (conv (propName t1) # path) [f] = of_nat (path_hits t1 ds1 path)"
    using shard_groups_tree [OF assms(1-5), of conv] by blast
  obtain r2 :: "'d group_rep" and g where g: "shard_groups conv cmp t2 ds2 = Some r2" "stringGroupRep r2 = flat_forest 0 [g]"
    "forest_sorted cmp [g]" "forest_height [g] \<le> 255" "forest_count [conv (propName t1)] [g] = of_nat (docs_with_value t2 ds2)"
    "\<forall>path. path \<noteq> [] \<longrightarrow> forest_count (conv (propName t1) # path) [g] = of_nat (path_hits t2 ds2 path)"
    using shard_groups_tree [OF assms(1,6-9), of conv] assms(10) by (metis (no_types, lifting))
  obtain h where h: "stringGroupRep (fst (mergeStringGroup cmp r1 r2)) = flat_forest 0 h" "forest_sorted cmp h"
    "\<forall>path. forest_count path h = forest_count path [f] + forest_count path [g]"
    using mergeStringGroup_flat [OF assms(1) f(3) g(3) f(4) g(4) f(2) g(2)] by blast
  show ?thesis
  proof (intro exI conjI allI impI)
    show "shard_groups conv cmp t1 ds1 = Some r1" "shard_groups conv cmp t2 ds2 = Some r2"
      "stringGroupRep (fst (mergeStringGroup cmp r1 r2)) = flat_forest 0 h" "forest_sorted cmp h" by (rule f(1) g(1) h(1,2))+
    show "forest_count [conv (propName t1)] h = of_nat (docs_with_value t1 ds1 + docs_with_value t2 ds2)"
      using h(3) f(5) g(5) by simp
    show "forest_count (conv (propName t1) # path) h = of_nat (path_hits t1 ds1 path + path_hits t2 ds2 path)" if "path \<noteq> []" for path
      using h(3) f(6) g(6) that by simp
  qed
qed


text \<open>A table with the values a > b and a > c, which document 1 both has.\<close>

definition sample_table :: prop_value_table where
  "sample_table = snd (setPropIdList 1 [2, 3]
     (snd (insertPropValueId [ustr ''a'', ustr ''c''] (snd (insertPropValueId [ustr ''a'', ustr ''b''] (pvt_init ''d'' ''p''))))))"

lemma sample_table_eq:
  "sample_table = \<lparr>dirPath = ''d'', propName = ''p'', propStrVec = [[], ustr ''a'', ustr ''b'', ustr ''c''], savePropStrNum = 0,
     parentIdVec = [0, 0, 1, 1], saveParentIdNum = 0,
     childMapTable = [[ustr ''a'' \<mapsto> 1], [ustr ''b'' \<mapsto> 2, ustr ''c'' \<mapsto> 3], Map.empty, Map.empty],
     valueIdTable = \<lparr>indexTable = [0, INDEX_MSB], multiValueTable = [2, 2, 3]\<rparr>, saveIndexNum = 0, saveValueNum = 0\<rparr>"
  by (simp add: sample_table_def setPropIdList_def insertPropValueId_def pvt_init_def Let_def pid_setIdList_def pid_init_def
      vec_resize_def word_le_nat_alt fun_upd_def fun_eq_iff ustr_def INDEX_MSB_def)

lemma sample_table_wf: "pvt_wf sample_table"
proof -
  let ?i = "\<lambda>p t. snd (insertPropValueId p t)"
  have "pvt_wf (?i p t)" if "pvt_wf t" for p t
    using insert_path_correct [OF that pvt_root_in_range [OF that], of p] by (auto simp: insertPropValueId_def split: prod.splits)
  then have "pvt_wf (?i [ustr ''a'', ustr ''c''] (?i [ustr ''a'', ustr ''b''] (pvt_init ''d'' ''p'')))" using pvt_init_wf by blast
  then show ?thesis unfolding sample_table_def
    by (auto simp: setPropIdList_def pvt_wf_def pid_fits_def case_prod_beta intro!: pid_setIdList_wf)
qed

lemma sample_ids: "ids_of sample_table 1 = [2, 3]"
  by (simp add: ids_of_def pid_ids_def sample_table_eq pid_getIdList_def prop_id_list_init_def prop_id_list_clear_def
      prop_id_list_at_def INDEX_MSB_def INDEX_MASK_def upt_rec)

lemma sample_paths: "propValuePath sample_table 1 = Some [ustr ''a'']" "propValuePath sample_table 2 = Some [ustr ''a'', ustr ''b'']"
  "propValuePath sample_table 3 = Some [ustr ''a'', ustr ''c'']"
  by (simp_all add: sample_table_eq propValuePath_def parent_walk.simps propValueStr_def)

lemma sample_len: "length (propStrVec sample_table) = 4" "propName sample_table = ''p''"
  by (simp_all add: sample_table_eq)

lemma sample_ok: "docs_ok sample_table [1]" "total_values sample_table [1] < 2 ^ 32" "docs_with_value sample_table [1] = 1"
  by (simp_all add: docs_ok_def total_values_def sample_ids docs_with_value_def sample_len)

lemma sample_shallow: "shallow sample_table"
proof -
  have "[0..<4] = [0, 1, 2, 3 :: nat]" by (simp add: upt_conv_Cons)
  then show ?thesis by (simp add: shallow_def sample_len sample_paths propValuePath_0)
qed

lemma sample_hits: "path_hits sample_table [1] [ustr ''a''] = 2" "path_hits sample_table [1] [ustr ''a'', ustr ''b''] = 1"
  by (simp_all add: path_hits_def sample_ids has_prefix_def sample_paths ustr_def)

text \<open>One document, but the count 2 at the value a: its two values below a are both counted.\<close>

theorem string_counter_groups_witness:
  "\<exists>c c' tr. sc_addDocs [1] (sc_new sample_table) = Some c \<and>
     sc_getGroupRep ustr lex_compare c no_groups = Some (c', no_groups\<lparr>stringGroupRep := flat_forest 0 [tr]\<rparr>) \<and>
     tree_count [ustr ''p''] tr = 1 \<and> tree_count [ustr ''p'', ustr ''a''] tr = 2 \<and> tree_count [ustr ''p'', ustr ''a'', ustr ''b''] tr = 1"
proof -
  obtain c c' tr where r: "sc_addDocs [1] (sc_new sample_table) = Some c"
    "sc_getGroupRep ustr lex_compare c no_groups = Some (c', no_groups\<lparr>stringGroupRep := stringGroupRep no_groups @ flat_forest 0 [tr]\<rparr>)"
    "tree_count [ustr ''p''] tr = of_nat (docs_with_value sample_table [1])"
    "\<forall>path. path \<noteq> [] \<longrightarrow> tree_count (ustr ''p'' # path) tr = of_nat (path_hits sample_table [1] path)"
    using string_counter_groups [OF is_compare_lex sample_table_wf sample_ok(1,2), of ustr no_groups] unfolding sample_len by blast
  have "stringGroupRep no_groups = []" by (simp add: no_groups_def)
  then show ?thesis using r sample_ok(3) sample_hits by (intro exI [of _ c] exI [of _ c'] exI [of _ tr]) simp
qed

theorem shard_groups_merge_witness:
  "\<exists>(r1 :: nat group_rep) r2 h. shard_groups ustr lex_compare sample_table [1] = Some r1 \<and> shard_groups ustr lex_compare sample_table [1, 1] = Some r2 \<and>
     stringGroupRep (fst (mergeStringGroup lex_compare r1 r2)) = flat_forest 0 h \<and> forest_count [ustr ''p''] h = 3 \<and>
     forest_count [ustr ''p'', ustr ''a'', ustr ''b''] h = 3"
proof -
  have two: "docs_ok sample_table [1, 1]" "total_values sample_table [1, 1] < 2 ^ 32" "docs_with_value sample_table [1, 1] = 2"
    "path_hits sample_table [1, 1] [ustr ''a'', ustr ''b''] = 2"
    by (simp_all add: docs_ok_def total_values_def sample_ids docs_with_value_def sample_len path_hits_def has_prefix_def sample_paths ustr_def)
  obtain r1 :: "nat group_rep" and r2 h where "shard_groups ustr lex_compare sample_table [1] = Some r1"
    "shard_groups ustr lex_compare sample_table [1, 1] = Some r2"
    "stringGroupRep (fst (mergeStringGroup lex_compare r1 r2)) = flat_forest 0 h"
    "forest_count [ustr ''p''] h = of_nat (docs_with_value sample_table [1] + docs_with_value sample_table [1, 1])"
    "\<forall>path. path \<noteq> [] \<longrightarrow> forest_count (ustr ''p'' # path) h = of_nat (path_hits sample_table [1] path + path_hits sample_table [1, 1] path)"
    using shard_groups_merge [OF is_compare_lex sample_table_wf sample_ok(1,2) sample_shallow sample_table_wf two(1,2) sample_shallow refl,
        of ustr] unfolding sample_len by blast
  then show ?thesis using sample_ok(3) sample_hits two by (intro exI [of _ r1] exI [of _ r2] exI [of _ h]) simp
qed

end
