(* ===== verification/Value_Counter.thy ===== *)
theory Value_Counter
  imports Ordered_Map String_Facets Date_Group Group_Range
begin

text \<open>
  The counters of dates and of numbers (core/mining-manager/group-manager: DateGroupCounter.h, NumericGroupCounter.h), plain and
  with a counter of a second property for every value. The counts are kept in a \<open>std::map\<close>. Numbers of type \<open>double\<close> are elements
  of a linear order (no NaN); reading the numeric property of a document, \<open>getDoubleValue\<close>, is a field of the counter, and
  \<open>fmt\<close> is \<open>formatNumericToUStr\<close>, the printing of a number with two decimals. The lists are built once at the end of a
  search, so the state that \<open>getStringRep\<close> leaves in a counter of the second property is not kept.
\<close>

section \<open>Dates\<close>

record date_counter =
  dc_table :: date_group_table
  dc_mask :: u32
  dc_count :: "(date_t \<times> u32) list"
  dc_total :: u32

definition dc_new :: "date_group_table \<Rightarrow> u32 \<Rightarrow> date_counter" where
  "dc_new t m = \<lparr>dc_table = t, dc_mask = m, dc_count = [], dc_total = 0\<rparr>"

definition dc_addDoc :: "docid \<Rightarrow> date_counter \<Rightarrow> date_counter option" where
  "dc_addDoc doc c =
     map_option (\<lambda>dateSet. c\<lparr>dc_count := fold map_bump (sorted_list_of_set dateSet) (dc_count c),
         dc_total := (if dateSet = {} then dc_total c else dc_total c + 1)\<rparr>)
       (getDateSet (dc_table c) doc (dc_mask c))"

definition dc_getStringRep :: "date_boost \<Rightarrow> (string \<Rightarrow> ustring) \<Rightarrow> int \<Rightarrow> date_counter \<Rightarrow> 'd :: zero rep_item list" where
  "dc_getStringRep db conv level c = map (\<lambda>(date, n). make_item level (conv (dateToAPIStr db date)) 0 n) (dc_count c)"

definition dc_getGroupRep :: "date_boost \<Rightarrow> (string \<Rightarrow> ustring) \<Rightarrow> date_counter \<Rightarrow> 'd :: zero group_rep \<Rightarrow> 'd group_rep" where
  "dc_getGroupRep db conv c rep =
     rep\<lparr>stringGroupRep := stringGroupRep rep @
       make_item 0 (conv (dg_propName (dc_table c))) 0 (dc_total c) # dc_getStringRep db conv 1 c\<rparr>"

text \<open>
  The counters with a second property: an entry is a count and a counter, a new entry a copy of the initial counter with count 0.
\<close>

fun sub_bump :: "('s, 'd) counter_ops \<Rightarrow> docid \<Rightarrow> 's \<Rightarrow> 'k :: linorder list \<Rightarrow> ('k \<times> u32 \<times> 's) list \<Rightarrow> ('k \<times> u32 \<times> 's) list option" where
  "sub_bump ops doc sub [] m = Some m"
| "sub_bump ops doc sub (k # ks) m =
     (let (n, s) = map_get (0, sub) k m in
      Option.bind (co_addDoc ops doc s) (\<lambda>s'. sub_bump ops doc sub ks (map_put k (n + 1, s') m)))"

text \<open>The items of the entries, each followed by those of its counter.\<close>

fun sub_items :: "('s, 'd :: zero) counter_ops \<Rightarrow> ('k \<Rightarrow> ustring) \<Rightarrow> int \<Rightarrow> ('k \<times> u32 \<times> 's) list \<Rightarrow> 'd rep_item list option" where
  "sub_items ops txt level [] = Some []"
| "sub_items ops txt level ((k, n, s) # m) =
     Option.bind (co_getStringRep ops (level + 1) s) (\<lambda>items.
       map_option (\<lambda>rest. make_item level (txt k) 0 n # items @ rest) (sub_items ops txt level m))"

record 's date_sub_counter =
  dsc_table :: date_group_table
  dsc_mask :: u32
  dsc_count :: "(date_t \<times> u32 \<times> 's) list"
  dsc_total :: u32
  dsc_sub :: 's

definition dsc_new :: "date_group_table \<Rightarrow> u32 \<Rightarrow> 's \<Rightarrow> 's date_sub_counter" where
  "dsc_new t m sub = \<lparr>dsc_table = t, dsc_mask = m, dsc_count = [], dsc_total = 0, dsc_sub = sub\<rparr>"

definition dsc_addDoc :: "('s, 'd) counter_ops \<Rightarrow> docid \<Rightarrow> 's date_sub_counter \<Rightarrow> 's date_sub_counter option" where
  "dsc_addDoc ops doc c =
     Option.bind (getDateSet (dsc_table c) doc (dsc_mask c)) (\<lambda>dateSet.
       map_option (\<lambda>m. c\<lparr>dsc_count := m, dsc_total := (if dateSet = {} then dsc_total c else dsc_total c + 1)\<rparr>)
         (sub_bump ops doc (dsc_sub c) (sorted_list_of_set dateSet) (dsc_count c)))"

definition dsc_getStringRep :: "('s, 'd :: zero) counter_ops \<Rightarrow> date_boost \<Rightarrow> (string \<Rightarrow> ustring) \<Rightarrow> int \<Rightarrow> 's date_sub_counter \<Rightarrow>
    'd rep_item list option" where
  "dsc_getStringRep ops db conv level c = sub_items ops (\<lambda>date. conv (dateToAPIStr db date)) level (dsc_count c)"

definition dsc_getGroupRep :: "('s, 'd :: zero) counter_ops \<Rightarrow> date_boost \<Rightarrow> (string \<Rightarrow> ustring) \<Rightarrow> 's date_sub_counter \<Rightarrow>
    'd group_rep \<Rightarrow> 'd group_rep option" where
  "dsc_getGroupRep ops db conv c rep =
     map_option (\<lambda>items. rep\<lparr>stringGroupRep := stringGroupRep rep @
         make_item 0 (conv (dg_propName (dsc_table c))) 0 (dsc_total c) # items\<rparr>)
       (dsc_getStringRep ops db conv 1 c)"

section \<open>Numbers\<close>

record 'd numeric_counter =
  nc_property :: string
  nc_getDoubleValue :: "docid \<Rightarrow> 'd option"
  nc_count :: "('d \<times> u32) list"

definition nc_new :: "string \<Rightarrow> (docid \<Rightarrow> 'd option) \<Rightarrow> 'd numeric_counter" where
  "nc_new prop val = \<lparr>nc_property = prop, nc_getDoubleValue = val, nc_count = []\<rparr>"

definition nc_addDoc :: "docid \<Rightarrow> 'd :: linorder numeric_counter \<Rightarrow> 'd numeric_counter" where
  "nc_addDoc doc c =
     (case nc_getDoubleValue c doc of
        None \<Rightarrow> c
      | Some value \<Rightarrow> c\<lparr>nc_count := map_bump value (nc_count c)\<rparr>)"

definition nc_getGroupRep :: "'d numeric_counter \<Rightarrow> 'd group_rep \<Rightarrow> 'd group_rep" where
  "nc_getGroupRep c rep = rep\<lparr>numericGroupRep := numericGroupRep rep @ [(nc_property c, nc_count c)]\<rparr>"

definition nc_getStringRep :: "('d \<Rightarrow> ustring) \<Rightarrow> int \<Rightarrow> 'd :: zero numeric_counter \<Rightarrow> 'd rep_item list" where
  "nc_getStringRep fmt level c = map (\<lambda>(value, n). make_item level (fmt value) 0 n) (nc_count c)"

record ('d, 's) numeric_sub_counter =
  nsc_property :: string
  nsc_getDoubleValue :: "docid \<Rightarrow> 'd option"
  nsc_count :: "('d \<times> u32 \<times> 's) list"
  nsc_sub :: 's

definition nsc_new :: "string \<Rightarrow> (docid \<Rightarrow> 'd option) \<Rightarrow> 's \<Rightarrow> ('d, 's) numeric_sub_counter" where
  "nsc_new prop val sub = \<lparr>nsc_property = prop, nsc_getDoubleValue = val, nsc_count = [], nsc_sub = sub\<rparr>"

definition nsc_addDoc :: "('s, 'd) counter_ops \<Rightarrow> docid \<Rightarrow> ('d :: linorder, 's) numeric_sub_counter \<Rightarrow>
    ('d, 's) numeric_sub_counter option" where
  "nsc_addDoc ops doc c =
     (case nsc_getDoubleValue c doc of
        None \<Rightarrow> Some c
      | Some value \<Rightarrow> map_option (\<lambda>m. c\<lparr>nsc_count := m\<rparr>) (sub_bump ops doc (nsc_sub c) [value] (nsc_count c)))"

definition nsc_getGroupRep :: "('s, 'd :: zero) counter_ops \<Rightarrow> (string \<Rightarrow> ustring) \<Rightarrow> ('d \<Rightarrow> ustring) \<Rightarrow> ('d, 's) numeric_sub_counter \<Rightarrow>
    'd group_rep \<Rightarrow> 'd group_rep option" where
  "nsc_getGroupRep ops conv fmt c rep =
     map_option (\<lambda>items. rep\<lparr>stringGroupRep := stringGroupRep rep @
         make_item 0 (conv (nsc_property c)) 0 (sum_list (map (\<lambda>(_, n, _). n) (nsc_count c))) # items\<rparr>)
       (sub_items ops fmt 1 (nsc_count c))"

definition nsc_getStringRep :: "('s, 'd :: zero) counter_ops \<Rightarrow> ('d \<Rightarrow> ustring) \<Rightarrow> int \<Rightarrow> ('d, 's) numeric_sub_counter \<Rightarrow>
    'd rep_item list option" where
  "nsc_getStringRep ops fmt level c = sub_items ops fmt level (nsc_count c)"

section \<open>What the tables of counts hold\<close>

text \<open>How many of the documents have a value, where \<open>D\<close> gives the values of a document.\<close>

definition hits :: "('a \<Rightarrow> 'k set) \<Rightarrow> 'a list \<Rightarrow> 'k \<Rightarrow> nat" where
  "hits D ds k = length (filter (\<lambda>d. k \<in> D d) ds)"

lemma count_list_distinct: "distinct xs \<Longrightarrow> count_list xs k = (if k \<in> set xs then 1 else 0)"
  by (induction xs) auto

lemma count_list_hits: "\<forall>d\<in>set ds. finite (D d) \<Longrightarrow> count_list (concat (map (\<lambda>d. sorted_list_of_set (D d)) ds)) k = hits D ds k"
proof (induction ds)
  case (Cons d ds)
  have "count_list (sorted_list_of_set (D d)) k = (if k \<in> D d then 1 else 0)"
    using Cons.prems by (simp add: count_list_distinct)
  then show ?case using Cons by (simp add: hits_def count_list_append)
qed (simp add: hits_def)

lemma tally_hits:
  assumes "\<forall>d\<in>set ds. finite (D d)"
  shows "(tally (concat (map (\<lambda>d. sorted_list_of_set (D d)) ds)) :: ('k :: linorder \<times> 'n :: semiring_1) list) =
    map (\<lambda>k. (k, of_nat (hits D ds k))) (sorted_list_of_set (\<Union>d\<in>set ds. D d))"
proof (rule keys_ordered_map [OF tally_spec(1), where d = 0])
  show "fst ` set (tally (concat (map (\<lambda>d. sorted_list_of_set (D d)) ds)) :: ('k \<times> 'n) list) = (\<Union>d\<in>set ds. D d)"
    unfolding tally_spec using assms by auto
qed (simp add: tally_spec count_list_hits [OF assms])

lemma dc_addDocs:
  assumes "list_all (\<lambda>d. getDateSet t d m = Some (D d)) ds"
  shows "add_list dc_addDoc ds (dc_new t m) =
    Some \<lparr>dc_table = t, dc_mask = m, dc_count = tally (concat (map (\<lambda>d. sorted_list_of_set (D d)) ds)),
      dc_total = of_nat (length (filter (\<lambda>d. D d \<noteq> {}) ds))\<rparr>"
  using assms
proof (induction ds rule: rev_induct)
  case (snoc d ds)
  then show ?case by (simp add: add_list_append dc_addDoc_def tally_append)
qed (simp add: dc_new_def tally_def)

text \<open>
  Counters with a second property, for any way to compute the values of a document: one round adds a document to the entries of its
  values.
\<close>

lemma sub_bump_spec:
  assumes "distinct ks" "keys_ordered m" "\<forall>k\<in>set ks. co_addDoc ops doc (snd (map_get (0, sub) k m)) = Some (f k)"
  shows "\<exists>m'. sub_bump ops doc sub ks m = Some m' \<and> keys_ordered m' \<and> fst ` set m' = set ks \<union> fst ` set m \<and>
    (\<forall>k. map_get (0, sub) k m' = (if k \<in> set ks then (fst (map_get (0, sub) k m) + 1, f k) else map_get (0, sub) k m))"
  using assms
proof (induction ks arbitrary: m)
  case (Cons k ks)
  let ?m = "map_put k (fst (map_get (0, sub) k m) + 1, f k) m"
  have "\<forall>j\<in>set ks. co_addDoc ops doc (snd (map_get (0, sub) j ?m)) = Some (f j)" using Cons.prems by auto
  then obtain m' where m': "sub_bump ops doc sub ks ?m = Some m'" "keys_ordered m'" "fst ` set m' = set ks \<union> fst ` set ?m"
    "\<forall>j. map_get (0, sub) j m' = (if j \<in> set ks then (fst (map_get (0, sub) j ?m) + 1, f j) else map_get (0, sub) j ?m)"
    using Cons.IH [of ?m] Cons.prems(1,2) by auto
  have "sub_bump ops doc sub (k # ks) m = Some m'" using Cons.prems(3) m'(1) by (simp add: case_prod_beta)
  then show ?case using m' Cons.prems(1,2) by (intro exI [of _ m']) (auto simp: set_map_put)
qed simp

fun sub_bumps :: "('s, 'd) counter_ops \<Rightarrow> 's \<Rightarrow> (docid \<Rightarrow> 'k :: linorder set) \<Rightarrow> docid list \<Rightarrow> ('k \<times> u32 \<times> 's) list \<Rightarrow>
    ('k \<times> u32 \<times> 's) list option" where
  "sub_bumps ops sub D [] m = Some m"
| "sub_bumps ops sub D (d # ds) m = Option.bind (sub_bump ops d sub (sorted_list_of_set (D d)) m) (sub_bumps ops sub D ds)"

lemma sub_bumps_append: "sub_bumps ops sub D (ds @ es) m = Option.bind (sub_bumps ops sub D ds m) (sub_bumps ops sub D es)"
  by (induction ds arbitrary: m) (auto split: Option.bind_split)

text \<open>The counter of the second property for a value receives the documents that have the value.\<close>

definition sub_of :: "('s, 'd) counter_ops \<Rightarrow> 's \<Rightarrow> (docid \<Rightarrow> 'k set) \<Rightarrow> docid list \<Rightarrow> 'k \<Rightarrow> 's option" where
  "sub_of ops sub D ds k = add_list (co_addDoc ops) (filter (\<lambda>d. k \<in> D d) ds) sub"

lemma sub_of_snoc: "sub_of ops sub D (ds @ [d]) k =
    Option.bind (sub_of ops sub D ds k) (\<lambda>s. if k \<in> D d then co_addDoc ops d s else Some s)"
  by (auto simp: sub_of_def add_list_append split: Option.bind_split)

lemma sub_bumps_spec:
  assumes "\<forall>d\<in>set ds. finite (D d)" "\<forall>k. sub_of ops sub D ds k = Some (f k)"
  shows "sub_bumps ops sub D ds [] = Some (map (\<lambda>k. (k, of_nat (hits D ds k), f k)) (sorted_list_of_set (\<Union>d\<in>set ds. D d)))"
proof -
  have "\<exists>m. sub_bumps ops sub D ds [] = Some m \<and> keys_ordered m \<and> fst ` set m = (\<Union>d\<in>set ds. D d) \<and>
      (\<forall>k. map_get (0, sub) k m = (of_nat (hits D ds k), f k))"
    using assms
  proof (induction ds arbitrary: f rule: rev_induct)
    case Nil
    then show ?case by (simp add: map_get_def hits_def sub_of_def)
  next
    case (snoc d ds)
    have "\<exists>g. sub_of ops sub D ds k = Some g \<and> (if k \<in> D d then co_addDoc ops d g = Some (f k) else g = f k)" for k
      using snoc.prems(2) [rule_format, of k] unfolding sub_of_snoc by (auto simp: bind_eq_Some_conv split: if_splits)
    then obtain g where g: "\<forall>k. sub_of ops sub D ds k = Some (g k)" "\<And>k. if k \<in> D d then co_addDoc ops d (g k) = Some (f k) else g k = f k"
      by metis
    obtain m where m: "sub_bumps ops sub D ds [] = Some m" "keys_ordered m" "fst ` set m = (\<Union>d\<in>set ds. D d)"
      "\<forall>k. map_get (0, sub) k m = (of_nat (hits D ds k), g k)" using snoc.IH [OF _ g(1)] snoc.prems(1) by auto
    have fin: "finite (D d)" using snoc.prems(1) by simp
    have "\<forall>k\<in>set (sorted_list_of_set (D d)). co_addDoc ops d (snd (map_get (0, sub) k m)) = Some (f k)"
      using g(2) m(4) fin by auto
    then obtain m' where "sub_bump ops d sub (sorted_list_of_set (D d)) m = Some m'" "keys_ordered m'"
      "fst ` set m' = D d \<union> fst ` set m"
      "\<forall>k. map_get (0, sub) k m' = (if k \<in> D d then (fst (map_get (0, sub) k m) + 1, f k) else map_get (0, sub) k m)"
      using sub_bump_spec [OF _ m(2), of "sorted_list_of_set (D d)" ops d sub f] fin by auto
    then show ?case using m g(2) by (intro exI [of _ m']) (auto simp: sub_bumps_append hits_def)
  qed
  then obtain m where m: "sub_bumps ops sub D ds [] = Some m" "keys_ordered m" "fst ` set m = (\<Union>d\<in>set ds. D d)"
    "\<forall>k. map_get (0, sub) k m = (of_nat (hits D ds k), f k)" by blast
  show ?thesis unfolding m(1) using m by (intro arg_cong [of _ _ Some] keys_ordered_map [where d = "(0, sub)"]) simp_all
qed

lemma dsc_addDocs:
  assumes "list_all (\<lambda>d. getDateSet t d m = Some (D d)) ds" "sub_bumps ops sub D ds [] = Some cs"
  shows "add_list (dsc_addDoc ops) ds (dsc_new t m sub) =
    Some \<lparr>dsc_table = t, dsc_mask = m, dsc_count = cs, dsc_total = of_nat (length (filter (\<lambda>d. D d \<noteq> {}) ds)), dsc_sub = sub\<rparr>"
  using assms
proof (induction ds arbitrary: cs rule: rev_induct)
  case (snoc d ds)
  then obtain y where "sub_bumps ops sub D ds [] = Some y" "sub_bump ops d sub (sorted_list_of_set (D d)) y = Some cs"
    by (auto simp: sub_bumps_append bind_eq_Some_conv)
  moreover from this have "add_list (dsc_addDoc ops) ds (dsc_new t m sub) =
      Some \<lparr>dsc_table = t, dsc_mask = m, dsc_count = y, dsc_total = of_nat (length (filter (\<lambda>d. D d \<noteq> {}) ds)), dsc_sub = sub\<rparr>"
    using snoc.IH snoc.prems(1) by simp
  ultimately show ?case using snoc.prems(1) by (simp add: add_list_append) (auto simp: dsc_addDoc_def)
qed (simp add: dsc_new_def)

lemma nc_addDocs: "fold nc_addDoc ds (nc_new prop val) =
    \<lparr>nc_property = prop, nc_getDoubleValue = val, nc_count = tally (List.map_filter val ds)\<rparr>"
proof (induction ds rule: rev_induct)
  case (snoc d ds)
  let ?c = "\<lparr>nc_property = prop, nc_getDoubleValue = val, nc_count = tally (List.map_filter val ds)\<rparr>"
  have "fold nc_addDoc (ds @ [d]) (nc_new prop val) = nc_addDoc d ?c" using snoc by simp
  moreover have "List.map_filter val (ds @ [d]) = List.map_filter val ds @ (case val d of None \<Rightarrow> [] | Some v \<Rightarrow> [v])"
    by (cases "val d") (simp_all add: map_filter_def)
  moreover have "nc_addDoc d ?c = ?c\<lparr>nc_count := fold map_bump (case val d of None \<Rightarrow> [] | Some v \<Rightarrow> [v]) (nc_count ?c)\<rparr>"
    by (cases "val d") (simp_all add: nc_addDoc_def)
  ultimately show ?case by (simp only: tally_append numeric_counter.simps)
qed (simp add: nc_new_def tally_def map_filter_simps)

lemma nsc_addDocs:
  assumes "sub_bumps ops sub (\<lambda>d. set_option (val d)) ds [] = Some cs"
  shows "add_list (nsc_addDoc ops) ds (nsc_new prop val sub) =
    Some \<lparr>nsc_property = prop, nsc_getDoubleValue = val, nsc_count = cs, nsc_sub = sub\<rparr>"
  using assms
proof (induction ds arbitrary: cs rule: rev_induct)
  case (snoc d ds)
  then obtain y where y: "sub_bumps ops sub (\<lambda>d. set_option (val d)) ds [] = Some y"
    "sub_bump ops d sub (sorted_list_of_set (set_option (val d))) y = Some cs"
    by (auto simp: sub_bumps_append bind_eq_Some_conv)
  show ?case using snoc.IH [OF y(1)] y(2) by (cases "val d") (simp_all add: add_list_append nsc_addDoc_def)
qed (simp add: nsc_new_def)

lemma num_count_get: "keys_ordered m \<Longrightarrow> num_count k m = map_get 0 k m"
proof (induction m)
  case (Cons x m)
  obtain a b where x: "x = (a, b)" by fastforce
  have "filter (\<lambda>x. fst x = a) m = []" using Cons.prems x by (auto simp: keys_ordered_Cons filter_empty_conv)
  then show ?case using Cons x by (auto simp: num_count_def map_get_def keys_ordered_Cons)
qed (simp add: num_count_def map_get_def)

lemma merge_tally: "merge_numeric_list (tally ks) (tally js) = tally (ks @ js)"
proof (rule tally_eqI)
  have s: "num_sorted (tally ks :: ('a \<times> u32) list)" for ks :: "'a :: linorder list"
    using tally_spec(1) by (simp add: num_sorted_def keys_ordered_def)
  note m = merge_numeric_sorted [OF s s, of ks js]
  then show o: "keys_ordered (merge_numeric_list (tally ks) (tally js))" by (simp add: num_sorted_def keys_ordered_def)
  show "fst ` set (merge_numeric_list (tally ks) (tally js)) = set (ks @ js)" using m by (simp add: tally_spec)
  show "map_get 0 k (merge_numeric_list (tally ks) (tally js)) = of_nat (count_list (ks @ js) k)" for k
    using merge_numeric_count [of k "tally ks" "tally js"]
    by (simp add: num_count_get [OF o] num_count_get [OF tally_spec(1)] tally_spec(3) count_list_append)
qed

section \<open>Properties\<close>

text \<open>Dates: after adding documents whose dates can be read, the groups of a date property are the root with the number of
documents that have a date, and below it, in ascending order, one group for every date (cut to the unit of the request)
with the number of documents that have it.
\<close>

theorem date_counter_groups:
  assumes "list_all (\<lambda>d. getDateSet t d m = Some (D d)) ds"
  shows "\<exists>c. add_list dc_addDoc ds (dc_new t m) = Some c \<and>
    stringGroupRep (dc_getGroupRep db conv c rep) = stringGroupRep rep @
      make_item 0 (conv (dg_propName t)) 0 (of_nat (length (filter (\<lambda>d. D d \<noteq> {}) ds))) #
      map (\<lambda>date. make_item 1 (conv (dateToAPIStr db date)) 0 (of_nat (hits D ds date))) (sorted_list_of_set (\<Union>d\<in>set ds. D d))"
proof -
  have "\<forall>d\<in>set ds. finite (D d)"
  proof
    fix d assume "d \<in> set ds"
    then have "getDateSet t d m = Some (D d)" using assms by (simp add: list_all_iff)
    then show "finite (D d)" by (auto simp: getDateSet_def)
  qed
  note T = tally_hits [OF this, where 'n = "32 word"]
  show ?thesis unfolding dc_addDocs [OF assms] T by (simp add: dc_getGroupRep_def dc_getStringRep_def comp_def)
qed

text \<open>A counter with a second property, over dates or over numbers: every value has the number of documents that have it and
a counter of the second property to which exactly these documents were added, in their order. The counter of the second property is
any object for which adding the documents of a value is defined.
\<close>

theorem sub_counters_partition:
  assumes "list_all (\<lambda>d. getDateSet t d m = Some (D d)) ds" "\<forall>k. sub_of ops sub D ds k = Some (f k)"
    and "\<forall>k. sub_of ops' sub' (\<lambda>d. set_option (val d)) ds k = Some (g k)"
  shows "(\<exists>c. add_list (dsc_addDoc ops) ds (dsc_new t m sub) = Some c \<and>
      dsc_count c = map (\<lambda>k. (k, of_nat (hits D ds k), f k)) (sorted_list_of_set (\<Union>d\<in>set ds. D d))) \<and>
    (\<exists>c. add_list (nsc_addDoc ops') ds (nsc_new prop val sub') = Some c \<and>
      nsc_count c = map (\<lambda>k. (k, of_nat (hits (\<lambda>d. set_option (val d)) ds k), g k))
        (sorted_list_of_set (\<Union>d\<in>set ds. set_option (val d))))"
proof -
  have fin: "\<forall>d\<in>set ds. finite (D d)"
  proof
    fix d assume "d \<in> set ds"
    then have "getDateSet t d m = Some (D d)" using assms(1) by (simp add: list_all_iff)
    then show "finite (D d)" by (auto simp: getDateSet_def)
  qed
  have "\<forall>d\<in>set ds. finite (set_option (val d))" by simp
  note n = nsc_addDocs [OF sub_bumps_spec [OF this assms(3)]]
  note d = dsc_addDocs [OF assms(1) sub_bumps_spec [OF fin assms(2)]]
  show ?thesis
    by (rule conjI; intro exI conjI, rule d n, simp only: date_sub_counter.simps numeric_sub_counter.simps)
qed

text \<open>Numbers over shards: merging the groups of a numeric property that two shards have counted gives the table that counts the
values of both.
\<close>

theorem numeric_shards_merge:
  fixes r1 r2 :: "'d :: linorder group_rep"
  assumes "numericGroupRep r1 = []" "numericGroupRep r2 = []"
  shows "\<exists>r r'. mergeNumericGroup (nc_getGroupRep (fold nc_addDoc ds1 (nc_new prop val1)) r1)
      (nc_getGroupRep (fold nc_addDoc ds2 (nc_new prop val2)) r2) = Some (r, r') \<and>
    numericGroupRep r = [(prop, map (\<lambda>v. (v, of_nat (hits (\<lambda>d. set_option (val1 d)) ds1 v + hits (\<lambda>d. set_option (val2 d)) ds2 v)))
      (sorted_list_of_set ((\<Union>d\<in>set ds1. set_option (val1 d)) \<union> (\<Union>d\<in>set ds2. set_option (val2 d)))))]"
proof -
  have h: "count_list (List.map_filter val ds) v = hits (\<lambda>d. set_option (val d)) ds v" for val :: "docid \<Rightarrow> 'd option" and ds v
  proof (induction ds)
    case (Cons d ds)
    then show ?case by (cases "val d") (auto simp: map_filter_simps hits_def)
  qed (simp add: map_filter_simps hits_def)
  have k: "set (List.map_filter val ds) = (\<Union>d\<in>set ds. set_option (val d))" for val :: "docid \<Rightarrow> 'd option" and ds
    by (induction ds) (auto simp: map_filter_simps split: option.splits)
  let ?ks = "List.map_filter val1 ds1 @ List.map_filter val2 ds2"
  have "(tally ?ks :: ('d \<times> u32) list) = map (\<lambda>v. (v, of_nat (hits (\<lambda>d. set_option (val1 d)) ds1 v + hits (\<lambda>d. set_option (val2 d)) ds2 v)))
      (sorted_list_of_set ((\<Union>d\<in>set ds1. set_option (val1 d)) \<union> (\<Union>d\<in>set ds2. set_option (val2 d))))"
  proof (rule keys_ordered_map [OF tally_spec(1), where d = 0])
    show "fst ` set (tally ?ks :: ('d \<times> u32) list) = (\<Union>d\<in>set ds1. set_option (val1 d)) \<union> (\<Union>d\<in>set ds2. set_option (val2 d))"
      by (simp add: tally_spec k)
  qed (simp add: tally_spec h)
  then show ?thesis using assms
    by (simp add: nc_addDocs nc_getGroupRep_def mergeNumericGroup_def merge_tally)
qed

section \<open>Instances\<close>

text \<open>A table in which document 1 has the dates 2013-05-01 and 2013-07-04, cut to years and to months.\<close>

definition sample_dates :: date_group_table where
  "sample_dates = snd (setDateSet 1 {createDate [2013, 5, 1], createDate [2013, 7, 4]} (dg_init ''d'' ''Date''))"

lemma sample_date_values: "createDate [2013, 5, 1] = 0xFBAA100" "createDate [2013, 7, 4] = 0xFBAE400"
  by (simp_all add: createDate_def dateValueParsers_def parser_create_def upt_rec push_bit_eq_mult)

lemma sample_dates_eq: "dateValueTable sample_dates = \<lparr>indexTable = [0, INDEX_MSB], multiValueTable = [2, 0xFBAA100, 0xFBAE400]\<rparr>"
  "dg_propName sample_dates = ''Date''"
proof -
  have "sorted_list_of_set {0xFBAA100, 0xFBAE400 :: u32} = [0xFBAA100, 0xFBAE400]"
    by (simp add: word_less_nat_alt)
  then show "dateValueTable sample_dates = \<lparr>indexTable = [0, INDEX_MSB], multiValueTable = [2, 0xFBAA100, 0xFBAE400]\<rparr>"
    "dg_propName sample_dates = ''Date''"
    by (simp_all add: sample_dates_def sample_date_values setDateSet_def dg_init_def Let_def pid_setIdList_def pid_init_def vec_resize_def
        INDEX_MSB_def case_prod_beta)
qed

lemma sample_date_sets: "getDateSet sample_dates 0 MASK_YEAR = Some {}" "getDateSet sample_dates 1 MASK_YEAR = Some {0xFBA0000}"
  by (simp_all add: getDateSet_def sample_dates_eq pid_ids_def pid_getIdList_def prop_id_list_init_def prop_id_list_clear_def
      prop_id_list_at_def INDEX_MSB_def INDEX_MASK_def upt_rec MASK_YEAR_def)

theorem date_counter_groups_witness:
  "\<exists>c. add_list dc_addDoc [1, 0, 1] (dc_new sample_dates MASK_YEAR) = Some c \<and>
     stringGroupRep (dc_getGroupRep plain_boost ustr c (no_groups :: nat group_rep)) =
       [make_item 0 (ustr ''Date'') 0 2, make_item 1 (ustr (dateToAPIStr plain_boost 0xFBA0000)) 0 2]"
proof -
  let ?D = "\<lambda>d :: docid. if d = 1 then {0xFBA0000 :: u32} else {}"
  have "list_all (\<lambda>d. getDateSet sample_dates d MASK_YEAR = Some (?D d)) [1, 0, 1]" by (simp add: sample_date_sets)
  from date_counter_groups [OF this, of plain_boost ustr "no_groups :: nat group_rep"]
  show ?thesis by (simp add: hits_def sample_dates_eq no_groups_def)
qed

text \<open>The counter of the second property counts the documents it has been given.\<close>

definition list_counter :: "(docid list, nat) counter_ops" where
  "list_counter = \<lparr>co_addDoc = (\<lambda>d l. Some (l @ [d])), co_getStringRep = (\<lambda>_ _. Some [])\<rparr>"

lemma list_counter_sub: "sub_of list_counter [] D ds k = Some (filter (\<lambda>d. k \<in> D d) ds)"
proof (induction ds rule: rev_induct)
  case (snoc d ds)
  then show ?case by (simp add: sub_of_snoc list_counter_def)
qed (simp add: sub_of_def)

theorem sub_counters_partition_witness:
  "\<exists>c c'. add_list (dsc_addDoc list_counter) [1, 0] (dsc_new sample_dates MASK_YEAR []) = Some c \<and> dsc_count c = [(0xFBA0000, 1, [1])] \<and>
     add_list (nsc_addDoc list_counter) [1, 0] (nsc_new ''Price'' (\<lambda>_. Some (3 :: nat)) []) = Some c' \<and> nsc_count c' = [(3, 2, [1, 0])]"
proof -
  let ?D = "\<lambda>d :: docid. if d = 1 then {0xFBA0000 :: u32} else {}"
  have 1: "list_all (\<lambda>d. getDateSet sample_dates d MASK_YEAR = Some (?D d)) [1, 0]" by (simp add: sample_date_sets)
  have 2: "\<forall>k. sub_of list_counter [] ?D [1, 0] k = Some (filter (\<lambda>d. k \<in> ?D d) [1, 0])"
    and 3: "\<forall>k. sub_of list_counter [] (\<lambda>d. set_option (Some (3 :: nat))) [1, 0] k = Some (filter (\<lambda>d. k \<in> {3}) [1, 0])"
    by (simp_all add: list_counter_sub)
  show ?thesis using sub_counters_partition [OF 1 2 3, of "''Price''"] by (simp add: hits_def)
qed

theorem numeric_shards_merge_witness:
  "\<exists>r r'. mergeNumericGroup (nc_getGroupRep (fold nc_addDoc [1, 2] (nc_new ''Price'' (\<lambda>_. Some (3 :: nat)))) no_groups)
      (nc_getGroupRep (fold nc_addDoc [7] (nc_new ''Price'' (\<lambda>_. Some 3))) no_groups) = Some (r, r') \<and> numericGroupRep r = [(''Price'', [(3, 3)])]"
  using numeric_shards_merge [of "no_groups :: nat group_rep" no_groups "[1, 2]" "''Price''" "\<lambda>_. Some 3" "[7]" "\<lambda>_. Some 3"]
  by (simp add: hits_def no_groups_def)

end
