(* ===== verification/Group_Filter.thy ===== *)
theory Group_Filter
  imports Value_Counter Attr_Table
begin

text \<open>
  The filter of a query's results by selected group labels and attribute labels, which also counts the results for
  the groups (core/mining-manager/group-manager: GroupFilter.h, GroupFilter.cpp, GroupLabel.h, StringGroupLabel.cpp,
  DateGroupLabel.cpp, NumericRangeGroupLabel.cpp; core/mining-manager/attr-manager: AttrLabel.cpp). A label is an object
  with a test of a document, a counter an object with \<open>addDoc\<close>; a value \<open>None\<close> stands for a read out of range.
\<close>

section \<open>Labels\<close>

type_synonym doc_test = "docid \<Rightarrow> bool option"

text \<open>\<open>StringGroupLabel\<close>: the ids of the label paths, and the test against the ancestors of the document's values.\<close>

definition string_label_ids :: "(string \<Rightarrow> ustring) \<Rightarrow> prop_value_table \<Rightarrow> string list list \<Rightarrow> pvid list" where
  "string_label_ids conv t labelPaths = map (\<lambda>path. propValueId t (map conv path)) labelPaths"

definition string_label_test :: "prop_value_table \<Rightarrow> pvid list \<Rightarrow> doc_test" where
  "string_label_test t targetValueIds doc =
     map_option (\<lambda>parentSet. list_ex (\<lambda>i. i \<in> parentSet) targetValueIds) (parentIdSet t doc)"

fun date_label_test :: "date_group_table \<Rightarrow> (date_t \<times> u32) list \<Rightarrow> doc_test" where
  "date_label_test t [] doc = Some False"
| "date_label_test t ((date, m) # targets) doc =
     Option.bind (getDateSet t doc m) (\<lambda>dateSet. if date \<in> dateSet then Some True else date_label_test t targets doc)"

text \<open>\<open>NumericRangeGroupLabel\<close>: \<open>getFloatValue\<close> of the numeric table is a parameter; numbers are of a linear order (no NaN).\<close>

definition numeric_label_test1 :: "(docid \<Rightarrow> 'f option) \<Rightarrow> 'f list \<Rightarrow> doc_test" where
  "numeric_label_test1 getFloatValue targetValues doc =
     Some (case getFloatValue doc of None \<Rightarrow> False | Some val \<Rightarrow> val \<in> set targetValues)"

definition numeric_label_test2 :: "(docid \<Rightarrow> 'f :: linorder option) \<Rightarrow> ('f \<times> 'f) list \<Rightarrow> doc_test" where
  "numeric_label_test2 getFloatValue ranges doc =
     Some (case getFloatValue doc of None \<Rightarrow> False | Some val \<Rightarrow> list_ex (\<lambda>(lo, hi). val \<ge> lo \<and> val \<le> hi) ranges)"

record attr_label =
  al_attrNameId :: u32
  al_targetValueIds :: "u32 list"

definition attr_label_new :: "(string \<Rightarrow> ustring) \<Rightarrow> attr_table \<Rightarrow> string \<Rightarrow> string list \<Rightarrow> attr_label" where
  "attr_label_new conv t attrName attrValues =
     (let n = nameId t (conv attrName)
      in \<lparr>al_attrNameId = n, al_targetValueIds = map (\<lambda>v. valueId t n (conv v)) attrValues\<rparr>)"

definition attr_label_test :: "attr_table \<Rightarrow> attr_label \<Rightarrow> doc_test" where
  "attr_label_test t l doc =
     map_option (\<lambda>ids. list_ex (\<lambda>i. i \<in> set (al_targetValueIds l)) ids) (pid_ids (at_valueIdTable t) doc)"

section \<open>The filter\<close>

text \<open>
  A group label with the position of its counter in \<open>groupCounters_\<close> (\<open>None\<close>: the null pointer), an attribute label with the
  id of its name, and the counter of attributes.
\<close>

record ('c, 'a) group_filter =
  gf_groupLabels :: "(doc_test \<times> nat option) list"
  gf_groupCounters :: "'c list"
  gf_attrLabels :: "(doc_test \<times> u32) list"
  gf_attrCounter :: "'a option"

record ('c, 'a) filter_ops =
  fo_addDoc :: "docid \<Rightarrow> 'c \<Rightarrow> 'c option"
  fo_attrAddDoc :: "docid \<Rightarrow> 'a \<Rightarrow> 'a option"
  fo_addAttrDoc :: "u32 \<Rightarrow> docid \<Rightarrow> 'a \<Rightarrow> 'a option"

definition gf_new :: "('c, 'a) group_filter" where
  "gf_new = \<lparr>gf_groupLabels = [], gf_groupCounters = [], gf_attrLabels = [], gf_attrCounter = None\<rparr>"

text \<open>
  \<open>initGroup\<close>: \<open>createCounter\<close> and \<open>createLabel\<close> are the methods of the builder; the parameters of the properties are named by
  \<open>prop\<close>, the labels are the entries of a map from property to paths.
\<close>

fun init_counters :: "('p \<Rightarrow> string) \<Rightarrow> ('p \<Rightarrow> 'c option) \<Rightarrow> 'p list \<Rightarrow> (string \<rightharpoonup> nat) \<Rightarrow> 'c list \<Rightarrow> bool \<times> (string \<rightharpoonup> nat) \<times> 'c list" where
  "init_counters name createCounter [] m cs = (True, m, cs)"
| "init_counters name createCounter (p # ps) m cs =
     (if m (name p) = None then
        (case createCounter p of
           Some c \<Rightarrow> init_counters name createCounter ps (m(name p \<mapsto> length cs)) (cs @ [c])
         | None \<Rightarrow> (False, m, cs))
      else init_counters name createCounter ps m cs)"

fun init_labels :: "(string \<times> 'l \<Rightarrow> doc_test option) \<Rightarrow> (string \<times> 'l) list \<Rightarrow> (string \<rightharpoonup> nat) \<Rightarrow>
    (doc_test \<times> nat option) list \<Rightarrow> bool \<times> (doc_test \<times> nat option) list" where
  "init_labels createLabel [] m ls = (True, ls)"
| "init_labels createLabel (l # labels) m ls =
     (case createLabel l of
        Some test \<Rightarrow> init_labels createLabel labels m (ls @ [(test, m (fst l))])
      | None \<Rightarrow> (False, ls))"

definition initGroup :: "('p \<Rightarrow> string) \<Rightarrow> ('p \<Rightarrow> 'c option) \<Rightarrow> (string \<times> 'l \<Rightarrow> doc_test option) \<Rightarrow> 'p list \<Rightarrow> (string \<times> 'l) list \<Rightarrow>
    ('c, 'a) group_filter \<Rightarrow> bool \<times> ('c, 'a) group_filter" where
  "initGroup name createCounter createLabel groupProps labels st =
     (let (ok, m, cs) = init_counters name createCounter groupProps Map.empty (gf_groupCounters st);
          st1 = st\<lparr>gf_groupCounters := cs\<rparr> in
      if \<not> ok then (False, st1)
      else let (ok', ls) = init_labels createLabel labels m (gf_groupLabels st) in (ok', st1\<lparr>gf_groupLabels := ls\<rparr>))"

text \<open>\<open>initAttr\<close> with the counter that it has chosen.\<close>

definition initAttr :: "(string \<Rightarrow> ustring) \<Rightarrow> attr_table \<Rightarrow> 'a option \<Rightarrow> (string \<times> string list) list \<Rightarrow>
    ('c, 'a) group_filter \<Rightarrow> ('c, 'a) group_filter" where
  "initAttr conv t attrCounter labels st =
     st\<lparr>gf_attrCounter := attrCounter,
        gf_attrLabels := gf_attrLabels st @
          map (\<lambda>(attrName, vals). let l = attr_label_new conv t attrName vals in (attr_label_test t l, al_attrNameId l)) labels\<rparr>"

text \<open>
  A loop over labels: \<open>Inl\<close> is the return at the second failure, \<open>Inr\<close> the result and the index of the failure so far.
\<close>

fun scan_labels :: "doc_test list \<Rightarrow> docid \<Rightarrow> nat \<Rightarrow> bool \<Rightarrow> nat \<Rightarrow> (unit + bool \<times> nat) option" where
  "scan_labels [] doc i result failIndex = Some (Inr (result, failIndex))"
| "scan_labels (test # tests) doc i result failIndex =
     (case test doc of
        None \<Rightarrow> None
      | Some True \<Rightarrow> scan_labels tests doc (i + 1) result failIndex
      | Some False \<Rightarrow> if \<not> result then Some (Inl ()) else scan_labels tests doc (i + 1) False i)"

fun add_to_all :: "(docid \<Rightarrow> 'c \<Rightarrow> 'c option) \<Rightarrow> docid \<Rightarrow> 'c list \<Rightarrow> 'c list option" where
  "add_to_all addDoc doc [] = Some []"
| "add_to_all addDoc doc (c # cs) =
     Option.bind (addDoc doc c) (\<lambda>c'. map_option ((#) c') (add_to_all addDoc doc cs))"

definition attr_update :: "('a \<Rightarrow> 'a option) \<Rightarrow> ('c, 'a) group_filter \<Rightarrow> ('c, 'a) group_filter option" where
  "attr_update f st =
     (case gf_attrCounter st of
        None \<Rightarrow> Some st
      | Some a \<Rightarrow> map_option (\<lambda>a'. st\<lparr>gf_attrCounter := Some a'\<rparr>) (f a))"

definition gf_test :: "('c, 'a) filter_ops \<Rightarrow> docid \<Rightarrow> ('c, 'a) group_filter \<Rightarrow> (bool \<times> ('c, 'a) group_filter) option" where
  "gf_test ops doc st =
     Option.bind (scan_labels (map fst (gf_groupLabels st)) doc 0 True 0) (\<lambda>r. case r of
        Inl _ \<Rightarrow> Some (False, st)
      | Inr (groupResult, failIndex0) \<Rightarrow>
     Option.bind (scan_labels (map fst (gf_attrLabels st)) doc 0 groupResult failIndex0) (\<lambda>r'. case r' of
        Inl _ \<Rightarrow> Some (False, st)
      | Inr (result, failIndex) \<Rightarrow>
          if result then
            Option.bind (add_to_all (fo_addDoc ops) doc (gf_groupCounters st)) (\<lambda>cs.
              map_option (Pair True) (attr_update (fo_attrAddDoc ops doc) (st\<lparr>gf_groupCounters := cs\<rparr>)))
          else if groupResult then
            map_option (Pair False) (attr_update (fo_addAttrDoc ops (snd (gf_attrLabels st ! failIndex)) doc) st)
          else
            (case snd (gf_groupLabels st ! failIndex) of
               None \<Rightarrow> Some (False, st)
             | Some k \<Rightarrow>
                 map_option (\<lambda>c. (False, st\<lparr>gf_groupCounters := (gf_groupCounters st)[k := c]\<rparr>))
                   (fo_addDoc ops doc (gf_groupCounters st ! k)))))"

text \<open>The documents of a search are tested one after the other.\<close>

fun gf_test_all :: "('c, 'a) filter_ops \<Rightarrow> docid list \<Rightarrow> ('c, 'a) group_filter \<Rightarrow> (docid list \<times> ('c, 'a) group_filter) option" where
  "gf_test_all ops [] st = Some ([], st)"
| "gf_test_all ops (d # ds) st =
     Option.bind (gf_test ops d st) (\<lambda>(ok, st').
       map_option (\<lambda>(found, st''). (if ok then d # found else found, st'')) (gf_test_all ops ds st'))"


section \<open>Failing labels\<close>

fun failures :: "doc_test list \<Rightarrow> docid \<Rightarrow> nat \<Rightarrow> nat list" where
  "failures [] doc i = []"
| "failures (test # tests) doc i = (if test doc = Some False then [i] else []) @ failures tests doc (i + 1)"

lemma scan_after_failure:
  "\<forall>t\<in>set tests. t doc \<noteq> None \<Longrightarrow>
   scan_labels tests doc i False fi = (if failures tests doc i = [] then Some (Inr (False, fi)) else Some (Inl ()))"
  by (induction tests arbitrary: i) (auto split: option.splits bool.splits)

lemma scan_labels_spec:
  "\<forall>t\<in>set tests. t doc \<noteq> None \<Longrightarrow>
   scan_labels tests doc i True fi =
     (case failures tests doc i of [] \<Rightarrow> Some (Inr (True, fi)) | [j] \<Rightarrow> Some (Inr (False, j)) | _ \<Rightarrow> Some (Inl ()))"
proof (induction tests arbitrary: i)
  case (Cons t tests)
  then obtain b where b: "t doc = Some b" by auto
  have "\<forall>t\<in>set tests. t doc \<noteq> None" using Cons.prems by simp
  then show ?case using Cons.IH b scan_after_failure [of tests doc "i + 1" i] by (cases b) (auto split: list.splits)
qed simp

lemma failures_mem: "j \<in> set (failures tests doc i) \<longleftrightarrow> i \<le> j \<and> j < i + length tests \<and> (tests ! (j - i)) doc = Some False"
proof (induction tests arbitrary: i)
  case (Cons t tests)
  show ?case
  proof (cases "j = i")
    case True
    then show ?thesis using Cons [of "i + 1"] by auto
  next
    case False
    then show ?thesis using Cons [of "i + 1"] by (auto simp: nth_Cons' Suc_le_eq)
  qed
qed simp

lemma failures_distinct: "distinct (failures tests doc i)"
  by (induction tests arbitrary: i) (auto simp: failures_mem)

text \<open>A document is counted for counter \<open>k\<close> when only a label that points to \<open>k\<close> may fail.\<close>

definition attr_pass :: "('c, 'a) group_filter \<Rightarrow> docid \<Rightarrow> bool" where
  "attr_pass st d \<longleftrightarrow> list_all (\<lambda>l. fst l d = Some True) (gf_attrLabels st)"

definition passes :: "('c, 'a) group_filter \<Rightarrow> docid \<Rightarrow> bool" where
  "passes st d \<longleftrightarrow> list_all (\<lambda>l. fst l d = Some True) (gf_groupLabels st) \<and> attr_pass st d"

definition counted :: "('c, 'a) group_filter \<Rightarrow> nat \<Rightarrow> docid \<Rightarrow> bool" where
  "counted st k d \<longleftrightarrow> list_all (\<lambda>l. snd l = Some k \<or> fst l d = Some True) (gf_groupLabels st) \<and> attr_pass st d"

definition attr_step :: "('c, 'a) filter_ops \<Rightarrow> ('c, 'a) group_filter \<Rightarrow> docid \<Rightarrow> 'a \<Rightarrow> 'a option" where
  "attr_step ops st d =
     (if passes st d then fo_attrAddDoc ops d
      else if list_all (\<lambda>l. fst l d = Some True) (gf_groupLabels st)
      then (case failures (map fst (gf_attrLabels st)) d 0 of [j] \<Rightarrow> fo_addAttrDoc ops (snd (gf_attrLabels st ! j)) d | _ \<Rightarrow> Some)
      else Some)"

definition tests_defined :: "('c, 'a) group_filter \<Rightarrow> docid \<Rightarrow> bool" where
  "tests_defined st d \<longleftrightarrow> list_all (\<lambda>l. fst l d \<noteq> None) (gf_groupLabels st) \<and> list_all (\<lambda>l. fst l d \<noteq> None) (gf_attrLabels st)"

definition pointers_ok :: "('c, 'a) group_filter \<Rightarrow> bool" where
  "pointers_ok st \<longleftrightarrow> distinct (filter (\<lambda>p. p \<noteq> None) (map snd (gf_groupLabels st))) \<and>
     list_all (\<lambda>l. case snd l of None \<Rightarrow> True | Some k \<Rightarrow> k < length (gf_groupCounters st)) (gf_groupLabels st)"

lemma opt_bool: "(x :: bool option) \<noteq> None \<Longrightarrow> x \<noteq> Some False \<longleftrightarrow> x = Some True"
  by (cases x) auto

lemma no_failures:
  assumes "list_all (\<lambda>l. fst l d \<noteq> None) ls"
  shows "failures (map fst ls) d 0 = [] \<longleftrightarrow> list_all (\<lambda>l. fst l d = Some True) ls"
proof -
  have "failures (map fst ls) d 0 = [] \<longleftrightarrow> (\<forall>j<length ls. fst (ls ! j) d \<noteq> Some False)"
  proof
    assume "failures (map fst ls) d 0 = []"
    then show "\<forall>j<length ls. fst (ls ! j) d \<noteq> Some False" using failures_mem [of _ "map fst ls" d 0] by auto
  next
    assume n: "\<forall>j<length ls. fst (ls ! j) d \<noteq> Some False"
    show "failures (map fst ls) d 0 = []"
    proof (rule ccontr)
      assume "failures (map fst ls) d 0 \<noteq> []"
      then obtain j where "j \<in> set (failures (map fst ls) d 0)" by (cases "failures (map fst ls) d 0") auto
      then show False using n failures_mem [of j "map fst ls" d 0] by auto
    qed
  qed
  also have "\<dots> \<longleftrightarrow> list_all (\<lambda>l. fst l d = Some True) ls"
    using assms opt_bool unfolding list_all_length by blast
  finally show ?thesis .
qed


text \<open>The outcome of one test.\<close>

lemma add_to_all_nth:
  "\<forall>k<length cs. addDoc d (cs ! k) = Some (cs' ! k) \<Longrightarrow> length cs' = length cs \<Longrightarrow> add_to_all addDoc d cs = Some cs'"
proof (induction cs arbitrary: cs')
  case (Cons c cs)
  then obtain c' ds where c': "cs' = c' # ds" by (cases cs') auto
  have "addDoc d c = Some c'" using Cons.prems(1) c' by fastforce
  moreover have "\<forall>k<length cs. addDoc d (cs ! k) = Some (ds ! k)" using Cons.prems(1) c' by fastforce
  ultimately show ?case using Cons.IH [of ds] Cons.prems(2) c' by simp
qed simp

lemma single_failure:
  assumes "list_all (\<lambda>l. fst l d \<noteq> None) ls" "failures (map fst ls) d 0 = [j]"
  shows "j < length ls" "fst (ls ! j) d = Some False" "\<forall>i<length ls. i \<noteq> j \<longrightarrow> fst (ls ! i) d = Some True"
proof -
  note m = failures_mem [of _ "map fst ls" d 0, unfolded assms(2)]
  show "j < length ls" using m [of j] by simp
  then show "fst (ls ! j) d = Some False" using m [of j] by simp
  show "\<forall>i<length ls. i \<noteq> j \<longrightarrow> fst (ls ! i) d = Some True"
  proof (intro allI impI)
    fix i assume i: "i < length ls" "i \<noteq> j"
    then have "fst (ls ! i) d \<noteq> Some False" using m [of i] by simp
    then show "fst (ls ! i) d = Some True" using assms(1) i(1) opt_bool unfolding list_all_length by blast
  qed
qed

lemma two_failures:
  assumes "failures (map fst ls) d 0 = i # j # js"
  shows "i < length ls" "j < length ls" "i \<noteq> j" "fst (ls ! i) d = Some False" "fst (ls ! j) d = Some False"
proof -
  note m = failures_mem [of _ "map fst ls" d 0, unfolded assms]
  show "i < length ls" "j < length ls" using m [of i] m [of j] by simp_all
  then show "fst (ls ! i) d = Some False" "fst (ls ! j) d = Some False" using m [of i] m [of j] by simp_all
  show "i \<noteq> j" using failures_distinct [of "map fst ls" d 0] assms by simp
qed

lemma pointer_unique:
  assumes "distinct (filter (\<lambda>p. p \<noteq> None) (map snd ls))" "i < length ls" "j < length ls" "snd (ls ! i) = Some k" "snd (ls ! j) = Some k"
  shows "i = j"
  using assms
proof (induction ls arbitrary: i j)
  case (Cons l ls)
  have no: "snd l = Some k \<Longrightarrow> n < length ls \<Longrightarrow> snd (ls ! n) \<noteq> Some k" for n
  proof
    assume "snd l = Some k" "n < length ls" "snd (ls ! n) = Some k"
    moreover from this have "Some k \<in> snd ` set ls" by (metis image_eqI nth_mem)
    ultimately show False using Cons.prems(1) by auto
  qed
  show ?case
  proof (cases i)
    case 0
    then show ?thesis using Cons.prems no by (cases j) auto
  next
    case (Suc i')
    then show ?thesis using Cons.prems no Cons.IH [of i' "j - 1"] by (cases j) (auto split: if_splits)
  qed
qed simp


lemma counted_iff:
  assumes p: "pointers_ok st" and def: "tests_defined st d"
  shows "passes st d \<Longrightarrow> counted st k d"
    and "failures (map fst (gf_groupLabels st)) d 0 = [j] \<Longrightarrow> attr_pass st d \<Longrightarrow> counted st k d \<longleftrightarrow> snd (gf_groupLabels st ! j) = Some k"
    and "failures (map fst (gf_groupLabels st)) d 0 = i # j # js \<Longrightarrow> \<not> counted st k d"
proof -
  let ?ls = "gf_groupLabels st"
  have def': "list_all (\<lambda>l. fst l d \<noteq> None) ?ls" using def by (simp add: tests_defined_def)
  show "counted st k d" if "passes st d" using that by (auto simp: passes_def counted_def list_all_length)
  show "counted st k d \<longleftrightarrow> snd (?ls ! j) = Some k" if f: "failures (map fst ?ls) d 0 = [j]" and a: "attr_pass st d"
    using single_failure [OF def' f] a unfolding counted_def list_all_length by (metis option.inject)
  show "\<not> counted st k d" if f: "failures (map fst ?ls) d 0 = i # j # js"
  proof
    assume "counted st k d"
    then have "snd (?ls ! i) = Some k" "snd (?ls ! j) = Some k"
      using two_failures [OF f] unfolding counted_def list_all_length by (metis option.inject)+
    then show False using pointer_unique [of ?ls i j k] two_failures [OF f] p by (simp add: pointers_ok_def)
  qed
qed

lemma gf_test_spec:
  assumes p: "pointers_ok st" and def: "tests_defined st d"
    and cs: "length cs' = length (gf_groupCounters st)"
      "\<forall>k<length (gf_groupCounters st).
        (if counted st k d then fo_addDoc ops d (gf_groupCounters st ! k) else Some (gf_groupCounters st ! k)) = Some (cs' ! k)"
    and a: "case gf_attrCounter st of None \<Rightarrow> a' = None | Some a \<Rightarrow> a' \<noteq> None \<and> attr_step ops st d a = a'"
  shows "gf_test ops d st = Some (passes st d, st\<lparr>gf_groupCounters := cs', gf_attrCounter := a'\<rparr>)"
proof -
  let ?gl = "gf_groupLabels st" and ?al = "gf_attrLabels st"
  define G where "G = failures (map fst ?gl) d 0"
  define A where "A = failures (map fst ?al) d 0"
  have dg: "list_all (\<lambda>l. fst l d \<noteq> None) ?gl" "list_all (\<lambda>l. fst l d \<noteq> None) ?al" using def by (simp_all add: tests_defined_def)
  have sg: "scan_labels (map fst ?gl) d 0 True 0 = (case G of [] \<Rightarrow> Some (Inr (True, 0)) | [j] \<Rightarrow> Some (Inr (False, j)) | _ \<Rightarrow> Some (Inl ()))"
    unfolding G_def by (rule scan_labels_spec) (use dg(1) in \<open>auto simp: list_all_iff\<close>)
  have sa: "scan_labels (map fst ?al) d 0 True fi = (case A of [] \<Rightarrow> Some (Inr (True, fi)) | [j] \<Rightarrow> Some (Inr (False, j)) | _ \<Rightarrow> Some (Inl ()))"
    "scan_labels (map fst ?al) d 0 False fi = (if A = [] then Some (Inr (False, fi)) else Some (Inl ()))" for fi
  proof -
    have d: "\<forall>t\<in>set (map fst ?al). t d \<noteq> None" using dg(2) by (auto simp: list_all_iff)
    show "scan_labels (map fst ?al) d 0 True fi = (case A of [] \<Rightarrow> Some (Inr (True, fi)) | [j] \<Rightarrow> Some (Inr (False, j)) | _ \<Rightarrow> Some (Inl ()))"
      unfolding A_def by (rule scan_labels_spec [OF d])
    show "scan_labels (map fst ?al) d 0 False fi = (if A = [] then Some (Inr (False, fi)) else Some (Inl ()))"
      unfolding A_def by (rule scan_after_failure [OF d])
  qed
  have G0: "G = [] \<longleftrightarrow> list_all (\<lambda>l. fst l d = Some True) ?gl" and A0: "A = [] \<longleftrightarrow> attr_pass st d"
    unfolding G_def A_def attr_pass_def by (rule no_failures [OF dg(1)], rule no_failures [OF dg(2)])
  have pass: "passes st d \<longleftrightarrow> G = [] \<and> A = []" using G0 A0 by (simp add: passes_def)
  have same: "cs' = gf_groupCounters st" if "\<And>k. \<not> counted st k d" using cs that by (intro nth_equalityI) simp_all
  have attr_same: "a' = gf_attrCounter st" if "attr_step ops st d = Some" using a that by (cases "gf_attrCounter st") auto
  have step: "attr_step ops st d =
      (if G = [] then (if A = [] then fo_attrAddDoc ops d else case A of [j] \<Rightarrow> fo_addAttrDoc ops (snd (?al ! j)) d | _ \<Rightarrow> Some) else Some)"
    using G0 A0 by (simp add: attr_step_def pass A_def)
  have upd: "attr_update (attr_step ops st d) (st\<lparr>gf_groupCounters := cs'\<rparr>) = Some (st\<lparr>gf_groupCounters := cs', gf_attrCounter := a'\<rparr>)"
    using a by (cases "gf_attrCounter st") (auto simp: attr_update_def)
  consider (pass) "G = []" "A = []" | (attr1) j where "G = []" "A = [j]" | (attr2) i j js where "G = []" "A = i # j # js"
    | (group1) j where "G = [j]" "A = []" | (groupattr) j where "G = [j]" "A \<noteq> []" | (group2) i j js where "G = i # j # js"
    by (metis list.exhaust)
  then show ?thesis
  proof cases
    case pass
    have "\<forall>k<length (gf_groupCounters st). fo_addDoc ops d (gf_groupCounters st ! k) = Some (cs' ! k)"
      using cs(2) counted_iff(1) [OF p def] \<open>passes st d \<longleftrightarrow> G = [] \<and> A = []\<close> pass by simp
    then have "add_to_all (fo_addDoc ops) d (gf_groupCounters st) = Some cs'" by (rule add_to_all_nth [OF _ cs(1)])
    moreover have "attr_step ops st d = fo_attrAddDoc ops d" using step pass by simp
    ultimately show ?thesis using upd sg sa pass \<open>passes st d \<longleftrightarrow> G = [] \<and> A = []\<close> by (simp add: gf_test_def)
  next
    case attr1
    have nc: "\<not> counted st k d" for k using A0 attr1 by (simp add: counted_def)
    have "attr_step ops st d = fo_addAttrDoc ops (snd (?al ! j)) d" using step attr1 by simp
    then show ?thesis using upd same [OF nc] sg sa attr1 pass by (simp add: gf_test_def)
  next
    case attr2
    have nc: "\<not> counted st k d" for k using A0 attr2 by (simp add: counted_def)
    have "attr_step ops st d = Some" using step attr2 by simp
    then show ?thesis using same [OF nc] attr_same sg sa attr2 pass by (simp add: gf_test_def)
  next
    case group1
    have "attr_step ops st d = Some" using step group1 by simp
    note at = attr_same [OF this]
    have c: "counted st k d \<longleftrightarrow> snd (?gl ! j) = Some k" for k
      using counted_iff(2) [OF p def, of j k] group1 A0 by (simp add: G_def)
    show ?thesis
    proof (cases "snd (?gl ! j)")
      case None
      then show ?thesis using same c at sg sa group1 pass by (simp add: gf_test_def)
    next
      case (Some k)
      have "j < length ?gl" using single_failure(1) [OF dg(1)] group1 by (simp add: G_def)
      then have k: "k < length (gf_groupCounters st)" using p Some unfolding pointers_ok_def list_all_length by fastforce
      have "fo_addDoc ops d (gf_groupCounters st ! k) = Some (cs' ! k)" using cs(2) [rule_format, OF k] c Some by simp
      moreover have "cs' = (gf_groupCounters st)[k := cs' ! k]"
      proof (rule nth_equalityI)
        show "length cs' = length ((gf_groupCounters st)[k := cs' ! k])" using cs(1) by simp
        show "cs' ! i = (gf_groupCounters st)[k := cs' ! k] ! i" if "i < length cs'" for i
          using cs(2) [rule_format, of i] that cs(1) c Some k by (cases "i = k") auto
      qed
      ultimately show ?thesis using Some at sg sa group1 pass by (simp add: gf_test_def)
    qed
  next
    case groupattr
    have nc: "\<not> counted st k d" for k using A0 groupattr by (simp add: counted_def)
    have "attr_step ops st d = Some" using step groupattr by simp
    then show ?thesis using same [OF nc] attr_same sg sa groupattr pass by (simp add: gf_test_def)
  next
    case group2
    have nc: "\<not> counted st k d" for k using counted_iff(3) [OF p def] group2 by (simp add: G_def)
    have "attr_step ops st d = Some" using step group2 by simp
    then show ?thesis using same [OF nc] attr_same sg group2 pass by (simp add: gf_test_def)
  qed
qed


section \<open>A sequence of tests\<close>

text \<open>The tests and the pointers do not depend on the counters.\<close>

definition same_labels :: "('c, 'a) group_filter \<Rightarrow> ('c, 'a) group_filter \<Rightarrow> bool" where
  "same_labels st st' \<longleftrightarrow> gf_groupLabels st' = gf_groupLabels st \<and> gf_attrLabels st' = gf_attrLabels st"

lemma same_labels_preds:
  assumes "same_labels st st'"
  shows "passes st' = passes st" "counted st' = counted st" "attr_step ops st' = attr_step ops st" "tests_defined st' = tests_defined st"
proof -
  have e: "gf_groupLabels st' = gf_groupLabels st" "gf_attrLabels st' = gf_attrLabels st" using assms by (simp_all add: same_labels_def)
  show p: "passes st' = passes st" by (simp add: fun_eq_iff passes_def attr_pass_def e)
  show "counted st' = counted st" by (simp add: fun_eq_iff counted_def attr_pass_def e)
  show "attr_step ops st' = attr_step ops st" unfolding fun_eq_iff attr_step_def e p by simp
  show "tests_defined st' = tests_defined st" by (simp add: fun_eq_iff tests_defined_def e)
qed

fun attr_run :: "('c, 'a) filter_ops \<Rightarrow> ('c, 'a) group_filter \<Rightarrow> docid list \<Rightarrow> 'a \<Rightarrow> 'a option" where
  "attr_run ops st [] a = Some a"
| "attr_run ops st (d # ds) a = Option.bind (attr_step ops st d a) (attr_run ops st ds)"

lemma gf_test_all_spec:
  assumes "pointers_ok st" "list_all (tests_defined st) ds" "length cs' = length (gf_groupCounters st)"
    "\<forall>k<length (gf_groupCounters st). add_list (fo_addDoc ops) (filter (counted st k) ds) (gf_groupCounters st ! k) = Some (cs' ! k)"
    "case gf_attrCounter st of None \<Rightarrow> a' = None | Some a \<Rightarrow> a' \<noteq> None \<and> attr_run ops st ds a = a'"
  shows "gf_test_all ops ds st = Some (filter (passes st) ds, st\<lparr>gf_groupCounters := cs', gf_attrCounter := a'\<rparr>)"
  using assms
proof (induction ds arbitrary: st)
  case Nil
  have "cs' = gf_groupCounters st" using Nil.prems(3,4) by (intro nth_equalityI) simp_all
  moreover have "a' = gf_attrCounter st" using Nil.prems(5) by (cases "gf_attrCounter st") auto
  ultimately show ?case by simp
next
  case (Cons d ds)
  let ?n = "length (gf_groupCounters st)"
  define step where "step = (\<lambda>k. if counted st k d then fo_addDoc ops d (gf_groupCounters st ! k) else Some (gf_groupCounters st ! k))"
  have "\<exists>c. step k = Some c \<and> add_list (fo_addDoc ops) (filter (counted st k) ds) c = Some (cs' ! k)" if "k < ?n" for k
    using Cons.prems(4) that by (auto simp: step_def bind_eq_Some_conv split: if_splits)
  then obtain f where f: "\<And>k. k < ?n \<Longrightarrow> step k = Some (f k)" "\<And>k. k < ?n \<Longrightarrow> add_list (fo_addDoc ops) (filter (counted st k) ds) (f k) = Some (cs' ! k)"
    by metis
  define cs1 where "cs1 = map f [0..<?n]"
  have "\<exists>a1. (case gf_attrCounter st of None \<Rightarrow> a1 = None | Some a \<Rightarrow> a1 \<noteq> None \<and> attr_step ops st d a = a1) \<and>
      (case a1 of None \<Rightarrow> a' = None | Some a \<Rightarrow> a' \<noteq> None \<and> attr_run ops st ds a = a')"
    using Cons.prems(5) by (cases "gf_attrCounter st") (auto simp: bind_eq_Some_conv)
  then obtain a1 where a1: "case gf_attrCounter st of None \<Rightarrow> a1 = None | Some a \<Rightarrow> a1 \<noteq> None \<and> attr_step ops st d a = a1"
    "case a1 of None \<Rightarrow> a' = None | Some a \<Rightarrow> a' \<noteq> None \<and> attr_run ops st ds a = a'" by blast
  define st1 where "st1 = st\<lparr>gf_groupCounters := cs1, gf_attrCounter := a1\<rparr>"
  have t: "gf_test ops d st = Some (passes st d, st1)" unfolding st1_def
    by (rule gf_test_spec [OF Cons.prems(1) _ _ _ a1(1)]) (use Cons.prems(2) f(1) in \<open>simp_all add: cs1_def step_def\<close>)
  have sl: "same_labels st st1" by (simp add: same_labels_def st1_def)
  note E = same_labels_preds [OF sl]
  have run: "attr_run ops st1 = attr_run ops st"
  proof (intro ext)
    show "attr_run ops st1 es a = attr_run ops st es a" for es a
      by (induction es arbitrary: a) (simp_all add: E split: Option.bind_split)
  qed
  have "gf_test_all ops ds st1 = Some (filter (passes st1) ds, st1\<lparr>gf_groupCounters := cs', gf_attrCounter := a'\<rparr>)"
  proof (rule Cons.IH)
    have "length (gf_groupCounters st1) = ?n" "gf_groupLabels st1 = gf_groupLabels st" by (simp_all add: st1_def cs1_def)
    then show "pointers_ok st1" using Cons.prems(1) unfolding pointers_ok_def by (simp only:)
    show "list_all (tests_defined st1) ds" using Cons.prems(2) E by simp
    show "length cs' = length (gf_groupCounters st1)" using Cons.prems(3) by (simp add: st1_def cs1_def)
    show "\<forall>k<length (gf_groupCounters st1). add_list (fo_addDoc ops) (filter (counted st1 k) ds) (gf_groupCounters st1 ! k) = Some (cs' ! k)"
      using f(2) by (simp add: E) (simp add: st1_def cs1_def)
    show "case gf_attrCounter st1 of None \<Rightarrow> a' = None | Some a \<Rightarrow> a' \<noteq> None \<and> attr_run ops st1 ds a = a'"
      using a1(2) unfolding run by (simp add: st1_def)
  qed
  then show ?case using t by (simp add: E(1)) (simp add: st1_def)
qed

section \<open>The filter that \<open>initGroup\<close> builds\<close>

text \<open>The first parameter for each property.\<close>

fun first_props :: "('p \<Rightarrow> string) \<Rightarrow> 'p list \<Rightarrow> 'p list" where
  "first_props name [] = []"
| "first_props name (p # ps) = p # filter (\<lambda>q. name q \<noteq> name p) (first_props name ps)"

fun index_of :: "string list \<Rightarrow> string \<Rightarrow> nat option" where
  "index_of [] n = None"
| "index_of (m # ns) n = (if m = n then Some 0 else map_option Suc (index_of ns n))"

lemma index_of_None: "index_of ns n = None \<longleftrightarrow> n \<notin> set ns"
  by (induction ns) auto

lemma index_of_snoc: "n \<notin> set ns \<Longrightarrow> index_of (ns @ [n]) = (index_of ns)(n \<mapsto> length ns)"
  by (induction ns) (auto simp: fun_eq_iff)

lemma index_of_nth: "index_of ns n = Some k \<Longrightarrow> k < length ns \<and> ns ! k = n"
  by (induction ns arbitrary: k) (auto split: if_splits)

lemma index_of_distinct: "\<lbrakk>distinct ns; k < length ns\<rbrakk> \<Longrightarrow> index_of ns n = Some k \<longleftrightarrow> n = ns ! k"
proof (induction ns arbitrary: k)
  case (Cons m ns)
  then show ?case by (cases k) (auto simp: index_of_None)
qed simp

lemma first_props_filter:
  "filter (\<lambda>q. name q \<noteq> n) (first_props name xs) = first_props name (filter (\<lambda>q. name q \<noteq> n) xs)"
proof (induction xs)
  case (Cons x xs)
  then show ?case by (simp add: conj_commute) (simp flip: Cons.IH add: conj_commute filter_filter)
qed simp

lemma first_props_distinct: "distinct (map name (first_props name xs))"
proof (induction xs)
  case (Cons x xs)
  then show ?case by (auto intro: distinct_map_filter)
qed simp

lemma init_counters_spec:
  assumes "init_counters name create ps m cs = (True, m', cs')" "m = index_of ns" "length cs = length ns"
  shows "\<exists>qs. m' = index_of (ns @ map name qs) \<and> length cs' = length ns + length qs \<and>
    qs = first_props name (filter (\<lambda>p. name p \<notin> set ns) ps) \<and> cs' = cs @ map (the \<circ> create) qs \<and> (\<forall>q\<in>set qs. create q \<noteq> None)"
  using assms
proof (induction ps arbitrary: m cs ns)
  case (Cons p ps)
  show ?case
  proof (cases "name p \<in> set ns")
    case True
    then have "m (name p) \<noteq> None" using Cons.prems(2) by (simp add: index_of_None del: not_None_eq)
    then have "init_counters name create ps m cs = (True, m', cs')" using Cons.prems(1) by (simp del: not_None_eq)
    from Cons.IH [OF this Cons.prems(2,3)] show ?thesis using True Cons.prems(3) by simp
  next
    case False
    then have mp: "m (name p) = None" using Cons.prems(2) by (simp add: index_of_None)
    then obtain c where c: "create p = Some c" using Cons.prems(1) by (auto split: option.splits)
    let ?ns = "ns @ [name p]"
    have "init_counters name create ps (m(name p \<mapsto> length cs)) (cs @ [c]) = (True, m', cs')" using Cons.prems(1) mp c by simp
    moreover have "m(name p \<mapsto> length cs) = index_of ?ns" using Cons.prems(2,3) index_of_snoc [OF False] by simp
    moreover have "length (cs @ [c]) = length ?ns" using Cons.prems(3) by simp
    ultimately obtain qs where qs: "m' = index_of (?ns @ map name qs)" "length cs' = length ?ns + length qs"
      "qs = first_props name (filter (\<lambda>p. name p \<notin> set ?ns) ps)" "cs' = (cs @ [c]) @ map (the \<circ> create) qs" "\<forall>q\<in>set qs. create q \<noteq> None"
      using Cons.IH [of "m(name p \<mapsto> length cs)" "cs @ [c]" ?ns] by blast
    have "first_props name (filter (\<lambda>p. name p \<notin> set ns) (p # ps)) = p # qs"
    proof -
      have "filter (\<lambda>q. name q \<noteq> name p) (filter (\<lambda>q. name q \<notin> set ns) ps) = filter (\<lambda>q. name q \<notin> set ?ns) ps"
        by (simp add: conj_commute)
      then show ?thesis using False qs(3) by (simp add: first_props_filter)
    qed
    then show ?thesis using qs c by (intro exI [of _ "p # qs"]) simp
  qed
qed simp

lemma init_labels_spec:
  "init_labels create labels m ls = (True, ls') \<Longrightarrow>
   ls' = ls @ map (\<lambda>l. (the (create l), m (fst l))) labels \<and> (\<forall>l\<in>set labels. create l \<noteq> None)"
proof (induction labels arbitrary: ls)
  case (Cons l labels)
  then obtain x where x: "create l = Some x" by (cases "create l") auto
  then have "init_labels create labels m (ls @ [(x, m (fst l))]) = (True, ls')" using Cons.prems by simp
  from Cons.IH [OF this] show ?case using x by simp
qed simp

text \<open>What a label says of a document, and the documents that a group property counts: its own label is not asked.\<close>

definition label_holds :: "('l \<Rightarrow> doc_test option) \<Rightarrow> 'l \<Rightarrow> docid \<Rightarrow> bool" where
  "label_holds create l d \<longleftrightarrow> (case create l of None \<Rightarrow> False | Some test \<Rightarrow> test d = Some True)"

definition attr_create :: "(string \<Rightarrow> ustring) \<Rightarrow> attr_table \<Rightarrow> string \<times> string list \<Rightarrow> doc_test option" where
  "attr_create conv t l = Some (attr_label_test t (attr_label_new conv t (fst l) (snd l)))"

definition facet_docs :: "(string \<times> 'l \<Rightarrow> doc_test option) \<Rightarrow> (string \<times> 'l) list \<Rightarrow>
    (string \<times> string list \<Rightarrow> doc_test option) \<Rightarrow> (string \<times> string list) list \<Rightarrow> string option \<Rightarrow> docid list \<Rightarrow> docid list" where
  "facet_docs create labels acreate alabels own =
     filter (\<lambda>d. list_all (\<lambda>l. Some (fst l) = own \<or> label_holds create l d) labels \<and> list_all (\<lambda>l. label_holds acreate l d) alabels)"

definition labels_defined :: "('l \<Rightarrow> doc_test option) \<Rightarrow> 'l list \<Rightarrow> docid \<Rightarrow> bool" where
  "labels_defined create labels d \<longleftrightarrow> list_all (\<lambda>l. case create l of None \<Rightarrow> False | Some test \<Rightarrow> test d \<noteq> None) labels"

lemma label_holds_the: "create l \<noteq> None \<Longrightarrow> label_holds create l d \<longleftrightarrow> the (create l) d = Some True"
  by (auto simp: label_holds_def)

text \<open>The fields of the filter that \<open>initGroup\<close> and \<open>initAttr\<close> build.\<close>

lemma initGroup_fields:
  assumes "initGroup name createCounter createLabel props labels gf_new = (True, st)"
  shows "gf_groupCounters st = map (the \<circ> createCounter) (first_props name props)"
    "gf_groupLabels st = map (\<lambda>l. (the (createLabel l), index_of (map name (first_props name props)) (fst l))) labels"
    "gf_attrLabels st = []" "\<forall>l\<in>set labels. createLabel l \<noteq> None"
proof -
  obtain ok m cs where c: "init_counters name createCounter props Map.empty [] = (ok, m, cs)" by (metis prod_cases3)
  obtain ok' ls where l: "init_labels createLabel labels m [] = (ok', ls)" by (metis surj_pair)
  have e: "ok" "ok'" "st = gf_new\<lparr>gf_groupCounters := cs, gf_groupLabels := ls\<rparr>"
    using assms c l by (simp_all add: initGroup_def gf_new_def Let_def split: if_splits)
  have i: "init_counters name createCounter props Map.empty [] = (True, m, cs)" "Map.empty = index_of []"
    using c e(1) by (simp_all add: fun_eq_iff)
  obtain qs where "m = index_of ([] @ map name qs)" "qs = first_props name (filter (\<lambda>p. name p \<notin> set []) props)"
    "cs = [] @ map (the \<circ> createCounter) qs"
    using init_counters_spec [OF i] unfolding list.size by blast
  moreover have "ls = map (\<lambda>l. (the (createLabel l), m (fst l))) labels" "\<forall>l\<in>set labels. createLabel l \<noteq> None"
    using init_labels_spec [of createLabel labels m "[]" ls] l e(2) by simp_all
  ultimately show "gf_groupCounters st = map (the \<circ> createCounter) (first_props name props)"
    "gf_groupLabels st = map (\<lambda>l. (the (createLabel l), index_of (map name (first_props name props)) (fst l))) labels"
    "gf_attrLabels st = []" "\<forall>l\<in>set labels. createLabel l \<noteq> None"
    using e(3) by (simp_all add: gf_new_def)
qed

lemma distinct_pointers:
  "distinct (map fst labels) \<Longrightarrow> distinct (filter (\<lambda>p. p \<noteq> None) (map (\<lambda>l. index_of ns (fst l)) labels))"
proof (induction labels)
  case (Cons l labels)
  have "Some k \<notin> set (map (\<lambda>l. index_of ns (fst l)) labels)" if "index_of ns (fst l) = Some k" for k
  proof
    assume "Some k \<in> set (map (\<lambda>l. index_of ns (fst l)) labels)"
    then obtain l' where l': "l' \<in> set labels" "index_of ns (fst l') = Some k" by auto
    then have "fst l' = fst l" using index_of_nth [OF that] index_of_nth [OF l'(2)] by simp
    then show False using Cons.prems l'(1) by (metis distinct.simps(2) imageI list.set_map list.simps(9))
  qed
  then show ?case using Cons by (cases "index_of ns (fst l)") auto
qed simp

text \<open>C6: A search with selected labels: for group properties and labels on which \<open>initGroup\<close> succeeds and attribute labels, testing
the documents one after the other returns those for which all labels hold, in their order; the counter of each group property
receives, in their order, the documents for which all labels of the other properties and of the attributes hold.
\<close>

theorem facet_counts:
  assumes "initGroup name createCounter createLabel props labels gf_new = (True, st)" "distinct (map fst labels)"
    and "list_all (\<lambda>d. labels_defined createLabel labels d \<and> labels_defined (attr_create conv t) alabels d) ds"
    and "list_all2 (\<lambda>p c. add_list (fo_addDoc ops) (facet_docs createLabel labels (attr_create conv t) alabels (Some (name p)) ds)
      (the (createCounter p)) = Some c) (first_props name props) counters"
  shows "\<exists>st'. gf_test_all ops ds (initAttr conv t None alabels st) =
      Some (facet_docs createLabel labels (attr_create conv t) alabels None ds, st') \<and> gf_groupCounters st' = counters"
proof -
  let ?st = "initAttr conv t None alabels st" and ?qs = "first_props name props"
  note f = initGroup_fields [OF assms(1)]
  have cs: "gf_groupCounters ?st = map (the \<circ> createCounter) ?qs"
    and gl: "gf_groupLabels ?st = map (\<lambda>l. (the (createLabel l), index_of (map name ?qs) (fst l))) labels"
    and al: "map fst (gf_attrLabels ?st) = map (the \<circ> attr_create conv t) alabels" and ac: "gf_attrCounter ?st = None"
    using f by (simp_all add: initAttr_def attr_create_def Let_def case_prod_beta)
  have al': "list_all (\<lambda>l. P (fst l)) (gf_attrLabels ?st) \<longleftrightarrow> list_all (\<lambda>l. P (the (attr_create conv t l))) alabels" for P
    using arg_cong [OF al, of "list_all P"] by (simp add: list.pred_map comp_def)
  have len: "length counters = length (gf_groupCounters ?st)" using assms(4) cs by (simp add: list_all2_lengthD)
  have ap: "attr_pass ?st d \<longleftrightarrow> list_all (\<lambda>l. label_holds (attr_create conv t) l d) alabels" for d
    unfolding attr_pass_def al' [of "\<lambda>x. x d = Some True"] by (simp add: label_holds_def attr_create_def)
  have gp: "list_all (\<lambda>l. Q (snd l) \<or> fst l d = Some True) (gf_groupLabels ?st) \<longleftrightarrow>
      list_all (\<lambda>l. Q (index_of (map name ?qs) (fst l)) \<or> label_holds createLabel l d) labels" for Q d
    using f(4) by (auto simp: gl list_all_iff label_holds_the)
  have pass: "filter (passes ?st) ds = facet_docs createLabel labels (attr_create conv t) alabels None ds"
    using gp [of "\<lambda>_. False"] unfolding facet_docs_def by (intro filter_cong) (simp_all add: passes_def ap)
  have count: "filter (counted ?st k) ds = facet_docs createLabel labels (attr_create conv t) alabels (Some (name (?qs ! k))) ds"
    if "k < length ?qs" for k
    using gp [of "\<lambda>p. p = Some k"] index_of_distinct [OF first_props_distinct [of name props]] that
    unfolding facet_docs_def by (intro filter_cong) (simp_all add: counted_def ap)
  have "pointers_ok ?st"
    using distinct_pointers [OF assms(2), of "map name ?qs"] index_of_nth [of "map name ?qs"]
    by (auto simp: pointers_ok_def gl cs list_all_iff comp_def split: option.splits)
  moreover have "list_all (tests_defined ?st) ds"
  proof -
    have "tests_defined ?st d" if "labels_defined createLabel labels d" "labels_defined (attr_create conv t) alabels d" for d
      using that unfolding tests_defined_def al' [of "\<lambda>x. x d \<noteq> None"] gl labels_defined_def
      by (auto simp: list_all_iff split: option.splits)
    then show ?thesis using assms(3) by (auto simp: list_all_iff)
  qed
  moreover have "\<forall>k<length (gf_groupCounters ?st). add_list (fo_addDoc ops) (filter (counted ?st k) ds) (gf_groupCounters ?st ! k) = Some (counters ! k)"
    using assms(4) count by (simp add: cs list_all2_conv_all_nth)
  ultimately have "gf_test_all ops ds ?st = Some (filter (passes ?st) ds, ?st\<lparr>gf_groupCounters := counters, gf_attrCounter := None\<rparr>)"
    using len ac by (intro gf_test_all_spec) simp_all
  then show ?thesis using pass by simp
qed

text \<open>Group properties p and q over the sample table with the label a > b on p: document 0 has no value and is counted for p only.\<close>

definition sample_ops :: "(string_counter, unit) filter_ops" where
  "sample_ops = \<lparr>fo_addDoc = sc_addDoc, fo_attrAddDoc = (\<lambda>_. Some), fo_addAttrDoc = (\<lambda>_ _. Some)\<rparr>"

definition sample_label :: "string \<times> string list list \<Rightarrow> doc_test option" where
  "sample_label l = Some (string_label_test sample_table (string_label_ids ustr sample_table (snd l)))"

lemma sample_id_lists: "pid_ids (valueIdTable sample_table) 0 = Some []" "pid_ids (valueIdTable sample_table) 1 = Some [2, 3]"
  by (simp_all add: pid_ids_def sample_table_eq pid_getIdList_def prop_id_list_init_def prop_id_list_clear_def
      prop_id_list_at_def INDEX_MSB_def INDEX_MASK_def upt_rec)

lemma sample_tests: "sample_label (''p'', [[''a'', ''b'']]) = Some test \<Longrightarrow> test 0 = Some False \<and> test 1 = Some True"
proof -
  have i: "string_label_ids ustr sample_table [[''a'', ''b'']] = [2]"
    by (simp add: string_label_ids_def sample_table_eq propValueId_def ustr_def)
  have "parentIdSet sample_table 0 = Some {}" "parentIdSet sample_table 1 = Some {1, 2, 3}"
    by (simp_all add: parentIdSet_def sample_id_lists) (simp add: sample_table_eq add_parents.simps insert_commute)
  then show "sample_label (''p'', [[''a'', ''b'']]) = Some test \<Longrightarrow> test 0 = Some False \<and> test 1 = Some True"
    unfolding sample_label_def snd_conv i by (auto simp: string_label_test_def)
qed

lemma sample_adds: "sc_addDoc 0 (sc_new sample_table) = Some (sc_new sample_table)"
  "sc_addDoc 1 (sc_new sample_table) = Some \<lparr>sc_table = sample_table, sc_count = [1, 0, 1, 1]\<rparr>"
proof -
  have "replicate 4 (0 :: u32) = [0, 0, 0, 0]" by (simp add: numeral_eq_Suc)
  then show "sc_addDoc 0 (sc_new sample_table) = Some (sc_new sample_table)"
    "sc_addDoc 1 (sc_new sample_table) = Some \<lparr>sc_table = sample_table, sc_count = [1, 0, 1, 1]\<rparr>"
    by (simp_all add: sc_addDoc_def sc_new_def sample_id_lists sample_len)
qed

theorem facet_counts_witness:
  "\<exists>st st'. initGroup id (\<lambda>_. Some (sc_new sample_table)) sample_label [''p'', ''q'', ''p''] [(''p'', [[''a'', ''b'']])] gf_new = (True, st) \<and>
     gf_test_all sample_ops [0, 1, 0] (initAttr ustr at_init None [] st) = Some ([1], st') \<and>
     gf_groupCounters st' = replicate 2 \<lparr>sc_table = sample_table, sc_count = [1, 0, 1, 1]\<rparr>"
proof -
  let ?c = "\<lparr>sc_table = sample_table, sc_count = [1, 0, 1, 1]\<rparr>" and ?l = "(''p'', [[''a'', ''b'']])"
  obtain test where test: "sample_label ?l = Some test" "test 0 = Some False" "test 1 = Some True"
    using sample_tests by (auto simp: sample_label_def)
  obtain st :: "(string_counter, unit) group_filter" where st: "initGroup id (\<lambda>_. Some (sc_new sample_table)) sample_label [''p'', ''q'', ''p''] [?l] gf_new = (True, st)"
    using test(1) by (simp add: initGroup_def gf_new_def)
  have "sc_addDoc 0 ?c = Some ?c" by (simp add: sc_addDoc_def sample_id_lists)
  then obtain st' where "gf_test_all sample_ops [0, 1, 0] (initAttr ustr at_init None [] st) =
      Some (facet_docs sample_label [?l] (attr_create ustr at_init) [] None [0, 1, 0], st') \<and> gf_groupCounters st' = [?c, ?c]"
    using facet_counts [OF st, of ustr at_init "[]" "[0, 1, 0]" sample_ops "[?c, ?c]"] test sample_adds
    by (auto simp: labels_defined_def label_holds_def facet_docs_def sample_ops_def)
  then show ?thesis using st test by (auto simp: facet_docs_def label_holds_def numeral_2_eq_2)
qed

end
