(* ===== verification/Priority_Queue.thy ===== *)
theory Priority_Queue
  imports Prelude "HOL-Library.Multiset"
begin

text \<open>
  The bounded priority queue of core/search-manager/PriorityQueue.h: a binary heap in an array whose
  position 0 is not used. \<open>lt\<close> is the virtual method \<open>lessThan\<close>, \<open>null\<close> the value of \<open>Type()\<close> and \<open>(Type)0\<close>; a write
  or read outside of the array is \<open>None\<close>.
\<close>

section \<open>State and operations\<close>

record 'a pqueue =
  pq_heap :: "'a list"
  pq_size :: nat
  pq_maxSize :: nat

definition pq_initialize :: "'a \<Rightarrow> nat \<Rightarrow> 'a pqueue" where
  "pq_initialize null n = \<lparr>pq_heap = replicate (n + 1) null, pq_size = 0, pq_maxSize = n\<rparr>"

text \<open>The parent of a position; positions are cut to 32 bits.\<close>

definition pq_parent :: "nat \<Rightarrow> nat" where
  "pq_parent i = (i mod 2 ^ 32) div 2"

lemma pq_parent_less: "0 < pq_parent i \<Longrightarrow> pq_parent i < i"
proof -
  have "i mod 2 ^ 32 \<le> i" by simp
  then show "0 < pq_parent i \<Longrightarrow> pq_parent i < i" unfolding pq_parent_def by linarith
qed

function up_loop :: "('a \<Rightarrow> 'a \<Rightarrow> bool) \<Rightarrow> 'a \<Rightarrow> 'a list \<Rightarrow> nat \<Rightarrow> 'a list" where
  "up_loop lt node h i =
     (let j = pq_parent i in
      if j > 0 \<and> lt node (h ! j) then up_loop lt node (h[i := h ! j]) j else h[i := node])"
  by pat_completeness auto
termination
  by (relation "measure (\<lambda>(lt, node, h, i). i)") (auto simp: pq_parent_less)

definition upHeap :: "('a \<Rightarrow> 'a \<Rightarrow> bool) \<Rightarrow> 'a pqueue \<Rightarrow> 'a pqueue" where
  "upHeap lt q = q\<lparr>pq_heap := up_loop lt (pq_heap q ! pq_size q) (pq_heap q) (pq_size q)\<rparr>"

definition smaller_child :: "('a \<Rightarrow> 'a \<Rightarrow> bool) \<Rightarrow> nat \<Rightarrow> 'a list \<Rightarrow> nat \<Rightarrow> nat" where
  "smaller_child lt n h i =
     (let j = 2 * i; k = j + 1 in if k \<le> n \<and> lt (h ! k) (h ! j) then k else j)"

text \<open>The loop is started at position 1; position 0 has no children.\<close>

function down_loop :: "('a \<Rightarrow> 'a \<Rightarrow> bool) \<Rightarrow> nat \<Rightarrow> 'a \<Rightarrow> 'a list \<Rightarrow> nat \<Rightarrow> 'a list" where
  "down_loop lt n node h i =
     (let j = smaller_child lt n h i in
      if 0 < i \<and> j \<le> n \<and> lt (h ! j) node then down_loop lt n node (h[i := h ! j]) j else h[i := node])"
  by pat_completeness auto
termination
  by (relation "measure (\<lambda>(lt, n, node, h, i). n - i)") (auto simp: smaller_child_def Let_def split: if_splits)

declare up_loop.simps [simp del] down_loop.simps [simp del]

definition downHeap :: "('a \<Rightarrow> 'a \<Rightarrow> bool) \<Rightarrow> 'a pqueue \<Rightarrow> 'a pqueue" where
  "downHeap lt q = q\<lparr>pq_heap := down_loop lt (pq_size q) (pq_heap q ! 1) (pq_heap q) 1\<rparr>"

definition pq_adjustTop :: "('a \<Rightarrow> 'a \<Rightarrow> bool) \<Rightarrow> 'a pqueue \<Rightarrow> 'a pqueue" where
  "pq_adjustTop lt q = downHeap lt q"

definition pq_put :: "('a \<Rightarrow> 'a \<Rightarrow> bool) \<Rightarrow> 'a \<Rightarrow> 'a pqueue \<Rightarrow> 'a pqueue option" where
  "pq_put lt element q =
     (let n = pq_size q + 1 in
      if n < length (pq_heap q)
      then Some (upHeap lt (q\<lparr>pq_size := n, pq_heap := (pq_heap q)[n := element]\<rparr>))
      else None)"

definition pq_top :: "'a \<Rightarrow> 'a pqueue \<Rightarrow> 'a" where
  "pq_top null q = (if pq_size q > 0 then pq_heap q ! 1 else null)"

definition pq_insert :: "('a \<Rightarrow> 'a \<Rightarrow> bool) \<Rightarrow> 'a \<Rightarrow> 'a \<Rightarrow> 'a pqueue \<Rightarrow> (bool \<times> 'a pqueue) option" where
  "pq_insert lt null element q =
     (if pq_size q < pq_maxSize q then map_option (Pair True) (pq_put lt element q)
      else if pq_size q > 0 \<and> \<not> lt element (pq_top null q)
      then Some (True, pq_adjustTop lt (q\<lparr>pq_heap := (pq_heap q)[1 := element]\<rparr>))
      else Some (False, q))"

definition pq_pop :: "('a \<Rightarrow> 'a \<Rightarrow> bool) \<Rightarrow> 'a \<Rightarrow> 'a pqueue \<Rightarrow> 'a \<times> 'a pqueue" where
  "pq_pop lt null q =
     (if pq_size q > 0 then
        (let h = pq_heap q; n = pq_size q
         in (h ! 1, downHeap lt (q\<lparr>pq_heap := h[1 := h ! n, n := null], pq_size := n - 1\<rparr>)))
      else (null, q))"

definition pq_getAt :: "nat \<Rightarrow> 'a pqueue \<Rightarrow> 'a option" where
  "pq_getAt pos q = (if pos + 1 < length (pq_heap q) then Some (pq_heap q ! (pos + 1)) else None)"

section \<open>Invariant\<close>

definition strict_weak :: "('a \<Rightarrow> 'a \<Rightarrow> bool) \<Rightarrow> bool" where
  "strict_weak lt \<longleftrightarrow> (\<forall>x y. lt x y \<longrightarrow> \<not> lt y x) \<and> (\<forall>x y z. \<not> lt x y \<longrightarrow> \<not> lt y z \<longrightarrow> \<not> lt x z)"

definition is_heap :: "('a \<Rightarrow> 'a \<Rightarrow> bool) \<Rightarrow> nat \<Rightarrow> 'a list \<Rightarrow> bool" where
  "is_heap lt n h \<longleftrightarrow> (\<forall>c. 2 \<le> c \<longrightarrow> c \<le> n \<longrightarrow> \<not> lt (h ! c) (h ! (c div 2)))"

definition pq_inv :: "('a \<Rightarrow> 'a \<Rightarrow> bool) \<Rightarrow> 'a pqueue \<Rightarrow> bool" where
  "pq_inv lt q \<longleftrightarrow> length (pq_heap q) = pq_maxSize q + 1 \<and> pq_size q \<le> pq_maxSize q \<and>
     pq_maxSize q < 2 ^ 32 \<and> is_heap lt (pq_size q) (pq_heap q)"

definition pq_elems :: "'a pqueue \<Rightarrow> 'a list" where
  "pq_elems q = take (pq_size q) (tl (pq_heap q))"

lemma is_heap_top:
  assumes "strict_weak lt" "is_heap lt n h" "1 \<le> i" "i \<le> n"
  shows "\<not> lt (h ! i) (h ! 1)"
  using assms(3,4)
proof (induction i rule: less_induct)
  case (less i)
  show ?case
  proof (cases "i = 1")
    case True
    then show ?thesis using assms(1) by (metis strict_weak_def)
  next
    case False
    then have i: "2 \<le> i" "1 \<le> i div 2" "i div 2 < i" "i div 2 \<le> n" using less.prems by auto
    have "\<not> lt (h ! i) (h ! (i div 2))" using assms(2) i(1) less.prems(2) by (simp add: is_heap_def)
    moreover have "\<not> lt (h ! (i div 2)) (h ! 1)" using less.IH i by blast
    ultimately show ?thesis using assms(1) unfolding strict_weak_def by blast
  qed
qed

section \<open>Sifting\<close>

text \<open>A heap except that the element at \<open>i\<close> may be too small for its place.\<close>

definition heap_up :: "('a \<Rightarrow> 'a \<Rightarrow> bool) \<Rightarrow> nat \<Rightarrow> 'a list \<Rightarrow> nat \<Rightarrow> bool" where
  "heap_up lt n g i \<longleftrightarrow>
     (\<forall>c. 2 \<le> c \<longrightarrow> c \<le> n \<longrightarrow> c \<noteq> i \<longrightarrow> \<not> lt (g ! c) (g ! (c div 2))) \<and>
     (\<forall>c. 2 \<le> c \<longrightarrow> c \<le> n \<longrightarrow> c div 2 = i \<longrightarrow> 2 \<le> i \<longrightarrow> \<not> lt (g ! c) (g ! (i div 2)))"

text \<open>A heap except that the element at \<open>i\<close> may be too large for its place.\<close>

definition heap_down :: "('a \<Rightarrow> 'a \<Rightarrow> bool) \<Rightarrow> nat \<Rightarrow> 'a list \<Rightarrow> nat \<Rightarrow> bool" where
  "heap_down lt n g i \<longleftrightarrow>
     (\<forall>c. 2 \<le> c \<longrightarrow> c \<le> n \<longrightarrow> c div 2 \<noteq> i \<longrightarrow> \<not> lt (g ! c) (g ! (c div 2))) \<and>
     (\<forall>c. 2 \<le> c \<longrightarrow> c \<le> n \<longrightarrow> c div 2 = i \<longrightarrow> 2 \<le> i \<longrightarrow> \<not> lt (g ! c) (g ! (i div 2)))"

lemma sift_swap:
  assumes "i < length h" "j < length h" "i \<noteq> j"
  shows "h[i := h ! j, j := node] = (h[i := node])[i := h[i := node] ! j, j := h[i := node] ! i]"
  using assms by (intro nth_equalityI) (auto simp: nth_list_update)

lemma sift_mset:
  assumes "i < length h" "j < length h" "i \<noteq> j"
  shows "mset (h[i := h ! j, j := node]) = mset (h[i := node])"
  unfolding sift_swap [OF assms]
  using assms mset_swap [of j "h[i := node]" i] by simp

lemma heap_up_swap:
  assumes sw: "strict_weak lt" and n: "n < length h" and i: "0 < i div 2" "i \<le> n"
    and less: "lt node (h ! (i div 2))" and up: "heap_up lt n (h[i := node]) i"
  shows "heap_up lt n (h[i := h ! (i div 2), i div 2 := node]) (i div 2)"
proof -
  let ?g = "h[i := node]" and ?j = "i div 2"
  have len: "i < length h" using n i by simp
  note H = up [unfolded heap_up_def]
  have j: "1 \<le> ?j" "?j < i" "?j \<le> n" "2 \<le> i" "?j < length h" using i n by auto
  have E: "(h[i := h ! ?j, ?j := node]) ! c = (if c = ?j then node else if c = i then h ! ?j else h ! c)" if "c < length h" for c
    using that len j by (auto simp: nth_list_update)
  have G: "?g ! c = (if c = i then node else h ! c)" if "c < length h" for c
    using that len by (simp add: nth_list_update)
  have nlt: "\<not> lt (h ! ?j) node" using less sw unfolding strict_weak_def by blast
  have c1: "\<not> lt (h[i := h ! ?j, ?j := node] ! c) (h[i := h ! ?j, ?j := node] ! (c div 2))"
    if c: "2 \<le> c" "c \<le> n" "c \<noteq> ?j" for c
  proof -
    have lc: "c < length h" "c div 2 < length h" using c n by auto
    consider "c = i" | "c \<noteq> i" "c div 2 = i" | "c \<noteq> i" "c div 2 = ?j" | "c \<noteq> i" "c div 2 \<noteq> i" "c div 2 \<noteq> ?j" by blast
    then show ?thesis
    proof cases
      case 1
      then show ?thesis using E lc nlt j by simp
    next
      case 2
      have "\<not> lt (?g ! c) (?g ! ?j)" using H c 2 j(4) by blast
      then show ?thesis using E [OF lc(1)] E [OF lc(2)] G lc j 2 c by auto
    next
      case 3
      have "\<not> lt (?g ! c) (?g ! ?j)" using H c 3 by metis
      then have "\<not> lt (h ! c) (h ! ?j)" using G [OF lc(1)] G [OF j(5)] 3 j by simp
      then have "\<not> lt (h ! c) node" using nlt sw unfolding strict_weak_def by blast
      then show ?thesis using E [OF lc(1)] E [OF lc(2)] 3 c by simp
    next
      case 4
      have "\<not> lt (?g ! c) (?g ! (c div 2))" using H c 4(1) by blast
      then show ?thesis using E [OF lc(1)] E [OF lc(2)] G [OF lc(1)] G [OF lc(2)] 4 c by simp
    qed
  qed
  have c2: "\<not> lt (h[i := h ! ?j, ?j := node] ! c) (h[i := h ! ?j, ?j := node] ! (?j div 2))"
    if c: "2 \<le> c" "c \<le> n" "c div 2 = ?j" "2 \<le> ?j" for c
  proof -
    have lc: "c < length h" "?j div 2 < length h" "?j div 2 \<noteq> ?j" "?j div 2 \<noteq> i" "c \<noteq> ?j" using c n j by auto
    have jj: "\<not> lt (h ! ?j) (h ! (?j div 2))"
    proof -
      have "\<not> lt (?g ! ?j) (?g ! (?j div 2))" using H c(4) j by (metis less_irrefl)
      then show ?thesis using G [OF j(5)] G [OF lc(2)] j lc by simp
    qed
    show ?thesis
    proof (cases "c = i")
      case True
      then show ?thesis using E [OF lc(1)] E [OF lc(2)] lc jj by simp
    next
      case False
      have "\<not> lt (?g ! c) (?g ! ?j)" using H c False by metis
      then have "\<not> lt (h ! c) (h ! ?j)" using G [OF lc(1)] G [OF j(5)] False j by simp
      then have "\<not> lt (h ! c) (h ! (?j div 2))" using jj sw unfolding strict_weak_def by blast
      then show ?thesis using E [OF lc(1)] E [OF lc(2)] lc False by simp
    qed
  qed
  show ?thesis unfolding heap_up_def using c1 c2 by blast
qed

lemma up_loop_spec:
  assumes "strict_weak lt" "n < 2 ^ 32" "n < length h" "1 \<le> i" "i \<le> n" "heap_up lt n (h[i := node]) i"
  shows "is_heap lt n (up_loop lt node h i) \<and> mset (up_loop lt node h i) = mset (h[i := node]) \<and>
    (\<forall>p. p = 0 \<or> n < p \<longrightarrow> up_loop lt node h i ! p = h ! p)"
  using assms(3-6)
proof (induction i arbitrary: h rule: less_induct)
  case (less i)
  let ?g = "h[i := node]" and ?j = "i div 2"
  have p: "pq_parent i = ?j" using less.prems(3) assms(2) by (simp add: pq_parent_def)
  have len: "i < length h" using less.prems by simp
  show ?case
  proof (cases "?j > 0 \<and> lt node (h ! ?j)")
    case True
    have j: "1 \<le> ?j" "?j < i" "?j \<le> n" "?j < length h" using True less.prems by auto
    have u: "up_loop lt node h i = up_loop lt node (h[i := h ! ?j]) ?j"
      using True p by (subst up_loop.simps) (simp add: Let_def)
    have "heap_up lt n (h[i := h ! ?j, ?j := node]) ?j"
      by (rule heap_up_swap [OF assms(1) less.prems(1)]) (use True less.prems in simp_all)
    then have IH: "is_heap lt n (up_loop lt node (h[i := h ! ?j]) ?j) \<and>
        mset (up_loop lt node (h[i := h ! ?j]) ?j) = mset (h[i := h ! ?j, ?j := node]) \<and>
        (\<forall>p. p = 0 \<or> n < p \<longrightarrow> up_loop lt node (h[i := h ! ?j]) ?j ! p = h[i := h ! ?j] ! p)"
      by (intro less.IH) (use j less.prems(1) in simp_all)
    have "mset (h[i := h ! ?j, ?j := node]) = mset ?g" using sift_mset [of i h ?j node] len j by simp
    moreover have "h[i := h ! ?j] ! p = h ! p" if "p = 0 \<or> n < p" for p using that j less.prems(3) by auto
    ultimately show ?thesis unfolding u using IH by simp
  next
    case False
    have u: "up_loop lt node h i = ?g" using False p by (subst up_loop.simps) (auto simp: Let_def)
    have "\<not> lt (?g ! c) (?g ! (c div 2))" if "2 \<le> c" "c \<le> n" for c
      using False that len less.prems(4) unfolding heap_up_def by (cases "c = i") (auto simp: nth_list_update)
    then show ?thesis using u less.prems(2,3) by (auto simp: is_heap_def)
  qed
qed

lemma smaller_child_props:
  assumes "strict_weak lt" "smaller_child lt n h i \<le> n" "1 \<le> i"
  shows "smaller_child lt n h i div 2 = i" "i < smaller_child lt n h i"
    "2 \<le> c \<Longrightarrow> c \<le> n \<Longrightarrow> c div 2 = i \<Longrightarrow> \<not> lt (h ! c) (h ! smaller_child lt n h i)"
proof -
  have irr: "\<not> lt x x" for x using assms(1) unfolding strict_weak_def by blast
  have asym: "\<not> lt y x" if "lt x y" for x y using assms(1) that unfolding strict_weak_def by blast
  show "smaller_child lt n h i div 2 = i" "i < smaller_child lt n h i"
    using assms(2,3) by (auto simp: smaller_child_def Let_def)
  assume c: "2 \<le> c" "c \<le> n" "c div 2 = i"
  then have "c = 2 * i \<or> c = 2 * i + 1" by linarith
  then show "\<not> lt (h ! c) (h ! smaller_child lt n h i)"
    using c(2) irr asym by (auto simp: smaller_child_def Let_def)
qed

lemma heap_down_swap:
  assumes sw: "strict_weak lt" and n: "n < length h" and i: "1 \<le> i"
    and j: "smaller_child lt n h i = j" "j \<le> n"
    and less: "lt (h ! j) node" and down: "heap_down lt n (h[i := node]) i"
  shows "heap_down lt n (h[i := h ! j, j := node]) j"
proof -
  let ?g = "h[i := node]" and ?r = "h[i := h ! j, j := node]"
  have ji: "j div 2 = i" "i < j" using smaller_child_props(1,2) [OF sw _ i, of n h] j by simp_all
  have min: "\<not> lt (h ! c) (h ! j)" if "2 \<le> c" "c \<le> n" "c div 2 = i" for c
    using smaller_child_props(3) [OF sw _ i that, of h] j by simp
  note H = down [unfolded heap_down_def]
  have len: "i < length h" "j < length h" using n i ji j by auto
  have E: "?r ! c = (if c = j then node else if c = i then h ! j else h ! c)" if "c < length h" for c
    using that len ji by (auto simp: nth_list_update)
  have G: "?g ! c = (if c = i then node else h ! c)" if "c < length h" for c
    using that len by (simp add: nth_list_update)
  have c1: "\<not> lt (?r ! c) (?r ! (c div 2))" if c: "2 \<le> c" "c \<le> n" "c div 2 \<noteq> j" for c
  proof -
    have lc: "c < length h" "c div 2 < length h" using c n by auto
    consider "c = i" | "c = j" | "c \<noteq> i" "c \<noteq> j" "c div 2 = i" | "c \<noteq> i" "c \<noteq> j" "c div 2 \<noteq> i" by blast
    then show ?thesis
    proof cases
      case 1
      then have d: "c div 2 \<noteq> i" "c div 2 \<noteq> j" using c ji by auto
      have "2 \<le> j" "2 \<le> i" using c(1) 1 ji(2) by simp_all
      then have "\<not> lt (?g ! j) (?g ! (i div 2))" using H ji(1) j(2) by blast
      moreover have "?r ! c = h ! j" "?g ! j = h ! j" using E [OF lc(1)] G [OF len(2)] 1 ji(2) by simp_all
      moreover have "?r ! (c div 2) = h ! (i div 2)" "?g ! (i div 2) = h ! (i div 2)"
        using E [OF lc(2)] G [OF lc(2)] 1 d by simp_all
      ultimately show ?thesis by (simp only: not_False_eq_True)
    next
      case 2
      have "\<not> lt node (h ! j)" using less sw unfolding strict_weak_def by blast
      then show ?thesis using E [OF lc(1)] E [OF lc(2)] 2 ji by simp
    next
      case 3
      then show ?thesis using E [OF lc(1)] E [OF lc(2)] min [OF c(1,2) 3(3)] ji by simp
    next
      case 4
      have "\<not> lt (?g ! c) (?g ! (c div 2))" using H c 4(3) by blast
      then show ?thesis using E [OF lc(1)] E [OF lc(2)] G [OF lc(1)] G [OF lc(2)] 4 c by simp
    qed
  qed
  have c2: "\<not> lt (?r ! c) (?r ! (j div 2))" if c: "2 \<le> c" "c \<le> n" "c div 2 = j" for c
  proof -
    have lc: "c < length h" "c \<noteq> j" "c \<noteq> i" "c div 2 \<noteq> i" using c n ji by auto
    have "\<not> lt (?g ! c) (?g ! (c div 2))" using H c(1,2) lc(4) by blast
    then have "\<not> lt (?g ! c) (?g ! j)" unfolding c(3) .
    then show ?thesis using E [OF lc(1)] E [OF len(1)] G [OF lc(1)] G [OF len(2)] lc ji by simp
  qed
  show ?thesis unfolding heap_down_def using c1 c2 by blast
qed

lemma down_loop_spec:
  assumes "strict_weak lt" "n < length h" "1 \<le> i" "i < length h" "heap_down lt n (h[i := node]) i"
  shows "is_heap lt n (down_loop lt n node h i) \<and> mset (down_loop lt n node h i) = mset (h[i := node]) \<and>
    (\<forall>p. p = 0 \<or> n < p \<and> p \<noteq> i \<longrightarrow> down_loop lt n node h i ! p = h ! p)"
  using assms(2-5)
proof (induction "n - i" arbitrary: i h rule: less_induct)
  case less
  let ?g = "h[i := node]" and ?j = "smaller_child lt n h i"
  show ?case
  proof (cases "?j \<le> n \<and> lt (h ! ?j) node")
    case True
    note J = smaller_child_props [OF assms(1) _ less.prems(2), of n h]
    have j: "i < ?j" "?j \<le> n" "?j < length h" "1 \<le> ?j" using J True less.prems by auto
    have u: "down_loop lt n node h i = down_loop lt n node (h[i := h ! ?j]) ?j"
      using True less.prems(2) by (subst down_loop.simps) (simp add: Let_def)
    have "heap_down lt n (h[i := h ! ?j, ?j := node]) ?j"
      by (rule heap_down_swap [OF assms(1) less.prems(1,2) refl]) (use True less.prems in simp_all)
    then have IH: "is_heap lt n (down_loop lt n node (h[i := h ! ?j]) ?j) \<and>
        mset (down_loop lt n node (h[i := h ! ?j]) ?j) = mset (h[i := h ! ?j, ?j := node]) \<and>
        (\<forall>p. p = 0 \<or> n < p \<and> p \<noteq> ?j \<longrightarrow> down_loop lt n node (h[i := h ! ?j]) ?j ! p = h[i := h ! ?j] ! p)"
      by (intro less.hyps) (use j less.prems(1) in simp_all)
    have "mset (h[i := h ! ?j, ?j := node]) = mset ?g" using sift_mset [of i h ?j node] less.prems(3) j by simp
    moreover have "h[i := h ! ?j] ! p = h ! p" if "p = 0 \<or> n < p \<and> p \<noteq> i" for p using that less.prems(2) by auto
    ultimately show ?thesis unfolding u using IH j by auto
  next
    case False
    have u: "down_loop lt n node h i = ?g" using False by (subst down_loop.simps) (auto simp: Let_def)
    have "\<not> lt (?g ! c) (?g ! (c div 2))" if c: "2 \<le> c" "c \<le> n" for c
    proof (cases "c div 2 = i")
      case True
      then have jn: "?j \<le> n" using c by (auto simp: smaller_child_def Let_def)
      then have "\<not> lt (h ! c) (h ! ?j)" "\<not> lt (h ! ?j) node"
        using smaller_child_props(3) [OF assms(1) jn less.prems(2) c True] False by simp_all
      then have "\<not> lt (h ! c) node" using assms(1) unfolding strict_weak_def by blast
      then show ?thesis using True c less.prems by (auto simp: nth_list_update)
    next
      case False
      then show ?thesis using less.prems(4) c unfolding heap_down_def by blast
    qed
    then show ?thesis using u less.prems(2) by (auto simp: is_heap_def)
  qed
qed

section \<open>Operations on the multiset of elements\<close>

lemma heap_split:
  assumes "n < length h"
  shows "mset h = {#h ! 0#} + mset (take n (tl h)) + mset (drop (Suc n) h)"
proof -
  have "h = h ! 0 # take n (tl h) @ drop (Suc n) h"
    using assms by (cases h) (simp_all add: drop_Suc)
  then show ?thesis by (metis mset.simps(2) mset_append add_mset_add_single union_commute union_assoc)
qed

lemma elems_mset_eq:
  assumes "mset h' = mset h" "n < length h" "h' ! 0 = h ! 0" "\<And>p. n < p \<Longrightarrow> h' ! p = h ! p"
  shows "mset (take n (tl h')) = mset (take n (tl h))"
proof -
  have len: "length h' = length h" using assms(1) by (metis size_mset)
  then have "drop (Suc n) h' = drop (Suc n) h" using assms(4) by (intro nth_equalityI) simp_all
  then show ?thesis using heap_split [of n h] heap_split [of n h'] assms(1,2,3) len by simp
qed

lemma take_tl_update_Suc: "n + 1 < length h \<Longrightarrow> take (Suc n) (tl (h[Suc n := x])) = take n (tl h) @ [x]"
  by (cases h) (simp_all add: take_Suc_conv_app_nth)

lemma pq_put_spec:
  assumes sw: "strict_weak lt" and inv: "pq_inv lt q" and sz: "pq_size q < pq_maxSize q"
  shows "\<exists>q'. pq_put lt x q = Some q' \<and> pq_inv lt q' \<and> pq_maxSize q' = pq_maxSize q \<and>
    pq_size q' = Suc (pq_size q) \<and> mset (pq_elems q') = add_mset x (mset (pq_elems q))"
proof -
  let ?n = "Suc (pq_size q)" and ?h = "pq_heap q"
  let ?g = "?h[?n := x]"
  let ?r = "up_loop lt x ?g ?n"
  have len: "?n < length ?h" "length ?h = pq_maxSize q + 1" "pq_maxSize q < 2 ^ 32" using inv sz by (simp_all add: pq_inv_def)
  have gg: "?g[?n := x] = ?g" "?g ! ?n = x" using len by simp_all
  have "\<not> lt (?g ! c) (?g ! (c div 2))" if "2 \<le> c" "c \<le> ?n" "c \<noteq> ?n" for c
    using inv that by (simp add: pq_inv_def is_heap_def)
  then have "heap_up lt ?n (?g[?n := x]) ?n" unfolding gg heap_up_def by auto
  then have R: "is_heap lt ?n ?r \<and> mset ?r = mset ?g \<and> (\<forall>p. p = 0 \<or> ?n < p \<longrightarrow> ?r ! p = ?g ! p)"
    using up_loop_spec [OF sw, of ?n ?g ?n x] len gg by simp
  have put: "pq_put lt x q = Some (q\<lparr>pq_size := ?n, pq_heap := ?r\<rparr>)"
    using len gg(2) by (simp add: pq_put_def upHeap_def Let_def)
  have "mset (take ?n (tl ?r)) = mset (take ?n (tl ?g))"
    by (rule elems_mset_eq) (use R len in auto)
  also have "\<dots> = add_mset x (mset (pq_elems q))"
    using take_tl_update_Suc [of "pq_size q" ?h x] len by (simp add: pq_elems_def)
  finally have m: "mset (take ?n (tl ?r)) = add_mset x (mset (pq_elems q))" .
  have "length ?r = length ?h" using R by (metis length_list_update size_mset)
  then show ?thesis unfolding put using R m len sz by (simp add: pq_inv_def pq_elems_def)
qed

lemma pq_elems_nth: "pq_inv lt q \<Longrightarrow> i < pq_size q \<Longrightarrow> pq_elems q ! i = pq_heap q ! Suc i"
  by (simp add: pq_inv_def pq_elems_def nth_tl)

lemma pq_elems_length: "pq_inv lt q \<Longrightarrow> length (pq_elems q) = pq_size q"
  by (simp add: pq_inv_def pq_elems_def)

lemma pq_elems_Cons: "pq_inv lt q \<Longrightarrow> 0 < pq_size q \<Longrightarrow> pq_elems q = pq_heap q ! 1 # tl (pq_elems q)"
  using pq_elems_length [of lt q] pq_elems_nth [of lt q 0]
  by (metis One_nat_def hd_conv_nth length_0_conv list.collapse less_irrefl)

lemma pq_top_least:
  assumes "strict_weak lt" "pq_inv lt q" "x \<in> set (pq_elems q)"
  shows "\<not> lt x (pq_top null q)"
proof -
  obtain i where i: "i < pq_size q" "x = pq_heap q ! Suc i"
    using assms(3) pq_elems_length [OF assms(2)] pq_elems_nth [OF assms(2)] by (metis in_set_conv_nth)
  then have "\<not> lt x (pq_heap q ! 1)"
    using is_heap_top [OF assms(1), of "pq_size q" "pq_heap q" "Suc i"] assms(2) by (simp add: pq_inv_def)
  then show ?thesis using i(1) by (simp add: pq_top_def)
qed

text \<open>Changing the element at the top and sifting it down; the order may be broken at the top.\<close>

definition pq_loose :: "('a \<Rightarrow> 'a \<Rightarrow> bool) \<Rightarrow> 'a pqueue \<Rightarrow> bool" where
  "pq_loose lt q \<longleftrightarrow> length (pq_heap q) = pq_maxSize q + 1 \<and> pq_size q \<le> pq_maxSize q \<and> pq_maxSize q < 2 ^ 32 \<and>
     (\<forall>c. 2 \<le> c \<longrightarrow> c \<le> pq_size q \<longrightarrow> c div 2 \<noteq> 1 \<longrightarrow> \<not> lt (pq_heap q ! c) (pq_heap q ! (c div 2)))"

lemma pq_inv_loose: "pq_inv lt q \<Longrightarrow> pq_loose lt q"
  by (simp add: pq_inv_def pq_loose_def is_heap_def)

lemma downHeap_spec:
  assumes sw: "strict_weak lt" and loose: "pq_loose lt q" and pos: "0 < pq_maxSize q"
  shows "pq_inv lt (downHeap lt q) \<and> pq_maxSize (downHeap lt q) = pq_maxSize q \<and>
    pq_size (downHeap lt q) = pq_size q \<and> mset (pq_elems (downHeap lt q)) = mset (pq_elems q)"
proof -
  let ?n = "pq_size q" and ?h = "pq_heap q"
  let ?r = "down_loop lt ?n (?h ! 1) ?h 1"
  have len: "length ?h = pq_maxSize q + 1" "pq_maxSize q < 2 ^ 32" and sz: "?n \<le> pq_maxSize q" "0 < pq_maxSize q"
    and hp: "\<And>c. 2 \<le> c \<Longrightarrow> c \<le> ?n \<Longrightarrow> c div 2 \<noteq> 1 \<Longrightarrow> \<not> lt (?h ! c) (?h ! (c div 2))"
    using loose pos by (simp_all add: pq_loose_def)
  have "heap_down lt ?n (?h[1 := ?h ! 1]) 1" using hp by (simp add: heap_down_def)
  then have R: "is_heap lt ?n ?r \<and> mset ?r = mset (?h[1 := ?h ! 1]) \<and> (\<forall>p. p = 0 \<or> ?n < p \<and> p \<noteq> 1 \<longrightarrow> ?r ! p = ?h ! p)"
    by (intro down_loop_spec [OF sw]) (use len sz in simp_all)
  have le: "length ?r = length ?h" using R by (metis length_list_update size_mset)
  have "mset (take ?n (tl ?r)) = mset (take ?n (tl ?h))"
  proof (cases "?n = 0")
    case False
    then show ?thesis by (intro elems_mset_eq) (use R len sz in auto)
  qed simp
  then show ?thesis using R le len sz by (simp add: downHeap_def pq_inv_def pq_elems_def)
qed

lemma pq_adjustTop_spec:
  assumes "strict_weak lt" "pq_inv lt q" "0 < pq_size q"
  shows "let q' = pq_adjustTop lt (q\<lparr>pq_heap := (pq_heap q)[1 := x]\<rparr>) in
    pq_inv lt q' \<and> pq_maxSize q' = pq_maxSize q \<and> pq_size q' = pq_size q \<and>
    mset (pq_elems q') = add_mset x (mset (tl (pq_elems q)))"
proof -
  let ?q = "q\<lparr>pq_heap := (pq_heap q)[1 := x]\<rparr>"
  have len: "length (pq_heap q) = pq_maxSize q + 1" "pq_maxSize q < 2 ^ 32" "pq_size q \<le> pq_maxSize q"
    using assms(2) by (simp_all add: pq_inv_def)
  have "\<not> lt (pq_heap ?q ! c) (pq_heap ?q ! (c div 2))" if "2 \<le> c" "c \<le> pq_size ?q" "c div 2 \<noteq> 1" for c
  proof -
    have "c div 2 \<noteq> 1" "c \<noteq> 1" using that by simp_all
    then show ?thesis using assms(2) that by (simp add: pq_inv_def is_heap_def)
  qed
  then have "pq_loose lt ?q" using len by (simp add: pq_loose_def)
  then have D: "pq_inv lt (downHeap lt ?q) \<and> pq_maxSize (downHeap lt ?q) = pq_maxSize q \<and>
    pq_size (downHeap lt ?q) = pq_size q \<and> mset (pq_elems (downHeap lt ?q)) = mset (pq_elems ?q)"
    using downHeap_spec [OF assms(1), of ?q] len assms(3) by simp
  have "pq_elems ?q = x # tl (pq_elems q)"
    using len assms(3) by (cases "pq_heap q"; cases "tl (pq_heap q)"; cases "pq_size q") (auto simp: pq_elems_def)
  then show ?thesis using D by (simp add: pq_adjustTop_def)
qed

lemma pq_pop_spec:
  assumes "strict_weak lt" "pq_loose lt q" "0 < pq_size q"
  shows "let (x, q') = pq_pop lt null q in x = pq_top null q \<and> pq_inv lt q' \<and> pq_maxSize q' = pq_maxSize q \<and>
    pq_size q' = pq_size q - 1 \<and> add_mset x (mset (pq_elems q')) = mset (pq_elems q)"
proof -
  let ?n = "pq_size q" and ?h = "pq_heap q"
  let ?q = "q\<lparr>pq_heap := ?h[1 := ?h ! ?n, ?n := null], pq_size := ?n - 1\<rparr>"
  have len: "length ?h = pq_maxSize q + 1" "pq_maxSize q < 2 ^ 32" "?n \<le> pq_maxSize q"
    using assms(2) by (simp_all add: pq_loose_def)
  have "\<not> lt (pq_heap ?q ! c) (pq_heap ?q ! (c div 2))" if "2 \<le> c" "c \<le> pq_size ?q" "c div 2 \<noteq> 1" for c
  proof -
    have "c div 2 \<noteq> 1" "c \<noteq> 1" "c \<noteq> ?n" "c div 2 \<noteq> ?n" "c \<le> ?n" using that assms(3) by auto
    then show ?thesis using assms(2) that by (simp add: pq_loose_def)
  qed
  then have "pq_loose lt ?q" using len by (simp add: pq_loose_def)
  then have D: "pq_inv lt (downHeap lt ?q) \<and> pq_maxSize (downHeap lt ?q) = pq_maxSize q \<and>
    pq_size (downHeap lt ?q) = ?n - 1 \<and> mset (pq_elems (downHeap lt ?q)) = mset (pq_elems ?q)"
    using downHeap_spec [OF assms(1), of ?q] len assms(3) by simp
  have "add_mset (?h ! 1) (mset (pq_elems ?q)) = mset (pq_elems q)"
  proof -
    obtain z a t where h: "?h = z # a # t" using len assms(3) by (cases ?h; cases "tl ?h") auto
    obtain m where m: "?n = Suc m" using assms(3) gr0_implies_Suc by blast
    have mt: "m \<le> length t" using len h m by simp
    show ?thesis
    proof (cases m)
      case 0
      then show ?thesis using h m by (simp add: pq_elems_def)
    next
      case (Suc k)
      then have "take m t = take k t @ [t ! k]" using mt by (simp add: take_Suc_conv_app_nth)
      then show ?thesis using h m Suc by (simp add: pq_elems_def)
    qed
  qed
  then show ?thesis using D assms(3) by (simp add: pq_pop_def pq_top_def Let_def)
qed

section \<open>The contract of a queue\<close>

text \<open>
  A priority queue for its clients: abstractly a multiset, of which the top is a least element.
\<close>

locale priority_queue =
  fixes lt :: "'a \<Rightarrow> 'a \<Rightarrow> bool"
    and qinv :: "'q \<Rightarrow> bool"
    and qelems :: "'q \<Rightarrow> 'a multiset"
    and qtop :: "'q \<Rightarrow> 'a"
    and qpop :: "'q \<Rightarrow> 'a \<times> 'q"
  assumes order: "strict_weak lt"
    and top_least: "qinv q \<Longrightarrow> x \<in># qelems q \<Longrightarrow> \<not> lt x (qtop q)"
    and pop_top: "qinv q \<Longrightarrow> qelems q \<noteq> {#} \<Longrightarrow> fst (qpop q) = qtop q"
    and pop_inv: "qinv q \<Longrightarrow> qelems q \<noteq> {#} \<Longrightarrow> qinv (snd (qpop q))"
    and pop_elems: "qinv q \<Longrightarrow> qelems q \<noteq> {#} \<Longrightarrow> add_mset (fst (qpop q)) (qelems (snd (qpop q))) = qelems q"
begin

text \<open>Taking \<open>n\<close> elements out of the queue.\<close>

primrec drain :: "nat \<Rightarrow> 'q \<Rightarrow> 'a list" where
  "drain 0 q = []"
| "drain (Suc n) q = fst (qpop q) # drain n (snd (qpop q))"

lemma drain_sorted:
  "qinv q \<Longrightarrow> n = size (qelems q) \<Longrightarrow>
     mset (drain n q) = qelems q \<and> sorted_wrt (\<lambda>x y. \<not> lt y x) (drain n q)"
proof (induction n arbitrary: q)
  case (Suc n)
  let ?x = "fst (qpop q)" and ?q = "snd (qpop q)"
  have ne: "qelems q \<noteq> {#}" using Suc.prems(2) by auto
  note E = pop_elems [OF Suc.prems(1) ne]
  have "n = size (qelems ?q)" using Suc.prems(2) E by (metis size_add_mset nat.inject)
  then have IH: "mset (drain n ?q) = qelems ?q" "sorted_wrt (\<lambda>x y. \<not> lt y x) (drain n ?q)"
    using Suc.IH [OF pop_inv [OF Suc.prems(1) ne]] by blast+
  have "\<not> lt y ?x" if "y \<in> set (drain n ?q)" for y
  proof -
    have "y \<in># qelems q" using that IH(1) E by (metis set_mset_mset union_iff add_mset_add_single)
    then show ?thesis using top_least [OF Suc.prems(1)] pop_top [OF Suc.prems(1) ne] by simp
  qed
  then show ?case using IH E by simp
qed simp

end

text \<open>The heap provides the contract, for every strict weak order; for linear orders as an interpretation.\<close>

lemma pq_contract:
  assumes "strict_weak lt"
  shows "priority_queue lt (pq_inv lt) (\<lambda>q. mset (pq_elems q)) (pq_top null) (pq_pop lt null)"
proof
  show "strict_weak lt" by (rule assms)
  fix q assume q: "pq_inv lt q"
  show "\<not> lt x (pq_top null q)" if "x \<in># mset (pq_elems q)" for x
    using pq_top_least [OF assms q] that by simp
  assume "mset (pq_elems q) \<noteq> {#}"
  then have "0 < pq_size q" using pq_elems_length [OF q] by (cases "pq_elems q") auto
  then show "fst (pq_pop lt null q) = pq_top null q" "pq_inv lt (snd (pq_pop lt null q))"
    "add_mset (fst (pq_pop lt null q)) (mset (pq_elems (snd (pq_pop lt null q)))) = mset (pq_elems q)"
    using pq_pop_spec [OF assms pq_inv_loose [OF q], of null, unfolded Let_def split_beta] by blast+
qed

lemma strict_weak_less: "strict_weak ((<) :: 'a :: linorder \<Rightarrow> 'a \<Rightarrow> bool)"
  unfolding strict_weak_def by (meson less_asym not_less order_trans)

interpretation linear: priority_queue "(<) :: 'a :: linorder \<Rightarrow> 'a \<Rightarrow> bool" "pq_inv (<)"
  "\<lambda>q. mset (pq_elems q)" "pq_top null" "pq_pop (<) null" for null
  by (rule pq_contract [OF strict_weak_less])

text \<open>The elements kept: as many as the capacity allows, none of them smaller than one left out.\<close>

definition keeps_largest :: "('a \<Rightarrow> 'a \<Rightarrow> bool) \<Rightarrow> nat \<Rightarrow> 'a multiset \<Rightarrow> 'a multiset \<Rightarrow> bool" where
  "keeps_largest lt k seen kept \<longleftrightarrow>
     kept \<subseteq># seen \<and> size kept = min k (size seen) \<and> (\<forall>x\<in>#seen - kept. \<forall>y\<in>#kept. \<not> lt y x)"

fun insert_all :: "('a \<Rightarrow> 'a \<Rightarrow> bool) \<Rightarrow> 'a \<Rightarrow> 'a list \<Rightarrow> 'a pqueue \<Rightarrow> 'a pqueue option" where
  "insert_all lt null [] q = Some q"
| "insert_all lt null (x # xs) q = Option.bind (pq_insert lt null x q) (\<lambda>(_, q'). insert_all lt null xs q')"

fun pop_all :: "('a \<Rightarrow> 'a \<Rightarrow> bool) \<Rightarrow> 'a \<Rightarrow> nat \<Rightarrow> 'a pqueue \<Rightarrow> 'a list" where
  "pop_all lt null 0 q = []"
| "pop_all lt null (Suc n) q = (let (x, q') = pq_pop lt null q in x # pop_all lt null n q')"

lemma keeps_largest_full:
  assumes "keeps_largest lt k seen kept" "size kept < k"
  shows "kept = seen"
proof -
  have "size kept = size seen" "kept \<subseteq># seen" using assms by (auto simp: keeps_largest_def min_def split: if_splits)
  then show ?thesis by (metis mset_subset_size nat_neq_iff subset_mset.le_imp_less_or_eq)
qed

lemma keeps_largest_replace:
  assumes sw: "strict_weak lt" and K: "keeps_largest lt k seen (add_mset t rest)" and k: "k = size (add_mset t rest)"
    and t: "\<And>y. y \<in># rest \<Longrightarrow> \<not> lt y t" and x: "\<not> lt x t"
  shows "keeps_largest lt k (add_mset x seen) (add_mset x rest)"
proof -
  have sub: "add_mset t rest \<subseteq># seen" using K by (simp add: keeps_largest_def)
  then have s: "add_mset t rest + (seen - add_mset t rest) = seen" by (rule subset_mset.add_diff_inverse)
  have "add_mset x rest + add_mset t (seen - add_mset t rest) = add_mset x (add_mset t rest + (seen - add_mset t rest))"
    by simp
  then have "add_mset x rest + add_mset t (seen - add_mset t rest) = add_mset x seen" unfolding s .
  then have "add_mset x seen - add_mset x rest = add_mset t (seen - add_mset t rest)"
    by (metis add_diff_cancel_left')
  moreover have "\<not> lt y d" if y: "y \<in># add_mset x rest" and d: "d \<in># add_mset t (seen - add_mset t rest)" for y d
  proof -
    have yt: "\<not> lt y t" using y x t by auto
    have "d = t \<or> \<not> lt t d" using d K by (auto simp: keeps_largest_def)
    then show ?thesis using yt sw unfolding strict_weak_def by metis
  qed
  moreover have "add_mset x rest \<subseteq># add_mset x seen" using sub by (simp add: subset_mset.order_trans [OF _ sub])
  moreover have "size (add_mset x rest) = min k (size (add_mset x seen))"
    using k size_mset_mono [OF sub] by simp
  ultimately show ?thesis unfolding keeps_largest_def by auto
qed

lemma keeps_largest_drop:
  assumes sw: "strict_weak lt" and K: "keeps_largest lt k seen kept" and k: "k = size kept"
    and t: "\<And>y. y \<in># kept \<Longrightarrow> \<not> lt y t" and x: "k = 0 \<or> lt x t"
  shows "keeps_largest lt k (add_mset x seen) kept"
proof -
  have sub: "kept \<subseteq># seen" using K by (simp add: keeps_largest_def)
  have "\<not> lt y x" if "y \<in># kept" for y
    using t [OF that] x k that sw unfolding strict_weak_def by (metis empty_iff set_mset_empty size_eq_0_iff_empty)
  moreover have "add_mset x seen - kept = add_mset x (seen - kept)" 
    using multiset_diff_union_assoc [OF sub, of "{#x#}"] by simp
  moreover have "kept \<subseteq># add_mset x seen" using sub by (simp add: subset_mset.order_trans [OF sub])
  ultimately show ?thesis using K k size_mset_mono [OF sub] unfolding keeps_largest_def by auto
qed

lemma pq_insert_spec:
  assumes sw: "strict_weak lt" and inv: "pq_inv lt q"
    and K: "keeps_largest lt (pq_maxSize q) seen (mset (pq_elems q))"
  shows "\<exists>b q'. pq_insert lt null x q = Some (b, q') \<and> pq_inv lt q' \<and> pq_maxSize q' = pq_maxSize q \<and>
    keeps_largest lt (pq_maxSize q) (add_mset x seen) (mset (pq_elems q'))"
proof (cases "pq_size q < pq_maxSize q")
  case True
  obtain q' where q': "pq_put lt x q = Some q'" "pq_inv lt q'" "pq_maxSize q' = pq_maxSize q"
    "mset (pq_elems q') = add_mset x (mset (pq_elems q))"
    using pq_put_spec [OF sw inv True] by blast
  have "size (mset (pq_elems q)) < pq_maxSize q" using True pq_elems_length [OF inv] by simp
  then have "mset (pq_elems q) = seen" by (rule keeps_largest_full [OF K])
  then have "keeps_largest lt (pq_maxSize q) (add_mset x seen) (mset (pq_elems q'))"
    using q'(4) True pq_elems_length [OF inv] by (simp add: keeps_largest_def min_def flip: size_mset)
  then show ?thesis using q' True by (auto simp: pq_insert_def)
next
  case False
  then have full: "pq_size q = pq_maxSize q" using inv by (simp add: pq_inv_def)
  have sz: "pq_maxSize q = size (mset (pq_elems q))" using full pq_elems_length [OF inv] by simp
  have least: "\<not> lt y (pq_top null q)" if "y \<in># mset (pq_elems q)" for y
    using pq_top_least [OF sw inv] that by simp
  show ?thesis
  proof (cases "pq_size q > 0 \<and> \<not> lt x (pq_top null q)")
    case True
    have e: "mset (pq_elems q) = add_mset (pq_top null q) (mset (tl (pq_elems q)))"
      using pq_elems_Cons [OF inv] True by (metis mset.simps(2) pq_top_def)
    have "keeps_largest lt (pq_maxSize q) (add_mset x seen) (add_mset x (mset (tl (pq_elems q))))"
      by (rule keeps_largest_replace [OF sw K [unfolded e] sz [unfolded e]]) (use least e True in auto)
    then show ?thesis using pq_adjustTop_spec [OF sw inv, of x] True False
      by (auto simp: pq_insert_def Let_def)
  next
    case no: False
    have "keeps_largest lt (pq_maxSize q) (add_mset x seen) (mset (pq_elems q))"
      by (rule keeps_largest_drop [OF sw K sz least]) (use no full in auto)
    then show ?thesis using no False inv by (auto simp: pq_insert_def)
  qed
qed

lemma insert_all_spec:
  assumes sw: "strict_weak lt"
  shows "pq_inv lt q \<Longrightarrow> keeps_largest lt (pq_maxSize q) seen (mset (pq_elems q)) \<Longrightarrow>
    \<exists>q'. insert_all lt null xs q = Some q' \<and> pq_inv lt q' \<and> pq_maxSize q' = pq_maxSize q \<and>
      keeps_largest lt (pq_maxSize q) (mset xs + seen) (mset (pq_elems q'))"
proof (induction xs arbitrary: q seen)
  case (Cons x xs)
  obtain b q1 where q1: "pq_insert lt null x q = Some (b, q1)" "pq_inv lt q1" "pq_maxSize q1 = pq_maxSize q"
    "keeps_largest lt (pq_maxSize q) (add_mset x seen) (mset (pq_elems q1))"
    using pq_insert_spec [OF sw Cons.prems] by blast
  show ?case using Cons.IH [OF q1(2), of "add_mset x seen"] q1 by simp
qed auto

lemma pop_all_drain:
  "strict_weak lt \<Longrightarrow> priority_queue.drain (pq_pop lt null) n q = pop_all lt null n q"
proof (induction n arbitrary: q)
  case 0
  then show ?case using priority_queue.drain.simps(1) [OF pq_contract [OF 0]] by simp
next
  case (Suc n)
  then show ?case using priority_queue.drain.simps(2) [OF pq_contract [OF Suc.prems]] by (simp add: split_beta)
qed

section \<open>Properties\<close>

text \<open>C20: The bounded queue keeps the largest elements. Inserting any sequence into a new queue of
capacity \<open>k\<close> never writes outside of the array and keeps a heap; the queue then holds \<open>k\<close> of the elements (all, if there are fewer),
none of them less than an element that was left out, and popping them all returns them in ascending order.\<close>

theorem pqueue_keeps_largest:
  assumes "strict_weak lt" "k < 2 ^ 32"
  shows "\<exists>q. insert_all lt null xs (pq_initialize null k) = Some q \<and> pq_inv lt q \<and>
    keeps_largest lt k (mset xs) (mset (pq_elems q)) \<and>
    mset (pop_all lt null (pq_size q) q) = mset (pq_elems q) \<and>
    sorted_wrt (\<lambda>x y. \<not> lt y x) (pop_all lt null (pq_size q) q)"
proof -
  let ?q0 = "pq_initialize null k"
  have "pq_inv lt ?q0" using assms(2) by (simp add: pq_initialize_def pq_inv_def is_heap_def)
  moreover have "keeps_largest lt (pq_maxSize ?q0) {#} (mset (pq_elems ?q0))"
    by (simp add: pq_initialize_def keeps_largest_def pq_elems_def)
  ultimately obtain q where q: "insert_all lt null xs ?q0 = Some q" "pq_inv lt q"
    "keeps_largest lt k (mset xs) (mset (pq_elems q))"
    using insert_all_spec [OF assms(1), of ?q0 "{#}" null xs] by (auto simp: pq_initialize_def)
  have "pq_size q = size (mset (pq_elems q))" using pq_elems_length [OF q(2)] by simp
  then show ?thesis
    using priority_queue.drain_sorted [OF pq_contract [OF assms(1), of null] q(2)] pop_all_drain [OF assms(1)] q by auto
qed

text \<open>An instance of \<open>pqueue_keeps_largest\<close>: the two largest of three.\<close>

theorem pqueue_keeps_largest_witness:
  "\<exists>q. insert_all (<) 0 [5, 1, 7 :: nat] (pq_initialize 0 2) = Some q \<and>
     size (mset (pq_elems q)) = 2 \<and> sorted_wrt (\<lambda>x y. \<not> y < x) (pop_all (<) 0 (pq_size q) q)"
  using pqueue_keeps_largest [OF strict_weak_less, of 2 "0 :: nat" "[5, 1, 7]"]
  by (auto simp: keeps_largest_def)

end
