(* ===== verification/Attr_Counter.thy ===== *)
theory Attr_Counter
  imports Ordered_Map Attr_Table Prop_Value_Table Group_Rep Priority_Queue
begin

text \<open>
  Counting of attribute names and values for the results of a search (core/mining-manager/attr-manager: AttrCounter.h,
  AttrCounter.cpp, AttrScoreCounter.h, AttrScoreCounter.cpp). The counts are of type \<open>int\<close>; scores of type \<open>double\<close> are
  elements of an ordered integral domain, in which the counts are exact. Reading an absent key of a table gives 0; the entry
  with the value 0 that \<open>operator[]\<close> then adds is not distinguished by a later read and is left out.
\<close>

section \<open>The queue\<close>

text \<open>
  The bounded priority queue of izenelib is outside of the repository: its operations, which depend on the
  overridden \<open>lessThan\<close>, are a parameter. \<open>qo_top\<close> inserts the elements
  and fills a vector from its end with the elements that are popped.
\<close>

record ('q, 'e) queue_ops =
  qo_initialize :: "nat \<Rightarrow> 'q"
  qo_insert :: "'e \<Rightarrow> 'q \<Rightarrow> 'q"
  qo_size :: "'q \<Rightarrow> nat"
  qo_pop :: "'q \<Rightarrow> 'e \<times> 'q"

fun qo_pops :: "('q, 'e) queue_ops \<Rightarrow> nat \<Rightarrow> 'q \<Rightarrow> 'e list" where
  "qo_pops ops 0 q = []"
| "qo_pops ops (Suc n) q = (let (x, q') = qo_pop ops q in x # qo_pops ops n q')"

definition qo_top :: "('q, 'e) queue_ops \<Rightarrow> nat \<Rightarrow> 'e list \<Rightarrow> 'e list" where
  "qo_top ops n xs = (let q = fold (qo_insert ops) xs (qo_initialize ops n) in rev (qo_pops ops (qo_size ops q) q))"

text \<open>The queues of names order them by score.\<close>

definition score_less :: "'k \<times> 'd :: linorder \<Rightarrow> 'k \<times> 'd \<Rightarrow> bool" where
  "score_less p1 p2 \<longleftrightarrow> snd p1 < snd p2"

type_synonym ('q, 'e) queue_class = "('e \<Rightarrow> 'e \<Rightarrow> bool) \<Rightarrow> ('q, 'e) queue_ops"

section \<open>AttrCounter\<close>

record attr_counter =
  ac_attrTable :: attr_table
  ac_minValueCount :: int
  ac_maxIterCount :: int
  ac_iterCount :: int
  ac_nameDocCountTable :: "(u32 \<times> int) list"
  ac_nameValueCountTable :: "(u32 \<times> int) list"
  ac_valueDocCountTable :: "(u32 \<times> int) list"

definition ac_new :: "attr_table \<Rightarrow> int \<Rightarrow> int \<Rightarrow> attr_counter" where
  "ac_new t minValueCount maxIterCount =
     \<lparr>ac_attrTable = t, ac_minValueCount = minValueCount, ac_maxIterCount = maxIterCount, ac_iterCount = 0,
      ac_nameDocCountTable = [], ac_nameValueCountTable = [], ac_valueDocCountTable = []\<rparr>"

definition iter_full :: "'z attr_counter_scheme \<Rightarrow> bool" where
  "iter_full c \<longleftrightarrow> ac_maxIterCount c \<noteq> 0 \<and> ac_iterCount c \<ge> ac_maxIterCount c"

definition count_iter :: "'z attr_counter_scheme \<Rightarrow> 'z attr_counter_scheme" where
  "count_iter c = (if ac_maxIterCount c \<noteq> 0 then c\<lparr>ac_iterCount := ac_iterCount c + 1\<rparr> else c)"

text \<open>The loop of \<open>addDoc\<close>; \<open>nameIdSet\<close> are the names already counted for the document.\<close>

fun add_values :: "u32 list \<Rightarrow> u32 set \<Rightarrow> 'z attr_counter_scheme \<Rightarrow> 'z attr_counter_scheme option" where
  "add_values [] nameIdSet c = Some c"
| "add_values (vId # vIds) nameIdSet c =
     (let c1 = c\<lparr>ac_valueDocCountTable := map_bump vId (ac_valueDocCountTable c)\<rparr> in
      Option.bind (valueId2NameId (ac_attrTable c) vId) (\<lambda>nId.
        if nId \<in> nameIdSet then add_values vIds nameIdSet c1
        else add_values vIds (insert nId nameIdSet) (c1\<lparr>ac_nameDocCountTable := map_bump nId (ac_nameDocCountTable c1)\<rparr>)))"

definition ac_addDoc :: "docid \<Rightarrow> 'z attr_counter_scheme \<Rightarrow> 'z attr_counter_scheme option" where
  "ac_addDoc doc c =
     (if iter_full c then Some c
      else Option.bind (pid_ids (at_valueIdTable (ac_attrTable c)) doc) (\<lambda>ids. add_values ids {} (count_iter c)))"

fun add_name_values :: "u32 \<Rightarrow> u32 list \<Rightarrow> bool \<Rightarrow> 'z attr_counter_scheme \<Rightarrow> (bool \<times> 'z attr_counter_scheme) option" where
  "add_name_values nId [] findNameId c = Some (findNameId, c)"
| "add_name_values nId (vId # vIds) findNameId c =
     Option.bind (valueId2NameId (ac_attrTable c) vId) (\<lambda>n.
       if n = nId
       then add_name_values nId vIds True (c\<lparr>ac_valueDocCountTable := map_bump vId (ac_valueDocCountTable c)\<rparr>)
       else add_name_values nId vIds findNameId c)"

definition ac_addAttrDoc :: "u32 \<Rightarrow> docid \<Rightarrow> 'z attr_counter_scheme \<Rightarrow> 'z attr_counter_scheme option" where
  "ac_addAttrDoc nId doc c =
     (if iter_full c then Some c
      else Option.bind (pid_ids (at_valueIdTable (ac_attrTable c)) doc) (\<lambda>ids.
        map_option (\<lambda>(findNameId, c'). if findNameId then c'\<lparr>ac_nameDocCountTable := map_bump nId (ac_nameDocCountTable c')\<rparr> else c')
          (add_name_values nId ids False (count_iter c))))"

definition ac_getNameScore :: "'z attr_counter_scheme \<Rightarrow> u32 \<Rightarrow> 'd :: linordered_idom" where
  "ac_getNameScore c nId = of_int (map_get 0 nId (ac_nameDocCountTable c))"

definition ac_getValueScore :: "'z attr_counter_scheme \<Rightarrow> u32 \<Rightarrow> 'd :: linordered_idom" where
  "ac_getValueScore c vId = of_int (map_get 0 vId (ac_valueDocCountTable c))"

text \<open>The scores are virtual functions: the operations below take them as arguments.\<close>

fun name_values :: "(u32 \<Rightarrow> 'd :: linordered_idom) \<Rightarrow> u32 list \<Rightarrow> (u32 \<times> ('d \<times> u32) list) list \<Rightarrow> 'z attr_counter_scheme \<Rightarrow>
    ((u32 \<times> ('d \<times> u32) list) list \<times> 'z attr_counter_scheme) option" where
  "name_values score [] m c = Some (m, c)"
| "name_values score (vId # ids) m c =
     (if score vId > 0 then
        Option.bind (valueId2NameId (ac_attrTable c) vId) (\<lambda>nId.
          name_values score ids (map_put nId (multi_insert (score vId) vId (map_get [] nId m)) m)
            (c\<lparr>ac_nameValueCountTable := map_bump nId (ac_nameValueCountTable c)\<rparr>))
      else name_values score ids m c)"

definition getNameValueMap :: "(u32 \<Rightarrow> 'd :: linordered_idom) \<Rightarrow> 'z attr_counter_scheme \<Rightarrow>
    ((u32 \<times> ('d \<times> u32) list) list \<times> 'z attr_counter_scheme) option" where
  "getNameValueMap score c = name_values score (map fst (ac_valueDocCountTable c)) [] c"

definition getTopNameIds :: "('q, u32 \<times> 'd) queue_class \<Rightarrow> (u32 \<Rightarrow> 'd :: linordered_idom) \<Rightarrow> int \<Rightarrow> 'z attr_counter_scheme \<Rightarrow> u32 list" where
  "getTopNameIds qops score topNum c =
     (let n = (if topNum = 0 then length (ac_nameValueCountTable c) else to_size_t topNum);
          cands = filter (\<lambda>(nId, valueCount). score nId > 0 \<and> valueCount \<ge> ac_minValueCount c) (ac_nameValueCountTable c)
      in map fst (qo_top (qops score_less) n (map (\<lambda>(nId, _). (nId, score nId)) cands)))"

text \<open>The item of a name, and the items of its values by descending score.\<close>

definition name_item :: "(u32 \<Rightarrow> 'd) \<Rightarrow> 'z attr_counter_scheme \<Rightarrow> u32 \<Rightarrow> 'd :: linordered_idom rep_item option" where
  "name_item score c nId =
     map_option (\<lambda>txt. \<lparr>ri_level = 0, ri_text = txt, ri_id = 0, ri_doc_count = of_int (map_get 0 nId (ac_nameDocCountTable c)),
       ri_score = score nId\<rparr>) (nameStr (ac_attrTable c) nId)"

definition value_item :: "'z attr_counter_scheme \<Rightarrow> 'd \<times> u32 \<Rightarrow> 'd :: linordered_idom rep_item option" where
  "value_item c e =
     map_option (\<lambda>txt. \<lparr>ri_level = 1, ri_text = txt, ri_id = snd e, ri_doc_count = of_int (map_get 0 (snd e) (ac_valueDocCountTable c)),
       ri_score = fst e\<rparr>) (valueStr (ac_attrTable c) (snd e))"

fun value_items :: "'z attr_counter_scheme \<Rightarrow> ('d \<times> u32) list \<Rightarrow> 'd :: linordered_idom rep_item list option" where
  "value_items c [] = Some []"
| "value_items c (e # es) = Option.bind (value_item c e) (\<lambda>i. map_option ((#) i) (value_items c es))"

fun generateGroupRep :: "(u32 \<Rightarrow> 'd) \<Rightarrow> (u32 \<times> ('d \<times> u32) list) list \<Rightarrow> 'z attr_counter_scheme \<Rightarrow> u32 list \<Rightarrow>
    'd :: linordered_idom rep_item list option" where
  "generateGroupRep score m c [] = Some []"
| "generateGroupRep score m c (nId # nameIds) =
     Option.bind (name_item score c nId) (\<lambda>i.
       Option.bind (value_items c (rev (map_get [] nId m))) (\<lambda>vs.
         map_option (\<lambda>rest. i # vs @ rest) (generateGroupRep score m c nameIds)))"

definition ac_groups :: "('q, u32 \<times> 'd) queue_class \<Rightarrow> ('z attr_counter_scheme \<Rightarrow> u32 \<Rightarrow> 'd) \<Rightarrow> ('z attr_counter_scheme \<Rightarrow> u32 \<Rightarrow> 'd) \<Rightarrow>
    int \<Rightarrow> 'd :: linordered_idom rep_item list \<Rightarrow> 'z attr_counter_scheme \<Rightarrow> ('z attr_counter_scheme \<times> 'd rep_item list) option" where
  "ac_groups qops nameScore valueScore topGroupNum itemList c =
     Option.bind (getNameValueMap (valueScore c) c) (\<lambda>(m, c').
       map_option (\<lambda>items. (c', itemList @ items)) (generateGroupRep (nameScore c') m c' (getTopNameIds qops (nameScore c') topGroupNum c')))"

definition ac_getGroupRep :: "('q, u32 \<times> 'd) queue_class \<Rightarrow> int \<Rightarrow> 'd :: linordered_idom rep_item list \<Rightarrow> attr_counter \<Rightarrow>
    (attr_counter \<times> 'd rep_item list) option" where
  "ac_getGroupRep qops = ac_groups qops ac_getNameScore ac_getValueScore"

section \<open>AttrScoreCounter\<close>

text \<open>
  The derived class adds weights instead of counts; it inherits \<open>addAttrDoc\<close>. The weights of the tokenizer of
  attributes (\<open>AttrTokenizeWrapper\<close>) and the least weights are parameters; \<open>str\<close> is \<open>convert_to_str\<close>.
\<close>

record 'd attr_score_counter = attr_counter +
  as_categoryValueTable :: prop_value_table
  as_nameScoreTable :: "(u32 \<times> 'd) list"
  as_valueScoreTable :: "(u32 \<times> 'd) list"

record 'd attr_weights =
  aw_att_name_weight :: "string \<Rightarrow> string \<Rightarrow> 'd"
  aw_att_value_weight :: "string \<Rightarrow> string \<Rightarrow> string \<Rightarrow> 'd"
  aw_minNameScore :: 'd
  aw_minValueScore :: 'd

definition kMinValueCount :: int where "kMinValueCount = 2"

definition as_new :: "attr_table \<Rightarrow> prop_value_table \<Rightarrow> 'd attr_score_counter" where
  "as_new t categoryTable =
     \<lparr>ac_attrTable = t, ac_minValueCount = kMinValueCount, ac_maxIterCount = 0, ac_iterCount = 0,
      ac_nameDocCountTable = [], ac_nameValueCountTable = [], ac_valueDocCountTable = [],
      as_categoryValueTable = categoryTable, as_nameScoreTable = [], as_valueScoreTable = []\<rparr>"

definition map_plus :: "'k :: linorder \<Rightarrow> 'd :: {zero, plus} \<Rightarrow> ('k \<times> 'd) list \<Rightarrow> ('k \<times> 'd) list" where
  "map_plus k x m = map_put k (map_get 0 k m + x) m"

fun as_add_values :: "(ustring \<Rightarrow> string) \<Rightarrow> 'd attr_weights \<Rightarrow> string \<Rightarrow> u32 list \<Rightarrow> u32 set \<Rightarrow> 'd :: linordered_idom attr_score_counter \<Rightarrow>
    'd attr_score_counter option" where
  "as_add_values str w categoryStr [] nameIdSet c = Some c"
| "as_add_values str w categoryStr (vId # vIds) nameIdSet c =
     Option.bind (valueId2NameId (ac_attrTable c) vId) (\<lambda>nId.
     Option.bind (nameStr (ac_attrTable c) nId) (\<lambda>nameUstr.
       let name = str nameUstr; nameScore = aw_att_name_weight w name categoryStr in
       if nameScore < aw_minNameScore w then as_add_values str w categoryStr vIds nameIdSet c
       else Option.bind (valueStr (ac_attrTable c) vId) (\<lambda>valueUstr.
         let valueScore = aw_att_value_weight w name (str valueUstr) categoryStr in
         if valueScore < aw_minValueScore w then as_add_values str w categoryStr vIds nameIdSet c
         else
           let c1 = (if nId \<in> nameIdSet then c
                     else c\<lparr>as_nameScoreTable := map_plus nId nameScore (as_nameScoreTable c),
                            ac_nameDocCountTable := map_bump nId (ac_nameDocCountTable c)\<rparr>);
               c2 = c1\<lparr>ac_valueDocCountTable := map_bump vId (ac_valueDocCountTable c1),
                       as_valueScoreTable := map_plus vId valueScore (as_valueScoreTable c1)\<rparr>
           in as_add_values str w categoryStr vIds (insert nId nameIdSet) c2)))"

definition categoryStr :: "(ustring \<Rightarrow> string) \<Rightarrow> prop_value_table \<Rightarrow> docid \<Rightarrow> string option" where
  "categoryStr str t doc =
     Option.bind (pid_ids (valueIdTable t) doc) (\<lambda>ids.
       case ids of [] \<Rightarrow> Some [] | cateId # _ \<Rightarrow> map_option str (propValueStr t cateId))"

definition as_addDoc :: "(ustring \<Rightarrow> string) \<Rightarrow> 'd attr_weights \<Rightarrow> docid \<Rightarrow> 'd :: linordered_idom attr_score_counter \<Rightarrow>
    'd attr_score_counter option" where
  "as_addDoc str w doc c =
     Option.bind (categoryStr str (as_categoryValueTable c) doc) (\<lambda>category.
       Option.bind (pid_ids (at_valueIdTable (ac_attrTable c)) doc) (\<lambda>ids. as_add_values str w category ids {} c))"

definition as_getNameScore :: "'d :: zero attr_score_counter \<Rightarrow> u32 \<Rightarrow> 'd" where
  "as_getNameScore c nId = map_get 0 nId (as_nameScoreTable c)"

definition as_getValueScore :: "'d :: zero attr_score_counter \<Rightarrow> u32 \<Rightarrow> 'd" where
  "as_getValueScore c vId = map_get 0 vId (as_valueScoreTable c)"

definition as_getGroupRep :: "('q, u32 \<times> 'd) queue_class \<Rightarrow> int \<Rightarrow> 'd :: linordered_idom rep_item list \<Rightarrow> 'd attr_score_counter \<Rightarrow>
    ('d attr_score_counter \<times> 'd rep_item list) option" where
  "as_getGroupRep qops = ac_groups qops as_getNameScore as_getValueScore"

section \<open>What the tables hold\<close>

text \<open>The names of a list of values that are new, each once; \<open>N\<close> gives the name of a value.\<close>

fun new_names :: "(u32 \<Rightarrow> u32) \<Rightarrow> u32 set \<Rightarrow> u32 list \<Rightarrow> u32 list" where
  "new_names N S [] = []"
| "new_names N S (v # vs) = (if N v \<in> S then new_names N S vs else N v # new_names N (insert (N v) S) vs)"

lemma new_names_props: "distinct (new_names N S vs) \<and> set (new_names N S vs) = N ` set vs - S"
  by (induction vs arbitrary: S) auto

lemma add_values_spec:
  assumes "list_all (\<lambda>v. valueId2NameId (ac_attrTable c) v = Some (N v)) vs"
  shows "add_values vs S c = Some (c\<lparr>ac_valueDocCountTable := fold map_bump vs (ac_valueDocCountTable c),
    ac_nameDocCountTable := fold map_bump (new_names N S vs) (ac_nameDocCountTable c)\<rparr>)"
  using assms by (induction vs arbitrary: S c) (simp_all add: Let_def)

text \<open>The documents that are counted: with a limit on the number of calls, the first ones.\<close>

definition counted_docs :: "int \<Rightarrow> 'a list \<Rightarrow> 'a list" where
  "counted_docs maxIterCount ds = (if maxIterCount = 0 then ds else take (nat maxIterCount) ds)"

definition attr_docs :: "attr_table \<Rightarrow> (u32 \<Rightarrow> u32) \<Rightarrow> (docid \<Rightarrow> u32 list) \<Rightarrow> docid list \<Rightarrow> bool" where
  "attr_docs t N V ds \<longleftrightarrow> list_all (\<lambda>d. pid_ids (at_valueIdTable t) d = Some (V d) \<and> list_all (\<lambda>v. valueId2NameId t v = Some (N v)) (V d)) ds"

lemma ac_addDocs:
  assumes "attr_docs t N V ds"
  shows "add_list ac_addDoc ds (ac_new t mn mx) = Some \<lparr>ac_attrTable = t, ac_minValueCount = mn, ac_maxIterCount = mx,
    ac_iterCount = (if mx = 0 then 0 else int (length (counted_docs mx ds))),
    ac_nameDocCountTable = tally (concat (map (\<lambda>d. new_names N {} (V d)) (counted_docs mx ds))),
    ac_nameValueCountTable = [], ac_valueDocCountTable = tally (concat (map V (counted_docs mx ds)))\<rparr>"
  using assms
proof (induction ds rule: rev_induct)
  case (snoc d ds)
  let ?c = "\<lambda>ds. \<lparr>ac_attrTable = t, ac_minValueCount = mn, ac_maxIterCount = mx,
    ac_iterCount = (if mx = 0 then 0 else int (length (counted_docs mx ds))),
    ac_nameDocCountTable = tally (concat (map (\<lambda>d. new_names N {} (V d)) (counted_docs mx ds))),
    ac_nameValueCountTable = [], ac_valueDocCountTable = tally (concat (map V (counted_docs mx ds)))\<rparr>"
  have IH: "add_list ac_addDoc ds (ac_new t mn mx) = Some (?c ds)" and d: "pid_ids (at_valueIdTable t) d = Some (V d)"
    "list_all (\<lambda>v. valueId2NameId t v = Some (N v)) (V d)" using snoc by (simp_all add: attr_docs_def)
  have full: "iter_full (?c ds) \<longleftrightarrow> mx \<noteq> 0 \<and> mx \<le> int (length ds)"
    by (auto simp: iter_full_def counted_docs_def)
  have "ac_addDoc d (?c ds) = Some (?c (ds @ [d]))"
  proof (cases "mx \<noteq> 0 \<and> mx \<le> int (length ds)")
    case True
    then have "counted_docs mx (ds @ [d]) = counted_docs mx ds" by (auto simp: counted_docs_def)
    then show ?thesis using True full by (simp add: ac_addDoc_def)
  next
    case False
    then have k: "counted_docs mx ds = ds" "counted_docs mx (ds @ [d]) = ds @ [d]" by (auto simp: counted_docs_def)
    show ?thesis using False full d
      by (simp add: ac_addDoc_def add_values_spec k count_iter_def tally_append)
  qed
  then show ?case using IH by (simp add: add_list_append)
qed (simp add: ac_new_def tally_def counted_docs_def)

text \<open>How often a value occurs, and how many documents have a value of a name.\<close>

definition value_docs :: "(docid \<Rightarrow> u32 list) \<Rightarrow> docid list \<Rightarrow> u32 \<Rightarrow> nat" where
  "value_docs V ds v = sum_list (map (\<lambda>d. count_list (V d) v) ds)"

definition name_docs :: "(u32 \<Rightarrow> u32) \<Rightarrow> (docid \<Rightarrow> u32 list) \<Rightarrow> docid list \<Rightarrow> u32 \<Rightarrow> nat" where
  "name_docs N V ds n = length (filter (\<lambda>d. n \<in> N ` set (V d)) ds)"

lemma count_list_concat: "count_list (concat xss) x = sum_list (map (\<lambda>xs. count_list xs x) xss)"
  by (induction xss) (simp_all add: count_list_append)

lemma count_distinct: "distinct xs \<Longrightarrow> count_list xs x = (if x \<in> set xs then 1 else 0)"
  by (induction xs) auto

lemma value_docs_count: "count_list (concat (map V ds)) v = value_docs V ds v"
  by (simp add: count_list_concat value_docs_def comp_def)

lemma name_docs_count: "count_list (concat (map (\<lambda>d. new_names N {} (V d)) ds)) n = name_docs N V ds n"
proof -
  have "count_list (new_names N {} vs) n = (if n \<in> N ` set vs then 1 else 0)" for vs
    using new_names_props [of N "{}" vs] by (simp add: count_distinct)
  then show ?thesis by (induction ds) (simp_all add: count_list_append name_docs_def)
qed

lemma value_docs_pos: "0 < value_docs V ds v \<longleftrightarrow> v \<in> (\<Union>d\<in>set ds. set (V d))"
  unfolding value_docs_def by (induction ds) (auto simp: count_list_0_iff)

section \<open>The groups\<close>

text \<open>The contract of the bounded queue.\<close>

locale top_queue =
  fixes qops :: "('q, 'k \<times> 'd :: linorder) queue_class"
  assumes largest: "n < 2 ^ 32 \<Longrightarrow> keeps_largest score_less n (mset xs) (mset (qo_top (qops score_less) n xs))"
    and descending: "n < 2 ^ 32 \<Longrightarrow> sorted_wrt (\<lambda>x y. \<not> score_less x y) (qo_top (qops score_less) n xs)"
begin

lemma top_keys:
  fixes f :: "'k \<Rightarrow> 'd"
  assumes "n < 2 ^ 32" "distinct ks"
  defines "ts \<equiv> map fst (qo_top (qops score_less) n (map (\<lambda>k. (k, f k)) ks))"
  shows "distinct ts" "set ts \<subseteq> set ks" "length ts = min n (length ks)" "sorted_wrt (\<lambda>a b. f a \<ge> f b) ts"
    "\<forall>a\<in>set ks - set ts. \<forall>b\<in>set ts. f a \<le> f b"
proof -
  let ?xs = "map (\<lambda>k. (k, f k)) ks" and ?ys = "qo_top (qops score_less) n (map (\<lambda>k. (k, f k)) ks)"
  have L: "mset ?ys \<subseteq># mset ?xs" "size (mset ?ys) = min n (size (mset ?xs))" "\<forall>x\<in>#mset ?xs - mset ?ys. \<forall>y\<in>#mset ?ys. \<not> score_less y x"
    using largest [OF assms(1), of ?xs] by (simp_all add: keeps_largest_def)
  have sub: "set ?ys \<subseteq> set ?xs" using L(1) by (metis set_mset_mono set_mset_mset)
  have f: "snd y = f (fst y)" if "y \<in> set ?ys" for y using sub that by auto
  have ts: "mset ts \<subseteq># mset ks"
    using image_mset_subseteq_mono [OF L(1), of fst] by (simp add: ts_def comp_def flip: mset_map)
  then obtain zs where "mset ks = mset (ts @ zs)" by (metis ex_mset mset_append mset_subset_eq_exists_conv)
  then show "distinct ts" using assms(2) by (metis distinct_append mset_eq_imp_distinct_iff)
  show "set ts \<subseteq> set ks" using ts by (metis set_mset_mono set_mset_mset)
  show "length ts = min n (length ks)" using L(2) by (simp add: ts_def)
  have "sorted_wrt (\<lambda>x y. \<not> score_less x y) ?ys" by (rule descending [OF assms(1)])
  then show "sorted_wrt (\<lambda>a b. f a \<ge> f b) ts" unfolding ts_def sorted_wrt_map
  proof (rule sorted_wrt_mono_rel [rotated])
    fix x y assume "x \<in> set ?ys" "y \<in> set ?ys" "\<not> score_less x y"
    then show "f (fst x) \<ge> f (fst y)" using f by (simp add: score_less_def)
  qed
  show "\<forall>a\<in>set ks - set ts. \<forall>b\<in>set ts. f a \<le> f b"
  proof (intro ballI)
    fix a b assume a: "a \<in> set ks - set ts" and b: "b \<in> set ts"
    have "(a, f a) \<notin> set ?ys" using a by (force simp: ts_def)
    then have "count (mset ?ys) (a, f a) = 0" by (simp only: count_eq_zero_iff set_mset_mset not_False_eq_True)
    moreover have "0 < count (mset ?xs) (a, f a)" using a by (simp only: count_greater_zero_iff set_mset_mset) simp
    ultimately have "(a, f a) \<in># mset ?xs - mset ?ys" by (simp only: in_diff_count)
    moreover have "(b, f b) \<in># mset ?ys" using b f by (auto simp: ts_def)
    ultimately have "\<not> score_less (b, f b) (a, f a)" using L(3) by blast
    then show "f a \<le> f b" by (simp add: score_less_def)
  qed
qed

end

text \<open>The queue of the search results meets the contract.\<close>

definition heap_queue :: "'e \<Rightarrow> ('e pqueue, 'e) queue_class" where
  "heap_queue null lt =
     \<lparr>qo_initialize = pq_initialize null, qo_insert = (\<lambda>x q. case pq_insert lt null x q of None \<Rightarrow> q | Some (_, q') \<Rightarrow> q'),
      qo_size = pq_size, qo_pop = pq_pop lt null\<rparr>"

lemma heap_queue_pops: "qo_pops (heap_queue null lt) n q = pop_all lt null n q"
  by (induction n arbitrary: q) (simp_all add: heap_queue_def split: prod.splits)

lemma heap_queue_inserts: "insert_all lt null xs q = Some q' \<Longrightarrow> fold (qo_insert (heap_queue null lt)) xs q = q'"
  by (induction xs arbitrary: q) (auto simp: heap_queue_def bind_eq_Some_conv)

lemma heap_queue_top:
  assumes "strict_weak lt" "n < 2 ^ 32"
  shows "keeps_largest lt n (mset xs) (mset (qo_top (heap_queue null lt) n xs)) \<and>
    sorted_wrt (\<lambda>x y. \<not> lt x y) (qo_top (heap_queue null lt) n xs)"
proof -
  let ?q0 = "pq_initialize null n"
  have "pq_inv lt ?q0" "keeps_largest lt (pq_maxSize ?q0) {#} (mset (pq_elems ?q0))"
    using assms(2) by (simp_all add: pq_initialize_def pq_inv_def is_heap_def keeps_largest_def pq_elems_def)
  then obtain q where q: "insert_all lt null xs ?q0 = Some q" "pq_inv lt q" "keeps_largest lt n (mset xs) (mset (pq_elems q))"
    using insert_all_spec [OF assms(1), of ?q0 "{#}" null xs] by (auto simp: pq_initialize_def)
  have f: "fold (qo_insert (heap_queue null lt)) xs (qo_initialize (heap_queue null lt) n) = q"
    using heap_queue_inserts [OF q(1)] by (simp add: heap_queue_def)
  have "pq_size q = size (mset (pq_elems q))" using pq_elems_length [OF q(2)] by simp
  then have "mset (pop_all lt null (pq_size q) q) = mset (pq_elems q)" "sorted_wrt (\<lambda>x y. \<not> lt y x) (pop_all lt null (pq_size q) q)"
    using priority_queue.drain_sorted [OF pq_contract [OF assms(1), of null] q(2)] pop_all_drain [OF assms(1)] by auto
  moreover have "qo_top (heap_queue null lt) n xs = rev (pop_all lt null (pq_size q) q)"
    unfolding qo_top_def Let_def f heap_queue_pops by (simp add: heap_queue_def)
  ultimately show ?thesis using q(3) by (simp add: sorted_wrt_rev)
qed

lemma strict_weak_score: "strict_weak (score_less :: 'k \<times> 'd :: linorder \<Rightarrow> _)"
  unfolding strict_weak_def score_less_def by (meson less_asym not_less order_trans)

interpretation hq: top_queue "heap_queue null :: (('k \<times> 'd :: linorder) pqueue, 'k \<times> 'd) queue_class" for null
  by unfold_locales (use heap_queue_top [OF strict_weak_score] in blast)+

text \<open>The values of a name by ascending score.\<close>

definition scored :: "(u32 \<Rightarrow> 'd :: linorder) \<Rightarrow> u32 list \<Rightarrow> ('d \<times> u32) list \<Rightarrow> ('d \<times> u32) list" where
  "scored score vs es = fold (\<lambda>v. multi_insert (score v) v) vs es"

lemma scored_props:
  "mset (scored score vs es) = mset (map (\<lambda>v. (score v, v)) vs) + mset es"
  "sorted (map fst es) \<Longrightarrow> sorted (map fst (scored score vs es))"
  unfolding scored_def by (induction vs arbitrary: es) (auto simp: sorted_multi_insert)

lemma name_values_spec:
  assumes "list_all (\<lambda>v. valueId2NameId (ac_attrTable c) v = Some (N v) \<and> score v > 0) vs" "keys_ordered m"
  shows "\<exists>m'. name_values score vs m c = Some (m', c\<lparr>ac_nameValueCountTable := fold map_bump (map N vs) (ac_nameValueCountTable c)\<rparr>) \<and>
    (\<forall>n. map_get [] n m' = scored score (filter (\<lambda>v. N v = n) vs) (map_get [] n m))"
  using assms
proof (induction vs arbitrary: m c)
  case (Cons v vs)
  let ?m = "map_put (N v) (multi_insert (score v) v (map_get [] (N v) m)) m"
  let ?c = "c\<lparr>ac_nameValueCountTable := map_bump (N v) (ac_nameValueCountTable c)\<rparr>"
  obtain m' where m': "name_values score vs ?m ?c =
      Some (m', ?c\<lparr>ac_nameValueCountTable := fold map_bump (map N vs) (ac_nameValueCountTable ?c)\<rparr>)"
    "\<forall>n. map_get [] n m' = scored score (filter (\<lambda>v. N v = n) vs) (map_get [] n ?m)"
    using Cons.IH [of ?c ?m] Cons.prems by auto
  then show ?case using Cons.prems by (intro exI [of _ m']) (auto simp: scored_def)
qed (simp add: scored_def)

lemma value_items_spec:
  "list_all (\<lambda>e. valueStr (ac_attrTable c) (snd e) = Some (VS (snd e))) es \<Longrightarrow>
   value_items c es = Some (map (\<lambda>e. \<lparr>ri_level = 1, ri_text = VS (snd e), ri_id = snd e,
     ri_doc_count = of_int (map_get 0 (snd e) (ac_valueDocCountTable c)), ri_score = fst e\<rparr>) es)"
  by (induction es) (simp_all add: value_item_def)

lemma generate_spec:
  assumes "list_all (\<lambda>n. nameStr (ac_attrTable c) n = Some (NS n) \<and>
    list_all (\<lambda>e. valueStr (ac_attrTable c) (snd e) = Some (VS (snd e))) (map_get [] n m)) ns"
  shows "generateGroupRep score m c ns = Some (concat (map (\<lambda>n.
    \<lparr>ri_level = 0, ri_text = NS n, ri_id = 0, ri_doc_count = of_int (map_get 0 n (ac_nameDocCountTable c)), ri_score = score n\<rparr> #
    map (\<lambda>e. \<lparr>ri_level = 1, ri_text = VS (snd e), ri_id = snd e, ri_doc_count = of_int (map_get 0 (snd e) (ac_valueDocCountTable c)),
      ri_score = fst e\<rparr>) (rev (map_get [] n m))) ns))"
  using assms
proof (induction ns)
  case (Cons n ns)
  have "list_all (\<lambda>e. valueStr (ac_attrTable c) (snd e) = Some (VS (snd e))) (rev (map_get [] n m))"
    using Cons.prems by (simp add: list_all_iff)
  from value_items_spec [OF this] show ?case using Cons by (simp add: name_item_def)
qed simp

text \<open>The items of a name and of a value with their counts.\<close>

definition attr_name_item :: "(u32 \<Rightarrow> ustring) \<Rightarrow> (u32 \<Rightarrow> nat) \<Rightarrow> u32 \<Rightarrow> 'd :: linordered_idom rep_item" where
  "attr_name_item NS docs n = \<lparr>ri_level = 0, ri_text = NS n, ri_id = 0, ri_doc_count = of_nat (docs n), ri_score = of_nat (docs n)\<rparr>"

definition attr_value_item :: "(u32 \<Rightarrow> ustring) \<Rightarrow> (u32 \<Rightarrow> nat) \<Rightarrow> u32 \<Rightarrow> 'd :: linordered_idom rep_item" where
  "attr_value_item VS docs v = \<lparr>ri_level = 1, ri_text = VS v, ri_id = v, ri_doc_count = of_nat (docs v), ri_score = of_nat (docs v)\<rparr>"

definition values_of :: "(u32 \<Rightarrow> u32) \<Rightarrow> (docid \<Rightarrow> u32 list) \<Rightarrow> docid list \<Rightarrow> u32 \<Rightarrow> u32 set" where
  "values_of N V ds n = {v \<in> (\<Union>d\<in>set ds. set (V d)). N v = n}"

text \<open>The names that may be returned: those of the documents with enough different values.\<close>

definition names_of :: "int \<Rightarrow> (u32 \<Rightarrow> u32) \<Rightarrow> (docid \<Rightarrow> u32 list) \<Rightarrow> docid list \<Rightarrow> u32 set" where
  "names_of mn N V ds = {n \<in> N ` (\<Union>d\<in>set ds. set (V d)). int (card (values_of N V ds n)) \<ge> mn}"

lemma count_map_distinct: "distinct vs \<Longrightarrow> count_list (map N vs) n = card {v \<in> set vs. N v = n}"
proof (induction vs)
  case (Cons v vs)
  have "{x \<in> set (v # vs). N x = n} = (if N v = n then insert v {x \<in> set vs. N x = n} else {x \<in> set vs. N x = n})" by auto
  then show ?case using Cons by simp
qed simp

lemma map_get_mem: "\<lbrakk>keys_ordered m; (k, x) \<in> set m\<rbrakk> \<Longrightarrow> map_get d k m = x"
  by (simp add: map_get_def keys_ordered_distinct)

text \<open>The state after the counting, as the groups read it.\<close>

lemma group_tables:
  fixes c :: attr_counter
  assumes "ac_attrTable c = t" "ac_nameValueCountTable c = []"
    and nd: "ac_nameDocCountTable c = tally (concat (map (\<lambda>d. new_names N {} (V d)) ds))"
    and vd: "ac_valueDocCountTable c = tally (concat (map V ds))" and ok: "attr_docs t N V ds"
  defines "A \<equiv> (\<Union>d\<in>set ds. set (V d))"
  shows "\<exists>m c'. getNameValueMap (ac_getValueScore c :: u32 \<Rightarrow> 'd :: linordered_idom) c = Some (m, c') \<and>
    c' = c\<lparr>ac_nameValueCountTable := tally (map N (sorted_list_of_set A))\<rparr> \<and>
    (\<forall>n. map_get [] n m = scored (\<lambda>v. of_nat (value_docs V ds v)) (filter (\<lambda>v. N v = n) (sorted_list_of_set A)) [])"
proof -
  have set: "map fst (tally (concat (map V ds)) :: (u32 \<times> int) list) = sorted_list_of_set A"
  proof -
    have "sorted_wrt (<) (map fst (tally (concat (map V ds)) :: (u32 \<times> int) list))" using tally_spec(1) by (simp add: keys_ordered_def)
    moreover have "set (map fst (tally (concat (map V ds)) :: (u32 \<times> int) list)) = A" by (simp add: tally_spec A_def)
    ultimately show ?thesis by (metis sorted_list_of_set.idem_if_sorted_distinct strict_sorted_iff)
  qed
  have sc: "ac_getValueScore c = (\<lambda>v. of_nat (value_docs V ds v) :: 'd)"
    by (rule ext) (simp add: ac_getValueScore_def vd tally_spec value_docs_count)
  have "list_all (\<lambda>v. valueId2NameId (ac_attrTable c) v = Some (N v) \<and> (of_nat (value_docs V ds v) :: 'd) > 0) (sorted_list_of_set A)"
    using ok assms(1) value_docs_pos [of V ds] by (auto simp: list_all_iff attr_docs_def A_def)
  from name_values_spec [OF this keys_ordered_Nil] show ?thesis
    unfolding getNameValueMap_def sc vd set by (auto simp: assms(2) tally_def map_get_def)
qed

lemma top_names:
  fixes c :: attr_counter
  assumes q: "top_queue (qops :: ('q, u32 \<times> 'd :: linordered_idom) queue_class)"
    and nd: "ac_nameDocCountTable c = tally (concat (map (\<lambda>d. new_names N {} (V d)) ds))"
    and nv: "ac_nameValueCountTable c = tally (map N (sorted_list_of_set (\<Union>d\<in>set ds. set (V d))))"
    and b: "0 \<le> topNum" "topNum < 2 ^ 31" "card (\<Union>d\<in>set ds. set (V d)) < 2 ^ 32" and mn: "ac_minValueCount c = mn"
  defines "ns \<equiv> getTopNameIds qops (ac_getNameScore c) topNum c" and "M \<equiv> names_of mn N V ds"
  shows "distinct ns" "set ns \<subseteq> M" "length ns = (if topNum = 0 then card M else min (nat topNum) (card M))"
    "sorted_wrt (\<lambda>a b. name_docs N V ds a \<ge> name_docs N V ds b) ns" "\<forall>a\<in>M - set ns. \<forall>b\<in>set ns. name_docs N V ds a \<le> name_docs N V ds b"
proof -
  let ?A = "\<Union>d\<in>set ds. set (V d)" and ?f = "\<lambda>n. of_nat (name_docs N V ds n) :: 'd" and ?T = "ac_nameValueCountTable c"
  let ?n = "if topNum = 0 then length ?T else to_size_t topNum"
  have sc: "ac_getNameScore c = ?f" by (rule ext) (simp add: ac_getNameScore_def nd tally_spec name_docs_count)
  have T: "keys_ordered ?T" "fst ` set ?T = N ` ?A" using tally_spec(1,2) [of "map N (sorted_list_of_set ?A)"] by (simp_all add: nv)
  have val: "k = int (card (values_of N V ds n))" if "(n, k) \<in> set ?T" for n k
  proof -
    have "map_get 0 n ?T = int (count_list (map N (sorted_list_of_set ?A)) n)" by (simp add: nv tally_spec(3))
    then show ?thesis using map_get_mem [OF T(1) that] by (simp add: count_map_distinct values_of_def)
  qed
  define cands where "cands = filter (\<lambda>(n, k). ?f n > 0 \<and> k \<ge> mn) ?T"
  have pos: "0 < name_docs N V ds n" if "n \<in> N ` ?A" for n using that by (auto simp: name_docs_def filter_empty_conv)
  have M: "set (map fst cands) = M"
  proof -
    have "n \<in> set (map fst cands) \<longleftrightarrow> n \<in> M" for n
    proof
      assume "n \<in> set (map fst cands)"
      then obtain k where "(n, k) \<in> set ?T" "k \<ge> mn" by (auto simp: cands_def)
      then show "n \<in> M" using val T(2) by (force simp: M_def names_of_def)
    next
      assume n: "n \<in> M"
      then have "n \<in> fst ` set ?T" using T(2) by (simp add: M_def names_of_def)
      then obtain k where k: "(n, k) \<in> set ?T" by auto
      then have "(n, k) \<in> set cands" using n val [OF k] pos by (auto simp: cands_def M_def names_of_def)
      then show "n \<in> set (map fst cands)" by force
    qed
    then show ?thesis by blast
  qed
  have d: "distinct (map fst cands)" using keys_ordered_distinct [OF T(1)] by (simp add: cands_def distinct_map_filter)
  then have card: "card M = length cands" using M distinct_card by fastforce
  have lenT: "length ?T \<le> card ?A"
    using keys_ordered_distinct [OF T(1)] T(2) card_image_le [of ?A N] distinct_card [of "map fst ?T"] by simp
  have n: "?n < 2 ^ 32" using b lenT by (auto simp: to_size_t_def nat_less_iff)
  have ns: "ns = map fst (qo_top (qops score_less) ?n (map (\<lambda>k. (k, ?f k)) (map fst cands)))"
  proof -
    have "map (\<lambda>k. (k, ?f k)) (map fst cands) = map (\<lambda>(n, _). (n, ?f n)) cands" by (simp add: comp_def case_prod_beta)
    then show ?thesis unfolding ns_def getTopNameIds_def Let_def sc mn by (simp only: cands_def)
  qed
  note K = top_queue.top_keys [OF q n d, of ?f, folded ns]
  show "distinct ns" by (rule K(1))
  show "set ns \<subseteq> M" using K(2) M by simp
  have "length cands \<le> length ?T" by (simp add: cands_def)
  then show "length ns = (if topNum = 0 then card M else min (nat topNum) (card M))" using K(3) card b by (auto simp: to_size_t_def)
  show "sorted_wrt (\<lambda>a b. name_docs N V ds a \<ge> name_docs N V ds b) ns" using K(4) by simp
  show "\<forall>a\<in>M - set ns. \<forall>b\<in>set ns. name_docs N V ds a \<le> name_docs N V ds b" using K(5) M by simp
qed

lemma scored_values:
  fixes g :: "u32 \<Rightarrow> nat"
  assumes "distinct vs"
  defines "es \<equiv> scored (\<lambda>v. of_nat (g v) :: 'd :: linordered_idom) vs []"
  shows "distinct (map snd es)" "set (map snd es) = set vs" "sorted_wrt (\<lambda>a b. g a \<le> g b) (map snd es)"
    "\<forall>e\<in>set es. fst e = of_nat (g (snd e))"
proof -
  have e: "mset es = mset (map (\<lambda>v. (of_nat (g v), v)) vs)" using scored_props(1) [of _ vs "[]"] by (simp add: es_def)
  have "image_mset snd (mset es) = mset vs" unfolding e by (simp flip: mset_map add: comp_def)
  then have m: "mset (map snd es) = mset vs" by simp
  show "distinct (map snd es)" using mset_eq_imp_distinct_iff [OF m] assms(1) by blast
  show "set (map snd es) = set vs" by (rule mset_eq_setD [OF m])
  show fe: "\<forall>e\<in>set es. fst e = of_nat (g (snd e))" using mset_eq_setD [OF e] by auto
  have "sorted (map fst es)" using scored_props(2) [of "[]" _ vs] by (simp add: es_def)
  then have "sorted_wrt (\<lambda>x y. fst x \<le> fst y) es" by (simp add: sorted_map)
  then have "sorted_wrt (\<lambda>x y. g (snd x) \<le> g (snd y)) es" by (rule sorted_wrt_mono_rel [rotated]) (use fe in auto)
  then show "sorted_wrt (\<lambda>a b. g a \<le> g b) (map snd es)" by (simp add: sorted_wrt_map)
qed

section \<open>Properties\<close>

text \<open>C16: The groups of attributes: for documents whose attribute values can be read, \<open>getGroupRep\<close> returns groups for at most the requested
number of names (0: all) among those with enough different values; the names are in descending order of the number of documents
that have them, and no name that is left out has more documents than one that is returned. Below a name come all its values in
descending order of their counts. With a limit on the iterations only the first documents count. The queue is any bounded queue that
keeps the largest elements.
\<close>

theorem attr_groups_top:
  fixes items :: "'d :: linordered_idom rep_item list"
  assumes "top_queue (qops :: ('q, u32 \<times> 'd) queue_class)" "attr_docs t N V ds" "0 \<le> topNum" "topNum < 2 ^ 31"
    and "card (\<Union>d\<in>set ds. set (V d)) < 2 ^ 32"
    and "list_all (\<lambda>d. list_all (\<lambda>v. valueStr t v = Some (VS v) \<and> nameStr t (N v) = Some (NS (N v))) (V d)) ds"
  shows "\<exists>c c' ns vals. add_list ac_addDoc ds (ac_new t mn mx) = Some c \<and>
    ac_getGroupRep qops topNum items c = Some (c', items @ concat (map (\<lambda>n.
      attr_name_item NS (name_docs N V (counted_docs mx ds)) n # map (attr_value_item VS (value_docs V (counted_docs mx ds))) (vals n)) ns)) \<and>
    distinct ns \<and> set ns \<subseteq> names_of mn N V (counted_docs mx ds) \<and>
    length ns = (let k = card (names_of mn N V (counted_docs mx ds)) in if topNum = 0 then k else min (nat topNum) k) \<and>
    sorted_wrt (\<lambda>a b. name_docs N V (counted_docs mx ds) a \<ge> name_docs N V (counted_docs mx ds) b) ns \<and>
    (\<forall>a\<in>names_of mn N V (counted_docs mx ds) - set ns. \<forall>b\<in>set ns. name_docs N V (counted_docs mx ds) a \<le> name_docs N V (counted_docs mx ds) b) \<and>
    (\<forall>n. distinct (vals n) \<and> set (vals n) = values_of N V (counted_docs mx ds) n \<and>
      sorted_wrt (\<lambda>a b. value_docs V (counted_docs mx ds) a \<ge> value_docs V (counted_docs mx ds) b) (vals n))"
proof -
  let ?ds = "counted_docs mx ds"
  let ?A = "\<Union>d\<in>set ?ds. set (V d)" and ?f = "\<lambda>v. of_nat (value_docs V ?ds v) :: 'd"
  obtain c where c: "add_list ac_addDoc ds (ac_new t mn mx) = Some c" "ac_attrTable c = t" "ac_minValueCount c = mn" "ac_nameValueCountTable c = []"
    "ac_nameDocCountTable c = tally (concat (map (\<lambda>d. new_names N {} (V d)) ?ds))" "ac_valueDocCountTable c = tally (concat (map V ?ds))"
    unfolding ac_addDocs [OF assms(2)] by simp
  have sub: "set ?ds \<subseteq> set ds" by (auto simp: counted_docs_def dest: in_set_takeD)
  then have ok: "attr_docs t N V ?ds" using assms(2) by (auto simp: attr_docs_def list_all_iff)
  obtain m c' where m: "getNameValueMap (ac_getValueScore c :: u32 \<Rightarrow> 'd) c = Some (m, c')"
    "c' = c\<lparr>ac_nameValueCountTable := tally (map N (sorted_list_of_set ?A))\<rparr>"
    "\<forall>n. map_get [] n m = scored ?f (filter (\<lambda>v. N v = n) (sorted_list_of_set ?A)) []"
    using group_tables [OF c(2,4,5,6) ok, where 'd = 'd] by blast
  let ?ns = "getTopNameIds qops (ac_getNameScore c' :: u32 \<Rightarrow> 'd) topNum c'" and ?vals = "\<lambda>n. map snd (rev (map_get [] n m))"
  have cardA: "card ?A < 2 ^ 32" by (rule le_less_trans [OF card_mono assms(5)]) (use sub in auto)
  have K: "distinct ?ns" "set ?ns \<subseteq> names_of mn N V ?ds"
    "length ?ns = (if topNum = 0 then card (names_of mn N V ?ds) else min (nat topNum) (card (names_of mn N V ?ds)))"
    "sorted_wrt (\<lambda>a b. name_docs N V ?ds a \<ge> name_docs N V ?ds b) ?ns"
    "\<forall>a\<in>names_of mn N V ?ds - set ?ns. \<forall>b\<in>set ?ns. name_docs N V ?ds a \<le> name_docs N V ?ds b"
    using top_names [OF assms(1) _ _ assms(3,4) cardA, of c' N mn] c m(2) by simp_all
  have V: "distinct (?vals n)" "set (?vals n) = values_of N V ?ds n" "sorted_wrt (\<lambda>a b. value_docs V ?ds a \<ge> value_docs V ?ds b) (?vals n)"
    "\<forall>e\<in>set (map_get [] n m). fst e = ?f (snd e)" for n
    using scored_values [of "filter (\<lambda>v. N v = n) (sorted_list_of_set ?A)" "value_docs V ?ds", where 'd = 'd] m(3)
    by (auto simp: values_of_def sorted_wrt_rev simp flip: rev_map)
  have "list_all (\<lambda>n. nameStr (ac_attrTable c') n = Some (NS n) \<and>
      list_all (\<lambda>e. valueStr (ac_attrTable c') (snd e) = Some (VS (snd e))) (map_get [] n m)) ?ns"
    unfolding list_all_iff
  proof (intro ballI conjI)
    fix n assume "n \<in> set ?ns"
    then have "n \<in> N ` ?A" using K(2) by (auto simp: names_of_def)
    then show "nameStr (ac_attrTable c') n = Some (NS n)" using assms(6) sub c(2) m(2) by (auto simp: list_all_iff)
    fix e assume "e \<in> set (map_get [] n m)"
    then have "snd e \<in> values_of N V ?ds n" using V(2) [of n] by force
    then show "valueStr (ac_attrTable c') (snd e) = Some (VS (snd e))" using assms(6) sub c(2) m(2) by (auto simp: list_all_iff values_of_def)
  qed
  note G = generate_spec [OF this, of "ac_getNameScore c'"]
  have items: "\<lparr>ri_level = 0, ri_text = NS n, ri_id = 0, ri_doc_count = of_int (map_get 0 n (ac_nameDocCountTable c')), ri_score = ac_getNameScore c' n\<rparr> #
      map (\<lambda>e. \<lparr>ri_level = 1, ri_text = VS (snd e), ri_id = snd e, ri_doc_count = of_int (map_get 0 (snd e) (ac_valueDocCountTable c')),
        ri_score = fst e\<rparr>) (rev (map_get [] n m)) =
      attr_name_item NS (name_docs N V ?ds) n # map (attr_value_item VS (value_docs V ?ds)) (?vals n)" for n
    using V(4) [of n] c(5,6) m(2)
    by (simp add: attr_name_item_def attr_value_item_def ac_getNameScore_def tally_spec name_docs_count value_docs_count)
  have "ac_getGroupRep qops topNum items c = Some (c', items @ concat (map (\<lambda>n.
      attr_name_item NS (name_docs N V ?ds) n # map (attr_value_item VS (value_docs V ?ds)) (?vals n)) ?ns))"
    using G unfolding items by (simp add: ac_getGroupRep_def ac_groups_def m(1))
  then show ?thesis using c(1) K V by (intro exI [of _ c] exI [of _ c'] exI [of _ ?ns] exI [of _ ?vals]) (simp add: Let_def)
qed

text \<open>A table with the name color and its values red and blue; document 1 has both, document 2 is red.\<close>

definition sample_attrs :: attr_table where
  "sample_attrs = at_init\<lparr>nameStrVec := [[], ustr ''color''], valueStrVec := [[], ustr ''red'', ustr ''blue''], nameIdVec := [0, 1, 1],
     at_valueIdTable := \<lparr>indexTable = [0, INDEX_MSB, 1], multiValueTable = [2, 1, 2]\<rparr>\<rparr>"

definition sample_values :: "docid \<Rightarrow> u32 list" where
  "sample_values d = (if d = 1 then [1, 2] else [1])"

lemma sample_attr_docs: "attr_docs sample_attrs (\<lambda>_. 1) sample_values [1, 2]"
  by (simp add: attr_docs_def sample_values_def sample_attrs_def pid_ids_def pid_getIdList_def prop_id_list_init_def prop_id_list_clear_def
      prop_id_list_at_def INDEX_MSB_def INDEX_MASK_def upt_rec valueId2NameId_def)

theorem attr_groups_top_witness:
  "\<exists>c c'. add_list ac_addDoc [1, 2] (ac_new sample_attrs 1 0) = Some c \<and>
     ac_getGroupRep (heap_queue (0, 0)) 0 [] c = Some (c',
       [\<lparr>ri_level = 0, ri_text = ustr ''color'', ri_id = 0, ri_doc_count = 2, ri_score = 2 :: int\<rparr>,
        \<lparr>ri_level = 1, ri_text = ustr ''red'', ri_id = 1, ri_doc_count = 2, ri_score = 2\<rparr>,
        \<lparr>ri_level = 1, ri_text = ustr ''blue'', ri_id = 2, ri_doc_count = 1, ri_score = 1\<rparr>])"
proof -
  let ?N = "\<lambda>_ :: u32. 1 :: u32" and ?VS = "\<lambda>v :: u32. if v = 1 then ustr ''red'' else ustr ''blue''" and ?NS = "\<lambda>_ :: u32. ustr ''color''"
  have u: "(\<Union>d\<in>set [1, 2]. set (sample_values d)) = {1, 2}" by (auto simp: sample_values_def)
  have ok: "card (\<Union>d\<in>set [1, 2]. set (sample_values d)) < 2 ^ 32"
    "list_all (\<lambda>d. list_all (\<lambda>v. valueStr sample_attrs v = Some (?VS v) \<and> nameStr sample_attrs (?N v) = Some (?NS (?N v))) (sample_values d)) [1, 2]"
    unfolding u by (simp_all add: sample_values_def sample_attrs_def valueStr_def nameStr_def vec_at_def)
  have k: "counted_docs 0 [1, 2 :: docid] = [1, 2]" by (simp add: counted_docs_def)
  have vo: "values_of ?N sample_values [1, 2] 1 = {1, 2}" unfolding values_of_def u by auto
  have no: "names_of 1 ?N sample_values [1, 2] = {1}" unfolding names_of_def u by (auto simp: vo)
  obtain c c' ns vals where r: "add_list ac_addDoc [1, 2] (ac_new sample_attrs 1 0) = Some c"
    "ac_getGroupRep (heap_queue (0, 0)) 0 [] c = Some (c', concat (map (\<lambda>n.
      attr_name_item ?NS (name_docs ?N sample_values [1, 2]) n # map (attr_value_item ?VS (value_docs sample_values [1, 2])) (vals n)) ns) :: int rep_item list)"
    "distinct ns" "set ns \<subseteq> {1}" "length ns = 1" "distinct (vals 1)" "set (vals 1) = {1, 2}"
    "sorted_wrt (\<lambda>a b. value_docs sample_values [1, 2] a \<ge> value_docs sample_values [1, 2] b) (vals 1)"
    using attr_groups_top [where qops = "heap_queue (0, 0)" and topNum = 0 and mn = 1 and mx = 0 and items = "[] :: int rep_item list",
        OF hq.top_queue_axioms sample_attr_docs _ _ ok]
    unfolding k no by (auto simp: Let_def vo)
  have ns: "ns = [1]" using r(4,5) by (cases ns) auto
  have vd: "value_docs sample_values [1, 2] 1 = 2" "value_docs sample_values [1, 2] 2 = 1" "name_docs ?N sample_values [1, 2] 1 = 2"
    by (simp_all add: value_docs_def name_docs_def sample_values_def)
  have "length (vals 1) = 2" using r(6,7) distinct_card by fastforce
  then obtain a b where ab: "vals 1 = [a, b]" by (auto simp: numeral_2_eq_2 length_Suc_conv)
  then have "(a = 1 \<and> b = 2) \<or> (a = 2 \<and> b = 1)" using r(6,7) by (auto simp: doubleton_eq_iff)
  then have "vals 1 = [1, 2]" using ab r(8) vd by auto
  then show ?thesis using r(1,2) ns vd by (auto simp: attr_name_item_def attr_value_item_def)
qed

end
