(* ===== verification/Counter_Builder.thy ===== *)
theory Counter_Builder
  imports Group_Param Group_Filter Attr_Counter
begin

text \<open>
  Building the filter of a search from its parameters (core/mining-manager/group-manager: GroupCounterLabelBuilder.cpp,
  GroupFilterBuilder.cpp, and the choice of the attribute counter in GroupFilter.cpp). A null pointer is \<open>None\<close>. The tables of
  numeric properties, \<open>lexical_cast\<close> to \<open>float\<close> and the limits of \<open>float\<close> are parameters; \<open>float\<close> and \<open>double\<close> are one
  linear order.
\<close>

section \<open>Labels\<close>

record 'd float_ops =
  fl_cast :: "string \<Rightarrow> 'd option"
  fl_min :: 'd
  fl_max :: 'd

text \<open>\<open>None\<close> for failure, otherwise whether the label is a range.\<close>

definition checkLabelParam :: "group_path list \<Rightarrow> bool option" where
  "checkLabelParam labelPaths =
     (case labelPaths of
        [] \<Rightarrow> None
      | path # _ \<Rightarrow> (case path of [] \<Rightarrow> None | propValue # _ \<Rightarrow> Some (CHR ''-'' \<in> set propValue)))"

definition convertNumericLabel :: "'d float_ops \<Rightarrow> string \<Rightarrow> 'd option" where
  "convertNumericLabel fl src = (if CHR ''-'' \<in> set src then None else fl_cast fl src)"

definition convertRangeLabel :: "'d float_ops \<Rightarrow> string \<Rightarrow> ('d \<times> 'd) option" where
  "convertRangeLabel fl src =
     (if CHR ''-'' \<notin> set src then None
      else
        let delimitPos = length (takeWhile (\<lambda>c. c \<noteq> CHR ''-'') src) in
        Option.bind (if delimitPos \<noteq> 0 then fl_cast fl (take delimitPos src) else Some (fl_min fl)) (\<lambda>lowerBound.
          map_option (\<lambda>upperBound. (lowerBound, upperBound))
            (if delimitPos + 1 \<noteq> length src then fl_cast fl (drop (delimitPos + 1) src) else Some (fl_max fl))))"

text \<open>The loops over the paths of a label: an empty path or a value that cannot be converted ends them with a failure.\<close>

fun convert_paths :: "(string \<Rightarrow> 'a option) \<Rightarrow> group_path list \<Rightarrow> 'a list option" where
  "convert_paths f [] = Some []"
| "convert_paths f (path # paths) =
     (case path of
        [] \<Rightarrow> None
      | propValue # _ \<Rightarrow> Option.bind (f propValue) (\<lambda>x. map_option ((#) x) (convert_paths f paths)))"

record 'd numeric_table =
  nt_getDoubleValue :: "docid \<Rightarrow> 'd option"
  nt_getFloatValue :: "docid \<Rightarrow> 'd option"
  nt_getInt32Value :: "docid \<Rightarrow> int option"

record 'd label_builder =
  lb_groupConfigMap :: "string \<rightharpoonup> group_config"
  lb_getPropValueTable :: "string \<Rightarrow> prop_value_table option"
  lb_getDateGroupTable :: "string \<Rightarrow> date_group_table option"
  lb_createPropertyTable :: "string \<Rightarrow> 'd numeric_table option"

definition createStringLabel :: "(string \<Rightarrow> ustring) \<Rightarrow> 'd label_builder \<Rightarrow> string \<times> group_path list \<Rightarrow> doc_test option" where
  "createStringLabel conv b l =
     map_option (\<lambda>t. string_label_test t (string_label_ids conv t (snd l))) (lb_getPropValueTable b (fst l))"

definition createNumericLabel :: "'d float_ops \<Rightarrow> 'd label_builder \<Rightarrow> string \<times> group_path list \<Rightarrow> doc_test option" where
  "createNumericLabel fl b l =
     Option.bind (lb_createPropertyTable b (fst l)) (\<lambda>t.
       map_option (numeric_label_test1 (nt_getFloatValue t)) (convert_paths (convertNumericLabel fl) (snd l)))"

definition createRangeLabel :: "'d :: linorder float_ops \<Rightarrow> 'd label_builder \<Rightarrow> string \<times> group_path list \<Rightarrow> doc_test option" where
  "createRangeLabel fl b l =
     Option.bind (lb_createPropertyTable b (fst l)) (\<lambda>t.
       map_option (numeric_label_test2 (nt_getFloatValue t)) (convert_paths (convertRangeLabel fl) (snd l)))"

definition createNumericRangeLabel :: "'d :: linorder float_ops \<Rightarrow> 'd label_builder \<Rightarrow> string \<times> group_path list \<Rightarrow> doc_test option" where
  "createNumericRangeLabel fl b l =
     (case checkLabelParam (snd l) of
        None \<Rightarrow> None
      | Some isRange \<Rightarrow> if isRange then createRangeLabel fl b l else createNumericLabel fl b l)"

definition createDateLabel :: "date_boost \<Rightarrow> 'd label_builder \<Rightarrow> string \<times> group_path list \<Rightarrow> doc_test option" where
  "createDateLabel db b l =
     Option.bind (convert_paths (apiStrToDateMask db) (snd l)) (\<lambda>dateMaskVec.
       map_option (\<lambda>t. date_label_test t dateMaskVec) (lb_getDateGroupTable b (fst l)))"

definition createGroupLabel :: "(string \<Rightarrow> ustring) \<Rightarrow> date_boost \<Rightarrow> 'd :: linorder float_ops \<Rightarrow> 'd label_builder \<Rightarrow>
    string \<times> group_path list \<Rightarrow> doc_test option" where
  "createGroupLabel conv db fl b l =
     (case lb_groupConfigMap b (fst l) of
        None \<Rightarrow> None
      | Some groupConfig \<Rightarrow>
          if isStringType groupConfig then createStringLabel conv b l
          else if isNumericType groupConfig then createNumericRangeLabel fl b l
          else if isDateTimeType groupConfig then createDateLabel db b l
          else None)"

section \<open>Counters\<close>

text \<open>The counters without a second property, which can be the second property of another, and all counters.\<close>

datatype 'd plain_counter =
    String_Counter string_counter
  | Numeric_Counter "'d numeric_counter"
  | Date_Counter date_counter

datatype 'd group_counter =
    Plain "'d plain_counter"
  | String_Sub "'d plain_counter string_sub_counter"
  | Numeric_Sub "('d, 'd plain_counter) numeric_sub_counter"
  | Date_Sub "'d plain_counter date_sub_counter"
  | Range string "docid \<Rightarrow> int option" "u32 list"

definition createStringCounter :: "'d label_builder \<Rightarrow> string \<Rightarrow> 'd plain_counter option \<Rightarrow> 'd group_counter option" where
  "createStringCounter b prop sub =
     map_option (\<lambda>t. case sub of Some s \<Rightarrow> String_Sub (ss_new t s) | None \<Rightarrow> Plain (String_Counter (sc_new t))) (lb_getPropValueTable b prop)"

definition createNumericCounter :: "'d label_builder \<Rightarrow> string \<Rightarrow> 'd plain_counter option \<Rightarrow> 'd group_counter option" where
  "createNumericCounter b prop sub =
     map_option (\<lambda>t. case sub of
         Some s \<Rightarrow> Numeric_Sub (nsc_new prop (nt_getDoubleValue t) s)
       | None \<Rightarrow> Plain (Numeric_Counter (nc_new prop (nt_getDoubleValue t)))) (lb_createPropertyTable b prop)"

definition createDateCounter :: "'d label_builder \<Rightarrow> string \<Rightarrow> string \<Rightarrow> 'd plain_counter option \<Rightarrow> 'd group_counter option" where
  "createDateCounter b prop unit sub =
     Option.bind (unitStrToMask unit) (\<lambda>m.
       map_option (\<lambda>t. case sub of Some s \<Rightarrow> Date_Sub (dsc_new t m s) | None \<Rightarrow> Plain (Date_Counter (dc_new t m))) (lb_getDateGroupTable b prop))"

definition createNumericRangeCounter :: "'d label_builder \<Rightarrow> string \<Rightarrow> 'd group_counter option" where
  "createNumericRangeCounter b prop =
     (case lb_groupConfigMap b prop of
        None \<Rightarrow> None
      | Some c \<Rightarrow>
          if \<not> isNumericType c then None
          else map_option (\<lambda>t. Range prop (nt_getInt32Value t) seg_init) (lb_createPropertyTable b prop))"

definition createValueCounter :: "'d label_builder \<Rightarrow> group_prop_param \<Rightarrow> 'd plain_counter option \<Rightarrow> 'd group_counter option" where
  "createValueCounter b param sub =
     (case lb_groupConfigMap b (gp_property param) of
        None \<Rightarrow> None
      | Some groupConfig \<Rightarrow>
          if isStringType groupConfig then createStringCounter b (gp_property param) sub
          else if isNumericType groupConfig then createNumericCounter b (gp_property param) sub
          else if isDateTimeType groupConfig then createDateCounter b (gp_property param) (gp_unit param) sub
          else None)"

text \<open>When the counter of the second property cannot be created, a counter without one is built.\<close>

definition createGroupCounter :: "'d label_builder \<Rightarrow> group_prop_param \<Rightarrow> 'd group_counter option" where
  "createGroupCounter b param =
     (if gp_isRange param then createNumericRangeCounter b (gp_property param)
      else if gp_subProperty param = [] then createValueCounter b param None
      else
        let subPropParam = gpp_init\<lparr>gp_property := gp_subProperty param\<rparr>;
            subCounter = (case createValueCounter b subPropParam None of Some (Plain c) \<Rightarrow> Some c | _ \<Rightarrow> None)
        in createValueCounter b param subCounter)"

text \<open>The virtual functions of the counters.\<close>

fun plain_addDoc :: "docid \<Rightarrow> 'd :: linorder plain_counter \<Rightarrow> 'd plain_counter option" where
  "plain_addDoc doc (String_Counter c) = map_option String_Counter (sc_addDoc doc c)"
| "plain_addDoc doc (Numeric_Counter c) = Some (Numeric_Counter (nc_addDoc doc c))"
| "plain_addDoc doc (Date_Counter c) = map_option Date_Counter (dc_addDoc doc c)"

record 'd rep_env =
  re_cmp :: "ustring \<Rightarrow> ustring \<Rightarrow> int"
  re_conv :: "string \<Rightarrow> ustring"
  re_fmt :: "'d \<Rightarrow> ustring"
  re_boost :: date_boost

fun plain_getStringRep :: "'d :: zero rep_env \<Rightarrow> int \<Rightarrow> 'd plain_counter \<Rightarrow> 'd rep_item list option" where
  "plain_getStringRep e level (String_Counter c) = map_option snd (sc_getStringRep (re_cmp e) level c [])"
| "plain_getStringRep e level (Numeric_Counter c) = Some (nc_getStringRep (re_fmt e) level c)"
| "plain_getStringRep e level (Date_Counter c) = Some (dc_getStringRep (re_boost e) (re_conv e) level c)"

definition plain_ops :: "'d :: {linorder, zero} rep_env \<Rightarrow> ('d plain_counter, 'd) counter_ops" where
  "plain_ops e = \<lparr>co_addDoc = plain_addDoc, co_getStringRep = plain_getStringRep e\<rparr>"

fun gc_addDoc :: "'d :: {linorder, zero} rep_env \<Rightarrow> docid \<Rightarrow> 'd group_counter \<Rightarrow> 'd group_counter option" where
  "gc_addDoc e doc (Plain c) = map_option Plain (plain_addDoc doc c)"
| "gc_addDoc e doc (String_Sub c) = map_option String_Sub (ss_addDoc (plain_ops e) doc c)"
| "gc_addDoc e doc (Numeric_Sub c) = map_option Numeric_Sub (nsc_addDoc (plain_ops e) doc c)"
| "gc_addDoc e doc (Date_Sub c) = map_option Date_Sub (dsc_addDoc (plain_ops e) doc c)"
| "gc_addDoc e doc (Range prop val tree) = Some (Range prop val (range_addDoc (val doc) tree))"

fun gc_getGroupRep :: "'d :: {linorder, zero} rep_env \<Rightarrow> 'd group_counter \<Rightarrow> 'd group_rep \<Rightarrow> ('d group_counter \<times> 'd group_rep) option" where
  "gc_getGroupRep e (Plain (String_Counter c)) rep =
     map_option (\<lambda>(c', rep'). (Plain (String_Counter c'), rep')) (sc_getGroupRep (re_conv e) (re_cmp e) c rep)"
| "gc_getGroupRep e (Plain (Numeric_Counter c)) rep = Some (Plain (Numeric_Counter c), nc_getGroupRep c rep)"
| "gc_getGroupRep e (Plain (Date_Counter c)) rep = Some (Plain (Date_Counter c), dc_getGroupRep (re_boost e) (re_conv e) c rep)"
| "gc_getGroupRep e (String_Sub c) rep = map_option (Pair (String_Sub c)) (ss_getGroupRep (plain_ops e) (re_conv e) (re_cmp e) c rep)"
| "gc_getGroupRep e (Numeric_Sub c) rep = map_option (Pair (Numeric_Sub c)) (nsc_getGroupRep (plain_ops e) (re_conv e) (re_fmt e) c rep)"
| "gc_getGroupRep e (Date_Sub c) rep = map_option (Pair (Date_Sub c)) (dsc_getGroupRep (plain_ops e) (re_boost e) (re_conv e) c rep)"
| "gc_getGroupRep e (Range prop val tree) rep = (let (tree', rep') = range_getGroupRep prop tree rep in Some (Range prop val tree', rep'))"

section \<open>The attribute counter\<close>

datatype 'd attr_object = Attr_Counter attr_counter | Attr_Score_Counter "'d attr_score_counter"

fun ao_addDoc :: "(ustring \<Rightarrow> string) \<Rightarrow> 'd attr_weights \<Rightarrow> docid \<Rightarrow> 'd :: linordered_idom attr_object \<Rightarrow> 'd attr_object option" where
  "ao_addDoc str w doc (Attr_Counter c) = map_option Attr_Counter (ac_addDoc doc c)"
| "ao_addDoc str w doc (Attr_Score_Counter c) = map_option Attr_Score_Counter (as_addDoc str w doc c)"

fun ao_addAttrDoc :: "u32 \<Rightarrow> docid \<Rightarrow> 'd attr_object \<Rightarrow> 'd attr_object option" where
  "ao_addAttrDoc n doc (Attr_Counter c) = map_option Attr_Counter (ac_addAttrDoc n doc c)"
| "ao_addAttrDoc n doc (Attr_Score_Counter c) = map_option Attr_Score_Counter (ac_addAttrDoc n doc c)"

text \<open>\<open>zambezi\<close> is the value of \<open>SearchingMode::ZAMBEZI\<close>.\<close>

definition createAttrCounter :: "int \<Rightarrow> group_param \<Rightarrow> attr_table \<Rightarrow> prop_value_table option \<Rightarrow> 'd attr_object option" where
  "createAttrCounter zambezi p t categoryTable =
     (if isAttrGroup p then
        (case categoryTable of
           Some ct \<Rightarrow>
             if searchMode p = zambezi \<and> isAttrToken p then Some (Attr_Score_Counter (as_new t ct))
             else Some (Attr_Counter (ac_new t 1 (attrIterDocNum p)))
         | None \<Rightarrow> Some (Attr_Counter (ac_new t 1 (attrIterDocNum p))))
      else None)"

section \<open>GroupFilterBuilder\<close>

definition kCategoryPropName :: string where "kCategoryPropName = ''Category''"

definition createFilter :: "(string \<Rightarrow> ustring) \<Rightarrow> date_boost \<Rightarrow> 'd :: linorder float_ops \<Rightarrow> int \<Rightarrow> 'd label_builder \<Rightarrow> attr_table option \<Rightarrow>
    group_param \<Rightarrow> ('d group_counter, 'd attr_object) group_filter option" where
  "createFilter conv db fl zambezi b attrTable p =
     (if isEmpty p then None
      else
        let (ok, st) = (if \<not> isGroupEmpty p
            then initGroup gp_property (createGroupCounter b) (createGroupLabel conv db fl b) (groupProps p) (groupLabels p) gf_new
            else (True, gf_new)) in
        if \<not> ok then None
        else if isAttrEmpty p then Some st
        else case attrTable of
          None \<Rightarrow> None
        | Some t \<Rightarrow> Some (initAttr conv t (createAttrCounter zambezi p t (lb_getPropValueTable b kCategoryPropName)) (attrLabels p) st))"

section \<open>Building succeeds\<close>

lemma init_counters_ok: "\<forall>p\<in>set ps. create p \<noteq> None \<Longrightarrow> fst (init_counters name create ps m cs)"
  by (induction ps arbitrary: m cs) (auto split: option.splits)

lemma init_labels_ok: "\<forall>l\<in>set ls. create l \<noteq> None \<Longrightarrow> fst (init_labels create ls m acc)"
  by (induction ls arbitrary: acc) (auto split: option.splits)

lemma initGroup_ok:
  assumes "\<forall>p\<in>set ps. create p \<noteq> None" "\<forall>l\<in>set ls. label l \<noteq> None"
  shows "\<exists>st'. initGroup name create label ps ls st = (True, st')"
proof -
  obtain m cs where c: "init_counters name create ps Map.empty (gf_groupCounters st) = (True, m, cs)"
    using init_counters_ok [OF assms(1), of name Map.empty "gf_groupCounters st"] by (metis fst_conv prod_cases3)
  obtain ls' where "init_labels label ls m (gf_groupLabels st) = (True, ls')"
    using init_labels_ok [OF assms(2), of m "gf_groupLabels st"] by (metis prod.collapse)
  then show ?thesis using c by (simp add: initGroup_def Let_def)
qed

lemma first_props_set: "name ` set (first_props name xs) = name ` set xs"
proof (induction xs)
  case (Cons x xs)
  have "name ` {q \<in> A. name q \<noteq> name x} = name ` A - {name x}" for A by auto
  then show ?case using Cons by auto
qed simp

text \<open>The tables of all configured properties have been loaded, and these are strings, numbers or dates.\<close>

definition tables_loaded :: "'d label_builder \<Rightarrow> bool" where
  "tables_loaded b \<longleftrightarrow> (\<forall>name c. lb_groupConfigMap b name = Some c \<longrightarrow>
     (if isStringType c then lb_getPropValueTable b name \<noteq> None
      else if isNumericType c then lb_createPropertyTable b name \<noteq> None
      else isDateTimeType c \<and> lb_getDateGroupTable b name \<noteq> None))"

text \<open>The labels of numeric properties are not empty and are all numbers or all ranges; the validation does not look at this.\<close>

definition numeric_labels_ok :: "'d float_ops \<Rightarrow> (string \<rightharpoonup> group_config) \<Rightarrow> (string \<times> group_path list) list \<Rightarrow> bool" where
  "numeric_labels_ok fl m labels = list_all (\<lambda>(name, paths).
     case m name of
       None \<Rightarrow> True
     | Some c \<Rightarrow> \<not> isNumericType c \<or>
         (case checkLabelParam paths of
            None \<Rightarrow> False
          | Some isRange \<Rightarrow> if isRange then convert_paths (convertRangeLabel fl) paths \<noteq> None
                            else convert_paths (convertNumericLabel fl) paths \<noteq> None)) labels"

lemma prop_types_disjoint: "isStringType c \<Longrightarrow> \<not> isNumericType c" "isStringType c \<Longrightarrow> \<not> isDateTimeType c" "isNumericType c \<Longrightarrow> \<not> isDateTimeType c"
  by (auto simp: isStringType_def isNumericType_def isDateTimeType_def)

lemma createGroupCounter_ok:
  assumes "checkGroupPropParam param (lb_groupConfigMap b) = None" "tables_loaded b"
  shows "createGroupCounter b param \<noteq> None"
proof -
  obtain c where c: "lb_groupConfigMap b (gp_property param) = Some c" "gp_isRange param \<Longrightarrow> isNumericType c \<and> gp_subProperty param = []"
    "isDateTimeType c \<Longrightarrow> unitStrToMask (gp_unit param) \<noteq> None"
    using checkGroupPropParam_None [OF assms(1)] by blast
  have t: "if isStringType c then lb_getPropValueTable b (gp_property param) \<noteq> None
      else if isNumericType c then lb_createPropertyTable b (gp_property param) \<noteq> None
      else isDateTimeType c \<and> lb_getDateGroupTable b (gp_property param) \<noteq> None"
    using assms(2) c(1) unfolding tables_loaded_def by blast
  have v: "createValueCounter b param sub \<noteq> None" for sub
    using c t by (auto simp: createValueCounter_def createStringCounter_def createNumericCounter_def createDateCounter_def split: if_splits)
  have r: "createNumericRangeCounter b (gp_property param) \<noteq> None" if "gp_isRange param"
    using c(1) c(2) [OF that] t prop_types_disjoint by (auto simp: createNumericRangeCounter_def split: if_splits)
  show ?thesis
  proof (cases "gp_isRange param")
    case True
    then show ?thesis using r by (simp add: createGroupCounter_def)
  next
    case False
    then show ?thesis using v by (simp add: createGroupCounter_def Let_def del: not_None_eq)
  qed
qed

lemma convert_dates: "checkDateLabel db paths = None \<Longrightarrow> convert_paths (apiStrToDateMask db) paths \<noteq> None"
  by (induction paths) (auto simp: checkDateLabel_def and_then_def split: list.splits option.splits)

lemma createGroupLabel_ok:
  assumes "lb_groupConfigMap b (fst l) = Some c" "isDateTimeType c \<Longrightarrow> checkDateLabel db (snd l) = None" "tables_loaded b"
    and "numeric_labels_ok fl (lb_groupConfigMap b) [l]"
  shows "createGroupLabel conv db fl b l \<noteq> None"
proof -
  have t: "if isStringType c then lb_getPropValueTable b (fst l) \<noteq> None
      else if isNumericType c then lb_createPropertyTable b (fst l) \<noteq> None
      else isDateTimeType c \<and> lb_getDateGroupTable b (fst l) \<noteq> None"
    using assms(1,3) unfolding tables_loaded_def by blast
  have "createNumericRangeLabel fl b l \<noteq> None" if "isNumericType c" "lb_createPropertyTable b (fst l) \<noteq> None"
    using assms(1,4) that
    by (auto simp: numeric_labels_ok_def createNumericRangeLabel_def createRangeLabel_def createNumericLabel_def case_prod_beta
        split: option.splits if_splits)
  moreover have "createDateLabel db b l \<noteq> None" if "isDateTimeType c" "lb_getDateGroupTable b (fst l) \<noteq> None"
    using convert_dates [OF assms(2) [OF that(1)]] that by (auto simp: createDateLabel_def)
  ultimately show ?thesis using assms(1) t by (auto simp: createGroupLabel_def createStringLabel_def split: if_splits)
qed

section \<open>Properties\<close>

text \<open>C32: An accepted request gets a filter: when \<open>checkParam\<close> accepts the parameters, the tables of the configured properties are
loaded, the labels of numeric properties can be converted and the attribute table is there when attributes are configured, then
\<open>createFilter\<close> returns a filter, with a counter for each requested property and a label for each selected one.
\<close>

theorem accepted_request_gets_filter:
  fixes fl :: "'d :: linorder float_ops"
  assumes "checkParam db schema p = None" "\<not> isEmpty p" "lb_groupConfigMap b = group_config_map schema" "tables_loaded b"
    and "numeric_labels_ok fl (group_config_map schema) (groupLabels p)" "attr_enable schema \<longrightarrow> attrTable \<noteq> None"
  shows "\<exists>st. createFilter conv db fl zambezi b attrTable p = Some st \<and>
    length (gf_groupCounters st) = card (gp_property ` set (groupProps p)) \<and> length (gf_groupLabels st) = length (groupLabels p) \<and>
    length (gf_attrLabels st) = length (attrLabels p)"
proof -
  let ?C = "createGroupCounter b" and ?L = "createGroupLabel conv db fl b"
  have g: "checkGroupParam db schema p = None" and a: "checkAttrParam schema p = None" using assms(1) by (simp_all add: checkParam_def)
  have built: "\<exists>st :: ('d group_counter, 'd attr_object) group_filter. initGroup gp_property ?C ?L (groupProps p) (groupLabels p) gf_new = (True, st)" if "\<not> isGroupEmpty p"
  proof (rule initGroup_ok)
    have ok: "checkGroupProps (group_config_map schema) p = None" "checkGroupLabels db (group_config_map schema) p = None"
      using g that by (simp_all add: checkGroupParam_def split: if_splits)
    show "\<forall>q\<in>set (groupProps p). ?C q \<noteq> None"
      using ok(1) createGroupCounter_ok [OF _ assms(4)] assms(3) by (auto simp: checkGroupProps_def)
    show "\<forall>l\<in>set (groupLabels p). ?L l \<noteq> None"
    proof
      fix l assume l: "l \<in> set (groupLabels p)"
      obtain c where c: "lb_groupConfigMap b (fst l) = Some c" "isDateTimeType c \<Longrightarrow> checkDateLabel db (snd l) = None"
      proof -
        have "(case group_config_map schema (fst l) of None \<Rightarrow> Some (Not_Configured (fst l))
            | Some c \<Rightarrow> if isDateTimeType c then checkDateLabel db (snd l) else None) = None"
          using ok(2) l by (auto simp: checkGroupLabels_def case_prod_beta)
        then show thesis using that assms(3) by (cases "group_config_map schema (fst l)") (auto split: if_splits)
      qed
      have "numeric_labels_ok fl (lb_groupConfigMap b) [l]" using assms(3,5) l by (auto simp: numeric_labels_ok_def list_all_iff)
      then show "?L l \<noteq> None" using createGroupLabel_ok [OF c assms(4)] by blast
    qed
  qed
  have len: "length (first_props gp_property (groupProps p)) = card (gp_property ` set (groupProps p))"
    using distinct_card [OF first_props_distinct [of gp_property "groupProps p"]] by (simp add: first_props_set)
  obtain st :: "('d group_counter, 'd attr_object) group_filter" where st: "(if \<not> isGroupEmpty p then initGroup gp_property ?C ?L (groupProps p) (groupLabels p) gf_new else (True, gf_new)) = (True, st)"
    "length (gf_groupCounters st) = card (gp_property ` set (groupProps p))" "length (gf_groupLabels st) = length (groupLabels p)" "gf_attrLabels st = []"
  proof (cases "isGroupEmpty p")
    case True
    then show thesis by (intro that [of gf_new]) (simp_all add: isGroupEmpty_def gf_new_def)
  next
    case False
    then obtain st :: "('d group_counter, 'd attr_object) group_filter" where i: "initGroup gp_property ?C ?L (groupProps p) (groupLabels p) gf_new = (True, st)" using built by blast
    show thesis using False i len by (intro that [of st]) (simp_all add: initGroup_fields [OF i])
  qed
  show ?thesis
  proof (cases "isAttrEmpty p")
    case True
    then show ?thesis using st assms(2) by (intro exI [of _ st]) (simp add: createFilter_def isAttrEmpty_def)
  next
    case False
    then obtain t where "attrTable = Some t" using a assms(6) by (auto simp: checkAttrParam_def split: if_splits)
    then show ?thesis using st assms(2) False by (simp add: createFilter_def initAttr_def)
  qed
qed

text \<open>A range label without lower bound, such as -200, is documented to select all values that are not larger than the
upper bound. The lower bound that it gets is the least positive number: a document whose value is not positive is not selected,
whatever the upper bound.
\<close>

theorem open_range_label_drops_nonpositive:
  assumes "fl_cast fl s = Some hi" "s \<noteq> []" "lb_createPropertyTable b prop = Some t" "nt_getFloatValue t doc = Some v"
    and "(0 :: 'd :: {linorder, zero}) < fl_min fl" "v \<le> 0"
  shows "\<exists>test. createNumericRangeLabel fl b (prop, [[CHR ''-'' # s]]) = Some test \<and> test doc = Some False"
  using assms
  by (auto simp: createNumericRangeLabel_def checkLabelParam_def createRangeLabel_def convertRangeLabel_def numeric_label_test2_def)

section \<open>Instances\<close>

text \<open>A string property p and a numeric property Price; the request groups p by Price and selects a > b and a range.\<close>

definition sample_schema :: mining_schema where
  "sample_schema = \<lparr>group_enable = True, group_config_map =
     [''p'' \<mapsto> \<lparr>propType = STRING_PROPERTY_TYPE, isConfigAsRebuild = False, isRTypeStr = False\<rparr>,
      ''Price'' \<mapsto> \<lparr>propType = FLOAT_PROPERTY_TYPE, isConfigAsRebuild = False, isRTypeStr = False\<rparr>], attr_enable = False\<rparr>"

definition sample_prices :: "int numeric_table" where
  "sample_prices = \<lparr>nt_getDoubleValue = (\<lambda>_. Some 0), nt_getFloatValue = (\<lambda>_. Some 0), nt_getInt32Value = (\<lambda>_. Some 0)\<rparr>"

definition sample_builder :: "int label_builder" where
  "sample_builder = \<lparr>lb_groupConfigMap = group_config_map sample_schema, lb_getPropValueTable = (\<lambda>_. Some sample_table),
     lb_getDateGroupTable = (\<lambda>_. None),
     lb_createPropertyTable = (\<lambda>_. Some sample_prices)\<rparr>"

definition sample_floats :: "int float_ops" where
  "sample_floats = \<lparr>fl_cast = (\<lambda>s. if s = ''200'' then Some 200 else None), fl_min = 1, fl_max = 1000\<rparr>"

definition sample_param :: group_param where
  "sample_param = (gparam_init 0)\<lparr>groupProps := [gpp_init\<lparr>gp_property := ''p'', gp_subProperty := ''Price''\<rparr>],
     groupLabels := [(''Price'', [[''-200'']]), (''p'', [[''a'', ''b'']])]\<rparr>"

lemma sample_types: "isStringType \<lparr>propType = STRING_PROPERTY_TYPE, isConfigAsRebuild = x, isRTypeStr = y\<rparr>"
  "\<not> isStringType \<lparr>propType = FLOAT_PROPERTY_TYPE, isConfigAsRebuild = x, isRTypeStr = y\<rparr>"
  "isNumericType \<lparr>propType = FLOAT_PROPERTY_TYPE, isConfigAsRebuild = x, isRTypeStr = y\<rparr>"
  "\<not> isNumericType \<lparr>propType = STRING_PROPERTY_TYPE, isConfigAsRebuild = x, isRTypeStr = y\<rparr>"
  "\<not> isDateTimeType \<lparr>propType = FLOAT_PROPERTY_TYPE, isConfigAsRebuild = x, isRTypeStr = y\<rparr>"
  "\<not> isDateTimeType \<lparr>propType = STRING_PROPERTY_TYPE, isConfigAsRebuild = x, isRTypeStr = y\<rparr>"
  by (simp_all add: isStringType_def isNumericType_def isDateTimeType_def)

theorem accepted_request_gets_filter_witness:
  "\<exists>st. createFilter ustr plain_boost sample_floats 9 sample_builder None sample_param = Some st \<and>
     length (gf_groupCounters st) = 1 \<and> length (gf_groupLabels st) = 2"
proof -
  note defs = sample_param_def gparam_init_def gpp_init_def sample_schema_def
  have "checkParam plain_boost sample_schema sample_param = None"
    by (simp add: defs checkParam_def checkGroupParam_def isGroupEmpty_def checkGroupProps_def checkGroupPropParam_def checkSubProperty_def
        sample_types checkGroupLabels_def checkAutoSelectLimits_def checkAttrParam_def isAttrEmpty_def)
  moreover have "\<not> isEmpty sample_param" by (simp add: defs isEmpty_def isGroupEmpty_def)
  moreover have "lb_groupConfigMap sample_builder = group_config_map sample_schema" by (simp add: sample_builder_def)
  moreover have "tables_loaded sample_builder"
    by (simp add: tables_loaded_def sample_builder_def sample_schema_def sample_types)
  moreover have "numeric_labels_ok sample_floats (group_config_map sample_schema) (groupLabels sample_param)"
    by (simp add: defs numeric_labels_ok_def sample_types checkLabelParam_def convertRangeLabel_def sample_floats_def)
  ultimately obtain st where "createFilter ustr plain_boost sample_floats 9 sample_builder None sample_param = Some st"
    "length (gf_groupCounters st) = card (gp_property ` set (groupProps sample_param))"
    "length (gf_groupLabels st) = length (groupLabels sample_param)"
    using accepted_request_gets_filter [of plain_boost sample_schema sample_param sample_builder sample_floats None ustr 9]
    by (auto simp: sample_schema_def)
  then show ?thesis by (intro exI [of _ st]) (simp add: sample_param_def)
qed

theorem open_range_label_drops_nonpositive_witness:
  "\<exists>test. createNumericRangeLabel sample_floats sample_builder (''Price'', [[''-200'']]) = Some test \<and> test 7 = Some False"
  by (rule open_range_label_drops_nonpositive [where hi = 200 and v = 0 and t = sample_prices])
    (simp_all add: sample_floats_def sample_builder_def sample_prices_def)

end
