(* ===== verification/Range_Items.thy ===== *)
theory Range_Items
  imports String_Counter
begin

text \<open>
  The ranges that a numeric property is shown with (\<open>toOntologyRepItemList\<close> of
  core/mining-manager/group-manager/NumericRangeGroupCounter.cpp and of GroupRep.cpp). A segment tree of counts is cut into at most seven
  ranges of values. A read outside of the ten entries of a row of the tree is \<open>None\<close>; the quotient in floating point by which the blocks
  are compared is the parameter \<open>vr\<close>; the sum of two differences is not taken modulo \<open>2 ^ 32\<close> (it is exact below \<open>2 ^ 30\<close>
  documents).
\<close>

section \<open>How many ranges for each block\<close>

definition MAX_RANGE_NUMBER :: nat where "MAX_RANGE_NUMBER = 7"

definition node1 :: "u32 list \<Rightarrow> nat \<Rightarrow> u32" where
  "node1 t i = t ! (110 * LEVEL_1_OF_SEGMENT_TREE + i)"

definition node2 :: "u32 list \<Rightarrow> nat \<Rightarrow> nat \<Rightarrow> u32" where
  "node2 t i a = t ! (100 * LEVEL_1_OF_SEGMENT_TREE + 10 * i + a)"

definition leaf :: "u32 list \<Rightarrow> nat \<Rightarrow> nat \<times> nat \<Rightarrow> u32" where
  "leaf t i s = t ! (100 * i + 10 * fst s + snd s)"

definition init_split :: "u32 list \<Rightarrow> u32 list" where
  "init_split t = map (\<lambda>i. if node1 t i \<noteq> 0 then 1 else 0) [0..<LEVEL_1_OF_SEGMENT_TREE]"

text \<open>The block with the greatest reduction of the variance, the first one if there are several.\<close>

fun best_block :: "(u32 \<Rightarrow> u32 \<Rightarrow> 'v :: linorder) \<Rightarrow> u32 list \<Rightarrow> u32 list \<Rightarrow> nat list \<Rightarrow> (nat \<times> 'v) option \<Rightarrow> nat option" where
  "best_block vr t split [] best = map_option fst best"
| "best_block vr t split (i # is) best =
     (if node1 t i \<le> split ! i then best_block vr t split is best
      else let varianceReduce = vr (node1 t i) (split ! i) in
        case best of
          None \<Rightarrow> best_block vr t split is (Some (i, varianceReduce))
        | Some (_, bestVarianceReduce) \<Rightarrow>
            best_block vr t split is (if varianceReduce > bestVarianceReduce then Some (i, varianceReduce) else best))"

fun more_ranges :: "(u32 \<Rightarrow> u32 \<Rightarrow> 'v :: linorder) \<Rightarrow> u32 list \<Rightarrow> nat \<Rightarrow> u32 list \<Rightarrow> u32 list" where
  "more_ranges vr t 0 split = split"
| "more_ranges vr t (Suc rangeNumber) split =
     (case best_block vr t split [0..<LEVEL_1_OF_SEGMENT_TREE] None of
        None \<Rightarrow> split
      | Some best \<Rightarrow> more_ranges vr t rangeNumber (split[best := split ! best + 1]))"

definition range_split :: "(u32 \<Rightarrow> u32 \<Rightarrow> 'v :: linorder) \<Rightarrow> u32 list \<Rightarrow> u32 list" where
  "range_split vr t =
     (let split = init_split t in more_ranges vr t (MAX_RANGE_NUMBER - length (filter (\<lambda>s. s \<noteq> 0) split)) split)"

section \<open>The ranges of a block\<close>

text \<open>A position in a block is a pair of the row and the entry. The first and the last entry that is not zero, and the next one.\<close>

definition range_end :: "u32 list \<Rightarrow> nat \<Rightarrow> (nat \<times> nat) option" where
  "range_end t i =
     Option.bind (find (\<lambda>a. node2 t i a \<noteq> 0) (rev [0..<10])) (\<lambda>a.
       map_option (Pair a) (find (\<lambda>b. leaf t i (a, b) \<noteq> 0) (rev [0..<10])))"

definition row_start :: "u32 list \<Rightarrow> nat \<Rightarrow> nat \<Rightarrow> (nat \<times> nat) option" where
  "row_start t i a0 =
     Option.bind (find (\<lambda>a. node2 t i a \<noteq> 0) [a0..<10]) (\<lambda>a.
       map_option (Pair a) (find (\<lambda>b. leaf t i (a, b) \<noteq> 0) [0..<10]))"

definition next_stop :: "u32 list \<Rightarrow> nat \<Rightarrow> nat \<times> nat \<Rightarrow> (nat \<times> nat) option" where
  "next_stop t i stop =
     (case find (\<lambda>b. leaf t i (fst stop, b) \<noteq> 0) [Suc (snd stop)..<10] of
        Some b \<Rightarrow> Some (fst stop, b)
      | None \<Rightarrow> row_start t i (Suc (fst stop)))"

lemma find_rev_upt_Some: "find P (rev [0..<n]) = Some x \<longleftrightarrow> x < n \<and> P x \<and> (\<forall>y. x < y \<and> y < n \<longrightarrow> \<not> P y)"
  by (induction n) (auto simp: less_Suc_eq)

lemma find_rev_upt_ex: "x < n \<Longrightarrow> P x \<Longrightarrow> \<exists>y. find P (rev [0..<n]) = Some y"
  by (induction n) (auto simp: less_Suc_eq)

lemma next_stop_less: "next_stop t i stop = Some stop' \<Longrightarrow>
    10 - fst stop' < 10 - fst stop \<or> (fst stop' = fst stop \<and> 10 - snd stop' < 10 - snd stop)"
  unfolding next_stop_def row_start_def
  by (auto simp: find_upt_Some bind_eq_Some_conv split: option.splits)

text \<open>
  The loop that moves \<open>stop\<close> until the count is as near to the target as it can be: \<open>difference\<close> is the count so far less the
  target.
\<close>

function range_fill :: "u32 list \<Rightarrow> nat \<Rightarrow> u32 \<Rightarrow> u32 \<Rightarrow> nat \<times> nat \<Rightarrow> nat \<times> nat \<Rightarrow> (u32 \<times> (nat \<times> nat) \<times> nat \<times> nat) option" where
  "range_fill t i difference tempCount tempStop stop =
     (let newDifference = difference + leaf t i stop in
      if sint newDifference + sint difference \<ge> 0 then Some (tempCount, tempStop, stop)
      else
        let (tempCount', difference', tempStop') =
          (if newDifference \<noteq> difference then (tempCount + leaf t i stop, newDifference, stop) else (tempCount, difference, tempStop)) in
        if tempCount' = node1 t i then Some (tempCount', tempStop', stop)
        else case next_stop t i stop of
          None \<Rightarrow> None
        | Some stop' \<Rightarrow> range_fill t i difference' tempCount' tempStop' stop')"
  by pat_completeness auto
termination
proof (relation "inv_image (less_than <*lex*> less_than) (\<lambda>(t, i, d, c, ts, s). (10 - fst s, 10 - snd s))")
  show "wf (inv_image (less_than <*lex*> less_than) (\<lambda>(t, i, d, c, ts, s). (10 - fst s, 10 - snd s)))" by auto
qed (use next_stop_less in \<open>fastforce split: if_splits\<close>)

declare range_fill.simps [simp del]

text \<open>The loop over the ranges but the last one; a range is its first and last position and its count.\<close>

fun range_cuts :: "u32 list \<Rightarrow> nat \<Rightarrow> u32 \<Rightarrow> nat list \<Rightarrow> u32 \<Rightarrow> u32 \<Rightarrow> nat \<times> nat \<Rightarrow>
    (((nat \<times> nat) \<times> (nat \<times> nat) \<times> u32) list \<times> u32 \<times> nat \<times> nat) option" where
  "range_cuts t i split [] tempCount oldCount stop = Some ([], tempCount, stop)"
| "range_cuts t i split (j # js) tempCount oldCount stop =
     (let difference = tempCount - ((of_nat j + 1) * node1 t i - 1) div split - 1 in
      Option.bind (range_fill t i difference tempCount (0, 0) stop) (\<lambda>(tempCount', tempStop, stop').
        if oldCount \<noteq> tempCount' then
          (if tempCount' = node1 t i then Some ([(stop, tempStop, tempCount' - oldCount)], tempCount', stop')
           else map_option (\<lambda>(rs, r). ((stop, tempStop, tempCount' - oldCount) # rs, r))
             (range_cuts t i split js tempCount' tempCount' stop'))
        else range_cuts t i split js tempCount' oldCount stop'))"

definition block_ranges :: "u32 list \<Rightarrow> nat \<Rightarrow> u32 \<Rightarrow> ((nat \<times> nat) \<times> (nat \<times> nat) \<times> u32) list option" where
  "block_ranges t i split =
     (if split = 0 then Some []
      else Option.bind (range_end t i) (\<lambda>end'.
        Option.bind (row_start t i 0) (\<lambda>stop0.
          map_option (\<lambda>(rs, tempCount, stop). rs @ (if tempCount \<noteq> node1 t i then [(stop, end', node1 t i - tempCount)] else []))
            (range_cuts t i split [0..<unat (split - 1)] 0 0 stop0))))"

section \<open>The items\<close>

definition show_int :: "int \<Rightarrow> string" where
  "show_int n = (if n < 0 then CHR ''-'' # show_nat (nat (- n)) else show_nat (nat n))"

definition range_item :: "(string \<Rightarrow> ustring) \<Rightarrow> nat \<Rightarrow> (nat \<times> nat) \<times> (nat \<times> nat) \<times> u32 \<Rightarrow> 'd :: zero rep_item" where
  "range_item conv i = (\<lambda>(start, stop, n).
     let atom = range_bound ! (i + 1) div 100 in
     make_item 1 (conv (show_int (atom * int (10 * fst start + snd start)) @ ''-'' @
       show_int (atom * int (10 * fst stop + snd stop + 1) - 1))) 0 n)"

fun blocks_items :: "(string \<Rightarrow> ustring) \<Rightarrow> u32 list \<Rightarrow> u32 list \<Rightarrow> nat list \<Rightarrow> 'd :: zero rep_item list option" where
  "blocks_items conv t split [] = Some []"
| "blocks_items conv t split (i # is) =
     Option.bind (block_ranges t i (split ! i)) (\<lambda>rs. map_option ((@) (map (range_item conv i) rs)) (blocks_items conv t split is))"

definition range_items :: "(u32 \<Rightarrow> u32 \<Rightarrow> 'v :: linorder) \<Rightarrow> (string \<Rightarrow> ustring) \<Rightarrow> string \<times> u32 list \<Rightarrow> 'd :: zero rep_item list option" where
  "range_items vr conv = (\<lambda>(prop, t).
     map_option ((#) (make_item 0 (conv prop) 0 (last t)))
       (blocks_items conv t (range_split vr t) [0..<LEVEL_1_OF_SEGMENT_TREE]))"

fun all_range_items :: "(u32 \<Rightarrow> u32 \<Rightarrow> 'v :: linorder) \<Rightarrow> (string \<Rightarrow> ustring) \<Rightarrow> numeric_range_group_rep \<Rightarrow> 'd :: zero rep_item list option" where
  "all_range_items vr conv [] = Some []"
| "all_range_items vr conv (x # xs) = Option.bind (range_items vr conv x) (\<lambda>items. map_option ((@) items) (all_range_items vr conv xs))"

text \<open>\<open>GroupRep::toOntologyRepItemList\<close>; \<open>fmt\<close> is \<open>formatNumericToUStr\<close>.\<close>

definition numeric_items :: "('d \<Rightarrow> ustring) \<Rightarrow> (string \<Rightarrow> ustring) \<Rightarrow> string \<times> ('d \<times> u32) list \<Rightarrow> 'd :: zero rep_item list" where
  "numeric_items fmt conv = (\<lambda>(prop, l).
     make_item 0 (conv prop) 0 (sum_list (map snd l)) # map (\<lambda>(v, n). make_item 1 (fmt v) 0 n) l)"

definition toOntologyRepItemList :: "(u32 \<Rightarrow> u32 \<Rightarrow> 'v :: linorder) \<Rightarrow> ('d \<Rightarrow> ustring) \<Rightarrow> (string \<Rightarrow> ustring) \<Rightarrow> 'd :: zero group_rep \<Rightarrow>
    'd group_rep option" where
  "toOntologyRepItemList vr fmt conv rep =
     map_option (\<lambda>items. \<lparr>stringGroupRep = stringGroupRep rep @ concat (map (numeric_items fmt conv) (numericGroupRep rep)) @ items,
         numericGroupRep = [], numericRangeGroupRep = []\<rparr>)
       (all_range_items vr conv (numericRangeGroupRep rep))"

section \<open>A block of counts\<close>

text \<open>
  The counts \<open>c\<close> of the hundred leaves of block \<open>i\<close> of a tree; the inner nodes are sums. The sum of all counts is below \<open>2 ^ 32\<close>.
\<close>

definition block_counts :: "u32 list \<Rightarrow> nat \<Rightarrow> (nat \<Rightarrow> nat) \<Rightarrow> bool" where
  "block_counts t i c \<longleftrightarrow> (\<forall>a<10. \<forall>b<10. unat (leaf t i (a, b)) = c (10 * a + b)) \<and>
     (\<forall>a<10. unat (node2 t i a) = (\<Sum>b<10. c (10 * a + b))) \<and> unat (node1 t i) = sum c {..<100}"

definition pos :: "nat \<times> nat \<Rightarrow> nat" where
  "pos s = 10 * fst s + snd s"

definition pos_ok :: "nat \<times> nat \<Rightarrow> bool" where
  "pos_ok s \<longleftrightarrow> fst s < 10 \<and> snd s < 10"

lemma pos_less: "pos_ok s \<Longrightarrow> pos s < 100"
  by (simp add: pos_ok_def pos_def)

lemma pos_div: "x < 100 \<Longrightarrow> pos (x div 10, x mod 10) = x \<and> pos_ok (x div 10, x mod 10)"
  by (simp add: pos_def pos_ok_def less_mult_imp_div_less)

lemma leaf_count_zero: "\<lbrakk>block_counts t i c; pos_ok s\<rbrakk> \<Longrightarrow> leaf t i s = 0 \<longleftrightarrow> c (pos s) = 0"
  unfolding block_counts_def pos_ok_def pos_def by (metis prod.collapse unat_eq_0)

lemma node2_zero: "\<lbrakk>block_counts t i c; a < 10\<rbrakk> \<Longrightarrow> node2 t i a = 0 \<longleftrightarrow> (\<forall>b<10. c (10 * a + b) = 0)"
  unfolding block_counts_def by (metis (no_types, lifting) finite_lessThan lessThan_iff sum_eq_0_iff unat_eq_0)

lemma node2_nonzero:
  assumes "block_counts t i c" "x < 100" "c x \<noteq> 0"
  shows "node2 t i (x div 10) \<noteq> 0"
proof
  assume "node2 t i (x div 10) = 0"
  then have "\<forall>b<10. c (10 * (x div 10) + b) = 0" using node2_zero [OF assms(1), of "x div 10"] assms(2) by simp
  then have "c (10 * (x div 10) + x mod 10) = 0" by (rule allE [of _ "x mod 10"]) simp
  then show False using assms(3) by simp
qed

lemma find_leaf_row:
  assumes "block_counts t i c" "a < 10" "node2 t i a \<noteq> 0"
  obtains b where "find (\<lambda>b. leaf t i (a, b) \<noteq> 0) [0..<10] = Some b" "b < 10" "c (10 * a + b) \<noteq> 0" "\<forall>y<b. c (10 * a + y) = 0"
proof -
  have L: "leaf t i (a, b) \<noteq> 0 \<longleftrightarrow> c (10 * a + b) \<noteq> 0" if "b < 10" for b
    using leaf_count_zero [OF assms(1), of "(a, b)"] assms(2) that by (simp add: pos_ok_def pos_def)
  obtain b0 where "b0 < 10" "leaf t i (a, b0) \<noteq> 0" using node2_zero [OF assms(1,2)] assms(3) L by blast
  then have "find (\<lambda>b. leaf t i (a, b) \<noteq> 0) [0..<10] \<noteq> None" by (auto simp: find_None_iff)
  then obtain b where "find (\<lambda>b. leaf t i (a, b) \<noteq> 0) [0..<10] = Some b" by blast
  moreover from this have "b < 10" "leaf t i (a, b) \<noteq> 0" "\<forall>y<b. leaf t i (a, y) = 0" by (simp_all add: find_upt_Some)
  moreover have "c (10 * a + y) = 0" if "y < b" for y using L [of y] \<open>b < 10\<close> \<open>\<forall>y<b. leaf t i (a, y) = 0\<close> that by simp
  ultimately show thesis using L [of b] by (intro that [of b]) simp_all
qed

lemma row_start_spec:
  assumes "block_counts t i c" "10 * a0 \<le> x" "x < 100" "c x \<noteq> 0"
  obtains s where "row_start t i a0 = Some s" "pos_ok s" "10 * a0 \<le> pos s" "c (pos s) \<noteq> 0" "\<forall>y. 10 * a0 \<le> y \<and> y < pos s \<longrightarrow> c y = 0"
proof -
  have "node2 t i (x div 10) \<noteq> 0" by (rule node2_nonzero [OF assms(1,3,4)])
  moreover have "a0 \<le> x div 10" "x div 10 < 10" using assms(2,3) by auto
  ultimately have "find (\<lambda>a. node2 t i a \<noteq> 0) [a0..<10] \<noteq> None" by (auto simp: find_None_iff)
  then obtain a where a: "find (\<lambda>a. node2 t i a \<noteq> 0) [a0..<10] = Some a" by blast
  then have a': "a0 \<le> a" "a < 10" "node2 t i a \<noteq> 0" "\<forall>y. a0 \<le> y \<and> y < a \<longrightarrow> node2 t i y = 0" by (simp_all add: find_upt_Some)
  obtain b where b: "find (\<lambda>b. leaf t i (a, b) \<noteq> 0) [0..<10] = Some b" "b < 10" "c (10 * a + b) \<noteq> 0" "\<forall>y<b. c (10 * a + y) = 0"
    using find_leaf_row [OF assms(1) a'(2,3)] by blast
  have "c y = 0" if y: "10 * a0 \<le> y" "y < 10 * a + b" for y
  proof (cases "y div 10 < a")
    case True
    then have "node2 t i (y div 10) = 0" using a'(4) y(1) by simp
    then show ?thesis using node2_nonzero [OF assms(1), of y] True a'(2) y(2) b(2) by linarith
  next
    case False
    then have "y = 10 * a + (y - 10 * a)" "y - 10 * a < b" using y(2) by auto
    then show ?thesis using b(4) by metis
  qed
  then show thesis using a b a' by (intro that [of "(a, b)"]) (simp_all add: row_start_def pos_ok_def pos_def)
qed

lemma next_stop_spec:
  assumes "block_counts t i c" "pos_ok s" "pos s < x" "x < 100" "c x \<noteq> 0"
  obtains s' where "next_stop t i s = Some s'" "pos_ok s'" "pos s < pos s'" "c (pos s') \<noteq> 0" "\<forall>y. pos s < y \<and> y < pos s' \<longrightarrow> c y = 0"
proof -
  let ?a = "fst s" and ?b = "snd s"
  have L: "leaf t i (?a, b) \<noteq> 0 \<longleftrightarrow> c (10 * ?a + b) \<noteq> 0" if "b < 10" for b
    using leaf_count_zero [OF assms(1), of "(?a, b)"] assms(2) that by (simp add: pos_ok_def pos_def)
  show thesis
  proof (cases "find (\<lambda>b. leaf t i (?a, b) \<noteq> 0) [Suc ?b..<10]")
    case (Some b)
    then have b: "?b < b" "b < 10" "leaf t i (?a, b) \<noteq> 0" "\<forall>y. ?b < y \<and> y < b \<longrightarrow> leaf t i (?a, y) = 0" by (auto simp: find_upt_Some Suc_le_eq)
    have "c y = 0" if "pos s < y" "y < 10 * ?a + b" for y
    proof -
      have "y = 10 * ?a + (y - 10 * ?a)" "?b < y - 10 * ?a" "y - 10 * ?a < b" using that by (auto simp: pos_def)
      then show ?thesis using b(2,4) L by (metis order.strict_trans)
    qed
    then show thesis using Some b L [OF b(2)] assms(2) by (intro that [of "(?a, b)"]) (simp_all add: next_stop_def pos_ok_def pos_def)
  next
    case None
    have row: "c y = 0" if "pos s < y" "y < 10 * Suc ?a" for y
    proof -
      have y: "y = 10 * ?a + (y - 10 * ?a)" "?b < y - 10 * ?a" "y - 10 * ?a < 10" using that by (auto simp: pos_def)
      then have "leaf t i (?a, y - 10 * ?a) = 0" using None by (auto simp: find_None_iff)
      then show ?thesis using y L by metis
    qed
    then have "10 * Suc ?a \<le> x" using assms(3,5) by (meson not_less)
    then obtain s' where s': "row_start t i (Suc ?a) = Some s'" "pos_ok s'" "10 * Suc ?a \<le> pos s'" "c (pos s') \<noteq> 0"
      "\<forall>y. 10 * Suc ?a \<le> y \<and> y < pos s' \<longrightarrow> c y = 0" using row_start_spec [OF assms(1) _ assms(4,5)] by blast
    have "pos s < pos s'" using s'(3) assms(2) by (simp add: pos_def pos_ok_def)
    then show thesis using s' row None by (intro that [of s']) (auto simp: next_stop_def, metis not_less)
  qed
qed

lemma range_end_spec:
  assumes "block_counts t i c" "x < 100" "c x \<noteq> 0"
  obtains s where "range_end t i = Some s" "pos_ok s" "x \<le> pos s" "c (pos s) \<noteq> 0" "\<forall>y. pos s < y \<and> y < 100 \<longrightarrow> c y = 0"
proof -
  have x: "x div 10 < 10" using assms(2) by simp
  have "node2 t i (x div 10) \<noteq> 0" by (rule node2_nonzero [OF assms])
  then obtain a where a: "find (\<lambda>a. node2 t i a \<noteq> 0) (rev [0..<10]) = Some a"
    using find_rev_upt_ex [OF x, of "\<lambda>a. node2 t i a \<noteq> 0"] by blast
  then have a': "a < 10" "node2 t i a \<noteq> 0" "\<forall>y. a < y \<and> y < 10 \<longrightarrow> node2 t i y = 0" by (simp_all add: find_rev_upt_Some)
  have L: "leaf t i (a, b) \<noteq> 0 \<longleftrightarrow> c (10 * a + b) \<noteq> 0" if "b < 10" for b
    using leaf_count_zero [OF assms(1), of "(a, b)"] a'(1) that by (simp add: pos_ok_def pos_def)
  obtain b0 where "b0 < 10" "leaf t i (a, b0) \<noteq> 0" using node2_zero [OF assms(1) a'(1)] a'(2) L by blast
  then obtain b where b: "find (\<lambda>b. leaf t i (a, b) \<noteq> 0) (rev [0..<10]) = Some b"
    using find_rev_upt_ex [of b0 10 "\<lambda>b. leaf t i (a, b) \<noteq> 0"] by blast
  then have b': "b < 10" "leaf t i (a, b) \<noteq> 0" "\<forall>y. b < y \<and> y < 10 \<longrightarrow> leaf t i (a, y) = 0" by (simp_all add: find_rev_upt_Some)
  have Z: "c y = 0" if y: "10 * a + b < y" "y < 100" for y
  proof (cases "a < y div 10")
    case True
    then have "node2 t i (y div 10) = 0" using a'(3) y(2) by simp
    then show ?thesis using node2_nonzero [OF assms(1), of y] y(2) by blast
  next
    case False
    then have "y = 10 * a + (y - 10 * a)" "b < y - 10 * a" "y - 10 * a < 10" using y(1) by auto
    then show ?thesis using b'(3) L by metis
  qed
  show thesis
  proof (rule that [of "(a, b)"])
    show "range_end t i = Some (a, b)" using a b by (simp add: range_end_def)
    show "x \<le> pos (a, b)" using Z [of x] assms(2,3) by (simp add: pos_def) (meson not_less)
  qed (use a' b' L Z in \<open>simp_all add: pos_ok_def pos_def\<close>)
qed

section \<open>The ranges of a block are a partition\<close>

text \<open>A chain of ranges from \<open>p\<close> to \<open>q\<close>: ascending, with their counts, and no document between them.\<close>

fun chain :: "(nat \<Rightarrow> nat) \<Rightarrow> nat \<Rightarrow> ((nat \<times> nat) \<times> (nat \<times> nat) \<times> u32) list \<Rightarrow> nat \<Rightarrow> bool" where
  "chain c p [] q \<longleftrightarrow> (\<forall>y. p \<le> y \<and> y < q \<longrightarrow> c y = 0)"
| "chain c p ((a, b, n) # rs) q \<longleftrightarrow> p \<le> pos a \<and> pos a \<le> pos b \<and> pos b < q \<and> c (pos a) \<noteq> 0 \<and>
     (\<forall>y. p \<le> y \<and> y < pos a \<longrightarrow> c y = 0) \<and> unat n = sum c {pos a..<Suc (pos b)} \<and> chain c (Suc (pos b)) rs q"

lemma chain_extend: "\<lbrakk>chain c p rs q; p' \<le> p; \<forall>y. p' \<le> y \<and> y < p \<longrightarrow> c y = 0\<rbrakk> \<Longrightarrow> chain c p' rs q"
  by (cases rs) (auto, metis not_less, metis not_less)

lemma chain_append: "\<lbrakk>chain c p rs q; chain c q rs' r; q \<le> r; p \<le> q\<rbrakk> \<Longrightarrow> chain c p (rs @ rs') r"
proof (induction rs arbitrary: p)
  case Nil
  then show ?case using chain_extend [of c q rs' r p] by simp
next
  case (Cons x rs)
  obtain a b n where x: "x = (a, b, n)" by (cases x) auto
  show ?case using Cons.IH [of "Suc (pos b)"] Cons.prems unfolding x by auto
qed

lemma sum_upto_le: "sum c {..<m} \<le> sum c {..<n}" if "m \<le> n" for c :: "nat \<Rightarrow> nat"
  using that by (intro sum_mono2) auto

lemma sum_upto_split: "m \<le> n \<Longrightarrow> sum c {..<n} = sum c {..<m} + sum c {m..<n}" for c :: "nat \<Rightarrow> nat"
  by (simp add: sum.atLeastLessThan_concat lessThan_atLeast0)

lemma sum_upto_skip: "\<lbrakk>m \<le> n; \<forall>y. m \<le> y \<and> y < n \<longrightarrow> c y = 0\<rbrakk> \<Longrightarrow> sum c {..<n} = sum c {..<m}" for c :: "nat \<Rightarrow> nat"
  using sum_upto_split [of m n c] by simp

lemma count_step:
  assumes "block_counts t i c" "pos_ok s" "unat n = sum c {..<pos s}"
  shows "unat (n + leaf t i s) = sum c {..<Suc (pos s)}"
proof -
  have l: "unat (leaf t i s) = c (pos s)"
    using assms(1,2) unfolding block_counts_def pos_ok_def pos_def by (metis prod.collapse)
  have "sum c {..<Suc (pos s)} \<le> sum c {..<100}" using pos_less [OF assms(2)] by (intro sum_upto_le) simp
  also have "\<dots> = unat (node1 t i)" using assms(1) by (simp add: block_counts_def)
  also have "\<dots> < 2 ^ 32" using unsigned_less [of "node1 t i", where 'a = nat] by simp
  finally show ?thesis using l assms(3) by (simp add: unat_plus_if')
qed

lemma remaining_leaf:
  assumes "block_counts t i c" "unat n = sum c {..<p}" "n \<noteq> node1 t i" "p \<le> 100"
  obtains x where "p \<le> x" "x < 100" "c x \<noteq> 0"
proof (rule ccontr)
  assume "\<not> thesis"
  then have "\<forall>y. p \<le> y \<and> y < 100 \<longrightarrow> c y = 0" using that by blast
  then have "sum c {..<100} = sum c {..<p}" by (rule sum_upto_skip [OF assms(4)])
  then have "unat n = unat (node1 t i)" using assms(1,2) by (simp add: block_counts_def)
  then show False using assms(3) by (simp add: word_unat_eq_iff)
qed

text \<open>A position up to which the count is known, with a document on it.\<close>

definition at_leaf :: "(nat \<Rightarrow> nat) \<Rightarrow> u32 \<Rightarrow> nat \<times> nat \<Rightarrow> bool" where
  "at_leaf c n s \<longleftrightarrow> pos_ok s \<and> c (pos s) \<noteq> 0 \<and> unat n = sum c {..<pos s}"

lemma next_at_leaf:
  assumes "block_counts t i c" "pos_ok s" "unat n = sum c {..<Suc (pos s)}" "n \<noteq> node1 t i"
  obtains s' where "next_stop t i s = Some s'" "at_leaf c n s'" "pos s < pos s'" "\<forall>y. pos s < y \<and> y < pos s' \<longrightarrow> c y = 0"
proof -
  have "Suc (pos s) \<le> 100" using pos_less [OF assms(2)] by simp
  then obtain x where x: "Suc (pos s) \<le> x" "x < 100" "c x \<noteq> 0" using remaining_leaf [OF assms(1,3,4)] by blast
  obtain s' where s': "next_stop t i s = Some s'" "pos_ok s'" "pos s < pos s'" "c (pos s') \<noteq> 0" "\<forall>y. pos s < y \<and> y < pos s' \<longrightarrow> c y = 0"
    using next_stop_spec [OF assms(1,2) _ x(2,3)] x(1) by (auto simp: Suc_le_eq)
  have "sum c {..<pos s'} = sum c {..<Suc (pos s)}" using s'(3,5) by (intro sum_upto_skip) (auto simp: Suc_le_eq)
  then show thesis using s' assms(3) by (intro that [of s']) (simp_all add: at_leaf_def)
qed

text \<open>The loop takes no leaf, or all leaves up to the last stop it remembers.\<close>

definition filled :: "u32 list \<Rightarrow> nat \<Rightarrow> (nat \<Rightarrow> nat) \<Rightarrow> nat \<times> nat \<Rightarrow> u32 \<Rightarrow> nat \<times> nat \<Rightarrow> nat \<times> nat \<Rightarrow> bool" where
  "filled t i c stop n ts s \<longleftrightarrow> pos_ok ts \<and> pos stop \<le> pos ts \<and> unat n = sum c {..<Suc (pos ts)} \<and>
     (n = node1 t i \<or> at_leaf c n s \<and> pos ts < pos s \<and> (\<forall>y. pos ts < y \<and> y < pos s \<longrightarrow> c y = 0))"

lemma range_fill_spec:
  assumes "block_counts t i c" "at_leaf c n stop"
  shows "\<exists>n' ts' s'. range_fill t i d n ts stop = Some (n', ts', s') \<and> ((n', ts', s') = (n, ts, stop) \<or> filled t i c stop n' ts' s')"
  using assms(2)
proof (induction "100 - pos stop" arbitrary: d n ts stop rule: less_induct)
  case less
  note st = less.prems [unfolded at_leaf_def]
  let ?n = "n + leaf t i stop" and ?d = "d + leaf t i stop"
  have nz: "?d \<noteq> d" using leaf_count_zero [OF assms(1), of stop] st by simp
  have cnt: "unat ?n = sum c {..<Suc (pos stop)}" using count_step [OF assms(1)] st by blast
  show ?case
  proof (cases "sint ?d + sint d \<ge> 0")
    case True
    then show ?thesis by (subst range_fill.simps) (simp add: Let_def)
  next
    case False
    note step = range_fill.simps [of t i d n ts stop, unfolded Let_def]
    show ?thesis
    proof (cases "?n = node1 t i")
      case True
      then have "range_fill t i d n ts stop = Some (?n, stop, stop)" using False nz by (subst step) simp
      moreover have "filled t i c stop ?n stop stop" using st cnt True by (simp add: filled_def)
      ultimately show ?thesis by blast
    next
      case n: False
      obtain s' where s': "next_stop t i stop = Some s'" "at_leaf c ?n s'" "pos stop < pos s'" "\<forall>y. pos stop < y \<and> y < pos s' \<longrightarrow> c y = 0"
        using next_at_leaf [OF assms(1) _ cnt n] st by blast
      have eq: "range_fill t i d n ts stop = range_fill t i ?d ?n stop s'" using False nz n s'(1) by (subst step) simp
      have "100 - pos s' < 100 - pos stop" using s'(3) pos_less [of stop] st by linarith
      from less.hyps [OF this s'(2), of ?d stop] obtain n' ts' s'' where
        r: "range_fill t i ?d ?n stop s' = Some (n', ts', s'')" "(n', ts', s'') = (?n, stop, s') \<or> filled t i c s' n' ts' s''" by blast
      have "filled t i c stop n' ts' s''"
        using r(2)
      proof
        assume "(n', ts', s'') = (?n, stop, s')"
        then show ?thesis using st cnt s' by (simp add: filled_def)
      next
        assume "filled t i c s' n' ts' s''"
        then show ?thesis using s'(3) by (simp add: filled_def)
      qed
      then show ?thesis using r(1) eq by auto
    qed
  qed
qed

lemma last_range_empty:
  assumes "block_counts t i c" "unat (node1 t i) = sum c {..<p}" "p \<le> 100"
  shows "\<forall>y. p \<le> y \<and> y < 100 \<longrightarrow> c y = 0"
proof -
  have "sum c {p..<100} = 0" using sum_upto_split [OF assms(3), of c] assms(1,2) by (simp add: block_counts_def)
  then show ?thesis by simp
qed

text \<open>The cuts: either everything is in a range, or the last range is still to come.\<close>

lemma range_cuts_spec:
  assumes "block_counts t i c" "at_leaf c n stop"
  shows "\<exists>rs n' s'. range_cuts t i split js n n stop = Some (rs, n', s') \<and> length rs \<le> length js \<and>
    (n' = node1 t i \<and> chain c (pos stop) rs 100 \<or> at_leaf c n' s' \<and> pos stop \<le> pos s' \<and> chain c (pos stop) rs (pos s'))"
  using assms(2)
proof (induction js arbitrary: n stop)
  case Nil
  then show ?case by simp
next
  case (Cons j js)
  let ?d = "n - ((of_nat j + 1) * node1 t i - 1) div split - 1"
  obtain n' ts s' where f: "range_fill t i ?d n (0, 0) stop = Some (n', ts, s')" "(n', ts, s') = (n, (0, 0), stop) \<or> filled t i c stop n' ts s'"
    using range_fill_spec [OF assms(1) Cons.prems] by blast
  show ?case
  proof (cases "(n', ts, s') = (n, (0, 0), stop)")
    case True
    then have "range_cuts t i split (j # js) n n stop = range_cuts t i split js n n stop" using f(1) by (simp add: Let_def)
    then show ?thesis using Cons.IH [OF Cons.prems] by (metis le_SucI length_Cons)
  next
    case False
    then have fl: "filled t i c stop n' ts s'" using f(2) by blast
    have st: "c (pos stop) \<noteq> 0" "unat n = sum c {..<pos stop}" using Cons.prems by (simp_all add: at_leaf_def)
    have ts: "pos_ok ts" "pos stop \<le> pos ts" "unat n' = sum c {..<Suc (pos ts)}" using fl by (simp_all add: filled_def)
    have sp: "unat n' = unat n + sum c {pos stop..<Suc (pos ts)}" using sum_upto_split [of "pos stop" "Suc (pos ts)" c] st(2) ts by simp
    then have le: "n \<le> n'" by (simp add: word_le_nat_alt)
    have df: "unat (n' - n) = sum c {pos stop..<Suc (pos ts)}" using unat_sub [OF le] sp by simp
    have "0 < sum c {pos stop..<Suc (pos ts)}" using st(1) ts(2) by (intro sum_pos2 [of _ "pos stop"]) auto
    then have ne: "n \<noteq> n'" using sp by auto
    let ?r = "(stop, ts, n' - n)"
    show ?thesis
    proof (cases "n' = node1 t i")
      case True
      have "\<forall>y. Suc (pos ts) \<le> y \<and> y < 100 \<longrightarrow> c y = 0"
        by (rule last_range_empty [OF assms(1)]) (use True ts(3) pos_less [OF ts(1)] in simp_all)
      then have "chain c (pos stop) [?r] 100" using st ts df pos_less [OF ts(1)] by simp
      moreover have "range_cuts t i split (j # js) n n stop = Some ([?r], n', s')" using f(1) ne True by (simp add: Let_def)
      ultimately show ?thesis using True by force
    next
      case nn: False
      then have s': "at_leaf c n' s'" "pos ts < pos s'" "\<forall>y. pos ts < y \<and> y < pos s' \<longrightarrow> c y = 0" using fl by (simp_all add: filled_def)
      obtain rs n'' s'' where r: "range_cuts t i split js n' n' s' = Some (rs, n'', s'')" "length rs \<le> length js"
        "n'' = node1 t i \<and> chain c (pos s') rs 100 \<or> at_leaf c n'' s'' \<and> pos s' \<le> pos s'' \<and> chain c (pos s') rs (pos s'')"
        using Cons.IH [OF s'(1)] by blast
      have eq: "range_cuts t i split (j # js) n n stop = Some (?r # rs, n'', s'')" using f(1) ne nn r(1) by (simp add: Let_def)
      have ch: "chain c (pos stop) (?r # rs) q" if "chain c (pos s') rs q" "pos s' \<le> q" for q
        using chain_extend [OF that(1), of "Suc (pos ts)"] s'(2,3) st ts df that(2) by (simp add: Suc_le_eq)
      have "pos s' \<le> 100" using s'(1) pos_less [of s'] by (simp add: at_leaf_def)
      then have "n'' = node1 t i \<and> chain c (pos stop) (?r # rs) 100 \<or> at_leaf c n'' s'' \<and> pos stop \<le> pos s'' \<and> chain c (pos stop) (?r # rs) (pos s'')"
        using r(3) ch s'(2) ts(2) by (metis less_imp_le_nat order_trans)
      then show ?thesis using eq r(2) by (metis Suc_le_mono length_Cons)
    qed
  qed
qed

lemma block_ranges_spec:
  assumes "block_counts t i c" "split \<noteq> 0" "node1 t i \<noteq> 0"
  obtains rs where "block_ranges t i split = Some rs" "length rs \<le> unat split" "chain c 0 rs 100"
proof -
  have u: "unat (split - 1) = unat split - 1" using assms(2) by (simp add: unat_minus_one)
  have u0: "0 < unat split" using assms(2) by (simp add: unat_gt_0)
  obtain x where x: "0 \<le> x" "x < 100" "c x \<noteq> 0" using remaining_leaf [OF assms(1), of 0 0] assms(3) by auto
  obtain s0 where s0: "row_start t i 0 = Some s0" "pos_ok s0" "c (pos s0) \<noteq> 0" "\<forall>y. y < pos s0 \<longrightarrow> c y = 0"
    using row_start_spec [OF assms(1) _ x(2,3), of 0] by auto
  then have start: "at_leaf c 0 s0" by (simp add: at_leaf_def)
  obtain e where e: "range_end t i = Some e" "pos_ok e" "c (pos e) \<noteq> 0" "\<forall>y. pos e < y \<and> y < 100 \<longrightarrow> c y = 0"
    using range_end_spec [OF assms(1) x(2,3)] by blast
  obtain rs n s where r: "range_cuts t i split [0..<unat (split - 1)] 0 0 s0 = Some (rs, n, s)" "length rs \<le> unat split - 1"
    "n = node1 t i \<and> chain c (pos s0) rs 100 \<or> at_leaf c n s \<and> pos s0 \<le> pos s \<and> chain c (pos s0) rs (pos s)"
    using range_cuts_spec [OF assms(1) start, of split "[0..<unat (split - 1)]"] u by auto
  let ?rs = "rs @ (if n \<noteq> node1 t i then [(s, e, node1 t i - n)] else [])"
  have eq: "block_ranges t i split = Some ?rs" using assms(2) e(1) s0(1) r(1) by (simp add: block_ranges_def)
  have "chain c (pos s0) ?rs 100"
  proof (cases "n = node1 t i")
    case True
    from r(3) have "chain c (pos s0) rs 100"
    proof
      assume a: "at_leaf c n s \<and> pos s0 \<le> pos s \<and> chain c (pos s0) rs (pos s)"
      then have "unat (node1 t i) = sum c {..<pos s}" "pos s < 100" using True pos_less [of s] by (simp_all add: at_leaf_def)
      then have "chain c (pos s) [] 100" unfolding chain.simps by (intro last_range_empty [OF assms(1)]) simp_all
      then show ?thesis using chain_append [of c "pos s0" rs "pos s" "[]" 100] a \<open>pos s < 100\<close> by simp
    qed simp
    then show ?thesis using True by simp
  next
    case False
    then have s: "at_leaf c n s" "pos s0 \<le> pos s" "chain c (pos s0) rs (pos s)" using r(3) by simp_all
    have le: "pos s \<le> pos e" using e(4) s(1) pos_less [of s] by (auto simp: at_leaf_def intro: leI)
    have p: "pos s < 100" "pos e < 100" using s(1) e(2) pos_less by (auto simp: at_leaf_def)
    have "unat (node1 t i) = sum c {..<Suc (pos e)}"
      using assms(1) sum_upto_skip [of "Suc (pos e)" 100 c] e(4) p(2) by (simp add: block_counts_def Suc_le_eq)
    then have sp: "unat (node1 t i) = unat n + sum c {pos s..<Suc (pos e)}" using sum_upto_split [of "pos s" "Suc (pos e)" c] le s(1)
      by (simp add: at_leaf_def)
    then have "n \<le> node1 t i" by (simp add: word_le_nat_alt)
    then have "unat (node1 t i - n) = sum c {pos s..<Suc (pos e)}" using sp by (simp add: unat_sub)
    then have "chain c (pos s) [(s, e, node1 t i - n)] 100" using le p e(4) s(1) by (simp add: at_leaf_def Suc_le_eq)
    then show ?thesis using chain_append [OF s(3)] s(2) p(1) False by simp
  qed
  then have "chain c 0 ?rs 100" using chain_extend s0(4) by blast
  moreover have "length ?rs \<le> unat split" using r(2) u0 by (simp, linarith)
  ultimately show thesis using that eq by blast
qed

section \<open>The split\<close>

definition split_ok :: "u32 list \<Rightarrow> nat \<Rightarrow> u32 list \<Rightarrow> bool" where
  "split_ok t m split \<longleftrightarrow> length split = LEVEL_1_OF_SEGMENT_TREE \<and> sum_list (map unat split) \<le> m \<and>
     (\<forall>i<LEVEL_1_OF_SEGMENT_TREE. split ! i = 0 \<longleftrightarrow> node1 t i = 0)"

lemma best_block_Some:
  assumes "best_block vr t split is best = Some i"
  shows "i \<in> set is \<and> split ! i < node1 t i \<or> (\<exists>v. best = Some (i, v))"
  using assms
proof (induction "is" arbitrary: best)
  case (Cons j js)
  then show ?case by (fastforce simp: Let_def split: if_splits option.splits)
qed auto

lemma split_ok_bump:
  assumes "split_ok t m split" "i < LEVEL_1_OF_SEGMENT_TREE" "split ! i < node1 t i"
  shows "split_ok t (Suc m) (split[i := split ! i + 1])"
proof -
  have l: "i < length split" using assms(1,2) by (simp add: split_ok_def)
  have "unat (split ! i) < unat (node1 t i)" using assms(3) by (simp add: word_less_nat_alt)
  moreover have "unat (node1 t i) < 2 ^ 32" using unsigned_less [of "node1 t i", where 'a = nat] by simp
  ultimately have u: "unat (split ! i + 1) = Suc (unat (split ! i))" by (simp add: unat_plus_if')
  then have ne: "split ! i + 1 \<noteq> 0" by auto
  have "sum_list (map unat (split[i := split ! i + 1])) = Suc (sum_list (map unat split))"
    using l u by (simp add: map_update sum_list_update)
  moreover have "node1 t i \<noteq> 0" using assms(3) by auto
  ultimately show ?thesis using assms(1) l ne by (auto simp: split_ok_def nth_list_update)
qed

lemma more_ranges_ok:
  "split_ok t m split \<Longrightarrow> split_ok t (m + k) (more_ranges vr t k split)"
proof (induction k arbitrary: m split)
  case (Suc k)
  show ?case
  proof (cases "best_block vr t split [0..<LEVEL_1_OF_SEGMENT_TREE] None")
    case None
    then show ?thesis using Suc.prems by (auto simp: split_ok_def)
  next
    case (Some b)
    then have "b < LEVEL_1_OF_SEGMENT_TREE" "split ! b < node1 t b" using best_block_Some [OF Some] by auto
    then have "split_ok t (Suc m) (split[b := split ! b + 1])" by (rule split_ok_bump [OF Suc.prems])
    then show ?thesis using Suc.IH [of "Suc m"] Some by simp
  qed
qed simp

lemma range_split_ok: "split_ok t MAX_RANGE_NUMBER (range_split vr t)"
proof -
  let ?s = "init_split t"
  let ?k = "length (filter (\<lambda>s. s \<noteq> 0) ?s)"
  have k: "?k \<le> MAX_RANGE_NUMBER" using length_filter_le [of "\<lambda>s. s \<noteq> 0" ?s] by (simp add: MAX_RANGE_NUMBER_def init_split_def)
  have gen: "sum_list (map unat (map (\<lambda>i. if P i then 1 else 0 :: u32) is)) = length (filter (\<lambda>s. s \<noteq> 0) (map (\<lambda>i. if P i then 1 else 0 :: u32) is))"
    for P and "is" :: "nat list" by (induction "is") simp_all
  have "sum_list (map unat ?s) = ?k" unfolding init_split_def by (rule gen)
  then have "split_ok t ?k ?s" by (simp add: split_ok_def init_split_def)
  then have "split_ok t (?k + (MAX_RANGE_NUMBER - ?k)) (more_ranges vr t (MAX_RANGE_NUMBER - ?k) ?s)" by (rule more_ranges_ok)
  then show ?thesis using k by (simp add: range_split_def Let_def)
qed

end
