(* ===== verification/Range_Partition.thy ===== *)
theory Range_Partition
  imports Range_Items
begin

text \<open>
  The ranges that NumericRangeGroupCounter shows are a partition of the documents with a positive value.
\<close>

section \<open>Values and leaves\<close>

definition atom :: "nat \<Rightarrow> int" where
  "atom i = range_bound ! Suc i div 100"

lemma atom_bounds:
  assumes "i < 7"
  shows "0 < atom i" "range_bound ! Suc i = 100 * atom i" "0 < i \<Longrightarrow> range_bound ! i = 10 * atom i" "range_bound ! 0 = 0"
proof -
  consider "i = 0" | "i = 1" | "i = 2" | "i = 3" | "i = 4" | "i = 5" | "i = 6" using assms by linarith
  then have "0 < atom i \<and> range_bound ! Suc i = 100 * atom i \<and> (0 < i \<longrightarrow> range_bound ! i = 10 * atom i) \<and> range_bound ! 0 = 0"
    by cases (simp_all add: range_bound_def atom_def)
  then show "0 < atom i" "range_bound ! Suc i = 100 * atom i" "0 < i \<Longrightarrow> range_bound ! i = 10 * atom i" "range_bound ! 0 = 0" by blast+
qed

lemma le_zdiv_iff: "k \<le> w div a \<longleftrightarrow> a * k \<le> w" if "0 < a" for a k w :: int
proof
  assume "k \<le> w div a"
  then have "a * k \<le> a * (w div a)" using that by simp
  also have "\<dots> \<le> w" using in_interval_div [OF that, of "w div a" w] by simp
  finally show "a * k \<le> w" .
next
  assume "a * k \<le> w"
  then show "k \<le> w div a" using zdiv_mono1 [of "a * k" w a] that by simp
qed

lemma zdiv_less_iff: "w div a < k \<longleftrightarrow> w < a * k" if "0 < a" for a k w :: int
  using le_zdiv_iff [OF that, of k w] by linarith

lemma leaf_index_block:
  assumes "0 < v"
  obtains e where "e < 7" "range_bound ! e \<le> clamp_value v" "clamp_value v < range_bound ! Suc e"
    "int (leaf_index v) = 100 * int e + clamp_value v div atom e" "0 \<le> clamp_value v div atom e" "clamp_value v div atom e < 100"
proof -
  let ?w = "clamp_value v"
  have w: "0 < ?w" "?w < 1000000000" using assms by (simp_all add: clamp_value_def)
  obtain e where e: "e < 7" "range_bound ! e \<le> ?w" "?w < range_bound ! Suc e" by (rule block_cases [OF w])
  note a = atom_bounds [OF e(1)]
  have q: "0 \<le> ?w div atom e" "?w div atom e < 100"
    using w a(1,2) e(3) by (simp_all add: pos_imp_zdiv_nonneg_iff zdiv_less_iff mult.commute)
  have "leaf_index v = 100 * e + nat (?w div atom e)" using range_leaf_block [OF assms e] by (simp add: leaf_index_def atom_def)
  then have "int (leaf_index v) = 100 * int e + ?w div atom e" using q(1) by simp
  then show thesis using that e q by blast
qed

text \<open>A value is between the bounds of a range when its leaf is.\<close>

lemma in_range_leaf:
  assumes "0 < v" "i < 7" "p \<le> q" "q < 100" "0 < i \<Longrightarrow> 10 \<le> p"
  shows "atom i * int p \<le> clamp_value v \<and> clamp_value v \<le> atom i * int (Suc q) - 1 \<longleftrightarrow> 100 * i + p \<le> leaf_index v \<and> leaf_index v \<le> 100 * i + q"
proof -
  let ?w = "clamp_value v"
  obtain e where e: "e < 7" "range_bound ! e \<le> ?w" "?w < range_bound ! Suc e"
    "int (leaf_index v) = 100 * int e + ?w div atom e" "0 \<le> ?w div atom e" "?w div atom e < 100"
    using leaf_index_block [OF assms(1)] by blast
  note a = atom_bounds [OF assms(2)]
  have D: "atom i * int p \<le> ?w \<and> ?w \<le> atom i * int (Suc q) - 1 \<longleftrightarrow> int p \<le> ?w div atom i \<and> ?w div atom i \<le> int q"
  proof -
    have "int p \<le> ?w div atom i \<longleftrightarrow> atom i * int p \<le> ?w" by (rule le_zdiv_iff [OF a(1)])
    moreover have "?w div atom i < int (Suc q) \<longleftrightarrow> ?w < atom i * int (Suc q)" by (rule zdiv_less_iff [OF a(1)])
    ultimately show ?thesis by auto
  qed
  show ?thesis
  proof (cases "e = i")
    case True
    then show ?thesis unfolding D using e(4) by auto
  next
    case False
    have "\<not> (100 * i + p \<le> leaf_index v \<and> leaf_index v \<le> 100 * i + q)" using False e(4-6) assms(4) by linarith
    moreover have "\<not> (atom i * int p \<le> ?w \<and> ?w \<le> atom i * int (Suc q) - 1)"
    proof
      assume w: "atom i * int p \<le> ?w \<and> ?w \<le> atom i * int (Suc q) - 1"
      have "atom i * int (Suc q) \<le> atom i * 100" using a(1) assms(4) by (intro mult_left_mono) simp_all
      then have "?w < range_bound ! Suc i" using w a(2) by linarith
      moreover have "range_bound ! i \<le> ?w"
      proof (cases "i = 0")
        case True
        then show ?thesis using w a(4) e(2) assms(1) by (simp add: clamp_value_def)
      next
        case False
        then have "atom i * 10 \<le> atom i * int p" using a(1) assms(5) by (intro mult_left_mono) simp_all
        then show ?thesis using w a(3) False by simp
      qed
      ultimately show False using block_unique [OF e(1) assms(2) e(2,3)] False by blast
    qed
    ultimately show ?thesis by blast
  qed
qed

section \<open>The documents of a range\<close>

definition range_docs :: "int option list \<Rightarrow> int \<Rightarrow> int \<Rightarrow> nat" where
  "range_docs vals lo hi = length (filter (\<lambda>v. \<exists>x. v = Some x \<and> 0 < x \<and> lo \<le> clamp_value x \<and> clamp_value x \<le> hi) vals)"

definition leaf_docs :: "int option list \<Rightarrow> nat \<Rightarrow> nat \<Rightarrow> nat" where
  "leaf_docs vals i f = node_docs vals (100 * i + f)"

lemma in_leaf: "\<lbrakk>i < 7; f < 100\<rbrakk> \<Longrightarrow> in_node (100 * i + f) x \<longleftrightarrow> 0 < x \<and> leaf_index x = 100 * i + f"
  using in_node_leaf(2) [of x "100 * i + f"] by (cases "0 < x") (auto simp: in_node_def)

lemma range_docs_sum:
  assumes "i < 7" "p \<le> q" "q < 100" "0 < i \<Longrightarrow> 10 \<le> p"
  shows "sum (leaf_docs vals i) {p..<Suc q} = range_docs vals (atom i * int p) (atom i * int (Suc q) - 1)"
proof (induction vals)
  case Nil
  then show ?case by (simp add: leaf_docs_def node_docs_def range_docs_def)
next
  case (Cons v vals)
  have R: "range_docs (v # vals) lo hi = (case v of Some x \<Rightarrow> of_bool (0 < x \<and> lo \<le> clamp_value x \<and> clamp_value x \<le> hi) | None \<Rightarrow> 0) + range_docs vals lo hi"
    for lo hi by (cases v) (simp_all add: range_docs_def)
  have L: "sum (leaf_docs (v # vals) i) {p..<Suc q} =
      (\<Sum>f = p..<Suc q. case v of Some x \<Rightarrow> of_bool (in_node (100 * i + f) x) | None \<Rightarrow> 0) + sum (leaf_docs vals i) {p..<Suc q}"
    unfolding leaf_docs_def node_docs_Cons sum.distrib ..
  have "(\<Sum>f = p..<Suc q. case v of Some x \<Rightarrow> of_bool (in_node (100 * i + f) x) | None \<Rightarrow> 0) =
      (case v of Some x \<Rightarrow> of_bool (0 < x \<and> atom i * int p \<le> clamp_value x \<and> clamp_value x \<le> atom i * int (Suc q) - 1) | None \<Rightarrow> (0 :: nat))"
  proof (cases v)
    case (Some x)
    have "(\<Sum>f = p..<Suc q. of_bool (in_node (100 * i + f) x)) = (\<Sum>f = p..<Suc q. of_bool (0 < x \<and> leaf_index x = 100 * i + f) :: nat)"
      using in_leaf [OF assms(1)] assms(3) by (intro sum.cong refl) simp
    also have "\<dots> = of_bool (0 < x \<and> 100 * i + p \<le> leaf_index x \<and> leaf_index x \<le> 100 * i + q)"
    proof (cases "0 < x \<and> 100 * i + p \<le> leaf_index x \<and> leaf_index x \<le> 100 * i + q")
      case True
      then have "(\<Sum>f = p..<Suc q. of_bool (0 < x \<and> leaf_index x = 100 * i + f) :: nat) = (\<Sum>f = p..<Suc q. if f = leaf_index x - 100 * i then 1 else 0)"
        by (intro sum.cong refl) auto
      then show ?thesis using True by (auto simp: sum.delta)
    next
      case False
      then show ?thesis by (auto intro!: sum.neutral)
    qed
    also have "\<dots> = of_bool (0 < x \<and> atom i * int p \<le> clamp_value x \<and> clamp_value x \<le> atom i * int (Suc q) - 1)"
      using in_range_leaf [of x, OF _ assms] by (cases "0 < x") simp_all
    finally show ?thesis using Some by simp
  qed simp
  then show ?case unfolding L R Cons.IH by (rule arg_cong)
qed

lemma leaf_docs_pos: "leaf_docs vals i f \<noteq> 0 \<longleftrightarrow> (\<exists>x. Some x \<in> set vals \<and> in_node (100 * i + f) x)"
  unfolding leaf_docs_def node_docs_def by (auto simp: filter_empty_conv)

lemma leaf_docs_low:
  assumes "i < 7" "f < 100" "leaf_docs vals i f \<noteq> 0" "0 < i"
  shows "10 \<le> f"
proof -
  obtain x where "in_node (100 * i + f) x" using assms(3) leaf_docs_pos by blast
  then have x: "0 < x" "leaf_index x = 100 * i + f" using in_leaf [OF assms(1,2)] by simp_all
  obtain e where e: "e < 7" "range_bound ! e \<le> clamp_value x" "int (leaf_index x) = 100 * int e + clamp_value x div atom e"
    "0 \<le> clamp_value x div atom e" "clamp_value x div atom e < 100" using leaf_index_block [OF x(1)] by blast
  have ei: "e = i" using e(3-5) x(2) assms(2) by linarith
  then have fi: "clamp_value x div atom i = int f" using e(3) x(2) by simp
  have "10 * atom i \<le> clamp_value x" using e(2) ei atom_bounds(3) [OF assms(1,4)] by simp
  then have "10 \<le> clamp_value x div atom i" using atom_bounds(1) [OF assms(1)] by (simp add: le_zdiv_iff mult.commute)
  then show ?thesis using fi by simp
qed

section \<open>The blocks of a counted tree\<close>

lemma count_tree_unat:
  assumes "length vals < 2 ^ 32" "p < 778"
  shows "unat (count_tree vals ! p) = node_docs vals p"
proof -
  have "node_docs vals p < 2 ^ 32" using node_docs_le [of vals p] assms(1) by simp
  then show ?thesis unfolding count_tree_nth [OF assms(2)] by (simp add: unat_of_nat take_bit_nat_eq_self)
qed

lemma sum_list_upt_sum: "sum_list (map f [0..<n]) = sum f {..<n}" for f :: "nat \<Rightarrow> nat"
  by (simp add: interv_sum_list_conv_sum_set_nat lessThan_atLeast0)

lemma sum_rows: "(\<Sum>a<10. \<Sum>b<10. c (10 * a + b)) = sum c {..<100}" for c :: "nat \<Rightarrow> nat"
proof -
  have "(\<Sum>b<10. c (10 * a + b)) = sum c {a * 10..<a * 10 + 10}" for a
    using sum.shift_bounds_nat_ivl [of c 0 "a * 10" 10] by (simp add: lessThan_atLeast0 add.commute mult.commute)
  then show ?thesis using sum.nat_group [of c 10 10] by simp
qed

lemma count_tree_block:
  assumes "length vals < 2 ^ 32" "i < 7"
  shows "block_counts (count_tree vals) i (leaf_docs vals i)"
  unfolding block_counts_def
proof (intro conjI allI impI)
  note U = count_tree_unat [OF assms(1)]
  fix a b :: nat assume a: "a < 10" and b: "b < 10"
  have "100 * i + 10 * a + b < 778" using a b assms(2) by simp
  then show "unat (leaf (count_tree vals) i (a, b)) = leaf_docs vals i (10 * a + b)"
    using U [of "100 * i + 10 * a + b"] by (simp add: leaf_def leaf_docs_def add.assoc)
next
  fix a :: nat assume a: "a < 10"
  have "node_docs vals (700 + (10 * i + a)) = sum_list (map (\<lambda>j. node_docs vals (10 * (10 * i + a) + j)) [0..<10])"
    using node_docs_sum [OF in_node_children, of "10 * i + a" vals] assms(2) a by simp
  also have "\<dots> = (\<Sum>b<10. leaf_docs vals i (10 * a + b))"
    unfolding sum_list_upt_sum leaf_docs_def by (intro sum.cong refl) (simp add: algebra_simps)
  finally show "unat (node2 (count_tree vals) i a) = (\<Sum>b<10. leaf_docs vals i (10 * a + b))"
    using count_tree_unat [OF assms(1), of "700 + (10 * i + a)"] assms(2) a by (simp add: node2_def add.assoc)
next
  have "node_docs vals (700 + (70 + i)) = sum_list (map (\<lambda>j. node_docs vals (10 * (70 + i) + j)) [0..<10])"
    using node_docs_sum [OF in_node_children, of "70 + i" vals] assms(2) by simp
  also have "\<dots> = (\<Sum>a<10. \<Sum>b<10. leaf_docs vals i (10 * a + b))"
    unfolding sum_list_upt_sum
  proof (intro sum.cong refl)
    fix a :: nat assume "a \<in> {..<10}"
    then have "node_docs vals (700 + (10 * i + a)) = sum_list (map (\<lambda>j. node_docs vals (10 * (10 * i + a) + j)) [0..<10])"
      using node_docs_sum [OF in_node_children, of "10 * i + a" vals] assms(2) by simp
    also have "\<dots> = (\<Sum>b<10. leaf_docs vals i (10 * a + b))"
      unfolding sum_list_upt_sum leaf_docs_def by (intro sum.cong refl) (simp add: algebra_simps)
    finally show "node_docs vals (10 * (70 + i) + a) = (\<Sum>b<10. leaf_docs vals i (10 * a + b))" by (simp add: algebra_simps)
  qed
  finally show "unat (node1 (count_tree vals) i) = sum (leaf_docs vals i) {..<100}"
    using count_tree_unat [OF assms(1), of "700 + (70 + i)"] assms(2) unfolding sum_rows by (simp add: node1_def)
qed

section \<open>The ranges in terms of values\<close>

text \<open>Ranges of values in ascending order, none overlapping another, each with its number of documents.\<close>

definition ranges_ok :: "int option list \<Rightarrow> (int \<times> int \<times> nat) list \<Rightarrow> bool" where
  "ranges_ok vals rs \<longleftrightarrow> sorted_wrt (\<lambda>(lo, hi, n) (lo', hi', n'). hi < lo') rs \<and>
     (\<forall>(lo, hi, n)\<in>set rs. lo \<le> hi \<and> 0 < n \<and> n = range_docs vals lo hi)"

definition in_ranges :: "(int \<times> int \<times> nat) list \<Rightarrow> int \<Rightarrow> bool" where
  "in_ranges rs w \<longleftrightarrow> (\<exists>(lo, hi, n)\<in>set rs. lo \<le> w \<and> w \<le> hi)"

definition value_range :: "nat \<Rightarrow> (nat \<times> nat) \<times> (nat \<times> nat) \<times> u32 \<Rightarrow> int \<times> int \<times> nat" where
  "value_range i = (\<lambda>(a, b, n). (atom i * int (pos a), atom i * int (Suc (pos b)) - 1, unat n))"

text \<open>One range, from leaf \<open>p\<close> to leaf \<open>q\<close> of block \<open>i\<close>.\<close>

lemma one_range:
  assumes "i < 7" "p \<le> q" "q < 100" "leaf_docs vals i p \<noteq> 0"
  defines "lo \<equiv> atom i * int p" and "hi \<equiv> atom i * int (Suc q) - 1"
  shows "sum (leaf_docs vals i) {p..<Suc q} = range_docs vals lo hi" "0 < range_docs vals lo hi" "lo \<le> hi"
    "range_bound ! i \<le> lo" "hi < range_bound ! Suc i"
    "\<lbrakk>0 < x; 100 * i + p \<le> leaf_index x; leaf_index x \<le> 100 * i + q\<rbrakk> \<Longrightarrow> lo \<le> clamp_value x \<and> clamp_value x \<le> hi"
proof -
  note a = atom_bounds [OF assms(1)]
  have low: "10 \<le> p" if "0 < i" using leaf_docs_low [OF assms(1) _ assms(4) that] assms(2,3) by simp
  have m: "atom i * int x \<le> atom i * int y" if "x \<le> y" for x y using a(1) that by simp
  show S: "sum (leaf_docs vals i) {p..<Suc q} = range_docs vals lo hi"
    unfolding lo_def hi_def by (rule range_docs_sum [OF assms(1-3) low])
  have "leaf_docs vals i p \<le> sum (leaf_docs vals i) {p..<Suc q}" using assms(2) by (intro member_le_sum) auto
  then show "0 < range_docs vals lo hi" using assms(4) S by simp
  have "atom i * int p < atom i * int (Suc q)" using a(1) assms(2) by (intro mult_strict_left_mono) simp_all
  then show "lo \<le> hi" unfolding lo_def hi_def by linarith
  show "range_bound ! i \<le> lo" unfolding lo_def using low a m [of 10 p] by (cases "i = 0") auto
  have "atom i * int (Suc q) \<le> atom i * 100" using m [of "Suc q" 100] assms(3) by simp
  then show "hi < range_bound ! Suc i" unfolding hi_def using a(2) by linarith
  show "lo \<le> clamp_value x \<and> clamp_value x \<le> hi" if "0 < x" "100 * i + p \<le> leaf_index x" "leaf_index x \<le> 100 * i + q"
    unfolding lo_def hi_def using in_range_leaf [OF that(1) assms(1-3) low] that(2,3) by blast
qed

lemma leaf_of_doc:
  assumes "i < 7" "Some x \<in> set vals" "0 < x" "100 * i + p \<le> leaf_index x" "leaf_index x < 100 * i + 100"
  obtains f where "leaf_index x = 100 * i + f" "p \<le> f" "f < 100" "leaf_docs vals i f \<noteq> 0"
proof -
  let ?f = "leaf_index x - 100 * i"
  have f: "?f < 100" "p \<le> ?f" "leaf_index x = 100 * i + ?f" using assms(4,5) by simp_all
  then have "leaf_docs vals i ?f \<noteq> 0" using leaf_docs_pos [of vals i ?f] in_leaf [OF assms(1) f(1)] assms(2,3) by blast
  then show thesis using that f by blast
qed

text \<open>The ranges \<open>rs\<close> are those of block \<open>i\<close> from leaf \<open>p\<close> on.\<close>

definition block_part :: "int option list \<Rightarrow> nat \<Rightarrow> nat \<Rightarrow> (int \<times> int \<times> nat) list \<Rightarrow> bool" where
  "block_part vals i p rs \<longleftrightarrow> ranges_ok vals rs \<and>
     (\<forall>(lo, hi, n)\<in>set rs. atom i * int p \<le> lo \<and> range_bound ! i \<le> lo \<and> hi < range_bound ! Suc i) \<and>
     (\<forall>x. Some x \<in> set vals \<and> 0 < x \<and> 100 * i + p \<le> leaf_index x \<and> leaf_index x < 100 * i + 100 \<longrightarrow> in_ranges rs (clamp_value x))"

lemma chain_part:
  assumes "i < 7" "chain (leaf_docs vals i) p rs 100"
  shows "block_part vals i p (map (value_range i) rs)"
  using assms(2)
proof (induction rs arbitrary: p)
  case Nil
  have "False" if "Some x \<in> set vals" "0 < x" "100 * i + p \<le> leaf_index x" "leaf_index x < 100 * i + 100" for x
    using leaf_of_doc [OF assms(1) that] Nil by (metis chain.simps(1))
  then show ?case by (auto simp: ranges_ok_def block_part_def)
next
  case (Cons r rs)
  obtain s e n where r: "r = (s, e, n)" by (cases r) auto
  have c: "p \<le> pos s" "pos s \<le> pos e" "pos e < 100" "leaf_docs vals i (pos s) \<noteq> 0"
    "\<forall>y. p \<le> y \<and> y < pos s \<longrightarrow> leaf_docs vals i y = 0"
    "unat n = sum (leaf_docs vals i) {pos s..<Suc (pos e)}" "chain (leaf_docs vals i) (Suc (pos e)) rs 100"
    using Cons.prems unfolding r by simp_all
  note IH = Cons.IH [OF c(7), unfolded block_part_def]
  note R = one_range [OF assms(1) c(2-4)]
  have m: "atom i * int x \<le> atom i * int y" if "x \<le> y" for x y using atom_bounds(1) [OF assms(1)] that by simp
  have "ranges_ok vals (map (value_range i) (r # rs))"
    using IH R(1-3) c(6) by (auto simp: ranges_ok_def r value_range_def)
  moreover have "\<forall>(lo, hi, n)\<in>set (map (value_range i) (r # rs)). atom i * int p \<le> lo \<and> range_bound ! i \<le> lo \<and> hi < range_bound ! Suc i"
    using IH R(4,5) m [OF c(1)] m [of p "Suc (pos e)"] c(1,2) by (fastforce simp: r value_range_def)
  moreover have "in_ranges (map (value_range i) (r # rs)) (clamp_value x)"
    if x: "Some x \<in> set vals" "0 < x" "100 * i + p \<le> leaf_index x" "leaf_index x < 100 * i + 100" for x
  proof (cases "leaf_index x \<le> 100 * i + pos e")
    case True
    obtain f where f: "leaf_index x = 100 * i + f" "p \<le> f" "leaf_docs vals i f \<noteq> 0" using leaf_of_doc [OF assms(1) x] by blast
    then have "\<not> f < pos s" using spec [OF c(5), of f] by simp
    then have "100 * i + pos s \<le> leaf_index x" using f(1) by linarith
    then show ?thesis using R(6) [OF x(2) _ True] by (simp add: in_ranges_def r value_range_def)
  next
    case False
    then have "in_ranges (map (value_range i) rs) (clamp_value x)" using IH x by auto
    then show ?thesis by (auto simp: in_ranges_def)
  qed
  ultimately show ?case unfolding block_part_def by blast
qed

section \<open>All blocks\<close>

definition show_range :: "(string \<Rightarrow> ustring) \<Rightarrow> int \<times> int \<times> nat \<Rightarrow> 'd :: zero rep_item" where
  "show_range conv = (\<lambda>(lo, hi, n). make_item 1 (conv (show_int lo @ ''-'' @ show_int hi)) 0 (of_nat n))"

lemma range_item_show: "range_item conv i r = show_range conv (value_range i r)"
  by (cases r) (simp add: range_item_def show_range_def value_range_def atom_def pos_def Let_def split_beta)

lemma block_items_part:
  assumes "length vals < 2 ^ 32" "i < 7" "split_ok (count_tree vals) m split"
  obtains rs where "block_ranges (count_tree vals) i (split ! i) = Some rs" "length rs \<le> unat (split ! i)"
    "block_part vals i 0 (map (value_range i) rs)"
proof (cases "split ! i = 0")
  case True
  then have "node1 (count_tree vals) i = 0" using assms(2,3) by (simp add: split_ok_def)
  then have "sum (leaf_docs vals i) {..<100} = 0" using count_tree_block [OF assms(1,2)] by (simp add: block_counts_def)
  then have "chain (leaf_docs vals i) 0 [] 100" by simp
  then show thesis using that [of "[]"] True chain_part [OF assms(2), of vals 0 "[]"] by (simp add: block_ranges_def)
next
  case False
  then have "node1 (count_tree vals) i \<noteq> 0" using assms(2,3) by (simp add: split_ok_def)
  then obtain rs where rs: "block_ranges (count_tree vals) i (split ! i) = Some rs" "length rs \<le> unat (split ! i)" "chain (leaf_docs vals i) 0 rs 100"
    by (rule block_ranges_spec [OF count_tree_block [OF assms(1,2)] False])
  then show thesis by (intro that [OF rs(1,2)] chain_part [OF assms(2)])
qed

text \<open>The ranges of the blocks from \<open>k\<close> on.\<close>

definition blocks_part :: "int option list \<Rightarrow> nat \<Rightarrow> (int \<times> int \<times> nat) list \<Rightarrow> bool" where
  "blocks_part vals k rs \<longleftrightarrow> ranges_ok vals rs \<and> (\<forall>(lo, hi, n)\<in>set rs. range_bound ! k \<le> lo) \<and>
     (\<forall>x. Some x \<in> set vals \<and> 0 < x \<and> 100 * k \<le> leaf_index x \<longrightarrow> in_ranges rs (clamp_value x))"

lemma blocks_part_step:
  assumes "k < 7" "block_part vals k 0 rs" "blocks_part vals (Suc k) rs'"
  shows "blocks_part vals k (rs @ rs')"
proof -
  note b = assms(2) [unfolded block_part_def] and bs = assms(3) [unfolded blocks_part_def]
  have "hi < lo'" if "(lo, hi, n) \<in> set rs" "(lo', hi', n') \<in> set rs'" for lo hi n lo' hi' n' using b bs that by fastforce
  then have "ranges_ok vals (rs @ rs')" using b bs by (fastforce simp: ranges_ok_def sorted_wrt_append)
  moreover have "range_bound ! k \<le> lo" if "(lo, hi, n) \<in> set (rs @ rs')" for lo hi n
    using b bs that range_bound_mono [of k "Suc k"] assms(1) by fastforce
  moreover have "in_ranges (rs @ rs') (clamp_value x)" if x: "Some x \<in> set vals" "0 < x" "100 * k \<le> leaf_index x" for x
  proof (cases "leaf_index x < 100 * k + 100")
    case True
    then have "in_ranges rs (clamp_value x)" using b x by simp
    then show ?thesis by (auto simp: in_ranges_def)
  next
    case False
    then have "in_ranges rs' (clamp_value x)" using bs x by simp
    then show ?thesis by (auto simp: in_ranges_def)
  qed
  ultimately show ?thesis by (auto simp: blocks_part_def)
qed

lemma blocks_items_part:
  assumes "length vals < 2 ^ 32" "split_ok (count_tree vals) m split" "k \<le> 7"
  shows "\<exists>rs. blocks_items conv (count_tree vals) split [k..<7] = Some (map (show_range conv) rs :: 'd :: zero rep_item list) \<and>
    length rs \<le> sum_list (map unat (drop k split)) \<and> blocks_part vals k rs"
  using assms(3)
proof (induction "7 - k" arbitrary: k)
  case 0
  then have k: "k = 7" by simp
  have "\<not> (0 < x \<and> 700 \<le> leaf_index x)" for x using in_node_leaf(1) [of x] by auto
  then have "blocks_part vals k []" unfolding k by (auto simp: blocks_part_def ranges_ok_def)
  then show ?case using k by (intro exI [of _ "[]"]) simp
next
  case (Suc d)
  then have k: "k < 7" "[k..<7] = k # [Suc k..<7]" by (simp_all add: upt_rec)
  have d: "d = 7 - Suc k" using Suc.hyps(2) by simp
  obtain rs' where rs': "blocks_items conv (count_tree vals) split [Suc k..<7] = Some (map (show_range conv) rs' :: 'd rep_item list)"
    "length rs' \<le> sum_list (map unat (drop (Suc k) split))" "blocks_part vals (Suc k) rs'" 
    using Suc.hyps(1) [OF d Suc_leI [OF k(1)]] by blast
  obtain rs where rs: "block_ranges (count_tree vals) k (split ! k) = Some rs" "length rs \<le> unat (split ! k)"
    "block_part vals k 0 (map (value_range k) rs)" using block_items_part [OF assms(1) k(1) assms(2)] by blast
  have "length split = 7" using assms(2) by (simp add: split_ok_def)
  then have dr: "drop k split = split ! k # drop (Suc k) split" using k(1) by (simp add: Cons_nth_drop_Suc)
  let ?rs = "map (value_range k) rs @ rs'"
  have "blocks_items conv (count_tree vals) split [k..<7] = Some (map (show_range conv) ?rs :: 'd rep_item list)"
    using rs(1) rs'(1) by (simp add: k(2) range_item_show)
  moreover have "length ?rs \<le> sum_list (map unat (drop k split))" using rs(2) rs'(2) by (simp add: dr)
  ultimately show ?case using blocks_part_step [OF k(1) rs(3) rs'(3)] by blast
qed

section \<open>Property\<close>

lemma count_tree_last: "last (count_tree vals) = of_nat (length (filter (\<lambda>v. \<exists>x. v = Some x \<and> 0 < x) vals))"
proof -
  have l: "length (count_tree vals) = 778" by (simp add: count_tree_def)
  then have "count_tree vals \<noteq> []" by auto
  then have "last (count_tree vals) = of_nat (node_docs vals 777)" using l by (simp add: last_conv_nth count_tree_nth)
  moreover have "in_node 777 x \<longleftrightarrow> 0 < x" for x by (simp add: in_node_def)
  ultimately show ?thesis by (simp add: node_docs_def)
qed

lemma range_items_part:
  fixes vr :: "u32 \<Rightarrow> u32 \<Rightarrow> 'v :: linorder"
  assumes "length vals < 2 ^ 32"
  obtains rs where "range_items vr conv (prop, count_tree vals) =
      Some ((make_item 0 (conv prop) 0 (of_nat (length (filter (\<lambda>v. \<exists>x. v = Some x \<and> 0 < x) vals))) :: 'd :: zero rep_item) # map (show_range conv) rs)"
    "length rs \<le> MAX_RANGE_NUMBER" "blocks_part vals 0 rs"
proof -
  let ?split = "range_split vr (count_tree vals)"
  note ok = range_split_ok [of "count_tree vals" vr]
  obtain rs where rs: "blocks_items conv (count_tree vals) ?split [0..<7] = Some (map (show_range conv) rs :: 'd rep_item list)"
    "length rs \<le> sum_list (map unat ?split)" "blocks_part vals 0 rs" using blocks_items_part [OF assms ok, of 0] by auto
  have "sum_list (map unat ?split) \<le> MAX_RANGE_NUMBER" using ok by (simp add: split_ok_def)
  then have "length rs \<le> MAX_RANGE_NUMBER" using rs(2) by simp
  then show thesis using rs by (intro that [of rs]) (simp_all add: range_items_def count_tree_last)
qed

text \<open>The ranges that a numeric property is shown with are a partition: for the segment tree counted by \<open>addDoc\<close> over a sequence
of documents, \<open>toOntologyRepItemList\<close> makes the item of the property with the number of documents of a positive value, and
at most seven items of ranges; the ranges are in ascending order and do not overlap, each of them has a document, its count
is the number of documents with a value (cut off at 999999999) between its bounds, and every document with a positive value is
in one of them; no read is outside of a row of the tree. This holds whatever the quotients of the variances are rounded to. Fewer than
\<open>2 ^ 32\<close> documents are counted.
\<close>

theorem range_items_partition:
  fixes vr :: "u32 \<Rightarrow> u32 \<Rightarrow> 'v :: linorder" and rep :: "'d :: zero group_rep"
  assumes "length vals < 2 ^ 32"
  shows "\<exists>rs. toOntologyRepItemList vr fmt conv (snd (range_getGroupRep pname (foldl (\<lambda>t v. range_addDoc v t) seg_init vals) (gr_clear rep))) =
      Some \<lparr>stringGroupRep = make_item 0 (conv pname) 0 (of_nat (length (filter (\<lambda>v. \<exists>x. v = Some x \<and> 0 < x) vals))) #
          map (\<lambda>(lo, hi, n). make_item 1 (conv (show_int lo @ ''-'' @ show_int hi)) 0 (of_nat n)) rs,
        numericGroupRep = [], numericRangeGroupRep = []\<rparr> \<and>
    length rs \<le> 7 \<and> sorted_wrt (\<lambda>(lo, hi, n) (lo', hi', n'). hi < lo') rs \<and>
    (\<forall>(lo, hi, n)\<in>set rs. lo \<le> hi \<and> 0 < n \<and>
       n = length (filter (\<lambda>v. \<exists>x. v = Some x \<and> 0 < x \<and> lo \<le> min x 999999999 \<and> min x 999999999 \<le> hi) vals)) \<and>
    (\<forall>x. Some x \<in> set vals \<and> 0 < x \<longrightarrow> (\<exists>(lo, hi, n)\<in>set rs. lo \<le> min x 999999999 \<and> min x 999999999 \<le> hi))"
proof -
  obtain rs where rs: "range_items vr conv (pname, count_tree vals) =
      Some ((make_item 0 (conv pname) 0 (of_nat (length (filter (\<lambda>v. \<exists>x. v = Some x \<and> 0 < x) vals))) :: 'd rep_item) # map (show_range conv) rs)"
    "length rs \<le> MAX_RANGE_NUMBER" "blocks_part vals 0 rs" by (rule range_items_part [OF assms])
  show ?thesis unfolding range_counter_def [symmetric] range_getGroupRep_counts
  proof (intro exI [of _ rs] conjI)
    show "toOntologyRepItemList vr fmt conv (snd ([], gr_clear rep\<lparr>numericRangeGroupRep := numericRangeGroupRep (gr_clear rep) @ [(pname, count_tree vals)]\<rparr>)) =
      Some \<lparr>stringGroupRep = make_item 0 (conv pname) 0 (of_nat (length (filter (\<lambda>v. \<exists>x. v = Some x \<and> 0 < x) vals))) #
          map (\<lambda>(lo, hi, n). make_item 1 (conv (show_int lo @ ''-'' @ show_int hi)) 0 (of_nat n)) rs,
        numericGroupRep = [], numericRangeGroupRep = []\<rparr>"
      using rs(1) by (simp add: toOntologyRepItemList_def gr_clear_def show_range_def)
  qed (use rs(2,3) in \<open>simp_all add: MAX_RANGE_NUMBER_def blocks_part_def ranges_ok_def in_ranges_def clamp_value_def range_docs_def\<close>)
qed

text \<open>An instance of \<open>range_items_partition\<close>: five documents, one of them without a value.\<close>

theorem range_items_partition_witness:
  "length [Some 5, Some 12, None, Some 2500, Some 2510 :: int option] < 2 ^ 32 \<and>
   (\<exists>rs. toOntologyRepItemList (\<lambda>n s. n) (\<lambda>v. []) (map of_char) (snd (range_getGroupRep ''Price''
        (foldl (\<lambda>t v. range_addDoc v t) seg_init [Some 5, Some 12, None, Some 2500, Some 2510]) (gr_clear no_groups))) =
      Some \<lparr>stringGroupRep = make_item 0 (map of_char ''Price'') 0 4 #
          map (\<lambda>(lo, hi, n). make_item 1 (map of_char (show_int lo @ ''-'' @ show_int hi)) 0 (of_nat n)) rs,
        numericGroupRep = [], numericRangeGroupRep = []\<rparr> \<and> length rs \<le> 7)"
proof -
  have l: "length [Some 5, Some 12, None, Some 2500, Some 2510 :: int option] < 2 ^ 32" by simp
  from range_items_partition [OF l, where vr = "\<lambda>n s. n" and fmt = "\<lambda>v. []" and conv = "map of_char" and pname = "''Price''" and rep = no_groups]
  show ?thesis by (elim exE conjE) (intro conjI l exI, simp_all)
qed

end
