(* ===== verification/Filter_Rep.thy ===== *)
theory Filter_Rep
  imports Counter_Builder Range_Partition Group_Resize
begin

text \<open>
  The response of a filter: the groups of all counters, cut down to the limits of the request (\<open>getGroupRep\<close> of
  core/mining-manager/group-manager/GroupFilter.cpp and \<open>ResizeTo\<close> of GroupRep.cpp).
\<close>

section \<open>The response\<close>

fun ao_getGroupRep :: "('q, u32 \<times> 'd) queue_class \<Rightarrow> int \<Rightarrow> 'd :: linordered_idom rep_item list \<Rightarrow> 'd attr_object \<Rightarrow>
    ('d attr_object \<times> 'd rep_item list) option" where
  "ao_getGroupRep qops n items (Attr_Counter c) = map_option (\<lambda>(c', items'). (Attr_Counter c', items')) (ac_getGroupRep qops n items c)"
| "ao_getGroupRep qops n items (Attr_Score_Counter c) = map_option (\<lambda>(c', items'). (Attr_Score_Counter c', items')) (as_getGroupRep qops n items c)"

fun counters_rep :: "'d :: {linorder, zero} rep_env \<Rightarrow> 'd group_counter list \<Rightarrow> 'd group_rep \<Rightarrow> ('d group_counter list \<times> 'd group_rep) option" where
  "counters_rep e [] rep = Some ([], rep)"
| "counters_rep e (c # cs) rep =
     Option.bind (gc_getGroupRep e c rep) (\<lambda>(c', rep'). map_option (\<lambda>(cs', rep''). (c' # cs', rep'')) (counters_rep e cs rep'))"

definition grouptop_for_props :: "group_prop_param list \<Rightarrow> string \<rightharpoonup> int" where
  "grouptop_for_props ps = foldl (\<lambda>m p. m(gp_property p \<mapsto> gp_group_top p)) Map.empty ps"

definition needResize :: "group_prop_param list \<Rightarrow> bool" where
  "needResize ps = list_ex (\<lambda>p. gp_group_top p > 0) ps"

text \<open>\<open>str\<close> is \<open>convertString\<close> to UTF-8, the other direction of the conversion \<open>re_conv\<close> of names.\<close>

definition resizeTo :: "(u32 \<Rightarrow> u32 \<Rightarrow> 'v :: linorder) \<Rightarrow> (ustring \<Rightarrow> string) \<Rightarrow> 'd :: zero rep_env \<Rightarrow> (string \<rightharpoonup> int) \<Rightarrow> 'd group_rep \<Rightarrow> 'd group_rep option" where
  "resizeTo vr str e tops rep =
     Option.bind (toOntologyRepItemList vr (re_fmt e) (re_conv e) rep) (\<lambda>rep'.
       map_option (\<lambda>items. rep'\<lparr>stringGroupRep := items\<rparr>) (resize_items str tops (stringGroupRep rep')))"

definition gf_getGroupRep :: "(u32 \<Rightarrow> u32 \<Rightarrow> 'v :: linorder) \<Rightarrow> (ustring \<Rightarrow> string) \<Rightarrow> ('q, u32 \<times> 'd) queue_class \<Rightarrow> 'd :: linordered_idom rep_env \<Rightarrow>
    group_param \<Rightarrow> 'd group_rep \<Rightarrow> 'd rep_item list \<Rightarrow> ('d group_counter, 'd attr_object) group_filter \<Rightarrow>
    (('d group_counter, 'd attr_object) group_filter \<times> 'd group_rep \<times> 'd rep_item list) option" where
  "gf_getGroupRep vr str qops e p groupRep attrRep st =
     Option.bind (counters_rep e (gf_groupCounters st) groupRep) (\<lambda>(cs, rep).
     Option.bind (case gf_attrCounter st of
         None \<Rightarrow> Some (None, attrRep)
       | Some a \<Rightarrow> map_option (\<lambda>(a', items). (Some a', items)) (ao_getGroupRep qops (attrGroupNum p) attrRep a)) (\<lambda>(a, attrs).
     map_option (\<lambda>rep'. (st\<lparr>gf_groupCounters := cs, gf_attrCounter := a\<rparr>, rep', attrs))
       (if needResize (groupProps p) then resizeTo vr str e (grouptop_for_props (groupProps p)) rep else Some rep)))"

section \<open>A property without a limit beside one with a limit\<close>

lemma heap_of_zero: "heap_of 0 cs = {#}"
  using heap_of_largest [of 0 cs] by (simp add: largest_def)

lemma resize_heaps_any:
  assumes "\<forall>b\<in>set bs. block_ok b \<and> 0 \<le> block_limit str tops n b"
  shows "resize_heaps str tops n (flat_blocks bs) qs k0 \<in>
    {None, Some (qs @ map (\<lambda>b. heap_of (nat (block_limit str tops n b)) (group_counts (snd b))) bs)}"
  using assms
proof (induction bs arbitrary: qs k0)
  case (Cons b bs)
  obtain p gs where b: "b = (p, gs)" by fastforce
  let ?k = "block_limit str tops n b"
  let ?h = "heap_of (nat ?k) (group_counts gs)"
  have ok: "block_ok b" "0 \<le> ?k" using Cons.prems by simp_all
  show ?case
  proof (cases "qs \<noteq> [] \<and> last qs = {#}")
    case True
    then show ?thesis using ok(1) b by (simp add: flat_blocks_Cons block_ok_def)
  next
    case False
    have "resize_heaps str tops n (flat_blocks (b # bs)) qs k0 =
        resize_heaps str tops n (flat_groups gs @ flat_blocks bs) (qs @ [{#}]) ?k"
      using ok False b by (auto simp: flat_blocks_Cons block_ok_def block_limit_def Let_def)
    also have "\<dots> = resize_heaps str tops n (flat_blocks bs) (qs @ [?h]) ?k"
      using resize_heaps_groups [of gs "{#}" ?k] ok b by (simp add: block_ok_def heap_of_def to_size_t_def)
    finally show ?thesis using Cons.IH [of "qs @ [?h]" ?k] Cons.prems b by simp
  qed
qed (simp add: flat_blocks_def)

lemma resize_erase_rest_None:
  assumes "\<forall>g\<in>set gs. ri_level (fst g) = 1 \<and> (\<forall>d\<in>set (snd g). ri_level d \<noteq> 0 \<and> ri_level d \<noteq> 1)"
    "\<And>rm'. resize_erase qs i rm' rest = None"
  shows "resize_erase qs i rm (flat_groups gs @ rest) = None"
  using assms(1)
proof (induction gs arbitrary: rm)
  case (Cons gd gs)
  obtain g ds where gd: "gd = (g, ds)" by fastforce
  have ds: "\<forall>d\<in>set ds. ri_level d \<noteq> 0 \<and> ri_level d \<noteq> 1" "ri_level g = 1" using Cons.prems gd by auto
  show ?case using Cons.IH Cons.prems gd ds(2) resize_erase_deep [OF ds(1)] by (simp add: flat_groups_Cons)
qed (simp add: flat_groups_def assms(2))

lemma resize_erase_empty_heap:
  assumes "\<forall>b\<in>set bs. block_ok b" "\<exists>b\<in>set bs. h b = {#}" "length qs = i"
  shows "resize_erase (qs @ map h bs) i rm (flat_blocks bs) = None"
  using assms
proof (induction bs arbitrary: qs i rm)
  case (Cons b bs)
  obtain p gs where b: "b = (p, gs)" by fastforce
  have ok: "block_ok b" using Cons.prems by simp
  have "resize_erase (qs @ map h (b # bs)) (Suc i) False (flat_groups gs @ flat_blocks bs) = None"
  proof (cases "h b = {#}")
    case True
    obtain g ds gs' where gs: "gs = (g, ds) # gs'" using ok b by (cases gs) (auto simp: block_ok_def)
    have "ri_level g = 1" using ok b gs by (simp add: block_ok_def)
    then show ?thesis using True Cons.prems(3) by (simp add: gs flat_groups_Cons nth_append)
  next
    case False
    then have "\<exists>b\<in>set bs. h b = {#}" using Cons.prems(2) by auto
    then have "resize_erase (qs @ map h (b # bs)) (Suc i) rm' (flat_blocks bs) = None" for rm'
      using Cons.IH [of "qs @ [h b]" "Suc i"] Cons.prems by simp
    then show ?thesis by (intro resize_erase_rest_None) (use ok b in \<open>simp_all add: block_ok_def\<close>)
  qed
  then show ?case using ok b by (simp add: flat_blocks_Cons block_ok_def)
qed simp

lemma resize_zero_limit:
  assumes "\<forall>b\<in>set bs. block_ok b \<and> 0 \<le> block_limit str tops (int (length (flat_blocks bs))) b"
    "\<exists>b\<in>set bs. block_limit str tops (int (length (flat_blocks bs))) b = 0"
  shows "resize_items str tops (flat_blocks bs) = None"
proof -
  let ?n = "int (length (flat_blocks bs))"
  let ?h = "\<lambda>b. heap_of (nat (block_limit str tops ?n b)) (group_counts (snd b))"
  obtain b where "b \<in> set bs" "block_limit str tops ?n b = 0" using assms(2) by blast
  then have "\<exists>b\<in>set bs. ?h b = {#}" by (intro bexI [of _ b]) (simp_all add: heap_of_zero)
  then have "resize_erase (map ?h bs) 0 False (flat_blocks bs) = None"
    using resize_erase_empty_heap [of bs ?h "[]" 0] assms(1) by simp
  then show ?thesis using resize_heaps_any [OF assms(1), of "[]" ?n] by (auto simp: resize_items_def)
qed

section \<open>A filter that counts ranges\<close>

lemma range_counter_run:
  assumes "fo_addDoc ops = gc_addDoc e"
  shows "gf_test_all ops docs (gf_new\<lparr>gf_groupCounters := [Range pname val tree]\<rparr>) =
    Some (docs, gf_new\<lparr>gf_groupCounters := [Range pname val (foldl (\<lambda>t v. range_addDoc v t) tree (map val docs))]\<rparr>)"
proof (induction docs arbitrary: tree)
  case (Cons d ds)
  have "gf_test ops d (gf_new\<lparr>gf_groupCounters := [Range pname val tree]\<rparr>) =
      Some (True, gf_new\<lparr>gf_groupCounters := [Range pname val (range_addDoc (val d) tree)]\<rparr>)"
    using assms by (simp add: gf_test_def gf_new_def attr_update_def)
  then show ?case using Cons.IH by simp
qed simp

lemma make_item_sel [simp]: "ri_level (make_item l t i n) = of_int l" "ri_text (make_item l t i n) = t" "ri_doc_count (make_item l t i n) = n"
  by (simp_all add: make_item_def)

text \<open>The ranges for which fewer than \<open>k\<close> ranges have more documents.\<close>

definition top_ranges :: "nat \<Rightarrow> (int \<times> int \<times> nat) list \<Rightarrow> (int \<times> int \<times> nat) list" where
  "top_ranges k rs = filter (\<lambda>(lo, hi, n). length (filter (\<lambda>(lo', hi', n'). n < n') rs) < k) rs"

definition range_group :: "(string \<Rightarrow> ustring) \<Rightarrow> int \<times> int \<times> nat \<Rightarrow> 'd :: zero rep_item \<times> 'd rep_item list" where
  "range_group conv r = (show_range conv r, [])"

lemma range_group_count: "ri_doc_count (fst (range_group conv r)) = of_nat (snd (snd r))"
  by (cases r) (simp add: range_group_def show_range_def)

lemma keep_top_ranges:
  assumes "\<forall>(lo, hi, n)\<in>set rs. n < 2 ^ 32"
  shows "keep_groups k (map (range_group conv) rs) = map (range_group conv) (top_ranges k rs)"
proof -
  have w: "(of_nat m :: u32) < of_nat n \<longleftrightarrow> m < n" if "m < 2 ^ 32" "n < 2 ^ 32" for m n
    using that by (simp add: word_less_nat_alt unat_of_nat take_bit_nat_eq_self)
  have F: "filter (\<lambda>r'. (of_nat (snd (snd r)) :: u32) < of_nat (snd (snd r'))) rs = filter (\<lambda>(lo', hi', n'). snd (snd r) < n') rs"
    if "r \<in> set rs" for r
    using assms that w by (intro filter_cong refl) (auto simp: split_beta)
  show ?thesis unfolding keep_groups_def top_ranges_def filter_map o_def range_group_count length_map
    by (intro arg_cong [of _ _ "map (range_group conv)"] filter_cong refl) (use F in \<open>auto simp: split_beta\<close>)
qed

lemma flat_range_groups: "flat_blocks [(h, map (range_group conv) rs)] = h # map (show_range conv) rs"
  by (induction rs) (simp_all add: flat_blocks_def flat_groups_def range_group_def)

lemma resize_ranges:
  assumes "\<forall>(lo, hi, n)\<in>set rs. n < 2 ^ 32" "str (conv pname) = pname" "tops pname = Some k" "0 < k"
  shows "resize_items str tops (make_item 0 (conv pname) 0 n # map (show_range conv) rs) =
    Some ((make_item 0 (conv pname) 0 n :: 'd :: zero rep_item) # map (show_range conv) (top_ranges (nat k) rs))"
proof (cases "rs = []")
  case True
  then show ?thesis using assms(4) by (simp add: resize_items_def top_ranges_def Let_def)
next
  case False
  let ?b = "(make_item 0 (conv pname) 0 n :: 'd rep_item, map (range_group conv) rs)"
  have lim: "block_limit str tops m ?b = k" for m using assms(2,3) by (simp add: block_limit_def)
  have "block_ok ?b" using False by (auto simp: block_ok_def range_group_def show_range_def split_beta)
  then have "\<forall>b\<in>set [?b]. block_ok b \<and> 0 < block_limit str tops (int (length (flat_blocks [?b]))) b" using lim assms(4) by simp
  from resize_items_blocks [OF this] show ?thesis by (simp add: lim flat_range_groups keep_top_ranges [OF assms(1)])
qed

section \<open>Properties\<close>

text \<open>The request for the ranges of one property with a limit.\<close>

definition range_request :: "int \<Rightarrow> string \<Rightarrow> int \<Rightarrow> group_param" where
  "range_request mode pname k = (gparam_init mode)\<lparr>groupProps := [gpp_init\<lparr>gp_property := pname, gp_isRange := True, gp_group_top := k\<rparr>]\<rparr>"

lemma range_request_filter:
  assumes "lb_groupConfigMap b pname = Some c" "isNumericType c" "lb_createPropertyTable b pname = Some t"
  shows "createFilter conv db fl zambezi b attrTable (range_request mode pname k) =
    Some (gf_new\<lparr>gf_groupCounters := [Range pname (nt_getInt32Value t) seg_init]\<rparr>)"
  using assms by (simp add: createFilter_def range_request_def gparam_init_def gpp_init_def isEmpty_def isGroupEmpty_def isAttrEmpty_def
      initGroup_def createGroupCounter_def createNumericRangeCounter_def gf_new_def Let_def)


lemma bind_to_None: "Option.bind m (\<lambda>(x, y). None) = None"
  by (cases m) auto

text \<open>C39: A limit for one property takes the others away: when a request limits the groups of one of its properties and leaves the limit
of another at its default 0, and all properties have groups, then \<open>getGroupRep\<close> fails: the second property is entered
with the limit 0 into the map of limits, its heap of counts is empty, and the top of the empty heap is read.
\<close>

theorem unlimited_facet_beside_limited:
  assumes "list_ex (\<lambda>q. gp_group_top q > 0) (groupProps p)" "\<forall>q\<in>set (groupProps p). 0 \<le> gp_group_top q"
    and "counters_rep e (gf_groupCounters st) groupRep = Some (cs, rep)"
    and "toOntologyRepItemList vr (re_fmt e) (re_conv e) rep = Some rep'" "stringGroupRep rep' = flat_blocks bs" "\<forall>b\<in>set bs. block_ok b"
    and "b \<in> set bs" "q \<in> set (groupProps p)" "gp_group_top q = 0" "distinct (map gp_property (groupProps p))" "str (ri_text (fst b)) = gp_property q"
  shows "gf_getGroupRep vr str qops e p groupRep attrRep st = None"
proof -
  let ?tops = "grouptop_for_props (groupProps p)" and ?n = "int (length (flat_blocks bs))"
  have T: "grouptop_for_props ps = map_of (rev (map (\<lambda>q. (gp_property q, gp_group_top q)) ps))" for ps
    by (induction ps rule: rev_induct) (simp_all add: grouptop_for_props_def)
  have "?tops (gp_property q) = Some (gp_group_top q)"
    unfolding T using assms(8,10) by (intro map_of_is_SomeI) (auto simp: rev_map [symmetric] o_def)
  then have z: "block_limit str ?tops ?n b = 0" using assms(9,11) by (simp add: block_limit_def)
  have "0 \<le> k" if "?tops x = Some k" for x k
    using map_of_SomeD [OF that [unfolded T]] assms(2) by auto
  then have "0 \<le> block_limit str ?tops ?n b'" for b' by (auto simp: block_limit_def split: option.splits)
  then have "resize_items str ?tops (flat_blocks bs) = None"
    using resize_zero_limit [of bs str ?tops] assms(6,7) z by blast
  then show ?thesis using assms(1,3-5) by (simp add: gf_getGroupRep_def needResize_def resizeTo_def bind_to_None)
qed

section \<open>Instances\<close>

definition sample_env :: "int rep_env" where
  "sample_env = \<lparr>re_cmp = (\<lambda>_ _. 0), re_conv = ustr, re_fmt = (\<lambda>_. ustr ''7''), re_boost = plain_boost\<rparr>"

definition no_int_groups :: "int group_rep" where
  "no_int_groups = \<lparr>stringGroupRep = [], numericGroupRep = [], numericRangeGroupRep = []\<rparr>"

definition sample_filter_ops :: "(int group_counter, int attr_object) filter_ops" where
  "sample_filter_ops = \<lparr>fo_addDoc = gc_addDoc sample_env, fo_attrAddDoc = (\<lambda>_. Some), fo_addAttrDoc = (\<lambda>_ _. Some)\<rparr>"


text \<open>Two numeric properties with one document each; the second one has no limit.\<close>

definition sample_numeric :: "string \<Rightarrow> int group_counter" where
  "sample_numeric pname = Plain (Numeric_Counter (nc_addDoc 1 (nc_new pname (\<lambda>_. Some 7))))"

theorem unlimited_facet_beside_limited_witness:
  "gf_getGroupRep (\<lambda>n s. n) (\<lambda>s. if s = ustr ''a'' then ''a'' else ''b'') (heap_queue (0, 0)) sample_env
     ((gparam_init 0)\<lparr>groupProps := [gpp_init\<lparr>gp_property := ''a'', gp_group_top := 5\<rparr>, gpp_init\<lparr>gp_property := ''b''\<rparr>]\<rparr>)
     no_int_groups [] (gf_new\<lparr>gf_groupCounters := [sample_numeric ''a'', sample_numeric ''b'']\<rparr>) = None"
proof -
  let ?p = "(gparam_init 0)\<lparr>groupProps := [gpp_init\<lparr>gp_property := ''a'', gp_group_top := 5\<rparr>, gpp_init\<lparr>gp_property := ''b''\<rparr>]\<rparr>"
  let ?st = "gf_new\<lparr>gf_groupCounters := [sample_numeric ''a'', sample_numeric ''b'']\<rparr> :: (int group_counter, int attr_object) group_filter"
  let ?rep = "no_int_groups\<lparr>numericGroupRep := [(''a'', [(7, 1)]), (''b'', [(7, 1)])]\<rparr>"
  define blk :: "string \<Rightarrow> int block" where "blk n = (make_item 0 (ustr n) 0 1, [(make_item 1 (ustr ''7'') 0 1, [])])" for n
  have c: "counters_rep sample_env (gf_groupCounters ?st) no_int_groups = Some ([sample_numeric ''a'', sample_numeric ''b''], ?rep)"
    by (simp add: sample_numeric_def nc_addDoc_def nc_new_def nc_getGroupRep_def no_int_groups_def map_bump_def map_get_def)
  have i: "toOntologyRepItemList (\<lambda>n s. n) (re_fmt sample_env) (re_conv sample_env) ?rep =
      Some (no_int_groups\<lparr>stringGroupRep := flat_blocks [blk ''a'', blk ''b'']\<rparr>)"
    by (simp add: toOntologyRepItemList_def no_int_groups_def numeric_items_def sample_env_def flat_blocks_def flat_groups_def blk_def)
  show ?thesis
  proof (rule unlimited_facet_beside_limited [OF _ _ c i, where bs = "[blk ''a'', blk ''b'']" and b = "blk ''b''" and q = "gpp_init\<lparr>gp_property := ''b''\<rparr>"])
  qed (simp_all add: gparam_init_def gpp_init_def no_int_groups_def blk_def block_ok_def ustr_def)
qed

end
