(* ===== verification/Doc_Iterator.thy ===== *)
theory Doc_Iterator
  imports Prelude
begin

text \<open>
  Iterators over the documents that match a query (core/search-manager): the interface
  (DocumentIterator.h), the conjunction (ANDDocumentIterator.h, ANDDocumentIterator.cpp), and the
  iterator over all documents (AllDocumentIterator.h). A child of an iterator is an object of unknown class: its
  virtual methods are the components of a record of operations.
\<close>

section \<open>The interface\<close>

definition MAX_DOC_ID :: docid where "MAX_DOC_ID = 0xFFFFFFFF"

record 'it iter_ops =
  it_next :: "'it \<Rightarrow> bool \<times> 'it"
  it_doc :: "'it \<Rightarrow> docid"
  it_skipTo :: "docid \<Rightarrow> 'it \<Rightarrow> docid \<times> 'it"

text \<open>
  What the combining iterators rely on: \<open>rest\<close> are the documents still to come, \<open>cur\<close> is the current one;
  \<open>next\<close> moves to the least document to come, \<open>skipTo\<close> to the least document from the target on, which may
  be the current one; \<open>MAX_DOC_ID\<close> is not a document.
\<close>

definition remaining :: "('it \<Rightarrow> docid option) \<Rightarrow> ('it \<Rightarrow> docid set) \<Rightarrow> 'it \<Rightarrow> docid set" where
  "remaining cur rest it = set_option (cur it) \<union> rest it"

definition upto_docs :: "docid \<Rightarrow> docid set \<Rightarrow> docid set" where
  "upto_docs t A = {d \<in> A. t \<le> d}"

locale doc_iterator =
  fixes next_op :: "'it \<Rightarrow> bool \<times> 'it"
    and doc_op :: "'it \<Rightarrow> docid"
    and skip_op :: "docid \<Rightarrow> 'it \<Rightarrow> docid \<times> 'it"
    and inv :: "'it \<Rightarrow> bool"
    and cur :: "'it \<Rightarrow> docid option"
    and rest :: "'it \<Rightarrow> docid set"
  assumes no_max: "inv it \<Longrightarrow> MAX_DOC_ID \<notin> remaining cur rest it"
    and ordered: "inv it \<Longrightarrow> cur it = Some d \<Longrightarrow> x \<in> rest it \<Longrightarrow> d < x"
    and doc_cur: "inv it \<Longrightarrow> cur it = Some d \<Longrightarrow> doc_op it = d"
    and next_end: "inv it \<Longrightarrow> rest it = {} \<Longrightarrow>
      \<not> fst (next_op it) \<and> inv (snd (next_op it)) \<and> cur (snd (next_op it)) = None \<and> rest (snd (next_op it)) = {}"
    and next_doc: "inv it \<Longrightarrow> rest it \<noteq> {} \<Longrightarrow>
      fst (next_op it) \<and> inv (snd (next_op it)) \<and> cur (snd (next_op it)) = Some (Min (rest it)) \<and>
      rest (snd (next_op it)) = rest it - {Min (rest it)}"
    and skip_end: "inv it \<Longrightarrow> upto_docs t (remaining cur rest it) = {} \<Longrightarrow>
      fst (skip_op t it) = MAX_DOC_ID \<and> inv (snd (skip_op t it)) \<and> cur (snd (skip_op t it)) = None \<and>
      rest (snd (skip_op t it)) = {}"
    and skip_doc: "inv it \<Longrightarrow> upto_docs t (remaining cur rest it) \<noteq> {} \<Longrightarrow>
      fst (skip_op t it) = Min (upto_docs t (remaining cur rest it)) \<and> inv (snd (skip_op t it)) \<and>
      cur (snd (skip_op t it)) = Some (Min (upto_docs t (remaining cur rest it))) \<and>
      rest (snd (skip_op t it)) =
        upto_docs t (remaining cur rest it) - {Min (upto_docs t (remaining cur rest it))}"

section \<open>Conjunction\<close>

text \<open>
  The state without the part for excluded documents. \<open>nIteratorNum_\<close> always is the size of the list and is
  taken from it. The loops end: a step matches one more child or moves the target on.
\<close>

record 'it and_core =
  and_currDoc :: docid
  and_docIterList :: "'it list"

lemma target_up: "t < t' \<Longrightarrow> 4294967296 - unat t' < 4294967296 - unat (t :: docid)"
  using unsigned_less [where w = t and 'a = nat] by (simp add: word_less_nat_alt)

function and_match_loop ::
  "'it iter_ops \<Rightarrow> nat \<Rightarrow> docid \<Rightarrow> nat \<Rightarrow> 'it list \<Rightarrow> nat \<times> docid \<times> 'it list" where
  "and_match_loop ops n target nMatch l =
     (if nMatch < n \<and> l \<noteq> [] then
        (let (nearTarget, it) = it_skipTo ops target (hd l) in
         if nearTarget = target then and_match_loop ops n target (nMatch + 1) (tl l @ [it])
         else if nearTarget = MAX_DOC_ID then (1, target, it # tl l)
         else if nearTarget > target then and_match_loop ops n nearTarget 1 (tl l @ [it])
         else (1, target, it # tl l))
      else (nMatch, target, l))"
  by pat_completeness auto
termination
  by (relation "measures [\<lambda>(ops, n, target, nMatch, l). 2 ^ 32 - unat target, \<lambda>(ops, n, target, nMatch, l). n - nMatch]")
    (auto simp: target_up)

definition and_do_next :: "'it iter_ops \<Rightarrow> 'it and_core \<Rightarrow> bool \<times> 'it and_core" where
  "and_do_next ops st =
     (let l = and_docIterList st in
      if l = [] then (False, st)
      else
        let (found, front) = it_next ops (hd l) in
        if \<not> found then (False, st\<lparr>and_docIterList := front # tl l\<rparr>)
        else if length l = 1 then (True, st\<lparr>and_docIterList := front # tl l, and_currDoc := it_doc ops front\<rparr>)
        else
          let (nMatch, target, l') = and_match_loop ops (length l) (it_doc ops front) 1 (tl l @ [front]) in
          if nMatch = length l then (True, st\<lparr>and_docIterList := l', and_currDoc := target\<rparr>)
          else (False, st\<lparr>and_docIterList := l'\<rparr>))"

function and_skip_loop ::
  "'it iter_ops \<Rightarrow> nat \<Rightarrow> docid \<Rightarrow> nat \<Rightarrow> docid \<Rightarrow> 'it list \<Rightarrow> nat \<times> docid \<times> docid \<times> 'it list" where
  "and_skip_loop ops n target nMatch nFoundId l =
     (if nMatch < n \<and> l \<noteq> [] then
        (let (found, it) = it_skipTo ops target (hd l) in
         if found = MAX_DOC_ID then (nMatch, target, found, it # tl l)
         else if found = target then and_skip_loop ops n target (nMatch + 1) found (tl l @ [it])
         else if found > target then and_skip_loop ops n found 1 found (tl l @ [it])
         else (nMatch, target, found, it # tl l))
      else (nMatch, target, nFoundId, l))"
  by pat_completeness auto
termination
  by (relation "measures [\<lambda>(ops, n, target, nMatch, f, l). 2 ^ 32 - unat target, \<lambda>(ops, n, target, nMatch, f, l). n - nMatch]")
    (auto simp: target_up)

declare and_match_loop.simps [simp del] and_skip_loop.simps [simp del]

definition and_do_skipTo :: "'it iter_ops \<Rightarrow> docid \<Rightarrow> 'it and_core \<Rightarrow> docid \<times> 'it and_core" where
  "and_do_skipTo ops target st =
     (let n = length (and_docIterList st);
          (nMatch, target', nFoundId, l) = and_skip_loop ops n target 0 MAX_DOC_ID (and_docIterList st)
      in if nMatch = n then (nFoundId, st\<lparr>and_docIterList := l, and_currDoc := target'\<rparr>)
         else (MAX_DOC_ID, st\<lparr>and_docIterList := l, and_currDoc := MAX_DOC_ID\<rparr>))"

section \<open>The contract of a conjunction\<close>

lemma upto_docs_mono: "upto_docs t A = {} \<Longrightarrow> d \<in> A \<Longrightarrow> \<not> t \<le> d"
  by (auto simp: upto_docs_def)

context doc_iterator
begin

text \<open>The documents from \<open>t\<close> on that all children still have.\<close>

definition common :: "docid \<Rightarrow> 'it list \<Rightarrow> docid set" where
  "common t l = {d. t \<le> d \<and> (\<forall>c\<in>set l. d \<in> remaining cur rest c)}"

lemma at_least_cur: "inv c \<Longrightarrow> cur c = Some t \<Longrightarrow> d \<in> remaining cur rest c \<Longrightarrow> t \<le> d"
  using ordered [of c t d] by (auto simp: remaining_def)

text \<open>One call of \<open>skipTo\<close> on the child in front.\<close>

lemma skip_front:
  assumes "inv c" "skip_op t c = (near, c')" "common t (c # l) \<noteq> {} \<or> near \<noteq> MAX_DOC_ID"
  shows "t \<le> near \<and> near \<noteq> MAX_DOC_ID \<and> inv c' \<and> cur c' = Some near \<and>
    common near (l @ [c']) = common t (c # l)"
proof -
  let ?A = "upto_docs t (remaining cur rest c)"
  have ne: "?A \<noteq> {}" using skip_end [OF assms(1), of t] assms(2,3) by (auto simp: common_def upto_docs_def)
  have r: "near = Min ?A" "inv c'" "cur c' = Some near" "rest c' = ?A - {near}"
    using skip_doc [OF assms(1) ne] assms(2) by auto
  have "finite ?A" by simp
  then have mem: "near \<in> ?A" using ne r(1) by simp
  have rem: "remaining cur rest c' = ?A" using r mem by (auto simp: remaining_def)
  have least: "near \<le> d" if "d \<in> ?A" for d using that r(1) by simp
  have "common near (l @ [c']) = common t (c # l)"
    using rem least mem by (auto simp: common_def upto_docs_def)
  then show ?thesis using r mem no_max [OF assms(1)] by (auto simp: upto_docs_def)
qed

lemma skip_front_end:
  assumes "inv c" "skip_op t c = (MAX_DOC_ID, c')"
  shows "inv c' \<and> remaining cur rest c' = {} \<and> common t (c # l) = {}"
proof -
  have e: "upto_docs t (remaining cur rest c) = {}"
  proof (rule ccontr)
    assume ne: "upto_docs t (remaining cur rest c) \<noteq> {}"
    then have "MAX_DOC_ID \<in> upto_docs t (remaining cur rest c)"
      using skip_doc [OF assms(1) ne] assms(2) Min_in [OF _ ne] by simp
    then show False using no_max [OF assms(1)] by (simp add: upto_docs_def)
  qed
  then show ?thesis using skip_end [OF assms(1) e] assms(2) by (auto simp: remaining_def common_def upto_docs_def)
qed

text \<open>What the loops return: the least common document, at which all children stand, or a child at its end.\<close>

definition and_ended :: "'it list \<Rightarrow> bool" where
  "and_ended l \<longleftrightarrow> (\<exists>c\<in>set l. remaining cur rest c = {})"

definition all_at :: "docid \<Rightarrow> 'it list \<Rightarrow> bool" where
  "all_at t l \<longleftrightarrow> (\<forall>c\<in>set l. cur c = Some t)"

lemma all_at_common:
  assumes "\<forall>c\<in>set l. inv c" "all_at t l" "l \<noteq> []"
  shows "t \<in> common t l" "Min (common t l) = t" "\<And>d. \<forall>c\<in>set l. d \<in> remaining cur rest c \<Longrightarrow> d \<in> common t l"
proof -
  show m: "t \<in> common t l" using assms(2) by (simp add: common_def all_at_def remaining_def)
  show "Min (common t l) = t" using m by (intro Min_eqI) (auto simp: common_def)
  show "d \<in> common t l" if "\<forall>c\<in>set l. d \<in> remaining cur rest c" for d
    using that assms at_least_cur by (cases l) (auto simp: common_def all_at_def)
qed

definition loop_result :: "docid \<Rightarrow> 'it list \<Rightarrow> bool \<Rightarrow> docid \<Rightarrow> 'it list \<Rightarrow> bool" where
  "loop_result target l matched t l' \<longleftrightarrow> length l' = length l \<and> (\<forall>c\<in>set l'. inv c) \<and>
     (if common target l = {} then \<not> matched \<and> and_ended l'
      else matched \<and> all_at t l' \<and> common t l' = common target l)"

lemma loop_result_end:
  assumes "\<forall>c\<in>set l. inv c" "l \<noteq> []" "skip_op target (hd l) = (MAX_DOC_ID, c')"
  shows "loop_result target l False t (c' # tl l)"
  using skip_front_end [of "hd l" target c' "tl l"] assms
  by (cases l) (auto simp: loop_result_def and_ended_def)

lemma loop_result_done: "\<forall>c\<in>set l. inv c \<Longrightarrow> all_at t l \<Longrightarrow> l \<noteq> [] \<Longrightarrow> loop_result t l True t l"
  using all_at_common [of l t] by (auto simp: loop_result_def)

lemma loop_result_step:
  assumes "\<forall>c\<in>set l. inv c" "l \<noteq> []" "skip_op target (hd l) = (near, c')" "near \<noteq> MAX_DOC_ID"
    "loop_result near (tl l @ [c']) matched t l'"
  shows "loop_result target l matched t l'"
proof -
  obtain c k where l: "l = c # k" using assms(2) by (cases l) auto
  have "common near (k @ [c']) = common target (c # k)"
    using skip_front [of c target near c' k] assms(1,3,4) l by simp
  then show ?thesis using assms(5) l by (simp add: loop_result_def)
qed

text \<open>The children that have been matched are at the end of the list.\<close>

definition matched_at :: "docid \<Rightarrow> nat \<Rightarrow> 'it list \<Rightarrow> bool" where
  "matched_at t m l \<longleftrightarrow> m \<le> length l \<and> all_at t (drop (length l - m) l)"

lemma matched_rotate:
  assumes "matched_at t m l" "m < length l" "cur c' = Some t"
  shows "matched_at t (m + 1) (tl l @ [c'])"
proof -
  have "drop (length l - 1 - m) (tl l) = drop (length l - m) l"
    using assms(2) by (cases l) (simp_all add: Suc_diff_le)
  then show ?thesis using assms by (cases l) (auto simp: matched_at_def all_at_def)
qed

lemma matched_first: "cur c' = Some t \<Longrightarrow> l \<noteq> [] \<Longrightarrow> matched_at t 1 (tl l @ [c'])"
  by (cases l) (simp_all add: matched_at_def all_at_def)

lemma and_match_loop_spec:
  assumes "it_skipTo ops = skip_op" "\<forall>c\<in>set l. inv c" "n = length l" "matched_at target nMatch l"
    "2 \<le> n" "1 \<le> nMatch" "and_match_loop ops n target nMatch l = (m, t, l')"
  shows "loop_result target l (m = n) t l'"
  using assms
proof (induction ops n target nMatch l rule: and_match_loop.induct)
  case (1 ops n target nMatch l)
  have ne: "l \<noteq> []" using "1.prems"(3,5) by auto
  have tm: "target \<noteq> MAX_DOC_ID"
  proof -
    have "last l \<in> set (drop (length l - nMatch) l)" using ne "1.prems"(6) by (metis last_drop last_in_set drop_eq_Nil
        diff_less length_greater_0_conv not_le less_le_trans zero_less_one)
    then have "cur (last l) = Some target" "inv (last l)" using "1.prems"(2,4) ne by (auto simp: matched_at_def all_at_def)
    then show ?thesis using no_max [of "last l"] by (auto simp: remaining_def)
  qed
  obtain near c' where s: "skip_op target (hd l) = (near, c')" by (metis surj_pair)
  have sl: "(near, c') = it_skipTo ops target (hd l)" using s "1.prems"(1) by simp
  consider (fin) "\<not> nMatch < n" | (max) "nMatch < n" "near = MAX_DOC_ID" | (step) "nMatch < n" "near \<noteq> MAX_DOC_ID" by blast
  then show ?case
  proof cases
    case fin
    then have "(m, t, l') = (nMatch, target, l)"
      using "1.prems"(7) by (subst (asm) and_match_loop.simps) simp
    then show ?thesis using loop_result_done [OF "1.prems"(2) _ ne] fin "1.prems"(3,4) by (simp add: matched_at_def)
  next
    case max
    then have "(m, t, l') = (1, target, c' # tl l)"
      using "1.prems"(7) ne tm sl by (subst (asm) and_match_loop.simps) (auto simp: Let_def split: prod.splits)
    then show ?thesis using loop_result_end [OF "1.prems"(2) ne, of target c'] s max "1.prems"(5) by auto
  next
    case step
    then have g: "nMatch < n \<and> l \<noteq> []" using ne by simp
    have hd: "inv (hd l)" using "1.prems"(2) ne by simp
    note F = skip_front [OF hd s disjI2 [OF step(2)], of "tl l"]
    have inv': "\<forall>c\<in>set (tl l @ [c']). inv c" using F "1.prems"(2) ne list.set_sel(2) by fastforce
    have len: "n = length (tl l @ [c'])" using "1.prems"(3) ne by simp
    show ?thesis
    proof (cases "near = target")
      case eq: True
      have st: "and_match_loop ops n target (nMatch + 1) (tl l @ [c']) = (m, t, l')"
        using "1.prems"(7) g eq sl by (subst (asm) and_match_loop.simps) (auto simp: Let_def split: prod.splits)
      have "matched_at target (nMatch + 1) (tl l @ [c'])"
        using matched_rotate [OF "1.prems"(4)] g F eq "1.prems"(3) by simp
      then have "loop_result target (tl l @ [c']) (m = n) t l'"
        using "1.IH"(1) [OF g sl refl eq "1.prems"(1) inv' len _ "1.prems"(5) _ st] by simp
      then show ?thesis using loop_result_step [OF "1.prems"(2) ne s step(2)] eq by simp
    next
      case neq: False
      then have gt: "near > target" using F by (metis order_le_less)
      have st: "and_match_loop ops n near 1 (tl l @ [c']) = (m, t, l')"
        using "1.prems"(7) g neq step(2) gt sl by (subst (asm) and_match_loop.simps) (auto simp: Let_def split: prod.splits)
      have "matched_at near 1 (tl l @ [c'])" using matched_first [OF _ ne] F by simp
      then have "loop_result near (tl l @ [c']) (m = n) t l'"
        using "1.IH"(2) [OF g sl refl neq step(2) gt "1.prems"(1) inv' len _ "1.prems"(5) _ st] by simp
      then show ?thesis by (rule loop_result_step [OF "1.prems"(2) ne s step(2)])
    qed
  qed
qed

lemma and_skip_loop_spec:
  assumes "it_skipTo ops = skip_op" "\<forall>c\<in>set l. inv c" "n = length l" "matched_at target nMatch l" "l \<noteq> []"
    "nMatch = 0 \<or> nFoundId = target" "and_skip_loop ops n target nMatch nFoundId l = (m, t, found, l')"
  shows "loop_result target l (m = n) t l' \<and> (m = n \<longrightarrow> found = t)"
  using assms
proof (induction ops n target nMatch nFoundId l rule: and_skip_loop.induct)
  case (1 ops n target nMatch nFoundId l)
  obtain near c' where s: "skip_op target (hd l) = (near, c')" by (metis surj_pair)
  have sl: "(near, c') = it_skipTo ops target (hd l)" using s "1.prems"(1) by simp
  consider (fin) "\<not> nMatch < n" | (max) "nMatch < n" "near = MAX_DOC_ID" | (step) "nMatch < n" "near \<noteq> MAX_DOC_ID" by blast
  then show ?case
  proof cases
    case fin
    then have "(m, t, found, l') = (nMatch, target, nFoundId, l)"
      using "1.prems"(7) by (subst (asm) and_skip_loop.simps) simp
    then show ?thesis using loop_result_done [OF "1.prems"(2) _ "1.prems"(5)] fin "1.prems"(3-6)
      by (auto simp: matched_at_def)
  next
    case max
    then have "(m, t, found, l') = (nMatch, target, near, c' # tl l)"
      using "1.prems"(5,7) sl by (subst (asm) and_skip_loop.simps) (auto simp: Let_def split: prod.splits)
    then show ?thesis using loop_result_end [OF "1.prems"(2,5), of target c'] s max by auto
  next
    case step
    then have g: "nMatch < n \<and> l \<noteq> []" using "1.prems"(5) by simp
    have hd: "inv (hd l)" using "1.prems"(2,5) by simp
    note F = skip_front [OF hd s disjI2 [OF step(2)], of "tl l"]
    have inv': "\<forall>c\<in>set (tl l @ [c']). inv c" using F "1.prems"(2,5) list.set_sel(2) by fastforce
    have len: "n = length (tl l @ [c'])" using "1.prems"(3,5) by simp
    show ?thesis
    proof (cases "near = target")
      case eq: True
      have st: "and_skip_loop ops n target (nMatch + 1) near (tl l @ [c']) = (m, t, found, l')"
        using "1.prems"(7) g eq step(2) sl by (subst (asm) and_skip_loop.simps) (auto simp: Let_def split: prod.splits)
      have "matched_at target (nMatch + 1) (tl l @ [c'])"
        using matched_rotate [OF "1.prems"(4)] g F eq "1.prems"(3) by simp
      then have "loop_result target (tl l @ [c']) (m = n) t l' \<and> (m = n \<longrightarrow> found = t)"
        using "1.IH"(1) [OF g sl refl step(2) eq "1.prems"(1) inv' len _ _ _ st] eq by simp
      then show ?thesis using loop_result_step [OF "1.prems"(2,5) s step(2)] eq by simp
    next
      case neq: False
      then have gt: "near > target" using F by (metis order_le_less)
      have st: "and_skip_loop ops n near 1 near (tl l @ [c']) = (m, t, found, l')"
        using "1.prems"(7) g neq step(2) gt sl by (subst (asm) and_skip_loop.simps) (auto simp: Let_def split: prod.splits)
      have "matched_at near 1 (tl l @ [c'])" using matched_first [OF _ "1.prems"(5)] F by simp
      then have "loop_result near (tl l @ [c']) (m = n) t l' \<and> (m = n \<longrightarrow> found = t)"
        using "1.IH"(2) [OF g sl refl step(2) neq gt "1.prems"(1) inv' len _ _ _ st] by simp
      then show ?thesis using loop_result_step [OF "1.prems"(2,5) s step(2)] by blast
    qed
  qed
qed

text \<open>
  The state of a conjunction: its children are all new, all at its current document, or one is at its end.
\<close>

definition and_all :: "'it list \<Rightarrow> docid set" where
  "and_all l = (if l = [] then {} else {d. \<forall>c\<in>set l. d \<in> remaining cur rest c})"

definition and_cur :: "'it and_core \<Rightarrow> docid option" where
  "and_cur st = (if and_docIterList st \<noteq> [] \<and> all_at (and_currDoc st) (and_docIterList st) then Some (and_currDoc st) else None)"

definition and_rest :: "'it and_core \<Rightarrow> docid set" where
  "and_rest st = and_all (and_docIterList st) - set_option (and_cur st)"

definition and_inv :: "'it and_core \<Rightarrow> bool" where
  "and_inv st \<longleftrightarrow> (\<forall>c\<in>set (and_docIterList st). inv c) \<and>
     (and_docIterList st = [] \<or> and_ended (and_docIterList st) \<or>
      all_at (and_currDoc st) (and_docIterList st) \<or> (\<forall>c\<in>set (and_docIterList st). cur c = None))"

lemma common_all: "l \<noteq> [] \<Longrightarrow> common t l = upto_docs t (and_all l)"
  by (auto simp: common_def and_all_def upto_docs_def)

lemma ended_all: "and_ended l \<Longrightarrow> and_all l = {}"
  by (auto simp: and_ended_def and_all_def)

lemma ended_not_at: "and_ended l \<Longrightarrow> \<not> all_at t l"
  by (force simp: and_ended_def all_at_def remaining_def)

lemma and_remaining: "and_inv st \<Longrightarrow> remaining and_cur and_rest st = and_all (and_docIterList st)"
  using all_at_common(1) [of "and_docIterList st" "and_currDoc st"]
  by (auto simp: remaining_def and_rest_def and_cur_def and_inv_def common_all upto_docs_def split: if_splits)

text \<open>The state after a loop.\<close>

lemma loop_result_state:
  assumes "loop_result target l matched t l'" "l \<noteq> []"
  shows "if upto_docs target (and_all l) = {} then \<not> matched \<and> and_ended l' \<and> l' \<noteq> [] \<and> (\<forall>c\<in>set l'. inv c)
    else matched \<and> l' \<noteq> [] \<and> (\<forall>c\<in>set l'. inv c) \<and> all_at t l' \<and> t = Min (upto_docs target (and_all l)) \<and>
      and_all l' = upto_docs target (and_all l)"
proof -
  have ne: "l' \<noteq> []" using assms by (auto simp: loop_result_def)
  have "t = Min (common t l')" "common t l' = and_all l'" if "all_at t l'" "\<forall>c\<in>set l'. inv c"
    using all_at_common [OF that(2,1) ne] ne by (auto simp: and_all_def common_def)
  then have at: "t = Min (and_all l')" "common t l' = and_all l'" if "all_at t l'" "\<forall>c\<in>set l'. inv c"
    using that by simp_all
  have c: "common target l = upto_docs target (and_all l)" by (rule common_all [OF assms(2)])
  show ?thesis
  proof (cases "upto_docs target (and_all l) = {}")
    case True
    then show ?thesis using assms(1) ne c by (simp add: loop_result_def)
  next
    case False
    then have "matched" "all_at t l'" "\<forall>c\<in>set l'. inv c" "common t l' = upto_docs target (and_all l)"
      using assms(1) c by (simp_all add: loop_result_def)
    then show ?thesis using at False ne by simp
  qed
qed

lemma and_do_skipTo_spec:
  assumes "it_skipTo ops = skip_op" "and_inv st"
  shows "let A = upto_docs target (and_all (and_docIterList st)); r = and_do_skipTo ops target st in
    and_inv (snd r) \<and>
    (if A = {} then fst r = MAX_DOC_ID \<and> and_cur (snd r) = None \<and> and_rest (snd r) = {}
     else fst r = Min A \<and> and_cur (snd r) = Some (Min A) \<and> and_rest (snd r) = A - {Min A})"
proof (cases "and_docIterList st = []")
  case True
  then have "and_do_skipTo ops target st = (MAX_DOC_ID, st\<lparr>and_docIterList := [], and_currDoc := target\<rparr>)"
    by (simp add: and_do_skipTo_def and_skip_loop.simps Let_def)
  then show ?thesis using True by (simp add: and_all_def upto_docs_def and_inv_def and_cur_def and_rest_def)
next
  case False
  let ?l = "and_docIterList st"
  let ?A = "upto_docs target (and_all ?l)"
  obtain m t found l' where L: "and_skip_loop ops (length ?l) target 0 MAX_DOC_ID ?l = (m, t, found, l')"
    by (metis prod_cases4)
  have "\<forall>c\<in>set ?l. inv c" using assms(2) by (simp add: and_inv_def)
  then have R: "loop_result target ?l (m = length ?l) t l'" "m = length ?l \<longrightarrow> found = t"
    using and_skip_loop_spec [OF assms(1) _ refl _ False _ L] by (simp_all add: matched_at_def all_at_def)
  note S = loop_result_state [OF R(1) False]
  show ?thesis
  proof (cases "?A = {}")
    case True
    then have "and_do_skipTo ops target st = (MAX_DOC_ID, st\<lparr>and_docIterList := l', and_currDoc := MAX_DOC_ID\<rparr>)"
      using S L by (simp add: and_do_skipTo_def)
    then show ?thesis using S True ended_all [of l'] ended_not_at [of l']
      by (simp add: and_inv_def and_cur_def and_rest_def)
  next
    case False
    then have "and_do_skipTo ops target st = (t, st\<lparr>and_docIterList := l', and_currDoc := t\<rparr>)"
      using S L R(2) by (simp add: and_do_skipTo_def)
    then show ?thesis using S False by (auto simp: and_inv_def and_cur_def and_rest_def)
  qed
qed

lemma and_rest_front:
  assumes "and_inv st" "and_docIterList st = c # k"
  shows "and_rest st = {d \<in> rest c. \<forall>x\<in>set k. d \<in> remaining cur rest x}"
proof -
  have inv: "inv c" using assms by (simp add: and_inv_def)
  consider (e) "and_ended (c # k)" | (at) "all_at (and_currDoc st) (c # k)" | (new) "cur c = None"
    "\<not> all_at (and_currDoc st) (c # k)"
    using assms by (auto simp: and_inv_def)
  then show ?thesis
  proof cases
    case e
    then have "and_rest st = {}" using ended_all assms(2) by (simp add: and_rest_def)
    then show ?thesis using e by (force simp: and_ended_def remaining_def)
  next
    case at
    then have c: "cur c = Some (and_currDoc st)" by (simp add: all_at_def)
    then show ?thesis using at ordered [OF inv c] assms(2)
      by (auto simp: and_rest_def and_cur_def and_all_def remaining_def [of cur rest c])
  next
    case new
    then show ?thesis using assms(2) by (auto simp: and_rest_def and_cur_def and_all_def remaining_def [of cur rest c])
  qed
qed

lemma and_do_next_spec:
  assumes ops: "it_next ops = next_op" "it_doc ops = doc_op" "it_skipTo ops = skip_op" and st: "and_inv st"
  shows "let r = and_do_next ops st in and_inv (snd r) \<and>
    (if and_rest st = {} then \<not> fst r \<and> and_cur (snd r) = None \<and> and_rest (snd r) = {}
     else fst r \<and> and_cur (snd r) = Some (Min (and_rest st)) \<and> and_rest (snd r) = and_rest st - {Min (and_rest st)})"
proof (cases "and_docIterList st")
  case Nil
  then show ?thesis using st by (simp add: and_do_next_def and_rest_def and_all_def and_cur_def)
next
  case (Cons c k)
  obtain ok c' where n: "next_op c = (ok, c')" by (metis surj_pair)
  have inv: "inv c" "\<forall>x\<in>set k. inv x" using st Cons by (simp_all add: and_inv_def)
  note R = and_rest_front [OF st Cons]
  show ?thesis
  proof (cases "rest c = {}")
    case True
    have E: "\<not> ok" "inv c'" "remaining cur rest c' = {}" using next_end [OF inv(1) True] n by (simp_all add: remaining_def)
    then have e: "and_ended (c' # k)" by (simp add: and_ended_def)
    have "and_do_next ops st = (False, st\<lparr>and_docIterList := c' # k\<rparr>)"
      using E n ops Cons by (simp add: and_do_next_def Let_def)
    then show ?thesis using R True E e inv ended_all [OF e] ended_not_at [OF e]
      by (simp add: and_inv_def and_cur_def and_rest_def)
  next
    case False
    let ?t = "Min (rest c)"
    have D: "ok" "inv c'" "cur c' = Some ?t" "rest c' = rest c - {?t}" using next_doc [OF inv(1) False] n by simp_all
    have "?t \<in> rest c" using False by simp
    then have rem: "remaining cur rest c' = rest c" using D by (auto simp: remaining_def)
    have doc: "doc_op c' = ?t" by (rule doc_cur [OF D(2,3)])
    have all: "and_all (k @ [c']) = and_rest st" using rem R by (auto simp: and_all_def)
    have le: "?t \<le> d" if "d \<in> and_rest st" for d using that R by simp
    then have up: "upto_docs ?t (and_all (k @ [c'])) = and_rest st" unfolding all by (auto simp: upto_docs_def)
    show ?thesis
    proof (cases "k = []")
      case True
      then have "and_do_next ops st = (True, st\<lparr>and_docIterList := [c'], and_currDoc := ?t\<rparr>)"
        using D n ops Cons doc by (simp add: and_do_next_def Let_def)
      then show ?thesis using D R True all False by (simp add: and_inv_def and_cur_def and_rest_def all_at_def)
    next
      case two: False
      obtain m t l' where L: "and_match_loop ops (length (c # k)) ?t 1 (k @ [c']) = (m, t, l')" by (metis prod_cases3)
      have nx: "and_do_next ops st =
          (if m = length (c # k) then (True, st\<lparr>and_docIterList := l', and_currDoc := t\<rparr>)
           else (False, st\<lparr>and_docIterList := l'\<rparr>))"
        using D n ops Cons doc two L by (simp add: and_do_next_def Let_def)
      have "matched_at ?t 1 (k @ [c'])" using matched_first [OF D(3), of "c # k"] by simp
      then have "loop_result ?t (k @ [c']) (m = length (c # k)) t l'"
        using and_match_loop_spec [OF ops(3) _ _ _ _ _ L] inv D(2) two by (cases k) auto
      note S = loop_result_state [OF this, unfolded up]
      show ?thesis
      proof (cases "and_rest st = {}")
        case True
        then show ?thesis using S nx ended_all [of l'] ended_not_at [of l']
          by (simp add: and_inv_def and_cur_def and_rest_def)
      next
        case False
        then show ?thesis using S nx by (auto simp: and_inv_def and_cur_def and_rest_def)
      qed
    qed
  qed
qed

definition child_ops :: "'it iter_ops" where
  "child_ops = \<lparr>it_next = next_op, it_doc = doc_op, it_skipTo = skip_op\<rparr>"

text \<open>A conjunction of iterators that keep the contract keeps it: it iterates over the common documents.\<close>

lemma and_contract:
  "doc_iterator (and_do_next child_ops) and_currDoc (and_do_skipTo child_ops) and_inv and_cur and_rest"
proof
  let ?ops = child_ops
  have ops: "it_next ?ops = next_op" "it_doc ?ops = doc_op" "it_skipTo ?ops = skip_op" by (simp_all add: child_ops_def)
  fix st t assume st: "and_inv st"
  note N = and_do_next_spec [OF ops st, unfolded Let_def]
  note S = and_do_skipTo_spec [OF ops(3) st, unfolded Let_def, folded and_remaining [OF st]]
  show "MAX_DOC_ID \<notin> remaining and_cur and_rest st"
    unfolding and_remaining [OF st] using st no_max by (cases "and_docIterList st") (auto simp: and_all_def and_inv_def)
  show "d < x" if d: "and_cur st = Some d" and x: "x \<in> and_rest st" for d x
  proof -
    obtain c k where l: "and_docIterList st = c # k" using d by (cases "and_docIterList st") (auto simp: and_cur_def)
    then have "cur c = Some d" "inv c" using d st by (auto simp: and_cur_def all_at_def and_inv_def split: if_splits)
    then show ?thesis using and_rest_front [OF st l] x ordered by blast
  qed
  show "and_currDoc st = d" if "and_cur st = Some d" for d using that by (simp add: and_cur_def split: if_splits)
  show "\<not> fst (and_do_next ?ops st) \<and> and_inv (snd (and_do_next ?ops st)) \<and>
      and_cur (snd (and_do_next ?ops st)) = None \<and> and_rest (snd (and_do_next ?ops st)) = {}" if "and_rest st = {}"
    using N that by simp
  show "fst (and_do_next ?ops st) \<and> and_inv (snd (and_do_next ?ops st)) \<and>
      and_cur (snd (and_do_next ?ops st)) = Some (Min (and_rest st)) \<and>
      and_rest (snd (and_do_next ?ops st)) = and_rest st - {Min (and_rest st)}" if "and_rest st \<noteq> {}"
    using N that by simp
  show "fst (and_do_skipTo ?ops t st) = MAX_DOC_ID \<and> and_inv (snd (and_do_skipTo ?ops t st)) \<and>
      and_cur (snd (and_do_skipTo ?ops t st)) = None \<and> and_rest (snd (and_do_skipTo ?ops t st)) = {}"
    if "upto_docs t (remaining and_cur and_rest st) = {}" using S [of t] that by simp
  show "fst (and_do_skipTo ?ops t st) = Min (upto_docs t (remaining and_cur and_rest st)) \<and>
      and_inv (snd (and_do_skipTo ?ops t st)) \<and>
      and_cur (snd (and_do_skipTo ?ops t st)) = Some (Min (upto_docs t (remaining and_cur and_rest st))) \<and>
      and_rest (snd (and_do_skipTo ?ops t st)) =
        upto_docs t (remaining and_cur and_rest st) - {Min (upto_docs t (remaining and_cur and_rest st))}"
    if "upto_docs t (remaining and_cur and_rest st) \<noteq> {}" using S [of t] that by simp
qed

end

end
