(* ===== verification/Or_Iterator.thy ===== *)
theory Or_Iterator
  imports Doc_Iterator Priority_Queue
begin

text \<open>
  The disjunction of iterators and the iterator over excluded documents (core/search-manager:
  ORDocumentIterator.h, ORDocumentIterator.cpp, NOTDocumentIterator.h, NOTDocumentIterator.cpp). The children are in
  a vector; a priority queue of izenelib, which is not part of the sources, holds pointers to them, here
  positions in the vector, ordered by the children's current documents. The queue is a parameter.
\<close>

section \<open>State and operations\<close>

text \<open>
  The operations of the queue that compare elements take the current documents of the children.
\<close>

record 'q queue_ops =
  q_new :: "nat \<Rightarrow> 'q"
  q_insert :: "(nat \<Rightarrow> docid) \<Rightarrow> nat \<Rightarrow> 'q \<Rightarrow> 'q"
  q_top :: "'q \<Rightarrow> nat option"
  q_adjustTop :: "(nat \<Rightarrow> docid) \<Rightarrow> 'q \<Rightarrow> 'q"
  q_pop :: "(nat \<Rightarrow> docid) \<Rightarrow> 'q \<Rightarrow> 'q"
  q_elems :: "'q \<Rightarrow> nat list"

text \<open>A child with its flag \<open>current_\<close>; \<open>None\<close> is the null pointer of a child that has been deleted.\<close>

type_synonym 'it store = "('it \<times> bool) option list"

record ('it, 'q) or_core =
  or_docIteratorList :: "'it store"
  or_queue :: "'q option"
  or_currDoc :: docid

definition child :: "'it store \<Rightarrow> nat \<Rightarrow> 'it" where
  "child l i = fst (the (l ! i))"

definition is_current :: "'it store \<Rightarrow> nat \<Rightarrow> bool" where
  "is_current l i = snd (the (l ! i))"

definition present :: "'it store \<Rightarrow> nat \<Rightarrow> bool" where
  "present l i \<longleftrightarrow> i < length l \<and> l ! i \<noteq> None"

definition doc_key :: "'it iter_ops \<Rightarrow> 'it store \<Rightarrow> nat \<Rightarrow> docid" where
  "doc_key ops l i = it_doc ops (child l i)"

fun init_loop :: "'it iter_ops \<Rightarrow> 'q queue_ops \<Rightarrow> nat list \<Rightarrow> 'it store \<Rightarrow> 'q \<Rightarrow> 'it store \<times> 'q" where
  "init_loop ops qops [] l q = (l, q)"
| "init_loop ops qops (i # is) l q =
     (if present l i then
        (let (ok, it) = it_next ops (child l i) in
         if ok then
           (let l' = l[i := Some (it, False)] in init_loop ops qops is l' (q_insert qops (doc_key ops l') i q))
         else init_loop ops qops is (l[i := None]) q)
      else init_loop ops qops is l q)"

definition initDocIteratorQueue :: "'it iter_ops \<Rightarrow> 'q queue_ops \<Rightarrow> ('it, 'q) or_core \<Rightarrow> ('it, 'q) or_core" where
  "initDocIteratorQueue ops qops st =
     (let l = or_docIteratorList st in
      if length l < 1 then st
      else let (l', q) = init_loop ops qops [0..<length l] l (q_new qops (length l))
           in st\<lparr>or_docIteratorList := l', or_queue := Some q\<rparr>)"

definition or_add :: "'it \<Rightarrow> ('it, 'q) or_core \<Rightarrow> ('it, 'q) or_core" where
  "or_add it st = st\<lparr>or_docIteratorList := or_docIteratorList st @ [Some (it, False)]\<rparr>"

text \<open>The flags of the children at positions \<open>is\<close> are set by comparing their documents with \<open>d\<close>.\<close>

fun mark_current :: "'it iter_ops \<Rightarrow> docid \<Rightarrow> nat list \<Rightarrow> 'it store \<Rightarrow> 'it store" where
  "mark_current ops d [] l = l"
| "mark_current ops d (i # is) l =
     mark_current ops d is
       (if present l i then l[i := Some (child l i, d = it_doc ops (child l i))] else l)"

text \<open>The loop that moves the children at the current document on; each step clears a flag.\<close>

definition flags_set :: "'it store \<Rightarrow> nat" where
  "flags_set l = length (filter (\<lambda>x. \<exists>it. x = Some (it, True)) l)"

lemma flags_set_update:
  "i < length l \<Longrightarrow> l ! i = Some (it, True) \<Longrightarrow> flags_set (l[i := Some (it', False)]) < flags_set l"
  by (induction l arbitrary: i) (auto simp: flags_set_def nth_Cons split: nat.splits)

lemma flagged_entry: "present l i \<Longrightarrow> is_current l i \<Longrightarrow> i < length l \<and> l ! i = Some (child l i, True)"
  by (cases "l ! i") (auto simp: present_def is_current_def child_def)

function or_advance :: "'it iter_ops \<Rightarrow> 'q queue_ops \<Rightarrow> 'it store \<Rightarrow> 'q \<Rightarrow> 'it store \<times> 'q" where
  "or_advance ops qops l q =
     (case q_top qops q of
        None \<Rightarrow> (l, q)
      | Some i \<Rightarrow>
          if present l i \<and> is_current l i then
            (let (ok, it) = it_next ops (child l i);
                 l' = l[i := Some (it, False)]
             in or_advance ops qops l' (if ok then q_adjustTop qops (doc_key ops l') q else q_pop qops (doc_key ops l') q))
          else (l, q))"
  by pat_completeness auto
termination
  by (relation "measure (\<lambda>(ops, qops, l, q). flags_set l)") (auto dest!: flagged_entry intro: flags_set_update)

declare or_advance.simps [simp del]

definition or_do_next :: "'it iter_ops \<Rightarrow> 'q queue_ops \<Rightarrow> ('it, 'q) or_core \<Rightarrow> bool \<times> ('it, 'q) or_core" where
  "or_do_next ops qops st0 =
     (case or_queue st0 of
        None \<Rightarrow>
          (let st = initDocIteratorQueue ops qops st0 in
           case or_queue st of
             None \<Rightarrow> (False, st)
           | Some q \<Rightarrow>
               (case q_top qops q of
                  None \<Rightarrow> (False, st)
                | Some i \<Rightarrow>
                    let l = or_docIteratorList st; d = it_doc ops (child l i)
                    in (True, st\<lparr>or_currDoc := d, or_docIteratorList := mark_current ops d (q_elems qops q) l\<rparr>)))
      | Some q0 \<Rightarrow>
          (let (l, q) = or_advance ops qops (or_docIteratorList st0) q0;
               st = st0\<lparr>or_docIteratorList := l, or_queue := Some q\<rparr>
           in case q_top qops q of
                None \<Rightarrow> (False, st)
              | Some i \<Rightarrow>
                  let d = it_doc ops (child l i)
                  in (True, st\<lparr>or_currDoc := d, or_docIteratorList := mark_current ops d [0..<length l] l\<rparr>)))"

text \<open>
  The loop of \<open>do_skipTo\<close>; \<open>None\<close>: it does not end, or reads the top of an empty queue.
\<close>

partial_function (option) or_skip_loop ::
  "'it iter_ops \<Rightarrow> 'q queue_ops \<Rightarrow> docid \<Rightarrow> 'it store \<Rightarrow> 'q \<Rightarrow> (docid \<times> 'it store \<times> 'q) option" where
  "or_skip_loop ops qops target l q =
     (case q_top qops q of
        None \<Rightarrow> None
      | Some i \<Rightarrow>
          let d = it_doc ops (child l i);
              l1 = mark_current ops d [0..<length l] l in
          if d \<ge> target then Some (d, l1, q)
          else
            let (nFoundId, it) = it_skipTo ops target (child l1 i);
                l2 = l1[i := Some (it, is_current l1 i)] in
            if nFoundId = MAX_DOC_ID \<or> nFoundId < target then
              (let q' = q_pop qops (doc_key ops l2) q in
               if length (q_elems qops q') < 1 then Some (MAX_DOC_ID, l2, q')
               else or_skip_loop ops qops target l2 q')
            else or_skip_loop ops qops target l2 (q_adjustTop qops (doc_key ops l2) q))"

definition or_do_skipTo ::
  "'it iter_ops \<Rightarrow> 'q queue_ops \<Rightarrow> docid \<Rightarrow> ('it, 'q) or_core \<Rightarrow> (docid \<times> ('it, 'q) or_core) option" where
  "or_do_skipTo ops qops target st0 =
     (let st = (if or_queue st0 = None then initDocIteratorQueue ops qops st0 else st0) in
      case or_queue st of
        None \<Rightarrow> Some (MAX_DOC_ID, st\<lparr>or_currDoc := MAX_DOC_ID\<rparr>)
      | Some q \<Rightarrow>
          if length (q_elems qops q) < 1 then Some (MAX_DOC_ID, st\<lparr>or_currDoc := MAX_DOC_ID\<rparr>)
          else map_option (\<lambda>(d, l, q'). (d, st\<lparr>or_currDoc := d, or_docIteratorList := l, or_queue := Some q'\<rparr>))
                 (or_skip_loop ops qops target (or_docIteratorList st) q))"

section \<open>What is required of the queue\<close>

text \<open>
  \<open>qinv key q\<close>: the queue is in order for the documents \<open>key\<close>. A change of the document of the top element is
  followed by \<open>adjustTop\<close> or \<open>pop\<close>.
\<close>

locale iter_queue =
  fixes qops :: "'q queue_ops"
    and qinv :: "(nat \<Rightarrow> docid) \<Rightarrow> 'q \<Rightarrow> bool"
    and qcap :: "'q \<Rightarrow> nat"
  assumes new: "n < 2 ^ 32 \<Longrightarrow> qinv key (q_new qops n) \<and> q_elems qops (q_new qops n) = [] \<and> qcap (q_new qops n) = n"
    and insert: "qinv key q \<Longrightarrow> length (q_elems qops q) < qcap q \<Longrightarrow>
      qinv key (q_insert qops key i q) \<and> qcap (q_insert qops key i q) = qcap q \<and>
      mset (q_elems qops (q_insert qops key i q)) = add_mset i (mset (q_elems qops q))"
    and cong: "qinv key q \<Longrightarrow> (\<And>i. i \<in> set (q_elems qops q) \<Longrightarrow> key' i = key i) \<Longrightarrow> qinv key' q"
    and top_None: "qinv key q \<Longrightarrow> q_top qops q = None \<longleftrightarrow> q_elems qops q = []"
    and top_in: "qinv key q \<Longrightarrow> q_top qops q = Some i \<Longrightarrow> i \<in> set (q_elems qops q)"
    and top_min: "qinv key q \<Longrightarrow> q_top qops q = Some i \<Longrightarrow> j \<in> set (q_elems qops q) \<Longrightarrow> key i \<le> key j"
    and adjust: "qinv key q \<Longrightarrow> distinct (q_elems qops q) \<Longrightarrow> q_top qops q = Some i \<Longrightarrow>
      (\<And>j. j \<in> set (q_elems qops q) \<Longrightarrow> j \<noteq> i \<Longrightarrow> key' j = key j) \<Longrightarrow>
      qinv key' (q_adjustTop qops key' q) \<and> mset (q_elems qops (q_adjustTop qops key' q)) = mset (q_elems qops q)"
    and pop: "qinv key q \<Longrightarrow> distinct (q_elems qops q) \<Longrightarrow> q_top qops q = Some i \<Longrightarrow>
      (\<And>j. j \<in> set (q_elems qops q) \<Longrightarrow> j \<noteq> i \<Longrightarrow> key' j = key j) \<Longrightarrow>
      qinv key' (q_pop qops key' q) \<and> add_mset i (mset (q_elems qops (q_pop qops key' q))) = mset (q_elems qops q)"

section \<open>The flags\<close>

lemma mark_length [simp]: "length (mark_current ops d is l) = length l"
  by (induction "is" arbitrary: l) simp_all

lemma mark_entry:
  "mark_current ops d is l ! i =
     (if present l i \<and> i \<in> set is then Some (child l i, d = it_doc ops (child l i)) else l ! i)"
proof (induction "is" arbitrary: l)
  case (Cons j js)
  show ?case using Cons [of "if present l j then l[j := Some (child l j, d = it_doc ops (child l j))] else l"]
    by (cases "i = j") (auto simp: present_def child_def)
qed simp

lemma mark_present [simp]: "present (mark_current ops d is l) i = present l i"
  by (auto simp: present_def mark_entry)

lemma mark_child [simp]: "child (mark_current ops d is l) i = child l i"
  by (auto simp: child_def mark_entry)

lemma mark_is_current: "present l i \<Longrightarrow> i \<in> set is \<Longrightarrow> is_current (mark_current ops d is l) i = (d = it_doc ops (child l i))"
  by (simp add: is_current_def mark_entry)

lemma mark_key [simp]: "doc_key ops (mark_current ops' d is l) = doc_key ops l"
  by (simp add: doc_key_def fun_eq_iff)

lemma update_child: "i < length l \<Longrightarrow> child (l[i := Some (it, f)]) j = (if j = i then it else child l j)"
  by (simp add: child_def)

lemma update_current: "i < length l \<Longrightarrow> is_current (l[i := Some (it, f)]) j = (if j = i then f else is_current l j)"
  by (simp add: is_current_def)

lemma update_present: "i < length l \<Longrightarrow> present (l[i := Some (it, f)]) j = (j = i \<or> present l j)"
  by (auto simp: present_def nth_list_update)

section \<open>The contract of a disjunction\<close>

locale or_parts =
  doc_iterator next_op doc_op skip_op inv cur rest + iter_queue qops qinv qcap
  for next_op :: "'it \<Rightarrow> bool \<times> 'it" and doc_op skip_op inv cur rest
    and qops :: "'q queue_ops" and qinv qcap
begin

abbreviation elems :: "'q \<Rightarrow> nat set" where
  "elems q \<equiv> set (q_elems qops q)"

abbreviation key :: "'it store \<Rightarrow> nat \<Rightarrow> docid" where
  "key l \<equiv> doc_key child_ops l"

text \<open>The children in the queue stand at a document.\<close>

definition good :: "'it store \<Rightarrow> 'q \<Rightarrow> bool" where
  "good l q \<longleftrightarrow> qinv (key l) q \<and> distinct (q_elems qops q) \<and>
     (\<forall>i\<in>elems q. present l i \<and> inv (child l i) \<and> cur (child l i) = Some (key l i))"

definition all_docs :: "'it store \<Rightarrow> 'q \<Rightarrow> docid set" where
  "all_docs l q = (\<Union>i\<in>elems q. remaining cur rest (child l i))"

definition part :: "'it store \<Rightarrow> nat \<Rightarrow> docid set" where
  "part l i = (if is_current l i then rest (child l i) else remaining cur rest (child l i))"

definition todo :: "'it store \<Rightarrow> 'q \<Rightarrow> docid set" where
  "todo l q = (\<Union>i\<in>elems q. part l i)"

lemma key_doc [simp]: "it_doc child_ops = doc_op" "it_next child_ops = next_op" "it_skipTo child_ops = skip_op"
  by (simp_all add: child_ops_def)

lemma next_moves:
  assumes "inv c" "rest c \<noteq> {}" "next_op c = (ok, it)"
  shows "ok" "inv it" "cur it = Some (Min (rest c))" "remaining cur rest it = rest c"
proof -
  have N: "ok" "inv it" "cur it = Some (Min (rest c))" "rest it = rest c - {Min (rest c)}"
    using next_doc [OF assms(1,2)] assms(3) by simp_all
  then show "ok" "inv it" "cur it = Some (Min (rest c))" by simp_all
  have "Min (rest c) \<in> rest c" using assms(2) by simp
  then have "insert (Min (rest c)) (rest c - {Min (rest c)}) = rest c" by (rule insert_Diff)
  then show "remaining cur rest it = rest c" by (simp add: remaining_def N)
qed

lemma goodI:
  assumes "qinv (key l) q" "distinct (q_elems qops q)"
    "\<And>i. i \<in> elems q \<Longrightarrow> present l i \<and> inv (child l i) \<and> cur (child l i) \<noteq> None"
  shows "good l q"
  using assms doc_cur by (fastforce simp: good_def doc_key_def)

lemma good_key_least:
  assumes "good l q" "i \<in> elems q" "x \<in> remaining cur rest (child l i)"
  shows "key l i \<le> x"
  using at_least_cur [of "child l i" "key l i" x] assms by (simp add: good_def)

lemma good_top:
  assumes "good l q" "q_top qops q = Some i"
  shows "i \<in> elems q" "key l i \<in> all_docs l q" "x \<in> all_docs l q \<Longrightarrow> key l i \<le> x" "Min (all_docs l q) = key l i"
proof -
  show i: "i \<in> elems q" using assms top_in by (auto simp: good_def)
  show m: "key l i \<in> all_docs l q" using i assms(1) by (auto simp: all_docs_def good_def remaining_def)
  show le: "key l i \<le> x" if "x \<in> all_docs l q" for x
  proof -
    obtain j where "j \<in> elems q" "x \<in> remaining cur rest (child l j)" using \<open>x \<in> all_docs l q\<close> by (auto simp: all_docs_def)
    then show ?thesis using good_key_least [OF assms(1)] top_min [of "key l" q i j] assms by (force simp: good_def)
  qed
  show "Min (all_docs l q) = key l i" using m le by (intro Min_eqI) auto
qed

lemma good_empty: "good l q \<Longrightarrow> q_elems qops q = [] \<longleftrightarrow> all_docs l q = {}"
  by (cases "q_elems qops q") (auto simp: good_def all_docs_def remaining_def)

lemma good_mark: "good l q \<Longrightarrow> good (mark_current ops d is l) q"
  by (simp add: good_def)

lemma all_docs_mark [simp]: "all_docs (mark_current ops d is l) q = all_docs l q"
  by (simp add: all_docs_def)

text \<open>Marking the children at the least document.\<close>

lemma mark_least:
  assumes "good l q" "q_top qops q = Some i" "elems q \<subseteq> set is"
  defines "l' \<equiv> mark_current child_ops (key l i) is l"
  shows "good l' q" "\<And>j. j \<in> elems q \<Longrightarrow> is_current l' j \<longleftrightarrow> key l j = key l i"
    "todo l' q = all_docs l q - {Min (all_docs l q)}"
proof -
  note T = good_top [OF assms(1,2)]
  show "good l' q" unfolding l'_def by (rule good_mark [OF assms(1)])
  show c: "is_current l' j \<longleftrightarrow> key l j = key l i" if "j \<in> elems q" for j
    using mark_is_current [of l j "is" child_ops "key l i"] that assms(1,3) by (auto simp: l'_def good_def doc_key_def)
  have "part l' j = remaining cur rest (child l j) - {key l i}" if j: "j \<in> elems q" for j
  proof -
    have J: "inv (child l j)" "cur (child l j) = Some (key l j)" using assms(1) j by (simp_all add: good_def)
    have ch: "child l' j = child l j" by (simp add: l'_def)
    show ?thesis
    proof (cases "key l j = key l i")
      case True
      then show ?thesis unfolding part_def ch using c [OF j] J ordered [OF J] by (auto simp: remaining_def)
    next
      case False
      then have "key l i < key l j" using top_min [of "key l" q i j] assms(1,2) j by (simp add: good_def)
      then have "key l i \<notin> remaining cur rest (child l j)" using good_key_least [OF assms(1) j] by (meson leD)
      then show ?thesis unfolding part_def ch using c [OF j] False by simp
    qed
  qed
  then have "todo l' q = all_docs l q - {key l i}" by (auto simp: todo_def all_docs_def)
  then show "todo l' q = all_docs l q - {Min (all_docs l q)}" unfolding T(4) .
qed

text \<open>Replacing the child at the top of the queue.\<close>

lemma replace_top:
  fixes l :: "'it store" and it :: 'it and f :: bool
  assumes g: "good l q" and t: "q_top qops q = Some i" and it: "inv it"
  defines "l' \<equiv> l[i := Some (it, f)]"
  shows "cur it \<noteq> None \<Longrightarrow> good l' (q_adjustTop qops (key l') q) \<and> elems (q_adjustTop qops (key l') q) = elems q"
    "good l' (q_pop qops (key l') q) \<and> elems (q_pop qops (key l') q) = elems q - {i}"
    "\<And>j. child l' j = (if j = i then it else child l j)" "\<And>j. is_current l' j = (if j = i then f else is_current l j)"
proof -
  have q: "qinv (key l) q" "distinct (q_elems qops q)" using g by (simp_all add: good_def)
  have i: "i \<in> elems q" "i < length l" using good_top(1) [OF g t] g by (auto simp: good_def present_def)
  show ch: "child l' j = (if j = i then it else child l j)" for j unfolding l'_def by (rule update_child [OF i(2)])
  show "is_current l' j = (if j = i then f else is_current l j)" for j unfolding l'_def by (rule update_current [OF i(2)])
  have pr: "present l' j" if "present l j" for j using that by (simp add: l'_def update_present [OF i(2)])
  have ks: "key l' j = key l j" if "j \<in> elems q" "j \<noteq> i" for j using that ch by (simp add: doc_key_def)
  have ok: "present l' j \<and> inv (child l' j) \<and> cur (child l' j) \<noteq> None"
    if "j \<in> elems q" "j = i \<longrightarrow> cur it \<noteq> None" for j
    using that g pr ch it by (auto simp: good_def)
  show "good l' (q_adjustTop qops (key l') q) \<and> elems (q_adjustTop qops (key l') q) = elems q" if "cur it \<noteq> None"
  proof -
    have A: "qinv (key l') (q_adjustTop qops (key l') q)"
      "mset (q_elems qops (q_adjustTop qops (key l') q)) = mset (q_elems qops q)"
      using adjust [OF q t, of "key l'"] ks by blast+
    have e: "elems (q_adjustTop qops (key l') q) = elems q" by (rule mset_eq_setD [OF A(2)])
    have "distinct (q_elems qops (q_adjustTop qops (key l') q))" using q(2) mset_eq_imp_distinct_iff [OF A(2)] by simp
    then show ?thesis using goodI [OF A(1)] ok that e by blast
  qed
  have P: "qinv (key l') (q_pop qops (key l') q)"
    "add_mset i (mset (q_elems qops (q_pop qops (key l') q))) = mset (q_elems qops q)"
    using pop [OF q t, of "key l'"] ks by blast+
  have "mset (i # q_elems qops (q_pop qops (key l') q)) = mset (q_elems qops q)" using P(2) by simp
  from mset_eq_setD [OF this] mset_eq_imp_distinct_iff [OF this]
  have e: "elems (q_pop qops (key l') q) = elems q - {i}" "distinct (q_elems qops (q_pop qops (key l') q))"
    using q(2) by auto
  then show "good l' (q_pop qops (key l') q) \<and> elems (q_pop qops (key l') q) = elems q - {i}"
    using goodI [OF P(1)] ok by blast
qed

text \<open>The loop of \<open>do_next\<close>: children at document \<open>d\<close> have their flag set, all others are beyond it.\<close>

definition flags_at :: "docid \<Rightarrow> 'it store \<Rightarrow> 'q \<Rightarrow> bool" where
  "flags_at d l q \<longleftrightarrow> (\<forall>i\<in>elems q. if is_current l i then key l i = d else d < key l i)"

lemma or_advance_spec:
  assumes "good l q" "flags_at d l q" "or_advance child_ops qops l q = (l', q')"
  shows "good l' q' \<and> all_docs l' q' = todo l q \<and> length l' = length l"
  using assms
proof (induction "flags_set l" arbitrary: l q rule: less_induct)
  case less
  note g = less.prems(1)
  show ?case
  proof (cases "q_top qops q")
    case None
    then have "elems q = {}" "(l', q') = (l, q)"
      using top_None [of "key l" q] g less.prems(3) by (auto simp: good_def or_advance.simps)
    then show ?thesis using g by (simp add: all_docs_def todo_def)
  next
    case (Some i)
    have i: "i \<in> elems q" "present l i" "i < length l" "inv (child l i)" "cur (child l i) = Some (key l i)"
      using good_top(1) [OF g Some] g by (auto simp: good_def present_def)
    show ?thesis
    proof (cases "is_current l i")
      case True
      obtain ok it where n: "next_op (child l i) = (ok, it)" by (metis surj_pair)
      let ?l = "l[i := Some (it, False)]"
      let ?q = "if ok then q_adjustTop qops (key ?l) q else q_pop qops (key ?l) q"
      have st: "or_advance child_ops qops ?l ?q = (l', q')"
        using less.prems(3) Some True i n by (subst (asm) or_advance.simps) (simp add: Let_def split: if_splits)
      have k: "key l i = d" using less.prems(2) True i by (simp add: flags_at_def)
      have step: "good ?l ?q \<and> flags_at d ?l ?q \<and> todo ?l ?q = todo l q"
      proof (cases "rest (child l i) = {}")
        case e: True
        have E: "\<not> ok" "inv it" "cur it = None" using next_end [OF i(4) e] n by simp_all
        note R = replace_top [OF g Some E(2), of False]
        have "flags_at d ?l ?q" using R E less.prems(2) by (auto simp: flags_at_def doc_key_def)
        moreover have "todo ?l ?q = todo l q"
        proof -
          have "part ?l j = part l j" if "j \<noteq> i" for j using that R(3,4) by (simp add: part_def)
          then have "todo ?l ?q = (\<Union>j\<in>elems q - {i}. part l j)"
            unfolding todo_def using R(2) E(1) by (intro SUP_cong) simp_all
          moreover have "part l i = {}" using True e by (simp add: part_def)
          ultimately show ?thesis by (auto simp: todo_def)
        qed
        ultimately show ?thesis using R(2) E by simp
      next
        case ne: False
        note D = next_moves [OF i(4) ne n]
        note R = replace_top [OF g Some D(2), of False]
        have "d < Min (rest (child l i))" using ordered [OF i(4,5)] k ne by simp
        moreover have "doc_op it = Min (rest (child l i))" by (rule doc_cur [OF D(2,3)])
        ultimately have "flags_at d ?l ?q" using R D less.prems(2) by (auto simp: flags_at_def doc_key_def)
        moreover have "todo ?l ?q = todo l q"
        proof -
          have "part ?l j = part l j" for j using R(3,4) D(4) True by (simp add: part_def)
          then show ?thesis unfolding todo_def using R(1) D(1,3) by (intro SUP_cong) simp_all
        qed
        ultimately show ?thesis using R(1) D by simp
      qed
      have "good l' q' \<and> all_docs l' q' = todo ?l ?q \<and> length l' = length ?l"
        by (rule less.hyps) (use flags_set_update flagged_entry [OF i(2) True] step st in auto)
      then show ?thesis using step by simp
    next
      case False
      then have r: "(l', q') = (l, q)" using less.prems(3) Some by (simp add: or_advance.simps)
      have "\<not> is_current l j" if "j \<in> elems q" for j
        using top_min [of "key l" q i j] less.prems(1,2) Some False i(1) that by (force simp: flags_at_def good_def)
      then have "todo l q = all_docs l q" unfolding all_docs_def todo_def part_def by (intro SUP_cong) simp_all
      then show ?thesis using r g by simp
    qed
  qed
qed

definition fresh_docs :: "'it store \<Rightarrow> nat list \<Rightarrow> docid set" where
  "fresh_docs l is = (\<Union>i\<in>set is. if present l i then rest (child l i) else {})"

lemma update_other: "j \<noteq> i \<Longrightarrow> child (l[i := v]) j = child l j \<and> present (l[i := v]) j = present l j"
  by (auto simp: child_def present_def)

lemma fresh_other: "i \<notin> set js \<Longrightarrow> fresh_docs (l[i := v]) js = fresh_docs l js"
  unfolding fresh_docs_def
proof (intro SUP_cong refl)
  fix j assume "i \<notin> set js" "j \<in> set js"
  then have "j \<noteq> i" by blast
  then show "(if present (l[i := v]) j then rest (child (l[i := v]) j) else {}) = (if present l j then rest (child l j) else {})"
    using update_other [of j i l v] by simp
qed

lemma fresh_inv_other:
  "i \<notin> set js \<Longrightarrow> \<forall>j\<in>set js. present l j \<longrightarrow> inv (child l j) \<Longrightarrow>
   \<forall>j\<in>set js. present (l[i := v]) j \<longrightarrow> inv (child (l[i := v]) j)"
  using update_other [of _ i l v] by metis

text \<open>A child that is not in the queue is replaced.\<close>

lemma good_other:
  assumes "good l q" "i \<notin> elems q"
  shows "good (l[i := v]) q" "all_docs (l[i := v]) q = all_docs l q"
proof -
  have same: "child (l[i := v]) j = child l j" "present (l[i := v]) j = present l j" if "j \<in> elems q" for j
    using update_other [of j i l v] assms(2) that by (cases "j = i"; simp)+
  have "key (l[i := v]) j = key l j" if "j \<in> elems q" for j using same(1) [OF that] by (simp add: doc_key_def)
  then have "qinv (key (l[i := v])) q" using cong [of "key l" q "key (l[i := v])"] assms(1) by (simp add: good_def)
  then show "good (l[i := v]) q" by (rule goodI) (use assms(1) same in \<open>auto simp: good_def\<close>)
  show "all_docs (l[i := v]) q = all_docs l q" unfolding all_docs_def by (intro SUP_cong) (use same in simp_all)
qed

lemma good_insert:
  assumes "good l q" "i \<notin> elems q" "i < length l" "length (q_elems qops q) < qcap q" "inv it" "cur it \<noteq> None"
  defines "l' \<equiv> l[i := Some (it, False)]"
  defines "q' \<equiv> q_insert qops (key l') i q"
  shows "good l' q'" "elems q' = insert i (elems q)" "length (q_elems qops q') = Suc (length (q_elems qops q))"
    "qcap q' = qcap q" "all_docs l' q' = all_docs l q \<union> remaining cur rest it"
proof -
  have g: "good l' q" "all_docs l' q = all_docs l q" unfolding l'_def by (rule good_other [OF assms(1,2)])+
  have I: "qinv (key l') q'" "qcap q' = qcap q" "mset (q_elems qops q') = mset (i # q_elems qops q)"
    using insert [of "key l'" q i] g(1) assms(4) by (simp_all add: good_def q'_def)
  show e: "elems q' = insert i (elems q)" "length (q_elems qops q') = Suc (length (q_elems qops q))"
    using mset_eq_setD [OF I(3)] mset_eq_length [OF I(3)] by simp_all
  have d: "distinct (q_elems qops q')" using mset_eq_imp_distinct_iff [OF I(3)] g(1) assms(2) by (simp add: good_def)
  have ch: "child l' i = it" "present l' i" unfolding l'_def using assms(3) by (simp_all add: child_def present_def)
  show "good l' q'" by (rule goodI [OF I(1) d]) (use e(1) g(1) ch assms(5,6) in \<open>auto simp: good_def\<close>)
  show "qcap q' = qcap q" by (rule I(2))
  show "all_docs l' q' = all_docs l q \<union> remaining cur rest it"
    using e(1) ch(1) g(2) by (auto simp: all_docs_def)
qed

lemma init_loop_spec:
  assumes "good l q" "distinct is" "set is \<inter> elems q = {}" "length (q_elems qops q) + length is \<le> qcap q"
    "\<forall>i\<in>set is. present l i \<longrightarrow> inv (child l i)" "init_loop child_ops qops is l q = (l', q')"
  shows "good l' q' \<and> length l' = length l \<and> all_docs l' q' = all_docs l q \<union> fresh_docs l is"
  using assms
proof (induction "is" arbitrary: l q)
  case Nil
  then show ?case by (simp add: fresh_docs_def)
next
  case (Cons i js)
  have ij: "i \<notin> set js" "distinct js" "i \<notin> elems q" "set js \<inter> elems q = {}" using Cons.prems(2,3) by auto
  show ?case
  proof (cases "present l i")
    case False
    then show ?thesis using Cons.IH [OF Cons.prems(1) ij(2,4)] Cons.prems by (simp add: fresh_docs_def)
  next
    case True
    have il: "i < length l" "inv (child l i)" using True Cons.prems(5) by (auto simp: present_def)
    have F: "fresh_docs l (i # js) = rest (child l i) \<union> fresh_docs l js" using True by (simp add: fresh_docs_def)
    have js: "\<forall>j\<in>set js. present l j \<longrightarrow> inv (child l j)" using Cons.prems(5) by simp
    obtain ok it where n: "next_op (child l i) = (ok, it)" by (metis surj_pair)
    show ?thesis
    proof (cases "rest (child l i) = {}")
      case e: True
      let ?l = "l[i := None]"
      have "\<not> ok" using next_end [OF il(2) e] n by simp
      then have st: "init_loop child_ops qops js ?l q = (l', q')" using Cons.prems(6) True n by (simp add: Let_def)
      have "good l' q' \<and> length l' = length ?l \<and> all_docs l' q' = all_docs ?l q \<union> fresh_docs ?l js"
        by (rule Cons.IH [OF good_other(1) [OF Cons.prems(1) ij(3)] ij(2,4) _ fresh_inv_other [OF ij(1) js] st])
          (use Cons.prems(4) in simp)
      then show ?thesis using F e good_other(2) [OF Cons.prems(1) ij(3)] fresh_other [OF ij(1)] by simp
    next
      case ne: False
      note M = next_moves [OF il(2) ne n]
      have D: "ok" "inv it" "cur it \<noteq> None" "remaining cur rest it = rest (child l i)" using M by simp_all
      let ?l = "l[i := Some (it, False)]"
      let ?q = "q_insert qops (key ?l) i q"
      have st: "init_loop child_ops qops js ?l ?q = (l', q')" using Cons.prems(6) True n D(1) by (simp add: Let_def)
      have c: "length (q_elems qops q) < qcap q" using Cons.prems(4) by simp
      note G = good_insert [OF Cons.prems(1) ij(3) il(1) c D(2,3)]
      have "good l' q' \<and> length l' = length ?l \<and> all_docs l' q' = all_docs ?l ?q \<union> fresh_docs ?l js"
        by (rule Cons.IH [OF G(1) ij(2) _ _ fresh_inv_other [OF ij(1) js] st])
          (use Cons.prems(4) G(2-4) ij in auto)
      then show ?thesis using F G(5) D(4) fresh_other [OF ij(1)] by (simp add: Un_assoc)
    qed
  qed
qed

text \<open>The state of a disjunction.\<close>

definition or_inv :: "('it, 'q) or_core \<Rightarrow> bool" where
  "or_inv st \<longleftrightarrow> length (or_docIteratorList st) < 2 ^ 32 \<and>
     (case or_queue st of
        None \<Rightarrow> \<forall>i. present (or_docIteratorList st) i \<longrightarrow> inv (child (or_docIteratorList st) i)
      | Some q \<Rightarrow> good (or_docIteratorList st) q \<and>
          (elems q \<noteq> {} \<longrightarrow> or_currDoc st = Min (all_docs (or_docIteratorList st) q)) \<and>
          (\<forall>i\<in>elems q. is_current (or_docIteratorList st) i \<longleftrightarrow> key (or_docIteratorList st) i = or_currDoc st))"

definition or_cur :: "('it, 'q) or_core \<Rightarrow> docid option" where
  "or_cur st = (case or_queue st of None \<Rightarrow> None | Some q \<Rightarrow> if elems q = {} then None else Some (or_currDoc st))"

definition or_rest :: "('it, 'q) or_core \<Rightarrow> docid set" where
  "or_rest st =
     (case or_queue st of
        None \<Rightarrow> fresh_docs (or_docIteratorList st) [0..<length (or_docIteratorList st)]
      | Some q \<Rightarrow> all_docs (or_docIteratorList st) q - set_option (or_cur st))"

lemma or_remaining:
  assumes "or_inv st" "or_queue st = Some q"
  shows "remaining or_cur or_rest st = all_docs (or_docIteratorList st) q"
proof (cases "elems q = {}")
  case True
  then show ?thesis using assms by (simp add: remaining_def or_cur_def or_rest_def)
next
  case False
  let ?l = "or_docIteratorList st"
  have "good ?l q" "or_currDoc st = Min (all_docs ?l q)" using assms False by (simp_all add: or_inv_def)
  moreover from this have "all_docs ?l q \<noteq> {}" using good_empty False by auto
  ultimately have "or_currDoc st \<in> all_docs ?l q" using Min_in by simp
  then show ?thesis using assms False by (auto simp: remaining_def or_cur_def or_rest_def)
qed

lemma flags_at_inv:
  assumes "or_inv st" "or_queue st = Some q"
  shows "flags_at (or_currDoc st) (or_docIteratorList st) q" "todo (or_docIteratorList st) q = or_rest st"
proof -
  let ?l = "or_docIteratorList st"
  have g: "good ?l q" and F: "\<And>i. i \<in> elems q \<Longrightarrow> is_current ?l i \<longleftrightarrow> key ?l i = or_currDoc st"
    using assms by (simp_all add: or_inv_def)
  have m: "or_currDoc st = Min (all_docs ?l q)" if "i \<in> elems q" for i using assms that by (auto simp: or_inv_def)
  have mem: "key ?l i \<in> all_docs ?l q" if "i \<in> elems q" for i
    using g that by (auto simp: good_def all_docs_def remaining_def)
  have le: "or_currDoc st \<le> key ?l i" if "i \<in> elems q" for i unfolding m [OF that] using mem [OF that] by simp
  show "flags_at (or_currDoc st) ?l q" unfolding flags_at_def
  proof
    fix i assume i: "i \<in> elems q"
    show "if is_current ?l i then key ?l i = or_currDoc st else or_currDoc st < key ?l i"
      using F [OF i] le [OF i] by (simp add: order_less_le)
  qed
  have "part ?l i = remaining cur rest (child ?l i) - {or_currDoc st}" if i: "i \<in> elems q" for i
  proof -
    have J: "inv (child ?l i)" "cur (child ?l i) = Some (key ?l i)" using g i by (simp_all add: good_def)
    show ?thesis
    proof (cases "key ?l i = or_currDoc st")
      case True
      then show ?thesis using F [OF i] J ordered [OF J] by (auto simp: part_def remaining_def)
    next
      case False
      then have "or_currDoc st < key ?l i" using le [OF i] by (simp add: order_less_le)
      then have "or_currDoc st \<notin> remaining cur rest (child ?l i)" using good_key_least [OF g i] by (meson leD)
      then show ?thesis using F [OF i] False by (simp add: part_def)
    qed
  qed
  then have t: "todo ?l q = all_docs ?l q - {or_currDoc st}" by (auto simp: todo_def all_docs_def)
  show "todo ?l q = or_rest st"
  proof (cases "elems q = {}")
    case True
    then have "all_docs ?l q = {}" by (simp add: all_docs_def)
    then show ?thesis using t True assms(2) by (simp add: or_rest_def)
  next
    case False
    then show ?thesis using t assms(2) by (simp add: or_rest_def or_cur_def)
  qed
qed

text \<open>Standing at the least document of the queue, with the flags set.\<close>

lemma settled:
  fixes st :: "('it, 'q) or_core"
  assumes "good l q" "q_top qops q = Some i" "elems q \<subseteq> set is" "length l < 2 ^ 32"
  defines "st' \<equiv> st\<lparr>or_queue := Some q, or_currDoc := key l i, or_docIteratorList := mark_current child_ops (key l i) is l\<rparr>"
  shows "or_inv st' \<and> or_cur st' = Some (Min (all_docs l q)) \<and> or_rest st' = all_docs l q - {Min (all_docs l q)}"
proof -
  note M = mark_least [OF assms(1-3)] and T = good_top [OF assms(1,2)]
  have "or_inv st'" using M T(4) assms(4) by (simp add: or_inv_def st'_def)
  then show ?thesis using T by (auto simp: st'_def or_cur_def or_rest_def)
qed

lemma settled_end:
  assumes "good l q" "q_elems qops q = []" "length l < 2 ^ 32" "or_queue st' = Some q" "or_docIteratorList st' = l"
  shows "or_inv st' \<and> or_cur st' = None \<and> or_rest st' = {}"
  using assms by (simp add: or_inv_def or_cur_def or_rest_def all_docs_def)

lemma init_queue:
  assumes "or_inv st" "or_queue st = None"
  shows "(or_docIteratorList st = [] \<and> initDocIteratorQueue child_ops qops st = st \<and> or_rest st = {}) \<or>
    (\<exists>l q. initDocIteratorQueue child_ops qops st = st\<lparr>or_docIteratorList := l, or_queue := Some q\<rparr> \<and>
      good l q \<and> length l < 2 ^ 32 \<and> all_docs l q = or_rest st)"
proof (cases "or_docIteratorList st = []")
  case True
  then show ?thesis using assms by (simp add: initDocIteratorQueue_def or_rest_def fresh_docs_def)
next
  case False
  let ?l = "or_docIteratorList st"
  let ?q = "q_new qops (length ?l)"
  obtain l q where L: "init_loop child_ops qops [0..<length ?l] ?l ?q = (l, q)" by (metis surj_pair)
  have n: "length ?l < 2 ^ 32" using assms(1) by (simp add: or_inv_def)
  have Q: "qinv (key ?l) ?q" "q_elems qops ?q = []" "qcap ?q = length ?l" using new [OF n, of "key ?l"] by simp_all
  have "good ?l ?q" using Q by (simp add: good_def)
  then have "good l q \<and> length l = length ?l \<and> all_docs l q = all_docs ?l ?q \<union> fresh_docs ?l [0..<length ?l]"
    using init_loop_spec [OF _ _ _ _ _ L] Q assms by (simp add: or_inv_def)
  moreover have "all_docs ?l ?q = {}" using Q(2) by (simp add: all_docs_def)
  moreover have "initDocIteratorQueue child_ops qops st = st\<lparr>or_docIteratorList := l, or_queue := Some q\<rparr>"
    using L False by (simp add: initDocIteratorQueue_def Let_def Suc_le_eq)
  ultimately show ?thesis using n assms(2) by (auto simp: or_rest_def)
qed

lemma or_do_next_spec:
  assumes "or_inv st"
  shows "let r = or_do_next child_ops qops st in or_inv (snd r) \<and>
    (if or_rest st = {} then \<not> fst r \<and> or_cur (snd r) = None \<and> or_rest (snd r) = {}
     else fst r \<and> or_cur (snd r) = Some (Min (or_rest st)) \<and> or_rest (snd r) = or_rest st - {Min (or_rest st)})"
proof (cases "or_queue st")
  case None
  consider (none) "initDocIteratorQueue child_ops qops st = st" "or_rest st = {}"
    | (some) l q where "initDocIteratorQueue child_ops qops st = st\<lparr>or_docIteratorList := l, or_queue := Some q\<rparr>"
      "good l q" "length l < 2 ^ 32" "all_docs l q = or_rest st"
    using init_queue [OF assms None] by blast
  then show ?thesis
  proof cases
    case none
    then show ?thesis using None assms by (simp add: or_do_next_def or_cur_def)
  next
    case some
    show ?thesis
    proof (cases "q_top qops q")
      case t: None
      then have e: "q_elems qops q = []" using top_None some(2) by (auto simp: good_def)
      have r: "or_do_next child_ops qops st = (False, st\<lparr>or_docIteratorList := l, or_queue := Some q\<rparr>)"
        using None some(1) t by (simp add: or_do_next_def)
      have "or_rest st = {}" using good_empty [OF some(2)] e some(4) by simp
      then show ?thesis unfolding r using settled_end [OF some(2) e some(3)] by simp
    next
      case t: (Some i)
      have r: "or_do_next child_ops qops st =
          (True, st\<lparr>or_queue := Some q, or_currDoc := key l i, or_docIteratorList := mark_current child_ops (key l i) (q_elems qops q) l\<rparr>)"
        using None some(1) t by (simp add: or_do_next_def Let_def doc_key_def)
      have "or_rest st \<noteq> {}" using good_top(2) [OF some(2) t] some(4) by auto
      then show ?thesis unfolding r using settled [OF some(2) t subset_refl some(3), of st] some(4) by simp
    qed
  qed
next
  case (Some q0)
  let ?l0 = "or_docIteratorList st"
  obtain l q where A: "or_advance child_ops qops ?l0 q0 = (l, q)" by (metis surj_pair)
  have g0: "good ?l0 q0" "length ?l0 < 2 ^ 32" using assms Some by (simp_all add: or_inv_def)
  have G: "good l q" "all_docs l q = or_rest st" "length l < 2 ^ 32"
    using or_advance_spec [OF g0(1) flags_at_inv(1) [OF assms Some] A] flags_at_inv(2) [OF assms Some] g0(2) by simp_all
  show ?thesis
  proof (cases "q_top qops q")
    case t: None
    then have e: "q_elems qops q = []" using top_None G(1) by (auto simp: good_def)
    have r: "or_do_next child_ops qops st = (False, st\<lparr>or_docIteratorList := l, or_queue := Some q\<rparr>)"
      using Some A t by (simp add: or_do_next_def)
    have "or_rest st = {}" using good_empty [OF G(1)] e G(2) by simp
    then show ?thesis unfolding r using settled_end [OF G(1) e G(3)] by simp
  next
    case t: (Some i)
    have sub: "elems q \<subseteq> set [0..<length l]" using G(1) by (auto simp: good_def present_def)
    have r: "or_do_next child_ops qops st =
        (True, st\<lparr>or_queue := Some q, or_currDoc := key l i, or_docIteratorList := mark_current child_ops (key l i) [0..<length l] l\<rparr>)"
      using Some A t by (simp add: or_do_next_def Let_def doc_key_def)
    have "or_rest st \<noteq> {}" using good_top(2) [OF G(1) t] G(2) by auto
    then show ?thesis unfolding r using settled [OF G(1) t sub G(3), of st] G(2) by simp
  qed
qed

text \<open>The loop of \<open>do_skipTo\<close> ends: a step removes a child before the target or moves it to the target or beyond.\<close>

definition behind :: "docid \<Rightarrow> 'it store \<Rightarrow> 'q \<Rightarrow> nat set" where
  "behind t l q = {i \<in> elems q. key l i < t}"

lemma upto_docs_Un: "upto_docs t (A \<union> B) = upto_docs t A \<union> upto_docs t B"
  by (auto simp: upto_docs_def)

lemma all_docs_split: "i \<in> elems q \<Longrightarrow>
    all_docs l q = remaining cur rest (child l i) \<union> (\<Union>j\<in>elems q - {i}. remaining cur rest (child l j))"
  by (auto simp: all_docs_def)

lemma skip_child:
  fixes f :: bool
  assumes g: "good l q" and t: "q_top qops q = Some i" and lt: "key l i < target"
    and s: "skip_op target (child l i) = (found, it)"
  defines "l' \<equiv> l[i := Some (it, f)]"
  defines "q' \<equiv> if found = MAX_DOC_ID \<or> found < target then q_pop qops (key l') q else q_adjustTop qops (key l') q"
  shows "good l' q' \<and> upto_docs target (all_docs l' q') = upto_docs target (all_docs l q) \<and>
    card (behind target l' q') < card (behind target l q) \<and>
    (\<not> (found = MAX_DOC_ID \<or> found < target) \<longrightarrow> q_elems qops q' \<noteq> [])"
proof -
  let ?c = "child l i" and ?B = "\<Union>j\<in>elems q - {i}. remaining cur rest (child l j)"
  let ?A = "upto_docs target (remaining cur rest ?c)"
  have i: "i \<in> elems q" "inv ?c" using good_top(1) [OF g t] g by (simp_all add: good_def)
  have D: "upto_docs target (all_docs l q) = ?A \<union> upto_docs target ?B"
    unfolding all_docs_split [OF i(1)] upto_docs_Un ..
  have ib: "i \<in> behind target l q" using i(1) lt by (simp add: behind_def)
  have less: "card (behind target l' q') < card (behind target l q)"
    if "behind target l' q' \<subseteq> behind target l q - {i}"
    by (rule psubset_card_mono) (use that ib in \<open>auto simp: behind_def\<close>)
  show ?thesis
  proof (cases "?A = {}")
    case True
    have E: "found = MAX_DOC_ID" "inv it" using skip_end [OF i(2) True] s by simp_all
    note R = replace_top [OF g t E(2), of f, folded l'_def]
    have q': "q' = q_pop qops (key l') q" using E(1) by (simp add: q'_def)
    have P: "good l' q'" "elems q' = elems q - {i}" using R(2) q' by simp_all
    have "all_docs l' q' = ?B" unfolding all_docs_def P(2) by (intro SUP_cong) (simp_all add: R(3))
    moreover have "behind target l' q' \<subseteq> behind target l q - {i}" using P(2) R(3) by (auto simp: behind_def doc_key_def)
    ultimately show ?thesis using P(1) less D True E(1) by simp
  next
    case False
    have E: "found = Min ?A" "inv it" "cur it = Some found" "rest it = ?A - {found}"
      using skip_doc [OF i(2) False] s by simp_all
    have m: "found \<in> ?A" using Min_in [OF _ False] E(1) by simp
    then have rem: "remaining cur rest it = ?A" using insert_Diff [OF m] by (simp add: remaining_def E(3,4))
    have ok: "\<not> (found = MAX_DOC_ID \<or> found < target)" using m no_max [OF i(2)] by (auto simp: upto_docs_def)
    note R = replace_top [OF g t E(2), of f, folded l'_def]
    have q': "q' = q_adjustTop qops (key l') q" using ok by (simp add: q'_def)
    have P: "good l' q'" "elems q' = elems q" using R(1) E(3) q' by simp_all
    have kf: "key l' i = found" using doc_cur [OF E(2,3)] R(3) by (simp add: doc_key_def)
    have i': "i \<in> elems q'" using i(1) P(2) by simp
    have "(\<Union>j\<in>elems q' - {i}. remaining cur rest (child l' j)) = ?B" unfolding P(2) by (intro SUP_cong) (simp_all add: R(3))
    then have "all_docs l' q' = ?A \<union> ?B" using all_docs_split [OF i', of l'] R(3) rem by simp
    moreover have "upto_docs target ?A = ?A" by (auto simp: upto_docs_def)
    moreover have "behind target l' q' \<subseteq> behind target l q - {i}"
      using P(2) R(3) ok kf by (auto simp: behind_def doc_key_def)
    ultimately show ?thesis using P less D i' by (auto simp: upto_docs_Un)
  qed
qed

lemma or_skip_loop_spec:
  assumes "good l q" "q_elems qops q \<noteq> []"
  shows "\<exists>d l' q'. or_skip_loop child_ops qops target l q = Some (d, l', q') \<and> good l' q' \<and> length l' = length l \<and>
    (let A = upto_docs target (all_docs l q) in
     if A = {} then d = MAX_DOC_ID \<and> q_elems qops q' = []
     else d = Min A \<and> all_docs l' q' = A \<and> q_elems qops q' \<noteq> [] \<and> (\<forall>j\<in>elems q'. is_current l' j \<longleftrightarrow> key l' j = d))"
  using assms
proof (induction "card (behind target l q)" arbitrary: l q rule: less_induct)
  case less
  note g = less.prems(1)
  obtain i where t: "q_top qops q = Some i" using top_None [of "key l" q] g less.prems(2) by (auto simp: good_def)
  note T = good_top [OF g t]
  let ?d = "key l i"
  let ?l1 = "mark_current child_ops ?d [0..<length l] l"
  have sub: "elems q \<subseteq> set [0..<length l]" using g by (auto simp: good_def present_def)
  note M = mark_least [OF g t sub]
  show ?case
  proof (cases "?d \<ge> target")
    case True
    have A: "upto_docs target (all_docs l q) = all_docs l q" using T(3) True by (auto simp: upto_docs_def intro: order_trans)
    have "or_skip_loop child_ops qops target l q = Some (?d, ?l1, q)"
      using t True by (subst or_skip_loop.simps) (simp add: Let_def doc_key_def)
    then show ?thesis using A T(2,4) M(1,2) less.prems(2) by auto
  next
    case False
    then have lt: "key ?l1 i < target" by simp
    obtain found it where s: "skip_op target (child ?l1 i) = (found, it)" by (metis surj_pair)
    let ?pop = "found = MAX_DOC_ID \<or> found < target"
    define l2 where "l2 = ?l1[i := Some (it, is_current ?l1 i)]"
    define q2 where "q2 = (if ?pop then q_pop qops (key l2) q else q_adjustTop qops (key l2) q)"
    have un: "or_skip_loop child_ops qops target l q =
        (if ?pop \<and> q_elems qops q2 = [] then Some (MAX_DOC_ID, l2, q2) else or_skip_loop child_ops qops target l2 q2)"
      using t False s by (subst or_skip_loop.simps) (simp add: Let_def doc_key_def l2_def q2_def)
    have "behind target ?l1 q = behind target l q" by (simp add: behind_def)
    then have S: "good l2 q2" "upto_docs target (all_docs l2 q2) = upto_docs target (all_docs l q)"
      "card (behind target l2 q2) < card (behind target l q)" "\<not> ?pop \<longrightarrow> q_elems qops q2 \<noteq> []"
      using skip_child [OF M(1) t lt s, of "is_current ?l1 i", folded l2_def, folded q2_def] by simp_all
    have len: "length l2 = length l" by (simp add: l2_def)
    show ?thesis
    proof (cases "q_elems qops q2 = []")
      case True
      then have r: "or_skip_loop child_ops qops target l q = Some (MAX_DOC_ID, l2, q2)" using un S(4) by simp
      have "all_docs l2 q2 = {}" using True by (simp add: all_docs_def)
      then have "upto_docs target (all_docs l q) = {}" using S(2) by (simp add: upto_docs_def)
      then show ?thesis using r S(1) True len by simp
    next
      case ne: False
      then have r: "or_skip_loop child_ops qops target l q = or_skip_loop child_ops qops target l2 q2" using un by simp
      show ?thesis unfolding r by (rule less.hyps [OF S(3,1) ne, unfolded S(2) len])
    qed
  qed
qed

lemma or_do_skipTo_spec:
  assumes "or_inv st"
  shows "\<exists>d st'. or_do_skipTo child_ops qops target st = Some (d, st') \<and> or_inv st' \<and>
    (let A = upto_docs target (remaining or_cur or_rest st) in
     if A = {} then d = MAX_DOC_ID \<and> or_cur st' = None \<and> or_rest st' = {}
     else d = Min A \<and> or_cur st' = Some (Min A) \<and> or_rest st' = A - {Min A})"
proof -
  let ?st = "if or_queue st = None then initDocIteratorQueue child_ops qops st else st"
  consider (none) "?st = st" "or_queue st = None" "remaining or_cur or_rest st = {}"
    | (some) l q where "?st = st\<lparr>or_docIteratorList := l, or_queue := Some q\<rparr>" "good l q" "length l < 2 ^ 32"
      "remaining or_cur or_rest st = all_docs l q"
  proof (cases "or_queue st")
    case None
    then have "remaining or_cur or_rest st = or_rest st" by (simp add: remaining_def or_cur_def)
    then show thesis using init_queue [OF assms None] that None by auto
  next
    case (Some q)
    then have "?st = st\<lparr>or_docIteratorList := or_docIteratorList st, or_queue := Some q\<rparr>" by (cases st) simp
    moreover have "good (or_docIteratorList st) q" "length (or_docIteratorList st) < 2 ^ 32"
      using assms Some by (simp_all add: or_inv_def)
    ultimately show thesis using that(2) or_remaining [OF assms Some] by blast
  qed
  then show ?thesis
  proof cases
    case none
    then have "or_rest st = {}" by (simp add: remaining_def)
    then show ?thesis using none assms by (simp add: or_do_skipTo_def or_inv_def or_cur_def or_rest_def upto_docs_def)
  next
    case some
    have u: "or_do_skipTo child_ops qops target st =
        (if length (q_elems qops q) < 1
         then Some (MAX_DOC_ID, st\<lparr>or_docIteratorList := l, or_queue := Some q, or_currDoc := MAX_DOC_ID\<rparr>)
         else map_option (\<lambda>(d, l, q'). (d, st\<lparr>or_currDoc := d, or_docIteratorList := l, or_queue := Some q'\<rparr>))
                (or_skip_loop child_ops qops target l q))"
      unfolding or_do_skipTo_def Let_def some(1) by simp
    show ?thesis
    proof (cases "q_elems qops q = []")
      case True
      then show ?thesis using u good_empty [OF some(2)] some(4) settled_end [OF some(2) True some(3)]
        by (simp add: upto_docs_def)
    next
      case ne: False
      obtain d l' q' where L: "or_skip_loop child_ops qops target l q = Some (d, l', q')" "good l' q'" "length l' = length l"
        "let A = upto_docs target (all_docs l q) in
         if A = {} then d = MAX_DOC_ID \<and> q_elems qops q' = []
         else d = Min A \<and> all_docs l' q' = A \<and> q_elems qops q' \<noteq> [] \<and> (\<forall>j\<in>elems q'. is_current l' j \<longleftrightarrow> key l' j = d)"
        using or_skip_loop_spec [OF some(2) ne, of target] by blast
      let ?st' = "st\<lparr>or_currDoc := d, or_docIteratorList := l', or_queue := Some q'\<rparr>"
      have r: "or_do_skipTo child_ops qops target st = Some (d, ?st')" using u L(1) ne by (simp add: Suc_le_eq)
      show ?thesis
      proof (cases "upto_docs target (all_docs l q) = {}")
        case True
        then show ?thesis using r L(2,3,4) some(3,4) settled_end [OF L(2), of ?st'] by simp
      next
        case False
        then have "d = Min (all_docs l' q')" "all_docs l' q' = upto_docs target (all_docs l q)" "elems q' \<noteq> {}"
          "\<forall>j\<in>elems q'. is_current l' j \<longleftrightarrow> key l' j = d" using L(4) by (simp_all add: Let_def)
        then show ?thesis using r L(2,3) some(3,4) False by (simp add: or_inv_def or_cur_def or_rest_def)
      qed
    qed
  qed
qed

text \<open>A disjunction keeps the contract: it iterates over the documents of any child.\<close>

definition or_skip_op :: "docid \<Rightarrow> ('it, 'q) or_core \<Rightarrow> docid \<times> ('it, 'q) or_core" where
  "or_skip_op t st = the (or_do_skipTo child_ops qops t st)"

lemma or_contract: "doc_iterator (or_do_next child_ops qops) or_currDoc or_skip_op or_inv or_cur or_rest"
proof
  fix st t assume st: "or_inv st"
  note N = or_do_next_spec [OF st, unfolded Let_def]
  obtain d st' where "or_do_skipTo child_ops qops t st = Some (d, st')" "or_inv st'"
    "let A = upto_docs t (remaining or_cur or_rest st) in
     if A = {} then d = MAX_DOC_ID \<and> or_cur st' = None \<and> or_rest st' = {}
     else d = Min A \<and> or_cur st' = Some (Min A) \<and> or_rest st' = A - {Min A}"
    using or_do_skipTo_spec [OF st, of t] by blast
  note S = this [unfolded Let_def]
  have R: "or_skip_op t st = (d, st')" using S(1) by (simp add: or_skip_op_def)
  show "MAX_DOC_ID \<notin> remaining or_cur or_rest st"
  proof (cases "or_queue st")
    case None
    then show ?thesis using st no_max by (auto simp: remaining_def or_cur_def or_rest_def fresh_docs_def or_inv_def split: if_splits)
  next
    case (Some q)
    then show ?thesis unfolding or_remaining [OF st Some] using st no_max by (auto simp: all_docs_def or_inv_def good_def)
  qed
  show "d < x" if d: "or_cur st = Some d" and x: "x \<in> or_rest st" for d x
  proof -
    obtain q where q: "or_queue st = Some q" "elems q \<noteq> {}" "d = or_currDoc st"
      using d by (auto simp: or_cur_def split: option.splits if_splits)
    then have "d = Min (all_docs (or_docIteratorList st) q)" using st by (simp add: or_inv_def)
    moreover have "x \<in> all_docs (or_docIteratorList st) q" "x \<noteq> d" using x d q by (auto simp: or_rest_def)
    ultimately show ?thesis by (simp add: order_less_le)
  qed
  show "or_currDoc st = d" if "or_cur st = Some d" for d using that by (auto simp: or_cur_def split: option.splits if_splits)
  show "\<not> fst (or_do_next child_ops qops st) \<and> or_inv (snd (or_do_next child_ops qops st)) \<and>
      or_cur (snd (or_do_next child_ops qops st)) = None \<and> or_rest (snd (or_do_next child_ops qops st)) = {}"
    if "or_rest st = {}" using N that by simp
  show "fst (or_do_next child_ops qops st) \<and> or_inv (snd (or_do_next child_ops qops st)) \<and>
      or_cur (snd (or_do_next child_ops qops st)) = Some (Min (or_rest st)) \<and>
      or_rest (snd (or_do_next child_ops qops st)) = or_rest st - {Min (or_rest st)}" if "or_rest st \<noteq> {}"
    using N that by simp
  show "fst (or_skip_op t st) = MAX_DOC_ID \<and> or_inv (snd (or_skip_op t st)) \<and> or_cur (snd (or_skip_op t st)) = None \<and>
      or_rest (snd (or_skip_op t st)) = {}" if "upto_docs t (remaining or_cur or_rest st) = {}"
    using S that by (simp add: R)
  show "fst (or_skip_op t st) = Min (upto_docs t (remaining or_cur or_rest st)) \<and> or_inv (snd (or_skip_op t st)) \<and>
      or_cur (snd (or_skip_op t st)) = Some (Min (upto_docs t (remaining or_cur or_rest st))) \<and>
      or_rest (snd (or_skip_op t st)) =
        upto_docs t (remaining or_cur or_rest st) - {Min (upto_docs t (remaining or_cur or_rest st))}"
    if "upto_docs t (remaining or_cur or_rest st) \<noteq> {}" using S that by (simp add: R)
qed

end

section \<open>The queue of PriorityQueue.h as a queue of iterators\<close>

definition key_less :: "(nat \<Rightarrow> docid) \<Rightarrow> nat \<Rightarrow> nat \<Rightarrow> bool" where
  "key_less key i j \<longleftrightarrow> key i < key j"

definition heap_queue :: "nat pqueue queue_ops" where
  "heap_queue =
     \<lparr>q_new = pq_initialize 0,
      q_insert = (\<lambda>key i q. snd (the (pq_insert (key_less key) 0 i q))),
      q_top = (\<lambda>q. if pq_size q > 0 then Some (pq_top 0 q) else None),
      q_adjustTop = (\<lambda>key q. pq_adjustTop (key_less key) q),
      q_pop = (\<lambda>key q. snd (pq_pop (key_less key) 0 q)),
      q_elems = pq_elems\<rparr>"

lemma key_less_weak: "strict_weak (key_less key)"
  unfolding strict_weak_def key_less_def by (meson less_asym not_less order_trans)

lemma elems_position: "pq_inv lt q \<Longrightarrow> 1 \<le> c \<Longrightarrow> c \<le> pq_size q \<Longrightarrow> pq_heap q ! c \<in> set (pq_elems q)"
  using pq_elems_nth [of lt q "c - 1"] pq_elems_length [of lt q] nth_mem [of "c - 1" "pq_elems q"] by simp

lemma heap_queue_cong:
  assumes "pq_inv (key_less key) q" "\<And>i. i \<in> set (pq_elems q) \<Longrightarrow> key' i = key i"
  shows "pq_inv (key_less key') q"
proof -
  have "\<not> key_less key' (pq_heap q ! c) (pq_heap q ! (c div 2))" if "2 \<le> c" "c \<le> pq_size q" for c
    using assms(1) assms(2) [OF elems_position [OF assms(1), of c]] assms(2) [OF elems_position [OF assms(1), of "c div 2"]] that
    by (simp add: pq_inv_def is_heap_def key_less_def)
  then show ?thesis using assms(1) by (simp add: pq_inv_def is_heap_def)
qed

lemma heap_queue_loose:
  assumes inv: "pq_inv (key_less key) q" and d: "distinct (pq_elems q)" and sz: "0 < pq_size q"
    and k: "\<And>j. j \<in> set (pq_elems q) \<Longrightarrow> j \<noteq> pq_heap q ! 1 \<Longrightarrow> key' j = key j"
  shows "pq_loose (key_less key') q"
proof -
  have off: "pq_heap q ! c \<noteq> pq_heap q ! 1" if c: "2 \<le> c" "c \<le> pq_size q" for c
  proof
    assume "pq_heap q ! c = pq_heap q ! 1"
    then have "pq_elems q ! (c - 1) = pq_elems q ! 0" using pq_elems_nth [OF inv] c sz by simp
    moreover have "c - 1 < pq_size q" "c - 1 \<noteq> 0" using c by linarith+
    ultimately show False using nth_eq_iff_index_eq [OF d, of "c - 1" 0] pq_elems_length [OF inv] sz by simp
  qed
  have same: "key' (pq_heap q ! c) = key (pq_heap q ! c)" if "2 \<le> c" "c \<le> pq_size q" for c
    by (rule k [OF elems_position [OF inv] off]) (use that in simp_all)
  have "\<not> key_less key' (pq_heap q ! c) (pq_heap q ! (c div 2))" if "2 \<le> c" "c \<le> pq_size q" "c div 2 \<noteq> 1" for c
    using inv same [of c] same [of "c div 2"] that by (simp add: pq_inv_def is_heap_def key_less_def)
  then show ?thesis using inv by (simp add: pq_inv_def pq_loose_def)
qed

interpretation heap_q: iter_queue heap_queue "\<lambda>key. pq_inv (key_less key)" pq_maxSize
proof
  fix key key' :: "nat \<Rightarrow> docid" and q :: "nat pqueue" and i j n :: nat
  show "pq_inv (key_less key) (q_new heap_queue n) \<and> q_elems heap_queue (q_new heap_queue n) = [] \<and>
      pq_maxSize (q_new heap_queue n) = n" if "n < 2 ^ 32"
    using that by (simp add: heap_queue_def pq_initialize_def pq_inv_def is_heap_def pq_elems_def)
  assume inv: "pq_inv (key_less key) q"
  have len: "length (pq_elems q) = pq_size q" by (rule pq_elems_length [OF inv])
  show "pq_inv (key_less key) (q_insert heap_queue key i q) \<and> pq_maxSize (q_insert heap_queue key i q) = pq_maxSize q \<and>
      mset (q_elems heap_queue (q_insert heap_queue key i q)) = add_mset i (mset (q_elems heap_queue q))"
    if "length (q_elems heap_queue q) < pq_maxSize q"
  proof -
    have sz: "pq_size q < pq_maxSize q" using that len by (simp add: heap_queue_def)
    show ?thesis using pq_put_spec [OF key_less_weak inv sz, of i] sz by (auto simp: heap_queue_def pq_insert_def)
  qed
  show "pq_inv (key_less key') q" if "\<And>i. i \<in> set (q_elems heap_queue q) \<Longrightarrow> key' i = key i"
    by (rule heap_queue_cong [OF inv]) (use that in \<open>simp add: heap_queue_def\<close>)
  show "q_top heap_queue q = None \<longleftrightarrow> q_elems heap_queue q = []" using len by (auto simp: heap_queue_def)
  assume t: "q_top heap_queue q = Some i"
  have sz: "0 < pq_size q" "i = pq_heap q ! 1" "i = pq_top 0 q" using t by (auto simp: heap_queue_def pq_top_def split: if_splits)
  show "i \<in> set (q_elems heap_queue q)" using elems_position [OF inv, of 1] sz by (simp add: heap_queue_def)
  show "key i \<le> key j" if "j \<in> set (q_elems heap_queue q)"
    using pq_top_least [OF key_less_weak inv, of j 0] that sz(3) by (simp add: heap_queue_def key_less_def)
  assume "distinct (q_elems heap_queue q)" and k: "\<And>j. j \<in> set (q_elems heap_queue q) \<Longrightarrow> j \<noteq> i \<Longrightarrow> key' j = key j"
  then have l: "pq_loose (key_less key') q"
    using heap_queue_loose [OF inv _ sz(1), of key'] sz(2) by (simp add: heap_queue_def)
  have pos: "0 < pq_maxSize q" using inv sz(1) by (simp add: pq_inv_def)
  show "pq_inv (key_less key') (q_adjustTop heap_queue key' q) \<and>
      mset (q_elems heap_queue (q_adjustTop heap_queue key' q)) = mset (q_elems heap_queue q)"
    using downHeap_spec [OF key_less_weak l pos] by (simp add: heap_queue_def pq_adjustTop_def)
  show "pq_inv (key_less key') (q_pop heap_queue key' q) \<and>
      add_mset i (mset (q_elems heap_queue (q_pop heap_queue key' q))) = mset (q_elems heap_queue q)"
    using pq_pop_spec [OF key_less_weak l sz(1), of 0] sz(3) by (auto simp: heap_queue_def split_beta Let_def)
qed

end
