(* ===== verification/Query_Iterator.thy ===== *)
theory Query_Iterator
  imports Or_Iterator
begin

text \<open>
  The iterators of a query with excluded documents (core/search-manager: ANDDocumentIterator.h, ANDDocumentIterator.cpp,
  ORDocumentIterator.cpp), the iterator over a filter (FilterDocumentIterator.h) and over all documents
  (AllDocumentIterator.h), and the properties of the iterators.
\<close>

section \<open>Conjunction with excluded documents\<close>

text \<open>
  \<open>ai_not\<close> is the object behind \<open>pNOTDocIterator_\<close>, a disjunction of the excluded iterators, which is
  used when \<open>hasNot_\<close> is set.
\<close>

record ('it, 'q) and_iter =
  ai_core :: "'it and_core"
  ai_hasNot :: bool
  ai_currDocOfNOTIter :: docid
  ai_initNOTIterator :: bool
  ai_not :: "('it, 'q) or_core"

definition or_new :: "docid \<Rightarrow> ('it, 'q) or_core" where
  "or_new d = \<lparr>or_docIteratorList = [], or_queue = None, or_currDoc = d\<rparr>"

text \<open>A new conjunction; \<open>currDoc_\<close> is not initialised.\<close>

definition and_new :: "docid \<Rightarrow> ('it, 'q) and_iter" where
  "and_new d =
     \<lparr>ai_core = \<lparr>and_currDoc = d, and_docIterList = []\<rparr>, ai_hasNot = False, ai_currDocOfNOTIter = MAX_DOC_ID,
      ai_initNOTIterator = False, ai_not = or_new d\<rparr>"

definition and_add :: "bool \<Rightarrow> 'it \<Rightarrow> ('it, 'q) and_iter \<Rightarrow> ('it, 'q) and_iter" where
  "and_add isNot it st =
     (if isNot then st\<lparr>ai_hasNot := True, ai_not := or_add it (ai_not st)\<rparr>
      else st\<lparr>ai_core := (ai_core st)\<lparr>and_docIterList := and_docIterList (ai_core st) @ [it]\<rparr>\<rparr>)"

text \<open>\<open>next\<close> of the excluded documents and its effect on \<open>currDocOfNOTIter_\<close>.\<close>

definition not_next :: "'it iter_ops \<Rightarrow> 'q queue_ops \<Rightarrow> ('it, 'q) and_iter \<Rightarrow> ('it, 'q) and_iter" where
  "not_next ops qops st =
     (let (ok, n) = or_do_next ops qops (ai_not st)
      in st\<lparr>ai_not := n, ai_currDocOfNOTIter := (if ok then or_currDoc n else MAX_DOC_ID)\<rparr>)"

definition not_skipTo :: "'it iter_ops \<Rightarrow> 'q queue_ops \<Rightarrow> docid \<Rightarrow> ('it, 'q) and_iter \<Rightarrow> ('it, 'q) and_iter option" where
  "not_skipTo ops qops t st =
     map_option (\<lambda>(d, n). st\<lparr>ai_not := n, ai_currDocOfNOTIter := d\<rparr>) (or_do_skipTo ops qops t (ai_not st))"

definition and_core_next :: "'it iter_ops \<Rightarrow> ('it, 'q) and_iter \<Rightarrow> bool \<times> ('it, 'q) and_iter" where
  "and_core_next ops st = (let (ret, c) = and_do_next ops (ai_core st) in (ret, st\<lparr>ai_core := c\<rparr>))"

definition and_doc :: "('it, 'q) and_iter \<Rightarrow> docid" where
  "and_doc st = and_currDoc (ai_core st)"

partial_function (option) and_move_not ::
  "'it iter_ops \<Rightarrow> 'q queue_ops \<Rightarrow> ('it, 'q) and_iter \<Rightarrow> (bool \<times> ('it, 'q) and_iter) option" where
  "and_move_not ops qops st0 =
     (let (ret, st1) = and_core_next ops st0 in
      if \<not> ret then Some (False, st1)
      else
        let st = not_next ops qops st1 in
        if and_doc st < ai_currDocOfNOTIter st then Some (ret, st)
        else if and_doc st = ai_currDocOfNOTIter st then and_move_not ops qops st
        else Option.bind (not_skipTo ops qops (and_doc st) st) (\<lambda>st'.
          if and_doc st' = ai_currDocOfNOTIter st' then and_move_not ops qops st' else Some (ret, st')))"

definition and_next ::
  "'it iter_ops \<Rightarrow> 'q queue_ops \<Rightarrow> ('it, 'q) and_iter \<Rightarrow> (bool \<times> ('it, 'q) and_iter) option" where
  "and_next ops qops st0 =
     (if \<not> ai_hasNot st0 then Some (and_core_next ops st0)
      else if and_docIterList (ai_core st0) = [] then Some (False, st0)
      else
        let st1 = (if ai_initNOTIterator st0 then st0 else not_next ops qops (st0\<lparr>ai_initNOTIterator := True\<rparr>));
            (ret, st) = and_core_next ops st1 in
        if and_doc st = ai_currDocOfNOTIter st then and_move_not ops qops st
        else if and_doc st < ai_currDocOfNOTIter st then Some (ret, st)
        else Option.bind (not_skipTo ops qops (and_doc st) st) (\<lambda>st'.
          if and_doc st' = ai_currDocOfNOTIter st' then and_move_not ops qops st' else Some (ret, st')))"

text \<open>\<open>skipTo\<close>: the loop, and the call.\<close>

partial_function (option) and_skip_not_loop ::
  "'it iter_ops \<Rightarrow> 'q queue_ops \<Rightarrow> docid \<Rightarrow> ('it, 'q) and_iter \<Rightarrow> (docid \<times> ('it, 'q) and_iter) option" where
  "and_skip_not_loop ops qops currentDoc st0 =
     (let (nFoundId, c) = and_do_skipTo ops currentDoc (ai_core st0) in
      Option.bind (not_skipTo ops qops currentDoc (st0\<lparr>ai_core := c\<rparr>)) (\<lambda>st.
        if nFoundId \<noteq> MAX_DOC_ID \<and> nFoundId = currentDoc \<and> ai_currDocOfNOTIter st = currentDoc then Some (MAX_DOC_ID, st)
        else if nFoundId \<noteq> MAX_DOC_ID \<and> nFoundId = ai_currDocOfNOTIter st then and_skip_not_loop ops qops nFoundId st
        else Some (nFoundId, st)))"

definition and_skipTo ::
  "'it iter_ops \<Rightarrow> 'q queue_ops \<Rightarrow> docid \<Rightarrow> ('it, 'q) and_iter \<Rightarrow> (docid \<times> ('it, 'q) and_iter) option" where
  "and_skipTo ops qops target st =
     (if \<not> ai_hasNot st
      then (let (d, c) = and_do_skipTo ops target (ai_core st) in Some (d, st\<lparr>ai_core := c\<rparr>))
      else and_skip_not_loop ops qops target st)"

section \<open>Disjunction with excluded documents\<close>

record ('it, 'q) or_iter =
  oi_core :: "('it, 'q) or_core"
  oi_hasNot :: bool
  oi_currDocOfNOTIter :: docid
  oi_initNOTIterator :: bool
  oi_not :: "('it, 'q) or_core"

definition oi_new :: "docid \<Rightarrow> ('it, 'q) or_iter" where
  "oi_new d = \<lparr>oi_core = or_new d, oi_hasNot = False, oi_currDocOfNOTIter = MAX_DOC_ID, oi_initNOTIterator = False, oi_not = or_new d\<rparr>"

definition oi_add :: "bool \<Rightarrow> 'it \<Rightarrow> ('it, 'q) or_iter \<Rightarrow> ('it, 'q) or_iter" where
  "oi_add isNot it st =
     (if isNot then st\<lparr>oi_hasNot := True, oi_not := or_add it (oi_not st)\<rparr>
      else st\<lparr>oi_core := or_add it (oi_core st)\<rparr>)"

definition oi_not_next :: "'it iter_ops \<Rightarrow> 'q queue_ops \<Rightarrow> ('it, 'q) or_iter \<Rightarrow> ('it, 'q) or_iter" where
  "oi_not_next ops qops st =
     (let (ok, n) = or_do_next ops qops (oi_not st)
      in st\<lparr>oi_not := n, oi_currDocOfNOTIter := (if ok then or_currDoc n else MAX_DOC_ID)\<rparr>)"

definition oi_core_next :: "'it iter_ops \<Rightarrow> 'q queue_ops \<Rightarrow> ('it, 'q) or_iter \<Rightarrow> bool \<times> ('it, 'q) or_iter" where
  "oi_core_next ops qops st = (let (ret, c) = or_do_next ops qops (oi_core st) in (ret, st\<lparr>oi_core := c\<rparr>))"

definition oi_doc :: "('it, 'q) or_iter \<Rightarrow> docid" where
  "oi_doc st = or_currDoc (oi_core st)"

partial_function (option) oi_move_not ::
  "'it iter_ops \<Rightarrow> 'q queue_ops \<Rightarrow> ('it, 'q) or_iter \<Rightarrow> (bool \<times> ('it, 'q) or_iter) option" where
  "oi_move_not ops qops st0 =
     (let (ret, st1) = oi_core_next ops qops st0; st = oi_not_next ops qops st1
      in if ret \<and> oi_doc st = oi_currDocOfNOTIter st then oi_move_not ops qops st else Some (ret, st))"

text \<open>The assertion at the end is not part of a release build.\<close>

definition oi_next ::
  "'it iter_ops \<Rightarrow> 'q queue_ops \<Rightarrow> ('it, 'q) or_iter \<Rightarrow> (bool \<times> ('it, 'q) or_iter) option" where
  "oi_next ops qops st0 =
     (if \<not> oi_hasNot st0 then Some (oi_core_next ops qops st0)
      else
        let st1 = (if oi_initNOTIterator st0 then st0 else oi_not_next ops qops (st0\<lparr>oi_initNOTIterator := True\<rparr>));
            (ret, st2) = oi_core_next ops qops st1 in
        Option.bind
          (if oi_doc st2 > oi_currDocOfNOTIter st2
           then map_option (\<lambda>(d, n). st2\<lparr>oi_not := n, oi_currDocOfNOTIter := d\<rparr>)
                  (or_do_skipTo ops qops (oi_doc st2) (oi_not st2))
           else Some st2)
          (\<lambda>st. if oi_doc st = oi_currDocOfNOTIter st then oi_move_not ops qops st else Some (ret, st)))"

partial_function (option) oi_skip_not_loop ::
  "'it iter_ops \<Rightarrow> 'q queue_ops \<Rightarrow> docid \<Rightarrow> ('it, 'q) or_iter \<Rightarrow> (docid \<times> ('it, 'q) or_iter) option" where
  "oi_skip_not_loop ops qops currentDoc st0 =
     Option.bind (or_do_skipTo ops qops currentDoc (oi_core st0)) (\<lambda>(nFoundId, c).
     Option.bind (or_do_skipTo ops qops currentDoc (oi_not st0)) (\<lambda>(notDoc, n).
       let st = st0\<lparr>oi_core := c, oi_not := n, oi_currDocOfNOTIter := notDoc\<rparr> in
       if nFoundId \<noteq> MAX_DOC_ID \<and> nFoundId = currentDoc \<and> notDoc = currentDoc then Some (MAX_DOC_ID, st)
       else if nFoundId \<noteq> MAX_DOC_ID \<and> nFoundId = notDoc then oi_skip_not_loop ops qops nFoundId st
       else Some (nFoundId, st)))"

definition oi_skipTo ::
  "'it iter_ops \<Rightarrow> 'q queue_ops \<Rightarrow> docid \<Rightarrow> ('it, 'q) or_iter \<Rightarrow> (docid \<times> ('it, 'q) or_iter) option" where
  "oi_skipTo ops qops target st =
     (if \<not> oi_hasNot st
      then map_option (\<lambda>(d, c). (d, st\<lparr>oi_core := c\<rparr>)) (or_do_skipTo ops qops target (oi_core st))
      else oi_skip_not_loop ops qops target st)"

section \<open>Filter and all documents\<close>

text \<open>The posting reader \<open>TermDocFreqs\<close> of izenelib is not part of the sources: its operations are a parameter.\<close>

definition filter_next :: "'t iter_ops \<Rightarrow> 't \<Rightarrow> bool \<times> 't" where
  "filter_next tops t = it_next tops t"

definition filter_doc :: "'t iter_ops \<Rightarrow> 't \<Rightarrow> docid" where
  "filter_doc tops t = it_doc tops t"

definition filter_skipTo :: "'t iter_ops \<Rightarrow> docid \<Rightarrow> 't \<Rightarrow> docid \<times> 't" where
  "filter_skipTo tops target t = it_skipTo tops target t"

record 't all_iter =
  al_del :: "'t option"
  al_currDoc :: docid
  al_currDelDoc :: docid
  al_maxDoc :: docid

definition all_new :: "docid \<Rightarrow> docid \<Rightarrow> 't all_iter" where
  "all_new d maxDoc = \<lparr>al_del = None, al_currDoc = 0, al_currDelDoc = d, al_maxDoc = maxDoc\<rparr>"

definition del_next :: "'t iter_ops \<Rightarrow> 't all_iter \<Rightarrow> 't all_iter" where
  "del_next tops st =
     (case al_del st of
        None \<Rightarrow> st
      | Some t \<Rightarrow> (let (ok, t') = it_next tops t
                   in st\<lparr>al_del := Some t', al_currDelDoc := (if ok then it_doc tops t' else MAX_DOC_ID)\<rparr>))"

definition all_new_del :: "'t iter_ops \<Rightarrow> 't \<Rightarrow> docid \<Rightarrow> 't all_iter" where
  "all_new_del tops t maxDoc = del_next tops \<lparr>al_del = Some t, al_currDoc = 0, al_currDelDoc = 0, al_maxDoc = maxDoc\<rparr>"

definition del_skipTo :: "'t iter_ops \<Rightarrow> 't all_iter \<Rightarrow> 't all_iter" where
  "del_skipTo tops st =
     (case al_del st of
        None \<Rightarrow> st
      | Some t \<Rightarrow> (let (d, t') = it_skipTo tops (al_currDoc st) t in st\<lparr>al_del := Some t', al_currDelDoc := d\<rparr>))"

partial_function (option) move_with_del :: "'t iter_ops \<Rightarrow> 't all_iter \<Rightarrow> (bool \<times> 't all_iter) option" where
  "move_with_del tops st0 =
     (let st = del_next tops (st0\<lparr>al_currDoc := al_currDoc st0 + 1\<rparr>)
      in if al_currDoc st = al_currDelDoc st \<and> al_currDoc st \<le> al_maxDoc st then move_with_del tops st
         else Some (al_currDoc st \<le> al_maxDoc st, st))"

definition all_next :: "'t iter_ops \<Rightarrow> 't all_iter \<Rightarrow> (bool \<times> 't all_iter) option" where
  "all_next tops st0 =
     (let st = st0\<lparr>al_currDoc := al_currDoc st0 + 1\<rparr> in
      if al_del st = None then Some (al_currDoc st \<le> al_maxDoc st, st)
      else if al_currDoc st = al_currDelDoc st then move_with_del tops st
      else if al_currDoc st < al_currDelDoc st then Some (al_currDoc st \<le> al_maxDoc st, st)
      else
        let st' = del_skipTo tops st in
        if al_currDoc st' = al_currDelDoc st' then move_with_del tops st'
        else Some (al_currDoc st' \<le> al_maxDoc st', st'))"

definition all_found :: "'t all_iter \<Rightarrow> docid" where
  "all_found st = (if al_currDoc st > al_maxDoc st then MAX_DOC_ID else al_currDoc st)"

text \<open>\<open>currDoc_ > target ? currDoc_ : ++target\<close>, with the new target.\<close>

definition all_step :: "docid \<Rightarrow> 't all_iter \<Rightarrow> docid \<times> 't all_iter" where
  "all_step target st =
     (if al_currDoc st > target then (target, st) else (target + 1, st\<lparr>al_currDoc := target + 1\<rparr>))"

partial_function (option) skip_with_del :: "'t iter_ops \<Rightarrow> docid \<Rightarrow> 't all_iter \<Rightarrow> (docid \<times> 't all_iter) option" where
  "skip_with_del tops target0 st0 =
     (let (target, st1) = all_step target0 st0; st = del_skipTo tops st1
      in if al_currDoc st = al_currDelDoc st \<and> al_currDoc st \<le> al_maxDoc st then skip_with_del tops target st
         else Some (all_found st, st))"

partial_function (option) all_skip_loop :: "'t iter_ops \<Rightarrow> 't all_iter \<Rightarrow> 't all_iter option" where
  "all_skip_loop tops st =
     (if al_currDoc st = al_currDelDoc st \<and> al_currDelDoc st \<noteq> MAX_DOC_ID
      then (let st' = del_skipTo tops st in all_skip_loop tops (st'\<lparr>al_currDoc := al_currDoc st' + 1\<rparr>))
      else Some st)"

definition all_skipTo :: "'t iter_ops \<Rightarrow> docid \<Rightarrow> 't all_iter \<Rightarrow> (docid \<times> 't all_iter) option" where
  "all_skipTo tops target st =
     (if al_del st = None then (let st' = snd (all_step target st) in Some (all_found st', st'))
      else if al_currDelDoc st \<le> target then skip_with_del tops target st
      else map_option (\<lambda>st'. (all_found st', st')) (all_skip_loop tops (snd (all_step target st))))"


section \<open>Conjunction with excluded documents: what \<open>next\<close> returns\<close>

context or_parts
begin

abbreviation excluded :: "('it, 'q) and_iter \<Rightarrow> docid set" where
  "excluded st \<equiv> remaining or_cur or_rest (ai_not st)"

abbreviation core_rest :: "('it, 'q) and_iter \<Rightarrow> docid set" where
  "core_rest st \<equiv> and_rest (ai_core st)"

text \<open>\<open>currDocOfNOTIter_\<close> is the document at which the excluded documents stand.\<close>

definition synced :: "('it, 'q) and_iter \<Rightarrow> bool" where
  "synced st \<longleftrightarrow>
     (case or_cur (ai_not st) of
        Some d \<Rightarrow> ai_currDocOfNOTIter st = d
      | None \<Rightarrow> ai_currDocOfNOTIter st = MAX_DOC_ID \<and> or_rest (ai_not st) = {})"

definition and_ok :: "('it, 'q) and_iter \<Rightarrow> bool" where
  "and_ok st \<longleftrightarrow> and_inv (ai_core st) \<and> or_inv (ai_not st) \<and>
     (if ai_initNOTIterator st then synced st else or_cur (ai_not st) = None)"

lemma synced_core [simp]: "synced (st\<lparr>ai_core := c\<rparr>) \<longleftrightarrow> synced st"
  by (simp add: synced_def split: option.splits)

lemma max_doc_greatest: "d \<le> MAX_DOC_ID"
  using unsigned_less [where w = d and 'a = nat] by (simp add: MAX_DOC_ID_def word_le_nat_alt)

lemma synced_excluded:
  assumes "or_inv (ai_not st)" "synced st"
  shows "x \<in> excluded st \<Longrightarrow> ai_currDocOfNOTIter st \<le> x"
    and "ai_currDocOfNOTIter st \<noteq> MAX_DOC_ID \<Longrightarrow> ai_currDocOfNOTIter st \<in> excluded st"
  using assms doc_iterator.ordered [OF or_contract, of "ai_not st"]
  by (auto simp: synced_def remaining_def split: option.splits intro: less_imp_le)

lemma not_next_spec:
  assumes "or_inv (ai_not st)"
  shows "\<exists>n d. not_next child_ops qops st = st\<lparr>ai_not := n, ai_currDocOfNOTIter := d\<rparr> \<and> or_inv n \<and>
    synced (st\<lparr>ai_not := n, ai_currDocOfNOTIter := d\<rparr>) \<and> remaining or_cur or_rest n = or_rest (ai_not st)"
proof -
  obtain ok n where n: "or_do_next child_ops qops (ai_not st) = (ok, n)" by (metis surj_pair)
  note N = or_do_next_spec [OF assms, unfolded n Let_def fst_conv snd_conv]
  have eq: "not_next child_ops qops st = st\<lparr>ai_not := n, ai_currDocOfNOTIter := (if ok then or_currDoc n else MAX_DOC_ID)\<rparr>"
    by (simp add: not_next_def n)
  show ?thesis
  proof (cases "or_rest (ai_not st) = {}")
    case True
    then have "\<not> ok" "or_inv n" "or_cur n = None" "or_rest n = {}" using N by simp_all
    then show ?thesis using eq True by (intro exI [of _ n] exI [of _ MAX_DOC_ID]) (simp add: synced_def remaining_def)
  next
    case False
    then have r: "ok" "or_inv n" "or_cur n = Some (Min (or_rest (ai_not st)))" "or_rest n = or_rest (ai_not st) - {Min (or_rest (ai_not st))}"
      using N by simp_all
    have "or_currDoc n = Min (or_rest (ai_not st))" using doc_iterator.doc_cur [OF or_contract r(2,3)] .
    then have "synced (st\<lparr>ai_not := n, ai_currDocOfNOTIter := or_currDoc n\<rparr>)" using r(3) by (simp add: synced_def)
    moreover have "remaining or_cur or_rest n = or_rest (ai_not st)"
      unfolding remaining_def r(3,4) using Min_in [of "or_rest (ai_not st)"] False by (simp add: insert_absorb)
    ultimately show ?thesis using eq r(1,2) by auto
  qed
qed

lemma not_skipTo_spec:
  assumes "or_inv (ai_not st)"
  shows "\<exists>n d. not_skipTo child_ops qops t st = Some (st\<lparr>ai_not := n, ai_currDocOfNOTIter := d\<rparr>) \<and> or_inv n \<and>
    synced (st\<lparr>ai_not := n, ai_currDocOfNOTIter := d\<rparr>) \<and> remaining or_cur or_rest n = upto_docs t (excluded st)"
proof -
  obtain d n where S: "or_do_skipTo child_ops qops t (ai_not st) = Some (d, n)" "or_inv n"
    "let A = upto_docs t (excluded st) in
     if A = {} then d = MAX_DOC_ID \<and> or_cur n = None \<and> or_rest n = {}
     else d = Min A \<and> or_cur n = Some (Min A) \<and> or_rest n = A - {Min A}"
    using or_do_skipTo_spec [OF assms, of t] by blast
  have eq: "not_skipTo child_ops qops t st = Some (st\<lparr>ai_not := n, ai_currDocOfNOTIter := d\<rparr>)" by (simp add: not_skipTo_def S(1))
  show ?thesis
  proof (cases "upto_docs t (excluded st) = {}")
    case True
    then show ?thesis using eq S(2,3) by (intro exI [of _ n] exI [of _ d]) (simp add: synced_def remaining_def)
  next
    case False
    define A where "A = upto_docs t (excluded st)"
    have r: "d = Min A" "or_cur n = Some (Min A)" "or_rest n = A - {Min A}" using S(3) False by (simp_all add: A_def Let_def)
    then have "synced (st\<lparr>ai_not := n, ai_currDocOfNOTIter := d\<rparr>)" by (simp add: synced_def)
    moreover have "remaining or_cur or_rest n = A"
      unfolding remaining_def r(2,3) using Min_in [of A] False by (simp add: insert_absorb A_def)
    ultimately show ?thesis using eq S(2) by (auto simp: A_def)
  qed
qed

lemma and_core_next_spec:
  assumes "and_inv (ai_core st)"
  shows "\<exists>b c. and_core_next child_ops st = (b, st\<lparr>ai_core := c\<rparr>) \<and> and_inv c \<and>
    (if core_rest st = {} then \<not> b \<and> and_rest c = {}
     else b \<and> and_currDoc c = Min (core_rest st) \<and> and_rest c = core_rest st - {Min (core_rest st)})"
proof -
  obtain b c where c: "and_do_next child_ops (ai_core st) = (b, c)" by (metis surj_pair)
  note N = and_do_next_spec [of child_ops, OF key_doc(2,1,3) assms, unfolded c Let_def fst_conv snd_conv]
  have "and_cur c = Some d \<Longrightarrow> and_currDoc c = d" for d by (auto simp: and_cur_def split: if_splits)
  then show ?thesis using N by (intro exI [of _ b] exI [of _ c]) (auto simp: and_core_next_def c)
qed

text \<open>The outcome of a call when the documents \<open>R\<close> are still to come.\<close>

definition stepped :: "docid set \<Rightarrow> (bool \<times> ('it, 'q) and_iter) option \<Rightarrow> bool" where
  "stepped R r \<longleftrightarrow>
     (\<exists>b st'. r = Some (b, st') \<and> and_ok st' \<and> ai_hasNot st' \<and>
        (if R = {} then \<not> b \<and> core_rest st' - excluded st' = {}
         else b \<and> and_doc st' = Min R \<and> core_rest st' - excluded st' = R - {Min R}))"

lemma stepped_found:
  assumes "and_ok st" "ai_hasNot st" "\<forall>x\<in>core_rest st. and_doc st < x" "and_doc st \<notin> excluded st"
  shows "stepped (insert (and_doc st) (core_rest st) - excluded st) (Some (True, st))"
proof -
  let ?R = "insert (and_doc st) (core_rest st) - excluded st"
  have "Min ?R = and_doc st" using assms(3,4) by (intro Min_eqI) (auto intro: less_imp_le)
  moreover have "core_rest st - excluded st = ?R - {and_doc st}" using assms(3) by auto
  ultimately show ?thesis using assms by (auto simp: stepped_def)
qed

text \<open>The comparison of the current document with the excluded ones, which \<open>next\<close> and the loop share.\<close>

definition resolve :: "(('it, 'q) and_iter \<Rightarrow> (bool \<times> ('it, 'q) and_iter) option) \<Rightarrow> ('it, 'q) and_iter \<Rightarrow>
    (bool \<times> ('it, 'q) and_iter) option" where
  "resolve move st =
     (if and_doc st < ai_currDocOfNOTIter st then Some (True, st)
      else if and_doc st = ai_currDocOfNOTIter st then move st
      else Option.bind (not_skipTo child_ops qops (and_doc st) st) (\<lambda>st'.
        if and_doc st' = ai_currDocOfNOTIter st' then move st' else Some (True, st')))"

lemma resolve_spec:
  assumes st: "and_ok st" "ai_hasNot st" "ai_initNOTIterator st"
    and d: "and_doc st \<noteq> MAX_DOC_ID" "\<forall>x\<in>core_rest st. and_doc st < x"
    and move: "\<And>st'. and_ok st' \<Longrightarrow> ai_hasNot st' \<Longrightarrow> ai_initNOTIterator st' \<Longrightarrow> ai_core st' = ai_core st \<Longrightarrow>
      ai_currDocOfNOTIter st' = and_doc st' \<Longrightarrow> stepped (core_rest st' - excluded st') (move st')"
  shows "stepped (insert (and_doc st) (core_rest st) - excluded st) (resolve move st)"
proof -
  have sy: "or_inv (ai_not st)" "synced st" using st by (simp_all add: and_ok_def)
  note X = synced_excluded [OF sy]
  consider (lt) "and_doc st < ai_currDocOfNOTIter st" | (eq) "and_doc st = ai_currDocOfNOTIter st"
    | (gt) "and_doc st > ai_currDocOfNOTIter st" by fastforce
  then show ?thesis
  proof cases
    case lt
    then have "and_doc st \<notin> excluded st" using X(1) by fastforce
    then show ?thesis using stepped_found [OF st(1,2) d(2)] lt by (simp add: resolve_def)
  next
    case eq
    then have "insert (and_doc st) (core_rest st) - excluded st = core_rest st - excluded st" using X(2) d(1) by auto
    then show ?thesis using move [OF st refl] eq by (simp add: resolve_def)
  next
    case gt
    obtain n e where S: "not_skipTo child_ops qops (and_doc st) st = Some (st\<lparr>ai_not := n, ai_currDocOfNOTIter := e\<rparr>)"
      "or_inv n" "synced (st\<lparr>ai_not := n, ai_currDocOfNOTIter := e\<rparr>)"
      "remaining or_cur or_rest n = upto_docs (and_doc st) (excluded st)"
      using not_skipTo_spec [OF sy(1), of "and_doc st"] by blast
    define st' where "st' = st\<lparr>ai_not := n, ai_currDocOfNOTIter := e\<rparr>"
    have st': "and_ok st'" "ai_hasNot st'" "ai_initNOTIterator st'" "ai_core st' = ai_core st" "and_doc st' = and_doc st"
      using st S by (simp_all add: st'_def and_ok_def and_doc_def)
    have ex: "excluded st' = upto_docs (and_doc st) (excluded st)" using S(4) by (simp add: st'_def)
    have R: "insert (and_doc st) (core_rest st) - excluded st = insert (and_doc st') (core_rest st') - excluded st'"
      using d(2) unfolding ex st'(4,5) by (auto simp: upto_docs_def)
    have r: "resolve move st = (if and_doc st' = ai_currDocOfNOTIter st' then move st' else Some (True, st'))"
      using gt S(1) by (auto simp: resolve_def st'_def)
    note X' = synced_excluded [of st'] st'(1,3)
    show ?thesis
    proof (cases "and_doc st' = ai_currDocOfNOTIter st'")
      case True
      then have "and_doc st' \<in> excluded st'" using X' d(1) st'(5) by (simp add: and_ok_def)
      then have "insert (and_doc st') (core_rest st') - excluded st' = core_rest st' - excluded st'" by auto
      then show ?thesis using move [OF st'(1-4)] True unfolding R r by simp
    next
      case False
      have "and_doc st' \<notin> excluded st'"
      proof
        assume m: "and_doc st' \<in> excluded st'"
        then have "ai_currDocOfNOTIter st' \<le> and_doc st'" using X' by (simp add: and_ok_def)
        moreover have "ai_currDocOfNOTIter st' \<in> excluded st' \<or> ai_currDocOfNOTIter st' = MAX_DOC_ID"
          using X' by (auto simp: and_ok_def)
        ultimately have "ai_currDocOfNOTIter st' = and_doc st'"
          using max_doc_greatest unfolding ex st'(5) by (auto simp: upto_docs_def intro: antisym)
        then show False using False by simp
      qed
      then show ?thesis using stepped_found [OF st'(1,2)] d(2) st'(4,5) False unfolding R r by simp
    qed
  qed
qed


lemma and_move_not_resolve:
  assumes "and_core_next child_ops st0 = (True, st1)"
  shows "and_move_not child_ops qops st0 = resolve (and_move_not child_ops qops) (not_next child_ops qops st1)"
  by (subst and_move_not.simps) (simp add: assms resolve_def Let_def)

lemma core_rest_min:
  assumes "and_inv (ai_core st)" "core_rest st \<noteq> {}"
  shows "Min (core_rest st) \<noteq> MAX_DOC_ID" "\<forall>x\<in>core_rest st - {Min (core_rest st)}. Min (core_rest st) < x"
    "insert (Min (core_rest st)) (core_rest st - {Min (core_rest st)}) = core_rest st"
proof -
  have m: "Min (core_rest st) \<in> core_rest st" using assms(2) by (intro Min_in) simp_all
  show "Min (core_rest st) \<noteq> MAX_DOC_ID"
    using m doc_iterator.no_max [OF and_contract assms(1)] by (auto simp: remaining_def)
  show "\<forall>x\<in>core_rest st - {Min (core_rest st)}. Min (core_rest st) < x" by (auto simp: order_less_le)
  show "insert (Min (core_rest st)) (core_rest st - {Min (core_rest st)}) = core_rest st" using m by auto
qed

lemma and_move_not_spec:
  assumes "and_ok st" "ai_hasNot st" "ai_initNOTIterator st" "set_option (or_cur (ai_not st)) \<inter> core_rest st = {}"
  shows "stepped (core_rest st - excluded st) (and_move_not child_ops qops st)"
  using assms
proof (induction "card (core_rest st)" arbitrary: st rule: less_induct)
  case less
  have iv: "and_inv (ai_core st)" "or_inv (ai_not st)" using less.prems(1) by (simp_all add: and_ok_def)
  obtain b c where c: "and_core_next child_ops st = (b, st\<lparr>ai_core := c\<rparr>)" "and_inv c"
    "if core_rest st = {} then \<not> b \<and> and_rest c = {}
     else b \<and> and_currDoc c = Min (core_rest st) \<and> and_rest c = core_rest st - {Min (core_rest st)}"
    using and_core_next_spec [OF iv(1)] by blast
  show ?case
  proof (cases "core_rest st = {}")
    case True
    then show ?thesis using c less.prems
      by (subst and_move_not.simps) (auto simp: stepped_def and_ok_def)
  next
    case False
    then have b: "b" "and_currDoc c = Min (core_rest st)" "and_rest c = core_rest st - {Min (core_rest st)}" using c(3) by auto
    obtain n e where n: "not_next child_ops qops (st\<lparr>ai_core := c\<rparr>) = st\<lparr>ai_core := c, ai_not := n, ai_currDocOfNOTIter := e\<rparr>"
      "or_inv n" "synced (st\<lparr>ai_core := c, ai_not := n, ai_currDocOfNOTIter := e\<rparr>)"
      "remaining or_cur or_rest n = or_rest (ai_not st)"
      using not_next_spec [of "st\<lparr>ai_core := c\<rparr>"] iv(2) by auto
    define st' where "st' = st\<lparr>ai_core := c, ai_not := n, ai_currDocOfNOTIter := e\<rparr>"
    have st': "and_ok st'" "ai_hasNot st'" "ai_initNOTIterator st'" using n c(2) less.prems(2,3) by (simp_all add: st'_def and_ok_def)
    have doc: "and_doc st' = Min (core_rest st)" "core_rest st' = core_rest st - {Min (core_rest st)}"
      "excluded st' = or_rest (ai_not st)" using b n(4) by (simp_all add: st'_def and_doc_def)
    note M = core_rest_min [OF iv(1) False]
    have "stepped (insert (and_doc st') (core_rest st') - excluded st') (resolve (and_move_not child_ops qops) st')"
    proof (rule resolve_spec [OF st'])
      show "and_doc st' \<noteq> MAX_DOC_ID" "\<forall>x\<in>core_rest st'. and_doc st' < x" using M(1,2) doc by simp_all
      fix st2 assume s2: "and_ok st2" "ai_hasNot st2" "ai_initNOTIterator st2" "ai_core st2 = ai_core st'"
        "ai_currDocOfNOTIter st2 = and_doc st2"
      have "card (core_rest st2) < card (core_rest st)"
        unfolding s2(4) doc(2) using M(3) by (intro psubset_card_mono) auto
      moreover have "set_option (or_cur (ai_not st2)) \<inter> core_rest st2 = {}"
        using s2(1,3,4,5) M(2) doc by (auto simp: and_ok_def synced_def and_doc_def split: option.splits)
      ultimately show "stepped (core_rest st2 - excluded st2) (and_move_not child_ops qops st2)"
        using less.hyps s2(1-3) by blast
    qed
    moreover have "insert (and_doc st') (core_rest st') - excluded st' = core_rest st - excluded st"
      unfolding doc M(3) using less.prems(4) by (auto simp: remaining_def)
    moreover have "and_move_not child_ops qops st = resolve (and_move_not child_ops qops) st'"
      using and_move_not_resolve c(1) b(1) n(1) by (simp add: st'_def)
    ultimately show ?thesis by simp
  qed
qed

lemma stepped_end: "and_ok st \<Longrightarrow> ai_hasNot st \<Longrightarrow> core_rest st = {} \<Longrightarrow> stepped {} (Some (False, st))"
  by (auto simp: stepped_def)

lemma and_next_not_spec:
  assumes ok: "and_ok st0" and has: "ai_hasNot st0"
  shows "stepped (core_rest st0 - excluded st0) (and_next child_ops qops st0)"
proof (cases "and_docIterList (ai_core st0) = []")
  case True
  then have "core_rest st0 = {}" by (simp add: and_rest_def and_all_def)
  then show ?thesis using True has stepped_end [OF ok has] by (simp add: and_next_def)
next
  case ne: False
  define st1 where "st1 = (if ai_initNOTIterator st0 then st0 else not_next child_ops qops (st0\<lparr>ai_initNOTIterator := True\<rparr>))"
  have st1: "and_ok st1" "ai_hasNot st1" "ai_initNOTIterator st1" "ai_core st1 = ai_core st0" "excluded st1 = excluded st0"
    using not_next_spec [of "st0\<lparr>ai_initNOTIterator := True\<rparr>"] ok has
    by (auto simp: st1_def and_ok_def remaining_def split: if_splits)
  have iv: "and_inv (ai_core st1)" "or_inv (ai_not st1)" using st1(1) by (simp_all add: and_ok_def)
  obtain b c where c: "and_core_next child_ops st1 = (b, st1\<lparr>ai_core := c\<rparr>)" "and_inv c"
    "if core_rest st1 = {} then \<not> b \<and> and_rest c = {}
     else b \<and> and_currDoc c = Min (core_rest st1) \<and> and_rest c = core_rest st1 - {Min (core_rest st1)}"
    using and_core_next_spec [OF iv(1)] by blast
  define st where "st = st1\<lparr>ai_core := c\<rparr>"
  have st: "and_ok st" "ai_hasNot st" "ai_initNOTIterator st" "excluded st = excluded st0" "or_inv (ai_not st)"
    using st1 c(2) iv(2) by (simp_all add: st_def and_ok_def)
  have u: "and_next child_ops qops st0 =
      (if and_doc st = ai_currDocOfNOTIter st then and_move_not child_ops qops st
       else if and_doc st < ai_currDocOfNOTIter st then Some (b, st)
       else Option.bind (not_skipTo child_ops qops (and_doc st) st) (\<lambda>st'.
         if and_doc st' = ai_currDocOfNOTIter st' then and_move_not child_ops qops st' else Some (b, st')))"
    using has ne c(1) by (simp add: and_next_def st1_def [symmetric] st_def Let_def)
  have move: "stepped (core_rest st' - excluded st') (and_move_not child_ops qops st')"
    if "and_ok st'" "ai_hasNot st'" "ai_initNOTIterator st'" "\<forall>x\<in>core_rest st'. ai_currDocOfNOTIter st' < x" for st'
    using and_move_not_spec [OF that(1-3)] that(1,3,4)
    by (auto simp: and_ok_def synced_def split: option.splits)
  show ?thesis
  proof (cases "core_rest st0 = {}")
    case True
    then have e: "\<not> b" "core_rest st = {}" using c(3) st1(4) by (simp_all add: st_def)
    obtain n d where S: "not_skipTo child_ops qops (and_doc st) st = Some (st\<lparr>ai_not := n, ai_currDocOfNOTIter := d\<rparr>)"
      "or_inv n" "synced (st\<lparr>ai_not := n, ai_currDocOfNOTIter := d\<rparr>)" using not_skipTo_spec [OF st(5)] by blast
    have s2: "and_ok (st\<lparr>ai_not := n, ai_currDocOfNOTIter := d\<rparr>)" using S st by (simp add: and_ok_def)
    have "stepped {} (and_move_not child_ops qops st')" if "and_ok st'" "ai_hasNot st'" "ai_initNOTIterator st'" "core_rest st' = {}" for st'
      using move [OF that(1-3)] that(4) by simp
    then show ?thesis
      unfolding u S(1) using True e st s2 stepped_end by simp
  next
    case False
    then have f: "b" "and_doc st = Min (core_rest st1)" "core_rest st = core_rest st1 - {Min (core_rest st1)}" "core_rest st1 \<noteq> {}"
      using c(3) st1(4) by (simp_all add: st_def and_doc_def)
    note M = core_rest_min [OF iv(1) f(4)]
    have "stepped (insert (and_doc st) (core_rest st) - excluded st) (resolve (and_move_not child_ops qops) st)"
    proof (rule resolve_spec [OF st(1-3)])
      show "and_doc st \<noteq> MAX_DOC_ID" "\<forall>x\<in>core_rest st. and_doc st < x" using M(1,2) f by simp_all
      fix st2 assume "and_ok st2" "ai_hasNot st2" "ai_initNOTIterator st2" "ai_core st2 = ai_core st" "ai_currDocOfNOTIter st2 = and_doc st2"
      moreover from this have "\<forall>x\<in>core_rest st2. ai_currDocOfNOTIter st2 < x" using M(2) f by (simp add: and_doc_def)
      ultimately show "stepped (core_rest st2 - excluded st2) (and_move_not child_ops qops st2)" by (intro move)
    qed
    moreover have "insert (and_doc st) (core_rest st) = core_rest st0" using M(3) f st1(4) by simp
    moreover have "and_next child_ops qops st0 = resolve (and_move_not child_ops qops) st"
      unfolding u resolve_def eqTrueI [OF f(1)] by simp
    ultimately show ?thesis using st(4) by simp
  qed
qed

end

end
