(* ===== verification/Query_Run.thy ===== *)
theory Query_Run
  imports Query_Iterator
begin

text \<open>
  What a client sees of the iterators of core/search-manager: sequences of calls of \<open>next\<close> and \<open>skipTo\<close> on a
  conjunction, a disjunction and the iterator over all documents, compared with a cursor over a set of documents.
\<close>

section \<open>Building an iterator and calling it\<close>

text \<open>Children are added one by one; each is marked as excluded or not.\<close>

type_synonym 'it query_parts = "(bool \<times> 'it) list"

definition kept :: "'it query_parts \<Rightarrow> 'it list" where
  "kept parts = map snd (filter (\<lambda>p. \<not> fst p) parts)"

definition dropped :: "'it query_parts \<Rightarrow> 'it list" where
  "dropped parts = map snd (filter fst parts)"

definition and_build :: "docid \<Rightarrow> 'it query_parts \<Rightarrow> ('it, 'q) and_iter" where
  "and_build d parts = fold (\<lambda>(isNot, it). and_add isNot it) parts (and_new d)"

definition or_build :: "docid \<Rightarrow> 'it query_parts \<Rightarrow> ('it, 'q) or_iter" where
  "or_build d parts = fold (\<lambda>(isNot, it). oi_add isNot it) parts (oi_new d)"

text \<open>The documents that \<open>n\<close> calls of \<open>next\<close> return, up to the first call that returns \<open>false\<close>.\<close>

fun run_docs :: "('s \<Rightarrow> (bool \<times> 's) option) \<Rightarrow> ('s \<Rightarrow> docid) \<Rightarrow> nat \<Rightarrow> 's \<Rightarrow> docid list option" where
  "run_docs nxt doc 0 st = Some []"
| "run_docs nxt doc (Suc n) st =
     (case nxt st of
        None \<Rightarrow> None
      | Some (ok, st') \<Rightarrow> if ok then map_option ((#) (doc st')) (run_docs nxt doc n st') else Some [])"

text \<open>A sequence of calls of both kinds; a result is a document or none.\<close>

datatype iter_call = Next | SkipTo docid

fun run_call :: "('s \<Rightarrow> (bool \<times> 's) option) \<Rightarrow> (docid \<Rightarrow> 's \<Rightarrow> (docid \<times> 's) option) \<Rightarrow> ('s \<Rightarrow> docid) \<Rightarrow>
    iter_call \<Rightarrow> 's \<Rightarrow> (docid option \<times> 's) option" where
  "run_call nxt skip doc Next st = map_option (\<lambda>(ok, st'). (if ok then Some (doc st') else None, st')) (nxt st)"
| "run_call nxt skip doc (SkipTo t) st = map_option (\<lambda>(d, st'). (if d = MAX_DOC_ID then None else Some d, st')) (skip t st)"

fun run_calls :: "('s \<Rightarrow> (bool \<times> 's) option) \<Rightarrow> (docid \<Rightarrow> 's \<Rightarrow> (docid \<times> 's) option) \<Rightarrow> ('s \<Rightarrow> docid) \<Rightarrow>
    iter_call list \<Rightarrow> 's \<Rightarrow> docid option list option" where
  "run_calls nxt skip doc [] st = Some []"
| "run_calls nxt skip doc (c # cs) st =
     Option.bind (run_call nxt skip doc c st) (\<lambda>(r, st'). map_option ((#) r) (run_calls nxt skip doc cs st'))"

text \<open>The specification: a cursor over a set, at a document or before the first one.\<close>

type_synonym cursor = "docid option \<times> docid set"

definition first_of :: "docid set \<Rightarrow> cursor" where
  "first_of A = (if A = {} then (None, {}) else (Some (Min A), A - {Min A}))"

fun cursor_call :: "iter_call \<Rightarrow> cursor \<Rightarrow> cursor" where
  "cursor_call Next (c, R) = first_of R"
| "cursor_call (SkipTo t) (c, R) = first_of (upto_docs t (set_option c \<union> R))"

fun cursor_calls :: "iter_call list \<Rightarrow> cursor \<Rightarrow> docid option list" where
  "cursor_calls [] s = []"
| "cursor_calls (c # cs) s = (let s' = cursor_call c s in fst s' # cursor_calls cs s')"

section \<open>Simulation\<close>

lemma run_docs_enumerates:
  assumes "I s"
    and step: "\<And>s. I s \<Longrightarrow> \<exists>b s'. nxt s = Some (b, s') \<and>
      (if R s = {} then \<not> b else b \<and> I s' \<and> doc s' = Min (R s) \<and> R s' = R s - {Min (R s)})"
  shows "run_docs nxt doc n s = Some (take n (sorted_list_of_set (R s :: docid set)))"
  using assms(1)
proof (induction n arbitrary: s)
  case 0
  then show ?case by simp
next
  case (Suc n)
  obtain b s' where s': "nxt s = Some (b, s')"
    "if R s = {} then \<not> b else b \<and> I s' \<and> doc s' = Min (R s) \<and> R s' = R s - {Min (R s)}" using step [OF Suc.prems] by blast
  then show ?case using Suc.IH [of s'] sorted_list_of_set_nonempty [of "R s"] by (cases "R s = {}") simp_all
qed

lemma run_calls_refine:
  assumes "I s"
    and step: "\<And>c s. I s \<Longrightarrow>
      \<exists>s'. run_call nxt skip doc c s = Some (fst (cursor_call c (pos s)), s') \<and> I s' \<and> pos s' = cursor_call c (pos s)"
  shows "run_calls nxt skip doc calls s = Some (cursor_calls calls (pos s))"
  using assms(1)
proof (induction calls arbitrary: s)
  case Nil
  then show ?case by simp
next
  case (Cons c cs)
  obtain s' where "run_call nxt skip doc c s = Some (fst (cursor_call c (pos s)), s')" "I s'" "pos s' = cursor_call c (pos s)"
    using step [OF Cons.prems] by blast
  then show ?case using Cons.IH [of s'] by (simp add: Let_def)
qed

context doc_iterator
begin

abbreviation position :: "'it \<Rightarrow> cursor" where
  "position it \<equiv> (cur it, rest it)"

text \<open>An iterator that keeps the contract behaves like a cursor, also as a part of a larger state.\<close>

lemma call_refines:
  assumes I: "\<And>s. I s \<Longrightarrow> inv (part s)"
    and nxt: "\<And>s. I s \<Longrightarrow> nxt s = Some (fst (next_op (part s)), upd s (snd (next_op (part s))))"
    and skip: "\<And>s t. I s \<Longrightarrow> skip t s = Some (fst (skip_op t (part s)), upd s (snd (skip_op t (part s))))"
    and upd: "\<And>s it. I s \<Longrightarrow> inv it \<Longrightarrow> I (upd s it) \<and> part (upd s it) = it"
    and doc: "\<And>s. doc s = doc_op (part s)"
    and s: "I s"
  shows "\<exists>s'. run_call nxt skip doc c s = Some (fst (cursor_call c (position (part s))), s') \<and> I s' \<and>
    position (part s') = cursor_call c (position (part s))"
proof (cases c)
  case Next
  let ?it = "snd (next_op (part s))"
  have n: "inv ?it" "position ?it = first_of (rest (part s))" "fst (next_op (part s)) \<longleftrightarrow> rest (part s) \<noteq> {}"
    using next_end [OF I [OF s]] next_doc [OF I [OF s]] by (auto simp: first_of_def)
  have d: "rest (part s) \<noteq> {} \<Longrightarrow> doc_op ?it = Min (rest (part s))"
    using doc_cur [OF n(1)] next_doc [OF I [OF s]] by simp
  show ?thesis using Next n d upd [OF s n(1)] nxt [OF s] doc by (auto simp: first_of_def)
next
  case (SkipTo t)
  define A where "A = upto_docs t (remaining cur rest (part s))"
  obtain d it where sk: "skip_op t (part s) = (d, it)" by (metis surj_pair)
  have "inv it \<and> position it = first_of A \<and> (if d = MAX_DOC_ID then None else Some d) = fst (first_of A)"
  proof (cases "A = {}")
    case True
    then show ?thesis using skip_end [OF I [OF s], of t] sk by (simp add: first_of_def A_def)
  next
    case False
    then have n: "d = Min A" "inv it" "cur it = Some (Min A)" "rest it = A - {Min A}"
      using skip_doc [OF I [OF s], of t] sk by (simp_all add: A_def)
    have "Min A \<in> A" using False by (intro Min_in) simp_all
    moreover have "MAX_DOC_ID \<notin> A" using no_max [OF I [OF s]] by (simp add: A_def upto_docs_def)
    ultimately have "d \<noteq> MAX_DOC_ID" using n(1) by metis
    then show ?thesis using n False by (simp add: first_of_def)
  qed
  moreover have "cursor_call c (position (part s)) = first_of A" by (simp add: SkipTo A_def remaining_def)
  ultimately show ?thesis using SkipTo upd [OF s, of it] skip [OF s, of t] sk by simp
qed

end

section \<open>New iterators\<close>

lemma and_add_fold:
  "fold (\<lambda>(isNot, it). and_add isNot it) parts st =
     st\<lparr>ai_core := (ai_core st)\<lparr>and_docIterList := and_docIterList (ai_core st) @ kept parts\<rparr>,
        ai_hasNot := (ai_hasNot st \<or> dropped parts \<noteq> []),
        ai_not := (ai_not st)\<lparr>or_docIteratorList := or_docIteratorList (ai_not st) @ map (\<lambda>it. Some (it, False)) (dropped parts)\<rparr>\<rparr>"
  by (induction parts arbitrary: st) (auto simp: and_add_def or_add_def kept_def dropped_def)

lemma oi_add_fold:
  "fold (\<lambda>(isNot, it). oi_add isNot it) parts st =
     st\<lparr>oi_core := (oi_core st)\<lparr>or_docIteratorList := or_docIteratorList (oi_core st) @ map (\<lambda>it. Some (it, False)) (kept parts)\<rparr>,
        oi_hasNot := (oi_hasNot st \<or> dropped parts \<noteq> []),
        oi_not := (oi_not st)\<lparr>or_docIteratorList := or_docIteratorList (oi_not st) @ map (\<lambda>it. Some (it, False)) (dropped parts)\<rparr>\<rparr>"
  by (induction parts arbitrary: st) (auto simp: oi_add_def or_add_def kept_def dropped_def)

definition or_of :: "docid \<Rightarrow> 'it list \<Rightarrow> ('it, 'q) or_core" where
  "or_of d cs = \<lparr>or_docIteratorList = map (\<lambda>it. Some (it, False)) cs, or_queue = None, or_currDoc = d\<rparr>"

definition and_of :: "docid \<Rightarrow> 'it list \<Rightarrow> 'it and_core" where
  "and_of d cs = \<lparr>and_currDoc = d, and_docIterList = cs\<rparr>"

lemma and_build_state:
  "and_build d parts =
     \<lparr>ai_core = and_of d (kept parts), ai_hasNot = (dropped parts \<noteq> []),
      ai_currDocOfNOTIter = MAX_DOC_ID, ai_initNOTIterator = False, ai_not = or_of d (dropped parts)\<rparr>"
  by (simp add: and_build_def and_add_fold and_new_def or_new_def or_of_def and_of_def)

lemma or_build_state:
  "or_build d parts =
     \<lparr>oi_core = or_of d (kept parts), oi_hasNot = (dropped parts \<noteq> []),
      oi_currDocOfNOTIter = MAX_DOC_ID, oi_initNOTIterator = False, oi_not = or_of d (dropped parts)\<rparr>"
  by (simp add: or_build_def oi_add_fold oi_new_def or_new_def or_of_def)

lemma parts_sets: "set (kept parts) \<subseteq> snd ` set parts" "set (dropped parts) \<subseteq> snd ` set parts"
  by (auto simp: kept_def dropped_def)

context or_parts
begin

definition fresh :: "'it \<Rightarrow> bool" where
  "fresh it \<longleftrightarrow> inv it \<and> cur it = None"

lemma or_of_new:
  assumes "\<forall>c\<in>set cs. fresh c" "length cs < 2 ^ 32"
  shows "or_inv (or_of d cs)" "or_cur (or_of d cs) = None" "or_rest (or_of d cs) = \<Union> (rest ` set cs)"
proof -
  let ?l = "map (\<lambda>it. Some (it, False)) cs"
  have p: "present ?l i \<longleftrightarrow> i < length cs" "i < length cs \<Longrightarrow> child ?l i = cs ! i" for i by (auto simp: present_def child_def)
  show "or_inv (or_of d cs)" using assms p by (simp add: or_inv_def or_of_def fresh_def)
  show "or_cur (or_of d cs) = None" by (simp add: or_cur_def or_of_def)
  have "fresh_docs ?l [0..<length cs] = (\<Union>i\<in>{0..<length cs}. rest (cs ! i))"
    unfolding fresh_docs_def using p by (intro SUP_cong) simp_all
  also have "\<dots> = \<Union> (rest ` set cs)" by (force simp: set_conv_nth)
  finally show "or_rest (or_of d cs) = \<Union> (rest ` set cs)" by (simp add: or_rest_def or_of_def)
qed

lemma and_of_new:
  assumes "\<forall>c\<in>set cs. fresh c" "cs \<noteq> []"
  shows "and_inv (and_of d cs)" "and_cur (and_of d cs) = None" "and_rest (and_of d cs) = \<Inter> (rest ` set cs)"
proof -
  show "and_inv (and_of d cs)" using assms by (simp add: and_inv_def and_of_def fresh_def)
  show c: "and_cur (and_of d cs) = None" using assms by (auto simp: and_cur_def all_at_def and_of_def fresh_def neq_Nil_conv)
  show "and_rest (and_of d cs) = \<Inter> (rest ` set cs)"
    unfolding and_rest_def c using assms by (auto simp: and_all_def and_of_def fresh_def remaining_def)
qed

text \<open>Without excluded documents both are cursors.\<close>

lemma and_calls_refine:
  assumes "\<forall>c\<in>set (kept parts). fresh c" "kept parts \<noteq> []" "dropped parts = []"
  shows "run_calls (and_next child_ops qops) (and_skipTo child_ops qops) and_doc calls (and_build d parts) =
    Some (cursor_calls calls (None, \<Inter> (rest ` set (kept parts))))"
proof -
  note N = and_of_new [OF assms(1,2), of d]
  have "run_calls (and_next child_ops qops) (and_skipTo child_ops qops) and_doc calls (and_build d parts) =
      Some (cursor_calls calls (doc_iterator.position and_cur and_rest (ai_core (and_build d parts :: ('it, 'q) and_iter))))"
  proof (rule run_calls_refine [where I = "\<lambda>st. \<not> ai_hasNot st \<and> and_inv (ai_core st)"])
    show "\<not> ai_hasNot (and_build d parts) \<and> and_inv (ai_core (and_build d parts))" using N assms(3) by (simp add: and_build_state)
    fix c and st :: "('it, 'q) and_iter" assume "\<not> ai_hasNot st \<and> and_inv (ai_core st)"
    then show "\<exists>st'. run_call (and_next child_ops qops) (and_skipTo child_ops qops) and_doc c st =
          Some (fst (cursor_call c (and_cur (ai_core st), and_rest (ai_core st))), st') \<and>
        (\<not> ai_hasNot st' \<and> and_inv (ai_core st')) \<and>
        (and_cur (ai_core st'), and_rest (ai_core st')) = cursor_call c (and_cur (ai_core st), and_rest (ai_core st))"
      by (intro doc_iterator.call_refines [OF and_contract, where upd = "\<lambda>st c. st\<lparr>ai_core := c\<rparr>"])
        (auto simp: and_next_def and_core_next_def and_skipTo_def and_doc_def split_beta)
  qed
  then show ?thesis using N by (simp add: and_build_state)
qed

lemma or_calls_refine:
  assumes "\<forall>c\<in>set (kept parts). fresh c" "length (kept parts) < 2 ^ 32" "dropped parts = []"
  shows "run_calls (oi_next child_ops qops) (oi_skipTo child_ops qops) oi_doc calls (or_build d parts) =
    Some (cursor_calls calls (None, \<Union> (rest ` set (kept parts))))"
proof -
  note N = or_of_new [OF assms(1,2), of d]
  have some: "or_inv st \<Longrightarrow> or_do_skipTo child_ops qops t st = Some (or_skip_op t st)" for t and st :: "('it, 'q) or_core"
    using or_do_skipTo_spec [of st t] by (auto simp: or_skip_op_def)
  have "run_calls (oi_next child_ops qops) (oi_skipTo child_ops qops) oi_doc calls (or_build d parts) =
      Some (cursor_calls calls (doc_iterator.position or_cur or_rest (oi_core (or_build d parts :: ('it, 'q) or_iter))))"
  proof (rule run_calls_refine [where I = "\<lambda>st. \<not> oi_hasNot st \<and> or_inv (oi_core st)"])
    show "\<not> oi_hasNot (or_build d parts) \<and> or_inv (oi_core (or_build d parts))" using N assms(3) by (simp add: or_build_state)
    fix c and st :: "('it, 'q) or_iter" assume "\<not> oi_hasNot st \<and> or_inv (oi_core st)"
    then show "\<exists>st'. run_call (oi_next child_ops qops) (oi_skipTo child_ops qops) oi_doc c st =
          Some (fst (cursor_call c (or_cur (oi_core st), or_rest (oi_core st))), st') \<and>
        (\<not> oi_hasNot st' \<and> or_inv (oi_core st')) \<and>
        (or_cur (oi_core st'), or_rest (oi_core st')) = cursor_call c (or_cur (oi_core st), or_rest (oi_core st))"
      by (intro doc_iterator.call_refines [OF or_contract, where upd = "\<lambda>st c. st\<lparr>oi_core := c\<rparr>"])
        (auto simp: oi_next_def oi_core_next_def oi_skipTo_def oi_doc_def some split_beta)
  qed
  then show ?thesis using N by (simp add: or_build_state)
qed

text \<open>A conjunction with excluded documents.\<close>

lemma and_not_enumerates:
  assumes "\<forall>c\<in>set (kept parts @ dropped parts). fresh c" "kept parts \<noteq> []" "length (dropped parts) < 2 ^ 32" "dropped parts \<noteq> []"
  shows "run_docs (and_next child_ops qops) and_doc n (and_build d parts) =
    Some (take n (sorted_list_of_set (\<Inter> (rest ` set (kept parts)) - \<Union> (rest ` set (dropped parts)))))"
proof -
  let ?st = "and_build d parts :: ('it, 'q) and_iter"
  have K: "\<forall>c\<in>set (kept parts). fresh c" and D: "\<forall>c\<in>set (dropped parts). fresh c" using assms(1) by auto
  note A = and_of_new [OF K assms(2), of d] and O = or_of_new [OF D assms(3), of d]
  have "run_docs (and_next child_ops qops) and_doc n ?st = Some (take n (sorted_list_of_set (core_rest ?st - excluded ?st)))"
  proof (rule run_docs_enumerates [where I = "\<lambda>st. and_ok st \<and> ai_hasNot st"])
    show "and_ok ?st \<and> ai_hasNot ?st" using A O assms(4) by (simp add: and_build_state and_ok_def)
    fix st assume "and_ok st \<and> ai_hasNot st"
    then show "\<exists>b st'. and_next child_ops qops st = Some (b, st') \<and>
        (if core_rest st - excluded st = {} then \<not> b
         else b \<and> (and_ok st' \<and> ai_hasNot st') \<and> and_doc st' = Min (core_rest st - excluded st) \<and>
           core_rest st' - excluded st' = core_rest st - excluded st - {Min (core_rest st - excluded st)})"
      using and_next_not_spec [of st] unfolding stepped_def by fastforce
  qed
  then show ?thesis using A O by (simp add: and_build_state remaining_def)
qed

text \<open>\<open>skipTo\<close> a matching document that is excluded.\<close>

lemma and_skipTo_excluded:
  assumes "\<forall>c\<in>set (kept parts @ dropped parts). fresh c" "length (dropped parts) < 2 ^ 32"
    "kept parts \<noteq> []" "t \<in> \<Inter> (rest ` set (kept parts))" "t \<in> \<Union> (rest ` set (dropped parts))"
  shows "\<exists>st. and_skipTo child_ops qops t (and_build d parts) = Some (MAX_DOC_ID, st)"
proof -
  let ?st = "and_build d parts :: ('it, 'q) and_iter"
  have K: "\<forall>c\<in>set (kept parts). fresh c" and D: "\<forall>c\<in>set (dropped parts). fresh c" using assms(1) by auto
  note A = and_of_new [OF K assms(3), of d] and O = or_of_new [OF D assms(2), of d]
  have "dropped parts \<noteq> []" using assms(5) by auto
  then have has: "ai_hasNot ?st" "ai_not ?st = or_of d (dropped parts)" "ai_core ?st = and_of d (kept parts)"
    by (simp_all add: and_build_state)
  have least: "Min (upto_docs t X) = t" if "t \<in> X" for X using that by (intro Min_eqI) (auto simp: upto_docs_def)
  have a: "t \<in> remaining and_cur and_rest (ai_core ?st)" using A assms(4) by (simp add: has remaining_def)
  obtain c where c: "and_do_skipTo child_ops t (ai_core ?st) = (t, c)"
    using doc_iterator.skip_doc [OF and_contract, of "ai_core ?st" t] A(1) a least [OF a]
    by (metis (no_types, lifting) has(3) prod.collapse upto_docs_mono order_refl)
  have o: "t \<in> remaining or_cur or_rest (ai_not ?st)" using O assms(5) by (simp add: has remaining_def)
  then have ne: "upto_docs t (remaining or_cur or_rest (ai_not ?st)) \<noteq> {}" by (auto simp: upto_docs_def)
  obtain n where n: "or_do_skipTo child_ops qops t (ai_not ?st) = Some (t, n)"
    using or_do_skipTo_spec [of "ai_not ?st" t] O(1) ne least [OF o] by (auto simp: has(2) Let_def)
  have "t \<noteq> MAX_DOC_ID" using doc_iterator.no_max [OF or_contract, of "ai_not ?st"] O(1) o by (auto simp: has(2))
  then show ?thesis
    using has(1) c n unfolding and_skipTo_def by (subst and_skip_not_loop.simps) (simp add: not_skipTo_def)
qed

text \<open>\<open>next\<close> of a disjunction with excluded documents.\<close>

lemma oi_core_next_found:
  assumes "or_inv (oi_core st)" "or_rest (oi_core st) \<noteq> {}"
  shows "\<exists>c. oi_core_next child_ops qops st = (True, st\<lparr>oi_core := c\<rparr>) \<and> or_inv c \<and> or_currDoc c = Min (or_rest (oi_core st)) \<and>
    or_rest c = or_rest (oi_core st) - {Min (or_rest (oi_core st))}"
proof -
  obtain b c where c: "or_do_next child_ops qops (oi_core st) = (b, c)" by (metis surj_pair)
  note N = doc_iterator.next_doc [OF or_contract assms, unfolded c fst_conv snd_conv]
  then show ?thesis using doc_iterator.doc_cur [OF or_contract, of c] by (auto simp: oi_core_next_def c)
qed

lemma oi_not_next_found:
  assumes "or_inv (oi_not st)" "or_rest (oi_not st) \<noteq> {}"
  shows "\<exists>n. oi_not_next child_ops qops st = st\<lparr>oi_not := n, oi_currDocOfNOTIter := Min (or_rest (oi_not st))\<rparr> \<and> or_inv n \<and>
    or_rest n = or_rest (oi_not st) - {Min (or_rest (oi_not st))}"
proof -
  obtain b n where n: "or_do_next child_ops qops (oi_not st) = (b, n)" by (metis surj_pair)
  note N = doc_iterator.next_doc [OF or_contract assms, unfolded n fst_conv snd_conv]
  then show ?thesis using doc_iterator.doc_cur [OF or_contract, of n] by (auto simp: oi_not_next_def n)
qed

lemma or_next_excluded:
  assumes "\<forall>c\<in>set (kept parts @ dropped parts). fresh c" "length (kept parts) < 2 ^ 32" "length (dropped parts) < 2 ^ 32"
    and m: "Min (\<Union> (rest ` set (kept parts))) = Min (\<Union> (rest ` set (dropped parts)))"
      "\<Union> (rest ` set (kept parts)) - {Min (\<Union> (rest ` set (kept parts)))} \<noteq> {}"
      "\<Union> (rest ` set (dropped parts)) - {Min (\<Union> (rest ` set (dropped parts)))} \<noteq> {}"
      "Min (\<Union> (rest ` set (dropped parts)) - {Min (\<Union> (rest ` set (dropped parts)))}) <
       Min (\<Union> (rest ` set (kept parts)) - {Min (\<Union> (rest ` set (kept parts)))})"
  shows "\<exists>st. oi_next child_ops qops (or_build d parts) = Some (True, st) \<and>
    oi_doc st = Min (\<Union> (rest ` set (kept parts)) - {Min (\<Union> (rest ` set (kept parts)))})"
proof -
  define R where "R = \<Union> (rest ` set (kept parts))"
  define E where "E = \<Union> (rest ` set (dropped parts))"
  define st0 :: "('it, 'q) or_iter" where "st0 = (or_build d parts)\<lparr>oi_initNOTIterator := True\<rparr>"
  have K: "\<forall>c\<in>set (kept parts). fresh c" and D: "\<forall>c\<in>set (dropped parts). fresh c" using assms(1) by auto
  have s0: "or_inv (oi_core st0)" "or_rest (oi_core st0) = R" "or_inv (oi_not st0)" "or_rest (oi_not st0) = E"
    using or_of_new [OF K assms(2), of d] or_of_new [OF D assms(3), of d] by (simp_all add: st0_def or_build_state R_def E_def)
  have ne: "R \<noteq> {}" "E \<noteq> {}" "R - {Min R} \<noteq> {}" "E - {Min E} \<noteq> {}" using m by (auto simp: R_def E_def)
  obtain n1 where n1: "oi_not_next child_ops qops st0 = st0\<lparr>oi_not := n1, oi_currDocOfNOTIter := Min E\<rparr>" "or_inv n1" "or_rest n1 = E - {Min E}"
    using oi_not_next_found [of st0] s0 ne by auto
  define st1 where "st1 = st0\<lparr>oi_not := n1, oi_currDocOfNOTIter := Min E\<rparr>"
  obtain c1 where c1: "oi_core_next child_ops qops st1 = (True, st1\<lparr>oi_core := c1\<rparr>)" "or_inv c1" "or_currDoc c1 = Min R" "or_rest c1 = R - {Min R}"
    using oi_core_next_found [of st1] s0 ne by (auto simp: st1_def)
  define st2 where "st2 = st1\<lparr>oi_core := c1\<rparr>"
  obtain c2 where c2: "oi_core_next child_ops qops st2 = (True, st2\<lparr>oi_core := c2\<rparr>)" "or_currDoc c2 = Min (R - {Min R})"
    using oi_core_next_found [of st2] c1 ne by (auto simp: st2_def)
  obtain n2 where n2: "oi_not_next child_ops qops (st2\<lparr>oi_core := c2\<rparr>) = st2\<lparr>oi_core := c2, oi_not := n2, oi_currDocOfNOTIter := Min (E - {Min E})\<rparr>"
    using oi_not_next_found [of "st2\<lparr>oi_core := c2\<rparr>"] n1 ne by (auto simp: st2_def st1_def)
  have lt: "Min (E - {Min E}) < Min (R - {Min R})" "Min R = Min E" using m by (simp_all add: R_def E_def)
  have move: "oi_move_not child_ops qops st2 = Some (True, st2\<lparr>oi_core := c2, oi_not := n2, oi_currDocOfNOTIter := Min (E - {Min E})\<rparr>)"
    by (subst oi_move_not.simps) (use less_imp_neq [OF lt(1)] in \<open>simp add: c2 n2 oi_doc_def Let_def eq_commute\<close>)
  have "dropped parts \<noteq> []" using ne(2) by (auto simp: E_def)
  then have b: "oi_hasNot (or_build d parts :: ('it, 'q) or_iter)" "\<not> oi_initNOTIterator (or_build d parts :: ('it, 'q) or_iter)" by (simp_all add: or_build_state)
  have "oi_doc st2 = oi_currDocOfNOTIter st2" using c1(3) lt(2) by (simp add: st2_def st1_def oi_doc_def)
  then have "oi_next child_ops qops (or_build d parts) = oi_move_not child_ops qops st2"
    using b n1(1) c1(1) by (simp add: oi_next_def Let_def st0_def [symmetric] st1_def [symmetric] st2_def [symmetric])
  then show ?thesis using move c2(2) by (simp add: oi_doc_def R_def)
qed

end

section \<open>A posting reader in memory\<close>

text \<open>
  The reader of a posting list is a parameter of the model; this one reads an ascending list and shows that
  the contract can be kept. Its documents are iterated by \<open>FilterDocumentIterator\<close>.
\<close>

type_synonym post = "docid option \<times> docid list"

fun post_list :: "post \<Rightarrow> docid list" where
  "post_list (None, ds) = ds"
| "post_list (Some d, ds) = d # ds"

definition post_inv :: "post \<Rightarrow> bool" where
  "post_inv p \<longleftrightarrow> sorted_wrt (<) (post_list p) \<and> MAX_DOC_ID \<notin> set (post_list p)"

definition post_rest :: "post \<Rightarrow> docid set" where
  "post_rest p = set (snd p)"

fun post_first :: "docid list \<Rightarrow> post" where
  "post_first [] = (None, [])"
| "post_first (d # ds) = (Some d, ds)"

definition post_reader :: "post iter_ops" where
  "post_reader =
     \<lparr>it_next = (\<lambda>(c, ds). (ds \<noteq> [], post_first ds)),
      it_doc = (\<lambda>(c, ds). case c of None \<Rightarrow> MAX_DOC_ID | Some d \<Rightarrow> d),
      it_skipTo = (\<lambda>t p. case dropWhile (\<lambda>d. d < t) (post_list p) of
         [] \<Rightarrow> (MAX_DOC_ID, (None, [])) | d # ds \<Rightarrow> (d, (Some d, ds)))\<rparr>"

definition filter_ops :: "'t iter_ops \<Rightarrow> 't iter_ops" where
  "filter_ops tops = \<lparr>it_next = filter_next tops, it_doc = filter_doc tops, it_skipTo = filter_skipTo tops\<rparr>"

lemma filter_ops_forward [simp]: "filter_ops tops = tops"
  by (cases tops) (simp add: filter_ops_def filter_next_def [abs_def] filter_doc_def [abs_def] filter_skipTo_def [abs_def])

lemma post_remaining: "remaining fst post_rest p = set (post_list p)"
  by (cases p rule: post_list.cases) (auto simp: remaining_def post_rest_def)

lemma sorted_drop_below:
  assumes "sorted_wrt (<) ds"
  shows "set (dropWhile (\<lambda>d. d < t) ds) = upto_docs t (set ds)" "sorted_wrt (<) (dropWhile (\<lambda>d. d < t) ds)"
proof -
  show "set (dropWhile (\<lambda>d. d < t) ds) = upto_docs t (set ds)"
    using assms by (induction ds) (auto simp: upto_docs_def not_less intro: less_imp_le less_trans order_trans)
  show "sorted_wrt (<) (dropWhile (\<lambda>d. d < t) ds)"
    using assms by (metis sorted_wrt_append takeWhile_dropWhile_id)
qed

lemma sorted_min: "sorted_wrt (<) (d # ds) \<Longrightarrow> Min (set (d # ds)) = d \<and> set (d # ds) - {d} = set (ds :: docid list)"
  by (intro conjI Min_eqI) (auto simp: order_less_le)

lemma post_reader_contract:
  "doc_iterator (it_next post_reader) (it_doc post_reader) (it_skipTo post_reader) post_inv fst post_rest"
proof
  fix p :: post and d x t :: docid
  assume p: "post_inv p"
  obtain c ds where pc: "p = (c, ds)" by (cases p)
  have s: "sorted_wrt (<) ds" "MAX_DOC_ID \<notin> set ds" using p pc by (cases c; simp add: post_inv_def)+
  show "MAX_DOC_ID \<notin> remaining fst post_rest p" using p by (simp only: post_remaining post_inv_def) simp
  show "d < x" if "fst p = Some d" "x \<in> post_rest p" using p pc that by (auto simp: post_inv_def post_rest_def)
  show "it_doc post_reader p = d" if "fst p = Some d" using pc that by (simp add: post_reader_def)
  show "\<not> fst (it_next post_reader p) \<and> post_inv (snd (it_next post_reader p)) \<and> fst (snd (it_next post_reader p)) = None \<and>
      post_rest (snd (it_next post_reader p)) = {}" if "post_rest p = {}"
    using pc that by (simp add: post_reader_def post_rest_def post_inv_def)
  show "fst (it_next post_reader p) \<and> post_inv (snd (it_next post_reader p)) \<and>
      fst (snd (it_next post_reader p)) = Some (Min (post_rest p)) \<and>
      post_rest (snd (it_next post_reader p)) = post_rest p - {Min (post_rest p)}" if ne: "post_rest p \<noteq> {}"
  proof -
    obtain e es where ds: "ds = e # es" using pc ne by (cases ds) (auto simp: post_rest_def)
    then show ?thesis using pc s sorted_min [of e es] by (simp add: post_reader_def post_rest_def post_inv_def)
  qed
  let ?A = "upto_docs t (remaining fst post_rest p)"
  have full: "sorted_wrt (<) (post_list p)" "MAX_DOC_ID \<notin> set (post_list p)" using p by (simp_all add: post_inv_def)
  have D: "set (dropWhile (\<lambda>d. d < t) (post_list p)) = ?A" "sorted_wrt (<) (dropWhile (\<lambda>d. d < t) (post_list p))"
    using sorted_drop_below [OF full(1), of t] by (simp_all only: post_remaining)
  have notmax: "MAX_DOC_ID \<notin> ?A" using full(2) by (simp add: post_remaining upto_docs_def)
  show "fst (it_skipTo post_reader t p) = MAX_DOC_ID \<and> post_inv (snd (it_skipTo post_reader t p)) \<and>
      fst (snd (it_skipTo post_reader t p)) = None \<and> post_rest (snd (it_skipTo post_reader t p)) = {}" if "?A = {}"
  proof -
    have "dropWhile (\<lambda>d. d < t) (post_list p) = []" using D(1) that by (metis set_empty)
    then have "it_skipTo post_reader t p = (MAX_DOC_ID, (None, []))" unfolding post_reader_def iter_ops.simps by (simp only: list.case)
    then show ?thesis by (simp add: post_inv_def post_rest_def)
  qed
  show "fst (it_skipTo post_reader t p) = Min ?A \<and> post_inv (snd (it_skipTo post_reader t p)) \<and>
      fst (snd (it_skipTo post_reader t p)) = Some (Min ?A) \<and> post_rest (snd (it_skipTo post_reader t p)) = ?A - {Min ?A}" if ne: "?A \<noteq> {}"
  proof -
    obtain e es where ds: "dropWhile (\<lambda>d. d < t) (post_list p) = e # es" using ne D(1) by (cases "dropWhile (\<lambda>d. d < t) (post_list p)") auto
    have so: "sorted_wrt (<) (e # es)" "set (e # es) = ?A" using D ds by simp_all
    have m: "Min ?A = e" "?A - {e} = set es" using sorted_min [OF so(1)] unfolding so(2) by blast+
    note so
    then show ?thesis using m notmax ds by (auto simp: post_reader_def post_inv_def post_rest_def)
  qed
qed

interpretation post: or_parts "it_next (filter_ops post_reader)" "it_doc (filter_ops post_reader)"
  "it_skipTo (filter_ops post_reader)" post_inv fst post_rest heap_queue "\<lambda>key. pq_inv (key_less key)" pq_maxSize
  unfolding filter_ops_forward by (intro or_parts.intro post_reader_contract heap_q.iter_queue_axioms)

interpretation conj: doc_iterator "and_do_next post.child_ops" and_currDoc "and_do_skipTo post.child_ops"
  post.and_inv post.and_cur post.and_rest
  by (rule post.and_contract)

interpretation disj: doc_iterator "or_do_next post.child_ops heap_queue" or_currDoc post.or_skip_op
  post.or_inv post.or_cur post.or_rest
  by (rule post.or_contract)


section \<open>The iterator over all documents\<close>

text \<open>
  The reader of the deleted documents keeps the contract. Before each call \<open>currDoc_\<close> is below \<open>currDelDoc_\<close>, the
  least deleted document to come, or equal to it when that document was the last one returned.
\<close>

context doc_iterator
begin

definition del_docs :: "'it all_iter \<Rightarrow> docid set" where
  "del_docs st = (case al_del st of None \<Rightarrow> {} | Some t \<Rightarrow> remaining cur rest t)"

definition del_synced :: "'it all_iter \<Rightarrow> bool" where
  "del_synced st \<longleftrightarrow> (case al_del st of None \<Rightarrow> True | Some t \<Rightarrow> inv t \<and>
     (case cur t of Some d \<Rightarrow> al_currDelDoc st = d | None \<Rightarrow> al_currDelDoc st = MAX_DOC_ID \<and> rest t = {}))"

definition all_to_come :: "'it all_iter \<Rightarrow> docid set" where
  "all_to_come st = {al_currDoc st <.. al_maxDoc st} - del_docs st"

definition all_ok :: "'it all_iter \<Rightarrow> bool" where
  "all_ok st \<longleftrightarrow> del_synced st \<and> al_maxDoc st < 0xFFFFFFFE \<and> al_currDoc st \<le> al_maxDoc st \<and>
     (al_del st \<noteq> None \<longrightarrow> al_currDoc st < al_currDelDoc st)"

lemma del_next_spec:
  assumes "al_del st = Some t" "inv t"
  shows "del_synced (del_next child_ops st) \<and> (\<exists>t'. al_del (del_next child_ops st) = Some t') \<and>
    del_docs (del_next child_ops st) = rest t \<and> al_currDoc (del_next child_ops st) = al_currDoc st \<and>
    al_maxDoc (del_next child_ops st) = al_maxDoc st"
proof -
  obtain ok t' where n: "next_op t = (ok, t')" by (metis surj_pair)
  have eq: "del_next child_ops st = st\<lparr>al_del := Some t', al_currDelDoc := (if ok then doc_op t' else MAX_DOC_ID)\<rparr>"
    using assms(1) n by (simp add: del_next_def child_ops_def)
  show ?thesis
  proof (cases "rest t = {}")
    case True
    then show ?thesis using next_end [OF assms(2)] n unfolding eq by (simp add: del_synced_def del_docs_def remaining_def)
  next
    case False
    then have r: "ok" "inv t'" "cur t' = Some (Min (rest t))" "rest t' = rest t - {Min (rest t)}" using next_doc [OF assms(2)] n by auto
    have "remaining cur rest t' = rest t" unfolding remaining_def r(3,4) using Min_in [of "rest t"] False by (simp add: insert_absorb)
    then show ?thesis using r doc_cur [OF r(2,3)] unfolding eq by (simp add: del_synced_def del_docs_def)
  qed
qed

lemma del_synced_least:
  assumes "del_synced st" "al_del st \<noteq> None"
  shows "x \<in> del_docs st \<Longrightarrow> al_currDelDoc st \<le> x"
    and "al_currDelDoc st \<noteq> MAX_DOC_ID \<Longrightarrow> al_currDelDoc st \<in> del_docs st"
  using assms ordered by (auto simp: del_synced_def del_docs_def remaining_def less_imp_le split: option.splits)

text \<open>The outcome of \<open>next\<close>.\<close>

definition all_outcome :: "docid set \<Rightarrow> (bool \<times> 'it all_iter) option \<Rightarrow> bool" where
  "all_outcome R r \<longleftrightarrow>
     (\<exists>b st'. r = Some (b, st') \<and>
        (if R = {} then \<not> b else b \<and> all_ok st' \<and> al_currDoc st' = Min R \<and> all_to_come st' = R - {Min R}))"

lemma all_settle:
  assumes "del_synced st" "al_maxDoc st < 0xFFFFFFFE" "al_del st \<noteq> None \<Longrightarrow> al_currDoc st < al_currDelDoc st"
  shows "all_outcome ({al_currDoc st .. al_maxDoc st} - del_docs st) (Some (al_currDoc st \<le> al_maxDoc st, st))"
proof (cases "al_currDoc st \<le> al_maxDoc st")
  case True
  have nd: "al_currDoc st \<notin> del_docs st" using del_synced_least(1) [OF assms(1)] assms(3) by (force simp: del_docs_def)
  have "Min ({al_currDoc st .. al_maxDoc st} - del_docs st) = al_currDoc st" using True nd by (intro Min_eqI) auto
  moreover have "all_to_come st = {al_currDoc st .. al_maxDoc st} - del_docs st - {al_currDoc st}"
    by (auto simp: all_to_come_def order_less_le)
  ultimately show ?thesis using True nd assms by (auto simp: all_outcome_def all_ok_def)
next
  case False
  then show ?thesis by (auto simp: all_outcome_def)
qed

lemma next_id: "d < 0xFFFFFFFF \<Longrightarrow> {d <.. m} = {d + 1 .. m :: docid}" "d < 0xFFFFFFFF \<Longrightarrow> d < d + 1"
proof -
  assume d: "d < 0xFFFFFFFF"
  then show lt: "d < d + 1" by (simp add: word_less_nat_alt unat_word_ariths)
  show "{d <.. m} = {d + 1 .. m}" using lt by (auto simp: inc_le intro: less_le_trans)
qed

lemma move_with_del_spec:
  assumes "del_synced st" "al_maxDoc st < 0xFFFFFFFE" "al_del st \<noteq> None" "al_currDoc st = al_currDelDoc st" "al_currDoc st \<le> al_maxDoc st"
  shows "all_outcome (all_to_come st) (move_with_del child_ops st)"
  using assms
proof (induction "unat (al_maxDoc st) - unat (al_currDoc st)" arbitrary: st rule: less_induct)
  case less
  obtain t where t: "al_del st = Some t" "inv t" using less.prems(1,3) by (auto simp: del_synced_def)
  have small: "al_currDoc st < 0xFFFFFFFE" using less.prems(2,5) by simp
  then have small': "al_currDoc st < 0xFFFFFFFF" by (simp add: word_less_nat_alt)
  define st' where "st' = del_next child_ops (st\<lparr>al_currDoc := al_currDoc st + 1\<rparr>)"
  have s: "del_synced st'" "al_del st' \<noteq> None" "del_docs st' = rest t" "al_currDoc st' = al_currDoc st + 1" "al_maxDoc st' = al_maxDoc st"
    using del_next_spec [of "st\<lparr>al_currDoc := al_currDoc st + 1\<rparr>" t] t by (auto simp: st'_def)
  have "al_currDoc st \<noteq> MAX_DOC_ID" using small by (auto simp: MAX_DOC_ID_def)
  then have c: "cur t = Some (al_currDoc st)" using less.prems(1,4) t by (auto simp: del_synced_def split: option.splits)
  have R: "all_to_come st = {al_currDoc st' .. al_maxDoc st'} - del_docs st'"
    unfolding s(3,4,5) next_id(1) [OF small', symmetric] using t c by (auto simp: all_to_come_def del_docs_def remaining_def)
  have le: "al_currDoc st' \<le> al_currDelDoc st'"
  proof (cases "al_currDelDoc st' = MAX_DOC_ID")
    case True
    then show ?thesis using unsigned_less [where w = "al_currDoc st'" and 'a = nat] by (simp add: MAX_DOC_ID_def word_le_nat_alt)
  next
    case False
    then have "al_currDelDoc st' \<in> rest t" using del_synced_least(2) [OF s(1,2)] s(3) by simp
    then show ?thesis using ordered [OF t(2) c] s(4) by (simp add: inc_le)
  qed
  have un: "move_with_del child_ops st =
      (if al_currDoc st' = al_currDelDoc st' \<and> al_currDoc st' \<le> al_maxDoc st' then move_with_del child_ops st'
       else Some (al_currDoc st' \<le> al_maxDoc st', st'))"
    by (subst move_with_del.simps) (simp only: st'_def Let_def)
  show ?case
  proof (cases "al_currDoc st' = al_currDelDoc st' \<and> al_currDoc st' \<le> al_maxDoc st'")
    case True
    then have hit: "al_currDoc st' = al_currDelDoc st'" "al_currDoc st' \<le> al_maxDoc st'" by blast+
    have "unat (al_maxDoc st') - unat (al_currDoc st') < unat (al_maxDoc st) - unat (al_currDoc st)"
    proof -
      have "unat (al_currDoc st) < unat (al_currDoc st')" "unat (al_currDoc st') \<le> unat (al_maxDoc st)"
        using conjunct2 [OF True] next_id(2) [OF small'] s(4,5) by (simp_all add: word_less_nat_alt word_le_nat_alt)
      then show ?thesis unfolding s(5) by linarith
    qed
    then have "all_outcome (all_to_come st') (move_with_del child_ops st')"
      by (rule less.hyps [OF _ s(1) _ s(2) hit]) (use s(5) less.prems(2) in simp_all)
    moreover have "al_currDoc st' \<in> del_docs st'"
    proof -
      have "al_currDelDoc st' \<noteq> MAX_DOC_ID" using True s(5) less.prems(2) by (auto simp: MAX_DOC_ID_def word_le_nat_alt word_less_nat_alt)
      then show ?thesis using del_synced_least(2) [OF s(1,2)] True by simp
    qed
    then have "all_to_come st' = all_to_come st" unfolding R by (auto simp: all_to_come_def order_less_le)
    ultimately show ?thesis using un hit by simp
  next
    case False
    show ?thesis
    proof (cases "al_currDoc st' \<le> al_maxDoc st'")
      case True
      then have "al_currDoc st' < al_currDelDoc st'" using False le by (simp add: order_less_le)
      then show ?thesis using un False all_settle [OF s(1)] s(5) less.prems(2) unfolding R by auto
    next
      case gt: False
      then show ?thesis using un False unfolding R by (auto simp: all_outcome_def)
    qed
  qed
qed

lemma move_with_del_past:
  assumes "al_del st \<noteq> None" "del_synced st" "\<not> al_currDoc st + 1 \<le> al_maxDoc st"
  shows "\<exists>x. move_with_del child_ops st = Some (False, x)"
proof -
  obtain t where t: "al_del st = Some t" "inv t" using assms(1,2) by (auto simp: del_synced_def)
  show ?thesis
    using del_next_spec [of "st\<lparr>al_currDoc := al_currDoc st + 1\<rparr>" t] t assms(3)
    by (subst move_with_del.simps) (simp add: Let_def)
qed

lemma all_next_spec:
  assumes "all_ok st"
  shows "all_outcome (all_to_come st) (all_next child_ops st)"
proof -
  define st' where "st' = st\<lparr>al_currDoc := al_currDoc st + 1\<rparr>"
  have ok: "del_synced st" "al_maxDoc st < 0xFFFFFFFE" "al_currDoc st \<le> al_maxDoc st" using assms by (simp_all add: all_ok_def)
  then have small: "al_currDoc st < 0xFFFFFFFE" by simp
  then have small': "al_currDoc st < 0xFFFFFFFF" by (simp add: word_less_nat_alt)
  have s: "del_synced st'" "al_maxDoc st' = al_maxDoc st" "del_docs st' = del_docs st" "al_del st' = al_del st"
    "al_currDelDoc st' = al_currDelDoc st"
    using ok by (auto simp: st'_def del_synced_def del_docs_def split: option.splits)
  have R: "all_to_come st = {al_currDoc st' .. al_maxDoc st'} - del_docs st'"
    unfolding all_to_come_def next_id(1) [OF small'] s by (simp add: st'_def)
  have le: "al_del st' \<noteq> None \<Longrightarrow> al_currDoc st' \<le> al_currDelDoc st'"
    using assms by (simp add: st'_def all_ok_def inc_le)
  consider (clear) "al_del st' = None \<or> al_currDoc st' < al_currDelDoc st'"
    | (hit) "al_del st' \<noteq> None" "al_currDoc st' = al_currDelDoc st'" using le order_le_less by blast
  then show ?thesis
  proof cases
    case clear
    then have "all_next child_ops st = Some (al_currDoc st' \<le> al_maxDoc st', st')"
      by (auto simp: all_next_def st'_def Let_def)
    then show ?thesis using all_settle [OF s(1)] clear ok(2) s(2) unfolding R by auto
  next
    case hit
    have u: "all_next child_ops st = move_with_del child_ops st'"
      using hit by (auto simp: all_next_def st'_def Let_def)
    show ?thesis
    proof (cases "al_currDoc st' \<le> al_maxDoc st'")
      case True
      then have "al_currDelDoc st' \<noteq> MAX_DOC_ID" using hit(2) ok(2) s(2)
        by (auto simp: MAX_DOC_ID_def word_le_nat_alt word_less_nat_alt)
      then have "al_currDoc st' \<in> del_docs st'" using del_synced_least(2) [OF s(1) hit(1)] hit(2) by simp
      then have "all_to_come st = all_to_come st'" unfolding R by (auto simp: all_to_come_def order_less_le)
      then show ?thesis using move_with_del_spec [OF s(1) _ hit True] ok(2) s(2) u by simp
    next
      case False
      then have "all_to_come st = {}" unfolding R by simp
      moreover have "\<exists>x. move_with_del child_ops st' = Some (False, x)"
      proof (rule move_with_del_past)
        show "al_del st' \<noteq> None" "del_synced st'" using hit(1) s(1) by simp_all
        have "al_currDoc st + 1 < 0xFFFFFFFF" using small next_id(2) [OF small'] by (simp add: word_less_nat_alt unat_word_ariths)
        then show "\<not> al_currDoc st' + 1 \<le> al_maxDoc st'"
          using False next_id(2) [of "al_currDoc st'"] by (auto simp: st'_def)
      qed
      ultimately show ?thesis using u by (auto simp: all_outcome_def)
    qed
  qed
qed

end


section \<open>Properties\<close>

lemma child_ops_eta:
  assumes "doc_iterator (it_next ops) (it_doc ops) (it_skipTo ops) ok cur rest"
  shows "doc_iterator.child_ops (it_next ops) (it_doc ops) (it_skipTo ops) = ops"
  by (simp add: doc_iterator.child_ops_def [OF assms])

text \<open>C2: A conjunction and a disjunction without excluded children, built by adding children that keep the iterator contract,
  refine a cursor over the intersection and the union of the children's documents: for every sequence of calls of next
  and skipTo they return what the cursor returns, and no call runs forever.
\<close>

theorem iterators_refine_cursor:
  assumes "doc_iterator (it_next ops) (it_doc ops) (it_skipTo ops) ok cur rest"
    and "list_all (\<lambda>c. ok c \<and> cur c = None) cs" "cs \<noteq> []" "length cs < 2 ^ 32"
  defines "parts \<equiv> map (Pair False) cs"
  shows "run_calls (and_next ops heap_queue) (and_skipTo ops heap_queue) and_doc calls (and_build d parts) =
      Some (cursor_calls calls (None, \<Inter> (rest ` set cs))) \<and>
    run_calls (oi_next ops heap_queue) (oi_skipTo ops heap_queue) oi_doc calls (or_build d parts) =
      Some (cursor_calls calls (None, \<Union> (rest ` set cs)))"
proof -
  note P = or_parts.intro [OF assms(1) heap_q.iter_queue_axioms]
  have ops: "doc_iterator.child_ops (it_next ops) (it_doc ops) (it_skipTo ops) = ops"
    by (rule child_ops_eta [OF assms(1)])
  have k: "kept parts = cs" "dropped parts = []" by (simp_all add: parts_def kept_def dropped_def comp_def)
  have f: "\<forall>c\<in>set (kept parts). or_parts.fresh ok cur c"
    using assms(2) by (simp add: or_parts.fresh_def [OF P] k list_all_iff)
  show ?thesis
    using or_parts.and_calls_refine [OF P f _ k(2), where d = d] or_parts.or_calls_refine [OF P f _ k(2), where d = d] assms(3,4)
    by (simp add: ops k(1))
qed

text \<open>C1: A conjunction with any mix of required and excluded children, added in any order: successive calls of next return, in
  ascending order and each once, exactly the documents that all required children have and no excluded child has; then next returns false.
\<close>

theorem and_next_enumerates:
  assumes "doc_iterator (it_next ops) (it_doc ops) (it_skipTo ops) ok cur rest"
    and "list_all (\<lambda>(isNot, c). ok c \<and> cur c = None) parts" "kept parts \<noteq> []" "length (dropped parts) < 2 ^ 32" "dropped parts \<noteq> []"
  shows "run_docs (and_next ops heap_queue) and_doc n (and_build d parts) =
    Some (take n (sorted_list_of_set (\<Inter> (rest ` set (kept parts)) - \<Union> (rest ` set (dropped parts)))))"
proof -
  note P = or_parts.intro [OF assms(1) heap_q.iter_queue_axioms]
  have ops: "doc_iterator.child_ops (it_next ops) (it_doc ops) (it_skipTo ops) = ops"
    by (rule child_ops_eta [OF assms(1)])
  have "\<forall>c\<in>set (kept parts @ dropped parts). or_parts.fresh ok cur c"
    using assms(2) parts_sets [of parts] by (fastforce simp: or_parts.fresh_def [OF P] list_all_iff)
  then show ?thesis using or_parts.and_not_enumerates [OF P _ assms(3-5), where d = d] by (simp add: ops)
qed


text \<open>C38: On a conjunction with excluded children, skipTo of a document that matches and is excluded returns MAX_DOC_ID, the
  value for the end, also when later documents match.
\<close>

theorem and_skipTo_excluded_target:
  assumes "doc_iterator (it_next ops) (it_doc ops) (it_skipTo ops) ok cur rest"
    and "list_all (\<lambda>(isNot, c). ok c \<and> cur c = None) parts" "length (dropped parts) < 2 ^ 32" "kept parts \<noteq> []"
    and "t \<in> \<Inter> (rest ` set (kept parts))" "t \<in> \<Union> (rest ` set (dropped parts))"
  shows "map_option fst (and_skipTo ops heap_queue t (and_build d parts)) = Some MAX_DOC_ID"
proof -
  note P = or_parts.intro [OF assms(1) heap_q.iter_queue_axioms]
  have "\<forall>c\<in>set (kept parts @ dropped parts). or_parts.fresh ok cur c"
    using assms(2) parts_sets [of parts] by (fastforce simp: or_parts.fresh_def [OF P] list_all_iff)
  then show ?thesis using or_parts.and_skipTo_excluded [OF P _ assms(3-6), where d = d] by (auto simp: child_ops_eta [OF assms(1)])
qed

text \<open>The iterator over all documents, with a reader of the deleted documents that keeps the contract: next returns, in
  ascending order, the documents 1 to maxDoc that are not deleted.
\<close>

theorem all_next_enumerates:
  assumes "doc_iterator (it_next tops) (it_doc tops) (it_skipTo tops) ok cur rest"
    and "ok t" "cur t = None" "0 \<notin> rest t" "maxDoc < 0xFFFFFFFE"
  shows "run_docs (all_next tops) al_currDoc n (all_new_del tops t maxDoc) =
    Some (take n (sorted_list_of_set ({1..maxDoc} - rest t)))"
proof -
  note I = assms(1) and eta = child_ops_eta [OF assms(1)]
  let ?new = "\<lparr>al_del = Some t, al_currDoc = 0, al_currDelDoc = 0, al_maxDoc = maxDoc\<rparr>"
  let ?st = "all_new_del tops t maxDoc"
  have N: "doc_iterator.del_synced ok cur rest ?st" "al_del ?st \<noteq> None" "doc_iterator.del_docs cur rest ?st = rest t"
      "al_currDoc ?st = 0" "al_maxDoc ?st = maxDoc"
    using doc_iterator.del_next_spec [OF I, of ?new t] assms(2) unfolding eta all_new_del_def by auto
  have pos: "0 < al_currDelDoc ?st"
  proof (rule ccontr)
    assume "\<not> 0 < al_currDelDoc ?st"
    then have z: "al_currDelDoc ?st = 0" by (metis word_gt_0)
    then have "0 \<in> rest t" using doc_iterator.del_synced_least(2) [OF I N(1,2)] N(3) by (simp add: MAX_DOC_ID_def)
    then show False using assms(4) by simp
  qed
  have ok: "doc_iterator.all_ok ok cur rest ?st" using N pos assms(5) by (simp add: doc_iterator.all_ok_def [OF I])
  have rest: "doc_iterator.all_to_come cur rest ?st = {1..maxDoc} - rest t"
    using doc_iterator.next_id(1) [OF I, of 0 maxDoc] by (simp add: doc_iterator.all_to_come_def [OF I] N)
  have "run_docs (all_next tops) al_currDoc n ?st = Some (take n (sorted_list_of_set (doc_iterator.all_to_come cur rest ?st)))"
    by (rule run_docs_enumerates [where I = "doc_iterator.all_ok ok cur rest", OF ok])
      (use doc_iterator.all_next_spec [OF I] in \<open>fastforce simp: doc_iterator.all_outcome_def [OF I] eta\<close>)
  then show ?thesis by (simp add: rest)
qed

text \<open>skipTo of the iterator over all documents never returns the target itself: from a document not after the target it moves
  to the document after the target.
\<close>

theorem all_skipTo_misses_target:
  assumes "al_del st = None" "al_currDoc st \<le> target" "target < al_maxDoc st"
  shows "all_skipTo tops target st = Some (target + 1, st\<lparr>al_currDoc := target + 1\<rparr>)"
proof -
  have "target + 1 \<le> al_maxDoc st" using assms(3) by (rule inc_le)
  then have "all_step target st = (target + 1, st\<lparr>al_currDoc := target + 1\<rparr>)"
    "all_found (st\<lparr>al_currDoc := target + 1\<rparr>) = target + 1" using assms by (auto simp: all_step_def all_found_def)
  then show ?thesis using assms(1) by (simp add: all_skipTo_def Let_def)
qed


theorem all_skipTo_misses_target_witness:
  "all_skipTo post_reader 3 (all_new 0 10) = Some (4, (all_new 0 10)\<lparr>al_currDoc := 4\<rparr>)"
  using all_skipTo_misses_target [of "all_new 0 10" 3 post_reader] by (simp add: all_new_def)

theorem all_next_enumerates_witness:
  "run_docs (all_next post_reader) al_currDoc 9 (all_new_del post_reader (None, [2, 3, 6]) 6) = Some [1, 4, 5]"
proof -
  have "run_docs (all_next post_reader) al_currDoc 9 (all_new_del post_reader (None, [2, 3, 6]) 6) =
      Some (take 9 (sorted_list_of_set ({1..6} - post_rest (None, [2, 3, 6]))))"
    by (rule all_next_enumerates [OF post_reader_contract]) (simp_all add: post_inv_def post_rest_def MAX_DOC_ID_def)
  also have "{1..6} - post_rest (None, [2, 3, 6]) = {1, 4, 5}" by code_simp
  finally show ?thesis by simp
qed

theorem and_next_enumerates_witness:
  "run_docs (and_next post_reader heap_queue) and_doc 9
     (and_build 0 [(False, (None, [1, 2, 5, 9])), (True, (None, [2, 4])), (False, (None, [2, 5, 9]))]) = Some [5, 9]"
proof -
  let ?parts = "[(False, (None, [1, 2, 5, 9])), (True, (None, [2, 4])), (False, (None, [2, 5, 9]))] :: post query_parts"
  have "run_docs (and_next post_reader heap_queue) and_doc 9 (and_build 0 ?parts) =
      Some (take 9 (sorted_list_of_set (\<Inter> (post_rest ` set (kept ?parts)) - \<Union> (post_rest ` set (dropped ?parts)))))"
    by (rule and_next_enumerates [OF post_reader_contract]) (simp_all add: post_inv_def MAX_DOC_ID_def kept_def dropped_def)
  also have "\<Inter> (post_rest ` set (kept ?parts)) - \<Union> (post_rest ` set (dropped ?parts)) = {5, 9}" by code_simp
  finally show ?thesis by simp
qed

theorem and_skipTo_excluded_target_witness:
  "map_option fst (and_skipTo post_reader heap_queue 2 (and_build 0 [(False, (None, [2, 5])), (True, (None, [2]))])) = Some MAX_DOC_ID \<and>
   5 \<in> post_rest (None, [2, 5]) - post_rest (None, [2])"
proof
  show "map_option fst (and_skipTo post_reader heap_queue 2 (and_build 0 [(False, (None, [2, 5])), (True, (None, [2]))])) = Some MAX_DOC_ID"
    by (rule and_skipTo_excluded_target [OF post_reader_contract])
      (simp_all add: post_inv_def MAX_DOC_ID_def kept_def dropped_def post_rest_def)
  show "5 \<in> post_rest (None, [2, 5]) - post_rest (None, [2])" by (simp add: post_rest_def)
qed

theorem iterators_refine_cursor_witness:
  "run_calls (and_next post_reader heap_queue) (and_skipTo post_reader heap_queue) and_doc [Next, SkipTo 4, Next]
     (and_build 0 (map (Pair False) [(None, [2, 5, 7]), (None, [1, 2, 5])])) = Some [Some 2, Some 5, None] \<and>
   run_calls (oi_next post_reader heap_queue) (oi_skipTo post_reader heap_queue) oi_doc [Next, SkipTo 4, Next]
     (or_build 0 (map (Pair False) [(None, [2, 5, 7]), (None, [1, 2, 5])])) = Some [Some 1, Some 5, Some 7]"
proof -
  let ?cs = "[(None, [2, 5, 7]), (None, [1, 2, 5])] :: post list"
  have f: "list_all (\<lambda>c. post_inv c \<and> fst c = None) ?cs" by (simp add: post_inv_def MAX_DOC_ID_def)
  have s: "\<Inter> (post_rest ` set ?cs) = {2, 5}" "\<Union> (post_rest ` set ?cs) = {1, 2, 5, 7}" by code_simp+
  have c: "cursor_calls [Next, SkipTo 4, Next] (None, {2, 5}) = [Some 2, Some 5, None]"
    "cursor_calls [Next, SkipTo 4, Next] (None, {1, 2, 5, 7}) = [Some 1, Some 5, Some 7]" by code_simp+
  show ?thesis using iterators_refine_cursor [OF post_reader_contract f, where calls = "[Next, SkipTo 4, Next]" and d = 0]
    unfolding s c by simp
qed

text \<open>A disjunction with excluded children can return an excluded document: when its first document is the first excluded
  one and the second excluded document is before its second document, next returns that second document, excluded or not.
\<close>

theorem or_next_ignores_exclusion:
  assumes "doc_iterator (it_next ops) (it_doc ops) (it_skipTo ops) ok cur rest"
    and "list_all (\<lambda>(isNot, c). ok c \<and> cur c = None) parts" "length (kept parts) < 2 ^ 32" "length (dropped parts) < 2 ^ 32"
  defines "wanted \<equiv> \<Union> (rest ` set (kept parts))" and "excl \<equiv> \<Union> (rest ` set (dropped parts))"
  assumes "Min wanted = Min excl" "wanted - {Min wanted} \<noteq> {}" "excl - {Min excl} \<noteq> {}"
    and "Min (excl - {Min excl}) < Min (wanted - {Min wanted})"
  shows "run_docs (oi_next ops heap_queue) oi_doc 1 (or_build d parts) = Some [Min (wanted - {Min wanted})]"
proof -
  note P = or_parts.intro [OF assms(1) heap_q.iter_queue_axioms]
  have f: "\<forall>c\<in>set (kept parts @ dropped parts). or_parts.fresh ok cur c"
    using assms(2) parts_sets [of parts] by (fastforce simp: or_parts.fresh_def [OF P] list_all_iff)
  show ?thesis
    using or_parts.or_next_excluded [OF P f assms(3,4), folded wanted_def excl_def, OF assms(7-10), where d = d]
    by (auto simp: child_ops_eta [OF assms(1)])
qed

theorem or_next_ignores_exclusion_witness:
  "run_docs (oi_next post_reader heap_queue) oi_doc 1 (or_build 0 [(False, (None, [1, 3])), (True, (None, [1, 2, 3]))]) = Some [3] \<and>
   3 \<in> post_rest (None, [1, 2, 3])"
proof
  let ?parts = "[(False, (None, [1, 3])), (True, (None, [1, 2, 3]))] :: post query_parts"
  have sets: "\<Union> (post_rest ` set (kept ?parts)) = {1, 3}" "\<Union> (post_rest ` set (dropped ?parts)) = {1, 2, 3}"
    by (simp_all add: kept_def dropped_def post_rest_def)
  have m: "Min {1, 3 :: docid} = 1" "{1, 3 :: docid} - {1} = {3}" "Min {1, 2, 3 :: docid} = 1" "{1, 2, 3 :: docid} - {1} = {2, 3}"
    "Min {2, 3 :: docid} = 2" by (auto simp: min_def)
  show "run_docs (oi_next post_reader heap_queue) oi_doc 1 (or_build 0 ?parts) = Some [3]"
    using or_next_ignores_exclusion [OF post_reader_contract, of ?parts 0, unfolded sets m]
    by (simp add: kept_def dropped_def post_inv_def MAX_DOC_ID_def)
  show "3 \<in> post_rest (None, [1, 2, 3])" by (simp add: post_rest_def)
qed

end
