(* ===== verification/Merge_Compare.thy ===== *)
theory Merge_Compare
  imports Group_Rep Group_Param Ordered_Map Priority_Queue "HOL-Library.List_Lexorder" "HOL-Library.Char_ord"
begin

text \<open>
  The results that the workers of a distributed search return, and the comparison of two documents of different workers
  (core/common/ResultType.h, DistributeResultType.h; core/aggregator-manager: MergeComparator.h, MergeComparator.cpp).
  Numbers of type \<open>float\<close> and \<open>double\<close> are elements of an ordered ring \<open>'f\<close> (no NaN); strings are compared by
  their bytes. A \<open>std::map\<close> is the list of its entries in the order of the keys.
\<close>

section \<open>Results\<close>

type_synonym workerid = u32
type_synonym wdocid = u64

text \<open>Frequencies of terms for each property.\<close>

type_synonym 'n freq_map = "(string \<times> (u32 \<times> 'n) list) list"

record ('f, 'n) dist_info =
  isDistributed :: bool
  effective :: bool
  include_summary_data :: bool
  dist_option :: int
  nodeType :: int
  dfmap :: "'n freq_map"
  ctfmap :: "'n freq_map"
  maxtfmap :: "'n freq_map"
  sortPropertyList :: "(string \<times> bool) list"
  sortPropertyInt32DataList :: "(string \<times> int list) list"
  sortPropertyInt64DataList :: "(string \<times> int list) list"
  sortPropertyFloatDataList :: "(string \<times> 'f list) list"
  sortPropertyDoubleDataList :: "(string \<times> 'f list) list"
  sortPropertyStrDataList :: "(string \<times> string list) list"
  majorTokenNum :: int

definition dist_info_init :: "('f, 'n) dist_info" where
  "dist_info_init = \<lparr>isDistributed = False, effective = False, include_summary_data = False, dist_option = 0, nodeType = 0, dfmap = [], ctfmap = [], maxtfmap = [],
     sortPropertyList = [], sortPropertyInt32DataList = [], sortPropertyInt64DataList = [], sortPropertyFloatDataList = [],
     sortPropertyDoubleDataList = [], sortPropertyStrDataList = [], majorTokenNum = 0\<rparr>"

definition isOptionGatherInfo :: "('f, 'n) dist_info \<Rightarrow> bool" where
  "isOptionGatherInfo i \<longleftrightarrow> effective i \<and> dist_option i = 1"

definition isOptionCarriedInfo :: "('f, 'n) dist_info \<Rightarrow> bool" where
  "isOptionCarriedInfo i \<longleftrightarrow> effective i \<and> dist_option i = 2"

record 'f path_score =
  ps_score :: 'f
  ps_wdocid :: wdocid

type_synonym 'f label_scores = "(string \<times> (group_path \<times> 'f path_score) list) list"

record 'f property_range =
  highValue :: 'f
  lowValue :: 'f

record ('f, 'n) search_result =
  error :: string
  rawQueryString :: string
  pruneQueryString :: string
  distSearchInfo :: "('f, 'n) dist_info"
  encodingType :: int
  collectionName :: string
  analyzedQuery :: ustring
  queryTermIdList :: "u32 list"
  totalCount :: nat
  counterResults :: "(string \<times> u32) list"
  docsInPage :: "docid list"
  topKDocs :: "docid list"
  topKWorkerIds :: "workerid list"
  topKtids :: "u32 list"
  topKRankScoreList :: "'f list"
  topKCustomRankScoreList :: "'f list"
  topKGeoDistanceList :: "'f list"
  propertyRange :: "'f property_range"
  start :: nat
  page_count :: nat
  pageOffsetList :: "nat list"
  propertyQueryTermList :: "ustring list list"
  fullTextOfDocumentInPage :: "string list list"
  snippetTextOfDocumentInPage :: "string list list"
  rawTextOfSummaryInPage :: "string list list"
  groupRep :: "'f group_rep"
  attrRep :: "'f rep_item list"
  autoSelectGroupLabels :: "'f label_scores"
  relatedQueryList :: "ustring list"
  rqScore :: "'f list"
  TOP_K_NUM :: nat

text \<open>A new result; \<open>utf8\<close> is \<open>UString::UTF_8\<close>.\<close>

definition search_result_init :: "int \<Rightarrow> ('f :: zero, 'n) search_result" where
  "search_result_init utf8 = \<lparr>error = [], rawQueryString = [], pruneQueryString = [], distSearchInfo = dist_info_init, encodingType = utf8,
     collectionName = [], analyzedQuery = [], queryTermIdList = [], totalCount = 0, counterResults = [], docsInPage = [], topKDocs = [],
     topKWorkerIds = [], topKtids = [], topKRankScoreList = [], topKCustomRankScoreList = [], topKGeoDistanceList = [],
     propertyRange = \<lparr>highValue = 0, lowValue = 0\<rparr>, start = 0, page_count = 0, pageOffsetList = [], propertyQueryTermList = [],
     fullTextOfDocumentInPage = [], snippetTextOfDocumentInPage = [], rawTextOfSummaryInPage = [],
     groupRep = \<lparr>stringGroupRep = [], numericGroupRep = [], numericRangeGroupRep = []\<rparr>, attrRep = [], autoSelectGroupLabels = [],
     relatedQueryList = [], rqScore = [], TOP_K_NUM = 0\<rparr>"

text \<open>
  What the merger uses of izenelib and of the representation of numbers: the packing of a worker and a document into one number, the test which of
  two of these numbers is newer, \<open>roundDown\<close>, the limits of \<open>float\<close> and \<open>double\<close>, and the \<open>float\<close> that is
  read at a position of the memory of a list of \<open>double\<close>.
\<close>

record 'f merge_env =
  GetWDocId :: "workerid \<Rightarrow> docid \<Rightarrow> wdocid"
  IsNewerDocId :: "wdocid \<Rightarrow> wdocid \<Rightarrow> bool"
  roundDown :: "nat \<Rightarrow> nat \<Rightarrow> nat"
  float_epsilon :: 'f
  double_epsilon :: 'f
  float_max :: 'f
  float_min :: 'f
  double_as_float :: "'f list \<Rightarrow> nat \<Rightarrow> 'f option"
  UTF_8 :: int

definition getTopKWDocs :: "'f merge_env \<Rightarrow> ('f, 'n) search_result \<Rightarrow> wdocid list option" where
  "getTopKWDocs e r =
     (if topKWorkerIds r = [] then Some (map ucast (topKDocs r))
      else if length (topKWorkerIds r) < length (topKDocs r) then None
      else Some (map2 (GetWDocId e) (topKWorkerIds r) (topKDocs r)))"

definition adjustStartCount :: "nat \<Rightarrow> ('f, 'n) search_result \<Rightarrow> ('f, 'n) search_result" where
  "adjustStartCount topKStart r =
     (let topKEnd = topKStart + length (topKDocs r);
          r1 = (if start r > topKEnd then r\<lparr>start := topKEnd\<rparr> else r)
      in if start r1 + page_count r1 > topKEnd then r1\<lparr>page_count := topKEnd - start r1\<rparr> else r1)"

section \<open>Sort properties\<close>

text \<open>The list that the pointer of a \<open>SortPropertyData\<close> points to; a list of \<open>double\<close> gets the type \<open>DATA_TYPE_FLOAT\<close>.\<close>

datatype 'f sort_data = Int32s "int list" | Int64s "int list" | Floats "'f list" | Doubles "'f list" | Strings "string list"

datatype data_type = DATA_TYPE_INT32 | DATA_TYPE_INT64 | DATA_TYPE_FLOAT | DATA_TYPE_STRING

fun sort_data_type :: "'f sort_data \<Rightarrow> data_type" where
  "sort_data_type (Int32s _) = DATA_TYPE_INT32"
| "sort_data_type (Int64s _) = DATA_TYPE_INT64"
| "sort_data_type (Floats _) = DATA_TYPE_FLOAT"
| "sort_data_type (Doubles _) = DATA_TYPE_FLOAT"
| "sort_data_type (Strings _) = DATA_TYPE_STRING"

fun sort_data_null :: "'f sort_data \<Rightarrow> bool" where
  "sort_data_null (Int32s l) = (l = [])"
| "sort_data_null (Int64s l) = (l = [])"
| "sort_data_null (Floats l) = (l = [])"
| "sort_data_null (Doubles l) = (l = [])"
| "sort_data_null (Strings l) = (l = [])"

record 'f sort_property =
  sp_reverse :: bool
  sp_data :: "'f sort_data"

text \<open>The loops over the lists of data do not stop at a match: the last entry with the name is taken.\<close>

definition last_entry :: "string \<Rightarrow> (string \<times> 'a) list \<Rightarrow> 'a option" where
  "last_entry name l = map_of (rev l) name"

definition property_data :: "('f, 'n) search_result \<Rightarrow> string \<Rightarrow> 'f sort_data option" where
  "property_data r property =
     (if property = ''RANK'' then Some (Floats (topKRankScoreList r))
      else if property = ''CUSTOM_RANK'' then Some (Floats (topKCustomRankScoreList r))
      else if property = ''GEO_DIST'' then Some (Floats (topKGeoDistanceList r))
      else
        let i = distSearchInfo r in
        case last_entry property (sortPropertyInt32DataList i) of
          Some l \<Rightarrow> Some (Int32s l)
        | None \<Rightarrow> (case last_entry property (sortPropertyInt64DataList i) of
          Some l \<Rightarrow> Some (Int64s l)
        | None \<Rightarrow> (case last_entry property (sortPropertyFloatDataList i) of
          Some l \<Rightarrow> Some (Floats l)
        | None \<Rightarrow> (case last_entry property (sortPropertyDoubleDataList i) of
          Some l \<Rightarrow> Some (Doubles l)
        | None \<Rightarrow> map_option Strings (last_entry property (sortPropertyStrDataList i))))))"

text \<open>
  The constructor of \<open>DocumentComparator\<close>: a property without data, or with an empty list (its \<open>data()\<close> is null), is left out. Without
  sort properties the documents are compared by their rank score.
\<close>

definition sort_properties :: "('f, 'n) search_result \<Rightarrow> 'f sort_property list" where
  "sort_properties r =
     (let l = sortPropertyList (distSearchInfo r);
          l' = (if l = [] then [(''RANK'', False)] else l)
      in List.map_filter (\<lambda>(property, reverse). case property_data r property of
           Some dat \<Rightarrow> if sort_data_null dat then None else Some \<lparr>sp_reverse = reverse, sp_data = dat\<rparr>
         | None \<Rightarrow> None) l')"

datatype 'f sort_value = Int_Value int | Float_Value 'f | String_Value string

fun read_value :: "'f merge_env \<Rightarrow> 'f sort_data \<Rightarrow> nat \<Rightarrow> 'f sort_value option" where
  "read_value e (Int32s l) i = map_option Int_Value (vec_at l i)"
| "read_value e (Int64s l) i = map_option Int_Value (vec_at l i)"
| "read_value e (Floats l) i = map_option Float_Value (vec_at l i)"
| "read_value e (Doubles l) i = map_option Float_Value (double_as_float e l i)"
| "read_value e (Strings l) i = map_option String_Value (vec_at l i)"

fun same_value :: "'f :: linordered_idom merge_env \<Rightarrow> 'f sort_value \<Rightarrow> 'f sort_value \<Rightarrow> bool" where
  "same_value e (Int_Value a) (Int_Value b) = (a = b)"
| "same_value e (Float_Value a) (Float_Value b) = (\<bar>a - b\<bar> \<le> float_epsilon e)"
| "same_value e (String_Value a) (String_Value b) = (a = b)"
| "same_value e _ _ = False"

fun less_value :: "'f :: linordered_idom sort_value \<Rightarrow> 'f sort_value \<Rightarrow> bool" where
  "less_value (Int_Value a) (Int_Value b) = (a < b)"
| "less_value (Float_Value a) (Float_Value b) = (a < b)"
| "less_value (String_Value a) (String_Value b) = (a < b)"
| "less_value _ _ = False"

text \<open>\<open>greaterThan\<close>; \<open>None\<close> is a read out of range.\<close>

fun greaterThan :: "'f :: linordered_idom merge_env \<Rightarrow> 'f sort_property list \<Rightarrow> nat \<Rightarrow> wdocid \<Rightarrow> 'f sort_property list \<Rightarrow> nat \<Rightarrow> wdocid \<Rightarrow> bool option" where
  "greaterThan e (p1 # ps1) idx1 left_docid (p2 # ps2) idx2 right_docid =
     (if sort_data_type (sp_data p1) \<noteq> sort_data_type (sp_data p2) then greaterThan e ps1 idx1 left_docid ps2 idx2 right_docid
      else Option.bind (read_value e (sp_data p1) idx1) (\<lambda>v1. Option.bind (read_value e (sp_data p2) idx2) (\<lambda>v2.
        if same_value e v1 v2 then greaterThan e ps1 idx1 left_docid ps2 idx2 right_docid
        else Some (if sp_reverse p1 then less_value v1 v2 else less_value v2 v1))))"
| "greaterThan e _ _ left_docid _ _ right_docid = Some (IsNewerDocId e left_docid right_docid)"

end
