(* ===== verification/Attr_Rep_Merge.thy ===== *)
theory Attr_Rep_Merge
  imports Merge_Compare Attr_Counter
begin

text \<open>
  Merging the attribute groups of several results (\<open>OntologyRep::merge\<close> of core/mining-manager/group-manager/ontology_rep.h). Maps
  by name are lists in the order of the comparison \<open>cmp\<close> of strings; the bounded queue of izenelib is the parameter \<open>qops\<close>.
\<close>

section \<open>Maps by name\<close>

fun name_put :: "(ustring \<Rightarrow> ustring \<Rightarrow> int) \<Rightarrow> ustring \<Rightarrow> 'v \<Rightarrow> (ustring \<times> 'v) list \<Rightarrow> (ustring \<times> 'v) list" where
  "name_put cmp k v [] = [(k, v)]"
| "name_put cmp k v ((a, b) # m) =
     (if cmp k a < 0 then (k, v) # (a, b) # m else if cmp k a = 0 then (a, v) # m else (a, b) # name_put cmp k v m)"

fun name_find :: "(ustring \<Rightarrow> ustring \<Rightarrow> int) \<Rightarrow> ustring \<Rightarrow> (ustring \<times> 'v) list \<Rightarrow> 'v option" where
  "name_find cmp k [] = None"
| "name_find cmp k ((a, b) # m) = (if cmp k a = 0 then Some b else name_find cmp k m)"

definition name_insert :: "(ustring \<Rightarrow> ustring \<Rightarrow> int) \<Rightarrow> ustring \<Rightarrow> 'v \<Rightarrow> (ustring \<times> 'v) list \<Rightarrow> (ustring \<times> 'v) list" where
  "name_insert cmp k v m = (if name_find cmp k m = None then name_put cmp k v m else m)"

section \<open>The merge\<close>

text \<open>The items of the names, and for each name the items of its values.\<close>

type_synonym 'd name_items = "(ustring \<times> 'd rep_item) list"
type_synonym 'd value_items = "(ustring \<times> 'd name_items) list"

text \<open>
  The iterator \<open>current_nvmap_it\<close> is the name \<open>cur\<close> whose values are read: \<open>None\<close> before the first name, and an item below the root
  that comes then has no name to go to (the result \<open>None\<close>). The iterator is kept from one list to the next.
\<close>

fun load_items :: "(ustring \<Rightarrow> ustring \<Rightarrow> int) \<Rightarrow> 'd rep_item list \<Rightarrow> ustring option \<Rightarrow> 'd name_items \<Rightarrow> 'd value_items \<Rightarrow>
    (ustring option \<times> 'd name_items \<times> 'd value_items) option" where
  "load_items cmp [] cur names vals = Some (cur, names, vals)"
| "load_items cmp (it # items) cur names vals =
     (if ri_level it = 0 then
        load_items cmp items (Some (ri_text it)) (name_put cmp (ri_text it) it names) (name_insert cmp (ri_text it) [] vals)
      else Option.bind cur (\<lambda>n. Option.bind (name_find cmp n vals) (\<lambda>m.
        load_items cmp items cur names (name_put cmp n (name_put cmp (ri_text it) it m) vals))))"

definition add_item :: "'d :: plus rep_item \<Rightarrow> 'd rep_item \<Rightarrow> 'd rep_item" where
  "add_item it it' = it\<lparr>ri_doc_count := ri_doc_count it + ri_doc_count it', ri_score := ri_score it + ri_score it'\<rparr>"

fun add_items :: "(ustring \<Rightarrow> ustring \<Rightarrow> int) \<Rightarrow> 'd :: plus rep_item list \<Rightarrow> ustring option \<Rightarrow> bool \<Rightarrow> 'd name_items \<Rightarrow> 'd value_items \<Rightarrow>
    (ustring option \<times> 'd name_items \<times> 'd value_items) option" where
  "add_items cmp [] cur newname names vals = Some (cur, names, vals)"
| "add_items cmp (it # items) cur newname names vals =
     (if ri_level it = 0 then
        (case name_find cmp (ri_text it) names of
           None \<Rightarrow> add_items cmp items (Some (ri_text it)) True (name_put cmp (ri_text it) it names) (name_insert cmp (ri_text it) [] vals)
         | Some it' \<Rightarrow> add_items cmp items (Some (ri_text it)) False (name_put cmp (ri_text it) (add_item it' it) names)
             (name_insert cmp (ri_text it) [] vals))
      else Option.bind cur (\<lambda>n. Option.bind (name_find cmp n vals) (\<lambda>m.
        let v = (if newname then it else case name_find cmp (ri_text it) m of Some it' \<Rightarrow> add_item it' it | None \<Rightarrow> it)
        in add_items cmp items cur newname names (name_put cmp n (name_put cmp (ri_text it) v m) vals))))"

fun add_reps :: "(ustring \<Rightarrow> ustring \<Rightarrow> int) \<Rightarrow> 'd :: plus rep_item list list \<Rightarrow> ustring option \<Rightarrow> 'd name_items \<Rightarrow> 'd value_items \<Rightarrow>
    ('d name_items \<times> 'd value_items) option" where
  "add_reps cmp [] cur names vals = Some (names, vals)"
| "add_reps cmp (items # others) cur names vals =
     Option.bind (add_items cmp items cur False names vals) (\<lambda>(cur', names', vals'). add_reps cmp others cur' names' vals')"

text \<open>The values of a name by descending score: a \<open>multimap\<close> by score, read backwards.\<close>

definition by_score :: "'d :: linorder name_items \<Rightarrow> 'd rep_item list" where
  "by_score m = rev (map snd (foldl (\<lambda>l (k, it). multi_insert (ri_score it) it l) [] m))"

text \<open>Cutting a single list to its first names.\<close>

fun take_names :: "int \<Rightarrow> int \<Rightarrow> 'd rep_item list \<Rightarrow> 'd rep_item list" where
  "take_names topGroupNum n [] = []"
| "take_names topGroupNum n (it # items) =
     (let n' = (if ri_level it = 0 then n + 1 else n) in if n' > topGroupNum then [] else it # take_names topGroupNum n' items)"

definition ontology_merge :: "('q, ustring \<times> 'd) queue_class \<Rightarrow> (ustring \<Rightarrow> ustring \<Rightarrow> int) \<Rightarrow> int \<Rightarrow> 'd :: {linorder, plus} rep_item list \<Rightarrow>
    'd rep_item list list \<Rightarrow> 'd rep_item list option" where
  "ontology_merge qops cmp topGroupNum item_list others =
     (let reps = filter (\<lambda>l. l \<noteq> []) (item_list # others) in
      if length reps \<le> 1 then
        let items = concat reps in
        Some (if topGroupNum = 0 \<or> int (length items) \<le> topGroupNum then items else take_names topGroupNum 0 items)
      else
        Option.bind (load_items cmp (hd reps) None [] []) (\<lambda>(cur, names, vals).
        Option.bind (add_reps cmp (tl reps) cur names vals) (\<lambda>(names', vals').
          let n = (if topGroupNum = 0 then length names' else nat topGroupNum);
              top_names = map fst (qo_top (qops score_less) n (map (\<lambda>(k, it). (ri_text it, ri_score it)) names'))
          in Some (concat (map (\<lambda>name. case name_find cmp name names' of
               None \<Rightarrow> []
             | Some it \<Rightarrow> it # by_score (case name_find cmp name vals' of Some m \<Rightarrow> m | None \<Rightarrow> [])) top_names)))))"

end
