(* ===== verification/Search_Merger.thy ===== *)
theory Search_Merger
  imports Attr_Rep_Merge Sharding
begin

text \<open>
  The merger of a distributed search (core/aggregator-manager: SearchMerger.h, SearchMerger.cpp). The results of the workers come as a list of
  pairs of worker and result. A read out of range is \<open>None\<close>. The changes that the merger makes to the results of the workers (it
  empties some of them and moves their groups) are not seen by anyone after the merge. The lists of the merged result are empty before
  the merge.
\<close>

section \<open>Labels with scores\<close>

text \<open>\<open>std::sort\<close>: one of the orders that the comparison allows.\<close>

fun insert_by :: "('a \<Rightarrow> 'a \<Rightarrow> bool) \<Rightarrow> 'a \<Rightarrow> 'a list \<Rightarrow> 'a list" where
  "insert_by lt x [] = [x]"
| "insert_by lt x (y # ys) = (if lt y x then y # insert_by lt x ys else x # y # ys)"

definition sort_by :: "('a \<Rightarrow> 'a \<Rightarrow> bool) \<Rightarrow> 'a list \<Rightarrow> 'a list" where
  "sort_by lt xs = foldr (insert_by lt) xs []"

definition IsGreaterGPScoreInfo :: "'f :: linordered_idom merge_env \<Rightarrow> 'f path_score \<Rightarrow> 'f path_score \<Rightarrow> bool" where
  "IsGreaterGPScoreInfo e l r =
     (if \<bar>ps_score l - ps_score r\<bar> \<le> double_epsilon e then IsNewerDocId e (ps_wdocid l) (ps_wdocid r) else ps_score l > ps_score r)"

definition IsGreaterGroup :: "'f :: linordered_idom merge_env \<Rightarrow> group_path \<times> 'f path_score \<Rightarrow> group_path \<times> 'f path_score \<Rightarrow> bool" where
  "IsGreaterGroup e l r = IsGreaterGPScoreInfo e (snd l) (snd r)"

definition wide_score :: "'f merge_env \<Rightarrow> workerid \<Rightarrow> 'f path_score \<Rightarrow> 'f path_score" where
  "wide_score e w s = s\<lparr>ps_wdocid := GetWDocId e w (ucast (ps_wdocid s))\<rparr>"

fun merge_path :: "'f :: linordered_idom merge_env \<Rightarrow> group_path \<times> 'f path_score \<Rightarrow> (group_path \<times> 'f path_score) list \<Rightarrow> (group_path \<times> 'f path_score) list" where
  "merge_path e (path, tmp) [] = [(path, tmp)]"
| "merge_path e (path, tmp) ((p, s) # l) =
     (if path = p then (p, if IsGreaterGPScoreInfo e tmp s then tmp else s) # l else (p, s) # merge_path e (path, tmp) l)"

definition merge_paths :: "'f :: linordered_idom merge_env \<Rightarrow> workerid \<Rightarrow> (group_path \<times> 'f path_score) list \<Rightarrow> (group_path \<times> 'f path_score) list option \<Rightarrow>
    (group_path \<times> 'f path_score) list" where
  "merge_paths e w from merged =
     (let wide = map (\<lambda>(p, s). (p, wide_score e w s)) from in
      sort_by (IsGreaterGroup e) (case merged of None \<Rightarrow> wide | Some l \<Rightarrow> foldl (\<lambda>l x. merge_path e x l) l wide))"

definition mergeScoreGroupLabel :: "'f :: linordered_idom merge_env \<Rightarrow> 'f label_scores \<Rightarrow> 'f label_scores \<Rightarrow> workerid \<Rightarrow> 'f label_scores" where
  "mergeScoreGroupLabel e mergeto from w =
     foldl (\<lambda>m (prop, paths). map_put prop (merge_paths e w paths (map_of m prop)) m) mergeto from"

section \<open>Frequencies\<close>

definition freq_add :: "string \<Rightarrow> u32 \<Rightarrow> 'n :: {zero, plus} \<Rightarrow> 'n freq_map \<Rightarrow> 'n freq_map" where
  "freq_add p t n m = (let f = map_get [] p m in map_put p (map_put t (map_get 0 t f + n) f) m)"

definition merge_freqs :: "'n :: {zero, plus} freq_map \<Rightarrow> 'n freq_map \<Rightarrow> 'n freq_map" where
  "merge_freqs from m = foldl (\<lambda>m (p, df). foldl (\<lambda>m (t, n). freq_add p t n m) m df) m from"

definition getDistSearchInfo :: "(workerid \<times> ('f, 'n :: {zero, plus}) dist_info) list \<Rightarrow> ('f, 'n) dist_info \<Rightarrow> ('f, 'n) dist_info" where
  "getDistSearchInfo workerResults mergeResult =
     foldl (\<lambda>m (w, r). m\<lparr>dfmap := merge_freqs (dfmap r) (dfmap m), ctfmap := merge_freqs (ctfmap r) (ctfmap m),
       maxtfmap := merge_freqs (maxtfmap r) (maxtfmap m)\<rparr>) mergeResult workerResults"

section \<open>Search results\<close>

text \<open>The message of the log reads the number of labels of the property Category, which adds the property to the map.\<close>

definition log_category :: "'f label_scores \<Rightarrow> 'f label_scores" where
  "log_category m = (if map_of m ''Category'' = None then map_put ''Category'' [] m else m)"

definition emptyWorkerResult :: "('f, 'n) search_result \<Rightarrow> ('f, 'n) search_result" where
  "emptyWorkerResult r = r\<lparr>totalCount := 0, counterResults := [], docsInPage := [], topKDocs := [], topKWorkerIds := [], topKtids := [],
     topKRankScoreList := [], topKCustomRankScoreList := [], topKGeoDistanceList := [], pageOffsetList := [],
     fullTextOfDocumentInPage := map (\<lambda>_. []) (fullTextOfDocumentInPage r),
     snippetTextOfDocumentInPage := map (\<lambda>_. []) (snippetTextOfDocumentInPage r),
     rawTextOfSummaryInPage := map (\<lambda>_. []) (rawTextOfSummaryInPage r),
     groupRep := gr_clear (groupRep r), attrRep := [], autoSelectGroupLabels := [], relatedQueryList := [], rqScore := [],
     distSearchInfo := (distSearchInfo r)\<lparr>dfmap := [], ctfmap := [], maxtfmap := [], sortPropertyList := [], sortPropertyInt32DataList := [],
       sortPropertyInt64DataList := [], sortPropertyFloatDataList := [], sortPropertyDoubleDataList := [], sortPropertyStrDataList := []\<rparr>\<rparr>"

definition first_error :: "(workerid \<times> ('f, 'n) search_result) list \<Rightarrow> string option" where
  "first_error ws = map_option (\<lambda>(w, r). error r) (find (\<lambda>(w, r). error r \<noteq> []) ws)"

text \<open>Only the workers with the largest number of major tokens count.\<close>

definition largest_tokens :: "(workerid \<times> ('f, 'n) search_result) list \<Rightarrow> int \<times> bool" where
  "largest_tokens ws =
     foldl (\<lambda>(largest, diff) (w, r). let cur = majorTokenNum (distSearchInfo r) in (if cur > largest then cur else largest, diff \<or> cur \<noteq> largest))
       (majorTokenNum (distSearchInfo (snd (hd ws))), False) (tl ws)"

definition drop_fewer_tokens :: "(workerid \<times> ('f, 'n) search_result) list \<Rightarrow> (workerid \<times> ('f, 'n) search_result) list" where
  "drop_fewer_tokens ws =
     (let (largest, diff) = largest_tokens ws in
      if diff then map (\<lambda>(w, r). (w, if majorTokenNum (distSearchInfo r) < largest then emptyWorkerResult r else r)) ws else ws)"

definition copy_basic :: "('f, 'n) search_result \<Rightarrow> ('f, 'n) search_result \<Rightarrow> ('f, 'n) search_result" where
  "copy_basic r0 m = m\<lparr>collectionName := collectionName r0, encodingType := encodingType r0, rawQueryString := rawQueryString r0, start := start r0,
     page_count := page_count r0, analyzedQuery := analyzedQuery r0, queryTermIdList := queryTermIdList r0,
     propertyQueryTermList := propertyQueryTermList r0, totalCount := 0, TOP_K_NUM := TOP_K_NUM r0,
     distSearchInfo := (distSearchInfo m)\<lparr>isDistributed := isDistributed (distSearchInfo r0)\<rparr>\<rparr>"

text \<open>The first loop over the workers.\<close>

definition merge_worker :: "'f :: linordered_idom merge_env \<Rightarrow> (ustring \<Rightarrow> ustring \<Rightarrow> int) \<Rightarrow> workerid \<times> ('f, 'n) search_result \<Rightarrow>
    ('f, 'n) search_result \<Rightarrow> ('f, 'n) search_result option" where
  "merge_worker e cmp = (\<lambda>(w, r) m.
     map_option (\<lambda>(rep, _). m\<lparr>totalCount := totalCount m + totalCount r, groupRep := rep,
         autoSelectGroupLabels := mergeScoreGroupLabel e (autoSelectGroupLabels m) (autoSelectGroupLabels r) w,
         counterResults := foldl (\<lambda>c (k, n). map_put k (map_get 0 k c + n) c) (counterResults m) (counterResults r),
         propertyRange := \<lparr>highValue = (if highValue (propertyRange r) > highValue (propertyRange m) then highValue (propertyRange r) else highValue (propertyRange m)),
           lowValue = (if lowValue (propertyRange r) < lowValue (propertyRange m) then lowValue (propertyRange r) else lowValue (propertyRange m))\<rparr>\<rparr>)
       (gr_merge cmp (groupRep m) (groupRep r)))"

fun merge_workers :: "'f :: linordered_idom merge_env \<Rightarrow> (ustring \<Rightarrow> ustring \<Rightarrow> int) \<Rightarrow> (workerid \<times> ('f, 'n) search_result) list \<Rightarrow>
    ('f, 'n) search_result \<Rightarrow> ('f, 'n) search_result option" where
  "merge_workers e cmp [] m = Some m"
| "merge_workers e cmp (x # ws) m = Option.bind (merge_worker e cmp x m) (merge_workers e cmp ws)"

text \<open>
  The loops that choose the documents: an entry is the number of a worker in the list and a position in its documents;
  \<open>sizes\<close> are the numbers of documents of the workers, \<open>iter\<close> the positions reached, \<open>gt\<close> the comparison of entries.
\<close>

fun best_head :: "(nat \<times> nat \<Rightarrow> nat \<times> nat \<Rightarrow> bool option) \<Rightarrow> nat list \<Rightarrow> nat list \<Rightarrow> nat list \<Rightarrow> nat option \<Rightarrow> nat option option" where
  "best_head gt sizes iter [] maxi = Some maxi"
| "best_head gt sizes iter (i # is) maxi =
     (if iter ! i \<ge> sizes ! i then best_head gt sizes iter is maxi
      else case maxi of
        None \<Rightarrow> best_head gt sizes iter is (Some i)
      | Some m \<Rightarrow> Option.bind (gt (i, iter ! i) (m, iter ! m)) (\<lambda>b. best_head gt sizes iter is (if b then Some i else Some m)))"

fun merge_entries :: "(nat \<times> nat \<Rightarrow> nat \<times> nat \<Rightarrow> bool option) \<Rightarrow> nat list \<Rightarrow> nat \<Rightarrow> nat list \<Rightarrow> (nat \<times> nat) list option" where
  "merge_entries gt sizes 0 iter = Some []"
| "merge_entries gt sizes (Suc n) iter =
     Option.bind (best_head gt sizes iter [0..<length sizes] None) (\<lambda>maxi. case maxi of
        None \<Rightarrow> Some []
      | Some i \<Rightarrow> map_option ((#) (i, iter ! i)) (merge_entries gt sizes n (iter[i := Suc (iter ! i)])))"

definition entry_gt :: "'f :: linordered_idom merge_env \<Rightarrow> (workerid \<times> ('f, 'n) search_result) list \<Rightarrow> nat \<times> nat \<Rightarrow> nat \<times> nat \<Rightarrow> bool option" where
  "entry_gt e ws = (\<lambda>(i, idx1) (j, idx2).
     greaterThan e (sort_properties (snd (ws ! i))) idx1 (GetWDocId e (fst (ws ! i)) (topKDocs (snd (ws ! i)) ! idx1))
       (sort_properties (snd (ws ! j))) idx2 (GetWDocId e (fst (ws ! j)) (topKDocs (snd (ws ! j)) ! idx2)))"

text \<open>Reading a list of every chosen entry; a list that is empty in the worker leaves the default value where \<open>skip\<close> holds.\<close>

fun read_entries :: "bool \<Rightarrow> 'a \<Rightarrow> (nat \<Rightarrow> 'a list) \<Rightarrow> (nat \<times> nat) list \<Rightarrow> 'a list option" where
  "read_entries skip d sel [] = Some []"
| "read_entries skip d sel ((i, k) # es) =
     Option.bind (if skip \<and> sel i = [] then Some d else vec_at (sel i) k) (\<lambda>x. map_option ((#) x) (read_entries skip d sel es))"

text \<open>The texts of a page: the text of the entry at every position of the page, empty where there is none.\<close>

definition page_texts :: "(nat \<Rightarrow> string list list) \<Rightarrow> nat \<Rightarrow> nat \<Rightarrow> (nat \<times> nat) list \<Rightarrow> string list list" where
  "page_texts sel propNum pageCount entries =
     map (\<lambda>dis. map (\<lambda>i. if i < length entries then
         (let (w, off) = entries ! i; t = sel w in if dis < length t \<and> off < length (t ! dis) then t ! dis ! off else [])
       else []) [0..<pageCount]) [0..<propNum]"

definition topk_count :: "'f merge_env \<Rightarrow> nat \<Rightarrow> nat \<Rightarrow> nat \<Rightarrow> nat" where
  "topk_count e offset topKNum totalTopKCount =
     (let topKStart = roundDown e offset topKNum in min topKNum (if topKStart < totalTopKCount then totalTopKCount - topKStart else 0))"

definition choose_docs :: "'f :: linordered_idom merge_env \<Rightarrow> (workerid \<times> ('f, 'n) search_result) list \<Rightarrow> ('f, 'n) search_result \<Rightarrow>
    (('f, 'n) search_result \<times> (nat \<times> nat) list) option" where
  "choose_docs e ws m =
     (let res = (\<lambda>i. snd (ws ! i));
          sizes = map (\<lambda>(w, r). length (topKDocs r)) ws;
          topKCount = topk_count e (start m) (TOP_K_NUM m) (sum_list sizes);
          hasCustom = list_ex (\<lambda>(w, r). topKCustomRankScoreList r \<noteq> []) ws;
          hasGeo = list_ex (\<lambda>(w, r). topKGeoDistanceList r \<noteq> []) ws in
      Option.bind (merge_entries (entry_gt e ws) sizes topKCount (map (\<lambda>_. 0) ws)) (\<lambda>es.
      Option.bind (read_entries False 0 (\<lambda>i. topKRankScoreList (res i)) es) (\<lambda>scores.
      Option.bind (read_entries True 0 (\<lambda>i. topKCustomRankScoreList (res i)) es) (\<lambda>customs.
      Option.bind (read_entries True 0 (\<lambda>i. topKGeoDistanceList (res i)) es) (\<lambda>dists.
        Some (m\<lparr>topKDocs := vec_resize topKCount 0 (map (\<lambda>(i, k). topKDocs (res i) ! k) es),
            topKWorkerIds := vec_resize topKCount 0 (map (\<lambda>(i, k). fst (ws ! i)) es),
            topKRankScoreList := vec_resize topKCount 0 scores,
            topKCustomRankScoreList := (if hasCustom then vec_resize topKCount 0 customs else topKCustomRankScoreList m),
            topKGeoDistanceList := (if hasGeo then vec_resize topKCount 0 dists else topKGeoDistanceList m)\<rparr>,
          vec_resize topKCount (0, 0) es))))))"

definition merge_page :: "(workerid \<times> ('f, 'n) search_result) list \<Rightarrow> (nat \<times> nat) list \<Rightarrow> ('f, 'n) search_result \<Rightarrow> ('f, 'n) search_result" where
  "merge_page ws entries m =
     (let pageCount = (if start m < length (topKDocs m) then min (page_count m) (length (topKDocs m) - start m) else 0);
          displayPropertyNum = length (snippetTextOfDocumentInPage (snd (hd ws)));
          isSummaryOn = length (rawTextOfSummaryInPage (snd (hd ws)));
          es = take pageCount (drop (start m) entries);
          res = (\<lambda>i. snd (ws ! i)) in
      m\<lparr>snippetTextOfDocumentInPage := page_texts (\<lambda>i. snippetTextOfDocumentInPage (res i)) displayPropertyNum pageCount es,
        fullTextOfDocumentInPage := page_texts (\<lambda>i. fullTextOfDocumentInPage (res i)) displayPropertyNum pageCount es,
        rawTextOfSummaryInPage := page_texts (\<lambda>i. rawTextOfSummaryInPage (res i)) isSummaryOn pageCount es\<rparr>)"

definition getDistSearchResult :: "('q, ustring \<times> 'f) queue_class \<Rightarrow> 'f :: linordered_idom merge_env \<Rightarrow> (ustring \<Rightarrow> ustring \<Rightarrow> int) \<Rightarrow>
    (workerid \<times> ('f, 'n) search_result) list \<Rightarrow> ('f, 'n) search_result \<Rightarrow> ('f, 'n) search_result option" where
  "getDistSearchResult qops e cmp workerResults mergeResult =
     (if workerResults = [] then Some (mergeResult\<lparr>error := ''empty worker.''\<rparr>)
      else case first_error workerResults of
        Some err \<Rightarrow> Some (mergeResult\<lparr>error := err\<rparr>)
      | None \<Rightarrow>
          if length workerResults = 1 then
            let (w, r) = hd workerResults in
            Some (r\<lparr>topKWorkerIds := vec_resize (length (topKDocs r)) w (topKWorkerIds r)\<rparr>)
          else
            let ws = drop_fewer_tokens workerResults;
                m1 = (copy_basic (snd (hd workerResults)) mergeResult)\<lparr>attrRep := attrRep (snd (hd ws)),
                  propertyRange := \<lparr>highValue = float_min e, lowValue = float_max e\<rparr>\<rparr> in
            Option.bind (merge_workers e cmp ws m1) (\<lambda>m2.
            Option.bind (ontology_merge qops cmp 0 (attrRep m2) (map (\<lambda>(w, r). attrRep r) (tl ws))) (\<lambda>attr.
            map_option (\<lambda>(m3, entries).
              let is_need_get_docs = list_ex (\<lambda>(w, r). \<not> include_summary_data (distSearchInfo r)) ws;
                  m4 = m3\<lparr>distSearchInfo := (distSearchInfo m3)\<lparr>include_summary_data := \<not> is_need_get_docs\<rparr>\<rparr>
              in if is_need_get_docs then m4 else merge_page ws entries m4)
              (choose_docs e ws (m2\<lparr>attrRep := attr, autoSelectGroupLabels := log_category (autoSelectGroupLabels m2)\<rparr>)))))"

section \<open>Summaries\<close>

text \<open>
  \<open>getSummaryResult\<close>: for every position of the page the worker whose next offset is that position; the loop stops at the first
  position that no worker has.
\<close>

fun summary_entries :: "nat list list \<Rightarrow> nat list \<Rightarrow> nat list \<Rightarrow> (nat \<times> nat) list" where
  "summary_entries offsets next [] = []"
| "summary_entries offsets next (i # is) =
     (case find (\<lambda>w. next ! w < length (offsets ! w) \<and> offsets ! w ! (next ! w) = i) [0..<length offsets] of
        None \<Rightarrow> []
      | Some w \<Rightarrow> (w, next ! w) # summary_entries offsets (next[w := Suc (next ! w)]) is)"

definition getSummaryResult :: "(workerid \<times> ('f, 'n) search_result) list \<Rightarrow> ('f, 'n) search_result \<Rightarrow> ('f, 'n) search_result" where
  "getSummaryResult workerResults m =
     (if workerResults = [] then m
      else case first_error workerResults of
        Some err \<Rightarrow> m\<lparr>error := err\<rparr>
      | None \<Rightarrow>
          let pageCount = page_count m;
              displayPropertyNum = length (snippetTextOfDocumentInPage (snd (hd workerResults)));
              isSummaryOn = length (rawTextOfSummaryInPage (snd (hd workerResults)));
              es = summary_entries (map (\<lambda>(w, r). pageOffsetList r) workerResults) (map (\<lambda>_. 0) workerResults) [0..<pageCount];
              res = (\<lambda>i. snd (workerResults ! i)) in
          m\<lparr>snippetTextOfDocumentInPage := page_texts (\<lambda>i. snippetTextOfDocumentInPage (res i)) displayPropertyNum pageCount es,
            fullTextOfDocumentInPage := page_texts (\<lambda>i. fullTextOfDocumentInPage (res i)) displayPropertyNum pageCount es,
            rawTextOfSummaryInPage := page_texts (\<lambda>i. rawTextOfSummaryInPage (res i)) isSummaryOn pageCount es\<rparr>)"

definition getSummaryMiningResult :: "(workerid \<times> ('f, 'n) search_result) list \<Rightarrow> ('f, 'n) search_result \<Rightarrow> ('f, 'n) search_result" where
  "getSummaryMiningResult workerResults m = getSummaryResult workerResults m"

text \<open>\<open>splitSearchResultByWorkerid\<close>: the part of the page of every worker; \<open>i\<close> is the position in the page.\<close>

definition page_part_new :: "'f merge_env \<Rightarrow> ('f :: zero, 'n) search_result \<Rightarrow> ('f, 'n) search_result" where
  "page_part_new e totalResult = (search_result_init (UTF_8 e))\<lparr>propertyQueryTermList := propertyQueryTermList totalResult, rawQueryString := rawQueryString totalResult,
     encodingType := encodingType totalResult, collectionName := collectionName totalResult, TOP_K_NUM := TOP_K_NUM totalResult,
     distSearchInfo := dist_info_init\<lparr>isDistributed := isDistributed (distSearchInfo totalResult)\<rparr>\<rparr>"

definition page_part_add :: "docid \<Rightarrow> nat \<Rightarrow> ('f, 'n) search_result \<Rightarrow> ('f, 'n) search_result" where
  "page_part_add doc i r = r\<lparr>docsInPage := docsInPage r @ [doc], pageOffsetList := pageOffsetList r @ [i], page_count := page_count r + 1\<rparr>"

fun split_page :: "'f merge_env \<Rightarrow> ('f :: zero, 'n) search_result \<Rightarrow> nat list \<Rightarrow> nat \<Rightarrow> (workerid \<times> ('f, 'n) search_result) list \<Rightarrow>
    (workerid \<times> ('f, 'n) search_result) list option" where
  "split_page e totalResult [] i resultMap = Some resultMap"
| "split_page e totalResult (topstart # ts) i resultMap =
     Option.bind (vec_at (topKWorkerIds totalResult) topstart) (\<lambda>w.
       let r = map_get (page_part_new e totalResult) w resultMap in
       split_page e totalResult ts (Suc i) (map_put w (page_part_add (topKDocs totalResult ! topstart) i r) resultMap))"

definition splitSearchResultByWorkerid :: "'f merge_env \<Rightarrow> ('f :: zero, 'n) search_result \<Rightarrow> (workerid \<times> ('f, 'n) search_result) list \<Rightarrow>
    (workerid \<times> ('f, 'n) search_result) list option" where
  "splitSearchResultByWorkerid e totalResult resultMap =
     (if TOP_K_NUM totalResult = 0 \<or> topKDocs totalResult = [] then Some resultMap
      else let start_inpage = start totalResult mod TOP_K_NUM totalResult in
        split_page e totalResult [start_inpage..<min (length (topKDocs totalResult)) (start_inpage + page_count totalResult)] 0 resultMap)"

section \<open>Documents by their ids\<close>

record raw_text_result =
  rt_error :: string
  rt_full :: "string list list"
  rt_snippet :: "string list list"
  rt_summary :: "string list list"
  rt_idList :: "docid list"
  rt_workeridList :: "workerid list"

fun push_texts :: "string list list \<Rightarrow> nat \<Rightarrow> nat list \<Rightarrow> string list list \<Rightarrow> string list list option" where
  "push_texts src i [] dst = Some dst"
| "push_texts src i (p # ps) dst =
     Option.bind (vec_at src p) (\<lambda>l. Option.bind (vec_at l i) (\<lambda>t. Option.bind (vec_at dst p) (\<lambda>d. push_texts src i ps (dst[p := d @ [t]]))))"

definition push_document :: "workerid \<Rightarrow> raw_text_result \<Rightarrow> nat \<Rightarrow> raw_text_result \<Rightarrow> raw_text_result option" where
  "push_document w r i m =
     (let n = length (rt_full r);
          m1 = (if rt_idList m = [] then m\<lparr>rt_full := vec_resize n [] (rt_full m), rt_snippet := vec_resize n [] (rt_snippet m),
              rt_summary := vec_resize (length (rt_summary r)) [] (rt_summary m)\<rparr> else m) in
      Option.bind (push_texts (rt_full r) i [0..<n] (rt_full m1)) (\<lambda>full.
      Option.bind (push_texts (rt_snippet r) i [0..<n] (rt_snippet m1)) (\<lambda>snippet.
      map_option (\<lambda>summary. m1\<lparr>rt_idList := rt_idList m1 @ [rt_idList r ! i], rt_workeridList := rt_workeridList m1 @ [w], rt_full := full,
          rt_snippet := snippet, rt_summary := summary\<rparr>)
        (push_texts (rt_summary r) i [0..<length (rt_summary r)] (rt_summary m1)))))"

fun push_documents :: "workerid \<Rightarrow> raw_text_result \<Rightarrow> nat list \<Rightarrow> raw_text_result \<Rightarrow> raw_text_result option" where
  "push_documents w r [] m = Some m"
| "push_documents w r (i # is) m = Option.bind (push_document w r i m) (push_documents w r is)"

fun push_results :: "(workerid \<times> raw_text_result) list \<Rightarrow> raw_text_result \<Rightarrow> raw_text_result option" where
  "push_results [] m = Some m"
| "push_results ((w, r) # ws) m = Option.bind (push_documents w r [0..<length (rt_idList r)] m) (push_results ws)"

definition getDocumentsByIds :: "(workerid \<times> raw_text_result) list \<Rightarrow> raw_text_result \<Rightarrow> raw_text_result option" where
  "getDocumentsByIds workerResults m =
     (if workerResults = [] then Some (m\<lparr>rt_error := ''empty worker result.''\<rparr>)
      else case find (\<lambda>(w, r). rt_error r \<noteq> []) workerResults of
        Some (w, r) \<Rightarrow> Some (m\<lparr>rt_error := rt_error r\<rparr>)
      | None \<Rightarrow>
          if length workerResults = 1 then
            let (w, r) = hd workerResults in Some (r\<lparr>rt_workeridList := vec_resize (length (rt_idList r)) w (rt_workeridList r)\<rparr>)
          else push_results workerResults (m\<lparr>rt_idList := []\<rparr>))"

text \<open>The request for documents: ids that pack a worker and a document, and keys; \<open>'r\<close> is the rest of the request.\<close>

record 'r get_docs_item =
  gd_idList :: "wdocid list"
  gd_docIdList :: "string list"
  gd_rest :: 'r

fun split_ids :: "(wdocid \<Rightarrow> workerid \<times> docid) \<Rightarrow> 'r get_docs_item \<Rightarrow> wdocid list \<Rightarrow> (workerid \<times> 'r get_docs_item) list \<Rightarrow> (workerid \<times> 'r get_docs_item) list" where
  "split_ids getWorkerAndDocId item [] m = m"
| "split_ids getWorkerAndDocId item (x # ids) m =
     (let w = fst (getWorkerAndDocId x);
          sub = (case map_of m w of
            Some s \<Rightarrow> if gd_idList s = [] then item\<lparr>gd_docIdList := [], gd_idList := []\<rparr> else s
          | None \<Rightarrow> item\<lparr>gd_docIdList := [], gd_idList := []\<rparr>)
      in split_ids getWorkerAndDocId item ids (map_put w (sub\<lparr>gd_idList := gd_idList sub @ [x]\<rparr>) m))"

definition add_key :: "'r get_docs_item \<Rightarrow> string \<Rightarrow> shardid \<Rightarrow> (workerid \<times> 'r get_docs_item) list \<Rightarrow> (workerid \<times> 'r get_docs_item) list" where
  "add_key item key shard m =
     (let w = ucast shard;
          sub = (case map_of m w of
            Some s \<Rightarrow> if gd_idList s = [] \<and> gd_docIdList s = [] then item\<lparr>gd_docIdList := [], gd_idList := []\<rparr> else s
          | None \<Rightarrow> item\<lparr>gd_docIdList := [], gd_idList := []\<rparr>)
      in map_put w (sub\<lparr>gd_docIdList := gd_docIdList sub @ [key]\<rparr>) m)"

fun split_keys :: "(shard_fields \<Rightarrow> shardid list option) \<Rightarrow> string \<Rightarrow> 'r get_docs_item \<Rightarrow> string list \<Rightarrow> (workerid \<times> 'r get_docs_item) list \<Rightarrow>
    (workerid \<times> 'r get_docs_item) list option" where
  "split_keys for_get uniqueKey item [] m = Some m"
| "split_keys for_get uniqueKey item (key # keys) m =
     Option.bind (for_get [uniqueKey \<mapsto> key]) (\<lambda>shards. split_keys for_get uniqueKey item keys (fold (add_key item key) shards m))"

definition splitGetDocsActionItemByWorkerid :: "(wdocid \<Rightarrow> workerid \<times> docid) \<Rightarrow> (shard_fields \<Rightarrow> shardid list option) \<Rightarrow> string \<Rightarrow> 'r get_docs_item \<Rightarrow>
    (workerid \<times> 'r get_docs_item) list \<Rightarrow> (bool \<times> (workerid \<times> 'r get_docs_item) list) option" where
  "splitGetDocsActionItemByWorkerid getWorkerAndDocId for_get uniqueKey item m =
     (if gd_idList item = [] \<and> gd_docIdList item = [] then Some (False, m)
      else map_option (\<lambda>m'. (m' \<noteq> [], m')) (split_keys for_get uniqueKey item (gd_docIdList item) (split_ids getWorkerAndDocId item (gd_idList item) m)))"

section \<open>Single values\<close>

definition getInternalDocumentId :: "'f merge_env \<Rightarrow> (workerid \<times> u64) list \<Rightarrow> u64" where
  "getInternalDocumentId e workerResults =
     (case find (\<lambda>(w, r). r \<noteq> 0) workerResults of None \<Rightarrow> 0 | Some (w, r) \<Rightarrow> GetWDocId e w (ucast r))"

definition clickGroupLabel :: "(workerid \<times> bool) list \<Rightarrow> bool" where
  "clickGroupLabel workerResults = list_ex snd workerResults"

definition HookDistributeRequestForSearch :: "(workerid \<times> bool) list \<Rightarrow> bool" where
  "HookDistributeRequestForSearch workerResults = list_all snd workerResults"

definition getDistDocNum :: "(workerid \<times> u32) list \<Rightarrow> u32" where
  "getDistDocNum workerResults = foldl (\<lambda>n (w, r). n + r) 0 workerResults"

definition getDistKeyCount :: "(workerid \<times> u32) list \<Rightarrow> u32" where
  "getDistKeyCount workerResults = foldl (\<lambda>n (w, r). n + r) 0 workerResults"

end
