(* ===== verification/Merge_Order.thy ===== *)
theory Merge_Order
  imports Search_Merger
begin

text \<open>
  The order of a merged search result: the documents that the merger of a distributed search chooses are the best ones of all workers, in order.
\<close>

section \<open>Orders\<close>

definition weak_on :: "'a set \<Rightarrow> ('a \<Rightarrow> 'a \<Rightarrow> bool) \<Rightarrow> bool" where
  "weak_on A G \<longleftrightarrow> (\<forall>x\<in>A. \<forall>y\<in>A. G x y \<longrightarrow> \<not> G y x) \<and> (\<forall>x\<in>A. \<forall>y\<in>A. \<forall>z\<in>A. \<not> G x y \<longrightarrow> \<not> G y z \<longrightarrow> \<not> G x z)"

lemma weak_onD:
  assumes "weak_on A G"
  shows "\<lbrakk>x \<in> A; y \<in> A; G x y\<rbrakk> \<Longrightarrow> \<not> G y x" "\<lbrakk>x \<in> A; y \<in> A; z \<in> A; \<not> G x y; \<not> G y z\<rbrakk> \<Longrightarrow> \<not> G x z"
  using assms unfolding weak_on_def by blast+

text \<open>The entries from the positions \<open>iter\<close> on, and the order of the entries of each worker.\<close>

definition entries_from :: "nat list \<Rightarrow> nat list \<Rightarrow> (nat \<times> nat) set" where
  "entries_from sizes iter = {(i, k). i < length sizes \<and> iter ! i \<le> k \<and> k < sizes ! i}"

definition ranked :: "nat list \<Rightarrow> (nat \<times> nat \<Rightarrow> nat \<times> nat \<Rightarrow> bool option) \<Rightarrow> (nat \<times> nat \<Rightarrow> nat \<times> nat \<Rightarrow> bool) \<Rightarrow> bool" where
  "ranked sizes gt G \<longleftrightarrow>
     (let A = entries_from sizes (replicate (length sizes) 0) in
      (\<forall>x\<in>A. \<forall>y\<in>A. gt x y = Some (G x y)) \<and> weak_on A G \<and>
      (\<forall>i<length sizes. \<forall>k k'. k \<le> k' \<and> k' < sizes ! i \<longrightarrow> \<not> G (i, k') (i, k)))"

abbreviation all_entries :: "nat list \<Rightarrow> (nat \<times> nat) set" where
  "all_entries sizes \<equiv> entries_from sizes (replicate (length sizes) 0)"

lemma entries_all: "length iter = length sizes \<Longrightarrow> entries_from sizes iter \<subseteq> all_entries sizes"
  by (auto simp: entries_from_def)

lemma rankedD:
  assumes "ranked sizes gt G"
  shows "\<lbrakk>x \<in> all_entries sizes; y \<in> all_entries sizes\<rbrakk> \<Longrightarrow> gt x y = Some (G x y)" "weak_on (all_entries sizes) G"
    "\<lbrakk>i < length sizes; k \<le> k'; k' < sizes ! i\<rbrakk> \<Longrightarrow> \<not> G (i, k') (i, k)"
  using assms unfolding ranked_def Let_def by blast+

section \<open>The best head\<close>

lemma best_head_Some:
  assumes "ranked sizes gt G" "length iter = length sizes" "\<forall>i\<in>set is. i < length sizes" "m < length sizes" "iter ! m < sizes ! m"
  shows "\<exists>m'. best_head gt sizes iter is (Some m) = Some (Some m') \<and> m' < length sizes \<and> iter ! m' < sizes ! m' \<and>
    (\<forall>i\<in>insert m (set is). iter ! i < sizes ! i \<longrightarrow> \<not> G (i, iter ! i) (m', iter ! m'))"
  using assms(3-5)
proof (induction "is" arbitrary: m)
  case Nil
  have e: "(m, iter ! m) \<in> all_entries sizes" using Nil by (simp add: entries_from_def)
  then have "\<not> G (m, iter ! m) (m, iter ! m)" using weak_onD(1) [OF rankedD(2) [OF assms(1)] e e] by blast
  then show ?case using Nil by simp
next
  case (Cons i "is")
  show ?case
  proof (cases "iter ! i \<ge> sizes ! i")
    case True
    then show ?thesis using Cons by auto
  next
    case False
    have e: "(m, iter ! m) \<in> all_entries sizes" "(i, iter ! i) \<in> all_entries sizes" using Cons.prems False by (simp_all add: entries_from_def)
    note W = weak_onD [OF rankedD(2) [OF assms(1)]]
    have g: "gt (i, iter ! i) (m, iter ! m) = Some (G (i, iter ! i) (m, iter ! m))" using rankedD(1) [OF assms(1)] e by blast
    let ?n = "if G (i, iter ! i) (m, iter ! m) then i else m"
    have n: "?n < length sizes" "iter ! ?n < sizes ! ?n" using Cons.prems False by simp_all
    obtain m' where m': "best_head gt sizes iter is (Some ?n) = Some (Some m')" "m' < length sizes" "iter ! m' < sizes ! m'"
      "\<forall>j\<in>insert ?n (set is). iter ! j < sizes ! j \<longrightarrow> \<not> G (j, iter ! j) (m', iter ! m')"
      using Cons.IH [OF _ n] Cons.prems(1) by auto
    have eq: "best_head gt sizes iter (i # is) (Some m) = Some (Some m')" using False g m'(1) by (simp split: if_splits)
    have e': "(m', iter ! m') \<in> all_entries sizes" using m' by (simp add: entries_from_def)
    have "\<not> G (?n, iter ! ?n) (m', iter ! m')" using m'(4) n by blast
    moreover have "\<not> G (m, iter ! m) (?n, iter ! ?n)" "\<not> G (i, iter ! i) (?n, iter ! ?n)"
      using W(1) [OF e(2) e(1)] W(1) [OF e(1) e(1)] W(1) [OF e(2) e(2)] by (auto split: if_splits)
    moreover have "(?n, iter ! ?n) \<in> all_entries sizes" using e by simp
    ultimately have "\<not> G (m, iter ! m) (m', iter ! m')" "\<not> G (i, iter ! i) (m', iter ! m')"
      using W(2) [OF e(1) _ e'] W(2) [OF e(2) _ e'] by blast+
    then show ?thesis using eq m' by auto
  qed
qed

lemma best_head_None:
  assumes "ranked sizes gt G" "length iter = length sizes" "\<forall>i\<in>set is. i < length sizes"
  shows "(\<forall>i\<in>set is. sizes ! i \<le> iter ! i) \<and> best_head gt sizes iter is None = Some None \<or>
    (\<exists>m. best_head gt sizes iter is None = Some (Some m) \<and> m < length sizes \<and> iter ! m < sizes ! m \<and>
      (\<forall>i\<in>set is. iter ! i < sizes ! i \<longrightarrow> \<not> G (i, iter ! i) (m, iter ! m)))"
  using assms(3)
proof (induction "is")
  case (Cons i "is")
  show ?case
  proof (cases "iter ! i \<ge> sizes ! i")
    case True
    then show ?thesis using Cons by auto
  next
    case False
    then show ?thesis using best_head_Some [OF assms(1,2), of "is" i] Cons.prems by auto
  qed
qed simp

section \<open>The merged entries\<close>

definition best_entries :: "(nat \<times> nat \<Rightarrow> nat \<times> nat \<Rightarrow> bool) \<Rightarrow> (nat \<times> nat) set \<Rightarrow> nat \<Rightarrow> (nat \<times> nat) list \<Rightarrow> bool" where
  "best_entries G A n es \<longleftrightarrow> length es = n \<and> distinct es \<and> set es \<subseteq> A \<and> sorted_wrt (\<lambda>x y. \<not> G y x) es \<and>
     (\<forall>x\<in>set es. \<forall>y\<in>A - set es. \<not> G y x)"

definition remaining :: "nat list \<Rightarrow> nat list \<Rightarrow> nat" where
  "remaining sizes iter = (\<Sum>i<length sizes. sizes ! i - iter ! i)"

lemma remaining_step:
  assumes "i < length sizes" "length iter = length sizes" "iter ! i < sizes ! i"
  shows "Suc (remaining sizes (iter[i := Suc (iter ! i)])) = remaining sizes iter"
proof -
  have "(\<Sum>j<length sizes. sizes ! j - iter[i := Suc (iter ! i)] ! j) =
      (sizes ! i - Suc (iter ! i)) + (\<Sum>j\<in>{..<length sizes} - {i}. sizes ! j - iter ! j)"
    using assms(1,2) by (subst sum.remove [of _ i]) (auto intro!: sum.cong)
  moreover have "(\<Sum>j<length sizes. sizes ! j - iter ! j) = (sizes ! i - iter ! i) + (\<Sum>j\<in>{..<length sizes} - {i}. sizes ! j - iter ! j)"
    using assms(1) by (subst sum.remove [of _ i]) auto
  ultimately show ?thesis using assms(3) by (simp add: remaining_def)
qed

lemma entries_step:
  assumes "i < length sizes" "length iter = length sizes" "iter ! i < sizes ! i"
  shows "entries_from sizes iter = insert (i, iter ! i) (entries_from sizes (iter[i := Suc (iter ! i)]))"
    "(i, iter ! i) \<notin> entries_from sizes (iter[i := Suc (iter ! i)])"
  using assms by (auto simp: entries_from_def nth_list_update split: if_splits)

lemma merge_entries_best:
  assumes "ranked sizes gt G" "length iter = length sizes" "n \<le> remaining sizes iter"
  shows "\<exists>es. merge_entries gt sizes n iter = Some es \<and> best_entries G (entries_from sizes iter) n es"
  using assms(2,3)
proof (induction n arbitrary: iter)
  case 0
  then show ?case by (simp add: best_entries_def)
next
  case (Suc n)
  have "\<not> (\<forall>i\<in>set [0..<length sizes]. sizes ! i \<le> iter ! i)"
  proof
    assume "\<forall>i\<in>set [0..<length sizes]. sizes ! i \<le> iter ! i"
    then have "remaining sizes iter = 0" by (simp add: remaining_def)
    then show False using Suc.prems(2) by simp
  qed
  then obtain m where m: "best_head gt sizes iter [0..<length sizes] None = Some (Some m)" "m < length sizes" "iter ! m < sizes ! m"
    "\<forall>i\<in>set [0..<length sizes]. iter ! i < sizes ! i \<longrightarrow> \<not> G (i, iter ! i) (m, iter ! m)"
    using best_head_None [OF assms(1) Suc.prems(1), of "[0..<length sizes]"] by auto
  let ?iter = "iter[m := Suc (iter ! m)]" and ?h = "(m, iter ! m)"
  note E = entries_step [OF m(2) Suc.prems(1) m(3)]
  have sub: "entries_from sizes iter \<subseteq> all_entries sizes" by (rule entries_all [OF Suc.prems(1)])
  have top: "\<not> G y ?h" if y: "y \<in> entries_from sizes iter" for y
  proof -
    obtain i k where ik: "y = (i, k)" "i < length sizes" "iter ! i \<le> k" "k < sizes ! i" using y by (auto simp: entries_from_def)
    then have "\<not> G (i, k) (i, iter ! i)" using rankedD(3) [OF assms(1)] by blast
    moreover have "\<not> G (i, iter ! i) ?h" using m(4) ik by auto
    moreover have "(i, iter ! i) \<in> entries_from sizes iter" "?h \<in> entries_from sizes iter" using ik m by (auto simp: entries_from_def)
    ultimately show ?thesis using weak_onD(2) [OF rankedD(2) [OF assms(1)]] sub y ik(1) by blast
  qed
  obtain es where es: "merge_entries gt sizes n ?iter = Some es" "best_entries G (entries_from sizes ?iter) n es"
    using Suc.IH [of ?iter] Suc.prems remaining_step [OF m(2) Suc.prems(1) m(3)] by auto
  have "best_entries G (entries_from sizes iter) (Suc n) (?h # es)"
    using es(2) top unfolding best_entries_def E(1) using E(2) by auto
  then show ?case using m(1) es(1) by auto
qed

lemma remaining_all: "remaining sizes (replicate (length sizes) 0) = sum_list sizes"
  by (simp add: remaining_def sum_list_sum_nth atLeast0LessThan)

section \<open>The chosen documents\<close>

definition lists_complete :: "(workerid \<times> ('f, 'n) search_result) list \<Rightarrow> bool" where
  "lists_complete ws \<longleftrightarrow> (\<forall>(w, r)\<in>set ws. length (topKRankScoreList r) = length (topKDocs r) \<and>
     (topKCustomRankScoreList r = [] \<or> length (topKCustomRankScoreList r) = length (topKDocs r)) \<and>
     (topKGeoDistanceList r = [] \<or> length (topKGeoDistanceList r) = length (topKDocs r)))"

definition doc_sizes :: "(workerid \<times> ('f, 'n) search_result) list \<Rightarrow> nat list" where
  "doc_sizes ws = map (\<lambda>(w, r). length (topKDocs r)) ws"

lemma doc_sizes_nth: "i < length ws \<Longrightarrow> doc_sizes ws ! i = length (topKDocs (snd (ws ! i)))"
  by (simp add: doc_sizes_def split_beta)

lemma length_doc_sizes [simp]: "length (doc_sizes ws) = length ws"
  by (simp add: doc_sizes_def)

lemma read_entries_ok:
  "\<forall>(i, k)\<in>set es. k < length (sel i) \<or> skip \<and> sel i = [] \<Longrightarrow>
   read_entries skip d sel es = Some (map (\<lambda>(i, k). if skip \<and> sel i = [] then d else sel i ! k) es)"
  by (induction skip d sel es rule: read_entries.induct) (auto simp: vec_at_def)

lemma topk_count_le: "topk_count e offset topKNum n \<le> n"
  by (auto simp: topk_count_def Let_def)

text \<open>The result with the documents, workers and scores of the entries \<open>es\<close>.\<close>

definition shows_entries :: "(workerid \<times> ('f, 'n) search_result) list \<Rightarrow> (nat \<times> nat) list \<Rightarrow> ('f, 'n) search_result \<Rightarrow> bool" where
  "shows_entries ws es m \<longleftrightarrow> topKDocs m = map (\<lambda>(i, k). topKDocs (snd (ws ! i)) ! k) es \<and> topKWorkerIds m = map (\<lambda>(i, k). fst (ws ! i)) es \<and>
     topKRankScoreList m = map (\<lambda>(i, k). topKRankScoreList (snd (ws ! i)) ! k) es"

lemma choose_docs_best:
  assumes "ranked (doc_sizes ws) (entry_gt e ws) G" "lists_complete ws"
  shows "\<exists>m' es. choose_docs e ws m = Some (m', es) \<and> shows_entries ws es m' \<and> start m' = start m \<and> TOP_K_NUM m' = TOP_K_NUM m \<and> page_count m' = page_count m \<and>
    totalCount m' = totalCount m \<and> best_entries G (all_entries (doc_sizes ws)) (topk_count e (start m) (TOP_K_NUM m) (sum_list (doc_sizes ws))) es"
proof -
  let ?n = "topk_count e (start m) (TOP_K_NUM m) (sum_list (doc_sizes ws))" and ?z = "replicate (length (doc_sizes ws)) 0"
  have z: "map (\<lambda>_. 0) ws = ?z" by (simp add: map_replicate_const)
  have "?n \<le> remaining (doc_sizes ws) ?z" unfolding remaining_all by (rule topk_count_le)
  then obtain es where es: "merge_entries (entry_gt e ws) (doc_sizes ws) ?n ?z = Some es" "best_entries G (all_entries (doc_sizes ws)) ?n es"
    using merge_entries_best [OF assms(1), of ?z ?n] by (metis length_replicate)
  have len: "length es = ?n" using es(2) by (simp add: best_entries_def)
  have k: "k < length (topKDocs (snd (ws ! i)))" "ws ! i \<in> set ws" if "(i, k) \<in> set es" for i k
  proof -
    have "(i, k) \<in> all_entries (doc_sizes ws)" using es(2) that by (auto simp: best_entries_def)
    then show "k < length (topKDocs (snd (ws ! i)))" "ws ! i \<in> set ws" by (auto simp: entries_from_def doc_sizes_nth)
  qed
  have C: "length (topKRankScoreList (snd (ws ! i))) = length (topKDocs (snd (ws ! i))) \<and>
      (topKCustomRankScoreList (snd (ws ! i)) = [] \<or> length (topKCustomRankScoreList (snd (ws ! i))) = length (topKDocs (snd (ws ! i)))) \<and>
      (topKGeoDistanceList (snd (ws ! i)) = [] \<or> length (topKGeoDistanceList (snd (ws ! i))) = length (topKDocs (snd (ws ! i))))"
    if "(i, k) \<in> set es" for i k using assms(2) k(2) [OF that] unfolding lists_complete_def by (auto simp: split_beta)
  have r1: "read_entries False 0 (\<lambda>i. topKRankScoreList (snd (ws ! i))) es = Some (map (\<lambda>(i, k). topKRankScoreList (snd (ws ! i)) ! k) es)"
    using read_entries_ok [of es "\<lambda>i. topKRankScoreList (snd (ws ! i))" False 0] k(1) C by fastforce
  have r2: "read_entries True 0 (\<lambda>i. topKCustomRankScoreList (snd (ws ! i))) es \<noteq> None"
    using read_entries_ok [of es "\<lambda>i. topKCustomRankScoreList (snd (ws ! i))" True 0] k(1) C by fastforce
  have r3: "read_entries True 0 (\<lambda>i. topKGeoDistanceList (snd (ws ! i))) es \<noteq> None"
    using read_entries_ok [of es "\<lambda>i. topKGeoDistanceList (snd (ws ! i))" True 0] k(1) C by fastforce
  obtain customs dists where cd: "read_entries True 0 (\<lambda>i. topKCustomRankScoreList (snd (ws ! i))) es = Some customs"
    "read_entries True 0 (\<lambda>i. topKGeoDistanceList (snd (ws ! i))) es = Some dists" using r2 r3 by blast
  have v: "vec_resize ?n d (map f es) = map f es" for d and f :: "nat \<times> nat \<Rightarrow> 'z" unfolding len [symmetric] using vec_resize_id [of "map f es" d] by simp
  have ve: "vec_resize ?n d es = es" for d unfolding len [symmetric] by simp
  obtain c g where "choose_docs e ws m = Some (m\<lparr>topKDocs := vec_resize ?n 0 (map (\<lambda>(i, k). topKDocs (snd (ws ! i)) ! k) es),
      topKWorkerIds := vec_resize ?n 0 (map (\<lambda>(i, k). fst (ws ! i)) es),
      topKRankScoreList := vec_resize ?n 0 (map (\<lambda>(i, k). topKRankScoreList (snd (ws ! i)) ! k) es),
      topKCustomRankScoreList := c, topKGeoDistanceList := g\<rparr>, vec_resize ?n (0, 0) es)"
    by (simp only: choose_docs_def Let_def z doc_sizes_def [symmetric] es(1) r1 cd bind.bind_lunit)
  from this [unfolded v ve] show ?thesis using es(2) by (simp add: shows_entries_def)
qed

section \<open>When the comparison is an order\<close>

fun value_type :: "'f sort_value \<Rightarrow> data_type" where
  "value_type (Int_Value _) = DATA_TYPE_INT32"
| "value_type (Float_Value _) = DATA_TYPE_FLOAT"
| "value_type (String_Value _) = DATA_TYPE_STRING"

definition value_gt :: "bool \<Rightarrow> 'f :: linordered_idom sort_value \<Rightarrow> 'f sort_value \<Rightarrow> bool" where
  "value_gt reverse v1 v2 = (if reverse then less_value v1 v2 else less_value v2 v1)"

lemma value_gt_order:
  shows "value_gt b v u \<Longrightarrow> \<not> value_gt b u v" "\<not> value_gt b v v"
    "\<lbrakk>value_type v = value_type u; v \<noteq> u; \<not> value_gt b v u\<rbrakk> \<Longrightarrow> value_gt b u v"
    "\<lbrakk>value_gt b v u; value_gt b u t\<rbrakk> \<Longrightarrow> value_gt b v t"
proof -
  show "value_gt b v u \<Longrightarrow> \<not> value_gt b u v" "\<not> value_gt b v v" by (cases v; cases u; auto simp: value_gt_def split: if_splits)+
  show "\<lbrakk>value_type v = value_type u; v \<noteq> u; \<not> value_gt b v u\<rbrakk> \<Longrightarrow> value_gt b u v" by (cases v; cases u; auto simp: value_gt_def split: if_splits)
  show "\<lbrakk>value_gt b v u; value_gt b u t\<rbrakk> \<Longrightarrow> value_gt b v t" by (cases v; cases u; cases t; auto simp: value_gt_def split: if_splits)
qed

text \<open>The lexicographic comparison of the values of two documents, with the directions of the sort properties.\<close>

fun lex_gt :: "('a \<Rightarrow> 'a \<Rightarrow> bool) \<Rightarrow> bool list \<Rightarrow> 'f :: linordered_idom sort_value list \<times> 'a \<Rightarrow> 'f sort_value list \<times> 'a \<Rightarrow> bool" where
  "lex_gt newer (b # bs) (v # vs, x) (u # us, y) = (if v = u then lex_gt newer bs (vs, x) (us, y) else value_gt b v u)"
| "lex_gt newer _ (_, x) (_, y) = newer x y"

lemma strict_weakD:
  assumes "strict_weak lt"
  shows "lt x y \<Longrightarrow> \<not> lt y x" "\<lbrakk>\<not> lt x y; \<not> lt y z\<rbrakk> \<Longrightarrow> \<not> lt x z"
  using assms unfolding strict_weak_def by blast+

lemma lex_gt_asym:
  "\<lbrakk>strict_weak newer; length vs = length bs; length us = length bs; lex_gt newer bs (vs, x) (us, y)\<rbrakk> \<Longrightarrow> \<not> lex_gt newer bs (us, y) (vs, x)"
proof (induction bs arbitrary: vs us)
  case Nil
  then show ?case using strict_weakD(1) [OF Nil.prems(1), of x y] by simp
next
  case (Cons b bs)
  obtain v vs' u us' where l: "vs = v # vs'" "us = u # us'" using Cons.prems(2,3) by (cases vs; cases us) auto
  show ?case using Cons.prems Cons.IH [of vs' us'] value_gt_order(1) [of b v u] unfolding l by (auto split: if_splits)
qed

lemma lex_gt_negtrans:
  "\<lbrakk>strict_weak newer; length vs = length bs; map value_type us = map value_type vs; map value_type ts = map value_type vs;
    \<not> lex_gt newer bs (vs, x) (us, y); \<not> lex_gt newer bs (us, y) (ts, z)\<rbrakk> \<Longrightarrow> \<not> lex_gt newer bs (vs, x) (ts, z)"
proof (induction bs arbitrary: vs us ts)
  case Nil
  then show ?case using strict_weakD(2) [OF Nil.prems(1), of x y z] by simp
next
  case (Cons b bs)
  obtain v vs' where v: "vs = v # vs'" using Cons.prems(2) by (cases vs) auto
  obtain u us' t ts' where l: "us = u # us'" "ts = t # ts'" using Cons.prems(3,4) unfolding v by auto
  have ty: "value_type u = value_type v" "value_type t = value_type v" using Cons.prems(3,4) unfolding v l by simp_all
  note n = Cons.prems(5,6) [unfolded v l lex_gt.simps(1)]
  note O = value_gt_order
  show ?case
  proof (cases "v = t")
    case True
    show ?thesis
    proof (cases "v = u")
      case True
      then have "\<not> lex_gt newer bs (vs', x) (us', y)" "\<not> lex_gt newer bs (us', y) (ts', z)" using n \<open>v = t\<close> by simp_all
      moreover have "length vs' = length bs" "map value_type us' = map value_type vs'" "map value_type ts' = map value_type vs'"
        using Cons.prems(2-4) unfolding v l by simp_all
      ultimately have "\<not> lex_gt newer bs (vs', x) (ts', z)" by (intro Cons.IH [OF Cons.prems(1)])
      then show ?thesis using \<open>v = t\<close> unfolding v l by simp
    next
      case False
      have "\<not> value_gt b v u" using n(1) False by simp
      then have "value_gt b u v" by (intro O(3)) (use ty False in auto)
      moreover have "\<not> value_gt b u t" using n(2) False True by simp
      ultimately show ?thesis using True by simp
    qed
  next
    case False
    have "\<not> value_gt b v t"
    proof (cases "v = u \<or> u = t")
      case True
      then show ?thesis using n False by auto
    next
      case ne: False
      have "\<not> value_gt b v u" "\<not> value_gt b u t" using n ne by simp_all
      then have "value_gt b u v" "value_gt b t u" by (intro O(3); use ty ne in auto)+
      then have "value_gt b t v" by (blast intro: O(4))
      then show ?thesis by (rule O(1))
    qed
    then show ?thesis using False unfolding v l by simp
  qed
qed

text \<open>
  The workers sort by the same properties: every document has a value of the same types, and values that count as
  equal (for rank scores: up to the \<open>epsilon\<close> of \<open>float\<close>) are equal.
\<close>

definition entry_values :: "'f merge_env \<Rightarrow> (workerid \<times> ('f, 'n) search_result) list \<Rightarrow> nat \<times> nat \<Rightarrow> 'f sort_value option list" where
  "entry_values e ws = (\<lambda>(i, k). map (\<lambda>p. read_value e (sp_data p) k) (sort_properties (snd (ws ! i))))"

definition same_sorting :: "'f :: linordered_idom merge_env \<Rightarrow> (workerid \<times> ('f, 'n) search_result) list \<Rightarrow> bool" where
  "same_sorting e ws \<longleftrightarrow> 0 \<le> float_epsilon e \<and> (\<exists>shape. (\<forall>x\<in>all_entries (doc_sizes ws).
       map (\<lambda>p. (sp_reverse p, sort_data_type (sp_data p))) (sort_properties (snd (ws ! fst x))) = shape \<and> None \<notin> set (entry_values e ws x)) \<and>
     (\<forall>x\<in>all_entries (doc_sizes ws). \<forall>y\<in>all_entries (doc_sizes ws). \<forall>j<length shape.
       same_value e (the (entry_values e ws x ! j)) (the (entry_values e ws y ! j)) \<longrightarrow> entry_values e ws x ! j = entry_values e ws y ! j))"

lemma greaterThan_lex:
  assumes "map (\<lambda>p. (sp_reverse p, sort_data_type (sp_data p))) ps1 = map (\<lambda>p. (sp_reverse p, sort_data_type (sp_data p))) ps2"
    "map (\<lambda>p. read_value e (sp_data p) k1) ps1 = map Some vs" "map (\<lambda>p. read_value e (sp_data p) k2) ps2 = map Some us"
    "\<forall>j<length vs. same_value e (vs ! j) (us ! j) \<longrightarrow> vs ! j = us ! j" "0 \<le> float_epsilon e"
  shows "greaterThan e ps1 k1 x ps2 k2 y = Some (lex_gt (IsNewerDocId e) (map sp_reverse ps1) (vs, x) (us, y))"
  using assms
proof (induction ps1 arbitrary: ps2 vs us)
  case (Cons p1 ps1)
  obtain p2 ps2' where p2: "ps2 = p2 # ps2'" using Cons.prems(1) by (cases ps2) auto
  obtain v vs' where v: "vs = v # vs'" "read_value e (sp_data p1) k1 = Some v" using Cons.prems(2) by (cases vs) auto
  obtain u us' where u: "us = u # us'" "read_value e (sp_data p2) k2 = Some u" using Cons.prems(3) p2 by (cases us) auto
  have IH: "greaterThan e ps1 k1 x ps2' k2 y = Some (lex_gt (IsNewerDocId e) (map sp_reverse ps1) (vs', x) (us', y))"
    using Cons.prems p2 v u by (intro Cons.IH) auto
  have "same_value e v v" using Cons.prems(5) by (cases v) auto
  moreover have "same_value e v u \<longrightarrow> v = u" using Cons.prems(4) v(1) u(1) by (auto dest: spec [of _ 0])
  ultimately have eq: "same_value e v u \<longleftrightarrow> v = u" by blast
  have "sort_data_type (sp_data p1) = sort_data_type (sp_data p2)" "sp_reverse p1 = sp_reverse p2" using Cons.prems(1) p2 by simp_all
  then show ?case using IH v u eq by (simp add: p2 value_gt_def)
qed simp

lemma entry_values_Some:
  assumes "None \<notin> set (entry_values e ws x)"
  shows "entry_values e ws x = map Some (map the (entry_values e ws x))"
  using assms by (simp add: o_def) (metis (no_types, lifting) map_idI option.collapse)

lemma value_type_data: "read_value e dat k = Some v \<Longrightarrow> value_type v = (if sort_data_type dat = DATA_TYPE_INT64 then DATA_TYPE_INT32 else sort_data_type dat)"
  by (cases dat) auto

definition ranks_above :: "'f :: linordered_idom merge_env \<Rightarrow> (workerid \<times> ('f, 'n) search_result) list \<Rightarrow> nat \<times> nat \<Rightarrow> nat \<times> nat \<Rightarrow> bool" where
  "ranks_above e ws x y \<longleftrightarrow> entry_gt e ws x y = Some True"

lemma same_sorting_weak:
  assumes "same_sorting e ws" "strict_weak (IsNewerDocId e)"
  shows "\<lbrakk>x \<in> all_entries (doc_sizes ws); y \<in> all_entries (doc_sizes ws)\<rbrakk> \<Longrightarrow> entry_gt e ws x y = Some (ranks_above e ws x y)"
    "weak_on (all_entries (doc_sizes ws)) (ranks_above e ws)"
proof -
  let ?A = "all_entries (doc_sizes ws)" and ?P = "\<lambda>x. sort_properties (snd (ws ! fst x))"
  let ?V = "\<lambda>x. map the (entry_values e ws x)" and ?D = "\<lambda>x. GetWDocId e (fst (ws ! fst x)) (topKDocs (snd (ws ! fst x)) ! snd x)"
  have eps: "0 \<le> float_epsilon e" using assms(1) by (simp add: same_sorting_def)
  obtain shape where s1: "\<forall>x\<in>?A. map (\<lambda>p. (sp_reverse p, sort_data_type (sp_data p))) (?P x) = shape \<and> None \<notin> set (entry_values e ws x)" and
    s2: "\<forall>x\<in>?A. \<forall>y\<in>?A. \<forall>j<length shape. same_value e (the (entry_values e ws x ! j)) (the (entry_values e ws y ! j)) \<longrightarrow>
      entry_values e ws x ! j = entry_values e ws y ! j"
    using assms(1) unfolding same_sorting_def by (elim conjE exE)
  have sh: "map (\<lambda>p. (sp_reverse p, sort_data_type (sp_data p))) (?P x) = shape" "None \<notin> set (entry_values e ws x)" if "x \<in> ?A" for x
    using bspec [OF s1 that] by simp_all
  have eq: "entry_values e ws x ! j = entry_values e ws y ! j" if "x \<in> ?A" "y \<in> ?A" "j < length shape"
    "same_value e (the (entry_values e ws x ! j)) (the (entry_values e ws y ! j))" for x y j
    using bspec [OF bspec [OF s2 that(1)] that(2)] that(3,4) by simp
  let ?B = "map fst shape"
  have rev: "map sp_reverse (?P x) = ?B" if "x \<in> ?A" for x unfolding sh(1) [OF that, symmetric] by (simp add: o_def)
  have len: "length (?V x) = length ?B" if "x \<in> ?A" for x using arg_cong [OF sh(1) [OF that], of length] by (simp add: entry_values_def split_beta)
  have vals: "map (\<lambda>p. read_value e (sp_data p) (snd x)) (?P x) = map Some (?V x)" if "x \<in> ?A" for x
    using entry_values_Some [OF sh(2) [OF that]] by (simp add: entry_values_def split_beta)
  have types: "map value_type (?V x) = map (\<lambda>t. if snd t = DATA_TYPE_INT64 then DATA_TYPE_INT32 else snd t) shape" if "x \<in> ?A" for x
    unfolding sh(1) [OF that, symmetric] map_map o_def snd_conv
  proof -
    have "value_type (the (read_value e (sp_data p) (snd x))) =
        (if sort_data_type (sp_data p) = DATA_TYPE_INT64 then DATA_TYPE_INT32 else sort_data_type (sp_data p))" if p: "p \<in> set (?P x)" for p
    proof -
      have "read_value e (sp_data p) (snd x) \<noteq> None" using sh(2) [OF \<open>x \<in> ?A\<close>] p by (force simp: entry_values_def split_beta)
      then show ?thesis using value_type_data by fastforce
    qed
    then show "map (\<lambda>x. value_type (the x)) (entry_values e ws x) =
        map (\<lambda>x. if sort_data_type (sp_data x) = DATA_TYPE_INT64 then DATA_TYPE_INT32 else sort_data_type (sp_data x)) (?P x)"
      by (simp add: entry_values_def split_beta)
  qed
  have gt: "entry_gt e ws x y = Some (lex_gt (IsNewerDocId e) ?B (?V x, ?D x) (?V y, ?D y))" if "x \<in> ?A" "y \<in> ?A" for x y
  proof -
    have "\<forall>j<length (?V x). same_value e (?V x ! j) (?V y ! j) \<longrightarrow> ?V x ! j = ?V y ! j"
    proof (intro allI impI)
      fix j assume j: "j < length (?V x)" "same_value e (?V x ! j) (?V y ! j)"
      then have "entry_values e ws x ! j = entry_values e ws y ! j"
        using len [OF that(1)] len [OF that(2)] by (intro eq [OF that]) simp_all
      then show "?V x ! j = ?V y ! j" using j(1) len [OF that(1)] len [OF that(2)] by simp
    qed
    then show ?thesis using greaterThan_lex [OF _ vals [OF that(1)] vals [OF that(2)] _ eps] sh(1) [OF that(1)] sh(1) [OF that(2)] rev [OF that(1)]
      by (simp add: entry_gt_def split_beta)
  qed
  show "entry_gt e ws x y = Some (ranks_above e ws x y)" if "x \<in> ?A" "y \<in> ?A" using gt [OF that] by (simp add: ranks_above_def)
  have R: "ranks_above e ws x y \<longleftrightarrow> lex_gt (IsNewerDocId e) ?B (?V x, ?D x) (?V y, ?D y)" if "x \<in> ?A" "y \<in> ?A" for x y
    using gt [OF that] by (simp add: ranks_above_def)
  show "weak_on ?A (ranks_above e ws)" unfolding weak_on_def
  proof (intro conjI ballI impI)
    fix x y assume "x \<in> ?A" "y \<in> ?A" "ranks_above e ws x y"
    then show "\<not> ranks_above e ws y x" using lex_gt_asym [OF assms(2) len len] R by blast
  next
    fix x y z assume a: "x \<in> ?A" "y \<in> ?A" "z \<in> ?A" "\<not> ranks_above e ws x y" "\<not> ranks_above e ws y z"
    have "map value_type (?V y) = map value_type (?V x)" "map value_type (?V z) = map value_type (?V x)" using types a by simp_all
    then show "\<not> ranks_above e ws x z" using lex_gt_negtrans [OF assms(2) len [OF a(1)]] R a by blast
  qed
qed

section \<open>The whole merge\<close>

definition same_tokens :: "(workerid \<times> ('f, 'n) search_result) list \<Rightarrow> bool" where
  "same_tokens ws \<longleftrightarrow> (\<forall>x\<in>set ws. majorTokenNum (distSearchInfo (snd x)) = majorTokenNum (distSearchInfo (snd (hd ws))))"

lemma largest_same:
  "\<forall>x\<in>set ws. majorTokenNum (distSearchInfo (snd x)) = n \<Longrightarrow>
   foldl (\<lambda>(largest, diff) (w, r). let cur = majorTokenNum (distSearchInfo r) in (if cur > largest then cur else largest, diff \<or> cur \<noteq> largest)) (n, False) ws = (n, False)"
  by (induction ws) (auto simp: split_beta)

lemma drop_same_tokens: "same_tokens ws \<Longrightarrow> ws \<noteq> [] \<Longrightarrow> drop_fewer_tokens ws = ws"
proof -
  assume a: "same_tokens ws" "ws \<noteq> []"
  let ?n = "majorTokenNum (distSearchInfo (snd (hd ws)))"
  have "majorTokenNum (distSearchInfo (snd x)) = ?n" if "x \<in> set (tl ws)" for x
    using bspec [OF a(1) [unfolded same_tokens_def] list.set_sel(2) [OF a(2) that]] .
  then have "largest_tokens ws = (?n, False)" unfolding largest_tokens_def by (intro largest_same) blast
  then show ?thesis by (simp only: drop_fewer_tokens_def Let_def prod.case if_False)
qed

lemma merge_worker_fields:
  "merge_worker e cmp x m = Some m' \<Longrightarrow> totalCount m' = totalCount m + totalCount (snd x) \<and> start m' = start m \<and> TOP_K_NUM m' = TOP_K_NUM m \<and>
     page_count m' = page_count m \<and> attrRep m' = attrRep m"
  by (cases x) (auto simp: merge_worker_def)

lemma merge_workers_fields:
  "merge_workers e cmp ws m = Some m' \<Longrightarrow> totalCount m' = totalCount m + sum_list (map (totalCount \<circ> snd) ws) \<and> start m' = start m \<and>
     TOP_K_NUM m' = TOP_K_NUM m \<and> page_count m' = page_count m \<and> attrRep m' = attrRep m"
proof (induction ws arbitrary: m)
  case (Cons x ws)
  then obtain m1 where "merge_worker e cmp x m = Some m1" "merge_workers e cmp ws m1 = Some m'" by (auto simp: bind_eq_Some_conv)
  then show ?case using Cons.IH merge_worker_fields [of e cmp x m m1] by auto
qed simp

text \<open>The groups and the attributes of the workers can be merged.\<close>

definition mergeable :: "('q, ustring \<times> 'f) queue_class \<Rightarrow> 'f :: linordered_idom merge_env \<Rightarrow> (ustring \<Rightarrow> ustring \<Rightarrow> int) \<Rightarrow>
    (workerid \<times> ('f, 'n) search_result) list \<Rightarrow> ('f, 'n) search_result \<Rightarrow> bool" where
  "mergeable qops e cmp ws m \<longleftrightarrow>
     merge_workers e cmp ws ((copy_basic (snd (hd ws)) m)\<lparr>attrRep := attrRep (snd (hd ws)), propertyRange := \<lparr>highValue = float_min e, lowValue = float_max e\<rparr>\<rparr>) \<noteq> None \<and>
     ontology_merge qops cmp 0 (attrRep (snd (hd ws))) (map (\<lambda>(w, r). attrRep r) (tl ws)) \<noteq> None"

lemma merge_steps:
  assumes "2 \<le> length ws" "first_error ws = None" "same_tokens ws" "mergeable qops e cmp ws m0"
  obtains m1 f where "getDistSearchResult qops e cmp ws m0 = map_option f (choose_docs e ws m1)"
    "start m1 = start (snd (hd ws))" "TOP_K_NUM m1 = TOP_K_NUM (snd (hd ws))" "page_count m1 = page_count (snd (hd ws))"
    "totalCount m1 = sum_list (map (totalCount \<circ> snd) ws)"
    "\<And>m es. topKDocs (f (m, es)) = topKDocs m \<and> topKWorkerIds (f (m, es)) = topKWorkerIds m \<and> topKRankScoreList (f (m, es)) = topKRankScoreList m \<and>
      totalCount (f (m, es)) = totalCount m \<and> start (f (m, es)) = start m \<and> TOP_K_NUM (f (m, es)) = TOP_K_NUM m \<and> page_count (f (m, es)) = page_count m"
proof -
  let ?m1 = "(copy_basic (snd (hd ws)) m0)\<lparr>attrRep := attrRep (snd (hd ws)), propertyRange := \<lparr>highValue = float_min e, lowValue = float_max e\<rparr>\<rparr>"
  obtain m2 where m2: "merge_workers e cmp ws ?m1 = Some m2" using assms(4) by (auto simp: mergeable_def)
  note F = merge_workers_fields [OF m2]
  obtain attr where attr: "ontology_merge qops cmp 0 (attrRep m2) (map (\<lambda>(w, r). attrRep r) (tl ws)) = Some attr"
    using assms(4) F by (auto simp: mergeable_def)
  let ?need = "list_ex (\<lambda>(w, r). \<not> include_summary_data (distSearchInfo r)) ws"
  let ?f = "\<lambda>(m3, entries). let m4 = m3\<lparr>distSearchInfo := (distSearchInfo m3)\<lparr>include_summary_data := \<not> ?need\<rparr>\<rparr>
    in if ?need then m4 else merge_page ws entries m4"
  have ne: "ws \<noteq> []" "length ws \<noteq> 1" using assms(1) by auto
  have d: "drop_fewer_tokens ws = ws" by (rule drop_same_tokens [OF assms(3) ne(1)])
  show thesis
  proof (rule that [of ?f "m2\<lparr>attrRep := attr, autoSelectGroupLabels := log_category (autoSelectGroupLabels m2)\<rparr>"])
    show "getDistSearchResult qops e cmp ws m0 =
        map_option ?f (choose_docs e ws (m2\<lparr>attrRep := attr, autoSelectGroupLabels := log_category (autoSelectGroupLabels m2)\<rparr>))"
      using ne assms(2) m2 attr by (simp add: getDistSearchResult_def d Let_def)
  qed (use F in \<open>simp_all add: copy_basic_def merge_page_def Let_def o_def\<close>)
qed

section \<open>Properties\<close>


lemma topk_count_window:
  assumes "\<forall>x n. roundDown e x n = x - x mod n" "r < K" "q * K + K \<le> n"
  shows "topk_count e (q * K + r) K n = K"
proof -
  have "q * K + r - (q * K + r) mod K = q * K" using assms(2) by simp
  then show ?thesis using assms by (auto simp: topk_count_def Let_def)
qed

lemma split_page_start: "split_page e (t\<lparr>start := s\<rparr>) ts i M = split_page e t ts i M"
  by (induction ts arbitrary: i M) (simp_all add: page_part_new_def)

lemma split_window: "splitSearchResultByWorkerid e (t\<lparr>start := q * TOP_K_NUM t + r\<rparr>) M = splitSearchResultByWorkerid e (t\<lparr>start := r\<rparr>) M"
  by (simp add: splitSearchResultByWorkerid_def split_page_start Let_def)

lemma choose_docs_start:
  assumes "topk_count e s (TOP_K_NUM m) (sum_list (doc_sizes ws)) = topk_count e s' (TOP_K_NUM m) (sum_list (doc_sizes ws))"
  shows "choose_docs e ws (m\<lparr>start := s\<rparr>) = map_option (\<lambda>(m', es). (m'\<lparr>start := s\<rparr>, es)) (choose_docs e ws (m\<lparr>start := s'\<rparr>))"
    "choose_docs e ws m = Some (m', es) \<Longrightarrow> TOP_K_NUM m' = TOP_K_NUM m"
proof -
  show "choose_docs e ws (m\<lparr>start := s\<rparr>) = map_option (\<lambda>(m', es). (m'\<lparr>start := s\<rparr>, es)) (choose_docs e ws (m\<lparr>start := s'\<rparr>))"
    using assms unfolding doc_sizes_def by (simp add: choose_docs_def Let_def split: bind_splits)
  show "choose_docs e ws m = Some (m', es) \<Longrightarrow> TOP_K_NUM m' = TOP_K_NUM m"
    by (auto simp: choose_docs_def Let_def bind_eq_Some_conv)
qed


section \<open>Instances\<close>

definition sample_env2 :: "int merge_env" where
  "sample_env2 = \<lparr>GetWDocId = (\<lambda>w d. push_bit 32 (ucast w) OR ucast d), IsNewerDocId = (\<lambda>x y. x > y), roundDown = (\<lambda>x n. x - x mod n), float_epsilon = 0,
     double_epsilon = 0, float_max = 1000, float_min = 1, double_as_float = (\<lambda>_ _. None), UTF_8 = 1\<rparr>"

definition sample_result :: "docid list \<Rightarrow> int list \<Rightarrow> nat \<Rightarrow> (int, nat) search_result" where
  "sample_result docs scores k = (search_result_init 1)\<lparr>topKDocs := docs, topKRankScoreList := scores, totalCount := length docs, TOP_K_NUM := k, page_count := 5\<rparr>"

definition sample_workers :: "nat \<Rightarrow> (workerid \<times> (int, nat) search_result) list" where
  "sample_workers k = [(1, sample_result [3, 1] [9, 4] k), (2, sample_result [7] [6] k)]"

lemma sample_properties: "scores \<noteq> [] \<Longrightarrow> sort_properties (sample_result docs scores k) = [\<lparr>sp_reverse = False, sp_data = Floats scores\<rparr>]"
  by (simp add: sort_properties_def sample_result_def search_result_init_def dist_info_init_def property_data_def Let_def List.map_filter_simps)

lemma sample_entries: "all_entries (doc_sizes (sample_workers k)) = {(0, 0), (0, 1), (1, 0)}"
  by (auto simp: entries_from_def doc_sizes_def sample_workers_def sample_result_def less_Suc_eq nth_Cons split: nat.splits)

lemma sample_values: "entry_values sample_env2 (sample_workers k) (0, 0) = [Some (Float_Value 9)]" "entry_values sample_env2 (sample_workers k) (0, Suc 0) = [Some (Float_Value 4)]"
  "entry_values sample_env2 (sample_workers k) (Suc 0, 0) = [Some (Float_Value 6)]"
  by (simp_all add: entry_values_def sample_workers_def sample_properties vec_at_def)

lemma sample_sorting: "same_sorting sample_env2 (sample_workers k)"
  unfolding same_sorting_def sample_entries
  by (intro conjI exI [of _ "[(False, DATA_TYPE_FLOAT)]"])
    (simp_all add: sample_values, simp_all add: sample_env2_def sample_workers_def sample_properties)

lemma sample_ranks:
  assumes "i < length (sample_workers k)" "j \<le> j'" "j' < length (topKDocs (snd (sample_workers k ! i)))"
  shows "\<not> ranks_above sample_env2 (sample_workers k) (i, j') (i, j)"
proof -
  have "(i, j') \<in> all_entries (doc_sizes (sample_workers k))" "(i, j) \<in> all_entries (doc_sizes (sample_workers k))"
    using assms by (auto simp: entries_from_def doc_sizes_nth)
  then consider "i = 0" "j = 0" "j' = 0" | "i = 0" "j = 0" "j' = 1" | "i = 0" "j = 1" "j' = 1" | "i = 1" "j = 0" "j' = 0"
    unfolding sample_entries using assms(2) by auto
  then show ?thesis by cases (simp_all add: ranks_above_def entry_gt_def sample_workers_def sample_properties vec_at_def, simp_all add: sample_env2_def)
qed

lemma sample_mergeable: "mergeable qops sample_env2 cmp (sample_workers k) (search_result_init 1)"
  by (simp add: mergeable_def sample_workers_def sample_result_def search_result_init_def dist_info_init_def copy_basic_def merge_worker_def gr_merge_def
      mergeStringGroup_def mergeNumericGroup_def mergeNumericRangeGroup_def ontology_merge_def Let_def)



end
