(* ===== verification/Page_Split.thy ===== *)
theory Page_Split
  imports Search_Merger
begin

text \<open>
  A page of merged results is split into the parts of its workers, every worker adds the texts of its documents, and the parts are put together
  again (\<open>splitSearchResultByWorkerid\<close> and \<open>getSummaryResult\<close> of core/aggregator-manager/SearchMerger.cpp).
\<close>

section \<open>Lists of positions\<close>

definition positions :: "(nat \<Rightarrow> 'a) \<Rightarrow> nat \<Rightarrow> 'a \<Rightarrow> nat list" where
  "positions f n x = filter (\<lambda>j. f j = x) [0..<n]"

lemma positions_Suc: "positions f (Suc n) x = positions f n x @ (if f n = x then [n] else [])"
  by (simp add: positions_def)

lemma positions_nth:
  assumes "i < n" "f i = x"
  shows "length (positions f i x) < length (positions f n x)" "positions f n x ! length (positions f i x) = i"
proof -
  have "[0..<n] = [0..<i] @ i # [Suc i..<n]" using assms(1) by (metis le0 less_imp_le_nat upt_add_eq_append upt_conv_Cons le_add_diff_inverse)
  then have "positions f n x = positions f i x @ i # filter (\<lambda>j. f j = x) [Suc i..<n]" using assms(2) by (simp add: positions_def)
  then show "length (positions f i x) < length (positions f n x)" "positions f n x ! length (positions f i x) = i" by simp_all
qed

lemma positions_mem: "k < length (positions f n x) \<Longrightarrow> f (positions f n x ! k) = x \<and> positions f n x ! k < n"
  using nth_mem [of k "positions f n x"] by (simp add: positions_def)

section \<open>The split\<close>

text \<open>The part of worker \<open>w\<close> of a page with the workers \<open>wk\<close> and documents \<open>dc\<close> at its first \<open>n\<close> positions.\<close>

definition page_part :: "'f merge_env \<Rightarrow> ('f :: zero, 'n) search_result \<Rightarrow> (nat \<Rightarrow> workerid) \<Rightarrow> (nat \<Rightarrow> docid) \<Rightarrow> nat \<Rightarrow> workerid \<Rightarrow> ('f, 'n) search_result" where
  "page_part e t wk dc n w = (page_part_new e t)\<lparr>docsInPage := map dc (positions wk n w), pageOffsetList := positions wk n w,
     page_count := length (positions wk n w)\<rparr>"

definition page_parts :: "'f merge_env \<Rightarrow> ('f :: zero, 'n) search_result \<Rightarrow> (nat \<Rightarrow> workerid) \<Rightarrow> (nat \<Rightarrow> docid) \<Rightarrow> nat \<Rightarrow>
    (workerid \<times> ('f, 'n) search_result) list \<Rightarrow> bool" where
  "page_parts e t wk dc n M \<longleftrightarrow> keys_ordered M \<and> (\<forall>w. map_of M w = (if w \<in> wk ` {..<n} then Some (page_part e t wk dc n w) else None))"

lemma page_part_new_fields [simp]: "docsInPage (page_part_new e t) = []" "pageOffsetList (page_part_new e t) = []" "page_count (page_part_new e t) = 0"
  by (simp_all add: page_part_new_def search_result_init_def)

lemma page_part_absent: "w \<notin> wk ` {..<n} \<Longrightarrow> page_part e t wk dc n w = page_part_new e t"
  by (auto simp: page_part_def positions_def filter_empty_conv page_part_new_def search_result_init_def)

lemma page_part_Suc:
  "page_part e t wk dc (Suc n) w = (if wk n = w then page_part_add (dc n) n (page_part e t wk dc n w) else page_part e t wk dc n w)"
  by (simp add: page_part_def page_part_add_def positions_Suc)

lemma page_parts_step:
  assumes "page_parts e t wk dc n M"
  shows "page_parts e t wk dc (Suc n) (map_put (wk n) (page_part_add (dc n) n (map_get (page_part_new e t) (wk n) M)) M)"
proof -
  have "map_get (page_part_new e t) (wk n) M = page_part e t wk dc n (wk n)"
    using assms page_part_absent [of "wk n" wk n e t dc] by (simp add: page_parts_def map_get_def)
  then show ?thesis using assms unfolding page_parts_def
    by (auto simp: page_part_Suc lessThan_Suc)
qed

lemma split_page_parts:
  assumes "page_parts e t wk dc n M" "\<forall>i<length ts. ts ! i < length (topKWorkerIds t) \<and> topKWorkerIds t ! (ts ! i) = wk (n + i) \<and> topKDocs t ! (ts ! i) = dc (n + i)"
  shows "\<exists>M'. split_page e t ts n M = Some M' \<and> page_parts e t wk dc (n + length ts) M'"
  using assms
proof (induction ts arbitrary: n M)
  case (Cons a ts)
  have a: "a < length (topKWorkerIds t)" "topKWorkerIds t ! a = wk n" "topKDocs t ! a = dc n" using Cons.prems(2) by (auto dest: spec [of _ 0])
  let ?M = "map_put (wk n) (page_part_add (dc n) n (map_get (page_part_new e t) (wk n) M)) M"
  have "\<forall>i<length ts. ts ! i < length (topKWorkerIds t) \<and> topKWorkerIds t ! (ts ! i) = wk (Suc n + i) \<and> topKDocs t ! (ts ! i) = dc (Suc n + i)"
  proof (intro allI impI)
    fix i assume "i < length ts"
    then show "ts ! i < length (topKWorkerIds t) \<and> topKWorkerIds t ! (ts ! i) = wk (Suc n + i) \<and> topKDocs t ! (ts ! i) = dc (Suc n + i)"
      using spec [OF Cons.prems(2), of "Suc i"] by simp
  qed
  then obtain M' where "split_page e t ts (Suc n) ?M = Some M'" "page_parts e t wk dc (Suc n + length ts) M'"
    using Cons.IH [OF page_parts_step [OF Cons.prems(1)]] by blast
  then show ?case using a by (simp add: vec_at_def Let_def)
qed simp

section \<open>The merge\<close>

lemma find_unique: "\<lbrakk>c < n; \<And>x. x < n \<Longrightarrow> P x \<longleftrightarrow> x = c\<rbrakk> \<Longrightarrow> find P [0..<n] = Some c"
  by (auto simp: find_upt_Some)

text \<open>\<open>key c\<close> is the worker of the part at place \<open>c\<close>, \<open>place w\<close> the place of the part of worker \<open>w\<close>.\<close>

lemma summary_entries_spec:
  assumes "length offsets = p" "\<And>c. c < p \<Longrightarrow> offsets ! c = positions wk n (key c)" "\<And>i. i < n \<Longrightarrow> place (wk i) < p"
    "\<And>c w. \<lbrakk>c < p; w \<in> wk ` {..<n}\<rbrakk> \<Longrightarrow> key c = w \<longleftrightarrow> c = place w" "length next = p" "\<And>c. c < p \<Longrightarrow> next ! c = length (positions wk i (key c))" "i \<le> m" "i \<le> n"
  shows "summary_entries offsets next [i..<m] = map (\<lambda>j. (place (wk j), length (positions wk j (wk j)))) [i..<min m n]"
  using assms(5-8)
proof (induction "m - i" arbitrary: i "next")
  case 0
  then show ?case by simp
next
  case (Suc d)
  then have m: "[i..<m] = i # [Suc i..<m]" by (simp add: upt_rec)
  let ?P = "\<lambda>w. next ! w < length (offsets ! w) \<and> offsets ! w ! (next ! w) = i"
  show ?case
  proof (cases "i < n")
    case False
    have "\<not> ?P c" if "c < p" for c
    proof
      assume "?P c"
      then have "offsets ! c ! (next ! c) < n" using positions_mem [of "next ! c" wk n "key c"] assms(2) [OF that] by simp
      then show False using \<open>?P c\<close> False by simp
    qed
    then have "find ?P [0..<length offsets] = None" using assms(1) by (auto simp: find_None_iff)
    then show ?thesis using m False by simp
  next
    case True
    let ?c = "place (wk i)" and ?w = "wk i"
    have c: "?c < p" "key ?c = ?w" using assms(3) [OF True] assms(4) [of ?c ?w] True by auto
    have "?P x \<longleftrightarrow> x = ?c" if x: "x < p" for x
    proof
      assume a: "?P x"
      then have "wk i = key x" using positions_mem [of "next ! x" wk n "key x"] assms(2) [OF x] by simp
      moreover have "?w \<in> wk ` {..<n}" using True by simp
      ultimately show "x = ?c" using assms(4) [OF x, of ?w] by simp
    next
      assume "x = ?c"
      then show "?P x" using positions_nth [OF True, of wk ?w] assms(2) [OF c(1)] c Suc.prems(2) [OF c(1)] by simp
    qed
    then have f: "find ?P [0..<length offsets] = Some ?c" using find_unique [OF c(1), of ?P] assms(1) by simp
    let ?next = "next[?c := Suc (next ! ?c)]"
    have "summary_entries offsets ?next [Suc i..<m] = map (\<lambda>j. (place (wk j), length (positions wk j (wk j)))) [Suc i..<min m n]"
    proof (rule Suc.hyps(1))
      show "?next ! x = length (positions wk (Suc i) (key x))" if "x < p" for x
        using Suc.prems(1,2) that c assms(4) [OF that, of ?w] True by (auto simp: positions_Suc nth_list_update)
    qed (use Suc.hyps(2) Suc.prems True in simp_all)
    moreover have "[i..<min m n] = i # [Suc i..<min m n]" using True Suc.hyps(2) by (simp add: upt_rec)
    ultimately show ?thesis using m f Suc.prems(2) [OF c(1)] c(2) by simp
  qed
qed

text \<open>
  What a worker does with its part: it fills in the texts of its documents, \<open>snip w p d\<close> for the property at place \<open>p\<close> and document \<open>d\<close>, and so on.
\<close>

definition fill_part :: "(workerid \<Rightarrow> nat \<Rightarrow> docid \<Rightarrow> string) \<Rightarrow> (workerid \<Rightarrow> nat \<Rightarrow> docid \<Rightarrow> string) \<Rightarrow> (workerid \<Rightarrow> nat \<Rightarrow> docid \<Rightarrow> string) \<Rightarrow> nat \<Rightarrow> nat \<Rightarrow>
    workerid \<times> ('f, 'n) search_result \<Rightarrow> workerid \<times> ('f, 'n) search_result" where
  "fill_part snip full summ props sums = (\<lambda>(w, r). (w, r\<lparr>snippetTextOfDocumentInPage := map (\<lambda>p. map (snip w p) (docsInPage r)) [0..<props],
     fullTextOfDocumentInPage := map (\<lambda>p. map (full w p) (docsInPage r)) [0..<props],
     rawTextOfSummaryInPage := map (\<lambda>p. map (summ w p) (docsInPage r)) [0..<sums]\<rparr>))"

lemma fill_part_sel: "fst (fill_part snip full summ props sums x) = fst x" "pageOffsetList (snd (fill_part snip full summ props sums x)) = pageOffsetList (snd x)"
  "error (snd (fill_part snip full summ props sums x)) = error (snd x)"
  "snippetTextOfDocumentInPage (snd (fill_part snip full summ props sums x)) = map (\<lambda>p. map (snip (fst x) p) (docsInPage (snd x))) [0..<props]"
  "fullTextOfDocumentInPage (snd (fill_part snip full summ props sums x)) = map (\<lambda>p. map (full (fst x) p) (docsInPage (snd x))) [0..<props]"
  "rawTextOfSummaryInPage (snd (fill_part snip full summ props sums x)) = map (\<lambda>p. map (summ (fst x) p) (docsInPage (snd x))) [0..<sums]"
  by (cases x; simp add: fill_part_def)+

text \<open>The texts of the page as they should be.\<close>

definition texts_of :: "(workerid \<Rightarrow> nat \<Rightarrow> docid \<Rightarrow> string) \<Rightarrow> nat \<Rightarrow> (nat \<Rightarrow> workerid) \<Rightarrow> (nat \<Rightarrow> docid) \<Rightarrow> nat \<Rightarrow> nat \<Rightarrow> string list list" where
  "texts_of txt props wk dc n pageCount = map (\<lambda>p. map (\<lambda>i. if i < n then txt (wk i) p (dc i) else []) [0..<pageCount]) [0..<props]"

lemma page_texts_of:
  assumes "\<And>i. i < n \<Longrightarrow> sel (place (wk i)) = map (\<lambda>p. map (txt (wk i) p) (map dc (positions wk n (wk i)))) [0..<props]" "n \<le> pageCount \<or> pageCount \<le> n"
  shows "page_texts sel props pageCount (map (\<lambda>j. (place (wk j), length (positions wk j (wk j)))) [0..<min pageCount n]) = texts_of txt props wk dc n pageCount"
  unfolding page_texts_def texts_of_def
proof (intro map_cong refl)
  fix p i assume p: "p \<in> set [0..<props]" and i: "i \<in> set [0..<pageCount]"
  let ?es = "map (\<lambda>j. (place (wk j), length (positions wk j (wk j)))) [0..<min pageCount n]"
  show "(if i < length ?es then let (w, off) = ?es ! i; t = sel w in if p < length t \<and> off < length (t ! p) then t ! p ! off else [] else []) =
      (if i < n then txt (wk i) p (dc i) else [])"
  proof (cases "i < n")
    case True
    then have e: "i < length ?es" "?es ! i = (place (wk i), length (positions wk i (wk i)))" using i by simp_all
    note P = positions_nth [OF True, of wk "wk i", OF refl]
    show ?thesis using True e P p assms(1) [OF True] by (simp add: Let_def)
  next
    case False
    then show ?thesis by simp
  qed
qed

lemma page_parts_places:
  assumes "page_parts e t wk dc n M"
  obtains place where "\<And>i. i < n \<Longrightarrow> place (wk i) < length M" "\<And>c w. \<lbrakk>c < length M; w \<in> wk ` {..<n}\<rbrakk> \<Longrightarrow> fst (M ! c) = w \<longleftrightarrow> c = place w"
    "\<And>c. c < length M \<Longrightarrow> snd (M ! c) = page_part e t wk dc n (fst (M ! c)) \<and> fst (M ! c) \<in> wk ` {..<n}"
proof -
  have d: "distinct (map fst M)" using assms by (simp add: page_parts_def keys_ordered_distinct)
  have val: "snd (M ! c) = page_part e t wk dc n (fst (M ! c)) \<and> fst (M ! c) \<in> wk ` {..<n}" if "c < length M" for c
  proof -
    have "map_of M (fst (M ! c)) = Some (snd (M ! c))" using d that by (metis map_of_eq_Some_iff nth_mem prod.collapse)
    then show ?thesis using assms by (auto simp: page_parts_def split: if_splits)
  qed
  have "\<exists>c<length M. fst (M ! c) = w" if "w \<in> wk ` {..<n}" for w
  proof -
    have "map_of M w = Some (page_part e t wk dc n w)" using assms that by (simp add: page_parts_def)
    then have "(w, page_part e t wk dc n w) \<in> set M" by (rule map_of_SomeD)
    then show ?thesis by (metis fst_conv in_set_conv_nth)
  qed
  then obtain place where pl: "\<And>w. w \<in> wk ` {..<n} \<Longrightarrow> place w < length M \<and> fst (M ! place w) = w" by metis
  have "fst (M ! c) = w \<longleftrightarrow> c = place w" if "c < length M" "w \<in> wk ` {..<n}" for c w
    using pl [OF that(2)] d that(1) by (metis length_map nth_eq_iff_index_eq nth_map)
  then show thesis using that pl val by blast
qed

section \<open>Property\<close>

lemma merge_filled_parts:
  assumes "page_parts e t wk dc n M" "0 < n"
  shows "getSummaryResult (map (fill_part snip full summ props sums) M) m =
    m\<lparr>snippetTextOfDocumentInPage := texts_of snip props wk dc n (page_count m), fullTextOfDocumentInPage := texts_of full props wk dc n (page_count m),
      rawTextOfSummaryInPage := texts_of summ sums wk dc n (page_count m)\<rparr>"
proof -
  let ?F = "fill_part snip full summ props sums" and ?k = "page_count m"
  obtain place where pl: "\<And>i. i < n \<Longrightarrow> place (wk i) < length M" "\<And>c w. \<lbrakk>c < length M; w \<in> wk ` {..<n}\<rbrakk> \<Longrightarrow> fst (M ! c) = w \<longleftrightarrow> c = place w"
    "\<And>c. c < length M \<Longrightarrow> snd (M ! c) = page_part e t wk dc n (fst (M ! c)) \<and> fst (M ! c) \<in> wk ` {..<n}"
    using page_parts_places [OF assms(1)] by metis
  have ne: "M \<noteq> []" using pl(1) [OF assms(2)] by auto
  have err: "error (snd x) = []" if "x \<in> set M" for x
    using that pl(3) by (fastforce simp: in_set_conv_nth page_part_def page_part_new_def search_result_init_def)
  have fe: "first_error (map ?F M) = None"
    using err by (auto simp: first_error_def find_None_iff split_beta fill_part_sel)
  have es: "summary_entries (map (\<lambda>(w, r). pageOffsetList r) (map ?F M)) (map (\<lambda>_. 0) (map ?F M)) [0..<?k] =
      map (\<lambda>j. (place (wk j), length (positions wk j (wk j)))) [0..<min ?k n]"
  proof (rule summary_entries_spec [where p = "length M" and key = "\<lambda>c. fst (M ! c)"])
    show "map (\<lambda>(w, r). pageOffsetList r) (map ?F M) ! c = positions wk n (fst (M ! c))" if "c < length M" for c
      using that pl(3) [OF that] by (simp add: split_beta fill_part_sel page_part_def)
  qed (use pl in \<open>simp_all add: positions_def\<close>)
  have docs: "fst (M ! place (wk i)) = wk i" "docsInPage (snd (M ! place (wk i))) = map dc (positions wk n (wk i))" if "i < n" for i
  proof -
    show w: "fst (M ! place (wk i)) = wk i" using pl(2) [OF pl(1) [OF that], of "wk i"] that by simp
    show "docsInPage (snd (M ! place (wk i))) = map dc (positions wk n (wk i))" using pl(3) [OF pl(1) [OF that]] w by (simp add: page_part_def)
  qed
  have nth: "snd (map ?F M ! place (wk i)) = snd (?F (M ! place (wk i)))" if "i < n" for i using pl(1) [OF that] by simp
  have hd: "snd (hd (map ?F M)) = snd (?F (hd M))" using ne by (simp add: hd_map)
  have T: "page_texts (\<lambda>i. sel (snd (map ?F M ! i))) q ?k (map (\<lambda>j. (place (wk j), length (positions wk j (wk j)))) [0..<min ?k n]) = texts_of tx q wk dc n ?k"
    if "\<And>x. sel (snd (?F x)) = map (\<lambda>p. map (tx (fst x) p) (docsInPage (snd x))) [0..<q]" for sel tx q
    by (rule page_texts_of) (use that docs nth in auto)
  have t1: "page_texts (\<lambda>i. snippetTextOfDocumentInPage (snd (map ?F M ! i))) props ?k (map (\<lambda>j. (place (wk j), length (positions wk j (wk j)))) [0..<min ?k n]) = texts_of snip props wk dc n ?k"
    by (rule T) (simp add: fill_part_sel)
  have t2: "page_texts (\<lambda>i. fullTextOfDocumentInPage (snd (map ?F M ! i))) props ?k (map (\<lambda>j. (place (wk j), length (positions wk j (wk j)))) [0..<min ?k n]) = texts_of full props wk dc n ?k"
    by (rule T) (simp add: fill_part_sel)
  have t3: "page_texts (\<lambda>i. rawTextOfSummaryInPage (snd (map ?F M ! i))) sums ?k (map (\<lambda>j. (place (wk j), length (positions wk j (wk j)))) [0..<min ?k n]) = texts_of summ sums wk dc n ?k"
    by (rule T) (simp add: fill_part_sel)
  show ?thesis unfolding getSummaryResult_def Let_def fe es hd
    using ne by (simp add: fill_part_sel t1 t2 t3)
qed

text \<open>C9: A page survives its way to the workers and back: the page of a merged result that starts at the start of the request
modulo \<open>TOP_K_NUM\<close> is split into the parts of the workers; when every worker fills in the texts of the documents of its part, then
\<open>getSummaryResult\<close> has at every place of the page the texts that the worker of the document at this place has given for it.
\<close>

theorem page_split_roundtrip:
  assumes "0 < TOP_K_NUM t" "length (topKWorkerIds t) = length (topKDocs t)" "a = start t mod TOP_K_NUM t" "b = min (length (topKDocs t)) (a + page_count t)" "a < b"
  shows "\<exists>parts. splitSearchResultByWorkerid e t [] = Some parts \<and>
    (\<forall>m. getSummaryResult (map (fill_part snip full summ props sums) parts) m =
      m\<lparr>snippetTextOfDocumentInPage := map (\<lambda>p. map (\<lambda>i. if a + i < b then snip (topKWorkerIds t ! (a + i)) p (topKDocs t ! (a + i)) else []) [0..<page_count m]) [0..<props],
        fullTextOfDocumentInPage := map (\<lambda>p. map (\<lambda>i. if a + i < b then full (topKWorkerIds t ! (a + i)) p (topKDocs t ! (a + i)) else []) [0..<page_count m]) [0..<props],
        rawTextOfSummaryInPage := map (\<lambda>p. map (\<lambda>i. if a + i < b then summ (topKWorkerIds t ! (a + i)) p (topKDocs t ! (a + i)) else []) [0..<page_count m]) [0..<sums]\<rparr>)"
proof -
  let ?wk = "\<lambda>i. topKWorkerIds t ! (a + i)" and ?dc = "\<lambda>i. topKDocs t ! (a + i)"
  have start: "page_parts e t ?wk ?dc 0 []" by (simp add: page_parts_def)
  have bl: "b \<le> length (topKDocs t)" using assms(4) by simp
  have "\<forall>i<length [a..<b]. [a..<b] ! i < length (topKWorkerIds t) \<and> topKWorkerIds t ! ([a..<b] ! i) = ?wk (0 + i) \<and> topKDocs t ! ([a..<b] ! i) = ?dc (0 + i)"
    using assms(2) bl by auto
  from split_page_parts [OF start this] obtain M where M: "split_page e t [a..<b] 0 [] = Some M" "page_parts e t ?wk ?dc (b - a) M" by auto
  have lt: "i < b - a \<longleftrightarrow> a + i < b" for i by auto
  have "topKDocs t \<noteq> []" using assms(4,5) by auto
  then have "splitSearchResultByWorkerid e t [] = Some M" using M(1) assms(1,3,4) by (simp add: splitSearchResultByWorkerid_def Let_def)
  moreover have "0 < b - a" using assms(5) by simp
  ultimately show ?thesis using merge_filled_parts [OF M(2), of snip full summ props sums] by (auto simp: texts_of_def lt)
qed

section \<open>Witness\<close>

definition split_env :: "int merge_env" where
  "split_env = \<lparr>GetWDocId = (\<lambda>w d. push_bit 32 (ucast w) OR ucast d), IsNewerDocId = (\<lambda>x y. x > y), roundDown = (\<lambda>x n. x - x mod n), float_epsilon = 0,
     double_epsilon = 0, float_max = 1000, float_min = 1, double_as_float = (\<lambda>_ _. None), UTF_8 = 1\<rparr>"

definition split_sample :: "(int, nat) search_result" where
  "split_sample = (search_result_init 1)\<lparr>topKDocs := [3, 7, 1], topKWorkerIds := [1, 2, 1], TOP_K_NUM := 2, start := 3, page_count := 3\<rparr>"

theorem page_split_roundtrip_witness:
  "\<exists>parts. splitSearchResultByWorkerid split_env split_sample [] = Some parts \<and>
     snippetTextOfDocumentInPage (getSummaryResult (map (fill_part (\<lambda>w p d. if w = 1 \<and> d = 1 then ''b'' else ''a'') (\<lambda>w p d. []) (\<lambda>w p d. []) 1 0) parts) split_sample) =
       [[''a'', ''b'', []]]"
proof -
  have h: "0 < TOP_K_NUM split_sample" "length (topKWorkerIds split_sample) = length (topKDocs split_sample)" "1 = start split_sample mod TOP_K_NUM split_sample"
    "3 = min (length (topKDocs split_sample)) (1 + page_count split_sample)" "(1 :: nat) < 3"
    by (simp_all add: split_sample_def search_result_init_def)
  obtain parts where parts: "splitSearchResultByWorkerid split_env split_sample [] = Some parts"
      "\<And>m :: (int, nat) search_result. snippetTextOfDocumentInPage (getSummaryResult (map (fill_part (\<lambda>w p d. if w = 1 \<and> d = 1 then ''b'' else ''a'') (\<lambda>w p d. []) (\<lambda>w p d. []) 1 0) parts) m) =
        map (\<lambda>p. map (\<lambda>i. if 1 + i < 3 then if topKWorkerIds split_sample ! (1 + i) = 1 \<and> topKDocs split_sample ! (1 + i) = 1 then ''b'' else ''a'' else []) [0..<page_count m]) [0..<1]"
    using page_split_roundtrip [OF h, of split_env "\<lambda>w p d. if w = 1 \<and> d = 1 then ''b'' else ''a''" "\<lambda>w p d. []" "\<lambda>w p d. []" 1 0] by auto
  show ?thesis
  proof (intro exI conjI)
    show "splitSearchResultByWorkerid split_env split_sample [] = Some parts" by (rule parts(1))
  qed (subst parts(2), simp add: split_sample_def search_result_init_def upt_rec numeral_3_eq_3)
qed

end
