(* ===== verification/Req_Log.thy ===== *)
theory Req_Log
  imports Prelude
begin

text \<open>
  The log of write requests of a node (core/node-manager: RequestLog.h, RequestLog.cpp). A request is prepared, gets the next number, and is
  appended when it has succeeded; a restarted node and its replicas read the log again. The head file has a record of 20 bytes
  for each request, the packed requests are in data files by their number. Files are lists of bytes. An operation that may throw returns a value of
  \<open>'a result\<close>; a \<open>bool\<close> result with output parameters is an option, \<open>None\<close> for \<open>false\<close>. Assertions are not modelled.
\<close>

section \<open>Requests\<close>

definition Req_None :: u32 where "Req_None = 0"
definition Req_NoAdditionDataReq :: u32 where "Req_NoAdditionDataReq = 1"
definition Req_NoAdditionData_NeedBackup_Req :: u32 where "Req_NoAdditionData_NeedBackup_Req = 2"
definition Req_NoAdditionDataNoRollback :: u32 where "Req_NoAdditionDataNoRollback = 3"
definition Req_CronJob :: u32 where "Req_CronJob = 4"
definition Req_Callback :: u32 where "Req_Callback = 5"
definition Req_WithTimestamp :: u32 where "Req_WithTimestamp = 6"
definition Req_Index :: u32 where "Req_Index = 7"
definition Req_CreateOrUpdate_Doc :: u32 where "Req_CreateOrUpdate_Doc = 8"
definition Req_Product :: u32 where "Req_Product = 9"
definition Req_UpdateConfig :: u32 where "Req_UpdateConfig = 10"
definition Req_Recommend_Index :: u32 where "Req_Recommend_Index = 11"
definition Req_Rebuild_FromSCD :: u32 where "Req_Rebuild_FromSCD = 12"

record common_req =
  cr_inc_id :: u32
  cr_reqtype :: u32
  cr_json :: string

definition common_req_init :: common_req where
  "common_req_init = \<lparr>cr_inc_id = 0, cr_reqtype = Req_None, cr_json = []\<rparr>"

text \<open>The names of requests that write, that a rebuild replays, and that are sent to all shards.\<close>

definition write_req_set :: "string list" where
  "write_req_set = [
     ''documents_create'', ''documents_destroy'', ''documents_update'', ''documents_update_inplace'', ''documents_set_top_group_label'',
     ''documents_log_group_label'', ''documents_visit'', ''collection_start_collection'', ''collection_stop_collection'', ''collection_update_collection_conf'',
     ''collection_rebuild_from_scd'', ''collection_backup_all'', ''collection_set_kv'', ''collection_update_sharding_conf'', ''commands_index'',
     ''commands_index_recommend'', ''commands_mining'', ''commands_optimize_index'', ''commands_index_query_log'', ''faceted_set_custom_rank'',
     ''faceted_set_merchant_score'', ''faceted_set_ontology'', ''keywords_inject_query_correction'', ''keywords_inject_query_recommend'', ''recommend_add_user'',
     ''recommend_update_user'', ''recommend_remove_user'', ''recommend_purchase_item'', ''recommend_rate_item'', ''recommend_visit_item'',
     ''recommend_update_shopping_cart'', ''recommend_track_event'']"

definition replay_write_req_set :: "string list" where
  "replay_write_req_set = [
     ''documents_set_top_group_label'', ''documents_log_group_label'', ''documents_visit'', ''faceted_set_custom_rank'', ''faceted_set_merchant_score'',
     ''faceted_set_ontology'', ''recommend_add_user'', ''recommend_update_user'', ''recommend_remove_user'', ''recommend_purchase_item'',
     ''recommend_rate_item'', ''recommend_visit_item'', ''recommend_update_shopping_cart'', ''recommend_track_event'']"

definition auto_shard_write_set :: "string list" where
  "auto_shard_write_set = [
     ''documents_set_top_group_label'', ''documents_log_group_label'', ''commands_mining'', ''commands_optimize_index'', ''commands_index_query_log'',
     ''faceted_set_custom_rank'', ''faceted_set_merchant_score'', ''faceted_set_ontology'', ''keywords_inject_query_correction'', ''keywords_inject_query_recommend'',
     ''recommend_add_user'', ''recommend_update_user'', ''recommend_remove_user'', ''recommend_purchase_item'', ''recommend_rate_item'',
     ''recommend_visit_item'', ''recommend_update_shopping_cart'', ''recommend_track_event'']"

definition isWriteRequest :: "string \<Rightarrow> string \<Rightarrow> bool" where
  "isWriteRequest controller action \<longleftrightarrow> controller @ ''_'' @ action \<in> set write_req_set"

definition isReplayWriteReq :: "string \<Rightarrow> string \<Rightarrow> bool" where
  "isReplayWriteReq controller action \<longleftrightarrow> controller @ ''_'' @ action \<in> set replay_write_req_set"

definition isAutoShardWriteReq :: "string \<Rightarrow> string \<Rightarrow> bool" where
  "isAutoShardWriteReq controller action \<longleftrightarrow> controller @ ''_'' @ action \<in> set auto_shard_write_set"

section \<open>Checksums\<close>

definition crc32tab :: "u32 list" where
  "crc32tab = [
     0x0, 0x77073096, 0xee0e612c, 0x990951ba, 0x76dc419, 0x706af48f, 0xe963a535, 0x9e6495a3, 0xedb8832, 0x79dcb8a4,
     0xe0d5e91e, 0x97d2d988, 0x9b64c2b, 0x7eb17cbd, 0xe7b82d07, 0x90bf1d91, 0x1db71064, 0x6ab020f2, 0xf3b97148, 0x84be41de,
     0x1adad47d, 0x6ddde4eb, 0xf4d4b551, 0x83d385c7, 0x136c9856, 0x646ba8c0, 0xfd62f97a, 0x8a65c9ec, 0x14015c4f, 0x63066cd9,
     0xfa0f3d63, 0x8d080df5, 0x3b6e20c8, 0x4c69105e, 0xd56041e4, 0xa2677172, 0x3c03e4d1, 0x4b04d447, 0xd20d85fd, 0xa50ab56b,
     0x35b5a8fa, 0x42b2986c, 0xdbbbc9d6, 0xacbcf940, 0x32d86ce3, 0x45df5c75, 0xdcd60dcf, 0xabd13d59, 0x26d930ac, 0x51de003a,
     0xc8d75180, 0xbfd06116, 0x21b4f4b5, 0x56b3c423, 0xcfba9599, 0xb8bda50f, 0x2802b89e, 0x5f058808, 0xc60cd9b2, 0xb10be924,
     0x2f6f7c87, 0x58684c11, 0xc1611dab, 0xb6662d3d, 0x76dc4190, 0x1db7106, 0x98d220bc, 0xefd5102a, 0x71b18589, 0x6b6b51f,
     0x9fbfe4a5, 0xe8b8d433, 0x7807c9a2, 0xf00f934, 0x9609a88e, 0xe10e9818, 0x7f6a0dbb, 0x86d3d2d, 0x91646c97, 0xe6635c01,
     0x6b6b51f4, 0x1c6c6162, 0x856530d8, 0xf262004e, 0x6c0695ed, 0x1b01a57b, 0x8208f4c1, 0xf50fc457, 0x65b0d9c6, 0x12b7e950,
     0x8bbeb8ea, 0xfcb9887c, 0x62dd1ddf, 0x15da2d49, 0x8cd37cf3, 0xfbd44c65, 0x4db26158, 0x3ab551ce, 0xa3bc0074, 0xd4bb30e2,
     0x4adfa541, 0x3dd895d7, 0xa4d1c46d, 0xd3d6f4fb, 0x4369e96a, 0x346ed9fc, 0xad678846, 0xda60b8d0, 0x44042d73, 0x33031de5,
     0xaa0a4c5f, 0xdd0d7cc9, 0x5005713c, 0x270241aa, 0xbe0b1010, 0xc90c2086, 0x5768b525, 0x206f85b3, 0xb966d409, 0xce61e49f,
     0x5edef90e, 0x29d9c998, 0xb0d09822, 0xc7d7a8b4, 0x59b33d17, 0x2eb40d81, 0xb7bd5c3b, 0xc0ba6cad, 0xedb88320, 0x9abfb3b6,
     0x3b6e20c, 0x74b1d29a, 0xead54739, 0x9dd277af, 0x4db2615, 0x73dc1683, 0xe3630b12, 0x94643b84, 0xd6d6a3e, 0x7a6a5aa8,
     0xe40ecf0b, 0x9309ff9d, 0xa00ae27, 0x7d079eb1, 0xf00f9344, 0x8708a3d2, 0x1e01f268, 0x6906c2fe, 0xf762575d, 0x806567cb,
     0x196c3671, 0x6e6b06e7, 0xfed41b76, 0x89d32be0, 0x10da7a5a, 0x67dd4acc, 0xf9b9df6f, 0x8ebeeff9, 0x17b7be43, 0x60b08ed5,
     0xd6d6a3e8, 0xa1d1937e, 0x38d8c2c4, 0x4fdff252, 0xd1bb67f1, 0xa6bc5767, 0x3fb506dd, 0x48b2364b, 0xd80d2bda, 0xaf0a1b4c,
     0x36034af6, 0x41047a60, 0xdf60efc3, 0xa867df55, 0x316e8eef, 0x4669be79, 0xcb61b38c, 0xbc66831a, 0x256fd2a0, 0x5268e236,
     0xcc0c7795, 0xbb0b4703, 0x220216b9, 0x5505262f, 0xc5ba3bbe, 0xb2bd0b28, 0x2bb45a92, 0x5cb36a04, 0xc2d7ffa7, 0xb5d0cf31,
     0x2cd99e8b, 0x5bdeae1d, 0x9b64c2b0, 0xec63f226, 0x756aa39c, 0x26d930a, 0x9c0906a9, 0xeb0e363f, 0x72076785, 0x5005713,
     0x95bf4a82, 0xe2b87a14, 0x7bb12bae, 0xcb61b38, 0x92d28e9b, 0xe5d5be0d, 0x7cdcefb7, 0xbdbdf21, 0x86d3d2d4, 0xf1d4e242,
     0x68ddb3f8, 0x1fda836e, 0x81be16cd, 0xf6b9265b, 0x6fb077e1, 0x18b74777, 0x88085ae6, 0xff0f6a70, 0x66063bca, 0x11010b5c,
     0x8f659eff, 0xf862ae69, 0x616bffd3, 0x166ccf45, 0xa00ae278, 0xd70dd2ee, 0x4e048354, 0x3903b3c2, 0xa7672661, 0xd06016f7,
     0x4969474d, 0x3e6e77db, 0xaed16a4a, 0xd9d65adc, 0x40df0b66, 0x37d83bf0, 0xa9bcae53, 0xdebb9ec5, 0x47b2cf7f, 0x30b5ffe9,
     0xbdbdf21c, 0xcabac28a, 0x53b39330, 0x24b4a3a6, 0xbad03605, 0xcdd70693, 0x54de5729, 0x23d967bf, 0xb3667a2e, 0xc4614ab8,
     0x5d681b02, 0x2a6f2b94, 0xb40bbe37, 0xc30c8ea1, 0x5a05df1b, 0x2d02ef8d]"

text \<open>\<open>char\<close> is signed; the length is converted to a signed integer of 32 bits.\<close>

definition crc_byte :: "u32 \<Rightarrow> u8 \<Rightarrow> u32" where
  "crc_byte c d = drop_bit 8 c XOR crc32tab ! unat ((c XOR scast d) AND 0xff)"

definition crc :: "u32 \<Rightarrow> u8 list \<Rightarrow> u32" where
  "crc c dat = foldl crc_byte c (take (nat (signed_take_bit 31 (int (length dat)))) dat)"

section \<open>Heads\<close>

record req_log_head =
  rh_inc_id :: u32
  rh_reqtype :: u32
  rh_data_offset :: u32
  rh_data_len :: u32
  rh_data_crc :: u32

text \<open>The packed structure in memory, with the lowest byte of a number first.\<close>

definition u32_bytes :: "u32 \<Rightarrow> u8 list" where
  "u32_bytes x = [ucast x, ucast (drop_bit 8 x), ucast (drop_bit 16 x), ucast (drop_bit 24 x)]"

definition bytes_u32 :: "u8 \<Rightarrow> u8 \<Rightarrow> u8 \<Rightarrow> u8 \<Rightarrow> u32" where
  "bytes_u32 a b c d = ucast a OR push_bit 8 (ucast b) OR push_bit 16 (ucast c) OR push_bit 24 (ucast d)"

definition head_bytes :: "req_log_head \<Rightarrow> u8 list" where
  "head_bytes h = u32_bytes (rh_inc_id h) @ u32_bytes (rh_reqtype h) @ u32_bytes (rh_data_offset h) @ u32_bytes (rh_data_len h) @ u32_bytes (rh_data_crc h)"

abbreviation head_size :: nat where "head_size \<equiv> 20"

text \<open>\<open>getHeadData\<close>; a read beyond the end of the file leaves the structure undefined (\<open>None\<close>).\<close>

definition getHeadData :: "u8 list \<Rightarrow> nat \<Rightarrow> req_log_head option" where
  "getHeadData ifs off =
     (if off + head_size \<le> length ifs then
        let w = (\<lambda>i. bytes_u32 (ifs ! (off + i)) (ifs ! (off + i + 1)) (ifs ! (off + i + 2)) (ifs ! (off + i + 3)))
        in Some \<lparr>rh_inc_id = w 0, rh_reqtype = w 4, rh_data_offset = w 8, rh_data_len = w 12, rh_data_crc = w 16\<rparr>
      else None)"

section \<open>Files\<close>

record log_disk =
  ld_dirs :: "string set"
  ld_files :: "string \<Rightarrow> u8 list option"

text \<open>
  Opening a file of directory \<open>dir\<close> to append creates it; \<open>can_open\<close> tells whether the file system lets the file be opened.
\<close>

definition open_app :: "(string \<Rightarrow> bool) \<Rightarrow> string \<Rightarrow> string \<Rightarrow> log_disk \<Rightarrow> bool \<times> log_disk" where
  "open_app can_open dir path d =
     (if dir \<in> ld_dirs d \<and> can_open path then
        (True, if ld_files d path = None then d\<lparr>ld_files := (ld_files d)(path \<mapsto> [])\<rparr> else d)
      else (False, d))"

definition file_bytes :: "log_disk \<Rightarrow> string \<Rightarrow> u8 list" where
  "file_bytes d path = (case ld_files d path of Some b \<Rightarrow> b | None \<Rightarrow> [])"

definition write_app :: "string \<Rightarrow> u8 list \<Rightarrow> log_disk \<Rightarrow> log_disk" where
  "write_app path b d = d\<lparr>ld_files := (ld_files d)(path \<mapsto> file_bytes d path @ b)\<rparr>"

section \<open>The manager\<close>

record req_log_mgr =
  base_path :: string
  inc_id :: u32
  last_writed_id :: u32
  prepared_req :: "common_req list"

definition mgr_init :: req_log_mgr where
  "mgr_init = \<lparr>base_path = [], inc_id = 1, last_writed_id = 0, prepared_req = []\<rparr>"

definition head_log_path :: "req_log_mgr \<Rightarrow> string" where
  "head_log_path m = base_path m @ ''/head.req.log''"

definition getDataPath :: "req_log_mgr \<Rightarrow> u32 \<Rightarrow> string" where
  "getDataPath m iid = base_path m @ ''/'' @ show_nat (unat iid div 100000) @ ''.req.log''"

definition getLastSuccessReqId :: "req_log_mgr \<Rightarrow> u32" where
  "getLastSuccessReqId m = last_writed_id m"

text \<open>The length of the head file is an \<open>int\<close>.\<close>

definition loadLastData :: "(string \<Rightarrow> bool) \<Rightarrow> req_log_mgr \<Rightarrow> log_disk \<Rightarrow> unit result \<times> req_log_mgr \<times> log_disk" where
  "loadLastData can_open m d =
     (if base_path m \<in> ld_dirs d then
        case ld_files d (head_log_path m) of
          None \<Rightarrow> (Inr (), m, d)
        | Some ifs \<Rightarrow>
            let len = signed_take_bit 31 (int (length ifs)) in
            if len = 0 then (Inr (), m, d)
            else if len < int head_size \<or> len mod int head_size \<noteq> 0 then (Inl (RuntimeError ''read request log head file error''), m, d)
            else (case getHeadData ifs (length ifs - head_size) of
                None \<Rightarrow> (Inr (), m, d)
              | Some lasthead \<Rightarrow> (Inr (), m\<lparr>inc_id := rh_inc_id lasthead + 1, last_writed_id := rh_inc_id lasthead\<rparr>, d))
      else
        case open_app can_open (base_path m) (head_log_path m) (d\<lparr>ld_dirs := insert (base_path m) (ld_dirs d)\<rparr>) of
          (True, d') \<Rightarrow> (Inr (), m, d')
        | (False, d') \<Rightarrow> (Inl (RuntimeError ''init log head file failed.''), m, d'))"

definition log_init :: "(string \<Rightarrow> bool) \<Rightarrow> string \<Rightarrow> log_disk \<Rightarrow> unit result \<times> req_log_mgr \<times> log_disk" where
  "log_init can_open basepath d = loadLastData can_open \<lparr>base_path = basepath, inc_id = 1, last_writed_id = 0, prepared_req = []\<rparr> d"

definition prepareReqLog :: "common_req \<Rightarrow> bool \<Rightarrow> req_log_mgr \<Rightarrow> bool \<times> common_req \<times> req_log_mgr" where
  "prepareReqLog r isprimary m =
     (if prepared_req m \<noteq> [] then (False, r, m)
      else if isprimary then
        let r' = r\<lparr>cr_inc_id := inc_id m\<rparr> in (True, r', m\<lparr>inc_id := inc_id m + 1, prepared_req := prepared_req m @ [r']\<rparr>)
      else if cr_inc_id r < inc_id m then (False, r, m)
      else (True, r, m\<lparr>inc_id := cr_inc_id r + 1, prepared_req := prepared_req m @ [r]\<rparr>))"

definition getPreparedReqLog :: "req_log_mgr \<Rightarrow> common_req option" where
  "getPreparedReqLog m = (if prepared_req m = [] then None else Some (last (prepared_req m)))"

definition delPreparedReqLog :: "req_log_mgr \<Rightarrow> req_log_mgr" where
  "delPreparedReqLog m = m\<lparr>prepared_req := []\<rparr>"

definition appendReqData :: "(string \<Rightarrow> bool) \<Rightarrow> u8 list \<Rightarrow> req_log_mgr \<Rightarrow> log_disk \<Rightarrow> bool \<times> req_log_mgr \<times> log_disk" where
  "appendReqData can_open packed m d =
     (if prepared_req m = [] then (False, m, d)
      else
        let r = last (prepared_req m) in
        if cr_inc_id r < last_writed_id m then (False, m, d)
        else
          let path = getDataPath m (cr_inc_id r);
              (ok, d1) = open_app can_open (base_path m) path d;
              (ok_head, d2) = open_app can_open (base_path m) (head_log_path m) d1 in
          if \<not> ok \<or> \<not> ok_head then (False, m, d2)
          else
            let whead = \<lparr>rh_inc_id = cr_inc_id r, rh_reqtype = cr_reqtype r, rh_data_offset = of_nat (length (file_bytes d2 path)),
                  rh_data_len = of_nat (length packed), rh_data_crc = crc 0 packed\<rparr>
            in (True, m\<lparr>last_writed_id := rh_inc_id whead\<rparr>, write_app (head_log_path m) (head_bytes whead) (write_app path packed d2)))"

section \<open>Reading\<close>

text \<open>A short read leaves the zero bytes that the string was filled with.\<close>

definition getReqPackedDataByHead :: "req_log_mgr \<Rightarrow> log_disk \<Rightarrow> req_log_head \<Rightarrow> u8 list result" where
  "getReqPackedDataByHead m d h =
     (case ld_files d (getDataPath m (rh_inc_id h)) of
        None \<Rightarrow> Inl (RuntimeError ''open request log file failed.'')
      | Some b \<Rightarrow>
          let packed = vec_resize (unat (rh_data_len h)) 0 (take (unat (rh_data_len h)) (drop (unat (rh_data_offset h)) b)) in
          if crc 0 packed \<noteq> rh_data_crc h then Inl (RuntimeError ''request log data corrupt.'') else Inr packed)"

definition getReqDataByHeadOffset :: "req_log_mgr \<Rightarrow> log_disk \<Rightarrow> nat \<Rightarrow> (nat \<times> req_log_head \<times> u8 list) option result" where
  "getReqDataByHeadOffset m d headoffset =
     (case ld_files d (head_log_path m) of
        None \<Rightarrow> Inl (RuntimeError ''open request log failed.'')
      | Some ifs \<Rightarrow>
          if length ifs < head_size \<or> headoffset > length ifs - head_size then Inr None
          else (case getHeadData ifs headoffset of
              None \<Rightarrow> Inr None
            | Some rethead \<Rightarrow> map_sum id (\<lambda>packed. Some (headoffset + head_size, rethead, packed)) (getReqPackedDataByHead m d rethead)))"

text \<open>
  The binary search; \<open>ret\<close> is the number, the head and the offset found so far. The bounds are of type \<open>size_t\<close> and cannot
  overflow. \<open>None\<close> is a read beyond the end of the file.
\<close>

function head_search :: "u8 list \<Rightarrow> u32 \<Rightarrow> nat \<Rightarrow> nat \<Rightarrow> u32 \<times> (req_log_head \<times> nat) option \<Rightarrow> (u32 \<times> (req_log_head \<times> nat) option) option" where
  "head_search ifs iid lo hi ret =
     (if hi < lo then Some ret
      else
        let mid = (hi - lo) div 2 + lo in
        case getHeadData ifs (mid * head_size) of
          None \<Rightarrow> None
        | Some cur \<Rightarrow>
            if rh_inc_id cur > iid then
              let ret' = (rh_inc_id cur, Some (cur, mid * head_size)) in
              if mid = 0 then Some ret' else head_search ifs iid lo (mid - 1) ret'
            else if rh_inc_id cur < iid then head_search ifs iid (mid + 1) hi ret
            else Some (iid, Some (cur, mid * head_size)))"
  by pat_completeness auto

termination
  by (relation "measure (\<lambda>(ifs, iid, lo, hi, ret). Suc hi - lo)") auto

declare head_search.simps [simp del]

definition getHeadOffset :: "req_log_mgr \<Rightarrow> log_disk \<Rightarrow> u32 \<Rightarrow> (u32 \<times> (req_log_head \<times> nat) option) option result option" where
  "getHeadOffset m d iid =
     (case ld_files d (head_log_path m) of
        None \<Rightarrow> Some (Inl (RuntimeError ''open request log file failed.''))
      | Some ifs \<Rightarrow>
          if length ifs < head_size then Some (Inr None)
          else
            let hi = length ifs div head_size - 1 in
            Option.bind (getHeadData ifs (hi * head_size)) (\<lambda>cur.
              if iid > rh_inc_id cur then Some (Inr None)
              else map_option (\<lambda>ret. Inr (Some ret)) (head_search ifs iid 0 hi (iid, None))))"

text \<open>A search that finds no head leaves the head as it was, undefined for the callers (\<open>None\<close>).\<close>

definition getReqData :: "req_log_mgr \<Rightarrow> log_disk \<Rightarrow> u32 \<Rightarrow> (u32 \<times> req_log_head \<times> nat \<times> u8 list) option result option" where
  "getReqData m d iid =
     Option.bind (getHeadOffset m d iid) (\<lambda>r. case r of
         Inl e \<Rightarrow> Some (Inl e)
       | Inr None \<Rightarrow> Some (Inr None)
       | Inr (Some (iid', None)) \<Rightarrow> None
       | Inr (Some (iid', Some (h, off))) \<Rightarrow>
           Some (map_sum id (\<lambda>packed. Some (iid', h, off, packed)) (getReqPackedDataByHead m d h)))"

text \<open>\<open>getReqLogIdList\<close>: a request is read before the test whether the list is full.\<close>

function log_id_loop :: "req_log_mgr \<Rightarrow> log_disk \<Rightarrow> nat \<Rightarrow> nat \<Rightarrow> (u32 \<times> u8 list) list \<Rightarrow> (u32 \<times> u8 list) list result" where
  "log_id_loop m d max_return headoffset acc =
     (case getReqDataByHeadOffset m d headoffset of
        Inl e \<Rightarrow> Inl e
      | Inr None \<Rightarrow> Inr acc
      | Inr (Some (off, h, packed)) \<Rightarrow>
          if length acc \<ge> max_return then Inr acc
          else log_id_loop m d max_return off (acc @ [(rh_inc_id h, packed)]))"
  by pat_completeness auto

termination
  by (relation "measure (\<lambda>(m, d, max_return, headoffset, acc). max_return - length acc)") auto

declare log_id_loop.simps [simp del]

definition getReqLogIdList :: "req_log_mgr \<Rightarrow> log_disk \<Rightarrow> u32 \<Rightarrow> u32 \<Rightarrow> bool \<Rightarrow> (u32 list \<times> u8 list list) result option" where
  "getReqLogIdList m d first max_return needdata =
     Option.bind (getHeadOffset m d first) (\<lambda>r. case r of
         Inl e \<Rightarrow> Some (Inl e)
       | Inr None \<Rightarrow> Some (Inr ([], []))
       | Inr (Some (iid, None)) \<Rightarrow> None
       | Inr (Some (iid, Some (h, off))) \<Rightarrow>
           Some (map_sum id (\<lambda>l. (map fst l, if needdata then map snd l else []))
             (log_id_loop m d (unat (min max_return (getLastSuccessReqId m))) off [])))"

end
