(* ===== verification/Crc_Table.thy ===== *)
theory Crc_Table
  imports Req_Log
begin

text \<open>
  The checksum of the request log: the table of RequestLog.h is the table of the reflected polynomial of CRC-32, and the routine that works
  byte by byte with the table is the routine that works bit by bit.
\<close>

definition crc_bit :: "u32 \<Rightarrow> u32" where
  "crc_bit x = (if bit x 0 then drop_bit 1 x XOR 0xEDB88320 else drop_bit 1 x)"

definition crc_bits :: "nat \<Rightarrow> u32 \<Rightarrow> u32" where
  "crc_bits n x = (crc_bit ^^ n) x"

lemma crc_bits_Suc: "crc_bits (Suc n) x = crc_bits n (crc_bit x)"
  by (simp add: crc_bits_def funpow_swap1)

lemma crc_bits_8: "crc_bits 8 x = crc_bit (crc_bit (crc_bit (crc_bit (crc_bit (crc_bit (crc_bit (crc_bit x)))))))"
  by (simp add: crc_bits_def eval_nat_numeral)

text \<open>Shifting is linear.\<close>

lemma crc_bit_xor: "crc_bit (x XOR y) = crc_bit x XOR crc_bit y"
  by (rule bit_word_eqI) (auto simp: crc_bit_def bit_simps)

lemma crc_bits_xor: "crc_bits n (x XOR y) = crc_bits n x XOR crc_bits n y"
  by (induction n arbitrary: x y) (simp_all add: crc_bits_Suc crc_bit_xor, simp add: crc_bits_def)

lemma crc_bits_high: "\<forall>i<n. \<not> bit x i \<Longrightarrow> crc_bits n x = drop_bit n x"
proof (induction n arbitrary: x)
  case (Suc n)
  then have "\<not> bit x 0" by simp
  then have "crc_bit x = drop_bit 1 x" by (simp add: crc_bit_def)
  moreover have "\<forall>i<n. \<not> bit (drop_bit 1 x) i" using Suc.prems by (simp add: bit_simps)
  ultimately show ?case using Suc.IH [of "drop_bit 1 x"] by (simp add: crc_bits_Suc drop_bit_drop_bit)
qed (simp add: crc_bits_def)

text \<open>The second half of a table of \<open>2 ^ Suc k\<close> entries is its first half shifted by the entry of \<open>2 ^ k\<close>.\<close>

definition crc_double :: "u32 list \<Rightarrow> u32 \<Rightarrow> u32 list" where
  "crc_double tab b = tab @ map (\<lambda>t. t XOR b) tab"

lemma of_nat_xor_exp:
  assumes "i < 2 ^ k" "k < 32"
  shows "(of_nat (i + 2 ^ k) :: u32) = of_nat i XOR of_nat (2 ^ k)"
proof -
  have "\<not> bit i k" using assms(1) by (simp add: bit_iff_odd)
  then have "\<not> bit (of_nat i :: u32) k" by (simp add: bit_of_nat_iff)
  then have "(of_nat i :: u32) AND 2 ^ k = 0" by (simp add: and_exp_eq_0_iff_not_bit)
  then show ?thesis using disjunctive_add_eq_xor [of "of_nat i :: u32" "2 ^ k"] by simp
qed

lemma crc_double_exp:
  assumes "k < 32"
  shows "map (\<lambda>i. crc_bits 8 (of_nat i)) [0..<2 * 2 ^ k] = crc_double (map (\<lambda>i. crc_bits 8 (of_nat i)) [0..<2 ^ k]) (crc_bits 8 (of_nat (2 ^ k)))"
proof -
  have "[0..<2 * 2 ^ k] = [0..<2 ^ k] @ map (\<lambda>i. i + 2 ^ k) [0..<2 ^ k]"
    using upt_add_eq_append [of 0 "2 ^ k" "2 ^ k"] by (simp add: map_add_upt mult_2)
  then show ?thesis using assms
    by (auto simp: crc_double_def of_nat_xor_exp [symmetric] crc_bits_xor [symmetric] simp del: of_nat_add of_nat_power)
qed

lemma crc_powers: "crc_bits 8 1 = 0x77073096" "crc_bits 8 2 = 0xee0e612c" "crc_bits 8 4 = 0x76dc419" "crc_bits 8 8 = 0xedb8832"
  "crc_bits 8 16 = 0x1db71064" "crc_bits 8 32 = 0x3b6e20c8" "crc_bits 8 64 = 0x76dc4190" "crc_bits 8 128 = 0xedb88320"
  by (simp_all add: crc_bits_8 crc_bit_def)

lemma crc_table_halves: "crc32tab = foldl crc_double [0] [0x77073096, 0xee0e612c, 0x76dc419, 0xedb8832, 0x1db71064, 0x3b6e20c8, 0x76dc4190, 0xedb88320]"
  by (simp add: crc_double_def crc32tab_def)

lemma crc_table: "crc32tab = map (\<lambda>i. crc_bits 8 (of_nat i)) [0..<256]"
proof -
  have z: "crc_bits 8 0 = 0" by (simp add: crc_bits_8 crc_bit_def)
  have "map (\<lambda>i. crc_bits 8 (of_nat i)) [0..<1] = [0]" by (simp add: z)
  then have "map (\<lambda>i. crc_bits 8 (of_nat i)) [0..<256] = foldl crc_double [0] (map (\<lambda>k. crc_bits 8 (of_nat (2 ^ k))) [0, 1, 2, 3, 4, 5, 6, 7])"
    using crc_double_exp [of 0] crc_double_exp [of 1] crc_double_exp [of 2] crc_double_exp [of 3] crc_double_exp [of 4] crc_double_exp [of 5]
      crc_double_exp [of 6] crc_double_exp [of 7] by simp
  then show ?thesis unfolding crc_table_halves by (simp add: crc_powers)
qed

lemma crc_byte_bits: "crc_byte c d = crc_bits 8 (c XOR ucast d)"
proof -
  let ?x = "c XOR ucast d"
  have low: "(c XOR scast d) AND 0xff = ?x AND mask 8"
  proof -
    have ff: "(0xff :: u32) = mask 8" by (simp add: mask_eq_exp_minus_1)
    have "bit ((c XOR scast d) AND mask 8) n = bit (?x AND mask 8) n" if "n < 32" for n
      using that by (cases "n < 8") (auto simp: bit_simps min_absorb2)
    then show ?thesis unfolding ff by (intro bit_word_eqI) simp
  qed
  have m: "unat (?x AND mask 8) < 256"
    using and_mask_less' [of 8 ?x] by (simp add: word_less_nat_alt)
  have t: "crc32tab ! unat (?x AND mask 8) = crc_bits 8 (?x AND mask 8)" 
    using m by (simp add: crc_table)
  have s: "?x = (?x AND mask 8) XOR (?x AND NOT (mask 8))"
    by (rule bit_word_eqI) (auto simp: bit_simps)
  have h: "crc_bits 8 (?x AND NOT (mask 8)) = drop_bit 8 (?x AND NOT (mask 8))"
    by (rule crc_bits_high) (simp add: bit_simps)
  have "drop_bit 8 (?x AND NOT (mask 8)) = drop_bit 8 c"
    by (rule bit_word_eqI) (auto simp: bit_simps dest: bit_imp_le_length)
  then show ?thesis unfolding crc_byte_def low t using crc_bits_xor [of 8 "?x AND mask 8" "?x AND NOT (mask 8)"] s h
    by (simp add: xor.commute)
qed

section \<open>Property\<close>

text \<open>C23: The checksum that the request log computes with its table, byte by byte, is CRC-32 with the reflected polynomial computed bit by bit, for all
data shorter than two gigabytes (a longer length would not fit the signed length).
\<close>

theorem crc_is_crc32:
  assumes "length dat < 2 ^ 31"
  shows "crc c dat = foldl (\<lambda>c d. crc_bits 8 (c XOR ucast d)) c dat"
proof -
  have "signed_take_bit 31 (int (length dat)) = int (length dat)"
    using assms by (simp add: signed_take_bit_int_eq_self_iff)
  moreover have "crc_byte = (\<lambda>c d. crc_bits 8 (c XOR ucast d))" by (simp add: fun_eq_iff crc_byte_bits)
  ultimately show ?thesis by (simp add: crc_def)
qed

theorem crc_is_crc32_witness: "crc 0 [0x31, 0x32] = foldl (\<lambda>c d. crc_bits 8 (c XOR ucast d)) 0 [0x31, 0x32 :: u8]"
  by (rule crc_is_crc32) simp

end
