(* ===== verification/Req_Log_Run.thy ===== *)
theory Req_Log_Run
  imports Req_Log
begin

text \<open>
  Runs of the request log: every sequence of preparing, appending, dropping and restarting leaves files that hold exactly the requests that were
  appended, in their order.
\<close>

section \<open>Heads in a file\<close>

lemma bytes_of_u32: "bytes_u32 (ucast x) (ucast (drop_bit 8 x)) (ucast (drop_bit 16 x)) (ucast (drop_bit 24 x)) = x"
proof (rule bit_word_eqI)
  fix n assume "n < LENGTH(32)"
  then have "n < 8 \<or> (8 \<le> n \<and> n < 16) \<or> (16 \<le> n \<and> n < 24) \<or> (24 \<le> n \<and> n < 32)" by auto
  then show "bit (bytes_u32 (ucast x) (ucast (drop_bit 8 x)) (ucast (drop_bit 16 x)) (ucast (drop_bit 24 x))) n = bit x n"
    by (auto simp: bytes_u32_def bit_simps)
qed

lemma length_head_bytes [simp]: "length (head_bytes h) = 20"
  by (simp add: head_bytes_def u32_bytes_def)

lemma getHeadData_mid: "getHeadData (xs @ head_bytes h @ ys) (length xs) = Some h"
proof -
  have n: "(xs @ head_bytes h @ ys) ! (length xs + i) = head_bytes h ! i" if "i < 20" for i
    using that by (simp add: nth_append)
  let ?f = "xs @ head_bytes h @ ys" and ?o = "length xs"
  have w: "bytes_u32 (?f ! (?o + i)) (?f ! (?o + i + 1)) (?f ! (?o + i + 2)) (?f ! (?o + i + 3)) =
      bytes_u32 (head_bytes h ! i) (head_bytes h ! (i + 1)) (head_bytes h ! (i + 2)) (head_bytes h ! (i + 3))" if "i \<le> 16" for i
    unfolding add.assoc using that by (simp only: n)
  show ?thesis unfolding getHeadData_def Let_def w [OF le0]
    by (simp only: w, simp add: head_bytes_def u32_bytes_def bytes_of_u32)
qed

lemma length_heads: "length (concat (map head_bytes hs)) = 20 * length hs"
  by (induction hs) simp_all

lemma getHeadData_nth:
  assumes "i < length hs"
  shows "getHeadData (concat (map head_bytes hs)) (i * 20) = Some (hs ! i)"
proof -
  have "hs = take i hs @ hs ! i # drop (Suc i) hs" using assms by (rule id_take_nth_drop)
  then have "concat (map head_bytes hs) = concat (map head_bytes (take i hs)) @ head_bytes (hs ! i) @ concat (map head_bytes (drop (Suc i) hs))"
    by (metis (no_types, lifting) concat.simps(2) concat_append list.simps(9) map_append)
  moreover have "length (concat (map head_bytes (take i hs))) = i * 20" using assms by (simp add: length_heads)
  ultimately show ?thesis using getHeadData_mid by metis
qed

section \<open>What the files hold\<close>

text \<open>An appended request: its number, its type and its packed data.\<close>

type_synonym log_entry = "u32 \<times> u32 \<times> u8 list"

abbreviation entry_id :: "log_entry \<Rightarrow> u32" where "entry_id \<equiv> fst"
abbreviation entry_type :: "log_entry \<Rightarrow> u32" where "entry_type e \<equiv> fst (snd e)"
abbreviation entry_data :: "log_entry \<Rightarrow> u8 list" where "entry_data e \<equiv> snd (snd e)"

definition file_no :: "u32 \<Rightarrow> nat" where
  "file_no iid = unat iid div 100000"

definition data_path :: "string \<Rightarrow> nat \<Rightarrow> string" where
  "data_path base k = base @ ''/'' @ show_nat k @ ''.req.log''"

definition head_path :: "string \<Rightarrow> string" where
  "head_path base = base @ ''/head.req.log''"

text \<open>The content of data file \<open>k\<close>, and the head of a request that comes after the requests \<open>es\<close>.\<close>

definition data_of :: "log_entry list \<Rightarrow> nat \<Rightarrow> u8 list" where
  "data_of es k = concat (map entry_data (filter (\<lambda>e. file_no (entry_id e) = k) es))"

definition head_after :: "log_entry list \<Rightarrow> log_entry \<Rightarrow> req_log_head" where
  "head_after es e = \<lparr>rh_inc_id = entry_id e, rh_reqtype = entry_type e, rh_data_offset = of_nat (length (data_of es (file_no (entry_id e)))),
     rh_data_len = of_nat (length (entry_data e)), rh_data_crc = crc 0 (entry_data e)\<rparr>"

definition log_head :: "log_entry list \<Rightarrow> nat \<Rightarrow> req_log_head" where
  "log_head es i = head_after (take i es) (es ! i)"

definition log_heads :: "log_entry list \<Rightarrow> req_log_head list" where
  "log_heads es = map (log_head es) [0..<length es]"

definition last_id :: "log_entry list \<Rightarrow> u32" where
  "last_id es = (if es = [] then 0 else entry_id (last es))"

definition log_rep :: "string \<Rightarrow> req_log_mgr \<Rightarrow> log_disk \<Rightarrow> log_entry list \<Rightarrow> bool" where
  "log_rep base m d es \<longleftrightarrow> base_path m = base \<and> base \<in> ld_dirs d \<and>
     ld_files d (head_path base) = Some (concat (map head_bytes (log_heads es))) \<and>
     (\<forall>k. file_bytes d (data_path base k) = data_of es k) \<and>
     (\<forall>e\<in>set es. ld_files d (data_path base (file_no (entry_id e))) \<noteq> None) \<and>
     sorted (map entry_id es) \<and> last_writed_id m = last_id es"

definition small_files :: "log_disk \<Rightarrow> bool" where
  "small_files d \<longleftrightarrow> (\<forall>p. length (file_bytes d p) < 2 ^ 31)"

lemma getDataPath_eq: "getDataPath m iid = data_path (base_path m) (file_no iid)"
  by (simp add: getDataPath_def data_path_def file_no_def)

lemma head_log_path_eq: "head_log_path m = head_path (base_path m)"
  by (simp add: head_log_path_def head_path_def)

lemma data_path_inject: "data_path base k = data_path base k' \<longleftrightarrow> k = k'"
  by (auto simp: data_path_def dest: arg_cong [where f = digits_val])

lemma data_path_not_head: "data_path base k \<noteq> head_path base"
proof
  assume "data_path base k = head_path base"
  then have "show_nat k = ''head''" by (simp add: data_path_def head_path_def)
  moreover have "\<not> list_all is_digit ''head''" by (simp add: is_digit_def)
  ultimately show False using show_nat_digits [of k] by simp
qed

lemma data_of_snoc: "data_of (es @ [e]) k = data_of es k @ (if file_no (entry_id e) = k then entry_data e else [])"
  by (simp add: data_of_def)

lemma log_heads_snoc: "log_heads (es @ [e]) = log_heads es @ [head_after es e]"
  by (simp add: log_heads_def log_head_def nth_append)

lemma length_log_heads [simp]: "length (log_heads es) = length es"
  by (simp add: log_heads_def)

lemma last_id_snoc [simp]: "last_id (es @ [e]) = entry_id e"
  by (simp add: last_id_def)

lemma data_of_split:
  assumes "i < length es"
  shows "\<exists>rest. data_of es (file_no (entry_id (es ! i))) = data_of (take i es) (file_no (entry_id (es ! i))) @ entry_data (es ! i) @ rest"
proof -
  have "es = take i es @ [es ! i] @ drop (Suc i) es" using assms id_take_nth_drop by fastforce
  moreover have "data_of (xs @ [e] @ ys) (file_no (entry_id e)) = data_of xs (file_no (entry_id e)) @ entry_data e @ data_of ys (file_no (entry_id e))" for xs e ys
    by (simp add: data_of_def)
  ultimately show ?thesis by metis
qed

lemma log_rep_bounds:
  assumes "log_rep base m d es" "small_files d"
  shows "length (data_of es k) < 2 ^ 31" "20 * length es < 2 ^ 31"
proof -
  show "length (data_of es k) < 2 ^ 31" using assms by (metis log_rep_def small_files_def)
  have "length (file_bytes d (head_path base)) = 20 * length es" using assms(1) by (simp add: log_rep_def file_bytes_def length_heads)
  then show "20 * length es < 2 ^ 31" using assms(2) by (metis small_files_def)
qed

section \<open>Reading one request\<close>

lemma read_packed:
  assumes "log_rep base m d es" "small_files d" "i < length es"
  shows "getReqPackedDataByHead m d (log_head es i) = Inr (entry_data (es ! i))"
proof -
  let ?e = "es ! i" and ?k = "file_no (entry_id (es ! i))"
  obtain rest where s: "data_of es ?k = data_of (take i es) ?k @ entry_data ?e @ rest" using data_of_split [OF assms(3)] by blast
  have "length (data_of (take i es) ?k) + length (entry_data ?e) < 2 ^ 31" using log_rep_bounds(1) [OF assms(1,2), of ?k] s by simp
  then have u: "unat (rh_data_offset (log_head es i)) = length (data_of (take i es) ?k)" "unat (rh_data_len (log_head es i)) = length (entry_data ?e)"
    by (simp_all add: log_head_def head_after_def unat_of_nat_u32)
  have "ld_files d (data_path base ?k) \<noteq> None" "file_bytes d (data_path base ?k) = data_of es ?k" using assms(1,3) by (auto simp: log_rep_def)
  then have f: "ld_files d (data_path base ?k) = Some (data_of es ?k)" by (auto simp: file_bytes_def)
  have h: "rh_inc_id (log_head es i) = entry_id ?e" "rh_data_crc (log_head es i) = crc 0 (entry_data ?e)" by (simp_all add: log_head_def head_after_def)
  have b: "base_path m = base" using assms(1) by (simp add: log_rep_def)
  show ?thesis unfolding getReqPackedDataByHead_def getDataPath_eq b h(1) f option.case u s by (simp add: h(2) Let_def)
qed

lemma read_head:
  assumes "log_rep base m d es" "i < length es"
  shows "getHeadData (concat (map head_bytes (log_heads es))) (i * 20) = Some (log_head es i)"
  using getHeadData_nth [of i "log_heads es"] assms(2) by (simp add: log_heads_def)

lemma read_next:
  assumes "log_rep base m d es" "small_files d"
  shows "i < length es \<Longrightarrow> getReqDataByHeadOffset m d (i * 20) = Inr (Some (Suc i * 20, log_head es i, entry_data (es ! i)))"
    "getReqDataByHeadOffset m d (length es * 20) = Inr None"
proof -
  have f: "ld_files d (head_log_path m) = Some (concat (map head_bytes (log_heads es)))" using assms(1) by (simp add: log_rep_def head_log_path_eq)
  show "getReqDataByHeadOffset m d (i * 20) = Inr (Some (Suc i * 20, log_head es i, entry_data (es ! i)))" if i: "i < length es"
  proof -
    have "i * 20 + 20 \<le> 20 * length es" using i by simp
    then have "\<not> 20 * length es < 20" "\<not> i * 20 > 20 * length es - 20" using i by auto
    then show ?thesis unfolding getReqDataByHeadOffset_def f using read_head [OF assms(1) i] read_packed [OF assms i] by (simp add: length_heads)
  qed
  show "getReqDataByHeadOffset m d (length es * 20) = Inr None"
    unfolding getReqDataByHeadOffset_def f by (cases es) (simp_all add: length_heads)
qed

section \<open>Runs\<close>

text \<open>
  A run of the log in directory \<open>base\<close>: it starts in a directory that does not exist yet; whether a file can be opened may change from step to step.
  The last argument are the requests that have been appended.
\<close>

inductive log_run :: "string \<Rightarrow> req_log_mgr \<Rightarrow> log_disk \<Rightarrow> log_entry list \<Rightarrow> bool" for base where
  Create: "\<lbrakk>base \<notin> ld_dirs d; \<forall>s. ld_files d (base @ s) = None; log_init can_open base d = (Inr (), m, d')\<rbrakk> \<Longrightarrow> log_run base m d' []"
| Prepare: "\<lbrakk>log_run base m d es; prepareReqLog r isprimary m = (ok, r', m')\<rbrakk> \<Longrightarrow> log_run base m' d es"
| Append: "\<lbrakk>log_run base m d es; appendReqData can_open packed m d = (True, m', d'); getPreparedReqLog m = Some r\<rbrakk> \<Longrightarrow>
    log_run base m' d' (es @ [(cr_inc_id r, cr_reqtype r, packed)])"
| Append_Fails: "\<lbrakk>log_run base m d es; appendReqData can_open packed m d = (False, m', d')\<rbrakk> \<Longrightarrow> log_run base m' d' es"
| Drop: "log_run base m d es \<Longrightarrow> log_run base (delPreparedReqLog m) d es"
| Restart: "\<lbrakk>log_run base m d es; log_init can_open base d = (Inr (), m', d')\<rbrakk> \<Longrightarrow> log_run base m' d' es"

lemma open_app_files:
  assumes "open_app can_open dir p d = (ok, d')"
  shows "file_bytes d' q = file_bytes d q" "ld_dirs d' = ld_dirs d" "ld_files d q \<noteq> None \<Longrightarrow> ld_files d' q = ld_files d q"
    "ok \<Longrightarrow> ld_files d' p \<noteq> None"
  using assms by (auto simp: open_app_def file_bytes_def split: if_splits option.splits)

lemma log_rep_open:
  assumes "log_rep base m d es" "open_app can_open dir p d = (ok, d')"
  shows "log_rep base m d' es"
  using assms(1) open_app_files(1-3) [OF assms(2)] unfolding log_rep_def by (metis option.distinct(1))

lemma append_cases:
  assumes "appendReqData can_open packed m d = (ok, m', d')" "log_rep base m d es"
  obtains (Fails) "\<not> ok" "m' = m" "log_rep base m d' es" "\<And>p. file_bytes d' p = file_bytes d p"
  | (Done) d2 r where "ok" "prepared_req m \<noteq> []" "r = last (prepared_req m)" "last_writed_id m \<le> cr_inc_id r" "log_rep base m d2 es"
      "\<And>p. file_bytes d2 p = file_bytes d p" "ld_files d2 (data_path base (file_no (cr_inc_id r))) \<noteq> None" "m' = m\<lparr>last_writed_id := cr_inc_id r\<rparr>"
      "d' = write_app (head_path base) (head_bytes (head_after es (cr_inc_id r, cr_reqtype r, packed)))
        (write_app (data_path base (file_no (cr_inc_id r))) packed d2)"
proof -
  have b: "base_path m = base" using assms(2) by (simp add: log_rep_def)
  let ?r = "last (prepared_req m)" and ?p = "data_path base (file_no (cr_inc_id (last (prepared_req m))))"
  show thesis
  proof (cases "prepared_req m = [] \<or> cr_inc_id ?r < last_writed_id m")
    case True
    then have "ok = False \<and> m' = m \<and> d' = d" using assms(1) by (auto simp: appendReqData_def Let_def split: if_splits)
    then show thesis using Fails assms(2) by simp
  next
    case False
    obtain ok1 d1 where o1: "open_app can_open base ?p d = (ok1, d1)" by fastforce
    obtain ok2 d2 where o2: "open_app can_open base (head_path base) d1 = (ok2, d2)" by fastforce
    note r1 = log_rep_open [OF assms(2) o1] note r2 = log_rep_open [OF r1 o2]
    have fb: "\<And>p. file_bytes d2 p = file_bytes d p" using open_app_files(1) [OF o1] open_app_files(1) [OF o2] by simp
    show thesis
    proof (cases "ok1 \<and> ok2")
      case opened: False
      then have "ok = False \<and> m' = m \<and> d' = d2" using assms(1) False o1 o2 by (auto simp: appendReqData_def Let_def getDataPath_eq head_log_path_eq b)
      then show thesis using Fails r2 fb by simp
    next
      case True
      have len: "length (file_bytes d2 ?p) = length (data_of es (file_no (cr_inc_id ?r)))" using r2 by (simp add: log_rep_def)
      have "ok = True \<and> m' = m\<lparr>last_writed_id := cr_inc_id ?r\<rparr> \<and> d' = write_app (head_path base) (head_bytes (head_after es (cr_inc_id ?r, cr_reqtype ?r, packed))) (write_app ?p packed d2)"
        using assms(1) False True o1 o2 by (auto simp: appendReqData_def Let_def getDataPath_eq head_log_path_eq b len head_after_def)
      moreover have "ld_files d2 ?p \<noteq> None" using open_app_files(3) [OF o2, of ?p] open_app_files(4) [OF o1] True by simp
      ultimately show thesis by (intro Done [of ?r d2]) (use False r2 fb in auto)
    qed
  qed
qed

lemma write_app_files:
  "ld_files (write_app p b d) q = (if q = p then Some (file_bytes d p @ b) else ld_files d q)"
  "file_bytes (write_app p b d) q = (if q = p then file_bytes d p @ b else file_bytes d q)" "ld_dirs (write_app p b d) = ld_dirs d"
  by (simp_all add: write_app_def file_bytes_def)

lemma log_rep_write:
  assumes "log_rep base m d es" "last_writed_id m \<le> iid" "ld_files d (data_path base (file_no iid)) \<noteq> None"
  shows "log_rep base (m\<lparr>last_writed_id := iid\<rparr>) (write_app (head_path base) (head_bytes (head_after es (iid, ty, packed)))
    (write_app (data_path base (file_no iid)) packed d)) (es @ [(iid, ty, packed)])"
proof -
  have "sorted (map entry_id es)" "last_id es \<le> iid" using assms(1,2) by (auto simp: log_rep_def)
  then have "sorted (map entry_id es @ [iid])"
    by (cases es rule: rev_cases) (fastforce simp: sorted_append)+
  moreover have "file_bytes d (head_path base) = concat (map head_bytes (log_heads es))" using assms(1) by (simp add: log_rep_def file_bytes_def)
  ultimately show ?thesis using assms(1,3) unfolding log_rep_def
    by (auto simp: write_app_files log_heads_snoc data_of_snoc data_path_inject data_path_not_head data_path_not_head [symmetric])
qed

lemma append_rep:
  assumes "appendReqData can_open packed m d = (ok, m', d')" "log_rep base m d es"
  shows "\<not> ok \<Longrightarrow> log_rep base m' d' es"
    "\<lbrakk>ok; getPreparedReqLog m = Some r\<rbrakk> \<Longrightarrow> log_rep base m' d' (es @ [(cr_inc_id r, cr_reqtype r, packed)])"
  using assms(2)
  by (cases rule: append_cases [OF assms(1), of base es]; auto simp: getPreparedReqLog_def log_rep_write write_app_files)+

lemma prepare_rep:
  assumes "prepareReqLog r isprimary m = (ok, r', m')" "log_rep base m d es"
  shows "log_rep base m' d es"
  using assms by (auto simp: prepareReqLog_def Let_def log_rep_def split: if_splits)

text \<open>A restart finds the number of the last request.\<close>

lemma restart_rep:
  assumes "log_rep base m d es" "small_files d"
  shows "\<exists>m'. log_init can_open base d = (Inr (), m', d) \<and> log_rep base m' d es \<and> prepared_req m' = [] \<and> inc_id m' = last_id es + 1"
proof -
  let ?hs = "concat (map head_bytes (log_heads es))" and ?m = "\<lparr>base_path = base, inc_id = 1, last_writed_id = 0, prepared_req = []\<rparr>"
  have f: "base \<in> ld_dirs d" "ld_files d (head_path base) = Some ?hs" using assms(1) by (simp_all add: log_rep_def)
  have n: "int (length ?hs) = 20 * int (length es)" by (simp add: length_heads)
  have "20 * length es < 2 ^ 31" using log_rep_bounds [OF assms] by simp
  then have t: "signed_take_bit 31 (int (length ?hs)) = 20 * int (length es)"
    unfolding n by (simp add: signed_take_bit_int_eq_self_iff)
  have b: "\<And>m'. base_path m' = base \<Longrightarrow> last_writed_id m' = last_id es \<Longrightarrow> log_rep base m' d es" using assms(1) by (simp add: log_rep_def)
  show ?thesis
  proof (cases es rule: rev_cases)
    case Nil
    then have "log_init can_open base d = (Inr (), ?m, d)" using f t by (simp add: log_init_def loadLastData_def head_log_path_eq)
    then show ?thesis using b [of ?m] Nil by (simp add: last_id_def)
  next
    case (snoc es' e)
    have "getHeadData ?hs (length ?hs - 20) = Some (head_after es' e)"
      using read_head [OF assms(1), of "length es'"] snoc by (simp add: length_heads log_head_def mult.commute)
    then have "log_init can_open base d = (Inr (), ?m\<lparr>inc_id := last_id es + 1, last_writed_id := last_id es\<rparr>, d)"
      using f t snoc by (simp add: log_init_def loadLastData_def head_log_path_eq Let_def head_after_def last_id_def)
    then show ?thesis using b [of "?m\<lparr>inc_id := last_id es + 1, last_writed_id := last_id es\<rparr>"] by simp
  qed
qed

lemma create_rep:
  assumes "base \<notin> ld_dirs d" "\<forall>s. ld_files d (base @ s) = None" "log_init can_open base d = (Inr (), m, d')"
  shows "log_rep base m d' []"
proof -
  have "ld_files d (data_path base k) = None" "ld_files d (head_path base) = None" for k using assms(2) by (auto simp: data_path_def head_path_def)
  then show ?thesis using assms(1,3)
    by (auto simp: log_init_def loadLastData_def head_log_path_eq open_app_def log_rep_def file_bytes_def data_of_def last_id_def log_heads_def data_path_not_head
        split: if_splits)
qed

text \<open>Files only grow.\<close>

lemma append_grows:
  assumes "appendReqData can_open packed m d = (ok, m', d')"
  shows "length (file_bytes d p) \<le> length (file_bytes d' p)"
proof -
  obtain ok1 d1 where o1: "open_app can_open (base_path m) (getDataPath m (cr_inc_id (last (prepared_req m)))) d = (ok1, d1)" by fastforce
  obtain ok2 d2 where o2: "open_app can_open (base_path m) (head_log_path m) d1 = (ok2, d2)" by fastforce
  have fb: "\<And>q. file_bytes d2 q = file_bytes d q" using open_app_files(1) [OF o1] open_app_files(1) [OF o2] by simp
  show ?thesis using assms o1 o2 fb by (auto simp: appendReqData_def Let_def write_app_files split: if_splits)
qed

lemma init_grows: "log_init can_open base d = (res, m', d') \<Longrightarrow> length (file_bytes d p) \<le> length (file_bytes d' p)"
  by (auto simp: log_init_def loadLastData_def Let_def open_app_def file_bytes_def split: if_splits option.splits)

lemma small_before: "small_files d' \<Longrightarrow> (\<And>p. length (file_bytes d p) \<le> length (file_bytes d' p)) \<Longrightarrow> small_files d"
  by (meson le_less_trans small_files_def)

lemma log_run_rep: "log_run base m d es \<Longrightarrow> small_files d \<Longrightarrow> log_rep base m d es"
proof (induction rule: log_run.induct)
  case (Append m d es can_open packed m' d' r)
  have "small_files d" by (rule small_before [OF Append.prems append_grows [OF Append.hyps(2)]])
  then show ?case using append_rep(2) [OF Append.hyps(2) Append.IH _ Append.hyps(3)] by simp
next
  case (Append_Fails m d es can_open packed m' d')
  have "small_files d" by (rule small_before [OF Append_Fails.prems append_grows [OF Append_Fails.hyps(2)]])
  then show ?case using append_rep(1) [OF Append_Fails.hyps(2) Append_Fails.IH] by simp
next
  case (Restart m d es can_open m' d')
  have "small_files d" by (rule small_before [OF Restart.prems init_grows [OF Restart.hyps(2)]])
  then have "log_rep base m d es" "small_files d" using Restart.IH by simp_all
  then show ?case using restart_rep [of base m d es can_open] Restart.hyps by auto
next
  case (Drop m d es)
  then show ?case by (simp add: log_rep_def delPreparedReqLog_def)
qed (auto intro: create_rep prepare_rep)

end
