(* ===== verification/Req_Log_Read.thy ===== *)
theory Req_Log_Read
  imports Req_Log_Run
begin

text \<open>
  What the readers of the request log see: a restarted node and its replicas find the requests that were appended, by position, by number and as lists,
  and new requests can be added until the numbers run out.
\<close>

section \<open>Binary search\<close>

lemma log_head_id: "rh_inc_id (log_head es i) = entry_id (es ! i)"
  by (simp add: log_head_def head_after_def)

text \<open>Position \<open>i\<close> is a request with the least number that is not below \<open>iid\<close>.\<close>

definition least_from :: "log_entry list \<Rightarrow> u32 \<Rightarrow> nat \<Rightarrow> bool" where
  "least_from es iid i \<longleftrightarrow> i < length es \<and> iid \<le> entry_id (es ! i) \<and> (\<forall>j<length es. iid \<le> entry_id (es ! j) \<longrightarrow> entry_id (es ! i) \<le> entry_id (es ! j))"

lemma head_search_least:
  assumes "sorted (map entry_id es)" "hi < length es" "lo \<le> Suc hi"
    "\<And>j. j < lo \<Longrightarrow> entry_id (es ! j) < iid" "\<And>j. \<lbrakk>hi < j; j < length es\<rbrakk> \<Longrightarrow> iid < entry_id (es ! j)" "iid \<le> entry_id (last es)"
    "Suc hi < length es \<Longrightarrow> ret = (entry_id (es ! Suc hi), Some (log_head es (Suc hi), Suc hi * 20))"
  shows "\<exists>i. least_from es iid i \<and> head_search (concat (map head_bytes (log_heads es))) iid lo hi ret = Some (entry_id (es ! i), Some (log_head es i, i * 20))"
  using assms(2-5,7)
proof (induction "Suc hi - lo" arbitrary: lo hi ret rule: less_induct)
  case less
  have mono: "entry_id (es ! i) \<le> entry_id (es ! j)" if "i \<le> j" "j < length es" for i j
    using sorted_nth_mono [OF assms(1), of i j] that by simp
  have ne: "es \<noteq> []" using less.prems(1) by auto
  let ?f = "concat (map head_bytes (log_heads es))" and ?mid = "(hi - lo) div 2 + lo"
  show ?case
  proof (cases "hi < lo")
    case True
    then have lo: "lo = Suc hi" using less.prems(2) by simp
    have "lo < length es"
    proof (rule ccontr)
      assume "\<not> lo < length es"
      then have "entry_id (last es) < iid" using less.prems(3) [of "length es - 1"] lo ne by (simp add: last_conv_nth)
      then show False using assms(6) by simp
    qed
    moreover have "j < lo \<or> iid < entry_id (es ! j)" if "j < length es" for j using less.prems(4) [of j] lo that by force
    ultimately have "least_from es iid lo" unfolding least_from_def
      using less.prems(3,4) lo mono by (metis less_imp_le lessI linorder_not_less)
    then show ?thesis using True less.prems(5) lo \<open>lo < length es\<close> by (intro exI [of _ lo]) (simp add: head_search.simps)
  next
    case False
    have mid: "lo \<le> ?mid" "?mid \<le> hi" "?mid < length es" using False less.prems(1) by auto
    have cur: "getHeadData ?f (?mid * 20) = Some (log_head es ?mid)" using getHeadData_nth [of ?mid "log_heads es"] mid by (simp add: log_heads_def)
    have unfold: "head_search ?f iid lo hi ret =
        (if entry_id (es ! ?mid) > iid then
           if ?mid = 0 then Some (entry_id (es ! ?mid), Some (log_head es ?mid, ?mid * 20)) else head_search ?f iid lo (?mid - 1) (entry_id (es ! ?mid), Some (log_head es ?mid, ?mid * 20))
         else if entry_id (es ! ?mid) < iid then head_search ?f iid (?mid + 1) hi ret else Some (entry_id (es ! ?mid), Some (log_head es ?mid, ?mid * 20)))"
      using False cur by (subst head_search.simps) (auto simp: Let_def log_head_id)
    consider "entry_id (es ! ?mid) > iid" "?mid = 0" | "entry_id (es ! ?mid) > iid" "?mid \<noteq> 0" | "entry_id (es ! ?mid) < iid" | "entry_id (es ! ?mid) = iid"
      using linorder_less_linear [of "entry_id (es ! ?mid)" iid] by metis
    then show ?thesis
    proof cases
      case 1
      then have "least_from es iid ?mid" using mid mono [of ?mid] by (auto simp: least_from_def)
      then show ?thesis using 1 unfold by auto
    next
      case 2
      have "\<exists>i. least_from es iid i \<and> head_search ?f iid lo (?mid - 1) (entry_id (es ! ?mid), Some (log_head es ?mid, ?mid * 20)) = Some (entry_id (es ! i), Some (log_head es i, i * 20))"
      proof (rule less.hyps)
        show "iid < entry_id (es ! j)" if "?mid - 1 < j" "j < length es" for j using mono [of ?mid j] that 2 by (simp add: less_le_trans)
      qed (use 2 mid False less.prems in auto)
      then show ?thesis unfolding unfold if_P [OF 2(1)] if_not_P [OF 2(2)] .
    next
      case 3
      have "\<exists>i. least_from es iid i \<and> head_search ?f iid (?mid + 1) hi ret = Some (entry_id (es ! i), Some (log_head es i, i * 20))"
      proof (rule less.hyps)
        show "entry_id (es ! j) < iid" if "j < ?mid + 1" for j using mono [of j ?mid] that 3 mid by (simp add: le_less_trans)
      qed (use 3 mid False less.prems in auto)
      then show ?thesis unfolding unfold if_not_P [OF less_not_sym [OF 3]] if_P [OF 3] .
    next
      case 4
      then have "least_from es iid ?mid" using mid by (auto simp: least_from_def)
      then show ?thesis using 4 unfold by auto
    qed
  qed
qed

lemma getHeadOffset_rep:
  assumes "log_rep base m d es" "small_files d"
  shows "es \<noteq> [] \<Longrightarrow> iid \<le> last_id es \<Longrightarrow> \<exists>i. least_from es iid i \<and> getHeadOffset m d iid = Some (Inr (Some (entry_id (es ! i), Some (log_head es i, i * 20))))"
    "es = [] \<or> last_id es < iid \<Longrightarrow> getHeadOffset m d iid = Some (Inr None)"
proof -
  let ?f = "concat (map head_bytes (log_heads es))" and ?hi = "length es - 1"
  have f: "ld_files d (head_log_path m) = Some ?f" "sorted (map entry_id es)" using assms(1) by (simp_all add: log_rep_def head_log_path_eq)
  have n: "length ?f = 20 * length es" by (simp add: length_heads)
  have h: "getHeadData ?f (?hi * 20) = Some (log_head es ?hi)" if "es \<noteq> []" using read_head [OF assms(1), of ?hi] that by simp
  show "\<exists>i. least_from es iid i \<and> getHeadOffset m d iid = Some (Inr (Some (entry_id (es ! i), Some (log_head es i, i * 20))))" if ne: "es \<noteq> []" and le: "iid \<le> last_id es"
  proof -
    have "\<exists>i. least_from es iid i \<and> head_search ?f iid 0 ?hi (iid, None) = Some (entry_id (es ! i), Some (log_head es i, i * 20))"
      by (rule head_search_least) (use f ne le in \<open>auto simp: last_id_def\<close>)
    moreover have "\<not> entry_id (es ! ?hi) < iid" using le ne by (simp add: last_id_def last_conv_nth)
    ultimately show ?thesis unfolding getHeadOffset_def f(1) using h [OF ne] n ne by (auto simp: log_head_id Let_def)
  qed
  show "getHeadOffset m d iid = Some (Inr None)" if "es = [] \<or> last_id es < iid"
  proof (cases "es = []")
    case True
    then show ?thesis unfolding getHeadOffset_def f(1) by (simp add: log_heads_def)
  next
    case False
    then have "entry_id (es ! ?hi) < iid" using that by (simp add: last_id_def last_conv_nth)
    then show ?thesis unfolding getHeadOffset_def f(1) using h [OF False] n False by (auto simp: log_head_id Let_def)
  qed
qed

section \<open>Lists of requests\<close>

lemma log_id_loop_rep:
  assumes "log_rep base m d es" "small_files d"
  shows "i \<le> length es \<Longrightarrow> length acc \<le> k \<Longrightarrow>
    log_id_loop m d k (i * 20) acc = Inr (acc @ take (k - length acc) (map (\<lambda>e. (entry_id e, entry_data e)) (drop i es)))"
proof (induction "length es - i" arbitrary: i acc)
  case 0
  then have "i = length es" by simp
  then show ?case using read_next(2) [OF assms] by (subst log_id_loop.simps) simp
next
  case (Suc n)
  then have i: "i < length es" by simp
  have d: "drop i es = es ! i # drop (Suc i) es" using i by (simp add: Cons_nth_drop_Suc)
  show ?case
  proof (cases "length acc \<ge> k")
    case True
    then show ?thesis using read_next(1) [OF assms i] Suc.prems(2) by (subst log_id_loop.simps) simp
  next
    case False
    let ?acc = "acc @ [(entry_id (es ! i), entry_data (es ! i))]"
    have "k - length acc = Suc (k - length ?acc)" using False by simp
    moreover have "log_id_loop m d k (Suc i * 20) ?acc = Inr (?acc @ take (k - length ?acc) (map (\<lambda>e. (entry_id e, entry_data e)) (drop (Suc i) es)))"
      by (rule Suc.hyps(1)) (use Suc.hyps(2) i False in auto)
    ultimately show ?thesis using read_next(1) [OF assms i] False d by (subst log_id_loop.simps) (simp add: log_head_id)
  qed
qed

lemma drop_is_filter:
  fixes f :: "'a \<Rightarrow> 'b :: linorder"
  assumes "sorted_wrt (<) (map f xs)" "i < length xs" "k \<le> f (xs ! i)" "\<And>j. \<lbrakk>j < length xs; k \<le> f (xs ! j)\<rbrakk> \<Longrightarrow> f (xs ! i) \<le> f (xs ! j)"
  shows "filter (\<lambda>x. k \<le> f x) xs = drop i xs"
proof -
  have "\<not> k \<le> f (xs ! j)" if "j < i" for j
    using sorted_wrt_nth_less [OF assms(1), of j i] assms(4) [of j] that assms(2) by fastforce
  then have "\<forall>x\<in>set (take i xs). \<not> k \<le> f x" unfolding all_set_conv_all_nth by simp
  then have "filter (\<lambda>x. k \<le> f x) (take i xs) = []" by (simp add: filter_empty_conv)
  moreover have "k \<le> f (xs ! j)" if "i \<le> j" "j < length xs" for j
    using sorted_wrt_nth_less [OF assms(1), of i j] that assms(2,3) by (cases "i = j") auto
  then have "\<forall>x\<in>set (drop i xs). k \<le> f x" unfolding all_set_conv_all_nth by simp
  then have "filter (\<lambda>x. k \<le> f x) (drop i xs) = drop i xs" by (simp add: filter_id_conv)
  ultimately show ?thesis by (metis append_Nil append_take_drop_id filter_append)
qed

lemma least_from_filter:
  assumes "least_from es iid i" "sorted_wrt (<) (map entry_id es)"
  shows "filter (\<lambda>e. iid \<le> entry_id e) es = drop i es"
  using drop_is_filter [OF assms(2), of i iid] assms(1) by (auto simp: least_from_def)

lemma request_list_rep:
  assumes rep: "log_rep base m d es" and small: "small_files d" and strict: "sorted_wrt (<) (map entry_id es)"
  shows "getReqLogIdList m d first max_return needdata =
    (let l = take (unat (min max_return (last_id es))) (filter (\<lambda>e. first \<le> entry_id e) es) in
     Some (Inr (map entry_id l, if needdata then map entry_data l else [])))"
proof -
  have last: "getLastSuccessReqId m = last_id es" using rep by (simp add: getLastSuccessReqId_def log_rep_def)
  show ?thesis
  proof (cases "es \<noteq> [] \<and> first \<le> last_id es")
    case True
    then obtain i where i: "least_from es first i" "getHeadOffset m d first = Some (Inr (Some (entry_id (es ! i), Some (log_head es i, i * 20))))"
      using getHeadOffset_rep(1) [OF rep small, of first] by blast
    then have "i \<le> length es" by (simp add: least_from_def)
    then show ?thesis using i(2) log_id_loop_rep [OF rep small, of i "[]"]
      by (simp add: getReqLogIdList_def last least_from_filter [OF i(1) strict] Let_def take_map comp_def)
  next
    case False
    have "\<not> first \<le> entry_id e" if "e \<in> set es" for e
    proof -
      have "entry_id e \<le> last_id es" using that rep by (cases es rule: rev_cases) (auto simp: log_rep_def last_id_def sorted_append)
      then show ?thesis using False that by (auto simp: not_le)
    qed
    then have "filter (\<lambda>e. first \<le> entry_id e) es = []" by (auto simp: filter_empty_conv)
    then show ?thesis using False getHeadOffset_rep(2) [OF rep small, of first] by (auto simp: getReqLogIdList_def Let_def not_le)
  qed
qed

section \<open>Properties\<close>

text \<open>C3: The request log refines the plain sequence of its requests. After any sequence of preparing, appending, dropping and restarting, while no file has
reached two gigabytes, reading the log by positions yields exactly the requests whose appending succeeded, in their order and with their data, then the end; their
numbers never decrease; the manager knows the number of the last one, and a restart recovers it without changing a file.
\<close>

theorem request_log_refines_sequence:
  assumes "log_run base m d es" "small_files d"
  shows "(\<forall>i<length es. getReqDataByHeadOffset m d (i * 20) = Inr (Some (Suc i * 20, log_head es i, entry_data (es ! i)))) \<and>
    getReqDataByHeadOffset m d (length es * 20) = Inr None \<and> sorted (map entry_id es) \<and> getLastSuccessReqId m = last_id es \<and>
    (\<exists>m'. log_init can_open base d = (Inr (), m', d) \<and> getLastSuccessReqId m' = last_id es \<and> inc_id m' = last_id es + 1 \<and> prepared_req m' = [])"
proof -
  note rep = log_run_rep [OF assms]
  show ?thesis using read_next [OF rep assms(2)] restart_rep [OF rep assms(2), of can_open] rep by (auto simp: log_rep_def getLastSuccessReqId_def)
qed

text \<open>C13: Looking up a request by its number ends, and it returns the data of a request with the least number that is not below the given one, whenever there
is one, and reports that there is none otherwise.
\<close>

theorem request_lookup_by_id:
  assumes "log_run base m d es" "small_files d"
  shows "if es \<noteq> [] \<and> iid \<le> last_id es
    then \<exists>i. least_from es iid i \<and> getReqData m d iid = Some (Inr (Some (entry_id (es ! i), log_head es i, i * 20, entry_data (es ! i))))
    else getReqData m d iid = Some (Inr None)"
proof -
  note rep = log_run_rep [OF assms]
  show ?thesis
  proof (cases "es \<noteq> [] \<and> iid \<le> last_id es")
    case True
    then obtain i where i: "least_from es iid i" "getHeadOffset m d iid = Some (Inr (Some (entry_id (es ! i), Some (log_head es i, i * 20))))"
      using getHeadOffset_rep(1) [OF rep assms(2), of iid] by blast
    then have "i < length es" by (simp add: least_from_def)
    then show ?thesis using i True read_packed [OF rep assms(2)] by (auto simp: getReqData_def)
  next
    case False
    then have "es = [] \<or> last_id es < iid" by auto
    then show ?thesis unfolding if_not_P [OF False] using getHeadOffset_rep(2) [OF rep assms(2), of iid] by (simp add: getReqData_def)
  qed
qed

text \<open>When no number was used twice, the list of requests that a replica asks for is the list of all requests from the given number on, up to the
limit, with their data if wanted.
\<close>

theorem request_list_from_id:
  assumes "log_run base m d es" "small_files d" "sorted_wrt (<) (map entry_id es)"
  shows "getReqLogIdList m d first max_return needdata =
    (let l = take (unat (min max_return (last_id es))) (filter (\<lambda>e. first \<le> entry_id e) es) in
     Some (Inr (map entry_id l, if needdata then map entry_data l else [])))"
  by (rule request_list_rep [OF log_run_rep [OF assms(1,2)] assms(2,3)])

text \<open>C33: A primary can always log its next request: when no request is prepared, the counter has not fallen behind the last number and the
files can be opened, preparing a request gives it the number of the counter, appending it succeeds, and after it was dropped from the prepared requests the log is
the former log with the request at its end.
\<close>

theorem next_request_is_logged:
  assumes "log_run base m d es" "small_files d" "prepared_req m = []" "last_writed_id m \<le> inc_id m" "\<forall>p. can_open p"
  shows "\<exists>r' m1 m2 d2. prepareReqLog r True m = (True, r', m1) \<and> cr_inc_id r' = inc_id m \<and> appendReqData can_open packed m1 d = (True, m2, d2) \<and>
    log_run base (delPreparedReqLog m2) d2 (es @ [(inc_id m, cr_reqtype r, packed)]) \<and> getLastSuccessReqId (delPreparedReqLog m2) = inc_id m"
proof -
  let ?r = "r\<lparr>cr_inc_id := inc_id m\<rparr>" and ?m1 = "m\<lparr>inc_id := inc_id m + 1, prepared_req := [r\<lparr>cr_inc_id := inc_id m\<rparr>]\<rparr>"
  have p: "prepareReqLog r True m = (True, ?r, ?m1)" using assms(3) by (simp add: prepareReqLog_def Let_def)
  note run1 = log_run.Prepare [OF assms(1) p] note rep = log_run_rep [OF run1 assms(2)]
  have dir: "base \<in> ld_dirs d" "base_path ?m1 = base" using rep by (simp_all add: log_rep_def)
  obtain ok m2 d2 where a: "appendReqData can_open packed ?m1 d = (ok, m2, d2)" by (cases "appendReqData can_open packed ?m1 d") auto
  have ok: "ok \<and> last_writed_id m2 = inc_id m" using a assms(4,5) dir by (auto simp: appendReqData_def Let_def open_app_def split: if_splits)
  have "log_run base m2 d2 (es @ [(cr_inc_id ?r, cr_reqtype ?r, packed)])"
    by (rule log_run.Append [OF run1]) (use a ok in \<open>auto simp: getPreparedReqLog_def\<close>)
  then have "log_run base (delPreparedReqLog m2) d2 (es @ [(inc_id m, cr_reqtype r, packed)])" using log_run.Drop by fastforce
  moreover have "getLastSuccessReqId (delPreparedReqLog m2) = inc_id m" using ok by (simp add: getLastSuccessReqId_def delPreparedReqLog_def)
  ultimately show ?thesis using p a ok by auto
qed


section \<open>Witnesses\<close>

text \<open>A log with one request: it was created, the request was prepared, appended and dropped.\<close>

definition no_disk :: log_disk where
  "no_disk = \<lparr>ld_dirs = {}, ld_files = (\<lambda>_. None)\<rparr>"

definition new_mgr :: req_log_mgr where
  "new_mgr = \<lparr>base_path = ''log'', inc_id = 1, last_writed_id = 0, prepared_req = []\<rparr>"

definition new_disk :: log_disk where
  "new_disk = \<lparr>ld_dirs = {''log''}, ld_files = [head_path ''log'' \<mapsto> []]\<rparr>"

definition one_mgr :: req_log_mgr where
  "one_mgr = new_mgr\<lparr>inc_id := 2, last_writed_id := 1\<rparr>"

definition log_disk_of :: "u32 \<Rightarrow> u8 list \<Rightarrow> log_disk" where
  "log_disk_of ty dat = write_app (head_path ''log'') (head_bytes (head_after [] (1, ty, dat))) (write_app (data_path ''log'' 0) dat
     (new_disk\<lparr>ld_files := (ld_files new_disk)(data_path ''log'' 0 \<mapsto> [])\<rparr>))"

definition one_disk :: log_disk where
  "one_disk = log_disk_of 7 [5, 6]"

lemma new_run: "log_run ''log'' new_mgr new_disk []"
proof (rule log_run.Create)
  show "log_init (\<lambda>_. True) ''log'' no_disk = (Inr (), new_mgr, new_disk)"
    by (simp add: log_init_def loadLastData_def no_disk_def open_app_def new_mgr_def new_disk_def head_log_path_eq)
qed (simp_all add: no_disk_def)

lemma logged_run: "log_run ''log'' one_mgr (log_disk_of ty dat) [(1, ty, dat)]"
proof -
  let ?r = "\<lparr>cr_inc_id = 1, cr_reqtype = ty, cr_json = []\<rparr>"
  let ?m = "new_mgr\<lparr>inc_id := 2, prepared_req := [?r]\<rparr>"
  have "prepareReqLog (?r\<lparr>cr_inc_id := 0\<rparr>) True new_mgr = (True, ?r, ?m)" by (simp add: prepareReqLog_def new_mgr_def Let_def)
  from log_run.Prepare [OF new_run this] have p: "log_run ''log'' ?m new_disk []" .
  have "appendReqData (\<lambda>_. True) dat ?m new_disk = (True, ?m\<lparr>last_writed_id := 1\<rparr>, log_disk_of ty dat)"
    by (simp add: appendReqData_def Let_def new_mgr_def open_app_def new_disk_def getDataPath_eq head_log_path_eq file_no_def data_path_not_head data_path_not_head [symmetric]
        log_disk_of_def head_after_def data_of_def file_bytes_def)
  from log_run.Append [OF p this, of ?r] have "log_run ''log'' (?m\<lparr>last_writed_id := 1\<rparr>) (log_disk_of ty dat) ([] @ [(1, ty, dat)])"
    by (simp add: getPreparedReqLog_def)
  from log_run.Drop [OF this] show ?thesis by (simp add: delPreparedReqLog_def one_mgr_def new_mgr_def)
qed

lemma one_run: "log_run ''log'' one_mgr one_disk [(1, 7, [5, 6])]"
  unfolding one_disk_def by (rule logged_run)

lemma small_logged: "length dat < 2 ^ 31 \<Longrightarrow> small_files (log_disk_of ty dat)"
  by (auto simp: small_files_def log_disk_of_def write_app_files new_disk_def file_bytes_def data_path_not_head data_path_not_head [symmetric])

lemma small_samples: "small_files new_disk" "small_files one_disk"
proof -
  show "small_files new_disk" by (auto simp: small_files_def new_disk_def file_bytes_def)
  show "small_files one_disk" unfolding one_disk_def by (rule small_logged) simp
qed

theorem request_log_refines_sequence_witness:
  "getReqDataByHeadOffset one_mgr one_disk 0 = Inr (Some (20, log_head [(1, 7, [5, 6])] 0, [5, 6])) \<and> getReqDataByHeadOffset one_mgr one_disk 20 = Inr None \<and>
   (\<exists>m'. log_init (\<lambda>_. True) ''log'' one_disk = (Inr (), m', one_disk) \<and> getLastSuccessReqId m' = 1 \<and> inc_id m' = 2)"
  using request_log_refines_sequence [OF one_run small_samples(2), of "\<lambda>_. True"] by (auto simp: last_id_def)

theorem request_lookup_by_id_witness:
  "getReqData one_mgr one_disk 0 = Some (Inr (Some (1, log_head [(1, 7, [5, 6])] 0, 0, [5, 6]))) \<and> getReqData one_mgr one_disk 2 = Some (Inr None)"
  using request_lookup_by_id [OF one_run small_samples(2), of 0] request_lookup_by_id [OF one_run small_samples(2), of 2]
  by (auto simp: last_id_def least_from_def word_le_nat_alt)

theorem request_list_from_id_witness:
  "getReqLogIdList one_mgr one_disk 0 10 True = Some (Inr ([1], [[5, 6]]))"
proof -
  have "sorted_wrt (<) (map entry_id [(1, 7, [5, 6])])" by simp
  from request_list_from_id [OF one_run small_samples(2) this, of 0 10 True] show ?thesis by (simp add: last_id_def Let_def)
qed

theorem next_request_is_logged_witness:
  "\<exists>r' m1 m2 d2. prepareReqLog \<lparr>cr_inc_id = 0, cr_reqtype = 9, cr_json = []\<rparr> True one_mgr = (True, r', m1) \<and> cr_inc_id r' = 2 \<and>
     appendReqData (\<lambda>_. True) [4] m1 one_disk = (True, m2, d2) \<and>
     log_run ''log'' (delPreparedReqLog m2) d2 ([(1, 7, [5, 6])] @ [(2, 9, [4])]) \<and> getLastSuccessReqId (delPreparedReqLog m2) = 2"
proof -
  have "prepared_req one_mgr = []" "last_writed_id one_mgr \<le> inc_id one_mgr" "\<forall>p :: string. (\<lambda>_. True) p" "inc_id one_mgr = 2"
    by (simp_all add: one_mgr_def new_mgr_def)
  then show ?thesis using next_request_is_logged [OF one_run small_samples(2), of "\<lambda>_. True" "\<lparr>cr_inc_id = 0, cr_reqtype = 9, cr_json = []\<rparr>" "[4]"] by simp
qed


end
