(* ===== verification/Req_Data.thy ===== *)
theory Req_Data
  imports Req_Log_Run
begin

text \<open>
  The data of a logged request and its packed form (core/node-manager/RequestLog.h). Every class of requests adds fields to the common data; it packs the
  common data and then its fields in their order, and reads them in the same order. MessagePack is not part of the sources: \<open>msgpack\<close> has, for every
  type, the function that packs a value and the function that takes the next object and converts it, with the bytes that remain (\<open>None\<close> when there is no next object or the
  conversion throws: the callers treat both alike).
\<close>

section \<open>MessagePack\<close>

type_synonym i64 = "64 word"

record msgpack =
  pack_u32 :: "u32 \<Rightarrow> u8 list"
  pack_i64 :: "i64 \<Rightarrow> u8 list"
  pack_str :: "string \<Rightarrow> u8 list"
  pack_strs :: "string list \<Rightarrow> u8 list"
  pack_u32s :: "u32 list \<Rightarrow> u8 list"
  pack_map :: "(string \<times> string) list \<Rightarrow> u8 list"
  next_u32 :: "u8 list \<Rightarrow> (u32 \<times> u8 list) option"
  next_i64 :: "u8 list \<Rightarrow> (i64 \<times> u8 list) option"
  next_str :: "u8 list \<Rightarrow> (string \<times> u8 list) option"
  next_strs :: "u8 list \<Rightarrow> (string list \<times> u8 list) option"
  next_u32s :: "u8 list \<Rightarrow> (u32 list \<times> u8 list) option"
  next_map :: "u8 list \<Rightarrow> ((string \<times> string) list \<times> u8 list) option"

text \<open>
  What is packed is read back, for the values that the format can hold: strings and arrays are shorter than 4 GB, and a \<open>std::map\<close> has its keys once and in the order of
  their bytes.
\<close>

definition short :: "'a list \<Rightarrow> bool" where
  "short v \<longleftrightarrow> length v < 2 ^ 32"

definition map_fits :: "(string \<times> string) list \<Rightarrow> bool" where
  "map_fits v \<longleftrightarrow> short v \<and> list_all (\<lambda>(k, x). short k \<and> short x) v \<and> sorted_wrt (\<lambda>k k'. (k, k') \<in> lexord {(a, b). (of_char a :: nat) < of_char b}) (map fst v)"

definition faithful_msgpack :: "msgpack \<Rightarrow> bool" where
  "faithful_msgpack mp \<longleftrightarrow>
     (\<forall>v rest. next_u32 mp (pack_u32 mp v @ rest) = Some (v, rest)) \<and>
     (\<forall>v rest. next_i64 mp (pack_i64 mp v @ rest) = Some (v, rest)) \<and>
     (\<forall>v rest. short v \<longrightarrow> next_str mp (pack_str mp v @ rest) = Some (v, rest)) \<and>
     (\<forall>v rest. short v \<and> list_all short v \<longrightarrow> next_strs mp (pack_strs mp v @ rest) = Some (v, rest)) \<and>
     (\<forall>v rest. short v \<longrightarrow> next_u32s mp (pack_u32s mp v @ rest) = Some (v, rest)) \<and>
     (\<forall>v rest. map_fits v \<longrightarrow> next_map mp (pack_map mp v @ rest) = Some (v, rest))"

section \<open>Classes of requests\<close>

datatype req_field = Int64_Field i64 | Strings_Field "string list" | Numbers_Field "u32 list" | Map_Field "(string \<times> string) list"

record req_data =
  rd_common :: common_req
  rd_fields :: "req_field list"

definition new_req :: "u32 \<Rightarrow> req_field list \<Rightarrow> req_data" where
  "new_req reqtype fs = \<lparr>rd_common = common_req_init\<lparr>cr_reqtype := reqtype\<rparr>, rd_fields = fs\<rparr>"

definition CommonReqData :: req_data where "CommonReqData = new_req Req_None []"
definition NoAdditionReqLog :: req_data where "NoAdditionReqLog = new_req Req_NoAdditionDataReq []"
definition NoAdditionNeedBackupReqLog :: req_data where "NoAdditionNeedBackupReqLog = new_req Req_NoAdditionData_NeedBackup_Req []"
definition NoAdditionNoRollbackReqLog :: req_data where "NoAdditionNoRollbackReqLog = new_req Req_NoAdditionDataNoRollback []"

text \<open>\<open>cron_time\<close>\<close>

definition CronJobReqLog :: req_data where "CronJobReqLog = new_req Req_CronJob [Int64_Field 0]"

text \<open>\<open>timestamp\<close>\<close>

definition TimestampReqLog :: req_data where "TimestampReqLog = new_req Req_WithTimestamp [Int64_Field 0]"
definition CreateOrUpdateDocReqLog :: req_data where "CreateOrUpdateDocReqLog = new_req Req_CreateOrUpdate_Doc [Int64_Field 0]"

text \<open>\<open>scd_list\<close>, \<open>timestamp\<close>\<close>

definition IndexReqLog :: req_data where "IndexReqLog = new_req Req_Index [Strings_Field [], Int64_Field 0]"

text \<open>\<open>str_uuid_list\<close>\<close>

definition ProductReqLog :: req_data where "ProductReqLog = new_req Req_Product [Strings_Field []]"

text \<open>\<open>config_file_list\<close>\<close>

definition UpdateConfigReqLog :: req_data where "UpdateConfigReqLog = new_req Req_UpdateConfig [Map_Field []]"

text \<open>\<open>oldItems\<close>, \<open>newItems\<close>\<close>

definition UpdateRecCallbackReqLog :: req_data where "UpdateRecCallbackReqLog = new_req Req_Callback [Numbers_Field [], Numbers_Field []]"
definition BuildPurchaseSimCallbackReqLog :: req_data where "BuildPurchaseSimCallbackReqLog = new_req Req_Callback []"

text \<open>\<open>user_scd_list\<close>, \<open>order_scd_list\<close>, \<open>timestamp\<close>\<close>

definition RecommendIndexReqLog :: req_data where "RecommendIndexReqLog = new_req Req_Recommend_Index [Strings_Field [], Strings_Field [], Int64_Field 0]"

text \<open>\<open>cron_time\<close>, which the constructor leaves undefined (an argument), and \<open>replayed_id_list\<close>\<close>

definition RebuildCronTaskReqLog :: "i64 \<Rightarrow> req_data" where "RebuildCronTaskReqLog cron_time = new_req Req_CronJob [Int64_Field cron_time, Numbers_Field []]"

text \<open>\<open>scd_list\<close>, \<open>timestamp\<close>, \<open>replayed_id_list\<close>\<close>

definition RebuildFromSCDReqLog :: req_data where "RebuildFromSCDReqLog = new_req Req_Rebuild_FromSCD [Strings_Field [], Int64_Field 0, Numbers_Field []]"

section \<open>Packing\<close>

definition pack_common :: "msgpack \<Rightarrow> common_req \<Rightarrow> u8 list" where
  "pack_common mp c = pack_u32 mp (cr_inc_id c) @ pack_u32 mp (cr_reqtype c) @ pack_str mp (cr_json c)"

fun pack_field :: "msgpack \<Rightarrow> req_field \<Rightarrow> u8 list" where
  "pack_field mp (Int64_Field v) = pack_i64 mp v"
| "pack_field mp (Strings_Field v) = pack_strs mp v"
| "pack_field mp (Numbers_Field v) = pack_u32s mp v"
| "pack_field mp (Map_Field v) = pack_map mp v"

definition packReqLogData :: "msgpack \<Rightarrow> req_data \<Rightarrow> u8 list" where
  "packReqLogData mp r = pack_common mp (rd_common r) @ concat (map (pack_field mp) (rd_fields r))"

text \<open>Reading stops at the first failure; the fields before it have their new values.\<close>

definition unpack_common :: "msgpack \<Rightarrow> common_req \<Rightarrow> u8 list \<Rightarrow> bool \<times> common_req \<times> u8 list" where
  "unpack_common mp c b =
     (case next_u32 mp b of
        None \<Rightarrow> (False, c, b)
      | Some (v1, b1) \<Rightarrow> (case next_u32 mp b1 of
          None \<Rightarrow> (False, c\<lparr>cr_inc_id := v1\<rparr>, b1)
        | Some (v2, b2) \<Rightarrow> (case next_str mp b2 of
            None \<Rightarrow> (False, c\<lparr>cr_inc_id := v1, cr_reqtype := v2\<rparr>, b2)
          | Some (v3, b3) \<Rightarrow> (True, \<lparr>cr_inc_id = v1, cr_reqtype = v2, cr_json = v3\<rparr>, b3))))"

fun unpack_field :: "msgpack \<Rightarrow> req_field \<Rightarrow> u8 list \<Rightarrow> (req_field \<times> u8 list) option" where
  "unpack_field mp (Int64_Field _) b = map_option (apfst Int64_Field) (next_i64 mp b)"
| "unpack_field mp (Strings_Field _) b = map_option (apfst Strings_Field) (next_strs mp b)"
| "unpack_field mp (Numbers_Field _) b = map_option (apfst Numbers_Field) (next_u32s mp b)"
| "unpack_field mp (Map_Field _) b = map_option (apfst Map_Field) (next_map mp b)"

fun unpack_fields :: "msgpack \<Rightarrow> req_field list \<Rightarrow> u8 list \<Rightarrow> bool \<times> req_field list" where
  "unpack_fields mp [] b = (True, [])"
| "unpack_fields mp (f # fs) b =
     (case unpack_field mp f b of
        None \<Rightarrow> (False, f # fs)
      | Some (f', b') \<Rightarrow> (let (ok, fs') = unpack_fields mp fs b' in (ok, f' # fs')))"

definition unpackReqLogData :: "msgpack \<Rightarrow> u8 list \<Rightarrow> req_data \<Rightarrow> bool \<times> req_data" where
  "unpackReqLogData mp packed r =
     (case unpack_common mp (rd_common r) packed of
        (False, c, b) \<Rightarrow> (False, r\<lparr>rd_common := c\<rparr>)
      | (True, c, b) \<Rightarrow> (let (ok, fs) = unpack_fields mp (rd_fields r) b in (ok, \<lparr>rd_common = c, rd_fields = fs\<rparr>)))"

definition replaceCommonReqData :: "msgpack \<Rightarrow> common_req \<Rightarrow> common_req \<Rightarrow> u8 list \<Rightarrow> u8 list" where
  "replaceCommonReqData mp old_common new_common packed = pack_common mp new_common @ drop (length (pack_common mp old_common)) packed"

definition appendTypedReqLog :: "msgpack \<Rightarrow> (string \<Rightarrow> bool) \<Rightarrow> req_data \<Rightarrow> req_log_mgr \<Rightarrow> log_disk \<Rightarrow> bool \<times> req_log_mgr \<times> log_disk" where
  "appendTypedReqLog mp can_open r m d = appendReqData can_open (packReqLogData mp r) m d"

section \<open>Reading back\<close>

text \<open>Fields of the same types.\<close>

fun same_field :: "req_field \<Rightarrow> req_field \<Rightarrow> bool" where
  "same_field (Int64_Field _) (Int64_Field _) = True"
| "same_field (Strings_Field _) (Strings_Field _) = True"
| "same_field (Numbers_Field _) (Numbers_Field _) = True"
| "same_field (Map_Field _) (Map_Field _) = True"
| "same_field _ _ = False"

definition same_class :: "req_data \<Rightarrow> req_data \<Rightarrow> bool" where
  "same_class r r' \<longleftrightarrow> list_all2 same_field (rd_fields r) (rd_fields r')"

text \<open>Requests that MessagePack can hold.\<close>

fun field_fits :: "req_field \<Rightarrow> bool" where
  "field_fits (Int64_Field v) = True"
| "field_fits (Strings_Field v) = (short v \<and> list_all short v)"
| "field_fits (Numbers_Field v) = short v"
| "field_fits (Map_Field v) = map_fits v"

definition request_fits :: "req_data \<Rightarrow> bool" where
  "request_fits r \<longleftrightarrow> short (cr_json (rd_common r)) \<and> list_all field_fits (rd_fields r)"

lemma unpack_common_pack: "faithful_msgpack mp \<Longrightarrow> short (cr_json c') \<Longrightarrow> unpack_common mp c (pack_common mp c' @ rest) = (True, c', rest)"
  by (simp add: unpack_common_def pack_common_def faithful_msgpack_def)

lemma unpack_field_pack: "faithful_msgpack mp \<Longrightarrow> same_field f f' \<Longrightarrow> field_fits f' \<Longrightarrow> unpack_field mp f (pack_field mp f' @ rest) = Some (f', rest)"
  by (cases "(f, f')" rule: same_field.cases) (simp_all add: faithful_msgpack_def)

lemma unpack_fields_pack:
  assumes "faithful_msgpack mp"
  shows "list_all2 same_field fs fs' \<Longrightarrow> list_all field_fits fs' \<Longrightarrow> unpack_fields mp fs (concat (map (pack_field mp) fs') @ rest) = (True, fs')"
  by (induction fs fs' rule: list_all2_induct) (simp_all add: unpack_field_pack [OF assms])

lemma unpack_packed:
  assumes "faithful_msgpack mp" "list_all2 same_field (rd_fields r) fs" "list_all field_fits fs" "short (cr_json c)"
  shows "unpackReqLogData mp (pack_common mp c @ concat (map (pack_field mp) fs) @ rest) r = (True, \<lparr>rd_common = c, rd_fields = fs\<rparr>)"
  unfolding unpackReqLogData_def unpack_common_pack [OF assms(1,4)] using unpack_fields_pack [OF assms(1-3)] by simp

text \<open>The common class reads the common data of every packed request.\<close>

lemma unpack_common_data:
  assumes "faithful_msgpack mp" "short (cr_json (rd_common r))"
  shows "unpackReqLogData mp (packReqLogData mp r) CommonReqData = (True, \<lparr>rd_common = rd_common r, rd_fields = []\<rparr>)"
  using unpack_packed [OF assms(1) _ _ assms(2), of CommonReqData "[]" "concat (map (pack_field mp) (rd_fields r))"]
  by (simp add: packReqLogData_def CommonReqData_def new_req_def)

section \<open>Property\<close>


section \<open>Witness\<close>

text \<open>A packer that writes numbers with a fixed number of bytes, and lists with a byte before every element and a byte at the end.\<close>

fun list_bytes :: "('a \<Rightarrow> u8 list) \<Rightarrow> 'a list \<Rightarrow> u8 list" where
  "list_bytes f [] = [0]"
| "list_bytes f (x # xs) = 1 # f x @ list_bytes f xs"

fun read_list :: "nat \<Rightarrow> (u8 list \<Rightarrow> ('a \<times> u8 list) option) \<Rightarrow> u8 list \<Rightarrow> ('a list \<times> u8 list) option" where
  "read_list (Suc n) g (x # b) = (if x = 0 then Some ([], b) else Option.bind (g b) (\<lambda>(v, b'). map_option (apfst ((#) v)) (read_list n g b')))"
| "read_list _ _ _ = None"

lemma read_list_bytes:
  assumes "\<And>v rest. g (f v @ rest) = Some (v, rest)"
  shows "length xs < n \<Longrightarrow> read_list n g (list_bytes f xs @ rest) = Some (xs, rest)"
proof (induction xs arbitrary: n)
  case Nil
  then show ?case by (cases n) simp_all
next
  case (Cons x xs)
  then show ?case by (cases n) (simp_all add: assms)
qed

lemma length_list_bytes: "length xs < length (list_bytes f xs)"
  by (induction xs) simp_all

definition read_all :: "(u8 list \<Rightarrow> ('a \<times> u8 list) option) \<Rightarrow> u8 list \<Rightarrow> ('a list \<times> u8 list) option" where
  "read_all g b = read_list (length b) g b"

lemma read_all_bytes:
  assumes "\<And>v rest. g (f v @ rest) = Some (v, rest)"
  shows "read_all g (list_bytes f xs @ rest) = Some (xs, rest)"
  unfolding read_all_def using read_list_bytes [of g f, OF assms] length_list_bytes [of xs f] by (metis length_append trans_less_add1)

definition read_u32 :: "u8 list \<Rightarrow> (u32 \<times> u8 list) option" where
  "read_u32 b = (case b of b0 # b1 # b2 # b3 # rest \<Rightarrow> Some (bytes_u32 b0 b1 b2 b3, rest) | _ \<Rightarrow> None)"

definition char_bytes :: "char \<Rightarrow> u8 list" where
  "char_bytes c = [of_nat (of_char c)]"

definition read_char :: "u8 list \<Rightarrow> (char \<times> u8 list) option" where
  "read_char b = (case b of x # rest \<Rightarrow> Some (char_of (unat x), rest) | [] \<Rightarrow> None)"

definition i64_bytes :: "i64 \<Rightarrow> u8 list" where
  "i64_bytes x = u32_bytes (ucast x) @ u32_bytes (ucast (drop_bit 32 x))"

definition read_i64 :: "u8 list \<Rightarrow> (i64 \<times> u8 list) option" where
  "read_i64 b = Option.bind (read_u32 b) (\<lambda>(lo, b'). map_option (apfst (\<lambda>hi. ucast lo OR push_bit 32 (ucast hi))) (read_u32 b'))"

definition pair_bytes :: "string \<times> string \<Rightarrow> u8 list" where
  "pair_bytes = (\<lambda>(k, v). list_bytes char_bytes k @ list_bytes char_bytes v)"

definition read_pair :: "u8 list \<Rightarrow> ((string \<times> string) \<times> u8 list) option" where
  "read_pair b = Option.bind (read_all read_char b) (\<lambda>(k, b'). map_option (apfst (Pair k)) (read_all read_char b'))"

definition plain_msgpack :: msgpack where
  "plain_msgpack = \<lparr>pack_u32 = u32_bytes, pack_i64 = i64_bytes, pack_str = list_bytes char_bytes, pack_strs = list_bytes (list_bytes char_bytes),
     pack_u32s = list_bytes u32_bytes, pack_map = list_bytes pair_bytes, next_u32 = read_u32, next_i64 = read_i64, next_str = read_all read_char,
     next_strs = read_all (read_all read_char), next_u32s = read_all read_u32, next_map = read_all read_pair\<rparr>"

lemma read_u32_bytes: "read_u32 (u32_bytes v @ rest) = Some (v, rest)"
  by (simp add: read_u32_def u32_bytes_def bytes_of_u32)

lemma read_i64_bytes: "read_i64 (i64_bytes v @ rest) = Some (v, rest)"
proof -
  have "ucast (ucast v :: u32) OR push_bit 32 (ucast (ucast (drop_bit 32 v) :: u32)) = v"
  proof (rule bit_word_eqI)
    fix n assume "n < LENGTH(64)"
    then show "bit (ucast (ucast v :: u32) OR push_bit 32 (ucast (ucast (drop_bit 32 v) :: u32)) :: i64) n = bit v n"
      by (cases "n < 32") (auto simp: bit_simps)
  qed
  then show ?thesis by (simp add: read_i64_def i64_bytes_def read_u32_bytes)
qed

lemma read_char_bytes: "read_char (char_bytes c @ rest) = Some (c, rest)"
proof -
  have "of_char c < (256 :: nat)" by (cases c) (simp add: of_char_def)
  then have "unat (of_nat (of_char c) :: u8) = of_char c" by (simp add: unat_of_nat)
  then show ?thesis by (simp add: read_char_def char_bytes_def)
qed

lemmas read_str_bytes = read_all_bytes [of read_char char_bytes, OF read_char_bytes]

lemma read_pair_bytes: "read_pair (pair_bytes p @ rest) = Some (p, rest)"
  by (cases p) (simp add: read_pair_def pair_bytes_def read_str_bytes)

lemma faithful_plain_msgpack: "faithful_msgpack plain_msgpack"
  unfolding faithful_msgpack_def plain_msgpack_def
  by (simp add: read_u32_bytes read_i64_bytes read_str_bytes read_all_bytes [of "read_all read_char", OF read_str_bytes]
      read_all_bytes [of read_u32, OF read_u32_bytes] read_all_bytes [of read_pair, OF read_pair_bytes])


end
