(* ===== verification/Recovery_Log.thy ===== *)
theory Recovery_Log
  imports Req_Log_Read Req_Data
begin

text \<open>
  The parts of the recovery that work on the request log (core/node-manager/RecoveryChecker.cpp): doing logged requests again after a rollback, replaying them for
  another collection, and comparing the log of a node with the log of the primary. The handler of requests (DistributeDriver) is the argument \<open>handle\<close>, which works on a
  state of its own; reading and writing of JSON is the argument \<open>js\<close>; the answers of the other nodes are arguments.
\<close>

section \<open>Flags\<close>

text \<open>The rollback file with its number, and whether the file exists that marks a forced exit.\<close>

record recovery =
  rc_rollback :: "u32 option"
  rc_force_exit :: bool

definition setForceExitFlag :: "recovery \<Rightarrow> recovery" where
  "setForceExitFlag rc = rc\<lparr>rc_force_exit := True\<rparr>"

definition clearForceExitFlag :: "recovery \<Rightarrow> recovery" where
  "clearForceExitFlag rc = rc\<lparr>rc_force_exit := False\<rparr>"

definition clearRollbackFlag :: "recovery \<Rightarrow> recovery" where
  "clearRollbackFlag rc = rc\<lparr>rc_rollback := None\<rparr>"

definition forceExit :: "string \<Rightarrow> recovery \<Rightarrow> exn \<times> recovery" where
  "forceExit err rc = (RuntimeError (if err = [] then ''force exit in RecoveryChecker.'' else err), setForceExitFlag rc)"

text \<open>\<open>good\<close>: whether the rollback file can be written.\<close>

definition setRollbackFlag :: "bool \<Rightarrow> u32 \<Rightarrow> recovery \<Rightarrow> bool result \<times> recovery" where
  "setRollbackFlag good iid rc =
     (if rc_rollback rc \<noteq> None then apfst Inl (forceExit ''set rollback flag failed for existed flag.'' rc)
      else if good then (Inr True, rc\<lparr>rc_rollback := Some iid\<rparr>)
      else (Inr False, rc))"

definition isLastNormalExit :: "bool \<Rightarrow> recovery \<Rightarrow> bool" where
  "isLastNormalExit distributed rc \<longleftrightarrow> \<not> distributed \<or> \<not> rc_force_exit rc"

definition isNeedRollback :: "bool \<Rightarrow> bool \<Rightarrow> recovery \<Rightarrow> bool" where
  "isNeedRollback distributed starting_up rc \<longleftrightarrow>
     distributed \<and> (rc_rollback rc \<noteq> None \<or> starting_up \<and> \<not> isLastNormalExit distributed rc)"

section \<open>Doing requests again\<close>

type_synonym 's handler = "u32 \<Rightarrow> string \<Rightarrow> u8 list \<Rightarrow> 's \<Rightarrow> bool \<times> 's"

datatype redo_status = Redo_Done | Redo_Error exn | Redo_Exit string

lemma read_step:
  assumes "getReqDataByHeadOffset m d off = Inr (Some (off', h, packed))"
  shows "off' = off + 20 \<and> off + 20 \<le> length (file_bytes d (head_log_path m))"
proof -
  obtain ifs where f: "ld_files d (head_log_path m) = Some ifs" using assms by (cases "ld_files d (head_log_path m)") (auto simp: getReqDataByHeadOffset_def)
  then have "off + 20 \<le> length ifs" using assms by (auto simp: getReqDataByHeadOffset_def split: if_splits)
  moreover have "off' = off + 20" using assms f
    by (auto simp: getReqDataByHeadOffset_def split: if_splits option.splits) (auto simp: map_sum_def split: sum.splits)
  ultimately show ?thesis using f by (simp add: file_bytes_def)
qed

text \<open>The result of \<open>unpackReqLogData\<close> is not tested.\<close>

function redo_loop :: "msgpack \<Rightarrow> 's handler \<Rightarrow> req_log_mgr \<Rightarrow> log_disk \<Rightarrow> u32 \<Rightarrow> nat \<Rightarrow> 's \<Rightarrow> redo_status \<times> 's" where
  "redo_loop mp handle m d end_id off s =
     (case getReqDataByHeadOffset m d off of
        Inl e \<Rightarrow> (Redo_Error e, s)
      | Inr None \<Rightarrow> (Redo_Done, s)
      | Inr (Some (off', h, packed)) \<Rightarrow>
          if rh_inc_id h \<ge> end_id then (Redo_Done, s)
          else
            let c = rd_common (snd (unpackReqLogData mp packed CommonReqData)) in
            case handle (cr_reqtype c) (cr_json c) packed s of
              (False, s') \<Rightarrow> (Redo_Exit ''handleReqFromLog failed.'', s')
            | (True, s') \<Rightarrow> redo_loop mp handle m d end_id off' s')"
  by pat_completeness auto

termination
  by (relation "measure (\<lambda>(mp, handle, m, d, end_id, off, s). length (file_bytes d (head_log_path m)) - off)") (auto dest!: read_step)

declare redo_loop.simps [simp del]

definition remove_all :: "string \<Rightarrow> log_disk \<Rightarrow> log_disk" where
  "remove_all base d = d\<lparr>ld_dirs := ld_dirs d - {base}, ld_files := (\<lambda>p. if take (length base + 1) p = base @ ''/'' then None else ld_files d p)\<rparr>"

text \<open>An exception, and also the one of \<open>forceExit\<close>, is caught at the end of the function. \<open>None\<close>: a read beyond the end of the head file.\<close>

definition redoLog :: "msgpack \<Rightarrow> 's handler \<Rightarrow> req_log_mgr \<Rightarrow> log_disk \<Rightarrow> u32 \<Rightarrow> u32 \<Rightarrow> recovery \<Rightarrow> 's \<Rightarrow> (bool \<times> recovery \<times> log_disk \<times> 's) option" where
  "redoLog mp handle redolog d start_id end_id rc s =
     map_option (\<lambda>(status, s'). (status = Redo_Done, (case status of Redo_Exit _ \<Rightarrow> setForceExitFlag rc | _ \<Rightarrow> rc), remove_all (base_path redolog) d, s'))
       (if start_id > getLastSuccessReqId redolog then Some (Redo_Exit ''redo start id is larger than last writed id.'', s)
        else Option.bind (getHeadOffset redolog d start_id) (\<lambda>r. Some (case r of
            Inl e \<Rightarrow> (Redo_Error e, s)
          | Inr None \<Rightarrow> (Redo_Exit ''redo get head info failed.'', s)
          | Inr (Some (_, None)) \<Rightarrow> redo_loop mp handle redolog d end_id 0 s
          | Inr (Some (_, Some (h, off))) \<Rightarrow> redo_loop mp handle redolog d end_id off s)))"

section \<open>Replaying requests for another collection\<close>

record 'v json_env =
  js_read :: "string \<Rightarrow> 'v option"
  js_object :: "'v \<Rightarrow> bool"
  js_controller :: "'v \<Rightarrow> string"
  js_action :: "'v \<Rightarrow> string"
  js_collection :: "'v \<Rightarrow> string"
  js_with_collection :: "'v \<Rightarrow> string \<Rightarrow> string"

definition replay_request :: "msgpack \<Rightarrow> 'v json_env \<Rightarrow> 's handler \<Rightarrow> string \<Rightarrow> string \<Rightarrow> u8 list \<Rightarrow> 's \<Rightarrow> bool \<times> 's" where
  "replay_request mp js handle from_col to_col packed s =
     (let (ok, r) = unpackReqLogData mp packed CommonReqData; c = rd_common r in
      if \<not> ok \<or> cr_reqtype c \<in> {Req_UpdateConfig, Req_CronJob, Req_Index, Req_Callback} then (False, s)
      else case js_read js (cr_json c) of
        None \<Rightarrow> (False, s)
      | Some v \<Rightarrow>
          if \<not> js_object js v \<or> \<not> isReplayWriteReq (js_controller js v) (js_action js v) \<or> js_collection js v \<noteq> from_col then (False, s)
          else
            let replay_json = js_with_collection js v to_col
            in handle (cr_reqtype c) replay_json (replaceCommonReqData mp c (c\<lparr>cr_json := replay_json\<rparr>) packed) s)"

text \<open>
  The loop of \<open>replayLog\<close>: \<open>num\<close> is \<open>replayed_num\<close>, \<open>ids\<close> the list of replayed numbers. On a replica the list is read without a test of its length (\<open>None\<close>
  for a read beyond its end). An exception while a request is read goes on with the next one on the primary.
\<close>

function replay_loop :: "msgpack \<Rightarrow> 'v json_env \<Rightarrow> 's handler \<Rightarrow> bool \<Rightarrow> string \<Rightarrow> string \<Rightarrow> req_log_mgr \<Rightarrow> log_disk \<Rightarrow> u32 \<Rightarrow> nat \<Rightarrow> nat \<Rightarrow> u32 list \<Rightarrow> 's \<Rightarrow>
    (nat \<times> u32 list \<times> 's) option" where
  "replay_loop mp js handle is_primary from_col to_col m d end_id off num ids s =
     (case getReqDataByHeadOffset m d off of
        Inl e \<Rightarrow>
          if is_primary \<and> off + 20 \<le> length (file_bytes d (head_log_path m)) then replay_loop mp js handle is_primary from_col to_col m d end_id (off + 20) num ids s
          else if is_primary then None else Some (num, ids, s)
      | Inr None \<Rightarrow> Some (num, ids, s)
      | Inr (Some (off', h, packed)) \<Rightarrow>
          if rh_inc_id h > end_id then Some (num, ids, s)
          else if \<not> is_primary \<and> vec_at ids num = None then None
          else if \<not> is_primary \<and> vec_at ids num \<noteq> Some (rh_inc_id h) then replay_loop mp js handle is_primary from_col to_col m d end_id off' num ids s
          else (case replay_request mp js handle from_col to_col packed s of
              (True, s') \<Rightarrow> replay_loop mp js handle is_primary from_col to_col m d end_id off' (Suc num) (if is_primary then ids @ [rh_inc_id h] else ids) s'
            | (False, s') \<Rightarrow> if is_primary then replay_loop mp js handle is_primary from_col to_col m d end_id off' num ids s' else Some (num, ids, s')))"
  by pat_completeness auto

termination
  by (relation "measure (\<lambda>(mp, js, handle, is_primary, from_col, to_col, m, d, end_id, off, num, ids, s). length (file_bytes d (head_log_path m)) - off)")
    (auto dest!: read_step)

declare replay_loop.simps [simp del]

definition replayLog :: "msgpack \<Rightarrow> 'v json_env \<Rightarrow> 's handler \<Rightarrow> bool \<Rightarrow> string \<Rightarrow> string \<Rightarrow> req_log_mgr \<Rightarrow> log_disk \<Rightarrow> u32 list \<Rightarrow> recovery \<Rightarrow> 's \<Rightarrow>
    (u32 list result \<times> recovery \<times> 's) option" where
  "replayLog mp js handle is_primary from_col to_col m d ids rc s =
     Option.bind (getHeadOffset m d 0) (\<lambda>r. case r of
         Inl e \<Rightarrow> Some (Inl e, rc, s)
       | Inr None \<Rightarrow> Some (Inr ids, rc, s)
       | Inr (Some (_, found)) \<Rightarrow>
           if \<not> is_primary \<and> ids = [] then Some (Inr ids, rc, s)
           else map_option (\<lambda>(num, ids', s').
               if \<not> is_primary \<and> num \<noteq> length ids' then
                 let (e, rc') = forceExit ''Replay Log Failed!'' rc in (Inl e, rc', s')
               else (Inr ids', rc, s'))
             (replay_loop mp js handle is_primary from_col to_col m d (getLastSuccessReqId m) (case found of None \<Rightarrow> 0 | Some (h, off) \<Rightarrow> off) 0 ids s))"

section \<open>Comparison with the primary\<close>

text \<open>One round of questions to the other nodes: the log of the primary from a number on, or a failure.\<close>

record answer =
  an_ready_before :: bool
  an_newest :: "u32 \<Rightarrow> u8 list list option"
  an_connected :: bool
  an_other_primary :: bool
  an_ready_after :: bool

text \<open>The loop that compares the two lists; \<open>first\<close> tells whether \<open>i\<close> is 0.\<close>

fun compare_logs :: "bool \<Rightarrow> u32 \<Rightarrow> (u32 \<times> u8 list) list \<Rightarrow> u8 list list \<Rightarrow> u32" where
  "compare_logs first check_start ((iid, l) # ls) (p # ps) =
     (if l \<noteq> p then if first then iid - 1 else check_start else compare_logs False iid ls ps)"
| "compare_logs first check_start _ _ = check_start"

text \<open>The loop waits and asks again when it gets no answer; \<open>None\<close>: the answers are used up, or a read beyond the end of the head file.\<close>

fun check_loop :: "bool \<Rightarrow> req_log_mgr \<Rightarrow> log_disk \<Rightarrow> u32 \<Rightarrow> recovery \<Rightarrow> answer list \<Rightarrow> u32 \<Rightarrow> (bool result \<times> recovery) option" where
  "check_loop good m d newest rc [] check_start = None"
| "check_loop good m d newest rc (a # as) check_start =
     (case an_newest a check_start of
        None \<Rightarrow>
          if \<not> an_connected a then Some (Inr False, rc)
          else if \<not> an_other_primary a then Some (Inr True, rc)
          else check_loop good m d newest rc as check_start
      | Some primary \<Rightarrow>
          Option.bind (getReqLogIdList m d check_start (of_nat (length primary)) True) (\<lambda>r. case r of
              Inl e \<Rightarrow> Some (Inl e, rc)
            | Inr (ids, datas) \<Rightarrow>
                let cs = compare_logs True check_start (zip ids datas) primary in
                if min (length datas) (length primary) = 0 \<and> cs \<le> newest then
                  if \<not> an_ready_before a \<or> \<not> an_ready_after a then check_loop good m d newest rc as cs
                  else Some (apfst (map_sum id (\<lambda>_. False)) (setRollbackFlag good cs rc))
                else if cs \<ge> newest then Some (Inr True, rc)
                else if ids = [] \<or> cs \<noteq> last ids then Some (apfst (map_sum id (\<lambda>_. False)) (setRollbackFlag good (cs + 1) rc))
                else check_loop good m d newest rc as (cs + 1)))"

definition checkIfLogForward :: "bool \<Rightarrow> bool \<Rightarrow> req_log_mgr \<Rightarrow> log_disk \<Rightarrow> recovery \<Rightarrow> answer list \<Rightarrow> (bool result \<times> recovery) option" where
  "checkIfLogForward good is_primary m d rc as =
     (let newest = getLastSuccessReqId m in
      if newest = 0 \<or> is_primary then Some (Inr True, rc) else check_loop good m d newest rc as 0)"

text \<open>
  \<open>onRecoverCheckLog\<close> with the number of the last write in ZooKeeper; the second result is that number after the call.
\<close>

definition onRecoverCheckLog :: "bool \<Rightarrow> bool \<Rightarrow> bool \<Rightarrow> req_log_mgr \<Rightarrow> log_disk \<Rightarrow> recovery \<Rightarrow> answer list \<Rightarrow> u32 \<Rightarrow> (bool result \<times> u32 \<times> recovery) option" where
  "onRecoverCheckLog good async is_primary m d rc as lastid =
     (if async then
        map_option (\<lambda>(r, rc'). (r, lastid, if r = Inr True then setForceExitFlag rc' else rc')) (checkIfLogForward good is_primary m d rc as)
      else
        let mine = getLastSuccessReqId m;
            (ret, last') = (if lastid = 0 \<or> lastid = mine then (True, lastid)
              else if lastid > mine then (False, lastid)
              else if lastid + 1 = mine then (True, mine)
              else (False, lastid))
        in Some (Inr ret, last', if ret then setForceExitFlag rc else rc))"

end
