(* ===== verification/Recovery_Run.thy ===== *)
theory Recovery_Run
  imports Recovery_Log
begin

text \<open>
  What the recovery does with a log: it does the logged requests again in their order, a replica replays what its primary has replayed, and a node that passes the
  comparison has a log that the primary continues.
\<close>

section \<open>Doing requests again\<close>

text \<open>The entry of a request in the log, and doing a list of requests up to the first that fails.\<close>

definition request_entry :: "msgpack \<Rightarrow> req_data \<Rightarrow> log_entry" where
  "request_entry mp r = (cr_inc_id (rd_common r), cr_reqtype (rd_common r), packReqLogData mp r)"

abbreviation req_id :: "req_data \<Rightarrow> u32" where "req_id r \<equiv> cr_inc_id (rd_common r)"

fun do_all :: "msgpack \<Rightarrow> 's handler \<Rightarrow> req_data list \<Rightarrow> 's \<Rightarrow> bool \<times> 's" where
  "do_all mp handle [] s = (True, s)"
| "do_all mp handle (r # rs) s =
     (case handle (cr_reqtype (rd_common r)) (cr_json (rd_common r)) (packReqLogData mp r) s of
        (False, s') \<Rightarrow> (False, s')
      | (True, s') \<Rightarrow> do_all mp handle rs s')"

lemma read_request:
  assumes "log_rep base m d (map (request_entry mp) rs)" "small_files d"
  shows "i < length rs \<Longrightarrow> getReqDataByHeadOffset m d (i * 20) = Inr (Some (Suc i * 20, log_head (map (request_entry mp) rs) i, packReqLogData mp (rs ! i)))"
    "getReqDataByHeadOffset m d (length rs * 20) = Inr None" "i < length rs \<Longrightarrow> rh_inc_id (log_head (map (request_entry mp) rs) i) = req_id (rs ! i)"
  using read_next [OF assms] by (simp_all add: request_entry_def log_head_id)

lemma redo_loop_rep:
  assumes "log_rep base m d (map (request_entry mp) rs)" "small_files d" "faithful_msgpack mp" "\<forall>r\<in>set rs. short (cr_json (rd_common r))"
  shows "i \<le> length rs \<Longrightarrow> redo_loop mp handle m d end_id (i * 20) s =
    apfst (\<lambda>ok. if ok then Redo_Done else Redo_Exit ''handleReqFromLog failed.'') (do_all mp handle (takeWhile (\<lambda>r. req_id r < end_id) (drop i rs)) s)"
proof (induction "length rs - i" arbitrary: i s)
  case 0
  then have "i = length rs" by simp
  then show ?case using read_request(2) [OF assms(1,2)] by (subst redo_loop.simps) simp
next
  case (Suc n)
  then have i: "i < length rs" by simp
  have d: "drop i rs = rs ! i # drop (Suc i) rs" using i by (simp add: Cons_nth_drop_Suc)
  have IH: "redo_loop mp handle m d end_id (Suc i * 20) s' =
      apfst (\<lambda>ok. if ok then Redo_Done else Redo_Exit ''handleReqFromLog failed.'') (do_all mp handle (takeWhile (\<lambda>r. req_id r < end_id) (drop (Suc i) rs)) s')" for s'
    by (rule Suc.hyps(1)) (use Suc.hyps(2) i in auto)
  have c: "short (cr_json (rd_common (rs ! i)))" using assms(4) i by simp
  show ?case unfolding d using read_request(1,3) [OF assms(1,2) i] IH
    by (subst redo_loop.simps) (auto simp: unpack_common_data [OF assms(3) c] not_less Let_def split: prod.splits bool.splits)
qed

lemma takeWhile_sorted:
  assumes "sorted_wrt (<) (map f xs)"
  shows "takeWhile (\<lambda>x. f x < (k :: 'b :: linorder)) xs = filter (\<lambda>x. f x < k) xs"
  using assms
proof (induction xs)
  case (Cons x xs)
  have "filter (\<lambda>x. f x < k) xs = []" if "\<not> f x < k" using Cons.prems that by (auto simp: filter_empty_conv)
  then show ?case using Cons by auto
qed simp

text \<open>C10: After a rollback the recovery does again, in their order, exactly the logged requests from the first number up to, and without, the last number, each with
the type, the data and the packed form it was logged with; it succeeds when the handler accepts all of them, stops at the first one that the handler refuses, and removes the copy of the log. (MessagePack reads back what it packs, and the data of the requests are shorter than 4 GB.)
\<close>

theorem redo_does_logged_requests:
  assumes "log_run base m d (map (request_entry mp) rs)" "small_files d" "sorted_wrt (<) (map req_id rs)" "faithful_msgpack mp" "rs \<noteq> []" "start_id \<le> req_id (last rs)"
    "\<forall>r\<in>set rs. short (cr_json (rd_common r))"
  shows "redoLog mp handle m d start_id end_id rc s =
    (let (ok, s') = do_all mp handle (filter (\<lambda>r. start_id \<le> req_id r \<and> req_id r < end_id) rs) s
     in Some (ok, if ok then rc else setForceExitFlag rc, remove_all base d, s'))"
proof -
  let ?es = "map (request_entry mp) rs"
  note rep = log_run_rep [OF assms(1,2)]
  have base: "base_path m = base" using rep by (simp add: log_rep_def)
  have last: "last_id ?es = req_id (last rs)" "getLastSuccessReqId m = last_id ?es" using assms(5) rep
    by (simp_all add: last_id_def last_map request_entry_def log_rep_def getLastSuccessReqId_def)
  have ids: "map entry_id ?es = map req_id rs" by (simp add: request_entry_def comp_def)
  obtain i where i: "least_from ?es start_id i" "getHeadOffset m d start_id = Some (Inr (Some (entry_id (?es ! i), Some (log_head ?es i, i * 20))))"
    using getHeadOffset_rep(1) [OF rep assms(2), of start_id] assms(5,6) last by auto
  have dr: "drop i rs = filter (\<lambda>r. start_id \<le> req_id r) rs"
    using drop_is_filter [OF assms(3), of i start_id] i(1) by (auto simp: least_from_def request_entry_def)
  have "sorted_wrt (<) (map req_id (drop i rs))" using assms(3) by (metis drop_map sorted_wrt_drop)
  note tw = takeWhile_sorted [OF this, of end_id]
  have "i \<le> length rs" using i(1) by (simp add: least_from_def)
  note loop = redo_loop_rep [OF rep assms(2,4,7) this, of handle end_id s]
  obtain ok s' where D: "do_all mp handle (filter (\<lambda>r. start_id \<le> req_id r \<and> req_id r < end_id) rs) s = (ok, s')" by fastforce
  have L: "redo_loop mp handle m d end_id (i * 20) s = (if ok then Redo_Done else Redo_Exit ''handleReqFromLog failed.'', s')"
    unfolding loop tw unfolding dr using D by simp
  show ?thesis using i(2) assms(6) last base unfolding redoLog_def D by (simp add: L not_less [symmetric])
qed

section \<open>Replaying\<close>

text \<open>What a primary replays of a list of requests: their numbers, and the state of the handler.\<close>

fun replay_all :: "msgpack \<Rightarrow> 'v json_env \<Rightarrow> 's handler \<Rightarrow> string \<Rightarrow> string \<Rightarrow> req_data list \<Rightarrow> 's \<Rightarrow> u32 list \<times> 's" where
  "replay_all mp js handle from_col to_col [] s = ([], s)"
| "replay_all mp js handle from_col to_col (r # rs) s =
     (case replay_request mp js handle from_col to_col (packReqLogData mp r) s of
        (True, s') \<Rightarrow> apfst ((#) (req_id r)) (replay_all mp js handle from_col to_col rs s')
      | (False, s') \<Rightarrow> replay_all mp js handle from_col to_col rs s')"

lemma replay_all_ids: "set (fst (replay_all mp js handle from_col to_col rs s)) \<subseteq> req_id ` set rs"
proof (induction rs arbitrary: s)
  case (Cons r rs)
  obtain ok s' where "replay_request mp js handle from_col to_col (packReqLogData mp r) s = (ok, s')" by fastforce
  then show ?case using Cons [of s'] by (cases ok) auto
qed simp

text \<open>A handler that leaves no trace of a request that it refuses.\<close>

definition quiet_handler :: "'s handler \<Rightarrow> bool" where
  "quiet_handler handle \<longleftrightarrow> (\<forall>t j p s s'. handle t j p s = (False, s') \<longrightarrow> s' = s)"

lemma replay_quiet:
  assumes "quiet_handler handle" "replay_request mp js handle from_col to_col packed s = (False, s')"
  shows "s' = s"
  using assms(2) by (auto simp: replay_request_def Let_def split: prod.splits if_splits option.splits) (use assms(1) in \<open>auto simp: quiet_handler_def\<close>)

lemma replay_primary:
  assumes "log_rep base m d (map (request_entry mp) rs)" "small_files d" "\<forall>r\<in>set rs. req_id r \<le> end_id"
  shows "\<lbrakk>i \<le> length rs; replay_all mp js handle from_col to_col (drop i rs) s = (ids', s')\<rbrakk> \<Longrightarrow>
    replay_loop mp js handle True from_col to_col m d end_id (i * 20) num ids s = Some (num + length ids', ids @ ids', s')"
proof (induction "length rs - i" arbitrary: i s num ids ids' s')
  case 0
  then have "i = length rs" by simp
  then show ?case using read_request(2) [OF assms(1,2)] 0 by (subst replay_loop.simps) simp
next
  case (Suc n)
  then have i: "i < length rs" by simp
  have d: "drop i rs = rs ! i # drop (Suc i) rs" using i by (simp add: Cons_nth_drop_Suc)
  obtain ok s1 where q: "replay_request mp js handle from_col to_col (packReqLogData mp (rs ! i)) s = (ok, s1)" by fastforce
  obtain ids1 s2 where r: "replay_all mp js handle from_col to_col (drop (Suc i) rs) s1 = (ids1, s2)" by fastforce
  have IH: "replay_loop mp js handle True from_col to_col m d end_id (Suc i * 20) num ids s1 = Some (num + length ids1, ids @ ids1, s2)" for num ids
    by (rule Suc.hyps(1)) (use Suc.hyps(2) i r in auto)
  have "\<not> end_id < req_id (rs ! i)" using assms(3) i by (simp add: not_less)
  then show ?case using read_request(1,3) [OF assms(1,2) i] q r d Suc.prems(2) IH
    by (subst replay_loop.simps) (cases ok; auto)
qed

lemma replay_replica:
  assumes "log_rep base m d (map (request_entry mp) rs)" "small_files d" "\<forall>r\<in>set rs. req_id r \<le> end_id" "distinct (map req_id rs)"
    "quiet_handler handle"
  shows "\<lbrakk>i \<le> length rs; replay_all mp js handle from_col to_col (drop i rs) s = (ids', s')\<rbrakk> \<Longrightarrow>
    replay_loop mp js handle False from_col to_col m d end_id (i * 20) (length pre) (pre @ ids') s =
      (if i = length rs \<or> ids' \<noteq> [] \<and> last ids' = req_id (last rs) then Some (length (pre @ ids'), pre @ ids', s') else None)"
proof (induction "length rs - i" arbitrary: i s pre ids' s')
  case 0
  then have "i = length rs" by simp
  then show ?case using read_request(2) [OF assms(1,2)] 0 by (subst replay_loop.simps) simp
next
  case (Suc n)
  then have i: "i < length rs" by simp
  have d: "drop i rs = rs ! i # drop (Suc i) rs" using i by (simp add: Cons_nth_drop_Suc)
  obtain ok s1 where q: "replay_request mp js handle from_col to_col (packReqLogData mp (rs ! i)) s = (ok, s1)" by fastforce
  obtain ids1 s2 where r: "replay_all mp js handle from_col to_col (drop (Suc i) rs) s1 = (ids1, s2)" by fastforce
  have IH: "replay_loop mp js handle False from_col to_col m d end_id (Suc i * 20) (length pre) (pre @ ids1) s1 =
      (if Suc i = length rs \<or> ids1 \<noteq> [] \<and> last ids1 = req_id (last rs) then Some (length (pre @ ids1), pre @ ids1, s2) else None)" for pre
    by (rule Suc.hyps(1)) (use Suc.hyps(2) i r in auto)
  have le: "\<not> end_id < req_id (rs ! i)" using assms(3) i by (simp add: not_less)
  note rd = read_request(1,3) [OF assms(1,2) i]
  have last: "req_id (rs ! i) = req_id (last rs) \<longleftrightarrow> Suc i = length rs"
  proof -
    have "rs \<noteq> []" "length rs - 1 < length rs" using i by auto
    then show ?thesis using nth_eq_iff_index_eq [OF assms(4), of i "length rs - 1"] i by (simp add: last_conv_nth) linarith
  qed
  have fin: "ids1 = []" if "Suc i = length rs" using r that by simp
  show ?case
  proof (cases ok)
    case True
    then have ids: "ids' = req_id (rs ! i) # ids1" "s' = s2" using Suc.prems(2) d q r by auto
    have "replay_loop mp js handle False from_col to_col m d end_id (i * 20) (length pre) (pre @ ids') s =
        replay_loop mp js handle False from_col to_col m d end_id (Suc i * 20) (length (pre @ [req_id (rs ! i)])) ((pre @ [req_id (rs ! i)]) @ ids1) s1"
      using rd le q True ids by (subst replay_loop.simps) (simp add: vec_at_def)
    then show ?thesis unfolding IH using ids last fin i by auto
  next
    case False
    then have q': "replay_request mp js handle from_col to_col (packReqLogData mp (rs ! i)) s = (False, s1)" using q by simp
    have s1: "s1 = s" by (rule replay_quiet [OF assms(5) q'])
    have ids: "ids' = ids1" "s' = s2" using Suc.prems(2) d q r False by auto
    show ?thesis
    proof (cases ids')
      case Nil
      then show ?thesis using rd le i by (subst replay_loop.simps) (simp add: vec_at_def)
    next
      case (Cons x xs)
      then have "x \<in> req_id ` set (drop (Suc i) rs)" using replay_all_ids [of mp js handle from_col to_col "drop (Suc i) rs" s1] r ids by auto
      then obtain r where r': "r \<in> set (drop (Suc i) rs)" "x = req_id r" by blast
      from r'(1) obtain j where "j < length (drop (Suc i) rs)" "drop (Suc i) rs ! j = r" unfolding in_set_conv_nth by blast
      then have "Suc i + j < length rs" "x = req_id (rs ! (Suc i + j))" using r'(2) i by auto
      then have "x \<noteq> req_id (rs ! i)" using nth_eq_iff_index_eq [OF assms(4), of "Suc i + j" i] i by simp
      then have "replay_loop mp js handle False from_col to_col m d end_id (i * 20) (length pre) (pre @ ids') s =
          replay_loop mp js handle False from_col to_col m d end_id (Suc i * 20) (length pre) (pre @ ids1) s1"
        using rd le Cons ids s1 by (subst replay_loop.simps) (simp add: vec_at_def)
      then show ?thesis unfolding IH using ids fin i Cons by auto
    qed
  qed
qed


section \<open>Witnesses\<close>

definition sample_request :: req_data where
  "sample_request = NoAdditionReqLog\<lparr>rd_common := \<lparr>cr_inc_id = 1, cr_reqtype = Req_NoAdditionDataReq, cr_json = ''x''\<rparr>\<rparr>"

definition sample_log :: log_disk where
  "sample_log = log_disk_of Req_NoAdditionDataReq (packReqLogData plain_msgpack sample_request)"

definition record_request :: "(u32 \<times> string) list handler" where
  "record_request t j p s = (True, s @ [(t, j)])"

definition sample_json :: "string json_env" where
  "sample_json = \<lparr>js_read = Some, js_object = (\<lambda>_. True), js_controller = (\<lambda>_. ''documents''), js_action = (\<lambda>_. ''visit''), js_collection = (\<lambda>_. ''a''),
     js_with_collection = (\<lambda>v c. v @ c)\<rparr>"

lemma sample_log_run: "log_run ''log'' one_mgr sample_log (map (request_entry plain_msgpack) [sample_request])" "small_files sample_log"
proof -
  show "log_run ''log'' one_mgr sample_log (map (request_entry plain_msgpack) [sample_request])"
    unfolding sample_log_def using logged_run by (simp add: request_entry_def sample_request_def)
  show "small_files sample_log" unfolding sample_log_def
    by (rule small_logged) (simp add: packReqLogData_def pack_common_def plain_msgpack_def sample_request_def NoAdditionReqLog_def new_req_def u32_bytes_def char_bytes_def)
qed

theorem redo_does_logged_requests_witness:
  "redoLog plain_msgpack record_request one_mgr sample_log 1 5 \<lparr>rc_rollback = None, rc_force_exit = False\<rparr> [] =
   Some (True, \<lparr>rc_rollback = None, rc_force_exit = False\<rparr>, remove_all ''log'' sample_log, [(Req_NoAdditionDataReq, ''x'')])"
proof -
  have h: "sorted_wrt (<) (map req_id [sample_request])" "[sample_request] \<noteq> []" "1 \<le> req_id (last [sample_request])"
    "\<forall>r\<in>set [sample_request]. short (cr_json (rd_common r))" by (simp_all add: sample_request_def short_def)
  have "filter (\<lambda>r. 1 \<le> req_id r \<and> req_id r < 5) [sample_request] = [sample_request]" by (simp add: sample_request_def word_less_nat_alt)
  then show ?thesis using redo_does_logged_requests [OF sample_log_run h(1) faithful_plain_msgpack h(2,3,4), of record_request 5 "\<lparr>rc_rollback = None, rc_force_exit = False\<rparr>" "[]"]
    by (simp add: record_request_def) (simp add: sample_request_def)
qed


end
