(* ===== verification/Log_Check.thy ===== *)
theory Log_Check
  imports Recovery_Log
begin

text \<open>
  The comparison of the log of a node with the log of the primary (\<open>checkIfLogForward\<close> of core/node-manager/RecoveryChecker.cpp).
\<close>

section \<open>Lists in strict order\<close>

lemma sorted_split:
  assumes "sorted_wrt (<) (map f xs)"
  shows "filter (\<lambda>x. f x < (c :: 'b :: linorder)) xs @ filter (\<lambda>x. c \<le> f x) xs = xs"
  using assms
proof (induction xs)
  case (Cons x xs)
  have "filter (\<lambda>y. f y < c) xs = []" "filter (\<lambda>y. c \<le> f y) xs = xs" if "c \<le> f x"
    using Cons.prems that by (auto simp: filter_empty_conv filter_id_conv)
  then show ?case using Cons by (cases "c \<le> f x") auto
qed simp

lemma sorted_filter: "sorted_wrt (<) (map f xs) \<Longrightarrow> sorted_wrt (<) (map f (filter P xs))"
  by (induction xs) auto

lemma filter_upto_last:
  assumes "sorted_wrt (<) (map f (l @ r))" "l \<noteq> []"
  shows "filter (\<lambda>x. f x \<le> (f (last l) :: 'b :: linorder)) (l @ r) = l"
proof -
  have "f x \<le> f (last l)" if "x \<in> set l" for x
    using assms that by (cases l rule: rev_cases) (auto simp: sorted_wrt_append)
  moreover have "\<not> f x \<le> f (last l)" if "x \<in> set r" for x
  proof -
    have "f (last l) < f x" using assms that by (auto simp: sorted_wrt_append)
    then show ?thesis by simp
  qed
  ultimately show ?thesis by (auto simp: filter_empty_conv filter_id_conv)
qed

text \<open>One round of the comparison: the matching part \<open>l\<close> of two lists from \<open>c\<close> on.\<close>

lemma matched_part:
  assumes "sorted_wrt (<) (map f xs)" "filter (\<lambda>x. c \<le> f x) xs = l @ r" "l \<noteq> []"
  shows "filter (\<lambda>x. f x \<le> (f (last l) :: 'b :: linorder)) xs = filter (\<lambda>x. f x < c) xs @ l"
proof -
  have "last l \<in> set (filter (\<lambda>x. c \<le> f x) xs)" using assms(2,3) by simp
  then have c: "c \<le> f (last l)" by simp
  have s: "sorted_wrt (<) (map f (l @ r))" using sorted_filter [OF assms(1), of "\<lambda>x. c \<le> f x"] assms(2) by simp
  have "filter (\<lambda>x. f x \<le> f (last l)) xs = filter (\<lambda>x. f x \<le> f (last l)) (filter (\<lambda>x. f x < c) xs @ filter (\<lambda>x. c \<le> f x) xs)"
    by (simp only: sorted_split [OF assms(1)])
  also have "\<dots> = filter (\<lambda>x. f x < c) xs @ l" unfolding assms(2) using filter_upto_last [OF s assms(3)] c
    by (simp add: filter_id_conv) (metis (mono_tags, lifting) filter_cong less_le_trans order_less_imp_le)
  finally show ?thesis .
qed

section \<open>Comparing\<close>

lemma compare_logs_cases:
  "length l \<le> length p \<Longrightarrow>
    l = take (length l) p \<and> compare_logs first cs (zip (map f l) l) p = (if l = [] then cs else f (last l)) \<or>
    (\<exists>i<length l. compare_logs first cs (zip (map f l) l) p = (if i = 0 then if first then f (l ! 0) - 1 else cs else f (l ! (i - 1))))"
proof (induction l arbitrary: first cs p)
  case (Cons x l)
  then obtain y p' where p: "p = y # p'" by (cases p) auto
  show ?case
  proof (cases "x = y")
    case False
    then show ?thesis unfolding p by (intro disjI2 exI [of _ 0]) simp
  next
    case True
    have "length l \<le> length p'" using Cons.prems p by simp
    from Cons.IH [OF this, of False "f x"] show ?thesis
    proof
      assume "\<exists>i<length l. compare_logs False (f x) (zip (map f l) l) p' = (if i = 0 then if False then f (l ! 0) - 1 else f x else f (l ! (i - 1)))"
      then obtain i where "i < length l" "compare_logs False (f x) (zip (map f l) l) p' = (if i = 0 then f x else f (l ! (i - 1)))" by auto
      then show ?thesis unfolding p using True by (intro disjI2 exI [of _ "Suc i"]) (auto simp: nth_Cons')
    qed (use p True in auto)
  qed
qed simp

text \<open>What the primary answers: a part of its log from the given number on, as long as it can be reached.\<close>

definition honest_answer :: "log_entry list \<Rightarrow> answer \<Rightarrow> bool" where
  "honest_answer ps a \<longleftrightarrow> an_other_primary a \<and>
     (\<forall>cs l. an_newest a cs = Some l \<longrightarrow> (\<exists>n. l = take n (map entry_data (filter (\<lambda>e. cs \<le> entry_id e) ps))))"

lemma word_less_inc:
  assumes "(c :: u32) < n"
  shows "x < c + 1 \<longleftrightarrow> x \<le> c"
proof -
  have "1 + c \<noteq> 0"
  proof
    assume "1 + c = 0"
    then have "c = - 1" by (metis add.commute eq_neg_iff_add_eq_0)
    then show False using assms word_n1_ge [of n] by simp
  qed
  then have "unat (c + 1) = Suc (unat c)" using unatSuc [of c] by (simp add: add.commute)
  then show ?thesis by (simp add: word_less_nat_alt word_le_nat_alt less_Suc_eq_le)
qed

lemma word_dec_less: "0 < (x :: u32) \<Longrightarrow> x - 1 < x"
  using unat_minus_one [of x] by (cases "x = 0") (auto simp: word_less_nat_alt)

text \<open>At the first difference the comparison goes back below the last number of the list.\<close>

lemma difference_below_last:
  fixes f :: "'a \<Rightarrow> u32"
  assumes "sorted_wrt (<) (map f l)" "i < length l" "0 < f (l ! 0)" "cs = (if i = 0 then f (l ! 0) - 1 else f (l ! (i - 1)))"
  shows "cs < f (last l)"
proof -
  have "cs < f (l ! i)"
  proof (cases "i = 0")
    case True
    then show ?thesis using assms(3,4) by (simp add: word_dec_less)
  qed (use sorted_wrt_nth_less [OF assms(1), of "i - 1" i] assms in auto)
  moreover have "f (l ! i) \<le> f (last l)"
  proof -
    obtain j where j: "length l = Suc j" using assms(2) by (cases "length l") auto
    then have "last l = l ! j" by (metis diff_Suc_1 last_conv_nth list.size(3) nat.distinct(1))
    moreover have "i < j \<or> i = j" using assms(2) j by auto
    ultimately show ?thesis using sorted_wrt_nth_less [OF assms(1), of i j] j by auto
  qed
  ultimately show ?thesis by simp
qed

text \<open>When the whole list has been matched, the other list continues it.\<close>

lemma matched_all:
  assumes "sorted_wrt (<) (map f ps)" "filter (\<lambda>x. c \<le> f x) ps = l @ r" "l \<noteq> []" "\<forall>x\<in>set es. f x \<le> (f (last l) :: 'b :: linorder)"
    "filter (\<lambda>x. f x \<le> f (last l)) es = filter (\<lambda>x. f x \<le> f (last l)) ps"
  shows "\<exists>k. es = take k ps"
proof -
  have "filter (\<lambda>x. f x \<le> f (last l)) es = es" using assms(4) by (simp add: filter_id_conv)
  then have "es = filter (\<lambda>x. f x < c) ps @ l" using assms(5) matched_part [OF assms(1-3)] by simp
  then have "ps = es @ r" using sorted_split [OF assms(1), of c] unfolding assms(2) by simp
  then show ?thesis by (metis append_eq_conv_conj)
qed

text \<open>Numbers and data of the entries from a number on, when the data contain the number.\<close>

lemma entries_from:
  assumes "\<forall>e\<in>set xs. entry_id e = id_of (entry_data e)"
  shows "map entry_data (filter (\<lambda>e. c \<le> entry_id e) xs) = filter (\<lambda>x. c \<le> id_of x) (map entry_data xs)"
    "map entry_id (take k (filter (\<lambda>e. c \<le> entry_id e) xs)) = map id_of (take k (filter (\<lambda>x. c \<le> id_of x) (map entry_data xs)))"
    "map entry_data (take k (filter (\<lambda>e. c \<le> entry_id e) xs)) = take k (filter (\<lambda>x. c \<le> id_of x) (map entry_data xs))"
proof -
  show d: "map entry_data (filter (\<lambda>e. c \<le> entry_id e) xs) = filter (\<lambda>x. c \<le> id_of x) (map entry_data xs)" using assms by (induction xs) auto
  show "map entry_data (take k (filter (\<lambda>e. c \<le> entry_id e) xs)) = take k (filter (\<lambda>x. c \<le> id_of x) (map entry_data xs))"
    by (simp only: take_map [symmetric] d)
  have "map entry_id (take k (filter (\<lambda>e. c \<le> entry_id e) xs)) = map id_of (map entry_data (take k (filter (\<lambda>e. c \<le> entry_id e) xs)))"
    using assms by (auto dest!: in_set_takeD)
  then show "map entry_id (take k (filter (\<lambda>e. c \<le> entry_id e) xs)) = map id_of (take k (filter (\<lambda>x. c \<le> id_of x) (map entry_data xs)))"
    by (simp only: take_map [symmetric] d)
qed

lemma local_list:
  assumes "log_rep base m d es" "small_files d" "sorted_wrt (<) (map id_of (map entry_data es))" "\<forall>e\<in>set es. entry_id e = id_of (entry_data e)"
  obtains l where "getReqLogIdList m d cs (of_nat n) True = Some (Inr (map id_of l, l))" "length l \<le> n" "\<exists>k. l = take k (filter (\<lambda>x. cs \<le> id_of x) (map entry_data es))"
proof -
  let ?k = "unat (min (of_nat n) (last_id es))"
  have "map entry_id es = map id_of (map entry_data es)" using assms(4) by simp
  then have "sorted_wrt (<) (map entry_id es)" using assms(3) by (simp only:)
  from request_list_rep [OF assms(1,2) this, of cs "of_nat n" True]
  have "getReqLogIdList m d cs (of_nat n) True = Some (Inr (map id_of (take ?k (filter (\<lambda>x. cs \<le> id_of x) (map entry_data es))),
      take ?k (filter (\<lambda>x. cs \<le> id_of x) (map entry_data es))))"
    by (simp only: Let_def if_True entries_from(2,3) [OF assms(4)])
  moreover have "unat (of_nat n :: u32) \<le> n" by (simp add: unat_of_nat)
  then have "?k \<le> n" by (simp add: min_def word_le_nat_alt split: if_splits)
  ultimately show thesis using that by fastforce
qed

lemma check_loop_prefix:
  fixes id_of :: "u8 list \<Rightarrow> u32" and es ps :: "log_entry list"
  defines "E \<equiv> map entry_data es" and "P \<equiv> map entry_data ps"
  assumes rep: "log_rep base m d es" "small_files d" and E: "sorted_wrt (<) (map id_of E)" "E \<noteq> []" "\<forall>x\<in>set E. 0 < id_of x" and P: "sorted_wrt (<) (map id_of P)"
    and ids: "\<forall>e\<in>set es \<union> set ps. entry_id e = id_of (entry_data e)" and newest: "newest = id_of (last E)"
  shows "\<lbrakk>check_loop good m d newest rc as cs = Some (Inr True, rc'); \<forall>a\<in>set as. honest_answer ps a; cs \<le> newest;
    filter (\<lambda>x. id_of x < cs) E = filter (\<lambda>x. id_of x < cs) P\<rbrakk> \<Longrightarrow> \<exists>k. E = take k P"
proof (induction as arbitrary: cs)
  case (Cons a as)
  have honest: "honest_answer ps a" using Cons.prems(2) by simp
  show ?case
  proof (cases "an_newest a cs")
    case None
    then show ?thesis using Cons honest by (auto simp: honest_answer_def split: if_splits)
  next
    case (Some p)
    have P_from: "map entry_data (filter (\<lambda>e. cs \<le> entry_id e) ps) = filter (\<lambda>x. cs \<le> id_of x) P" unfolding P_def by (rule entries_from(1)) (use ids in simp)
    then obtain n where p: "p = take n (filter (\<lambda>x. cs \<le> id_of x) P)" using honest Some unfolding honest_answer_def by fastforce
    obtain l k where l: "getReqLogIdList m d cs (of_nat (length p)) True = Some (Inr (map id_of l, l))" "length l \<le> length p" "l = take k (filter (\<lambda>x. cs \<le> id_of x) E)"
      using local_list [OF rep E(1) [unfolded E_def], of cs "length p"] ids unfolding E_def by blast
    note step = Cons.prems(1) [unfolded check_loop.simps Some option.case l(1) Option.bind.simps sum.case prod.case Let_def]
    have bound: "\<forall>x\<in>set E. id_of x \<le> newest"
      using E(1,2) newest by (cases E rule: rev_cases) (auto simp: sorted_wrt_append)
    have lE: "set l \<subseteq> set E" unfolding l(3) by (auto dest!: in_set_takeD)
    have ls: "sorted_wrt (<) (map id_of l)" unfolding l(3) take_map [symmetric] by (rule sorted_wrt_take [OF sorted_filter [OF E(1)]])
    let ?cs = "compare_logs True cs (zip (map id_of l) l) p" and ?c = "id_of (last l)"
    consider (match) "l = take (length l) p" "?cs = (if l = [] then cs else ?c)"
      | (diff) i where "i < length l" "?cs = (if i = 0 then id_of (l ! 0) - 1 else id_of (l ! (i - 1)))"
      using compare_logs_cases [OF l(2), of True cs id_of] by auto
    then show ?thesis
    proof cases
      case diff
      then have "l \<noteq> []" "0 < length l" by auto
      moreover have "0 < id_of (l ! 0)" using nth_mem [OF \<open>0 < length l\<close>] lE E(3) by blast
      moreover from this have "?cs < ?c" by (rule difference_below_last [OF ls diff(1) _ diff(2)])
      moreover have "?c \<le> newest" using bound lE \<open>l \<noteq> []\<close> last_in_set by blast
      ultimately have "\<not> ?cs \<ge> newest" "?cs \<noteq> last (map id_of l)" by (auto simp: last_map)
      then show ?thesis using step \<open>l \<noteq> []\<close> diff(1) l(2) by (auto simp: setRollbackFlag_def forceExit_def split: if_splits)
    next
      case match
      show ?thesis
      proof (cases "l = []")
        case True
        then have "check_loop good m d newest rc as cs = Some (Inr True, rc')" using step match Cons.prems(3)
          by (auto simp: setRollbackFlag_def forceExit_def split: if_splits)
        then show ?thesis using Cons by simp
      next
        case False
        obtain r where r: "filter (\<lambda>x. cs \<le> id_of x) E = l @ r" using l(3) by (metis append_take_drop_id)
        obtain r' where r': "filter (\<lambda>x. cs \<le> id_of x) P = l @ r'" using match(1) p by (metis append_assoc append_take_drop_id)
        have upto: "filter (\<lambda>x. id_of x \<le> ?c) E = filter (\<lambda>x. id_of x \<le> ?c) P"
          using matched_part [OF E(1) r False] matched_part [OF P r' False] Cons.prems(4) by simp
        show ?thesis
        proof (cases "?c \<ge> newest")
          case True
          then show ?thesis using matched_all [OF P r' False _ upto] bound order_trans by blast
        next
          case c: False
          have inc: "\<And>x. x < ?c + 1 \<longleftrightarrow> x \<le> ?c" by (rule word_less_inc [of ?c newest]) (use c in simp)
          have "check_loop good m d newest rc as (?c + 1) = Some (Inr True, rc')" using step match(2) False c l(2) by (auto simp: last_map split: if_splits)
          then show ?thesis using Cons.IH Cons.prems(2) upto c by (simp add: inc_le inc)
        qed
      qed
    qed
  qed
qed simp

section \<open>Property\<close>

text \<open>C7: A node that passes the comparison with its primary has a log that the primary continues. When the answers come from the log of the primary (which can always be
reached), numbers are used once and in order and a request contains its number, then after a successful check the requests of the node are the first requests of the primary.
\<close>

theorem checked_log_is_prefix:
  assumes "log_run base m d es" "small_files d" "sorted_wrt (<) (map entry_id es)" "sorted_wrt (<) (map entry_id ps)" "\<forall>e\<in>set es. 0 < entry_id e"
    "\<forall>e\<in>set es \<union> set ps. entry_id e = id_of (entry_data e)" "\<forall>a\<in>set as. honest_answer ps a" "checkIfLogForward good False m d rc as = Some (Inr True, rc')"
  shows "\<exists>k. map entry_data es = take k (map entry_data ps)"
proof (cases "es = []")
  case True
  then show ?thesis by (intro exI [of _ 0]) simp
next
  case False
  note rep = log_run_rep [OF assms(1,2)]
  have ids: "map id_of (map entry_data es) = map entry_id es" "map id_of (map entry_data ps) = map entry_id ps" using assms(6) by auto
  have strict: "sorted_wrt (<) (map id_of (map entry_data es))" "sorted_wrt (<) (map id_of (map entry_data ps))" unfolding ids by (rule assms(3), rule assms(4))
  have newest: "getLastSuccessReqId m = id_of (last (map entry_data es))" "getLastSuccessReqId m \<noteq> 0"
    using rep False assms(5,6) by (auto simp: getLastSuccessReqId_def log_rep_def last_id_def last_map word_gt_0)
  have c: "check_loop good m d (getLastSuccessReqId m) rc as 0 = Some (Inr True, rc')" using assms(8) newest(2) by (simp add: checkIfLogForward_def Let_def)
  show ?thesis
    by (rule check_loop_prefix [OF rep assms(2) strict(1) _ _ strict(2) assms(6) newest(1) c assms(7)]) (use assms(5,6) False in auto)
qed

section \<open>Witness\<close>

definition two_requests :: "log_entry list" where
  "two_requests = [(1, 7, [5, 6]), (2, 7, [8])]"

definition good_answer :: answer where
  "good_answer = \<lparr>an_ready_before = True, an_newest = (\<lambda>cs. Some (take 1 (map entry_data (filter (\<lambda>e. cs \<le> entry_id e) two_requests)))),
     an_connected = True, an_other_primary = True, an_ready_after = True\<rparr>"

theorem checked_log_is_prefix_witness:
  "checkIfLogForward True False one_mgr one_disk \<lparr>rc_rollback = None, rc_force_exit = False\<rparr> [good_answer] = Some (Inr True, \<lparr>rc_rollback = None, rc_force_exit = False\<rparr>) \<and>
   (\<exists>k. map entry_data [(1 :: u32, 7 :: u32, [5, 6 :: u8])] = take k (map entry_data two_requests))"
proof -
  let ?es = "[(1 :: u32, 7 :: u32, [5, 6 :: u8])]" and ?id = "\<lambda>x :: u8 list. if x = [5, 6] then 1 else 2 :: u32"
  have rep: "log_rep ''log'' one_mgr one_disk ?es" by (rule log_run_rep [OF one_run small_samples(2)])
  have "getReqLogIdList one_mgr one_disk 0 1 True = Some (Inr ([1], [[5, 6]]))"
    using request_list_rep [OF rep small_samples(2), of 0 1 True] by (simp add: last_id_def Let_def)
  then have c: "checkIfLogForward True False one_mgr one_disk \<lparr>rc_rollback = None, rc_force_exit = False\<rparr> [good_answer] =
      Some (Inr True, \<lparr>rc_rollback = None, rc_force_exit = False\<rparr>)"
    by (simp add: checkIfLogForward_def getLastSuccessReqId_def one_mgr_def new_mgr_def good_answer_def two_requests_def)
  have "\<exists>k. map entry_data ?es = take k (map entry_data two_requests)"
  proof (rule checked_log_is_prefix [OF one_run small_samples(2) _ _ _ _ _ c, where id_of = ?id])
    show "\<forall>a\<in>set [good_answer]. honest_answer two_requests a"
      by (auto simp: honest_answer_def good_answer_def)
  qed (auto simp: two_requests_def word_less_nat_alt)
  then show ?thesis using c by simp
qed

end
