(* ===== verification/Merchant_Score.thy ===== *)
theory Merchant_Score
  imports Prop_Value_Table Ordered_Map "HOL-Library.Char_ord" "HOL-Library.List_Lexorder"
begin

text \<open>
  The scores of merchants (core/mining-manager/merchant-score-manager: MerchantScore.h, MerchantScoreManager.cpp; mining-manager/util/convert_ustr.cpp). A merchant has a score
  for some categories and a general score for all others. Scores are set by names and looked up by the ids of the value tables of merchants and categories; the manager holds
  pointers to both tables, so an operation returns them with their new entries. The conversions between \<open>std::string\<close> and \<open>UString\<close> of izenelib are
  the arguments \<open>enc\<close> and \<open>dec\<close>.
\<close>

section \<open>Conversions\<close>

definition convert_to_ustr_vector :: "(string \<Rightarrow> ustring) \<Rightarrow> string list \<Rightarrow> ustring list" where
  "convert_to_ustr_vector enc strVector = map enc strVector"

definition convert_to_str_vector :: "(ustring \<Rightarrow> string) \<Rightarrow> ustring list \<Rightarrow> string list" where
  "convert_to_str_vector dec ustrVector = map dec ustrVector"

section \<open>Data\<close>

record ('c, 's) category_score =
  categoryScoreMap :: "('c \<times> 's) list"
  generalScore :: 's

definition category_score_new :: "('c, 's :: zero) category_score" where
  "category_score_new = \<lparr>categoryScoreMap = [], generalScore = 0\<rparr>"

type_synonym ('m, 'c, 's) merchant_score_map = "('m \<times> ('c, 's) category_score) list"
type_synonym 's merchant_str_map = "(string, string list, 's) merchant_score_map"
type_synonym 's merchant_id_map = "(pvid, pvid, 's) merchant_score_map"

record 's merchant_score_mgr =
  merchantValueTable :: "prop_value_table option"
  categoryValueTable :: "prop_value_table option"
  scoreFilePath :: "file_key option"
  idScoreMap :: "'s merchant_id_map"

definition merchant_mgr_new :: "prop_value_table option \<Rightarrow> prop_value_table option \<Rightarrow> 's merchant_score_mgr" where
  "merchant_mgr_new merchants categories = \<lparr>merchantValueTable = merchants, categoryValueTable = categories, scoreFilePath = None, idScoreMap = []\<rparr>"

section \<open>Files\<close>

text \<open>
  What the manager needs from outside: whether the score file can be opened, and saving and loading of the map (loading tells whether it succeeded and what is in
  the map then).
\<close>

record 's score_io =
  sio_open :: "file_key \<Rightarrow> bool"
  sio_save :: "'s merchant_id_map \<Rightarrow> bytes option"
  sio_load :: "bytes \<Rightarrow> 's merchant_id_map \<Rightarrow> bool \<times> 's merchant_id_map"

definition mgr_open :: "'s score_io \<Rightarrow> file_key \<Rightarrow> 's merchant_score_mgr \<Rightarrow> fstore \<Rightarrow> bool \<times> 's merchant_score_mgr" where
  "mgr_open io path m fs =
     (let m' = m\<lparr>scoreFilePath := Some path\<rparr> in
      case fs path of
        None \<Rightarrow> (True, m')
      | Some b \<Rightarrow> (let (ok, ids) = sio_load io b (idScoreMap m') in (ok, m'\<lparr>idScoreMap := ids\<rparr>)))"

definition flushScoreFile :: "'s score_io \<Rightarrow> 's merchant_score_mgr \<Rightarrow> fstore \<Rightarrow> bool \<times> fstore" where
  "flushScoreFile io m fs =
     (case scoreFilePath m of
        None \<Rightarrow> (True, fs)
      | Some path \<Rightarrow>
          if \<not> sio_open io path then (False, fs)
          else (case sio_save io (idScoreMap m) of
              None \<Rightarrow> (False, fs(path \<mapsto> []))
            | Some b \<Rightarrow> (True, fs(path \<mapsto> b))))"

definition flush_table :: "pvt_io \<Rightarrow> prop_value_table option \<Rightarrow> fstore \<Rightarrow> bool \<times> prop_value_table option \<times> fstore" where
  "flush_table pio table fs =
     (case table of
        None \<Rightarrow> (True, None, fs)
      | Some t \<Rightarrow> (let (ok, t', fs') = pvt_flush pio t fs in (ok, Some t', fs')))"

definition mgr_flush :: "'s score_io \<Rightarrow> pvt_io \<Rightarrow> 's merchant_score_mgr \<Rightarrow> fstore \<Rightarrow> bool \<times> 's merchant_score_mgr \<times> fstore" where
  "mgr_flush io pio m fs =
     (let (ok, fs0) = flushScoreFile io m fs in
      if \<not> ok then (False, m, fs0) else
      let (ok1, t1, fs1) = flush_table pio (merchantValueTable m) fs0; m1 = m\<lparr>merchantValueTable := t1\<rparr> in
      if \<not> ok1 then (False, m1, fs1) else
      let (ok2, t2, fs2) = flush_table pio (categoryValueTable m1) fs1 in (ok2, m1\<lparr>categoryValueTable := t2\<rparr>, fs2))"

section \<open>Ids and names\<close>

definition getMerchantId :: "(string \<Rightarrow> ustring) \<Rightarrow> 's merchant_score_mgr \<Rightarrow> string \<Rightarrow> pvid" where
  "getMerchantId enc m merchant = (case merchantValueTable m of None \<Rightarrow> 0 | Some t \<Rightarrow> propValueId t [enc merchant])"

text \<open>An exception of \<open>insertPropValueId\<close> is caught, and the id is 0 then.\<close>

definition insert_value :: "ustring list \<Rightarrow> prop_value_table option \<Rightarrow> pvid \<times> prop_value_table option" where
  "insert_value path table =
     (case table of
        None \<Rightarrow> (0, None)
      | Some t \<Rightarrow> (case insertPropValueId path t of (Inr i, t') \<Rightarrow> (i, Some t') | (Inl _, t') \<Rightarrow> (0, Some t')))"

definition insertMerchantId :: "(string \<Rightarrow> ustring) \<Rightarrow> string \<Rightarrow> 's merchant_score_mgr \<Rightarrow> pvid \<times> 's merchant_score_mgr" where
  "insertMerchantId enc merchant m =
     (let (i, t) = insert_value [enc merchant] (merchantValueTable m) in (i, m\<lparr>merchantValueTable := t\<rparr>))"

definition insertCategoryId :: "(string \<Rightarrow> ustring) \<Rightarrow> string list \<Rightarrow> 's merchant_score_mgr \<Rightarrow> pvid \<times> 's merchant_score_mgr" where
  "insertCategoryId enc path m =
     (let (i, t) = insert_value (convert_to_ustr_vector enc path) (categoryValueTable m) in (i, m\<lparr>categoryValueTable := t\<rparr>))"

text \<open>\<open>None\<close>: the id is out of the range of the table.\<close>

definition getMerchantName :: "(ustring \<Rightarrow> string) \<Rightarrow> 's merchant_score_mgr \<Rightarrow> pvid \<Rightarrow> string option" where
  "getMerchantName dec m i = (case merchantValueTable m of None \<Rightarrow> Some [] | Some t \<Rightarrow> map_option dec (propValueStr t i))"

definition getCategoryPath :: "(ustring \<Rightarrow> string) \<Rightarrow> 's merchant_score_mgr \<Rightarrow> pvid \<Rightarrow> string list option" where
  "getCategoryPath dec m i = (case categoryValueTable m of None \<Rightarrow> Some [] | Some t \<Rightarrow> map_option (convert_to_str_vector dec) (propValuePath t i))"

section \<open>Setting scores\<close>

fun convert_categories :: "(string \<Rightarrow> ustring) \<Rightarrow> (string list \<times> 's) list \<Rightarrow> (pvid \<times> 's) list \<Rightarrow> 's merchant_score_mgr \<Rightarrow>
    (pvid \<times> 's) list \<times> 's merchant_score_mgr" where
  "convert_categories enc [] ids m = (ids, m)"
| "convert_categories enc ((path, score) # es) ids m =
     (let (categoryId, m') = insertCategoryId enc path m in
      convert_categories enc es (if categoryId = 0 then ids else map_put categoryId score ids) m')"

definition convertCategoryScore :: "(string \<Rightarrow> ustring) \<Rightarrow> (string list, 's) category_score \<Rightarrow> (pvid, 's) category_score \<Rightarrow> 's merchant_score_mgr \<Rightarrow>
    (pvid, 's) category_score \<times> 's merchant_score_mgr" where
  "convertCategoryScore enc strs ids m =
     (let (cs, m') = convert_categories enc (categoryScoreMap strs) (categoryScoreMap ids) m
      in (\<lparr>categoryScoreMap = cs, generalScore = generalScore strs\<rparr>, m'))"

fun convertMerchantScore :: "(string \<Rightarrow> ustring) \<Rightarrow> 's :: zero merchant_str_map \<Rightarrow> 's merchant_id_map \<Rightarrow> 's merchant_score_mgr \<Rightarrow>
    's merchant_id_map \<times> 's merchant_score_mgr" where
  "convertMerchantScore enc [] ids m = (ids, m)"
| "convertMerchantScore enc ((merchant, strs) # es) ids m =
     (let (merchantId, m1) = insertMerchantId enc merchant m in
      if merchantId = 0 then convertMerchantScore enc es ids m1
      else
        let (cs, m2) = convertCategoryScore enc strs (map_get category_score_new merchantId ids) m1
        in convertMerchantScore enc es (map_put merchantId cs ids) m2)"

definition setIdScore :: "'s merchant_id_map \<Rightarrow> 's merchant_score_mgr \<Rightarrow> 's merchant_score_mgr" where
  "setIdScore ids m = m\<lparr>idScoreMap := foldl (\<lambda>all (merchantId, cs). map_put merchantId cs all) (idScoreMap m) ids\<rparr>"

definition setScore :: "(string \<Rightarrow> ustring) \<Rightarrow> 's :: zero merchant_str_map \<Rightarrow> 's merchant_score_mgr \<Rightarrow> 's merchant_score_mgr" where
  "setScore enc strs m = (let (ids, m') = convertMerchantScore enc strs [] m in setIdScore ids m')"

section \<open>Reading scores\<close>

fun first_category :: "(pvid \<times> 's) list \<Rightarrow> pvid list \<Rightarrow> 's option" where
  "first_category ids [] = None"
| "first_category ids (p # ps) = (case map_of ids p of Some s \<Rightarrow> Some s | None \<Rightarrow> first_category ids ps)"

definition getIdScore :: "'s :: zero merchant_score_mgr \<Rightarrow> pvid \<Rightarrow> pvid list \<Rightarrow> 's" where
  "getIdScore m merchantId categoryParentIds =
     (case map_of (idScoreMap m) merchantId of
        None \<Rightarrow> 0
      | Some cs \<Rightarrow> (case first_category (categoryScoreMap cs) categoryParentIds of Some s \<Rightarrow> s | None \<Rightarrow> generalScore cs))"

fun put_categories :: "(ustring \<Rightarrow> string) \<Rightarrow> 's merchant_score_mgr \<Rightarrow> (pvid \<times> 's) list \<Rightarrow> (string list \<times> 's) list \<Rightarrow> (string list \<times> 's) list option" where
  "put_categories dec m [] strs = Some strs"
| "put_categories dec m ((i, score) # es) strs =
     Option.bind (getCategoryPath dec m i) (\<lambda>path. put_categories dec m es (map_put path score strs))"

definition getCategoryStrScore :: "(ustring \<Rightarrow> string) \<Rightarrow> 's merchant_score_mgr \<Rightarrow> (pvid, 's) category_score \<Rightarrow> (string list, 's) category_score \<Rightarrow>
    (string list, 's) category_score option" where
  "getCategoryStrScore dec m ids strs =
     map_option (\<lambda>cs. \<lparr>categoryScoreMap = cs, generalScore = generalScore ids\<rparr>) (put_categories dec m (categoryScoreMap ids) (categoryScoreMap strs))"

fun getAllStrScore :: "(ustring \<Rightarrow> string) \<Rightarrow> 's :: zero merchant_score_mgr \<Rightarrow> 's merchant_id_map \<Rightarrow> 's merchant_str_map \<Rightarrow> 's merchant_str_map option" where
  "getAllStrScore dec m [] strs = Some strs"
| "getAllStrScore dec m ((i, ids) # es) strs =
     Option.bind (getMerchantName dec m i) (\<lambda>name.
       Option.bind (getCategoryStrScore dec m ids (map_get category_score_new name strs)) (\<lambda>cs. getAllStrScore dec m es (map_put name cs strs)))"

fun getStrScore :: "(string \<Rightarrow> ustring) \<Rightarrow> (ustring \<Rightarrow> string) \<Rightarrow> 's :: zero merchant_score_mgr \<Rightarrow> string list \<Rightarrow> 's merchant_str_map \<Rightarrow> 's merchant_str_map option" where
  "getStrScore enc dec m [] strs = Some strs"
| "getStrScore enc dec m (name # names) strs =
     (let old = map_get category_score_new name strs in
      case map_of (idScoreMap m) (getMerchantId enc m name) of
        None \<Rightarrow> getStrScore enc dec m names (map_put name old strs)
      | Some ids \<Rightarrow> Option.bind (getCategoryStrScore dec m ids old) (\<lambda>cs. getStrScore enc dec m names (map_put name cs strs)))"

section \<open>Tables of ids\<close>

text \<open>
  What the manager relies on: inserting a key gives it an id for ever, as long as there is room for ids, and different keys have different ids.
\<close>

locale value_ids =
  fixes insert_id :: "'p \<Rightarrow> 't \<Rightarrow> pvid \<times> 't" and id_of :: "'t \<Rightarrow> 'p \<Rightarrow> pvid option" and ok :: "'t \<Rightarrow> bool" and room :: "'t \<Rightarrow> bool"
  assumes ok_insert: "ok t \<Longrightarrow> ok (snd (insert_id p t))"
    and id_insert: "\<lbrakk>ok t; room (snd (insert_id p t))\<rbrakk> \<Longrightarrow> id_of (snd (insert_id p t)) p = Some (fst (insert_id p t))"
    and id_kept: "\<lbrakk>ok t; id_of t q = Some i\<rbrakk> \<Longrightarrow> id_of (snd (insert_id p t)) q = Some i"
    and room_insert: "\<lbrakk>ok t; room (snd (insert_id p t))\<rbrakk> \<Longrightarrow> room t"
    and id_unique: "\<lbrakk>ok t; id_of t p = Some i; id_of t q = Some i\<rbrakk> \<Longrightarrow> p = q"

text \<open>Inserting the keys of a list and entering the values under their ids; keys with id 0 are left out.\<close>

fun put_ids :: "('p \<Rightarrow> 't \<Rightarrow> pvid \<times> 't) \<Rightarrow> ('p \<times> 'v) list \<Rightarrow> (pvid \<times> 'v) list \<Rightarrow> 't \<Rightarrow> (pvid \<times> 'v) list \<times> 't" where
  "put_ids ins [] m t = (m, t)"
| "put_ids ins ((p, v) # es) m t = (let (i, t') = ins p t in put_ids ins es (if i = 0 then m else map_put i v m) t')"

context value_ids
begin

lemma put_ids_table:
  "ok t \<Longrightarrow> ok (snd (put_ids insert_id es m t)) \<and> (room (snd (put_ids insert_id es m t)) \<longrightarrow> room t) \<and>
    (\<forall>q i. id_of t q = Some i \<longrightarrow> id_of (snd (put_ids insert_id es m t)) q = Some i)"
proof (induction es arbitrary: m t)
  case (Cons e es)
  obtain p v where e: "e = (p, v)" by fastforce
  obtain i t' where ins: "insert_id p t = (i, t')" by fastforce
  have t': "ok t'" "room t' \<Longrightarrow> room t" "\<And>q j. id_of t q = Some j \<Longrightarrow> id_of t' q = Some j"
    using ok_insert [OF Cons.prems, of p] room_insert [OF Cons.prems, of p] id_kept [OF Cons.prems, of _ _ p] ins by auto
  from Cons.IH [OF t'(1), of "if i = 0 then m else map_put i v m"] show ?case unfolding e using ins t' by auto
qed simp

lemma put_ids_ordered: "keys_ordered m \<Longrightarrow> keys_ordered (fst (put_ids insert_id es m t))"
  by (induction es arbitrary: m t) (auto split: prod.splits)

lemma put_ids_other:
  "\<lbrakk>ok t; room (snd (put_ids insert_id es m t)); keys_ordered m; \<forall>p\<in>fst ` set es. id_of (snd (put_ids insert_id es m t)) p \<noteq> Some i\<rbrakk> \<Longrightarrow>
    map_of (fst (put_ids insert_id es m t)) i = map_of m i"
proof (induction es arbitrary: m t)
  case (Cons e es)
  obtain p v where e: "e = (p, v)" by fastforce
  obtain j t' where ins: "insert_id p t = (j, t')" by fastforce
  let ?m = "if j = 0 then m else map_put j v m"
  have rec: "put_ids insert_id (e # es) m t = put_ids insert_id es ?m t'" unfolding e using ins by simp
  have t': "ok t'" using ok_insert [OF Cons.prems(1), of p] ins by simp
  note tab = put_ids_table [OF t', of es ?m]
  have "room t'" using tab Cons.prems(2) unfolding rec by blast
  then have "id_of t' p = Some j" using id_insert [OF Cons.prems(1), of p] ins by simp
  then have "id_of (snd (put_ids insert_id es ?m t')) p = Some j" using tab by blast
  moreover have other: "\<forall>q\<in>fst ` set (e # es). id_of (snd (put_ids insert_id es ?m t')) q \<noteq> Some i" using Cons.prems(4) unfolding rec .
  ultimately have "j \<noteq> i" using e by auto
  moreover have "map_of (fst (put_ids insert_id es ?m t')) i = map_of ?m i"
    by (rule Cons.IH [OF t']) (use Cons.prems(2,3) rec other in auto)
  ultimately show ?case unfolding rec using Cons.prems(3) by simp
qed simp

lemma put_ids_entry:
  "\<lbrakk>ok t; room (snd (put_ids insert_id es m t)); keys_ordered m; distinct (map fst es); (p, v) \<in> set es\<rbrakk> \<Longrightarrow>
    \<exists>i. id_of (snd (put_ids insert_id es m t)) p = Some i \<and> (i \<noteq> 0 \<longrightarrow> map_of (fst (put_ids insert_id es m t)) i = Some v)"
proof (induction es arbitrary: m t)
  case (Cons e es)
  obtain p' v' where e: "e = (p', v')" by fastforce
  obtain j t' where ins: "insert_id p' t = (j, t')" by fastforce
  let ?m = "if j = 0 then m else map_put j v' m"
  have rec: "put_ids insert_id (e # es) m t = put_ids insert_id es ?m t'" unfolding e using ins by simp
  have t': "ok t'" "keys_ordered ?m" using ok_insert [OF Cons.prems(1), of p'] ins Cons.prems(3) by auto
  note tab = put_ids_table [OF t'(1), of es ?m]
  have room: "room (snd (put_ids insert_id es ?m t'))" using Cons.prems(2) unfolding rec .
  show ?case
  proof (cases "(p, v) = e")
    case False
    then show ?thesis unfolding rec using Cons.IH [OF t'(1) room t'(2)] Cons.prems(4,5) by simp
  next
    case True
    have "room t'" using tab room by blast
    then have "id_of t' p = Some j" using id_insert [OF Cons.prems(1), of p'] ins e True by simp
    then have id: "id_of (snd (put_ids insert_id es ?m t')) p = Some j" using tab by blast
    have "map_of (fst (put_ids insert_id es ?m t')) j = map_of ?m j"
    proof (rule put_ids_other [OF t'(1) room t'(2)], rule ballI)
      fix q assume "q \<in> fst ` set es"
      then have "q \<noteq> p" using Cons.prems(4) e True by auto
      then show "id_of (snd (put_ids insert_id es ?m t')) q \<noteq> Some j" using id_unique tab id by blast
    qed
    then show ?thesis unfolding rec using id Cons.prems(3) e True by auto
  qed
qed simp

end

text \<open>The table of property values is such a table.\<close>

definition table_ok :: "prop_value_table option \<Rightarrow> bool" where
  "table_ok T \<longleftrightarrow> (\<exists>t. T = Some t \<and> pvt_wf t)"

definition table_room :: "prop_value_table option \<Rightarrow> bool" where
  "table_room T \<longleftrightarrow> (\<forall>t. T = Some t \<longrightarrow> length (propStrVec t) < 2 ^ 32)"

definition table_id :: "prop_value_table option \<Rightarrow> ustring list \<Rightarrow> pvid option" where
  "table_id T path = Option.bind T (\<lambda>t. lookup_path (childMapTable t) path 0)"

lemma insert_value_table:
  assumes "pvt_wf t"
  shows "\<exists>i t'. insert_value path (Some t) = (i, Some t') \<and> pvt_wf t' \<and> pvt_extends t t' \<and>
    (length (propStrVec t') < 2 ^ 32 \<longrightarrow> lookup_path (childMapTable t') path 0 = Some i)"
proof -
  obtain r t' where ins: "insertPropValueId path t = (r, t')" by fastforce
  have "pvt_wf t'" "pvt_extends t t'" "\<And>i. r = Inr i \<Longrightarrow> lookup_path (childMapTable t') path 0 = Some i"
    "\<And>e. r = Inl e \<Longrightarrow> length (propStrVec t') = 2 ^ 32"
    using insert_path_correct [OF assms pvt_root_in_range [OF assms], of path] ins by (auto simp: insertPropValueId_def)
  then show ?thesis using ins by (cases r) (auto simp: insert_value_def)
qed

interpretation pv: value_ids insert_value table_id table_ok table_room
proof
  fix T :: "prop_value_table option" and p q :: "ustring list" and i :: pvid
  assume "table_ok T"
  then obtain t where t: "T = Some t" "pvt_wf t" by (auto simp: table_ok_def)
  obtain j t' where ins: "insert_value p T = (j, Some t')" "pvt_wf t'" "pvt_extends t t'" "length (propStrVec t') < 2 ^ 32 \<longrightarrow> lookup_path (childMapTable t') p 0 = Some j"
    using insert_value_table [OF t(2), of p] t(1) by blast
  show "table_ok (snd (insert_value p T))" using ins by (simp add: table_ok_def)
  show "table_id (snd (insert_value p T)) p = Some (fst (insert_value p T))" if "table_room (snd (insert_value p T))"
    using that ins by (simp add: table_room_def table_id_def)
  show "table_id (snd (insert_value p T)) q = Some i" if "table_id T q = Some i"
    using that lookup_path_mono [OF ins(3) pvt_wf_tree [OF t(2)] pvt_root_in_range [OF t(2)]] ins(1) t(1) by (simp add: table_id_def)
  show "table_room T" if "table_room (snd (insert_value p T))"
    using that ins(1,3) t(1) by (auto simp: table_room_def pvt_extends_def)
  show "p = q" if "table_id T p = Some i" "table_id T q = Some i"
    using that t id_of_path [OF t(2), of p i] id_of_path [OF t(2), of q i] by (simp add: table_id_def)
qed

section \<open>Converting names to ids\<close>

text \<open>A map of scores by names as the parser builds it, with strings that the conversion tells apart.\<close>

definition valid_scores :: "(string \<Rightarrow> ustring) \<Rightarrow> string set \<Rightarrow> 's merchant_str_map \<Rightarrow> bool" where
  "valid_scores enc V strs \<longleftrightarrow> inj_on enc V \<and> keys_ordered strs \<and>
     (\<forall>(name, cs)\<in>set strs. name \<in> V \<and> keys_ordered (categoryScoreMap cs) \<and> (\<forall>path\<in>fst ` set (categoryScoreMap cs). set path \<subseteq> V))"

text \<open>The scores by ids that a table of categories gives to scores by names.\<close>

definition scores_by_id :: "(string \<Rightarrow> ustring) \<Rightarrow> prop_value_table option \<Rightarrow> (string list, 's) category_score \<Rightarrow> (pvid, 's) category_score \<Rightarrow> bool" where
  "scores_by_id enc T strs ids \<longleftrightarrow> generalScore ids = generalScore strs \<and>
     (\<forall>(path, s)\<in>set (categoryScoreMap strs). path \<noteq> [] \<longrightarrow> (\<exists>i. table_id T (map enc path) = Some i \<and> map_of (categoryScoreMap ids) i = Some s)) \<and>
     (\<forall>i. map_of (categoryScoreMap ids) i \<noteq> None \<longrightarrow> (\<exists>path\<in>fst ` set (categoryScoreMap strs). table_id T (map enc path) = Some i))"

lemma scores_by_id_kept:
  assumes "scores_by_id enc T strs ids" "\<forall>q i. table_id T q = Some i \<longrightarrow> table_id T' q = Some i"
  shows "scores_by_id enc T' strs ids"
proof -
  have entry: "\<exists>i. table_id T (map enc path) = Some i \<and> map_of (categoryScoreMap ids) i = Some s" if "(path, s) \<in> set (categoryScoreMap strs)" "path \<noteq> []" for path s
    using assms(1) that unfolding scores_by_id_def by blast
  have other: "\<exists>path\<in>fst ` set (categoryScoreMap strs). table_id T (map enc path) = Some i" if "map_of (categoryScoreMap ids) i \<noteq> None" for i
    using assms(1) that unfolding scores_by_id_def by blast
  show ?thesis unfolding scores_by_id_def
  proof (intro conjI allI impI ballI)
    show "generalScore ids = generalScore strs" using assms(1) by (simp add: scores_by_id_def)
  next
    fix e assume e: "e \<in> set (categoryScoreMap strs)"
    obtain path s where "e = (path, s)" by fastforce
    then show "case e of (path, s) \<Rightarrow> path \<noteq> [] \<longrightarrow> (\<exists>i. table_id T' (map enc path) = Some i \<and> map_of (categoryScoreMap ids) i = Some s)"
      using entry [of path s] e assms(2) by auto
  next
    fix i assume "map_of (categoryScoreMap ids) i \<noteq> None"
    then show "\<exists>path\<in>fst ` set (categoryScoreMap strs). table_id T' (map enc path) = Some i" using other assms(2) by blast
  qed
qed

lemma table_id_nonzero:
  assumes "table_ok T" "table_id T path = Some i" "path \<noteq> []"
  shows "i \<noteq> 0"
proof -
  obtain t where t: "T = Some t" "pvt_wf t" using assms(1) by (auto simp: table_ok_def)
  show ?thesis by (rule lookup_path_nonzero [OF pvt_wf_tree [OF t(2)] pvt_root_in_range [OF t(2)] _ assms(3)]) (use assms(2) t in \<open>simp add: table_id_def\<close>)
qed

lemma convert_categories_put_ids:
  "convert_categories enc es ids m =
    (let (ids', T) = put_ids insert_value (map (apfst (map enc)) es) ids (categoryValueTable m) in (ids', m\<lparr>categoryValueTable := T\<rparr>))"
  by (induction enc es ids m rule: convert_categories.induct)
    (auto simp: insertCategoryId_def convert_to_ustr_vector_def Let_def split: prod.splits)

lemma distinct_encoded:
  assumes "inj_on enc V" "keys_ordered (es :: (string list \<times> 's) list)" "\<forall>path\<in>fst ` set es. set path \<subseteq> V"
  shows "distinct (map fst (map (apfst (map enc)) es))"
proof -
  have "inj_on (map enc) (lists V)" using assms(1) by (rule inj_on_map_lists) 
  then have "inj_on (map enc) (set (map fst es))" by (rule inj_on_subset) (use assms(3) in auto)
  then have "distinct (map (map enc) (map fst es))" using keys_ordered_distinct [OF assms(2)] by (simp add: distinct_map comp_inj_on)
  then show ?thesis by (simp add: comp_def)
qed

lemma convertCategoryScore_ids:
  assumes "convertCategoryScore enc strs category_score_new m = (ids, m')" "table_ok (categoryValueTable m)" "table_room (categoryValueTable m')"
    "inj_on enc V" "keys_ordered (categoryScoreMap strs)" "\<forall>path\<in>fst ` set (categoryScoreMap strs). set path \<subseteq> V"
  shows "scores_by_id enc (categoryValueTable m') strs ids"
proof -
  let ?es = "map (apfst (map enc)) (categoryScoreMap strs)"
  obtain cs T where put: "put_ids insert_value ?es [] (categoryValueTable m) = (cs, T)" by fastforce
  have res: "ids = \<lparr>categoryScoreMap = cs, generalScore = generalScore strs\<rparr>" "categoryValueTable m' = T"
    using assms(1) put by (auto simp: convertCategoryScore_def convert_categories_put_ids category_score_new_def)
  note dist = distinct_encoded [OF assms(4-6)]
  have T: "table_ok T" "table_room T" using pv.put_ids_table [OF assms(2), of ?es "[]"] put assms(3) res by auto
  have entry: "\<exists>i. table_id T (map enc path) = Some i \<and> map_of cs i = Some s" if "(path, s) \<in> set (categoryScoreMap strs)" "path \<noteq> []" for path s
  proof -
    have "(map enc path, s) \<in> set ?es" using that(1) by force
    then obtain i where "table_id T (map enc path) = Some i" "i \<noteq> 0 \<longrightarrow> map_of cs i = Some s"
      using pv.put_ids_entry [OF assms(2) _ _ dist, of "[]" "map enc path" s] put T by auto
    then show ?thesis using table_id_nonzero [OF T(1)] that(2) by blast
  qed
  have other: "\<exists>path\<in>fst ` set (categoryScoreMap strs). table_id T (map enc path) = Some i" if "map_of cs i \<noteq> None" for i
    using pv.put_ids_other [OF assms(2), of ?es "[]" i] put T that by fastforce
  show ?thesis unfolding scores_by_id_def res using entry other by auto
qed

lemma convertCategoryScore_tables:
  assumes "convertCategoryScore enc strs ids m = (ids', m')" "table_ok (categoryValueTable m)"
  shows "table_ok (categoryValueTable m')" "table_room (categoryValueTable m') \<Longrightarrow> table_room (categoryValueTable m)"
    "table_id (categoryValueTable m) q = Some i \<Longrightarrow> table_id (categoryValueTable m') q = Some i" "merchantValueTable m' = merchantValueTable m" "idScoreMap m' = idScoreMap m"
  using assms pv.put_ids_table [OF assms(2), of "map (apfst (map enc)) (categoryScoreMap strs)" "categoryScoreMap ids"]
  by (auto simp: convertCategoryScore_def convert_categories_put_ids Let_def split: prod.splits)

lemma insertMerchantId_tables:
  assumes "insertMerchantId enc name m = (i, m')" "table_ok (merchantValueTable m)"
  shows "table_ok (merchantValueTable m')" "table_room (merchantValueTable m') \<Longrightarrow> table_room (merchantValueTable m)"
    "table_id (merchantValueTable m) q = Some j \<Longrightarrow> table_id (merchantValueTable m') q = Some j" "categoryValueTable m' = categoryValueTable m" "idScoreMap m' = idScoreMap m"
    "table_room (merchantValueTable m') \<Longrightarrow> table_id (merchantValueTable m') [enc name] = Some i"
  using assms(1) pv.ok_insert [OF assms(2), of "[enc name]"] pv.room_insert [OF assms(2), of "[enc name]"] pv.id_kept [OF assms(2), of q j "[enc name]"]
    pv.id_insert [OF assms(2), of "[enc name]"]
  by (auto simp: insertMerchantId_def split: prod.splits)

text \<open>Both tables only grow.\<close>

definition tables_grow :: "'s merchant_score_mgr \<Rightarrow> 's merchant_score_mgr \<Rightarrow> bool" where
  "tables_grow m m' \<longleftrightarrow> table_ok (merchantValueTable m') \<and> table_ok (categoryValueTable m') \<and> idScoreMap m' = idScoreMap m \<and>
     (table_room (merchantValueTable m') \<longrightarrow> table_room (merchantValueTable m)) \<and> (table_room (categoryValueTable m') \<longrightarrow> table_room (categoryValueTable m)) \<and>
     (\<forall>q i. table_id (merchantValueTable m) q = Some i \<longrightarrow> table_id (merchantValueTable m') q = Some i) \<and>
     (\<forall>q i. table_id (categoryValueTable m) q = Some i \<longrightarrow> table_id (categoryValueTable m') q = Some i)"

lemma tables_grow_trans: "tables_grow m m' \<Longrightarrow> tables_grow m' m'' \<Longrightarrow> tables_grow m m''"
  by (simp add: tables_grow_def)

lemma merchant_step_grows:
  assumes "insertMerchantId enc name m = (i, m1)" "table_ok (merchantValueTable m)" "table_ok (categoryValueTable m)"
  shows "tables_grow m m1" "convertCategoryScore enc strs ids m1 = (cs, m2) \<Longrightarrow> tables_grow m m2 \<and> merchantValueTable m2 = merchantValueTable m1"
proof -
  note T = insertMerchantId_tables [OF assms(1,2)]
  show "tables_grow m m1" using T assms(3) by (simp add: tables_grow_def)
  assume "convertCategoryScore enc strs ids m1 = (cs, m2)"
  from convertCategoryScore_tables [OF this] show "tables_grow m m2 \<and> merchantValueTable m2 = merchantValueTable m1"
    using T assms(3) by (simp add: tables_grow_def)
qed

lemma convertMerchantScore_grows:
  "\<lbrakk>convertMerchantScore enc es ids m = (ids', m'); table_ok (merchantValueTable m); table_ok (categoryValueTable m)\<rbrakk> \<Longrightarrow> tables_grow m m'"
proof (induction es arbitrary: ids m)
  case Nil
  then show ?case by (simp add: tables_grow_def)
next
  case (Cons e es)
  obtain name strs where e: "e = (name, strs)" by fastforce
  obtain i m1 where ins: "insertMerchantId enc name m = (i, m1)" by fastforce
  obtain cs m2 where conv: "convertCategoryScore enc strs (map_get category_score_new i ids) m1 = (cs, m2)" by fastforce
  note g = merchant_step_grows [OF ins Cons.prems(2,3)]
  have ok: "table_ok (merchantValueTable m1)" "table_ok (categoryValueTable m1)" "table_ok (merchantValueTable m2)" "table_ok (categoryValueTable m2)"
    using g(1) g(2) [OF conv] by (simp_all add: tables_grow_def)
  show ?case
  proof (cases "i = 0")
    case True
    then have "tables_grow m1 m'" using Cons.IH [of ids m1] Cons.prems(1) ok e ins by simp
    then show ?thesis by (rule tables_grow_trans [OF g(1)])
  next
    case False
    then have "tables_grow m2 m'" using Cons.IH [of "map_put i cs ids" m2] Cons.prems(1) ok e ins conv by simp
    then show ?thesis using g(2) [OF conv] tables_grow_trans by blast
  qed
qed

lemma encoded_names:
  assumes "table_ok T" "table_id T [enc a] = Some i" "table_id T [enc b] = Some i" "inj_on enc V" "a \<in> V" "b \<in> V"
  shows "a = b"
  using pv.id_unique [OF assms(1-3)] assms(4-6) by (simp add: inj_on_eq_iff)

text \<open>What the loop over the merchants leaves: the scores of each merchant under its id, and the others as they were.\<close>

lemma convertMerchantScore_ids:
  "\<lbrakk>convertMerchantScore enc es ids m = (ids', m'); table_ok (merchantValueTable m); table_ok (categoryValueTable m); table_room (merchantValueTable m');
    table_room (categoryValueTable m'); inj_on enc V; distinct (map fst es);
    \<forall>(name, cs)\<in>set es. name \<in> V \<and> keys_ordered (categoryScoreMap cs) \<and> (\<forall>path\<in>fst ` set (categoryScoreMap cs). set path \<subseteq> V);
    keys_ordered ids; \<forall>name\<in>fst ` set es. \<forall>i. table_id (merchantValueTable m') [enc name] = Some i \<longrightarrow> map_of ids i = None\<rbrakk> \<Longrightarrow>
   keys_ordered ids' \<and> (\<forall>j. (\<forall>name\<in>fst ` set es. table_id (merchantValueTable m') [enc name] \<noteq> Some j) \<longrightarrow> map_of ids' j = map_of ids j) \<and>
   (\<forall>(name, strs)\<in>set es. \<exists>i cs. table_id (merchantValueTable m') [enc name] = Some i \<and> map_of ids' i = Some cs \<and> scores_by_id enc (categoryValueTable m') strs cs)"
proof (induction es arbitrary: ids m)
  case Nil
  then show ?case by simp
next
  case (Cons e es)
  obtain name strs where e: "e = (name, strs)" by fastforce
  obtain i m1 where ins: "insertMerchantId enc name m = (i, m1)" by fastforce
  obtain cs m2 where conv: "convertCategoryScore enc strs (map_get category_score_new i ids) m1 = (cs, m2)" by fastforce
  note g = merchant_step_grows [OF ins Cons.prems(2,3)]
  have ok: "table_ok (merchantValueTable m2)" "table_ok (categoryValueTable m2)" "table_ok (merchantValueTable m1)" "table_ok (categoryValueTable m1)"
    using g(1) g(2) [OF conv] by (simp_all add: tables_grow_def)
  have grow: "tables_grow m1 m'"
  proof -
    have "convertMerchantScore enc es (if i = 0 then ids else map_put i cs ids) (if i = 0 then m1 else m2) = (ids', m')" using Cons.prems(1) e ins conv by (cases "i = 0") simp_all
    from convertMerchantScore_grows [OF this] ok have "tables_grow (if i = 0 then m1 else m2) m'" by simp
    moreover have "tables_grow m1 m2" using convertCategoryScore_tables [OF conv ok(4)] ok by (simp add: tables_grow_def)
    ultimately show ?thesis using tables_grow_trans by (cases "i = 0") auto
  qed
  have id1: "table_id (merchantValueTable m1) [enc name] = Some i" using insertMerchantId_tables(6) [OF ins Cons.prems(2)] grow Cons.prems(4) by (simp add: tables_grow_def)
  then have i0: "i \<noteq> 0" using table_id_nonzero [OF ok(3)] by blast
  have id: "table_id (merchantValueTable m') [enc name] = Some i" using id1 grow by (simp add: tables_grow_def)
  then have new: "map_of ids i = None" using Cons.prems(10) e by simp
  have rec: "convertMerchantScore enc es (map_put i cs ids) m2 = (ids', m')" using Cons.prems(1) e ins conv i0 by simp
  note grow2 = convertMerchantScore_grows [OF rec ok(1,2)]
  have other: "j \<noteq> i" if "name' \<in> fst ` set es" "table_id (merchantValueTable m') [enc name'] = Some j" for name' j
  proof -
    have "name' \<noteq> name" "name' \<in> V" "name \<in> V" using that(1) Cons.prems(7,8) e by auto
    then show ?thesis using encoded_names [OF _ id _ Cons.prems(6)] that(2) grow2 by (auto simp: tables_grow_def)
  qed
  have tail: "distinct (map fst es)"
    "\<forall>(name, cs)\<in>set es. name \<in> V \<and> keys_ordered (categoryScoreMap cs) \<and> (\<forall>path\<in>fst ` set (categoryScoreMap cs). set path \<subseteq> V)" "keys_ordered (map_put i cs ids)"
    using Cons.prems(7-9) by simp_all
  have fresh: "\<forall>name\<in>fst ` set es. \<forall>j. table_id (merchantValueTable m') [enc name] = Some j \<longrightarrow> map_of (map_put i cs ids) j = None"
  proof (intro ballI allI impI)
    fix name' j assume a: "name' \<in> fst ` set es" "table_id (merchantValueTable m') [enc name'] = Some j"
    then have "map_of ids j = None" using Cons.prems(10) by auto
    then show "map_of (map_put i cs ids) j = None" using other [OF a] Cons.prems(9) by simp
  qed
  note IH = Cons.IH [OF rec ok(1,2) Cons.prems(4-6) tail fresh]
  have "map_of ids' i = map_of (map_put i cs ids) i" using IH other by blast
  then have "map_of ids' i = Some cs" using Cons.prems(9) by simp
  moreover have "scores_by_id enc (categoryValueTable m') strs cs"
  proof -
    have "table_room (categoryValueTable m2)" using grow2 Cons.prems(5) by (simp add: tables_grow_def)
    moreover have "convertCategoryScore enc strs category_score_new m1 = (cs, m2)" using conv new by (simp add: map_get_def)
    ultimately have "scores_by_id enc (categoryValueTable m2) strs cs"
      using convertCategoryScore_ids [OF _ ok(4) _ Cons.prems(6)] Cons.prems(8) e by auto
    then show ?thesis by (rule scores_by_id_kept) (use grow2 in \<open>simp add: tables_grow_def\<close>)
  qed
  moreover have "map_of ids' j = map_of ids j" if "\<forall>name\<in>fst ` set (e # es). table_id (merchantValueTable m') [enc name] \<noteq> Some j" for j
  proof -
    have "map_of ids' j = map_of (map_put i cs ids) j" using IH that by simp
    moreover have "j \<noteq> i" using that id e by auto
    ultimately show ?thesis using Cons.prems(9) by simp
  qed
  ultimately show ?case using IH id unfolding e by auto
qed

section \<open>Properties\<close>

text \<open>The score of a category: the one of the longest part of its path that has a score, and the general score when there is none.\<close>

function score_of_category :: "(string list, 's) category_score \<Rightarrow> string list \<Rightarrow> 's" where
  "score_of_category cs path =
     (if path = [] then generalScore cs
      else case map_of (categoryScoreMap cs) path of Some s \<Rightarrow> s | None \<Rightarrow> score_of_category cs (butlast path))"
  by pat_completeness auto

termination
  by (relation "measure (\<lambda>(cs, path). length path)") auto

declare score_of_category.simps [simp del]

lemma parents_of_path:
  assumes "pvt_wf t" "lookup_path (childMapTable t) (path @ [s]) 0 = Some r"
  shows "\<exists>q ids. lookup_path (childMapTable t) path 0 = Some q \<and> getParentIds t q = Some ids \<and> getParentIds t r = Some (r # ids)"
proof -
  note tw = pvt_wf_tree [OF assms(1)]
  obtain q where q: "lookup_path (childMapTable t) path 0 = Some q" "(childMapTable t ! unat q) s = Some r"
    using assms(2) by (auto simp: lookup_path_append bind_eq_Some_conv)
  have "unat q < length (propStrVec t)" using lookup_path_range [OF tw pvt_root_in_range [OF assms(1)] q(1)] .
  then have r: "0 < unat r" "unat r < length (propStrVec t)" "unat (parentIdVec t ! unat r) = unat q" using tree_wfD(6) [OF tw] q(2) by blast+
  obtain ids where "parent_walk (parentIdVec t) q = Some ids" using parent_walk_total [OF tw \<open>unat q < length (propStrVec t)\<close>] by blast
  moreover from this have "parent_walk (parentIdVec t) r = Some (r # ids)"
    using r tree_wfD(1) [OF tw] by (subst parent_walk.simps) (auto simp: unat_gt_0 word_unat_eq_iff [symmetric])
  ultimately show ?thesis using q(1) by (auto simp: getParentIds_def)
qed

lemma first_category_score:
  assumes "pvt_wf t" "scores_by_id enc (Some t) strs cs" "inj_on enc V" "keys_ordered (categoryScoreMap strs)" "\<forall>path\<in>fst ` set (categoryScoreMap strs). set path \<subseteq> V"
  shows "\<lbrakk>lookup_path (childMapTable t) (map enc path) 0 = Some i; set path \<subseteq> V\<rbrakk> \<Longrightarrow> \<exists>ids. getParentIds t i = Some ids \<and>
    (case first_category (categoryScoreMap cs) ids of Some s \<Rightarrow> s | None \<Rightarrow> generalScore cs) = score_of_category strs path"
proof (induction path arbitrary: i rule: rev_induct)
  case Nil
  then show ?case using assms(2) by (simp add: getParentIds_def parent_walk.simps score_of_category.simps scores_by_id_def)
next
  case (snoc x path)
  have ok: "table_ok (Some t)" using assms(1) by (simp add: table_ok_def)
  obtain q ids where q: "lookup_path (childMapTable t) (map enc path) 0 = Some q" "getParentIds t q = Some ids" "getParentIds t i = Some (i # ids)"
    using parents_of_path [OF assms(1), of "map enc path" "enc x" i] snoc.prems(1) by auto
  have IH: "(case first_category (categoryScoreMap cs) ids of Some s \<Rightarrow> s | None \<Rightarrow> generalScore cs) = score_of_category strs path"
    using snoc.IH [OF q(1)] snoc.prems(2) q(2) by simp
  have id: "table_id (Some t) (map enc (path @ [x])) = Some i" using snoc.prems(1) by (simp add: table_id_def)
  have "map_of (categoryScoreMap cs) i = map_of (categoryScoreMap strs) (path @ [x])"
  proof (cases "map_of (categoryScoreMap strs) (path @ [x])")
    case (Some s)
    then have "(path @ [x], s) \<in> set (categoryScoreMap strs)" by (rule map_of_SomeD)
    then show ?thesis using assms(2) id Some unfolding scores_by_id_def by fastforce
  next
    case None
    have "map_of (categoryScoreMap cs) i = None"
    proof (rule ccontr)
      assume "map_of (categoryScoreMap cs) i \<noteq> None"
      then obtain p where p: "p \<in> fst ` set (categoryScoreMap strs)" "table_id (Some t) (map enc p) = Some i" using assms(2) unfolding scores_by_id_def by blast
      then have "map enc p = map enc (path @ [x])" using pv.id_unique [OF ok _ id] by blast
      moreover have "p \<in> lists V" "path @ [x] \<in> lists V" using p(1) assms(5) snoc.prems(2) by auto
      ultimately have "p = path @ [x]" using inj_on_map_lists [OF assms(3)] by (simp only: inj_on_eq_iff)
      then show False using p(1) None by (auto simp: map_of_eq_None_iff)
    qed
    then show ?thesis using None by simp
  qed
  then show ?case using q IH by (subst score_of_category.simps) (auto split: option.splits)
qed

lemma foldl_put:
  "keys_ordered all \<Longrightarrow> distinct (map fst es) \<Longrightarrow> map_of (foldl (\<lambda>all (k, v). map_put k v all) all es) = map_of all ++ map_of es"
proof (induction es arbitrary: all)
  case (Cons e es)
  obtain k v where e: "e = (k, v)" by fastforce
  have "map_of es k = None" using Cons.prems(2) e by (simp add: map_of_eq_None_iff)
  then show ?case using Cons e by (auto simp: fun_eq_iff map_add_def split: option.splits)
qed simp

text \<open>C14: After scores were set by names, the score of a merchant for a product is the score of the most specific category of the product that has a score for
this merchant, and the general score of the merchant when there is none; merchants that were not named keep their scores. (The tables have room for the ids, and the conversion to
\<open>UString\<close> tells the strings apart.)
\<close>

theorem merchant_scores_by_category:
  assumes "table_ok (merchantValueTable m)" "table_ok (categoryValueTable m)" "keys_ordered (idScoreMap m)" "valid_scores enc V strs" "m' = setScore enc strs m"
    "merchantValueTable m' = Some tm" "categoryValueTable m' = Some tc" "length (propStrVec tm) < 2 ^ 32" "length (propStrVec tc) < 2 ^ 32"
  shows "(\<forall>(name, cs)\<in>set strs. \<forall>path i. set path \<subseteq> V \<and> propValueId tc (map enc path) = i \<and> (i \<noteq> 0 \<or> path = []) \<longrightarrow>
      (\<exists>ids. getParentIds tc i = Some ids \<and> getIdScore m' (propValueId tm [enc name]) ids = score_of_category cs path)) \<and>
    (\<forall>merchantId ids. (\<forall>(name, cs)\<in>set strs. propValueId tm [enc name] \<noteq> merchantId) \<longrightarrow> getIdScore m' merchantId ids = getIdScore m merchantId ids)"
proof -
  obtain ids1 m1 where conv: "convertMerchantScore enc strs [] m = (ids1, m1)" by fastforce
  have m': "m' = setIdScore ids1 m1" using assms(5) conv by (simp add: setScore_def)
  then have tabs: "merchantValueTable m1 = Some tm" "categoryValueTable m1 = Some tc" using assms(6,7) by (simp_all add: setIdScore_def)
  have room: "table_room (merchantValueTable m1)" "table_room (categoryValueTable m1)" using tabs assms(8,9) by (simp_all add: table_room_def)
  have V: "inj_on enc V" "keys_ordered strs"
    "\<forall>(name, cs)\<in>set strs. name \<in> V \<and> keys_ordered (categoryScoreMap cs) \<and> (\<forall>path\<in>fst ` set (categoryScoreMap cs). set path \<subseteq> V)"
    using assms(4) by (auto simp: valid_scores_def)
  note grow = convertMerchantScore_grows [OF conv assms(1,2)]
  have wf: "pvt_wf tm" "pvt_wf tc" using grow tabs by (auto simp: tables_grow_def table_ok_def)
  note C = convertMerchantScore_ids [OF conv assms(1,2) room V(1) keys_ordered_distinct [OF V(2)] V(3) keys_ordered_Nil]
  have ids: "keys_ordered ids1" "\<And>j. (\<forall>name\<in>fst ` set strs. table_id (Some tm) [enc name] \<noteq> Some j) \<Longrightarrow> map_of ids1 j = None"
    "\<And>name cs. (name, cs) \<in> set strs \<Longrightarrow> \<exists>i ids. table_id (Some tm) [enc name] = Some i \<and> map_of ids1 i = Some ids \<and> scores_by_id enc (Some tc) cs ids"
    using C tabs by auto
  have map: "map_of (idScoreMap m') = map_of (idScoreMap m) ++ map_of ids1"
    using foldl_put [OF assms(3) keys_ordered_distinct [OF ids(1)]] grow m' by (simp add: setIdScore_def tables_grow_def)
  have id: "propValueId tm [enc name] = i" if "table_id (Some tm) [enc name] = Some i" for name i
    using that by (simp add: table_id_def propValueId_lookup)
  have named: "\<exists>ids. getParentIds tc i = Some ids \<and> getIdScore m' (propValueId tm [enc name]) ids = score_of_category cs path"
    if n: "(name, cs) \<in> set strs" "set path \<subseteq> V" "propValueId tc (map enc path) = i" "i \<noteq> 0 \<or> path = []" for name cs path i
  proof -
    obtain mid s where s: "table_id (Some tm) [enc name] = Some mid" "map_of ids1 mid = Some s" "scores_by_id enc (Some tc) cs s" using ids(3) [OF n(1)] by blast
    have "lookup_path (childMapTable tc) (map enc path) 0 = Some i" using n(3,4) by (auto simp: propValueId_lookup split: option.splits)
    then obtain ids where "getParentIds tc i = Some ids" "(case first_category (categoryScoreMap s) ids of Some s \<Rightarrow> s | None \<Rightarrow> generalScore s) = score_of_category cs path"
      using first_category_score [OF wf(2) s(3) V(1) _ _ _ n(2)] V(3) n(1) by fastforce
    then show ?thesis using s(2) map id [OF s(1)] by (simp add: getIdScore_def)
  qed
  have others: "getIdScore m' j ids = getIdScore m j ids" if "\<forall>(name, cs)\<in>set strs. propValueId tm [enc name] \<noteq> j" for j ids
  proof -
    have "map_of ids1 j = None" by (rule ids(2)) (use that id in fastforce)
    then show ?thesis using map by (simp add: getIdScore_def map_add_def)
  qed
  show ?thesis using named others by fastforce
qed

section \<open>Witness\<close>

text \<open>A merchant with a general score and a score for one category; products of a category below have the score of the category.\<close>

definition sample_scores :: "nat merchant_str_map" where
  "sample_scores = [(''shop'', \<lparr>categoryScoreMap = [([''a''], 5)], generalScore = 2\<rparr>)]"

definition one_value :: "string \<Rightarrow> prop_value_table" where
  "one_value s = (pvt_init [] [])\<lparr>childMapTable := [[ustr s \<mapsto> 1], Map.empty], propStrVec := [[], ustr s], parentIdVec := [0, 0]\<rparr>"

definition sample_mgr :: "nat merchant_score_mgr" where
  "sample_mgr = merchant_mgr_new (Some (pvt_init [] [])) (Some (pvt_init [] []))"

lemma insert_one: "insert_value [ustr s] (Some (pvt_init [] [])) = (1, Some (one_value s))"
  by (simp add: insert_value_def insertPropValueId_def pvt_init_def one_value_def Let_def)

lemma sample_set:
  "setScore ustr sample_scores sample_mgr =
    \<lparr>merchantValueTable = Some (one_value ''shop''), categoryValueTable = Some (one_value ''a''), scoreFilePath = None,
     idScoreMap = [(1, \<lparr>categoryScoreMap = [(1, 5)], generalScore = 2\<rparr>)]\<rparr>"
  by (simp add: setScore_def sample_scores_def sample_mgr_def merchant_mgr_new_def insertMerchantId_def insertCategoryId_def convertCategoryScore_def insert_one
      convert_to_ustr_vector_def setIdScore_def map_get_def category_score_new_def)

theorem merchant_scores_by_category_witness:
  "\<exists>ids. getParentIds (one_value ''a'') 1 = Some ids \<and> getIdScore (setScore ustr sample_scores sample_mgr) 1 ids = 5"
proof -
  let ?V = "{''shop'', ''a''}" and ?m = "setScore ustr sample_scores sample_mgr"
  have h: "table_ok (merchantValueTable sample_mgr)" "table_ok (categoryValueTable sample_mgr)" "keys_ordered (idScoreMap sample_mgr)"
    by (simp_all add: sample_mgr_def merchant_mgr_new_def table_ok_def pvt_init_wf)
  have v: "valid_scores ustr ?V sample_scores" by (simp add: valid_scores_def sample_scores_def keys_ordered_def ustr_def inj_on_def)
  have t: "merchantValueTable ?m = Some (one_value ''shop'')" "categoryValueTable ?m = Some (one_value ''a'')"
    "length (propStrVec (one_value ''shop'')) < 2 ^ 32" "length (propStrVec (one_value ''a'')) < 2 ^ 32" by (simp_all add: sample_set one_value_def)
  have ids: "propValueId (one_value ''a'') [ustr ''a''] = 1" "propValueId (one_value ''shop'') [ustr ''shop''] = 1"
    by (simp_all add: propValueId_def one_value_def)
  from merchant_scores_by_category [OF h v refl t] ids show ?thesis
    by (auto simp: sample_scores_def score_of_category.simps dest: spec [of _ "[''a'']"])
qed

end
