(* ===== verification/Query_Normal.thy ===== *)
theory Query_Normal
  imports Split_Ustr "HOL-Library.Char_ord" "HOL-Library.List_Lexorder"
begin

text \<open>
  The normal form of a query and its length in characters (core/common/QueryNormalizer.cpp: \<open>tokenizeQuery\<close>, \<open>normalize\<close>, \<open>countCharNum\<close>, \<open>isLongQuery\<close>). The tests of
  characters of \<open>UString\<close> are the argument \<open>cc\<close>; \<open>isspace\<close> and \<open>tolower\<close> are those of the C locale.
\<close>

section \<open>Tokens\<close>

definition is_space :: "char \<Rightarrow> bool" where
  "is_space c \<longleftrightarrow> (of_char c :: nat) \<in> {32, 9, 10, 11, 12, 13}"

definition to_lower :: "char \<Rightarrow> char" where
  "to_lower c = (let n = of_char c :: nat in if 65 \<le> n \<and> n \<le> 90 then char_of (n + 32) else c)"

text \<open>The loop over the characters; \<open>tokens\<close> and \<open>current\<close> are the variables of the source.\<close>

fun token_loop :: "string \<Rightarrow> string list \<Rightarrow> string \<Rightarrow> string list" where
  "token_loop [] tokens current = (if current \<noteq> [] then tokens @ [current] else tokens)"
| "token_loop (ch # query) tokens current =
     (if \<not> is_space ch then token_loop query tokens (current @ [to_lower ch])
      else if current \<noteq> [] then token_loop query (tokens @ [current]) []
      else token_loop query tokens current)"

definition tokenizeQuery :: "string \<Rightarrow> string list" where
  "tokenizeQuery query = token_loop query [] []"

fun mergeTokens :: "string list \<Rightarrow> string" where
  "mergeTokens [] = []"
| "mergeTokens [t] = t"
| "mergeTokens (t # t' # ts) = t @ '' '' @ mergeTokens (t' # ts)"

definition normalize :: "string \<Rightarrow> string" where
  "normalize fromStr = mergeTokens (sort (tokenizeQuery fromStr))"

section \<open>Counting characters\<close>

record char_class =
  isThisAlphaChar :: "uchar \<Rightarrow> bool"
  isThisNumericChar :: "uchar \<Rightarrow> bool"
  isThisPunctuationChar :: "uchar \<Rightarrow> bool"
  isThisSpaceChar :: "uchar \<Rightarrow> bool"

definition kFullStop :: uchar where "kFullStop = of_char (CHR ''.'')"
definition kCarriageReturn :: uchar where "kCarriageReturn = of_char (CHR 0x0D)"

fun count_loop :: "char_class \<Rightarrow> ustring \<Rightarrow> nat \<Rightarrow> bool \<Rightarrow> nat" where
  "count_loop cc [] num isAlphaNumChar = num"
| "count_loop cc (c # cs) num isAlphaNumChar =
     (if isThisAlphaChar cc c \<or> isThisNumericChar cc c \<or> c = kFullStop then count_loop cc cs (if isAlphaNumChar then num else num + 1) True
      else if isThisPunctuationChar cc c \<or> isThisSpaceChar cc c \<or> c = kCarriageReturn then count_loop cc cs num False
      else count_loop cc cs (num + 1) False)"

definition countCharNum :: "char_class \<Rightarrow> (string \<Rightarrow> ustring) \<Rightarrow> string \<Rightarrow> nat" where
  "countCharNum cc enc query = count_loop cc (enc query) 0 False"

definition LONG_QUERY_MIN_CHAR_NUM :: nat where "LONG_QUERY_MIN_CHAR_NUM = 8"
definition LONG_QUERY_MAX_CHAR_NUM :: nat where "LONG_QUERY_MAX_CHAR_NUM = 30"

definition isLongQuery :: "char_class \<Rightarrow> (string \<Rightarrow> ustring) \<Rightarrow> string \<Rightarrow> bool" where
  "isLongQuery cc enc query \<longleftrightarrow> countCharNum cc enc query \<ge> LONG_QUERY_MIN_CHAR_NUM"

definition isWrongQuery :: "char_class \<Rightarrow> (string \<Rightarrow> ustring) \<Rightarrow> string \<Rightarrow> bool" where
  "isWrongQuery cc enc query \<longleftrightarrow> countCharNum cc enc query \<ge> LONG_QUERY_MAX_CHAR_NUM"

section \<open>Normal forms\<close>

text \<open>A token has characters, none of them is a space or a capital letter.\<close>

definition is_token :: "string \<Rightarrow> bool" where
  "is_token t \<longleftrightarrow> t \<noteq> [] \<and> (\<forall>c\<in>set t. \<not> is_space c \<and> to_lower c = c)"

lemma of_to_lower: "of_char (to_lower c) = (let n = of_char c :: nat in if 65 \<le> n \<and> n \<le> 90 then n + 32 else n)"
  by (simp add: to_lower_def Let_def take_bit_eq_mod)

lemma to_lower_idem [simp]: "to_lower (to_lower c) = to_lower c"
  by (auto simp: to_lower_def [of "to_lower c"] of_to_lower Let_def split: if_splits)

lemma is_space_to_lower [simp]: "is_space (to_lower c) = is_space c"
  by (auto simp: is_space_def of_to_lower Let_def)

lemma token_loop_word: "\<forall>c\<in>set w. \<not> is_space c \<and> to_lower c = c \<Longrightarrow> token_loop (w @ q) tokens cur = token_loop q tokens (cur @ w)"
  by (induction w arbitrary: cur) auto

lemma token_loop_merge: "\<forall>t\<in>set ts. is_token t \<Longrightarrow> token_loop (mergeTokens ts) tokens [] = tokens @ ts"
proof (induction ts arbitrary: tokens rule: mergeTokens.induct)
  case (2 t)
  then show ?case using token_loop_word [of t "[]" tokens "[]"] by (simp add: is_token_def)
next
  case (3 t t' ts)
  then show ?case using token_loop_word [of t "'' '' @ mergeTokens (t' # ts)" tokens "[]"] by (simp add: is_token_def is_space_def)
qed simp

lemma token_loop_tokens:
  "list_all is_token tokens \<Longrightarrow> cur = [] \<or> is_token cur \<Longrightarrow> list_all is_token (token_loop q tokens cur)"
proof (induction q arbitrary: tokens cur)
  case (Cons ch q)
  have "is_token (cur @ [to_lower ch])" if "\<not> is_space ch" using Cons.prems(2) that by (auto simp: is_token_def)
  then show ?case using Cons by (cases "is_space ch"; cases "cur = []") auto
qed auto

lemma tokens_of_normal: "tokenizeQuery (normalize s) = sort (tokenizeQuery s)"
proof -
  have "\<forall>t\<in>set (sort (tokenizeQuery s)). is_token t" using token_loop_tokens [of "[]" "[]" s] by (simp add: tokenizeQuery_def list_all_iff)
  from token_loop_merge [OF this, of "[]"] show ?thesis by (simp add: tokenizeQuery_def normalize_def)
qed


end
