(* ===== verification/Product_Rank.thy ===== *)
theory Product_Rank
  imports Complex_Main Merchant_Score Query_Normal "HOL-Library.Signed_Division"
begin

text \<open>
  The ranking of the products of a search (core/mining-manager/product-ranker). Evaluators give each of the first products a list of scores: the category score,
  the number of offers, the round of its merchant and the score of its merchant; the products are sorted by these lists. Scores
  (\<open>score_t\<close> is \<open>float\<close>) are elements of an ordered field with rounding to integers. The value of an offer count in its numeric table and the
  random numbers are arguments; the printing of scores is left out.
\<close>

section \<open>Data\<close>

record 's product_score =
  ps_docId :: docid
  ps_topKScore :: 's
  ps_singleMerchantId :: pvid
  ps_rankScores :: "'s list"
  ps_topKNum :: int

definition product_score_new :: "docid \<Rightarrow> 's \<Rightarrow> int \<Rightarrow> 's product_score" where
  "product_score_new doc score num = \<lparr>ps_docId = doc, ps_topKScore = score, ps_singleMerchantId = 0, ps_rankScores = [], ps_topKNum = num\<rparr>"

text \<open>\<open>operator<\<close>: a product precedes another when its list of scores is larger.\<close>

definition score_precedes :: "'s :: linorder product_score \<Rightarrow> 's product_score \<Rightarrow> bool" where
  "score_precedes a b \<longleftrightarrow> ps_rankScores a > ps_rankScores b"

datatype searching_mode = DefaultSearchingMode | OR_Mode | WAND | VERBOSE | SUFFIX_MATCH | ZAMBEZI | AD_INDEX | NotUseSearchingMode

record 's rank_param =
  rp_docIds :: "docid list"
  rp_topKScores :: "'s list"
  rp_docNum :: nat
  rp_isRandomRank :: bool
  rp_query :: string
  rp_searchMode :: searching_mode

definition kMaxDocNum :: nat where "kMaxDocNum = 4000"

definition rank_param_new :: "docid list \<Rightarrow> 's list \<Rightarrow> bool \<Rightarrow> string \<Rightarrow> searching_mode \<Rightarrow> 's rank_param" where
  "rank_param_new docIds topKScores isRandomRank query searchMode =
     \<lparr>rp_docIds = docIds, rp_topKScores = topKScores, rp_docNum = min kMaxDocNum (length docIds), rp_isRandomRank = isRandomRank, rp_query = query, rp_searchMode = searchMode\<rparr>"

section \<open>Evaluators\<close>

text \<open>
  The classes derived from \<open>ProductScoreEvaluator\<close> with their members: weight, page mode and number of results; the table of offer counts; the table of
  merchants, the last category score and the rounds; the manager of merchant scores, the table of categories and the parents; the random numbers.
\<close>

datatype 's evaluator =
    Category_Evaluator 's bool int
  | Offer_Count_Evaluator "docid \<Rightarrow> int option"
  | Diversity_Evaluator prop_value_table 's "pvid \<Rightarrow> int"
  | Merchant_Evaluator "'s merchant_score_mgr" "prop_value_table option" "pvid list"
  | Random_Evaluator "nat \<Rightarrow> 's" nat

definition kEachPageResultNum :: int where "kEachPageResultNum = 12"
definition kMaxOfferItemCount :: int where "kMaxOfferItemCount = 2"

definition to_int :: "'s :: floor_ceiling \<Rightarrow> int" where
  "to_int x = (if x < 0 then \<lceil>x\<rceil> else \<lfloor>x\<rfloor>)"

definition category_evaluate :: "'s :: floor_ceiling \<Rightarrow> bool \<Rightarrow> int \<Rightarrow> 's product_score \<Rightarrow> 's \<times> int" where
  "category_evaluate weight isDiverseInPage resultCount p =
     (if weight = 0 then (0, resultCount)
      else
        let result = of_int (to_int (ps_topKScore p / weight))
        in if isDiverseInPage \<and> result = 0 then (of_int (resultCount sdiv kEachPageResultNum), resultCount - 1) else (result, resultCount))"

definition offer_count_evaluate :: "(docid \<Rightarrow> int option) \<Rightarrow> 's :: floor_ceiling product_score \<Rightarrow> 's" where
  "offer_count_evaluate table p = (case table (ps_docId p) of None \<Rightarrow> 0 | Some offerCount \<Rightarrow> of_int (min offerCount kMaxOfferItemCount))"

text \<open>\<open>None\<close>: a read beyond the end of the table of ids.\<close>

definition diversity_evaluate :: "prop_value_table \<Rightarrow> 's :: floor_ceiling \<Rightarrow> (pvid \<Rightarrow> int) \<Rightarrow> 's product_score \<Rightarrow> ('s \<times> 's \<times> (pvid \<Rightarrow> int) \<times> 's product_score) option" where
  "diversity_evaluate table lastCategoryScore roundMap p =
     (case ps_rankScores p of
        [] \<Rightarrow> Some (0, lastCategoryScore, roundMap, p)
      | categoryScore # scores \<Rightarrow>
          if scores \<noteq> [] \<and> hd scores \<noteq> 1 then Some (0, lastCategoryScore, roundMap, p)
          else Option.bind (pid_getIdList (valueIdTable table) (ps_docId p) prop_id_list_init) (\<lambda>l.
            if il_size l > 1 then Some (0, lastCategoryScore, roundMap, p)
            else if il_size l = 0 then Some (- of_int (ps_topKNum p), lastCategoryScore, roundMap, p)
            else
              let rounds = (if lastCategoryScore \<noteq> categoryScore then (\<lambda>_. 0) else roundMap) in
              Option.bind (prop_id_list_at (valueIdTable table) l 0) (\<lambda>merchantId.
                Some (of_int (rounds merchantId), categoryScore, rounds(merchantId := rounds merchantId - 1), p\<lparr>ps_singleMerchantId := merchantId\<rparr>))))"

definition merchant_evaluate :: "'s :: floor_ceiling merchant_score_mgr \<Rightarrow> prop_value_table option \<Rightarrow> pvid list \<Rightarrow> 's product_score \<Rightarrow> ('s \<times> pvid list) option" where
  "merchant_evaluate mgr categories parentIds p =
     (if ps_singleMerchantId p = 0 then Some (0, parentIds)
      else case categories of
          None \<Rightarrow> Some (getIdScore mgr (ps_singleMerchantId p) parentIds, parentIds)
        | Some t \<Rightarrow> Option.bind (getFirstValueId t (ps_docId p)) (\<lambda>categoryId.
            Option.bind (getParentIds t categoryId) (\<lambda>ids. Some (getIdScore mgr (ps_singleMerchantId p) ids, ids))))"

fun evaluate :: "'s :: floor_ceiling evaluator \<Rightarrow> 's product_score \<Rightarrow> ('s \<times> 's evaluator \<times> 's product_score) option" where
  "evaluate (Category_Evaluator weight page n) p = (let (s, n') = category_evaluate weight page n p in Some (s, Category_Evaluator weight page n', p))"
| "evaluate (Offer_Count_Evaluator table) p = Some (offer_count_evaluate table p, Offer_Count_Evaluator table, p)"
| "evaluate (Diversity_Evaluator table lastCat rounds) p =
     map_option (\<lambda>(s, lastCat', rounds', p'). (s, Diversity_Evaluator table lastCat' rounds', p')) (diversity_evaluate table lastCat rounds p)"
| "evaluate (Merchant_Evaluator mgr categories parentIds) p =
     map_option (\<lambda>(s, ids). (s, Merchant_Evaluator mgr categories ids, p)) (merchant_evaluate mgr categories parentIds p)"
| "evaluate (Random_Evaluator gen n) p = Some (gen n, Random_Evaluator gen (Suc n), p)"

section \<open>The ranker\<close>

text \<open>\<open>evaluateScore_\<close>, the evaluators after it and the product with its scores.\<close>

fun evaluateScore :: "'s :: floor_ceiling evaluator list \<Rightarrow> 's product_score \<Rightarrow> ('s evaluator list \<times> 's product_score) option" where
  "evaluateScore [] p = Some ([], p)"
| "evaluateScore (ev # evs) p =
     Option.bind (evaluate ev p) (\<lambda>(score, ev', p'). 
       map_option (\<lambda>(evs', p''). (ev' # evs', p'')) (evaluateScore evs (p'\<lparr>ps_rankScores := ps_rankScores p' @ [score]\<rparr>)))"

fun load_loop :: "'s :: floor_ceiling rank_param \<Rightarrow> nat list \<Rightarrow> 's evaluator list \<Rightarrow> 's product_score list \<Rightarrow> ('s evaluator list \<times> 's product_score list) option" where
  "load_loop param [] evs scoreList = Some (evs, scoreList)"
| "load_loop param (i # is) evs scoreList =
     Option.bind (vec_at (rp_docIds param) i) (\<lambda>doc. Option.bind (vec_at (rp_topKScores param) i) (\<lambda>score.
       Option.bind (evaluateScore evs (product_score_new doc score (int (rp_docNum param)))) (\<lambda>(evs', p). load_loop param is evs' (scoreList @ [p]))))"

definition loadScore :: "'s :: floor_ceiling rank_param \<Rightarrow> 's evaluator list \<Rightarrow> ('s evaluator list \<times> 's product_score list) option" where
  "loadScore param evs = load_loop param [0..<rp_docNum param] evs []"

text \<open>\<open>std::stable_sort\<close>: elements that do not precede each other keep their order.\<close>

fun stable_insert :: "('a \<Rightarrow> 'a \<Rightarrow> bool) \<Rightarrow> 'a \<Rightarrow> 'a list \<Rightarrow> 'a list" where
  "stable_insert lt x [] = [x]"
| "stable_insert lt x (y # ys) = (if lt y x then y # stable_insert lt x ys else x # y # ys)"

definition stable_sort :: "('a \<Rightarrow> 'a \<Rightarrow> bool) \<Rightarrow> 'a list \<Rightarrow> 'a list" where
  "stable_sort lt xs = foldr (stable_insert lt) xs []"

definition sortScore :: "'s :: linorder product_score list \<Rightarrow> 's product_score list" where
  "sortScore scoreList = stable_sort score_precedes scoreList"

definition fetchResult :: "'s product_score list \<Rightarrow> 's rank_param \<Rightarrow> 's rank_param" where
  "fetchResult scoreList param = param\<lparr>
     rp_docIds := foldl (\<lambda>l i. l[i := ps_docId (scoreList ! i)]) (rp_docIds param) [0..<rp_docNum param],
     rp_topKScores := foldl (\<lambda>l i. l[i := ps_topKScore (scoreList ! i)]) (rp_topKScores param) [0..<rp_docNum param]\<rparr>"

definition rank :: "'s :: floor_ceiling evaluator list \<Rightarrow> 's rank_param \<Rightarrow> 's rank_param option" where
  "rank evs param = map_option (\<lambda>(evs', scoreList). fetchResult (sortScore scoreList) param) (loadScore param evs)"

section \<open>The factory\<close>

record 's rank_factory =
  rf_customWeight :: 's
  rf_categoryWeight :: 's
  rf_randomWeight :: 's
  rf_categoryValueTable :: "prop_value_table option"
  rf_offerItemCountTable :: "(docid \<Rightarrow> int option) option"
  rf_diversityValueTable :: "prop_value_table option"
  rf_merchantScoreManager :: "'s merchant_score_mgr option"

definition kZambeziCategoryScoreWeight :: "'s :: floor_ceiling" where "kZambeziCategoryScoreWeight = 1"
definition kMinClassifyScore :: "'s :: floor_ceiling" where "kMinClassifyScore = 1 / 10000"

definition minCustomCategoryWeight :: "'s :: floor_ceiling rank_factory \<Rightarrow> 's" where
  "minCustomCategoryWeight f =
     (if rf_customWeight f = 0 then rf_categoryWeight f
      else if rf_categoryWeight f = 0 then rf_customWeight f
      else min (rf_customWeight f) (rf_categoryWeight f))"

definition addCategoryEvaluator :: "'s :: floor_ceiling rank_factory \<Rightarrow> searching_mode \<Rightarrow> bool \<Rightarrow> 's evaluator list" where
  "addCategoryEvaluator f searchMode isDiverseInPage =
     (let (weight, page) =
        (if searchMode = ZAMBEZI then (kZambeziCategoryScoreWeight, False)
         else if isDiverseInPage then (rf_customWeight f, isDiverseInPage)
         else if searchMode = SUFFIX_MATCH then (kMinClassifyScore, isDiverseInPage)
         else (minCustomCategoryWeight f, isDiverseInPage))
      in [Category_Evaluator weight page 0])"

definition addRandomEvaluator :: "(nat \<Rightarrow> 's) \<Rightarrow> 's :: floor_ceiling rank_factory \<Rightarrow> 's evaluator list" where
  "addRandomEvaluator gen f = (if rf_randomWeight f \<noteq> 0 then [Random_Evaluator gen 0] else [])"

definition addOfferItemCountEvaluator :: "'s rank_factory \<Rightarrow> searching_mode \<Rightarrow> bool \<Rightarrow> 's evaluator list" where
  "addOfferItemCountEvaluator f searchMode isDiverseInPage =
     (case rf_offerItemCountTable f of
        None \<Rightarrow> []
      | Some table \<Rightarrow> if isDiverseInPage \<or> searchMode = ZAMBEZI then [] else [Offer_Count_Evaluator table])"

definition addDiversityEvaluator :: "'s :: zero rank_factory \<Rightarrow> 's evaluator list" where
  "addDiversityEvaluator f = (case rf_diversityValueTable f of None \<Rightarrow> [] | Some t \<Rightarrow> [Diversity_Evaluator t 0 (\<lambda>_. 0)])"

definition addMerchantScoreEvaluator :: "'s rank_factory \<Rightarrow> 's evaluator list" where
  "addMerchantScoreEvaluator f =
     (case (rf_diversityValueTable f, rf_merchantScoreManager f) of
        (Some _, Some mgr) \<Rightarrow> [Merchant_Evaluator mgr (rf_categoryValueTable f) []]
      | _ \<Rightarrow> [])"

definition createProductRanker :: "char_class \<Rightarrow> (string \<Rightarrow> ustring) \<Rightarrow> (nat \<Rightarrow> 's) \<Rightarrow> 's :: floor_ceiling rank_factory \<Rightarrow> 's rank_param \<Rightarrow> 's evaluator list" where
  "createProductRanker cc enc gen f param =
     (let page = isLongQuery cc enc (rp_query param) in
      addCategoryEvaluator f (rp_searchMode param) page @
      (if rp_isRandomRank param then addRandomEvaluator gen f
       else addOfferItemCountEvaluator f (rp_searchMode param) page @ addDiversityEvaluator f @ addMerchantScoreEvaluator f))"

end
