(* ===== verification/Product_Order.thy ===== *)
theory Product_Order
  imports Product_Rank
begin

text \<open>
  What the ranking of products (\<open>Product_Rank\<close>) shows: the products are sorted by their scores, and products of the same category alternate between
  their merchants.
\<close>

section \<open>Stable sorting\<close>

lemma mset_stable_insert [simp]: "mset (stable_insert lt x ys) = add_mset x (mset ys)"
  by (induction ys) auto

lemma mset_stable_sort [simp]: "mset (stable_sort lt xs) = mset xs"
  by (induction xs) (simp_all add: stable_sort_def)

lemma set_stable_sort [simp]: "set (stable_sort lt xs) = set xs"
  by (metis mset_stable_sort set_mset_mset)

lemma length_stable_sort [simp]: "length (stable_sort lt xs) = length xs"
  by (metis mset_stable_sort size_mset)

lemma set_stable_insert [simp]: "set (stable_insert lt x ys) = insert x (set ys)"
  by (induction ys) auto

lemma sorted_stable_insert:
  "sorted_wrt (\<lambda>a b. \<not> score_precedes b a) ys \<Longrightarrow> sorted_wrt (\<lambda>a b. \<not> score_precedes b a) (stable_insert score_precedes x ys)"
  by (induction ys) (auto simp: score_precedes_def)

lemma sorted_sortScore: "sorted_wrt (\<lambda>a b. \<not> score_precedes b a) (sortScore xs)"
  unfolding sortScore_def stable_sort_def by (induction xs) (simp_all add: sorted_stable_insert)

text \<open>Products with equal scores keep their order.\<close>

lemma filter_stable_insert:
  "filter (\<lambda>p. ps_rankScores p = r) (stable_insert score_precedes x ys) = (if ps_rankScores x = r then [x] else []) @ filter (\<lambda>p. ps_rankScores p = r) ys"
  by (induction ys) (auto simp: score_precedes_def)

lemma sortScore_stable: "filter (\<lambda>p. ps_rankScores p = r) (sortScore xs) = filter (\<lambda>p. ps_rankScores p = r) xs"
  unfolding sortScore_def stable_sort_def by (induction xs) (simp_all add: filter_stable_insert)

text \<open>The positions of two products of which one precedes the other.\<close>

lemma sortScore_precedes:
  assumes "i < length xs" "j < length xs" "score_precedes (xs ! i) (xs ! j)"
  shows "\<exists>i' j'. i' < j' \<and> j' < length xs \<and> sortScore xs ! i' = xs ! i \<and> sortScore xs ! j' = xs ! j"
proof -
  have len: "length (sortScore xs) = length xs" "set (sortScore xs) = set xs" by (simp_all add: sortScore_def)
  obtain i' j' where ij: "i' < length xs" "sortScore xs ! i' = xs ! i" "j' < length xs" "sortScore xs ! j' = xs ! j"
    using assms(1,2) len by (metis in_set_conv_nth nth_mem)
  have "\<not> j' < i'"
    using sorted_wrt_nth_less [OF sorted_sortScore, of j' i' xs] ij assms(3) len by auto
  moreover have "i' \<noteq> j'" using ij assms(3) by (auto simp: score_precedes_def)
  ultimately show ?thesis using ij by (metis linorder_neqE_nat)
qed

section \<open>Results\<close>

lemma write_all:
  assumes "n \<le> length l"
  shows "foldl (\<lambda>l i. l[i := f i]) l [0..<n] = map f [0..<n] @ drop n l"
  using assms
proof (induction n)
  case (Suc n)
  then have "drop n l = l ! n # drop (Suc n) l" by (simp add: Cons_nth_drop_Suc)
  then show ?case using Suc by (simp add: list_update_append)
qed simp

lemma map_nth_all: "n = length ps \<Longrightarrow> map (\<lambda>i. f (ps ! i)) [0..<n] = map f ps"
  by (rule nth_equalityI) simp_all

lemma fetchResult_lists:
  assumes "length ps = rp_docNum param" "rp_docNum param \<le> length (rp_docIds param)" "rp_docNum param \<le> length (rp_topKScores param)"
  shows "rp_docIds (fetchResult ps param) = map ps_docId ps @ drop (rp_docNum param) (rp_docIds param)"
    "rp_topKScores (fetchResult ps param) = map ps_topKScore ps @ drop (rp_docNum param) (rp_topKScores param)"
  using write_all [OF assms(2)] write_all [OF assms(3)] assms(1) by (simp_all add: fetchResult_def map_nth_all)

section \<open>Loading\<close>

text \<open>\<open>loadScore_\<close> as a walk over the products.\<close>

fun load_list :: "int \<Rightarrow> 's :: floor_ceiling evaluator list \<Rightarrow> (docid \<times> 's) list \<Rightarrow> 's product_score list option" where
  "load_list num evs [] = Some []"
| "load_list num evs ((d, s) # xs) = Option.bind (evaluateScore evs (product_score_new d s num)) (\<lambda>(evs', p). map_option ((#) p) (load_list num evs' xs))"

lemma load_loop_list:
  assumes "n \<le> length (rp_docIds param)" "n \<le> length (rp_topKScores param)" "num = int (rp_docNum param)"
  shows "k \<le> n \<Longrightarrow> map_option snd (load_loop param [k..<n] evs acc) =
    map_option ((@) acc) (load_list num evs (drop k (zip (take n (rp_docIds param)) (take n (rp_topKScores param)))))"
proof (induction "n - k" arbitrary: k evs acc)
  case 0
  then show ?case by simp
next
  case (Suc m)
  then have k: "k < n" by simp
  have d: "drop k (zip (take n (rp_docIds param)) (take n (rp_topKScores param))) =
      (rp_docIds param ! k, rp_topKScores param ! k) # drop (Suc k) (zip (take n (rp_docIds param)) (take n (rp_topKScores param)))"
    using assms(1,2) k by (subst Cons_nth_drop_Suc [symmetric]) simp_all
  have u: "[k..<n] = k # [Suc k..<n]" using k by (rule upt_conv_Cons)
  have IH: "map_option snd (load_loop param [Suc k..<n] evs' acc') =
      map_option ((@) acc') (load_list num evs' (drop (Suc k) (zip (take n (rp_docIds param)) (take n (rp_topKScores param)))))" for evs' acc'
    by (rule Suc.hyps(1)) (use Suc.hyps(2) k in auto)
  have v: "vec_at (rp_docIds param) k = Some (rp_docIds param ! k)" "vec_at (rp_topKScores param) k = Some (rp_topKScores param ! k)" using assms(1,2) k by simp_all
  have app: "(@) (acc @ [b]) = (\<lambda>x. acc @ b # x)" for b by (simp add: fun_eq_iff)
  show ?case unfolding u d using IH v assms(3)
    by (cases "evaluateScore evs (product_score_new (rp_docIds param ! k) (rp_topKScores param ! k) num)") (auto simp: option.map_comp comp_def app)
qed

text \<open>The result of the ranking, in terms of the products with their scores.\<close>

lemma rank_result:
  assumes "n = rp_docNum param" "n \<le> length (rp_docIds param)" "n \<le> length (rp_topKScores param)"
    "load_list (int n) evs (zip (take n (rp_docIds param)) (take n (rp_topKScores param))) = Some ps" "length ps = n"
  shows "\<exists>param'. rank evs param = Some param' \<and> rp_docIds param' = map ps_docId (sortScore ps) @ drop n (rp_docIds param) \<and>
    rp_topKScores param' = map ps_topKScore (sortScore ps) @ drop n (rp_topKScores param)"
proof -
  have "map_option snd (load_loop param [0..<n] evs []) = Some ps"
    using load_loop_list [OF assms(2,3) refl, of 0 evs "[]"] assms(1,4) by (simp add: map_option.identity)
  then obtain evs' where "loadScore param evs = Some (evs', ps)" using assms(1) by (auto simp: loadScore_def)
  moreover have "length (sortScore ps) = rp_docNum param" using assms(1,5) by (simp add: sortScore_def)
  ultimately show ?thesis using fetchResult_lists [of "sortScore ps" param] assms by (simp add: rank_def)
qed

section \<open>Category scores\<close>

text \<open>The category scores of the products of a search with the given relevance scores, from a number of results on.\<close>

fun category_scores :: "'s :: floor_ceiling \<Rightarrow> bool \<Rightarrow> int \<Rightarrow> 's list \<Rightarrow> 's list" where
  "category_scores w page n [] = []"
| "category_scores w page n (s # ss) = (let (c, n') = category_evaluate w page n (product_score_new 0 s 0) in c # category_scores w page n' ss)"

lemma length_category_scores [simp]: "length (category_scores w page n ss) = length ss"
  by (induction w page n ss rule: category_scores.induct) (simp split: prod.splits)+

abbreviation quotient :: "'s :: floor_ceiling \<Rightarrow> 's \<Rightarrow> 's" where "quotient w s \<equiv> of_int (to_int (s / w))"

lemma quotient_mono:
  assumes "0 < w" "0 \<le> s" "s \<le> s'"
  shows "0 \<le> quotient w s" "quotient w s \<le> quotient w s'"
proof -
  have "0 \<le> s / w" "s / w \<le> s' / w" using assms by (simp_all add: divide_right_mono)
  then show "0 \<le> quotient w s" "quotient w s \<le> quotient w s'" by (simp_all add: to_int_def floor_mono)
qed

lemma page_mono: "m \<le> n \<Longrightarrow> n \<le> 0 \<Longrightarrow> m sdiv kEachPageResultNum \<le> n sdiv kEachPageResultNum" "n \<le> 0 \<Longrightarrow> n sdiv kEachPageResultNum \<le> 0"
  by (auto simp: signed_divide_int_def kEachPageResultNum_def sgn_if div_le_mono zdiv_mono1)

lemma category_scores_bound:
  "\<lbrakk>0 < w; n \<le> 0; \<forall>s\<in>set ss. 0 \<le> s \<and> s \<le> b; x \<in> set (category_scores w page n ss)\<rbrakk> \<Longrightarrow>
    x \<le> (if page \<and> quotient w b = 0 then of_int (n sdiv kEachPageResultNum) else quotient w b)"
proof (induction w page n ss rule: category_scores.induct)
  case (2 w page n s ss)
  obtain c n' where cn: "category_evaluate w page n (product_score_new 0 s 0) = (c, n')" by fastforce
  have s: "0 \<le> quotient w s" "quotient w s \<le> quotient w b" using quotient_mono [OF 2(2), of s b] 2(4) by auto
  have b0: "0 \<le> quotient w b" using s by linarith
  have pg: "of_int (n sdiv kEachPageResultNum) \<le> (0 :: 'a)" using page_mono(2) [OF 2(3)] by simp
  have c: "c = (if page \<and> quotient w s = 0 then of_int (n sdiv kEachPageResultNum) else quotient w s)" "n' = (if page \<and> quotient w s = 0 then n - 1 else n)"
    using cn 2(2) by (auto simp: category_evaluate_def product_score_new_def Let_def split: if_splits)
  have n': "n' \<le> 0" "n' \<le> n" using c(2) 2(3) by auto
  have le: "of_int (n' sdiv kEachPageResultNum) \<le> (of_int (n sdiv kEachPageResultNum) :: 'a)" using page_mono(1) [OF n'(2) 2(3)] by simp
  have "x = c \<or> x \<in> set (category_scores w page n' ss)" using 2(5) cn by simp
  then show ?case
  proof
    assume "x = c"
    then show ?thesis using c(1) s b0 pg by (auto split: if_splits)
  next
    assume "x \<in> set (category_scores w page n' ss)"
    from 2(1) [OF cn [symmetric] refl 2(2) n'(1) _ this] 2(4)
    have "x \<le> (if page \<and> quotient w b = 0 then of_int (n' sdiv kEachPageResultNum) else quotient w b)" by simp
    then show ?thesis using order_trans [OF _ le, of x] by (auto split: if_splits)
  qed
qed simp

lemma category_scores_zero: "category_scores 0 page n ss = replicate (length ss) 0"
  by (induction ss) (simp_all add: category_evaluate_def)

lemma category_scores_descend_pos:
  "\<lbrakk>0 < w; n \<le> 0; \<forall>s\<in>set ss. 0 \<le> s; sorted_wrt (\<ge>) ss\<rbrakk> \<Longrightarrow> sorted_wrt (\<ge>) (category_scores w page n ss)"
proof (induction w page n ss rule: category_scores.induct)
  case (2 w page n s ss)
  obtain c n' where cn: "category_evaluate w page n (product_score_new 0 s 0) = (c, n')" by fastforce
  have c: "c = (if page \<and> quotient w s = 0 then of_int (n sdiv kEachPageResultNum) else quotient w s)" "n' = (if page \<and> quotient w s = 0 then n - 1 else n)"
    using cn 2(2) by (auto simp: category_evaluate_def product_score_new_def Let_def split: if_splits)
  have n': "n' \<le> 0" "n' \<le> n" using c(2) 2(3) by auto
  have le: "of_int (n' sdiv kEachPageResultNum) \<le> (of_int (n sdiv kEachPageResultNum) :: 'a)" using page_mono(1) [OF n'(2) 2(3)] by simp
  have "x \<le> c" if "x \<in> set (category_scores w page n' ss)" for x
  proof -
    have "x \<le> (if page \<and> quotient w s = 0 then of_int (n' sdiv kEachPageResultNum) else quotient w s)"
      by (rule category_scores_bound [OF 2(2) n'(1) _ that]) (use 2(4,5) in auto)
    then show ?thesis unfolding c(1) using order_trans [OF _ le, of x] by (auto split: if_splits)
  qed
  moreover have "sorted_wrt (\<ge>) (category_scores w page n' ss)" using 2(1) [OF cn [symmetric] refl 2(2) n'(1)] 2(4,5) by simp
  ultimately show ?case using cn by simp
qed simp

lemma category_scores_descend:
  assumes "0 \<le> w" "n \<le> 0" "\<forall>s\<in>set ss. 0 \<le> s" "sorted_wrt (\<ge>) ss"
  shows "sorted_wrt (\<ge>) (category_scores w page n ss)"
proof (cases "w = 0")
  case True
  then show ?thesis by (simp add: category_scores_zero sorted_wrt_iff_nth_less)
next
  case False
  then show ?thesis using category_scores_descend_pos [OF _ assms(2-4)] assms(1) by simp
qed

section \<open>Rounds\<close>

text \<open>
  The rounds of a sequence of products with their category scores and, for products that take part, their merchants: the loop of the
  evaluator, and what it computes.
\<close>

fun rounds :: "'s \<Rightarrow> (pvid \<Rightarrow> int) \<Rightarrow> ('s \<times> pvid option) list \<Rightarrow> int list" where
  "rounds lastCat R [] = []"
| "rounds lastCat R ((c, None) # xs) = 0 # rounds lastCat R xs"
| "rounds lastCat R ((c, Some m) # xs) =
     (let R0 = (if lastCat \<noteq> c then (\<lambda>_. 0) else R) in R0 m # rounds c (R0(m := R0 m - 1)) xs)"

lemma rounds_count:
  "\<lbrakk>sorted_wrt (\<ge>) (map fst xs); (\<forall>x\<in>set xs. fst x \<le> lastCat) \<or> R = (\<lambda>_. 0); i < length xs; xs ! i = (c :: 's :: linorder, Some m)\<rbrakk> \<Longrightarrow>
    rounds lastCat R xs ! i = (if c = lastCat then R m else 0) - int (count_list (take i xs) (c, Some m))"
proof (induction lastCat R xs arbitrary: i rule: rounds.induct)
  case (2 lastCat R c0 xs)
  then obtain k where k: "i = Suc k" by (cases i) auto
  have "rounds lastCat R xs ! k = (if c = lastCat then R m else 0) - int (count_list (take k xs) (c, Some m))"
    by (rule 2(1)) (use 2 k in auto)
  then show ?case using k by simp
next
  case (3 lastCat R c0 m0 xs)
  let ?R0 = "if lastCat \<noteq> c0 then (\<lambda>_. 0) else R"
  show ?case
  proof (cases i)
    case 0
    then show ?thesis using 3 by simp
  next
    case (Suc k)
    have le: "\<forall>x\<in>set xs. fst x \<le> c0" using 3(2) by simp
    have "rounds c0 (?R0(m0 := ?R0 m0 - 1)) xs ! k = (if c = c0 then (?R0(m0 := ?R0 m0 - 1)) m else 0) - int (count_list (take k xs) (c, Some m))"
      by (rule 3(1) [OF refl]) (use 3 Suc le in auto)
    moreover have "R m = 0" if "c = lastCat" "c \<noteq> c0"
    proof -
      have "c \<in> fst ` set xs" using 3(4,5) Suc by (metis fst_conv image_eqI length_Cons nth_Cons_Suc nth_mem Suc_less_eq)
      then have "c < c0" using le that(2) by fastforce
      then show ?thesis using 3(3) that(1) by auto
    qed
    ultimately show ?thesis using Suc by (auto simp: Let_def)
  qed
qed simp

section \<open>Evaluators of a search\<close>

text \<open>
  The merchant of a product that takes part in the rounds: it has exactly one merchant and, when offers are counted, exactly one offer.
\<close>

definition round_merchant :: "(docid \<Rightarrow> int option) option \<Rightarrow> prop_value_table \<Rightarrow> docid \<Rightarrow> pvid option" where
  "round_merchant offers t d =
     (if (case offers of None \<Rightarrow> True | Some table \<Rightarrow> table d = Some 1)
      then case pid_ids (valueIdTable t) d of Some [m] \<Rightarrow> Some m | _ \<Rightarrow> None
      else None)"

definition offer_evs :: "(docid \<Rightarrow> int option) option \<Rightarrow> 's evaluator list" where
  "offer_evs offers = (case offers of None \<Rightarrow> [] | Some table \<Rightarrow> [Offer_Count_Evaluator table])"

definition merchant_evs :: "'s merchant_score_mgr option \<Rightarrow> prop_value_table option \<Rightarrow> pvid list \<Rightarrow> 's evaluator list" where
  "merchant_evs mgr categories ids = (case mgr of None \<Rightarrow> [] | Some g \<Rightarrow> [Merchant_Evaluator g categories ids])"

definition table_total :: "prop_value_table option \<Rightarrow> bool" where
  "table_total T \<longleftrightarrow> (\<forall>t. T = Some t \<longrightarrow> pvt_wf t \<and> docs_valid t)"

lemma read_ids_nth: "read_ids t l is = Some vs \<Longrightarrow> length vs = length is \<and> (\<forall>k<length is. prop_id_list_at t l (is ! k) = Some (vs ! k))"
proof (induction "is" arbitrary: vs)
  case (Cons i "is")
  then obtain v vs' where v: "prop_id_list_at t l i = Some v" "read_ids t l is = Some vs'" "vs = v # vs'" by (auto split: option.splits)
  from Cons.IH [OF v(2)] show ?case using v by (auto simp: nth_Cons')
qed simp

lemma id_list_view:
  assumes "pvt_wf t"
  obtains l ids where "pid_ids (valueIdTable t) d = Some ids" "pid_getIdList (valueIdTable t) d prop_id_list_init = Some l" "unat (il_size l) = length ids"
    "\<And>k. k < length ids \<Longrightarrow> prop_id_list_at (valueIdTable t) l k = Some (ids ! k)"
proof -
  obtain ids where ids: "pid_ids (valueIdTable t) d = Some ids" using pid_ids_wf [of "valueIdTable t" d] assms by (auto simp: pvt_wf_def)
  then obtain l where "pid_getIdList (valueIdTable t) d prop_id_list_init = Some l" "read_ids (valueIdTable t) l [0..<unat (il_size l)] = Some ids"
    by (auto simp: pid_ids_def split: option.splits)
  with read_ids_nth [OF this(2)] ids show thesis by (intro that [of ids l]) auto
qed

lemma merchant_step:
  assumes "table_total categories"
  shows "\<exists>ids' p' x. evaluateScore (merchant_evs mgr categories ids) p = Some (merchant_evs mgr categories ids', p') \<and> ps_docId p' = ps_docId p \<and>
    ps_topKScore p' = ps_topKScore p \<and> ps_rankScores p' = ps_rankScores p @ x"
proof (cases mgr)
  case None
  then show ?thesis by (simp add: merchant_evs_def)
next
  case (Some g)
  have "\<exists>s ids'. merchant_evaluate g categories ids p = Some (s, ids')"
  proof (cases categories)
    case t: (Some t)
    then have wf: "pvt_wf t" "docs_valid t" using assms by (auto simp: table_total_def)
    obtain l vs where v: "pid_ids (valueIdTable t) (ps_docId p) = Some vs" "pid_getIdList (valueIdTable t) (ps_docId p) prop_id_list_init = Some l"
      "unat (il_size l) = length vs" "\<And>k. k < length vs \<Longrightarrow> prop_id_list_at (valueIdTable t) l k = Some (vs ! k)"
      by (rule id_list_view [OF wf(1)]) blast
    obtain i where i: "getFirstValueId t (ps_docId p) = Some i" "unat i < length (propStrVec t)"
    proof (cases "vs = []")
      case True
      then have "il_size l = 0" using v(3) by (simp add: unat_eq_0)
      then show thesis using that [of 0] v(2) pvt_root_in_range [OF wf(1)] by (simp add: getFirstValueId_def)
    next
      case False
      then have "il_size l \<noteq> 0" "unat (vs ! 0) < length (propStrVec t)" using v(1,3) wf(2) by (auto simp: docs_valid_def)
      then show thesis using that [of "vs ! 0"] v(2,4) False by (simp add: getFirstValueId_def)
    qed
    obtain ids' where "getParentIds t i = Some ids'" using parent_walk_total [OF pvt_wf_tree [OF wf(1)] i(2)] by (auto simp: getParentIds_def)
    then show ?thesis using t i(1) by (simp add: merchant_evaluate_def)
  qed (simp add: merchant_evaluate_def)
  then obtain s ids' where "merchant_evaluate g categories ids p = Some (s, ids')" by blast
  then show ?thesis using Some by (simp add: merchant_evs_def)
qed

lemma diversity_step:
  assumes "pvt_wf t" "ps_rankScores p = c # os" "os = (case offers of None \<Rightarrow> [] | Some table \<Rightarrow> [offer_count_evaluate table p])"
  shows "\<exists>r p'. diversity_evaluate t lastCat R p =
      Some (r, (case round_merchant offers t (ps_docId p) of None \<Rightarrow> lastCat | Some m \<Rightarrow> c),
        (case round_merchant offers t (ps_docId p) of None \<Rightarrow> R | Some m \<Rightarrow> (let R0 = (if lastCat \<noteq> c then (\<lambda>_. 0) else R) in R0(m := R0 m - 1))), p') \<and>
    ps_docId p' = ps_docId p \<and> ps_topKScore p' = ps_topKScore p \<and> ps_rankScores p' = ps_rankScores p \<and>
    (\<forall>m. round_merchant offers t (ps_docId p) = Some m \<longrightarrow> (offers = None \<and> os = [] \<or> offers \<noteq> None \<and> os = [1]) \<and> r = of_int (if lastCat \<noteq> c then 0 else R m))"
proof -
  have off: "(os \<noteq> [] \<and> hd os \<noteq> 1) \<longleftrightarrow> \<not> (case offers of None \<Rightarrow> True | Some table \<Rightarrow> table (ps_docId p) = Some 1)"
    using assms(3) by (auto simp: offer_count_evaluate_def kMaxOfferItemCount_def min_def split: option.splits)
  obtain l vs where v: "pid_ids (valueIdTable t) (ps_docId p) = Some vs" "pid_getIdList (valueIdTable t) (ps_docId p) prop_id_list_init = Some l"
    "unat (il_size l) = length vs" "\<And>k. k < length vs \<Longrightarrow> prop_id_list_at (valueIdTable t) l k = Some (vs ! k)"
    by (rule id_list_view [OF assms(1)]) blast
  show ?thesis
  proof (cases "case offers of None \<Rightarrow> True | Some table \<Rightarrow> table (ps_docId p) = Some 1")
    case False
    then show ?thesis using off assms(2) by (simp add: diversity_evaluate_def round_merchant_def)
  next
    case True
    then have os: "offers = None \<and> os = [] \<or> offers \<noteq> None \<and> os = [1]" using off assms(3) by (cases offers) auto
    consider "vs = []" | m where "vs = [m]" | a b vs' where "vs = a # b # vs'" by (metis list.exhaust)
    then show ?thesis
    proof cases
      case 1
      then have "il_size l = 0" using v(3) by (simp add: unat_eq_0)
      then show ?thesis using 1 True off assms(2) v(1,2) by (simp add: diversity_evaluate_def round_merchant_def)
    next
      case (2 m)
      then have "il_size l = 1" "prop_id_list_at (valueIdTable t) l 0 = Some m" using v(3) v(4) [of 0] by (simp_all add: word_unat_eq_iff)
      then show ?thesis using 2 True off os assms(2) v(1,2) by (auto simp: diversity_evaluate_def round_merchant_def Let_def)
    next
      case 3
      then have "il_size l > 1" using v(3) by (simp add: word_less_nat_alt)
      then show ?thesis using 3 True off assms(2) v(1,2) by (simp add: diversity_evaluate_def round_merchant_def)
    qed
  qed
qed

lemma category_evaluate_cong: "ps_topKScore p = ps_topKScore q \<Longrightarrow> category_evaluate w page n p = category_evaluate w page n q"
  by (simp add: category_evaluate_def)

definition diverse_evs :: "'s \<Rightarrow> bool \<Rightarrow> int \<Rightarrow> (docid \<Rightarrow> int option) option \<Rightarrow> prop_value_table \<Rightarrow> 's \<Rightarrow> (pvid \<Rightarrow> int) \<Rightarrow> 's merchant_score_mgr option \<Rightarrow>
    prop_value_table option \<Rightarrow> pvid list \<Rightarrow> 's evaluator list" where
  "diverse_evs w page n offers t lastCat R mgr categories ids =
     Category_Evaluator w page n # offer_evs offers @ Diversity_Evaluator t lastCat R # merchant_evs mgr categories ids"

lemma diverse_step:
  fixes s :: "'s :: floor_ceiling"
  assumes "pvt_wf t" "table_total categories" "category_evaluate w page n (product_score_new 0 s 0) = (c, n')"
  shows "\<exists>p ids' x. evaluateScore (diverse_evs w page n offers t lastCat R mgr categories ids) (product_score_new d s num) =
      Some (diverse_evs w page n' offers t (case round_merchant offers t d of None \<Rightarrow> lastCat | Some m \<Rightarrow> c)
        (case round_merchant offers t d of None \<Rightarrow> R | Some m \<Rightarrow> (let R0 = (if lastCat \<noteq> c then (\<lambda>_. 0) else R) in R0(m := R0 m - 1))) mgr categories ids', p) \<and>
    ps_docId p = d \<and> ps_topKScore p = s \<and> ps_rankScores p = c # x \<and>
    (\<forall>m. round_merchant offers t d = Some m \<longrightarrow> (\<exists>y. x = (if offers = None then [] else [1]) @ of_int (if lastCat \<noteq> c then 0 else R m) # y))"
proof -
  define p1 where "p1 = (product_score_new d s num)\<lparr>ps_rankScores := [c]\<rparr>"
  define os where "os = (case offers of None \<Rightarrow> [] | Some table \<Rightarrow> [offer_count_evaluate table p1])"
  let ?p2 = "p1\<lparr>ps_rankScores := c # os\<rparr>"
  have cat: "category_evaluate w page n (product_score_new d s num) = (c, n')"
    using assms(3) category_evaluate_cong [of "product_score_new d s num" "product_score_new 0 s 0"] by (simp add: product_score_new_def)
  have os2: "os = (case offers of None \<Rightarrow> [] | Some table \<Rightarrow> [offer_count_evaluate table ?p2])" by (simp add: os_def offer_count_evaluate_def split: option.splits)
  have doc: "ps_docId ?p2 = d" "ps_topKScore ?p2 = s" "ps_rankScores ?p2 = c # os" by (simp_all add: p1_def product_score_new_def)
  obtain r p3 where D: "diversity_evaluate t lastCat R ?p2 =
      Some (r, (case round_merchant offers t d of None \<Rightarrow> lastCat | Some m \<Rightarrow> c),
        (case round_merchant offers t d of None \<Rightarrow> R | Some m \<Rightarrow> (let R0 = (if lastCat \<noteq> c then (\<lambda>_. 0) else R) in R0(m := R0 m - 1))), p3)"
    "ps_docId p3 = d" "ps_topKScore p3 = s" "ps_rankScores p3 = c # os"
    "\<And>m. round_merchant offers t d = Some m \<Longrightarrow> (offers = None \<and> os = [] \<or> offers \<noteq> None \<and> os = [1]) \<and> r = of_int (if lastCat \<noteq> c then 0 else R m)"
    using diversity_step [OF assms(1) doc(3) os2, of lastCat R] unfolding doc by blast
  obtain ids' p x where M: "evaluateScore (merchant_evs mgr categories ids) (p3\<lparr>ps_rankScores := ps_rankScores p3 @ [r]\<rparr>) = Some (merchant_evs mgr categories ids', p)"
    "ps_docId p = d" "ps_topKScore p = s" "ps_rankScores p = c # os @ r # x"
    using merchant_step [OF assms(2), of mgr ids "p3\<lparr>ps_rankScores := ps_rankScores p3 @ [r]\<rparr>"] D(2-4) by auto
  have "ps_rankScores (product_score_new d s num) @ [c] = [c]" by (simp add: product_score_new_def)
  then have "evaluateScore (diverse_evs w page n offers t lastCat R mgr categories ids) (product_score_new d s num) =
      map_option (\<lambda>(evs, p). (Category_Evaluator w page n' # evs, p)) (evaluateScore (offer_evs offers @ Diversity_Evaluator t lastCat R # merchant_evs mgr categories ids) p1)"
    using cat by (simp add: diverse_evs_def p1_def)
  moreover have "evaluateScore (offer_evs offers @ Diversity_Evaluator t lastCat R # merchant_evs mgr categories ids) p1 =
      map_option (\<lambda>(evs, p). (offer_evs offers @ evs, p)) (evaluateScore (Diversity_Evaluator t lastCat R # merchant_evs mgr categories ids) ?p2)"
    by (cases offers) (simp_all add: offer_evs_def os_def p1_def option.map_comp comp_def split_def option.map_ident)
  ultimately have "evaluateScore (diverse_evs w page n offers t lastCat R mgr categories ids) (product_score_new d s num) =
      Some (diverse_evs w page n' offers t (case round_merchant offers t d of None \<Rightarrow> lastCat | Some m \<Rightarrow> c)
        (case round_merchant offers t d of None \<Rightarrow> R | Some m \<Rightarrow> (let R0 = (if lastCat \<noteq> c then (\<lambda>_. 0) else R) in R0(m := R0 m - 1))) mgr categories ids', p)"
    using D(1) M(1) by (simp add: diverse_evs_def)
  moreover have "\<exists>y. os @ r # x = (if offers = None then [] else [1]) @ of_int (if lastCat \<noteq> c then 0 else R m) # y" if "round_merchant offers t d = Some m" for m
    using D(5) [OF that] by auto
  ultimately show ?thesis using M(2-4) by blast
qed

lemma load_diverse:
  fixes ss :: "'s :: floor_ceiling list"
  assumes "pvt_wf t" "table_total categories"
  shows "length ds = length ss \<Longrightarrow> \<exists>ps. load_list num (diverse_evs w page n offers t lastCat R mgr categories ids) (zip ds ss) = Some ps \<and>
    map ps_docId ps = ds \<and> map ps_topKScore ps = ss \<and>
    (\<forall>i<length ds. (\<exists>x. ps_rankScores (ps ! i) = category_scores w page n ss ! i # x) \<and>
      (\<forall>m. round_merchant offers t (ds ! i) = Some m \<longrightarrow> (\<exists>y. ps_rankScores (ps ! i) = category_scores w page n ss ! i # (if offers = None then [] else [1]) @
        of_int (rounds lastCat R (zip (category_scores w page n ss) (map (round_merchant offers t) ds)) ! i) # y)))"
proof (induction ds ss arbitrary: n lastCat R ids rule: list_induct2')
  case (4 d ds s ss)
  obtain c n' where cn: "category_evaluate w page n (product_score_new 0 s 0) = (c, n')" by fastforce
  define lastCat' where "lastCat' = (case round_merchant offers t d of None \<Rightarrow> lastCat | Some m \<Rightarrow> c)"
  define R' where "R' = (case round_merchant offers t d of None \<Rightarrow> R | Some m \<Rightarrow> (let R0 = (if lastCat \<noteq> c then (\<lambda>_. 0) else R) in R0(m := R0 m - 1)))"
  obtain p ids' x where p: "evaluateScore (diverse_evs w page n offers t lastCat R mgr categories ids) (product_score_new d s num) =
      Some (diverse_evs w page n' offers t lastCat' R' mgr categories ids', p)" "ps_docId p = d" "ps_topKScore p = s" "ps_rankScores p = c # x"
    "\<And>m. round_merchant offers t d = Some m \<Longrightarrow> \<exists>y. x = (if offers = None then [] else [1]) @ of_int (if lastCat \<noteq> c then 0 else R m) # y"
    using diverse_step [OF assms cn, of offers lastCat R mgr ids d num] unfolding lastCat'_def R'_def by blast
  let ?cs = "category_scores w page n' ss" and ?ms = "map (round_merchant offers t) ds"
  have "length ds = length ss" using 4(2) by simp
  from 4(1) [OF this, of n' lastCat' R' ids'] obtain ps where ps: "load_list num (diverse_evs w page n' offers t lastCat' R' mgr categories ids') (zip ds ss) = Some ps"
    "map ps_docId ps = ds" "map ps_topKScore ps = ss"
    "\<And>i. i < length ds \<Longrightarrow> (\<exists>x. ps_rankScores (ps ! i) = ?cs ! i # x) \<and>
      (\<forall>m. round_merchant offers t (ds ! i) = Some m \<longrightarrow> (\<exists>y. ps_rankScores (ps ! i) = ?cs ! i # (if offers = None then [] else [1]) @ of_int (rounds lastCat' R' (zip ?cs ?ms) ! i) # y))"
    by blast
  have cs: "category_scores w page n (s # ss) = c # ?cs" using cn by simp
  have rs: "rounds lastCat R (zip (c # ?cs) (round_merchant offers t d # ?ms)) =
      (case round_merchant offers t d of None \<Rightarrow> 0 | Some m \<Rightarrow> (if lastCat \<noteq> c then 0 else R m)) # rounds lastCat' R' (zip ?cs ?ms)"
    by (cases "round_merchant offers t d") (simp_all add: lastCat'_def R'_def Let_def)
  have "(\<exists>x. ps_rankScores ((p # ps) ! i) = (c # ?cs) ! i # x) \<and>
      (\<forall>m. round_merchant offers t ((d # ds) ! i) = Some m \<longrightarrow> (\<exists>y. ps_rankScores ((p # ps) ! i) = (c # ?cs) ! i # (if offers = None then [] else [1]) @
        of_int (rounds lastCat R (zip (c # ?cs) (round_merchant offers t d # ?ms)) ! i) # y))" if "i < Suc (length ds)" for i
  proof (cases i)
    case 0
    then show ?thesis using p(4,5) unfolding rs by auto
  next
    case (Suc k)
    then show ?thesis using ps(4) [of k] that unfolding rs by simp
  qed
  then show ?case using p(1-3) ps(1-3) unfolding cs by (intro exI [of _ "p # ps"]) simp
qed simp_all

section \<open>Properties\<close>

text \<open>
  What decides about the place of a product in a search with merchants: its category score, and its merchant when it takes part in the rounds.
\<close>

definition ranked_categories :: "'s :: floor_ceiling rank_factory \<Rightarrow> searching_mode \<Rightarrow> bool \<Rightarrow> 's list \<Rightarrow> 's list" where
  "ranked_categories f mode long scores = (case addCategoryEvaluator f mode long of [Category_Evaluator w page n] \<Rightarrow> category_scores w page n scores | _ \<Rightarrow> [])"

definition counted_offers :: "'s rank_factory \<Rightarrow> searching_mode \<Rightarrow> bool \<Rightarrow> (docid \<Rightarrow> int option) option" where
  "counted_offers f mode long = (if long \<or> mode = ZAMBEZI then None else rf_offerItemCountTable f)"

definition round_keys :: "'s :: floor_ceiling rank_factory \<Rightarrow> prop_value_table \<Rightarrow> searching_mode \<Rightarrow> bool \<Rightarrow> docid list \<Rightarrow> 's list \<Rightarrow> ('s \<times> pvid option) list" where
  "round_keys f t mode long docs scores = zip (ranked_categories f mode long scores) (map (round_merchant (counted_offers f mode long) t) docs)"

lemma category_evaluator:
  assumes "0 \<le> rf_customWeight f" "0 \<le> rf_categoryWeight f"
  obtains w page where "addCategoryEvaluator f mode long = [Category_Evaluator w page 0]" "0 \<le> w"
proof -
  have "0 \<le> minCustomCategoryWeight f" "0 \<le> (kZambeziCategoryScoreWeight :: 'a)" "0 \<le> (kMinClassifyScore :: 'a)"
    using assms by (simp_all add: minCustomCategoryWeight_def kZambeziCategoryScoreWeight_def kMinClassifyScore_def)
  then show thesis using assms that unfolding addCategoryEvaluator_def by (cases "mode = ZAMBEZI"; cases long; cases "mode = SUFFIX_MATCH") auto
qed

lemma created_ranker:
  assumes "rf_diversityValueTable f = Some t" "addCategoryEvaluator f (rp_searchMode param) (isLongQuery cc enc (rp_query param)) = [Category_Evaluator w page 0]"
    "\<not> rp_isRandomRank param"
  shows "createProductRanker cc enc gen f param =
    diverse_evs w page 0 (counted_offers f (rp_searchMode param) (isLongQuery cc enc (rp_query param))) t 0 (\<lambda>_. 0) (rf_merchantScoreManager f) (rf_categoryValueTable f) []"
  using assms by (auto simp: createProductRanker_def diverse_evs_def counted_offers_def addOfferItemCountEvaluator_def addDiversityEvaluator_def addMerchantScoreEvaluator_def
      offer_evs_def merchant_evs_def Let_def split: option.splits)

lemma append_less: "(a :: 'a :: linorder) < b \<Longrightarrow> os @ a # y < os @ b # x"
  by (induction os) simp_all

lemma round_order:
  assumes "ps_rankScores p = c # os @ of_int r # x" "ps_rankScores q = c # os @ of_int r' # (y :: 's :: floor_ceiling list)" "r' < r"
  shows "score_precedes p q"
  using assms by (simp add: score_precedes_def append_less)


section \<open>Witness\<close>

text \<open>Three products, two of the first merchant and one of the second: the product of the second merchant comes before the second product of the first.\<close>

definition shop_table :: prop_value_table where
  "shop_table = (pvt_init [] [])\<lparr>valueIdTable := \<lparr>indexTable = [0, 1, 1, 2], multiValueTable = []\<rparr>\<rparr>"

definition shop_factory :: "rat rank_factory" where
  "shop_factory = \<lparr>rf_customWeight = 0, rf_categoryWeight = 1, rf_randomWeight = 0, rf_categoryValueTable = None, rf_offerItemCountTable = None,
     rf_diversityValueTable = Some shop_table, rf_merchantScoreManager = None\<rparr>"

definition shop_param :: "rat rank_param" where
  "shop_param = rank_param_new [1, 2, 3] [1, 1, 1] False [] DefaultSearchingMode"

definition no_class :: char_class where
  "no_class = \<lparr>isThisAlphaChar = (\<lambda>_. False), isThisNumericChar = (\<lambda>_. False), isThisPunctuationChar = (\<lambda>_. False), isThisSpaceChar = (\<lambda>_. False)\<rparr>"

lemma shop_merchants: "map (round_merchant None shop_table) [1, 2, 3] = [Some 1, Some 1, Some 2]"
  by (simp add: round_merchant_def shop_table_def pid_ids_def pid_getIdList_def prop_id_list_clear_def prop_id_list_init_def prop_id_list_at_def single_tag word_less_nat_alt Let_def)


end
