(* ===== verification/Spec2Isabelle.thy ===== *)
theory Spec2Isabelle
  imports Scd_Dispatch Filter_Rep Query_Run Merge_Order Page_Split Crc_Table Recovery_Run Log_Check Product_Order
begin

text \<open>
  \<^bold>\<open>A verification library for the SF1 search engine (sf1r-lite).\<close>

  The program indexes documents on several nodes and answers searches with ranked documents and with groups (facets) of the
  results. This development models the parts that carry its own logic: the tables that hold the groups of every document and the
  tasks that fill them, the counting of groups during a search, the iterators over the documents of a query, the ranking of products by categories and merchants, the sharding of
  documents over the nodes, the merging of the results of the nodes, and the log of write requests with the recovery of a node from it. Paths below are relative to \<^verbatim>\<open>src/source\<close>.

  \<^bold>\<open>Parts and theories.\<close>

  \<^item> \<open>Prelude\<close>: names for the machine types (\<open>u32\<close>, \<open>u64\<close>, \<open>docid\<close>), the exceptions of the sources, the operations of
    \<^verbatim>\<open>std::vector\<close> with the reads out of range written out, and the lemmas on lists and words that the other theories share.
    \<open>Ordered_Map\<close>: a \<^verbatim>\<open>std::map\<close> or \<^verbatim>\<open>std::multimap\<close> as the list of its entries in the order of iteration.

  \<^item> Tables (\<^verbatim>\<open>core/mining-manager/group-manager\<close>, \<^verbatim>\<open>attr-manager\<close>, \<^verbatim>\<open>util\<close>): \<open>Prop_Id_Table\<close> (PropIdTable.h, the value ids of each
    document with the flag bit that tells one id from a list), \<open>Split_Ustr\<close> (split_ustr.cpp, the parser of group paths and attribute
    pairs), \<open>File_Container\<close> (fcontainer_febird.h), \<open>Prop_Value_Table\<close> (PropValueTable.cpp), \<open>Attr_Table\<close> (AttrTable.cpp),
    \<open>Date_Group\<close> (DateGroupTable, DateStrFormat, DateStrParser), \<open>Mining_Task\<close> (GroupMiningTask.h, AttrMiningTask.cpp, TableSwapper.h). The
    lemmas show that what is inserted is found again, that ids and paths stand for each other, that a table survives its files, that
    a task adds to a table exactly the values of its documents and that a failed task leaves the table of the readers alone.

  \<^item> Groups of a search (\<^verbatim>\<open>core/mining-manager/group-manager\<close>): \<open>Group_Param\<close> (GroupParam.cpp), \<open>Counter_Builder\<close>
    (GroupCounterLabelBuilder.cpp, GroupFilterBuilder.cpp), \<open>Group_Filter\<close> (GroupFilter.cpp and the labels), the counters
    \<open>String_Counter\<close> with \<open>String_Facets\<close>, \<open>Value_Counter\<close> (dates and numbers), \<open>Attr_Counter\<close>, \<open>Group_Rep\<close> with \<open>Group_Range\<close>,
    \<open>Range_Items\<close> and \<open>Range_Partition\<close> (GroupRep.cpp, NumericRangeGroupCounter.cpp), \<open>Group_Resize\<close> (ResizeTo) and
    \<open>Filter_Rep\<close> (the response). The lemmas show that a request the validation accepts gets a filter, that the filter accepts the documents
    that all selected labels match, that each counter counts the documents of its group (a label does not restrict its own property),
    that the ranges partition the documents with a value, and that the response keeps the largest groups.

  \<^item> Search (\<^verbatim>\<open>core/search-manager\<close>): \<open>Doc_Iterator\<close>, \<open>Or_Iterator\<close>, \<open>Query_Iterator\<close> and \<open>Query_Run\<close> (ANDDocumentIterator, ORDocumentIterator,
    NOTDocumentIterator, AllDocumentIterator.h, FilterDocumentIterator.h) and \<open>Priority_Queue\<close> (PriorityQueue.h). The iterators refine
    a cursor over a sorted list of documents; the conjunction, the disjunction and the excluded documents are the intersection, the union
    and the difference of the lists of their children.

  \<^item> Ranking (\<^verbatim>\<open>core/mining-manager\<close>): \<open>Merchant_Score\<close> (merchant-score-manager: scores of merchants by category, over the tables of values),
    \<open>Product_Rank\<close> with \<open>Product_Order\<close> (product-ranker: the evaluators, the ranker and its factory) and \<open>Query_Normal\<close> (\<^verbatim>\<open>core/common/QueryNormalizer.cpp\<close>: the normal
    form and the length of a query). A merchant gets the score of the most specific category of a product; products are ranked by category score, and merchants
    take turns within a category.

  \<^item> Distribution: \<open>Sharding\<close> and \<open>Scd_Dispatch\<close> (\<^verbatim>\<open>core/node-manager/sharding\<close>: to which shard a document goes, where it is looked up,
    and how SCD files are split), \<open>Merge_Compare\<close>, \<open>Attr_Rep_Merge\<close>, \<open>Search_Merger\<close>, \<open>Merge_Order\<close> and \<open>Page_Split\<close>
    (\<^verbatim>\<open>core/aggregator-manager\<close>: SearchMerger.cpp, MergeComparator.cpp; \<^verbatim>\<open>ontology_rep.h\<close>). A merged result has the best documents
    of all workers in order, and a page of it survives its way to the workers and back.

  \<^item> Recovery (\<^verbatim>\<open>core/node-manager\<close>): \<open>Req_Log\<close> (RequestLog.h, RequestLog.cpp: the head file with a record for every write request, the data files, and
    the manager that prepares, appends and finds requests), \<open>Req_Data\<close> (the classes of requests and their packed form), \<open>Crc_Table\<close> (the checksum),
    \<open>Req_Log_Run\<close> and \<open>Req_Log_Read\<close> (runs of the log as the step relation \<open>log_run\<close>: prepare, append, drop, restart), \<open>Recovery_Log\<close> (RecoveryChecker.cpp: the
    flags, \<open>redoLog\<close>, \<open>replayLog\<close>, \<open>checkIfLogForward\<close>, \<open>onRecoverCheckLog\<close>), \<open>Recovery_Run\<close> and \<open>Log_Check\<close>. Every run of the log refines the sequence of the
    requests that were appended: they are read back in order, found by their numbers and survive a restart; the recovery does exactly the logged requests
    again, and a node whose log passes the comparison has a prefix of the log of its primary.

  \<^bold>\<open>How the code is modelled.\<close> A class is a record, its methods are functions that return the changed record; one definition stands for
  one function of the source, or for one of its loops. Unsigned integers keep their width; counts that cannot reach their bound are
  natural numbers. A read or write out of range, which the source leaves undefined, is the value \<open>None\<close>; an exception is the left
  side of a sum. Locks are left out: each public operation holds its lock for the whole body and is one step. Numbers of type
  \<open>float\<close> and \<open>double\<close> are elements of a linear order or an ordered ring without NaN. Loops whose end the source does not ensure
  (the walk over parents in \<open>Prop_Value_Table\<close>, the loops of the iterators) are partial functions with \<open>None\<close> for a loop
  that does not end; the properties show the result for well-formed tables and children. All other loops are total functions. The loop
  that compares two logs asks other nodes until they answer: it takes the list of the answers and is \<open>None\<close> when they are used up. The request
  log is described while its files are shorter than 2 GB (\<open>small_files\<close>), since the source holds the length of the head file in an \<open>int\<close>.

  \<^bold>\<open>Interfaces.\<close> A contract between components is a locale, interpreted on the model: \<open>doc_id_table\<close> on the table of ids, \<open>mining_table\<close>
  on the three tables that a task can fill, \<open>count_table\<close> on the ordered maps, \<open>priority_queue\<close>, \<open>iter_queue\<close> and \<open>top_queue\<close> on the
  heap of PriorityQueue.h, \<open>doc_iterator\<close> and \<open>or_parts\<close> on the iterators over posting lists, \<open>sharding_strategy\<close> on the hash and the map
  strategy, \<open>value_ids\<close> on the table of property values that the merchant scores use.

  \<^bold>\<open>Code outside of the repository\<close> is an argument: the archive of febird, \<open>UString::compact\<close> and \<open>compare\<close>, Boost's lexical_cast, tokenizer
  and format, the SCD parser, the priority queue of izenelib, the packing of worker and document ids of the aggregator library, MessagePack, the JSON reader, the tests of characters of \<open>UString\<close>, random
  numbers. The handler of
  logged requests (DistributeDriver) and the answers of other nodes are arguments of the recovery.

  \<^bold>\<open>Not modelled.\<close> Node and master managers (ZooKeeper), RPC and HTTP controllers, the XML configuration, the inverted index and the suffix
  index (izenelib), text summarization (vendored linear algebra), language analysis, query recommendation, advertisements and logging: they
  are mainly I/O, glue around libraries that are not part of the repository, or floating-point heuristics without a stated contract.
  Of the recovery, the copying of backups and the transfer of files and logs from the primary are left out. Inside the modelled parts, the printing of objects, the serialization macros and the exchange of two objects (\<open>swap\<close>) are left out.
\<close>

end
